(* ===== verification/VT_Prelude.thy ===== *)
theory VT_Prelude
  imports Main "HOL-Library.Word" "HOL-Library.List_Lexorder" "HOL-Library.Char_ord"
    "HOL-Library.AList"
begin

text \<open>
  Shared vocabulary of the development.

  \<^item> Go errors as values: sentinels, wrapping with the format verb for errors, and
    \<open>errors.Join\<close>; fallible Go functions return \<open>'a result\<close>.
  \<^item> Go strings are byte strings (\<^typ>\<open>string\<close>), ordered bytewise as Go's \<open><\<close> does;
    \<open>strings.TrimSpace(s) == ""\<close> is \<open>go_blank\<close>.
  \<^item> Decimal text of natural numbers and back, \<open>fmt\<close>'s integer verbs and \<open>strconv.ParseInt\<close>.
  \<^item> SQL tables with a primary key as association lists with distinct keys, and the four
    statement shapes the sidecar uses on them.
  \<^item> Instants are nanoseconds since the Unix epoch; durations are 64-bit nanosecond counts.
  \<^item> Two generic locales: invariants of transition systems and exponential back-off.
\<close>

named_theorems vt_defs \<open>definitions of the operations, unfolded by the component proofs\<close>
named_theorems vt_inv \<open>preservation lemmas of the component invariants\<close>

type_synonym u64 = "64 word"

abbreviation MaxUint64 :: u64 where
  "MaxUint64 \<equiv> - 1"

text \<open>Below the greatest value a counter does not wrap.\<close>

lemma unat_Suc_max: "(x::u64) \<noteq> MaxUint64 \<Longrightarrow> unat (x + 1) = Suc (unat x)"
proof -
  assume "x \<noteq> MaxUint64"
  then have "1 + x \<noteq> 0" by (simp add: add_eq_0_iff)
  then show "unat (x + 1) = Suc (unat x)" by (simp add: unatSuc add.commute)
qed

section \<open>Errors\<close>

datatype go_error = Err string | Wrap string go_error | Join "go_error list"

type_synonym 'a result = "go_error + 'a"

text \<open>\<open>errors.Is\<close>: the error itself or anything it wraps or joins.\<close>

fun errors_is :: "go_error \<Rightarrow> go_error \<Rightarrow> bool" where
  "errors_is (Err s) t \<longleftrightarrow> Err s = t"
| "errors_is (Wrap m e) t \<longleftrightarrow> Wrap m e = t \<or> errors_is e t"
| "errors_is (Join es) t \<longleftrightarrow> Join es = t \<or> (\<exists>e \<in> set es. errors_is e t)"

text \<open>\<open>errors.Join\<close> drops nil arguments and is nil when nothing remains.\<close>

definition errors_join :: "go_error option list \<Rightarrow> go_error option" where
  "errors_join es =
     (case List.map_filter id es of [] \<Rightarrow> None | xs \<Rightarrow> Some (Join xs))"

text \<open>The two-argument call whose first argument is not nil.\<close>

definition join2 :: "go_error \<Rightarrow> go_error option \<Rightarrow> go_error" where
  "join2 e f = (case f of None \<Rightarrow> Join [e] | Some g \<Rightarrow> Join [e, g])"

lemma errors_is_refl [simp]: "errors_is e e"
  by (cases e) auto

lemma errors_join_first: "errors_join [Some e, f] = Some (join2 e f)"
  by (auto simp: errors_join_def join2_def map_filter_def split: option.splits)

lemma errors_is_join2 [simp]:
  "errors_is (join2 e f) (Err s) \<longleftrightarrow>
     errors_is e (Err s) \<or> (\<exists>g. f = Some g \<and> errors_is g (Err s))"
  by (auto simp: join2_def split: option.splits)

section \<open>Strings\<close>

text \<open>
  The UTF-8 encodings of the code points that \<open>unicode.IsSpace\<close> accepts, written as byte
  values; a byte sequence that is not valid UTF-8 decodes to U+FFFD, which is no space.
\<close>

definition space_encodings :: "nat list list" where
  "space_encodings =
     [[9], [10], [11], [12], [13], [32], [194, 133], [194, 160], [225, 154, 128]]
     @ map (\<lambda>b. [226, 128, b]) ([128, 129, 130, 131, 132, 133, 134, 135, 136, 137, 138]
         @ [168, 169, 175])
     @ [[226, 129, 159], [227, 128, 128]]"

definition byte_values :: "string \<Rightarrow> nat list" where
  "byte_values s = map of_char s"

definition space_width :: "nat list \<Rightarrow> nat" where
  "space_width bs =
     (case find (\<lambda>e. take (length e) bs = e) space_encodings of
        None \<Rightarrow> 0 | Some e \<Rightarrow> length e)"

fun blank_bytes :: "nat \<Rightarrow> nat list \<Rightarrow> bool" where
  "blank_bytes fuel [] = True"
| "blank_bytes 0 bs = False"
| "blank_bytes (Suc fuel) bs =
     (let w = space_width bs in if w = 0 then False else blank_bytes fuel (drop w bs))"

text \<open>\<open>strings.TrimSpace(s) == ""\<close>; one unit of fuel per byte is enough, since every
  accepted encoding has at least one byte.\<close>

definition go_blank :: "string \<Rightarrow> bool" where
  "go_blank s = blank_bytes (length s) (byte_values s)"

lemma go_blank_Nil [simp]: "go_blank []"
  by (simp add: go_blank_def byte_values_def)

lemma space_width_le: "space_width bs \<le> length bs"
proof (cases "find (\<lambda>e. take (length e) bs = e) space_encodings")
  case None
  then show ?thesis by (simp add: space_width_def)
next
  case (Some e)
  then have "take (length e) bs = e"
    by (auto simp: find_Some_iff)
  then have "length e \<le> length bs"
    by (metis length_take min.cobounded1)
  with Some show ?thesis by (simp add: space_width_def)
qed

text \<open>Fuel beyond the length of the text never changes the answer.\<close>

lemma blank_bytes_fuel:
  "length bs \<le> f \<Longrightarrow> length bs \<le> g \<Longrightarrow> blank_bytes f bs = blank_bytes g bs"
proof (induction f bs arbitrary: g rule: blank_bytes.induct)
  case (3 f b bs)
  obtain g' where g: "g = Suc g'" using "3.prems" by (cases g) auto
  show ?case
  proof (cases "space_width (b # bs) = 0")
    case True
    then show ?thesis by (simp add: g)
  next
    case False
    let ?r = "drop (space_width (b # bs)) (b # bs)"
    have "length ?r \<le> f" "length ?r \<le> g'" using False "3.prems" g by auto
    then have "blank_bytes f ?r = blank_bytes g' ?r"
      using False by (intro "3.IH") auto
    with False show ?thesis by (simp add: g)
  qed
qed auto

section \<open>Decimal text\<close>

definition digit_char :: "nat \<Rightarrow> char" where
  "digit_char d = char_of (48 + d)"

definition is_digit :: "char \<Rightarrow> bool" where
  "is_digit c \<longleftrightarrow> 48 \<le> (of_char c :: nat) \<and> (of_char c :: nat) \<le> 57"

definition digit_val :: "char \<Rightarrow> nat" where
  "digit_val c = of_char c - 48"

fun dec_text :: "nat \<Rightarrow> string" where
  "dec_text n =
     (if n < 10 then [digit_char n] else dec_text (n div 10) @ [digit_char (n mod 10)])"

declare dec_text.simps [simp del]

definition dec_value :: "string \<Rightarrow> nat" where
  "dec_value s = foldl (\<lambda>a c. 10 * a + digit_val c) 0 s"

text \<open>\<open>strings.Repeat("0", n)\<close> in front, up to a width: the verb \<open>%0*d\<close> on non-negative
  numbers.\<close>

definition pad_zeros :: "nat \<Rightarrow> string \<Rightarrow> string" where
  "pad_zeros w s = replicate (w - length s) (CHR ''0'') @ s"

lemma digit_char_digit [simp]: "d < 10 \<Longrightarrow> is_digit (digit_char d)"
  by (simp add: is_digit_def digit_char_def)

lemma digit_val_char [simp]: "d < 10 \<Longrightarrow> digit_val (digit_char d) = d"
  by (simp add: digit_val_def digit_char_def)

lemma digit_char_val: "is_digit c \<Longrightarrow> digit_char (digit_val c) = c"
  by (simp add: is_digit_def digit_val_def digit_char_def)

lemma digit_val_less [simp]: "is_digit c \<Longrightarrow> digit_val c < 10"
  unfolding is_digit_def digit_val_def by linarith

lemma digit_zero_code: "of_char (CHR ''0'') = (48::nat)"
  by simp

lemma digit_char_0: "digit_char 0 = CHR ''0''"
  by (metis add_0_right char_of_char digit_char_def digit_zero_code)

lemma digit_val_0 [simp]: "digit_val (CHR ''0'') = 0"
  by (simp add: digit_val_def)

lemma is_digit_0 [simp]: "is_digit (CHR ''0'')"
  by (simp add: is_digit_def)

lemma digit_val_eq_0: "is_digit c \<Longrightarrow> digit_val c = 0 \<longleftrightarrow> c = CHR ''0''"
  by (metis digit_char_0 digit_char_val digit_val_0)

lemma dec_value_Nil [simp]: "dec_value [] = 0"
  by (simp add: dec_value_def)

lemma dec_value_snoc [simp]: "dec_value (s @ [c]) = 10 * dec_value s + digit_val c"
  by (simp add: dec_value_def)

lemma dec_value_append: "dec_value (s @ t) = dec_value s * 10 ^ length t + dec_value t"
proof (induction t rule: rev_induct)
  case (snoc c t)
  then show ?case by (simp flip: append_assoc add: algebra_simps)
qed simp

lemma dec_value_replicate_0 [simp]: "dec_value (replicate k (CHR ''0'')) = 0"
proof (induction k)
  case (Suc k)
  then show ?case
    using dec_value_append [of "''0''" "replicate k (CHR ''0'')"] by (simp add: dec_value_def)
qed simp

lemma dec_value_pad [simp]: "dec_value (pad_zeros w s) = dec_value s"
  by (simp add: pad_zeros_def dec_value_append)

lemma length_pad_zeros [simp]: "length (pad_zeros w s) = max w (length s)"
  by (simp add: pad_zeros_def)

lemma pad_zeros_digits: "list_all is_digit s \<Longrightarrow> list_all is_digit (pad_zeros w s)"
  by (auto simp: pad_zeros_def list_all_iff)

lemma dec_value_bound: "list_all is_digit s \<Longrightarrow> dec_value s < 10 ^ length s"
proof (induction s rule: rev_induct)
  case (snoc c s)
  then have "dec_value s < 10 ^ length s" "digit_val c < 10" by simp_all
  then have "10 * dec_value s + digit_val c < 10 * 10 ^ length s" by linarith
  then show ?case by simp
qed simp

lemma dec_text_nonempty [simp]: "dec_text n \<noteq> []"
  by (subst dec_text.simps) simp

lemma dec_text_digits [simp]: "list_all is_digit (dec_text n)"
proof (induction n rule: dec_text.induct)
  case (1 n)
  then show ?case by (cases "n < 10") (simp_all add: dec_text.simps [of n])
qed

lemma dec_value_dec_text [simp]: "dec_value (dec_text n) = n"
proof (induction n rule: dec_text.induct)
  case (1 n)
  show ?case
  proof (cases "n < 10")
    case True
    then show ?thesis using dec_value_snoc [of "[]"] by (simp add: dec_text.simps [of n])
  next
    case False
    with "1" show ?thesis by (simp add: dec_text.simps [of n])
  qed
qed

lemma dec_text_inject [simp]: "dec_text m = dec_text n \<longleftrightarrow> m = n"
  by (metis dec_value_dec_text)

lemma hd_dec_text: "0 < n \<Longrightarrow> hd (dec_text n) \<noteq> CHR ''0''"
proof (induction n rule: dec_text.induct)
  case (1 n)
  show ?case
  proof (cases "n < 10")
    case True
    with "1.prems" show ?thesis
      by (simp add: dec_text.simps [of n] digit_val_eq_0 [symmetric])
  next
    case False
    with "1" show ?thesis by (simp add: dec_text.simps [of n])
  qed
qed

lemma dec_text_0: "dec_text 0 = ''0''"
  by (simp add: dec_text.simps digit_char_0)

lemma length_dec_text_le: "0 < k \<Longrightarrow> length (dec_text n) \<le> k \<longleftrightarrow> n < 10 ^ k"
proof (induction n arbitrary: k rule: dec_text.induct)
  case (1 n)
  obtain j where k: "k = Suc j" using "1.prems" by (cases k) auto
  show ?case
  proof (cases "n < 10")
    case True
    then have "n < 10 ^ k" unfolding k by (simp add: less_le_trans [of n 10])
    with True show ?thesis by (simp add: dec_text.simps [of n] k)
  next
    case False
    show ?thesis
    proof (cases "j = 0")
      case True
      with False show ?thesis
        using dec_text_nonempty [of "n div 10"]
        by (simp add: dec_text.simps [of n] k del: dec_text_nonempty)
    next
      case j: False
      have "length (dec_text (n div 10)) \<le> j \<longleftrightarrow> n div 10 < 10 ^ j"
        using "1.IH" [OF False, of j] j by simp
      then show ?thesis
        using False by (simp add: dec_text.simps [of n] k div_less_iff_less_mult mult.commute)
    qed
  qed
qed

text \<open>Digits without a redundant leading zero are the text of their value.\<close>

lemma dec_text_dec_value:
  "list_all is_digit s \<Longrightarrow> s \<noteq> [] \<Longrightarrow> length s = 1 \<or> hd s \<noteq> CHR ''0'' \<Longrightarrow>
     dec_text (dec_value s) = s"
proof (induction s rule: rev_induct)
  case (snoc c s)
  show ?case
  proof (cases "s = []")
    case True
    with snoc.prems show ?thesis
      using dec_value_snoc [of "[]" c] by (simp add: dec_text.simps digit_char_val)
  next
    case False
    have hd: "hd s \<noteq> CHR ''0''" using False snoc.prems by (cases s) auto
    then have IH: "dec_text (dec_value s) = s" using snoc False by simp
    have "dec_value s \<noteq> 0"
    proof
      assume "dec_value s = 0"
      with IH have "s = ''0''" by (simp add: dec_text_0)
      with hd show False by simp
    qed
    with IH snoc.prems show ?thesis
      by (subst dec_text.simps) (simp add: digit_char_val)
  qed
qed simp

section \<open>Integers as text\<close>

text \<open>\<open>fmt.Sprintf("%0*d", width, n)\<close>: a negative width pads with blanks on the right, and a
  width beyond a million is reported in the text.\<close>

definition sprintf_0d :: "int \<Rightarrow> int \<Rightarrow> string" where
  "sprintf_0d width n =
     (let digits = dec_text (nat \<bar>n\<bar>); sign = (if n < 0 then ''-'' else [])
      in if \<bar>width\<bar> > 1000000 then ''%!(BADWIDTH)'' @ sign @ digits
         else if width < 0
         then sign @ digits @ replicate (nat (- width) - length (sign @ digits)) (CHR '' '')
         else sign @ pad_zeros (nat width - length sign) digits)"

text \<open>\<open>strconv.ParseInt(s, 10, 64)\<close>.\<close>

definition parse_digits :: "string \<Rightarrow> nat option" where
  "parse_digits s = (if s \<noteq> [] \<and> list_all is_digit s then Some (dec_value s) else None)"

definition parse_int64 :: "string \<Rightarrow> int option" where
  "parse_int64 s = (case s of [] \<Rightarrow> None
   | c # cs \<Rightarrow>
       let neg = (c = CHR ''-''); body = (if c = CHR ''-'' \<or> c = CHR ''+'' then cs else s)
       in (case parse_digits body of None \<Rightarrow> None
           | Some n \<Rightarrow>
               if neg then (if int n \<le> 2 ^ 63 then Some (- int n) else None)
               else (if int n < 2 ^ 63 then Some (int n) else None)))"

text \<open>The verb \<open>%d\<close>.\<close>

definition int_text :: "int \<Rightarrow> string" where
  "int_text n = (if n < 0 then ''-'' else []) @ dec_text (nat \<bar>n\<bar>)"

lemma pad_zeros_nonempty [simp]: "s \<noteq> [] \<Longrightarrow> pad_zeros w s \<noteq> []"
  by (simp add: pad_zeros_def)

lemma parse_int64_digits:
  assumes "list_all is_digit s" "s \<noteq> []"
  shows "parse_int64 s = (if int (dec_value s) < 2 ^ 63 then Some (int (dec_value s)) else None)"
proof -
  obtain c cs where c: "s = c # cs" using assms(2) by (cases s) auto
  then have "is_digit c" using assms(1) by simp
  then have "c \<noteq> CHR ''-''" "c \<noteq> CHR ''+''" by (auto simp: is_digit_def)
  then show ?thesis using assms by (simp add: parse_int64_def parse_digits_def c)
qed

lemma parse_int64_padded [simp]:
  "parse_int64 (pad_zeros w (dec_text n)) = (if int n < 2 ^ 63 then Some (int n) else None)"
  by (simp add: parse_int64_digits pad_zeros_digits)

lemma parse_int64_text: "0 \<le> n \<Longrightarrow> n < 2 ^ 63 \<Longrightarrow> parse_int64 (int_text n) = Some n"
  by (simp add: int_text_def parse_int64_digits)

lemma int_text_inject: "0 \<le> m \<Longrightarrow> 0 \<le> n \<Longrightarrow> int_text m = int_text n \<longleftrightarrow> m = n"
  by (simp add: int_text_def) linarith


section \<open>Keyed SQL tables\<close>

text \<open>
  A table with a primary key is an association list; \<open>tbl_ok\<close> says the key is unique, which
  SQLite enforces. \<open>sql_insert\<close> is \<open>INSERT\<close> of an absent key, \<open>sql_update\<close> is
  \<open>UPDATE ... SET ... WHERE ...\<close> with the number of affected rows, \<open>sql_max\<close> is
  \<open>COALESCE(MAX(key), 0)\<close> under a condition.
\<close>

definition tbl_ok :: "('k \<times> 'r) list \<Rightarrow> bool" where
  "tbl_ok t \<longleftrightarrow> distinct (map fst t)"

definition sql_insert :: "'k \<Rightarrow> 'r \<Rightarrow> ('k \<times> 'r) list \<Rightarrow> ('k \<times> 'r) list" where
  "sql_insert k r t = t @ [(k, r)]"

definition sql_update ::
  "('k \<Rightarrow> 'r \<Rightarrow> bool) \<Rightarrow> ('r \<Rightarrow> 'r) \<Rightarrow> ('k \<times> 'r) list \<Rightarrow> ('k \<times> 'r) list" where
  "sql_update P f t = map (\<lambda>(k, r). (k, if P k r then f r else r)) t"

definition sql_affected :: "('k \<Rightarrow> 'r \<Rightarrow> bool) \<Rightarrow> ('k \<times> 'r) list \<Rightarrow> nat" where
  "sql_affected P t = length (filter (\<lambda>(k, r). P k r) t)"

definition sql_max :: "('k \<Rightarrow> 'r \<Rightarrow> bool) \<Rightarrow> ('k::{linorder,zero} \<times> 'r) list \<Rightarrow> 'k" where
  "sql_max P t = fold max (map fst (filter (\<lambda>(k, r). P k r) t)) 0"

lemma tbl_ok_Nil [simp]: "tbl_ok []"
  by (simp add: tbl_ok_def)

lemma tbl_ok_insert [simp]: "tbl_ok (sql_insert k r t) \<longleftrightarrow> tbl_ok t \<and> map_of t k = None"
  by (auto simp: tbl_ok_def sql_insert_def map_of_eq_None_iff)

lemma tbl_ok_update [simp]: "tbl_ok (sql_update P f t) \<longleftrightarrow> tbl_ok t"
proof -
  have "map fst (sql_update P f t) = map fst t"
    by (simp add: sql_update_def case_prod_beta o_def)
  then show ?thesis by (simp add: tbl_ok_def)
qed

lemma map_of_insert [simp]:
  "map_of (sql_insert k r t) k' =
     (case map_of t k' of Some r' \<Rightarrow> Some r' | None \<Rightarrow> if k' = k then Some r else None)"
  by (auto simp: sql_insert_def map_add_def split: option.splits)

lemma map_of_update [simp]:
  "map_of (sql_update P f t) k = map_option (\<lambda>r. if P k r then f r else r) (map_of t k)"
  by (induction t) (auto simp: sql_update_def)

lemma sql_affected_key:
  assumes "tbl_ok t"
  shows "sql_affected (\<lambda>k r. k = k0 \<and> Q r) t =
    (case map_of t k0 of None \<Rightarrow> 0 | Some r \<Rightarrow> if Q r then 1 else 0)"
  using assms
proof (induction t)
  case (Cons a t)
  obtain k r where a: "a = (k, r)" by (cases a)
  have IH: "sql_affected (\<lambda>k r. k = k0 \<and> Q r) t =
    (case map_of t k0 of None \<Rightarrow> 0 | Some r \<Rightarrow> if Q r then 1 else 0)"
    using Cons by (simp add: tbl_ok_def)
  show ?case
  proof (cases "k = k0")
    case True
    then have "map_of t k0 = None"
      using Cons.prems by (simp add: tbl_ok_def a map_of_eq_None_iff)
    with IH have "sql_affected (\<lambda>k r. k = k0 \<and> Q r) t = 0" by simp
    with True show ?thesis by (simp add: a sql_affected_def)
  next
    case False
    with IH show ?thesis by (simp add: a sql_affected_def)
  qed
qed (simp add: sql_affected_def)

lemma sql_max_empty: "(\<And>k r. map_of t k = Some r \<Longrightarrow> \<not> P k r) \<Longrightarrow> tbl_ok t \<Longrightarrow> sql_max P t = 0"
proof -
  assume none: "\<And>k r. map_of t k = Some r \<Longrightarrow> \<not> P k r" and "tbl_ok t"
  then have "filter (\<lambda>(k, r). P k r) t = []"
    by (auto simp: filter_empty_conv tbl_ok_def)
  then show ?thesis by (simp add: sql_max_def)
qed

lemma sql_max_singleton:
  assumes ok: "tbl_ok t" and k0: "map_of t k0 = Some r0" "P k0 r0"
    and only: "\<And>k r. map_of t k = Some r \<Longrightarrow> P k r \<Longrightarrow> k = k0"
  shows "sql_max P t = max k0 (0::'k::{linorder,zero})"
proof -
  let ?ks = "map fst (filter (\<lambda>(k, r). P k r) t)"
  have "set ?ks = {k0}"
  proof
    show "set ?ks \<subseteq> {k0}" using only ok by (auto simp: tbl_ok_def)
    have "(k0, r0) \<in> set t" using k0(1) by (rule map_of_SomeD)
    then show "{k0} \<subseteq> set ?ks" using k0(2) by force
  qed
  moreover have "fold max ks (a::'k) = Max (insert a (set ks))" for ks a
    by (metis Max.set_eq_fold list.simps(15))
  ultimately show ?thesis by (simp add: sql_max_def max.commute)
qed

text \<open>\<open>database/sql\<close> refuses unsigned arguments with the high bit set.\<close>

definition MaxInt64 :: u64 where "MaxInt64 = 9223372036854775807"

definition sql_args_ok :: "u64 list \<Rightarrow> bool" where
  "sql_args_ok xs = list_all (\<lambda>x. x \<le> MaxInt64) xs"

definition ErrArgHighBit :: go_error where
  "ErrArgHighBit =
     Err ''sql: converting argument: uint64 values with high bit set are not supported''"

section \<open>Time\<close>

type_synonym instant = int
type_synonym duration = int

definition second :: duration where "second = 1000000000"

text \<open>\<open>time.Time{}\<close>, 1 January of year 1 UTC.\<close>

definition zero_time :: instant where "zero_time = - 62135596800 * 1000000000"

text \<open>\<open>Time.Sub\<close> saturates at the bounds of a 64-bit duration.\<close>

definition time_sub :: "instant \<Rightarrow> instant \<Rightarrow> duration" where
  "time_sub a b = max (- (2 ^ 63)) (min (2 ^ 63 - 1) (a - b))"

section \<open>Generic interfaces\<close>

text \<open>An invariant of a transition system holds in every reachable state.\<close>

locale transition_system =
  fixes init :: "'s \<Rightarrow> bool"
    and step :: "'s \<Rightarrow> 's \<Rightarrow> bool"
    and inv :: "'s \<Rightarrow> bool"
  assumes inv_init: "init s \<Longrightarrow> inv s"
    and inv_step: "step s t \<Longrightarrow> inv s \<Longrightarrow> inv t"
begin

lemma inv_steps: "step\<^sup>*\<^sup>* s t \<Longrightarrow> inv s \<Longrightarrow> inv t"
  by (induction rule: rtranclp_induct) (blast intro: inv_step)+

lemma inv_reachable: "init s \<Longrightarrow> step\<^sup>*\<^sup>* s t \<Longrightarrow> inv t"
  by (blast intro: inv_init inv_steps)

end

text \<open>A quantity that no step decreases is monotone along every run.\<close>

locale monotone_system = transition_system +
  fixes amount :: "'s \<Rightarrow> 'm::order"
  assumes amount_step: "inv s \<Longrightarrow> step s t \<Longrightarrow> amount s \<le> amount t"
begin

lemma amount_steps: "step\<^sup>*\<^sup>* s t \<Longrightarrow> inv s \<Longrightarrow> amount s \<le> amount t"
proof (induction rule: rtranclp_induct)
  case (step t u)
  then have "amount t \<le> amount u" by (blast intro: amount_step inv_steps)
  with step show ?case by (blast intro: order_trans)
qed simp

end

text \<open>Exponential back-off: the delay doubles with every failure up to a cap.\<close>

locale backoff =
  fixes cap :: nat and delay :: "nat \<Rightarrow> duration"
  assumes delay_eq: "delay n = second * 2 ^ min n cap"
begin

lemma delay_pos: "0 < delay n"
  by (simp add: delay_eq second_def)

lemma delay_mono: "m \<le> n \<Longrightarrow> delay m \<le> delay n"
  by (simp add: delay_eq second_def)

lemma delay_capped: "delay n \<le> second * 2 ^ cap"
  by (simp add: delay_eq second_def)

lemma delay_doubles: "n < cap \<Longrightarrow> delay (Suc n) = 2 * delay n"
  by (simp add: delay_eq second_def min_def)

end

end
