(* ===== verification/Write_Store.thy ===== *)
theory Write_Store
  imports VT_Prelude
begin

text \<open>
  The durable coordination database of a workspace
  (\<open>sidecar/internal/writecoordinator/persistent.go\<close>): the singleton row
  \<open>coordination_state\<close> and the tables \<open>mutation_intents\<close> and \<open>capture_intents\<close>.

  Every store method runs one SQL statement or one transaction, so it either takes effect as
  a whole or fails and leaves the database as it was. A method takes the error the database
  reports during the call, if any (\<open>fault\<close>); \<open>database/sql\<close> itself refuses unsigned
  arguments with the high bit set (\<open>sql_args_ok\<close>). A database file that does not exist is
  \<^const>\<open>None\<close>; a file written before the column \<open>audit_epoch_counter\<close> existed has
  \<open>dbHasAuditEpoch\<close> false. RFC 3339 texts of instants are modelled by the instants.
\<close>

section \<open>Data\<close>

record token =
  tokWorkspaceID :: string
  tokSessionEpoch :: u64
  tokFenceEpoch :: u64
  tokClaimID :: string

record high_watermark =
  hwSourceEpoch :: string
  hwSourceSequence :: u64
  hwChainHash :: string

definition no_watermark :: high_watermark where
  "no_watermark = \<lparr>hwSourceEpoch = '''', hwSourceSequence = 0, hwChainHash = ''''\<rparr>"

record persisted_state =
  psToken :: token
  psMutationRevision :: u64
  psSnapshotSequence :: u64
  psHighWatermark :: high_watermark
  psAuditEpoch :: u64

datatype mutation_state = Prepared | Committed | Failed

record mutation_intent =
  miToken :: token
  miState :: mutation_state
  miPreparedAt :: instant
  miFinishedAt :: "instant option"

record frozen_roots =
  frDatabaseView :: string
  frTopologyRoot :: string
  frFileRoot :: string
  frAuditAnchor :: string

record capture_intent =
  ciToken :: token
  ciMutationRevision :: u64
  ciSnapshotSequence :: u64

datatype capture_state = CapPrepared | CapCaptured | CapFailed | CapAbandoned

record capture_row =
  crToken :: token
  crMutationRevision :: u64
  crState :: capture_state
  crRoots :: frozen_roots
  crPreparedAt :: instant
  crCapturedAt :: "instant option"

record coord_db =
  dbState :: "persisted_state option"
  dbMutations :: "(u64 \<times> mutation_intent) list"
  dbCaptures :: "(u64 \<times> capture_row) list"
  dbHasAuditEpoch :: bool

record capture_intent_record =
  cirIntent :: capture_intent
  cirRoots :: frozen_roots
  cirState :: capture_state
  cirPreparedAt :: instant
  cirCapturedAt :: instant

section \<open>Errors\<close>

definition ErrInvalidIdentity :: go_error where
  "ErrInvalidIdentity = Err ''workspace.write.invalid_identity''"

definition ErrStaleToken :: go_error where
  "ErrStaleToken = Err ''workspace.write.stale_token''"

definition ErrCounterExhausted :: go_error where
  "ErrCounterExhausted = Err ''workspace.write.counter_exhausted''"

definition ErrRecoveryRequired :: go_error where
  "ErrRecoveryRequired = Err ''workspace.write.recovery_required''"

definition ErrExternalCommitted :: go_error where
  "ErrExternalCommitted = Err ''workspace.write.external_committed''"

definition ErrNoRows :: go_error where
  "ErrNoRows = Err ''sql: no rows in result set''"

lemmas write_errors = ErrInvalidIdentity_def ErrStaleToken_def ErrCounterExhausted_def
  ErrRecoveryRequired_def ErrExternalCommitted_def ErrNoRows_def ErrArgHighBit_def

section \<open>Statements\<close>

definition token_args :: "token \<Rightarrow> u64 list" where
  "token_args t = [tokSessionEpoch t, tokFenceEpoch t]"

definition empty_roots :: frozen_roots where
  "empty_roots = \<lparr>frDatabaseView = '''', frTopologyRoot = '''', frFileRoot = '''', frAuditAnchor = ''''\<rparr>"

definition empty_db :: coord_db where
  "empty_db = \<lparr>dbState = None, dbMutations = [], dbCaptures = [], dbHasAuditEpoch = True\<rparr>"

text \<open>\<open>CREATE TABLE IF NOT EXISTS\<close> for the three tables.\<close>

definition create_tables :: "coord_db option \<Rightarrow> coord_db" where
  "create_tables file = (case file of None \<Rightarrow> empty_db | Some db \<Rightarrow> db)"

definition ensureAuditEpochColumn :: "coord_db \<Rightarrow> coord_db" where
  "ensureAuditEpochColumn db =
     (if dbHasAuditEpoch db then db
      else db\<lparr>dbState := map_option (psAuditEpoch_update (\<lambda>_. 1)) (dbState db),
              dbHasAuditEpoch := True\<rparr>)"

definition loadState :: "go_error option \<Rightarrow> coord_db \<Rightarrow> persisted_state option result" where
  "loadState fault db = (case fault of Some e \<Rightarrow> Inl e | None \<Rightarrow> Inr (dbState db))"

definition state_args :: "persisted_state \<Rightarrow> u64 list" where
  "state_args s = token_args (psToken s) @ [psMutationRevision s, psSnapshotSequence s,
     hwSourceSequence (psHighWatermark s), psAuditEpoch s]"

definition insertInitial ::
  "go_error option \<Rightarrow> persisted_state \<Rightarrow> coord_db \<Rightarrow> coord_db result" where
  "insertInitial fault s db =
     (case fault of Some e \<Rightarrow> Inl e
      | None \<Rightarrow>
          if \<not> sql_args_ok (state_args s) then Inl ErrArgHighBit
          else if dbState db \<noteq> None
          then Inl (Err ''UNIQUE constraint failed: coordination_state.singleton'')
          else Inr (db\<lparr>dbState := Some s\<rparr>))"

definition persistState ::
  "go_error option \<Rightarrow> persisted_state \<Rightarrow> coord_db \<Rightarrow> coord_db result" where
  "persistState fault s db =
     (case fault of Some e \<Rightarrow> Inl e
      | None \<Rightarrow>
          if \<not> sql_args_ok (state_args s) then Inl ErrArgHighBit
          else if dbState db = None then Inl (join2 ErrRecoveryRequired None)
          else Inr (db\<lparr>dbState := Some s\<rparr>))"

definition prepareMutation ::
  "go_error option \<Rightarrow> token \<Rightarrow> u64 \<Rightarrow> instant \<Rightarrow> coord_db \<Rightarrow> coord_db result" where
  "prepareMutation fault tok revision at db =
     (case fault of Some e \<Rightarrow> Inl e
      | None \<Rightarrow>
          if \<not> sql_args_ok (revision # token_args tok) then Inl ErrArgHighBit
          else
            let row = \<lparr>miToken = tok, miState = Prepared, miPreparedAt = at, miFinishedAt = None\<rparr>
            in (case map_of (dbMutations db) revision of
                  None \<Rightarrow> Inr (db\<lparr>dbMutations := sql_insert revision row (dbMutations db)\<rparr>)
                | Some _ \<Rightarrow>
                    Inr (db\<lparr>dbMutations :=
                      sql_update (\<lambda>k r. k = revision \<and> miState r = Failed) (\<lambda>_. row)
                        (dbMutations db)\<rparr>)))"

text \<open>The last statement of \<open>finishMutation\<close>: settle the prepared intent.\<close>

definition settle_intent ::
  "mutation_state \<Rightarrow> u64 \<Rightarrow> instant \<Rightarrow> coord_db \<Rightarrow> coord_db result" where
  "settle_intent st revision at db =
     (if \<not> sql_args_ok [revision] then Inl ErrArgHighBit
      else if sql_affected (\<lambda>k r. k = revision \<and> miState r = Prepared) (dbMutations db) \<noteq> 1
      then Inl (join2 ErrRecoveryRequired None)
      else Inr (db\<lparr>dbMutations :=
             sql_update (\<lambda>k r. k = revision \<and> miState r = Prepared)
               (\<lambda>r. r\<lparr>miState := st, miFinishedAt := Some at\<rparr>) (dbMutations db)\<rparr>))"

text \<open>\<open>injected\<close> is what the fault injector returns before a committed finish.\<close>

definition finishMutation ::
  "go_error option \<Rightarrow> go_error option \<Rightarrow> token \<Rightarrow> u64 \<Rightarrow> u64 \<Rightarrow> bool \<Rightarrow> instant \<Rightarrow> coord_db
   \<Rightarrow> coord_db result" where
  "finishMutation injected fault tok revision sequence committed at db =
     (case (if committed then injected else None) of Some e \<Rightarrow> Inl e
      | None \<Rightarrow>
     (case fault of Some e \<Rightarrow> Inl e
      | None \<Rightarrow>
          if \<not> committed then settle_intent Failed revision at db
          else if \<not> sql_args_ok ([revision, sequence] @ token_args tok) then Inl ErrArgHighBit
          else (case dbState db of
                  None \<Rightarrow> Inl (join2 ErrStaleToken None)
                | Some s \<Rightarrow>
                    if psToken s = tok \<and> psSnapshotSequence s = sequence
                       \<and> psMutationRevision s < revision
                    then settle_intent Committed revision at
                           (db\<lparr>dbState := Some (s\<lparr>psMutationRevision := revision\<rparr>)\<rparr>)
                    else Inl (join2 ErrStaleToken None))))"

definition prepareCapture ::
  "go_error option \<Rightarrow> capture_intent \<Rightarrow> high_watermark \<Rightarrow> instant \<Rightarrow> coord_db \<Rightarrow> coord_db result"
where
  "prepareCapture fault i hw at db =
     (case fault of Some e \<Rightarrow> Inl e
      | None \<Rightarrow>
          if \<not> sql_args_ok ([ciSnapshotSequence i, ciMutationRevision i, ciSnapshotSequence i - 1]
               @ token_args (ciToken i)) then Inl ErrArgHighBit
          else (case dbState db of
                  None \<Rightarrow> Inl (join2 ErrStaleToken None)
                | Some s \<Rightarrow>
                    if \<not> (psToken s = ciToken i \<and> psMutationRevision s = ciMutationRevision i
                          \<and> psSnapshotSequence s = ciSnapshotSequence i - 1)
                    then Inl (join2 ErrStaleToken None)
                    else if map_of (dbCaptures db) (ciSnapshotSequence i) \<noteq> None
                    then Inl (Err ''UNIQUE constraint failed: capture_intents.snapshot_sequence'')
                    else Inr (db\<lparr>dbState := Some (s\<lparr>psSnapshotSequence := ciSnapshotSequence i\<rparr>),
                           dbCaptures := sql_insert (ciSnapshotSequence i)
                             \<lparr>crToken = ciToken i, crMutationRevision = ciMutationRevision i,
                              crState = CapPrepared,
                              crRoots = empty_roots\<lparr>frAuditAnchor := hwChainHash hw\<rparr>,
                              crPreparedAt = at, crCapturedAt = None\<rparr> (dbCaptures db)\<rparr>)))"

definition finishCapture ::
  "go_error option \<Rightarrow> capture_intent \<Rightarrow> frozen_roots \<Rightarrow> capture_state \<Rightarrow> instant \<Rightarrow> coord_db
   \<Rightarrow> coord_db result" where
  "finishCapture fault i roots st at db =
     (let P = (\<lambda>k r. k = ciSnapshotSequence i \<and> crToken r = ciToken i
                 \<and> crMutationRevision r = ciMutationRevision i \<and> crState r = CapPrepared)
      in (case fault of Some e \<Rightarrow> Inl e
          | None \<Rightarrow>
              if \<not> sql_args_ok ([ciSnapshotSequence i, ciMutationRevision i] @ token_args (ciToken i))
              then Inl ErrArgHighBit
              else if sql_affected P (dbCaptures db) \<noteq> 1 then Inl (join2 ErrRecoveryRequired None)
              else Inr (db\<lparr>dbCaptures := sql_update P
                     (\<lambda>r. r\<lparr>crState := st, crRoots := roots, crCapturedAt := Some at\<rparr>)
                     (dbCaptures db)\<rparr>)))"

definition captureIntent ::
  "go_error option \<Rightarrow> u64 \<Rightarrow> coord_db \<Rightarrow> capture_intent_record result" where
  "captureIntent fault sequence db =
     (case fault of Some e \<Rightarrow> Inl e
      | None \<Rightarrow>
          if \<not> sql_args_ok [sequence] then Inl ErrArgHighBit
          else (case map_of (dbCaptures db) sequence of
                  None \<Rightarrow> Inl ErrNoRows
                | Some r \<Rightarrow>
                    Inr \<lparr>cirIntent = \<lparr>ciToken = crToken r, ciMutationRevision = crMutationRevision r,
                           ciSnapshotSequence = sequence\<rparr>,
                         cirRoots = crRoots r, cirState = crState r,
                         cirPreparedAt = crPreparedAt r,
                         cirCapturedAt = (case crCapturedAt r of None \<Rightarrow> zero_time | Some t \<Rightarrow> t)\<rparr>))"

section \<open>Opening and reading the database\<close>

definition prepared_revision :: "coord_db \<Rightarrow> u64" where
  "prepared_revision db = sql_max (\<lambda>k r. miState r = Prepared) (dbMutations db)"

definition abandon_captures :: "instant \<Rightarrow> coord_db \<Rightarrow> coord_db" where
  "abandon_captures at db = db\<lparr>dbCaptures :=
     sql_update (\<lambda>k r. crState r = CapPrepared)
       (\<lambda>r. r\<lparr>crState := CapAbandoned, crCapturedAt := Some at\<rparr>) (dbCaptures db)\<rparr>"

record open_faults =
  ofSchema :: "go_error option"
  ofLoad :: "go_error option"
  ofInsert :: "go_error option"
  ofPrepared :: "go_error option"
  ofAbandon :: "go_error option"

definition no_open_faults :: open_faults where
  "no_open_faults = \<lparr>ofSchema = None, ofLoad = None, ofInsert = None, ofPrepared = None, ofAbandon = None\<rparr>"

text \<open>
  \<open>openPersistentStore\<close> returns the file it leaves behind and, on success, the state and the
  highest prepared mutation. \<open>ofSchema\<close> covers every failure up to the schema statements.
\<close>

definition openPersistentStore ::
  "open_faults \<Rightarrow> string \<Rightarrow> token \<Rightarrow> instant \<Rightarrow> coord_db option
   \<Rightarrow> coord_db option \<times> (persisted_state \<times> u64) result" where
  "openPersistentStore f path initial now file =
     (if path = [] then (file, Inl (Err ''workspace.write.database_path_required''))
      else case ofSchema f of Some e \<Rightarrow> (file, Inl e)
      | None \<Rightarrow>
          let db = ensureAuditEpochColumn (create_tables file);
              finish = (\<lambda>db s.
                (case ofPrepared f of Some e \<Rightarrow> (Some db, Inl e)
                 | None \<Rightarrow>
                     (case ofAbandon f of Some e \<Rightarrow> (Some db, Inl e)
                      | None \<Rightarrow> (Some (abandon_captures now db), Inr (s, prepared_revision db)))))
          in (case loadState (ofLoad f) db of Inl e \<Rightarrow> (Some db, Inl e)
              | Inr None \<Rightarrow>
                  let s = \<lparr>psToken = initial, psMutationRevision = 0, psSnapshotSequence = 0,
                           psHighWatermark = no_watermark, psAuditEpoch = 1\<rparr>
                  in (case insertInitial (ofInsert f) s db of Inl e \<Rightarrow> (Some db, Inl e)
                      | Inr db' \<Rightarrow> finish db' s)
              | Inr (Some s) \<Rightarrow>
                  if psToken s \<noteq> initial then (Some db, Inl ErrStaleToken)
                  else if psAuditEpoch s = 0 then (Some db, Inl ErrRecoveryRequired)
                  else finish db s))"

definition RotatePersistentAuditEpoch ::
  "go_error option \<Rightarrow> string \<Rightarrow> string \<Rightarrow> coord_db option \<Rightarrow> coord_db option \<times> unit result" where
  "RotatePersistentAuditEpoch fault path workspaceID file =
     (if go_blank path \<or> go_blank workspaceID then (file, Inl ErrInvalidIdentity)
      else case file of None \<Rightarrow> (file, Inl (Err ''stat: file does not exist''))
      | Some db0 \<Rightarrow>
     (case fault of Some e \<Rightarrow> (file, Inl e)
      | None \<Rightarrow>
          let db = ensureAuditEpochColumn db0
          in (case dbState db of None \<Rightarrow> (Some db, Inl ErrNoRows)
              | Some s \<Rightarrow>
                  if tokWorkspaceID (psToken s) \<noteq> workspaceID then (Some db, Inl ErrNoRows)
                  else if psAuditEpoch s = 0 then (Some db, Inl ErrRecoveryRequired)
                  else if MaxInt64 \<le> psAuditEpoch s then (Some db, Inl ErrCounterExhausted)
                  else (Some (db\<lparr>dbState := Some (s\<lparr>psAuditEpoch := psAuditEpoch s + 1\<rparr>)\<rparr>),
                        Inr ()))))"

definition ReadPersistentBusinessEpoch ::
  "go_error option \<Rightarrow> string \<Rightarrow> coord_db option \<Rightarrow> u64 result" where
  "ReadPersistentBusinessEpoch fault workspaceID file =
     (if go_blank workspaceID then Inl ErrInvalidIdentity
      else case file of None \<Rightarrow> Inl (Err ''open: file does not exist'')
      | Some db \<Rightarrow>
     (case fault of Some e \<Rightarrow> Inl e
      | None \<Rightarrow>
          if \<not> dbHasAuditEpoch db then Inl (Err ''no such column: audit_epoch_counter'')
          else (case dbState db of None \<Rightarrow> Inl ErrNoRows
                | Some s \<Rightarrow>
                    if tokWorkspaceID (psToken s) \<noteq> workspaceID then Inl ErrNoRows
                    else if psAuditEpoch s = 0 then Inl ErrRecoveryRequired
                    else if MaxInt64 \<le> psAuditEpoch s then Inl ErrCounterExhausted
                    else Inr (psAuditEpoch s))))"

definition ReadPersistentMutationRevision ::
  "go_error option \<Rightarrow> string \<Rightarrow> string \<Rightarrow> coord_db option \<Rightarrow> u64 result" where
  "ReadPersistentMutationRevision fault path workspaceID file =
     (if go_blank path \<or> go_blank workspaceID then Inl ErrInvalidIdentity
      else case file of None \<Rightarrow> Inl (Wrap ''open coordination high-watermark'' (Err ''file does not exist''))
      | Some db \<Rightarrow>
     (case fault of Some e \<Rightarrow> Inl e
      | None \<Rightarrow>
          (case dbState db of
             None \<Rightarrow> Inl (Wrap ''read coordination high-watermark'' ErrNoRows)
           | Some s \<Rightarrow>
               if tokWorkspaceID (psToken s) \<noteq> workspaceID then Inl ErrInvalidIdentity
               else if psMutationRevision s < prepared_revision db then Inr (prepared_revision db)
               else Inr (psMutationRevision s))))"


section \<open>Well-formed databases\<close>

text \<open>
  The invariant of the database. Committed intents are exactly the revisions up to the
  recorded one; an intent that is prepared or failed is the next revision; captures refer to
  allocated sequences and committed revisions.
\<close>

fun intent_fits :: "u64 \<Rightarrow> u64 \<Rightarrow> mutation_state \<Rightarrow> bool" where
  "intent_fits m k Committed \<longleftrightarrow> 0 < k \<and> k \<le> m"
| "intent_fits m k _ \<longleftrightarrow> k = m + 1 \<and> k \<le> MaxInt64"

definition intents_ok :: "u64 \<Rightarrow> (u64 \<times> mutation_intent) list \<Rightarrow> bool" where
  "intents_ok m t \<longleftrightarrow>
     tbl_ok t \<and> m \<le> MaxInt64
     \<and> (\<forall>k r. map_of t k = Some r \<longrightarrow> intent_fits m k (miState r))
     \<and> (\<forall>k. 0 < k \<longrightarrow> k \<le> m \<longrightarrow> (\<exists>r. map_of t k = Some r \<and> miState r = Committed))"

definition captures_ok :: "u64 \<Rightarrow> u64 \<Rightarrow> (u64 \<times> capture_row) list \<Rightarrow> bool" where
  "captures_ok m sequence t \<longleftrightarrow>
     tbl_ok t
     \<and> (\<forall>k r. map_of t k = Some r \<longrightarrow> k \<le> sequence \<and> crMutationRevision r \<le> m)"

definition db_ok :: "coord_db \<Rightarrow> bool" where
  "db_ok db \<longleftrightarrow>
     (case dbState db of
        None \<Rightarrow> dbMutations db = [] \<and> dbCaptures db = []
      | Some s \<Rightarrow> sql_args_ok (state_args s) \<and> intents_ok (psMutationRevision s) (dbMutations db)
               \<and> captures_ok (psMutationRevision s) (psSnapshotSequence s) (dbCaptures db))"

lemma le_MaxInt64_iff: "m \<le> MaxInt64 \<longleftrightarrow> unat m < 2 ^ 63"
  by (simp add: MaxInt64_def word_le_nat_alt less_Suc_eq_le [symmetric])

lemma unat_word_Suc: "m \<le> MaxInt64 \<Longrightarrow> unat (m + 1) = Suc (unat m)"
  by (simp add: le_MaxInt64_iff unat_word_ariths)

lemma word_Suc_gt: "m \<le> MaxInt64 \<Longrightarrow> m < m + 1"
  by (simp add: word_less_nat_alt unat_word_Suc)

lemma word_le_Suc: "m \<le> MaxInt64 \<Longrightarrow> k \<le> m + 1 \<longleftrightarrow> k \<le> m \<or> k = m + 1"
  by (auto simp: word_le_nat_alt unat_word_Suc word_unat_eq_iff)

lemma word_Suc_nz: "m \<le> MaxInt64 \<Longrightarrow> m + 1 \<noteq> 0"
  using word_Suc_gt by fastforce

lemma intents_fit:
  "intents_ok m t \<Longrightarrow> map_of t k = Some r \<Longrightarrow> intent_fits m k (miState r)"
  by (simp add: intents_ok_def)

lemma intents_prepared:
  "intents_ok m t \<Longrightarrow> map_of t k = Some r \<Longrightarrow> miState r = Prepared \<Longrightarrow> k = m + 1"
  using intents_fit [of m t k r] by simp

text \<open>There is at most one prepared intent, the next revision, and \<open>MAX\<close> finds it.\<close>

lemma prepared_revision_cases:
  assumes "intents_ok m (dbMutations db)"
  shows "prepared_revision db =
    (if \<exists>r. map_of (dbMutations db) (m + 1) = Some r \<and> miState r = Prepared then m + 1 else 0)"
proof (cases "\<exists>r. map_of (dbMutations db) (m + 1) = Some r \<and> miState r = Prepared")
  case True
  then obtain r where r: "map_of (dbMutations db) (m + 1) = Some r" "miState r = Prepared" by blast
  have "sql_max (\<lambda>k r. miState r = Prepared) (dbMutations db) = max (m + 1) 0"
  proof (rule sql_max_singleton [where ?r0.0 = r])
    fix k r assume "map_of (dbMutations db) k = Some r" "miState r = Prepared"
    then show "k = m + 1" by (rule intents_prepared [OF assms])
  qed (use r assms in \<open>auto simp: intents_ok_def\<close>)
  with True show ?thesis by (simp add: prepared_revision_def max_def)
next
  case False
  have "sql_max (\<lambda>k r. miState r = Prepared) (dbMutations db) = 0"
  proof (rule sql_max_empty)
    fix k r assume kr: "map_of (dbMutations db) k = Some r"
    then have "intent_fits m k (miState r)" using assms by (simp add: intents_ok_def)
    with kr False show "miState r \<noteq> Prepared" by auto
  qed (use assms in \<open>simp add: intents_ok_def\<close>)
  then have "prepared_revision db = 0" by (simp add: prepared_revision_def)
  with False show ?thesis by auto
qed

lemma prepared_revision_iff:
  assumes "intents_ok m (dbMutations db)" "p \<noteq> 0"
  shows "prepared_revision db = p \<longleftrightarrow>
    p = m + 1 \<and> (\<exists>r. map_of (dbMutations db) p = Some r \<and> miState r = Prepared)"
  using assms prepared_revision_cases [OF assms(1)] by auto

lemma prepared_row_unique:
  assumes "intents_ok m (dbMutations db)" "map_of (dbMutations db) k = Some r" "miState r = Prepared"
  shows "k = m + 1" "prepared_revision db = m + 1"
proof -
  show k: "k = m + 1" using assms by (rule intents_prepared)
  then show "prepared_revision db = m + 1" using prepared_revision_cases [OF assms(1)] assms by auto
qed

lemma db_okD:
  assumes "db_ok db" "dbState db = Some s"
  shows "intents_ok (psMutationRevision s) (dbMutations db)"
    "captures_ok (psMutationRevision s) (psSnapshotSequence s) (dbCaptures db)"
    "sql_args_ok (state_args s)"
  using assms by (simp_all add: db_ok_def)

lemma prepared_pos_le:
  "db_ok db \<Longrightarrow> dbState db = Some s \<Longrightarrow> prepared_revision db \<noteq> 0 \<Longrightarrow>
     prepared_revision db = psMutationRevision s + 1 \<and> prepared_revision db \<le> MaxInt64"
  using prepared_revision_iff [of "psMutationRevision s" db "prepared_revision db"]
  by (force simp: db_ok_def intents_ok_def)

section \<open>What the statements keep\<close>

lemma prepareMutation_keeps:
  assumes ok: "db_ok db" and s: "dbState db = Some s" and none: "prepared_revision db = 0"
    and res: "prepareMutation fault tok (psMutationRevision s + 1) at db = Inr db'"
  shows "db_ok db'" "dbState db' = Some s" "dbCaptures db' = dbCaptures db"
    "prepared_revision db' = psMutationRevision s + 1"
proof -
  let ?m = "psMutationRevision s" and ?t = "dbMutations db"
  note int = db_okD(1) [OF ok s]
  have m: "?m \<le> MaxInt64" and le: "?m + 1 \<le> MaxInt64"
    using int res by (auto simp: intents_ok_def prepareMutation_def sql_args_ok_def split: option.splits if_splits)
  show st: "dbState db' = Some s" and cap: "dbCaptures db' = dbCaptures db"
    using res s by (auto simp: prepareMutation_def Let_def split: option.splits if_splits)
  have old: "miState r = Failed" if "map_of ?t (?m + 1) = Some r" for r
  proof -
    have "intent_fits ?m (?m + 1) (miState r)" using int that by (simp add: intents_ok_def)
    moreover have "miState r \<noteq> Prepared"
      using none prepared_row_unique(2) [OF int that] word_Suc_nz [OF m] by auto
    ultimately show ?thesis using word_Suc_gt [OF m] by (cases "miState r") auto
  qed
  let ?row = "\<lparr>miToken = tok, miState = Prepared, miPreparedAt = at, miFinishedAt = None\<rparr>"
  have lookup: "map_of (dbMutations db') = (map_of ?t)(?m + 1 \<mapsto> ?row)" and tbl: "tbl_ok (dbMutations db')"
    using res int old
    by (auto simp: prepareMutation_def Let_def intents_ok_def fun_eq_iff option.map_ident
        split: option.splits if_splits)
  have "intents_ok ?m (dbMutations db')"
    using int tbl le m word_Suc_gt [OF m] by (auto simp: intents_ok_def lookup)
  then show "db_ok db'" using ok s st cap by (simp add: db_ok_def)
  show "prepared_revision db' = ?m + 1"
    using prepared_row_unique(2) [OF \<open>intents_ok ?m (dbMutations db')\<close>, of "?m + 1" ?row]
    by (simp add: lookup)
qed

lemma settle_intent_effect:
  assumes int: "intents_ok m (dbMutations db)"
    and res: "settle_intent st revision at db = Inr db'"
  shows "revision = m + 1" "prepared_revision db = m + 1" "tbl_ok (dbMutations db')"
    "dbState db' = dbState db" "dbCaptures db' = dbCaptures db"
    "\<exists>r. miState r = st \<and> map_of (dbMutations db') = (map_of (dbMutations db))(m + 1 \<mapsto> r)"
proof -
  let ?P = "\<lambda>k r. k = revision \<and> miState r = Prepared"
    and ?f = "\<lambda>r. r\<lparr>miState := st, miFinishedAt := Some at\<rparr>"
  have tbl: "tbl_ok (dbMutations db)" using int by (simp add: intents_ok_def)
  have one: "sql_affected ?P (dbMutations db) = 1"
    and db': "db' = db\<lparr>dbMutations := sql_update ?P ?f (dbMutations db)\<rparr>"
    using res by (auto simp: settle_intent_def split: if_splits)
  obtain r where r: "map_of (dbMutations db) revision = Some r" "miState r = Prepared"
    using one unfolding sql_affected_key [OF tbl]
    by (cases "map_of (dbMutations db) revision") (auto split: if_splits)
  show rev: "revision = m + 1" and prep: "prepared_revision db = m + 1"
    using prepared_row_unique [OF int r] by simp_all
  show "dbState db' = dbState db" "dbCaptures db' = dbCaptures db" "tbl_ok (dbMutations db')"
    by (simp_all add: db' tbl)
  have "map_of (dbMutations db') = (map_of (dbMutations db))(m + 1 \<mapsto> ?f r)"
  proof
    fix k
    show "map_of (dbMutations db') k = ((map_of (dbMutations db))(m + 1 \<mapsto> ?f r)) k"
      using r rev by (cases "k = m + 1") (simp_all add: db' option.map_ident)
  qed
  then show "\<exists>r. miState r = st \<and> map_of (dbMutations db') = (map_of (dbMutations db))(m + 1 \<mapsto> r)"
    by (intro exI [of _ "?f r"]) simp
qed

lemma finishMutation_failed_keeps:
  assumes ok: "db_ok db" and s: "dbState db = Some s"
    and res: "finishMutation injected fault tok revision sequence False at db = Inr db'"
  shows "db_ok db'" "dbState db' = Some s" "prepared_revision db' = 0"
    "revision = psMutationRevision s + 1" "prepared_revision db = revision"
proof -
  let ?m = "psMutationRevision s"
  note int = db_okD(1) [OF ok s]
  have m: "?m \<le> MaxInt64" using int by (simp add: intents_ok_def)
  have set: "settle_intent Failed revision at db = Inr db'"
    using res by (auto simp: finishMutation_def split: option.splits)
  note eff = settle_intent_effect [OF int set]
  show "revision = ?m + 1" "prepared_revision db = revision" "dbState db' = Some s"
    using eff s by simp_all
  obtain r where r: "miState r = Failed" "map_of (dbMutations db') = (map_of (dbMutations db))(?m + 1 \<mapsto> r)"
    using eff(6) by blast
  have le: "?m + 1 \<le> MaxInt64"
    using prepared_pos_le [OF ok s] eff(2) word_Suc_nz [OF m] by simp
  have int': "intents_ok ?m (dbMutations db')"
    using int eff(3) r le word_Suc_gt [OF m] by (auto simp: intents_ok_def)
  then show "db_ok db'" using ok eff s by (simp add: db_ok_def)
  show "prepared_revision db' = 0" using prepared_revision_cases [OF int'] r by simp
qed

lemma finishMutation_committed_keeps:
  assumes ok: "db_ok db" and s: "dbState db = Some s"
    and res: "finishMutation injected fault tok revision sequence True at db = Inr db'"
  shows "db_ok db'" "dbState db' = Some (s\<lparr>psMutationRevision := revision\<rparr>)"
    "prepared_revision db' = 0" "revision = psMutationRevision s + 1"
    "prepared_revision db = revision" "psToken s = tok" "psSnapshotSequence s = sequence"
proof -
  let ?m = "psMutationRevision s" and ?db1 = "db\<lparr>dbState := Some (s\<lparr>psMutationRevision := revision\<rparr>)\<rparr>"
  note int = db_okD(1) [OF ok s] and caps = db_okD(2) [OF ok s]
  have m: "?m \<le> MaxInt64" using int by (simp add: intents_ok_def)
  have set: "settle_intent Committed revision at ?db1 = Inr db'"
    and tok: "psToken s = tok" and sq: "psSnapshotSequence s = sequence"
    using res s by (auto simp: finishMutation_def split: option.splits if_splits)
  have "intents_ok ?m (dbMutations ?db1)" using int by simp
  note eff = settle_intent_effect [OF this set]
  show "revision = ?m + 1" "prepared_revision db = revision"
    "dbState db' = Some (s\<lparr>psMutationRevision := revision\<rparr>)" "psToken s = tok"
    "psSnapshotSequence s = sequence"
    using eff tok sq by (simp_all add: prepared_revision_def)
  obtain r where r: "miState r = Committed" "map_of (dbMutations db') = (map_of (dbMutations db))(?m + 1 \<mapsto> r)"
    using eff(6) by auto
  have le: "?m + 1 \<le> MaxInt64"
    using prepared_pos_le [OF ok s] eff(2) word_Suc_nz [OF m] by (simp add: prepared_revision_def)
  have rest: "miState x = Committed \<and> 0 < k \<and> k \<le> ?m"
    if "k \<noteq> ?m + 1" "map_of (dbMutations db) k = Some x" for k x
    using intents_fit [OF int that(2)] that(1) by (cases "miState x") auto
  have fits: "intent_fits (?m + 1) k (miState x)" if "map_of (dbMutations db') k = Some x" for k x
  proof (cases "k = ?m + 1")
    case True
    with that r word_Suc_nz [OF m] show ?thesis by (simp add: word_gt_0)
  next
    case False
    with that r have "map_of (dbMutations db) k = Some x" by simp
    with rest False show ?thesis by (simp add: word_le_Suc [OF m])
  qed
  have dense: "\<exists>x. map_of (dbMutations db') k = Some x \<and> miState x = Committed"
    if "0 < k" "k \<le> ?m + 1" for k
  proof (cases "k = ?m + 1")
    case False
    with that int have "\<exists>x. map_of (dbMutations db) k = Some x \<and> miState x = Committed"
      by (simp add: intents_ok_def word_le_Suc [OF m])
    with False r show ?thesis by simp
  qed (use r in simp)
  have int': "intents_ok (?m + 1) (dbMutations db')"
    unfolding intents_ok_def using eff(3) le fits dense by blast
  moreover have "captures_ok (?m + 1) (psSnapshotSequence s) (dbCaptures db')"
    using caps eff(5) by (auto simp: captures_ok_def word_le_Suc [OF m])
  moreover have "sql_args_ok (state_args (s\<lparr>psMutationRevision := ?m + 1\<rparr>))"
    using db_okD(3) [OF ok s] le by (simp add: sql_args_ok_def state_args_def)
  ultimately show "db_ok db'" using eff by (simp add: db_ok_def)
  have "map_of (dbMutations db') (?m + 1 + 1) \<noteq> Some x" for x
  proof
    assume "map_of (dbMutations db') (?m + 1 + 1) = Some x"
    then have "map_of (dbMutations db) (?m + 1 + 1) = Some x"
      using r word_Suc_gt [OF le] by (auto split: if_splits)
    then show False using rest [of "?m + 1 + 1" x] word_Suc_gt [OF le] word_Suc_gt [OF m] by auto
  qed
  then show "prepared_revision db' = 0" using prepared_revision_cases [OF int'] by simp
qed


lemma prepared_revision_frame:
  "dbMutations db' = dbMutations db \<Longrightarrow> prepared_revision db' = prepared_revision db"
  by (simp add: prepared_revision_def)

lemma prepareCapture_keeps:
  assumes ok: "db_ok db" and s: "dbState db = Some s"
    and res: "prepareCapture fault i hw at db = Inr db'"
  shows "db_ok db'" "dbState db' = Some (s\<lparr>psSnapshotSequence := ciSnapshotSequence i\<rparr>)"
    "dbMutations db' = dbMutations db"
    "psToken s = ciToken i" "psMutationRevision s = ciMutationRevision i"
    "psSnapshotSequence s + 1 = ciSnapshotSequence i"
    "\<exists>r. crState r = CapPrepared \<and> crToken r = ciToken i
       \<and> crMutationRevision r = ciMutationRevision i
       \<and> map_of (dbCaptures db') = (map_of (dbCaptures db))(ciSnapshotSequence i \<mapsto> r)"
proof -
  let ?row = "\<lparr>crToken = ciToken i, crMutationRevision = ciMutationRevision i, crState = CapPrepared,
    crRoots = empty_roots\<lparr>frAuditAnchor := hwChainHash hw\<rparr>, crPreparedAt = at, crCapturedAt = None\<rparr>"
  have g: "psToken s = ciToken i" "psMutationRevision s = ciMutationRevision i"
      "psSnapshotSequence s = ciSnapshotSequence i - 1" "ciSnapshotSequence i - 1 \<le> MaxInt64"
      "ciSnapshotSequence i \<le> MaxInt64"
      "map_of (dbCaptures db) (ciSnapshotSequence i) = None"
    and db': "db' = db\<lparr>dbState := Some (s\<lparr>psSnapshotSequence := ciSnapshotSequence i\<rparr>),
      dbCaptures := sql_insert (ciSnapshotSequence i) ?row (dbCaptures db)\<rparr>"
    using res s by (auto simp: prepareCapture_def sql_args_ok_def split: option.splits if_splits)
  show "psToken s = ciToken i" "psMutationRevision s = ciMutationRevision i"
    "psSnapshotSequence s + 1 = ciSnapshotSequence i" "dbMutations db' = dbMutations db"
    "dbState db' = Some (s\<lparr>psSnapshotSequence := ciSnapshotSequence i\<rparr>)"
    using g by (simp_all add: db')
  have "captures_ok (psMutationRevision s) (ciSnapshotSequence i) (dbCaptures db')"
    using db_okD(2) [OF ok s] g word_le_Suc [OF g(4)]
    by (auto simp: captures_ok_def db' split: option.splits if_splits)
  moreover have "sql_args_ok (state_args (s\<lparr>psSnapshotSequence := ciSnapshotSequence i\<rparr>))"
    using db_okD(3) [OF ok s] g(5) by (simp add: sql_args_ok_def state_args_def)
  ultimately show "db_ok db'" using db_okD(1) [OF ok s] by (simp add: db_ok_def db')
  show "\<exists>r. crState r = CapPrepared \<and> crToken r = ciToken i
       \<and> crMutationRevision r = ciMutationRevision i
       \<and> map_of (dbCaptures db') = (map_of (dbCaptures db))(ciSnapshotSequence i \<mapsto> r)"
    using g(6) by (intro exI [of _ ?row]) (auto simp: db' fun_eq_iff split: option.splits)
qed

lemma finishCapture_keeps:
  assumes ok: "db_ok db" and res: "finishCapture fault i roots st at db = Inr db'"
  shows "db_ok db'" "dbState db' = dbState db" "dbMutations db' = dbMutations db"
    "map_of (dbCaptures db') (ciSnapshotSequence i) =
       map_option (\<lambda>r. if crToken r = ciToken i \<and> crMutationRevision r = ciMutationRevision i
         \<and> crState r = CapPrepared
         then r\<lparr>crState := st, crRoots := roots, crCapturedAt := Some at\<rparr> else r)
       (map_of (dbCaptures db) (ciSnapshotSequence i))"
proof -
  let ?P = "\<lambda>k r. k = ciSnapshotSequence i \<and> crToken r = ciToken i
    \<and> crMutationRevision r = ciMutationRevision i \<and> crState r = CapPrepared"
  have db': "db' = db\<lparr>dbCaptures := sql_update ?P
      (\<lambda>r. r\<lparr>crState := st, crRoots := roots, crCapturedAt := Some at\<rparr>) (dbCaptures db)\<rparr>"
    using res by (auto simp: finishCapture_def Let_def split: option.splits if_splits)
  show "dbState db' = dbState db" "dbMutations db' = dbMutations db"
    "map_of (dbCaptures db') (ciSnapshotSequence i) =
       map_option (\<lambda>r. if crToken r = ciToken i \<and> crMutationRevision r = ciMutationRevision i
         \<and> crState r = CapPrepared
         then r\<lparr>crState := st, crRoots := roots, crCapturedAt := Some at\<rparr> else r)
       (map_of (dbCaptures db) (ciSnapshotSequence i))"
    by (simp_all add: db')
  show "db_ok db'"
  proof (cases "dbState db")
    case None
    with ok show ?thesis by (simp add: db_ok_def db' sql_update_def)
  next
    case (Some s)
    have "captures_ok (psMutationRevision s) (psSnapshotSequence s) (dbCaptures db')"
      using db_okD(2) [OF ok Some] by (fastforce simp: captures_ok_def db' split: if_splits)
    with db_okD(1,3) [OF ok Some] Some show ?thesis by (simp add: db_ok_def db')
  qed
qed

lemma persistState_keeps:
  assumes ok: "db_ok db" and s: "dbState db = Some s"
    and same: "psMutationRevision s' = psMutationRevision s" "psSnapshotSequence s' = psSnapshotSequence s"
    and res: "persistState fault s' db = Inr db'"
  shows "db_ok db'" "dbState db' = Some s'" "dbMutations db' = dbMutations db"
  using res ok s same
  by (auto simp: persistState_def db_ok_def split: option.splits if_splits)

section \<open>Reopening\<close>

text \<open>What a database file says about committed and prepared mutations.\<close>

definition file_ok :: "coord_db option \<Rightarrow> bool" where
  "file_ok file = (case file of None \<Rightarrow> True | Some db \<Rightarrow> db_ok db)"

definition file_committed :: "coord_db option \<Rightarrow> u64" where
  "file_committed file =
     (case Option.bind file dbState of None \<Rightarrow> 0 | Some s \<Rightarrow> psMutationRevision s)"

definition file_prepared :: "coord_db option \<Rightarrow> u64" where
  "file_prepared file = (case file of None \<Rightarrow> 0 | Some db \<Rightarrow> prepared_revision db)"

lemmas file_defs = file_ok_def file_committed_def file_prepared_def

lemma prepared_revision_Nil: "dbMutations db = [] \<Longrightarrow> prepared_revision db = 0"
  by (simp add: prepared_revision_def sql_max_def)

lemma create_ensure_keeps:
  assumes "file_ok file"
  defines "db \<equiv> ensureAuditEpochColumn (create_tables file)"
  shows "db_ok db" "file_committed (Some db) = file_committed file"
    "file_prepared (Some db) = file_prepared file" "dbHasAuditEpoch db"
  using assms
  by (auto simp: db_ok_def file_defs ensureAuditEpochColumn_def create_tables_def empty_db_def
      prepared_revision_def sql_max_def sql_args_ok_def state_args_def token_args_def MaxInt64_def
      split: option.splits)

lemma abandon_captures_keeps:
  assumes "db_ok db"
  shows "db_ok (abandon_captures at db)"
    "file_committed (Some (abandon_captures at db)) = file_committed (Some db)"
    "prepared_revision (abandon_captures at db) = prepared_revision db"
    "dbState (abandon_captures at db) = dbState db"
proof -
  show "db_ok (abandon_captures at db)"
  proof (cases "dbState db")
    case None
    with assms show ?thesis by (simp add: db_ok_def abandon_captures_def sql_update_def)
  next
    case (Some s)
    have "captures_ok (psMutationRevision s) (psSnapshotSequence s) (dbCaptures (abandon_captures at db))"
      using db_okD(2) [OF assms Some]
      by (auto simp: captures_ok_def abandon_captures_def split: if_splits)
    with db_okD(1,3) [OF assms Some] Some show ?thesis by (simp add: db_ok_def abandon_captures_def)
  qed
qed (simp_all add: file_defs abandon_captures_def prepared_revision_def)

lemma insertInitial_keeps:
  assumes ok: "db_ok db" and none: "dbState db = None"
    and s: "psMutationRevision s = 0" "psSnapshotSequence s = 0"
    and res: "insertInitial fault s db = Inr db'"
  shows "db_ok db'" "dbState db' = Some s" "dbMutations db' = dbMutations db"
  using ok none s res
  by (auto simp: insertInitial_def db_ok_def intents_ok_def captures_ok_def MaxInt64_def
      split: option.splits if_splits)

lemma openPersistentStore_keeps:
  assumes ok: "file_ok file" and res: "openPersistentStore f path tok now file = (file', r)"
  shows "file_ok file'" "file_committed file' = file_committed file"
    "file_prepared file' = file_prepared file"
    "r = Inr (s, p) \<Longrightarrow> \<exists>db. file' = Some db \<and> dbState db = Some s \<and> psToken s = tok
       \<and> p = prepared_revision db"
proof -
  define db where "db = ensureAuditEpochColumn (create_tables file)"
  note keep = create_ensure_keeps [OF ok, folded db_def]
  have fin: "file_ok file' \<and> file_committed file' = file_committed file
      \<and> file_prepared file' = file_prepared file
      \<and> (\<forall>s p. r = Inr (s, p) \<longrightarrow> (\<exists>db. file' = Some db \<and> dbState db = Some s \<and> psToken s = tok
           \<and> p = prepared_revision db))"
  proof (cases "path = [] \<or> ofSchema f \<noteq> None")
    case True
    with res ok show ?thesis by (auto simp: openPersistentStore_def split: if_splits)
  next
    case False
    show ?thesis
    proof (cases "dbState db")
      case None
      define s0 where "s0 = \<lparr>psToken = tok, psMutationRevision = 0, psSnapshotSequence = 0,
                           psHighWatermark = no_watermark, psAuditEpoch = 1\<rparr>"
      have nil: "dbMutations db = []" using keep(1) None by (simp add: db_ok_def)
      show ?thesis
      proof (cases "loadState (ofLoad f) db = Inr None \<and> (\<exists>db'. insertInitial (ofInsert f) s0 db = Inr db')")
        case True
        then obtain db' where ins: "insertInitial (ofInsert f) s0 db = Inr db'" by blast
        have ins': "db_ok db'" "dbState db' = Some s0" "dbMutations db' = dbMutations db"
          using insertInitial_keeps [OF keep(1) None _ _ ins] by (simp_all add: s0_def)
        have com: "file_committed (Some db') = file_committed file"
            "file_prepared (Some db') = file_prepared file"
          using keep ins' nil None by (auto simp: file_defs s0_def prepared_revision_Nil)
        show ?thesis
          using res True False ins ins' com abandon_captures_keeps [OF ins'(1), of now]
          unfolding openPersistentStore_def Let_def db_def [symmetric] s0_def [symmetric]
          by (auto simp: file_ok_def file_prepared_def s0_def split: option.splits)
      next
        case failed: False
        then show ?thesis
          using res False keep None
          unfolding openPersistentStore_def Let_def db_def [symmetric] s0_def [symmetric]
          by (auto simp: file_ok_def loadState_def split: option.splits sum.splits)
      qed
    next
      case (Some s0)
      show ?thesis
        using res False keep Some abandon_captures_keeps [OF keep(1), of now]
        unfolding openPersistentStore_def Let_def db_def [symmetric]
        by (auto simp: file_ok_def file_prepared_def loadState_def split: option.splits sum.splits if_splits)
    qed
  qed
  then show "file_ok file'" "file_committed file' = file_committed file"
    "file_prepared file' = file_prepared file"
    "r = Inr (s, p) \<Longrightarrow> \<exists>db. file' = Some db \<and> dbState db = Some s \<and> psToken s = tok
       \<and> p = prepared_revision db"
    by blast+
qed

lemma epoch_Suc_args:
  "\<not> MaxInt64 \<le> psAuditEpoch s \<Longrightarrow> sql_args_ok (state_args s) \<Longrightarrow>
     sql_args_ok (state_args (s\<lparr>psAuditEpoch := psAuditEpoch s + 1\<rparr>))"
  by (auto simp: sql_args_ok_def state_args_def token_args_def not_le dest: inc_le)

lemma RotatePersistentAuditEpoch_keeps:
  assumes "file_ok file" "RotatePersistentAuditEpoch fault path ws file = (file', r)"
  shows "file_ok file'" "file_committed file' = file_committed file"
    "file_prepared file' = file_prepared file"
  using assms create_ensure_keeps [OF assms(1)]
  by (auto simp: RotatePersistentAuditEpoch_def file_defs create_tables_def Let_def db_ok_def
      prepared_revision_def epoch_Suc_args split: if_splits option.splits)

end
