(* ===== verification/Write_Coordinator.thy ===== *)
theory Write_Coordinator
  imports Write_Store
begin

text \<open>
  The single write gate of a workspace
  (\<open>sidecar/internal/writecoordinator/coordinator.go\<close>): tokens, the write protocol
  (prepare, apply, finish), captures, draining, session rotation, fence transfer and the
  resolution of a mutation a crashed process left prepared.

  A coordinator is a record; \<open>cStore\<close> is the durable database, absent when persistence is
  disabled. \<open>cGate\<close> is the one-place channel \<open>gate\<close>. An operation takes, beside its
  arguments, what its environment does during the call: whether the context ended before the
  gate was obtained, the clock readings, the database faults, and the callback as a function
  from its intent to the error it returns (\<^const>\<open>None\<close> for nil). Fields guarded by
  \<open>mu\<close> are only written under the gate, so an operation that holds the gate runs as one
  state transformer.
\<close>

section \<open>Data\<close>

record counters =
  cntSessionEpoch :: u64
  cntFenceEpoch :: u64
  cntMutationRevision :: u64
  cntSnapshotSequence :: u64

record write_intent =
  wiToken :: token
  wiMutationRevision :: u64
  wiAuditSourceEpoch :: string

record write_receipt =
  wrToken :: token
  wrMutationRevision :: u64

record recovery_state =
  rsToken :: token
  rsCounters :: counters
  rsPendingMutationRevision :: u64

record capture_handle =
  chIntent :: capture_intent
  chRoots :: frozen_roots
  chCapturedAt :: instant

record coordinator =
  cGate :: bool
  cStore :: "coord_db option"
  cToken :: token
  cMutationRevision :: u64
  cSnapshotSequence :: u64
  cHighWatermark :: high_watermark
  cPendingMutation :: u64
  cAuditEpoch :: u64

text \<open>What the environment of one gated call does.\<close>

record call_env =
  ceContext :: "go_error option"
  ceNow :: instant
  cePrepare :: "go_error option"
  ceInjected :: "go_error option"
  ceFinish :: "go_error option"
  ceFinishedAt :: instant

definition calm_env :: call_env where
  "calm_env = \<lparr>ceContext = None, ceNow = 0, cePrepare = None, ceInjected = None,
     ceFinish = None, ceFinishedAt = 0\<rparr>"

definition ErrPersistenceDisabled :: go_error where
  "ErrPersistenceDisabled = Err ''workspace.write.persistence_disabled''"

definition ErrCallbackRequired :: go_error where
  "ErrCallbackRequired = Err ''workspace.write.callback_required''"

section \<open>Construction and reading\<close>

definition businessAuditSourceEpoch :: "string \<Rightarrow> u64 \<Rightarrow> string" where
  "businessAuditSourceEpoch workspaceID epoch =
     (if epoch \<le> 1 then ''business-v2''
      else ''business-v2:'' @ workspaceID @ '':'' @ pad_zeros 20 (dec_text (unat epoch)))"

definition New :: "string \<Rightarrow> u64 \<Rightarrow> string \<Rightarrow> u64 \<Rightarrow> coordinator result" where
  "New workspaceID fenceEpoch claimID sessionEpoch =
     (if go_blank workspaceID \<or> go_blank claimID \<or> fenceEpoch = 0 \<or> sessionEpoch = 0
      then Inl ErrInvalidIdentity
      else Inr \<lparr>cGate = False, cStore = None,
                cToken = \<lparr>tokWorkspaceID = workspaceID, tokSessionEpoch = sessionEpoch,
                          tokFenceEpoch = fenceEpoch, tokClaimID = claimID\<rparr>,
                cMutationRevision = 0, cSnapshotSequence = 0, cHighWatermark = no_watermark,
                cPendingMutation = 0, cAuditEpoch = 1\<rparr>)"

definition OpenPersistent ::
  "open_faults \<Rightarrow> instant \<Rightarrow> string \<Rightarrow> string \<Rightarrow> u64 \<Rightarrow> string \<Rightarrow> u64 \<Rightarrow> coord_db option
   \<Rightarrow> coord_db option \<times> coordinator result" where
  "OpenPersistent f now path workspaceID fenceEpoch claimID sessionEpoch file =
     (case New workspaceID fenceEpoch claimID sessionEpoch of Inl e \<Rightarrow> (file, Inl e)
      | Inr c \<Rightarrow>
          (case openPersistentStore f path (cToken c) now file of
             (file', Inl e) \<Rightarrow> (file', Inl e)
           | (file', Inr (s, pending)) \<Rightarrow>
               (file', Inr (c\<lparr>cStore := file', cToken := psToken s,
                  cMutationRevision := psMutationRevision s,
                  cSnapshotSequence := psSnapshotSequence s,
                  cHighWatermark := psHighWatermark s,
                  cPendingMutation := pending,
                  cAuditEpoch := psAuditEpoch s\<rparr>))))"

definition countersLocked :: "coordinator \<Rightarrow> counters" where
  "countersLocked c = \<lparr>cntSessionEpoch = tokSessionEpoch (cToken c),
     cntFenceEpoch = tokFenceEpoch (cToken c), cntMutationRevision = cMutationRevision c,
     cntSnapshotSequence = cSnapshotSequence c\<rparr>"

definition Current :: "coordinator \<Rightarrow> token \<times> counters" where
  "Current c = (cToken c, countersLocked c)"

definition BusinessEpoch :: "coordinator \<Rightarrow> u64" where
  "BusinessEpoch c = cAuditEpoch c"

definition RecoveryState :: "coordinator \<Rightarrow> recovery_state" where
  "RecoveryState c = \<lparr>rsToken = cToken c, rsCounters = countersLocked c,
     rsPendingMutationRevision = cPendingMutation c\<rparr>"

section \<open>The gate\<close>

definition acquire :: "go_error option \<Rightarrow> coordinator \<Rightarrow> coordinator result" where
  "acquire ctx c = (case ctx of Some e \<Rightarrow> Inl e | None \<Rightarrow> Inr (c\<lparr>cGate := True\<rparr>))"

definition release :: "coordinator \<Rightarrow> coordinator" where
  "release c = c\<lparr>cGate := False\<rparr>"

definition with_gate ::
  "go_error option \<Rightarrow> (coordinator \<Rightarrow> coordinator \<times> 'a result) \<Rightarrow> coordinator
   \<Rightarrow> coordinator \<times> 'a result" where
  "with_gate ctx body c =
     (case acquire ctx c of Inl e \<Rightarrow> (c, Inl e)
      | Inr c1 \<Rightarrow> (case body c1 of (c2, r) \<Rightarrow> (release c2, r)))"

section \<open>Write\<close>

definition recovery_required :: "u64 \<Rightarrow> go_error" where
  "recovery_required pending =
     Wrap (''mutationRevision='' @ dec_text (unat pending)) ErrRecoveryRequired"

text \<open>The checks under \<open>mu\<close>, in order; the result is the revision to allocate.\<close>

definition write_admit :: "token \<Rightarrow> coordinator \<Rightarrow> u64 result" where
  "write_admit tok c =
     (if cPendingMutation c \<noteq> 0 then Inl (recovery_required (cPendingMutation c))
      else if cToken c \<noteq> tok then Inl ErrStaleToken
      else if cMutationRevision c = MaxUint64 then Inl ErrCounterExhausted
      else Inr (cMutationRevision c + 1))"

definition write_prepare :: "call_env \<Rightarrow> u64 \<Rightarrow> coordinator \<Rightarrow> coordinator result" where
  "write_prepare env next c =
     (case cStore c of None \<Rightarrow> Inr c
      | Some db \<Rightarrow>
          (case prepareMutation (cePrepare env) (cToken c) next (ceNow env) db of
             Inl e \<Rightarrow> Inl e
           | Inr db' \<Rightarrow> Inr (c\<lparr>cStore := Some db', cPendingMutation := next\<rparr>)))"

definition intent_of :: "u64 \<Rightarrow> coordinator \<Rightarrow> write_intent" where
  "intent_of revision c = \<lparr>wiToken = cToken c, wiMutationRevision = revision,
     wiAuditSourceEpoch =
       businessAuditSourceEpoch (tokWorkspaceID (cToken c)) (cAuditEpoch c)\<rparr>"

definition clear_pending :: "u64 \<Rightarrow> coordinator \<Rightarrow> coordinator" where
  "clear_pending revision c =
     (if cPendingMutation c = revision then c\<lparr>cPendingMutation := 0\<rparr> else c)"

text \<open>The callback failed: keep the intent pending if the external domain committed,
  otherwise record the failure.\<close>

definition write_abort ::
  "call_env \<Rightarrow> u64 \<Rightarrow> go_error \<Rightarrow> coordinator \<Rightarrow> coordinator \<times> write_receipt result" where
  "write_abort env next e c =
     (if errors_is e ErrExternalCommitted then (c, Inl e)
      else case cStore c of None \<Rightarrow> (c, Inl e)
      | Some db \<Rightarrow>
          (case finishMutation (ceInjected env) (ceFinish env) (cToken c) next
                  (cSnapshotSequence c) False (ceFinishedAt env) db of
             Inl p \<Rightarrow> (c, Inl (join2 e (Some p)))
           | Inr db' \<Rightarrow> (clear_pending next (c\<lparr>cStore := Some db'\<rparr>), Inl e)))"

text \<open>The callback succeeded: record the commit, then publish the revision in memory.\<close>

definition write_commit ::
  "call_env \<Rightarrow> u64 \<Rightarrow> coordinator \<Rightarrow> coordinator \<times> write_receipt result" where
  "write_commit env next c =
     (let publish = (\<lambda>c. (clear_pending next (c\<lparr>cMutationRevision := next\<rparr>),
                          Inr \<lparr>wrToken = cToken c, wrMutationRevision = next\<rparr>))
      in (case cStore c of None \<Rightarrow> publish c
          | Some db \<Rightarrow>
              (case finishMutation (ceInjected env) (ceFinish env) (cToken c) next
                      (cSnapshotSequence c) True (ceFinishedAt env) db of
                 Inl p \<Rightarrow> (c, Inl p)
               | Inr db' \<Rightarrow> publish (c\<lparr>cStore := Some db'\<rparr>))))"

definition Write ::
  "call_env \<Rightarrow> token \<Rightarrow> (write_intent \<Rightarrow> go_error option) option \<Rightarrow> coordinator
   \<Rightarrow> coordinator \<times> write_receipt result" where
  "Write env tok apply c =
     (case apply of None \<Rightarrow> (c, Inl ErrCallbackRequired)
      | Some f \<Rightarrow>
          with_gate (ceContext env) (\<lambda>c.
            (case write_admit tok c of Inl e \<Rightarrow> (c, Inl e)
             | Inr next \<Rightarrow>
                 (case write_prepare env next c of Inl e \<Rightarrow> (c, Inl e)
                  | Inr c1 \<Rightarrow>
                      (case f (intent_of next c1) of
                         Some e \<Rightarrow> write_abort env next e c1
                       | None \<Rightarrow> write_commit env next c1)))) c)"

section \<open>Recovery of a prepared mutation\<close>

definition resume_guard :: "token \<Rightarrow> u64 \<Rightarrow> coordinator \<Rightarrow> unit result" where
  "resume_guard tok revision c =
     (if cToken c \<noteq> tok then Inl ErrStaleToken
      else if revision = 0 \<or> cPendingMutation c \<noteq> revision
              \<or> revision \<noteq> cMutationRevision c + 1
      then Inl (Wrap (''mutationRevision='' @ dec_text (unat revision) @ '' pending=''
                  @ dec_text (unat (cPendingMutation c))) ErrRecoveryRequired)
      else Inr ())"

definition resume_finish ::
  "call_env \<Rightarrow> token \<Rightarrow> u64 \<Rightarrow> coord_db \<Rightarrow> coordinator \<Rightarrow> coordinator \<times> write_receipt result" where
  "resume_finish env tok revision db c =
     (if cPendingMutation c \<noteq> revision \<or> cMutationRevision c + 1 \<noteq> revision \<or> cToken c \<noteq> tok
      then (c, Inl ErrRecoveryRequired)
      else (case finishMutation (ceInjected env) (ceFinish env) tok revision
                   (cSnapshotSequence c) True (ceFinishedAt env) db of
              Inl p \<Rightarrow> (c, Inl p)
            | Inr db' \<Rightarrow>
                (c\<lparr>cStore := Some db', cMutationRevision := revision, cPendingMutation := 0\<rparr>,
                 Inr \<lparr>wrToken = cToken c, wrMutationRevision = revision\<rparr>)))"

definition ResumePreparedMutation ::
  "call_env \<Rightarrow> token \<Rightarrow> u64 \<Rightarrow> (write_intent \<Rightarrow> go_error option) option \<Rightarrow> coordinator
   \<Rightarrow> coordinator \<times> write_receipt result" where
  "ResumePreparedMutation env tok revision apply c =
     (case cStore c of None \<Rightarrow> (c, Inl ErrPersistenceDisabled)
      | Some db \<Rightarrow>
     (case apply of None \<Rightarrow> (c, Inl ErrCallbackRequired)
      | Some f \<Rightarrow>
          with_gate (ceContext env) (\<lambda>c.
            (case resume_guard tok revision c of Inl e \<Rightarrow> (c, Inl e)
             | Inr _ \<Rightarrow>
                 (case f (intent_of revision c) of
                    Some e \<Rightarrow> (c, Inl e)
                  | None \<Rightarrow> resume_finish env (cToken c) revision db c))) c))"

definition ResolvePreparedMutation ::
  "call_env \<Rightarrow> token \<Rightarrow> u64 \<Rightarrow> bool \<Rightarrow> coordinator \<Rightarrow> coordinator \<times> unit result" where
  "ResolvePreparedMutation env tok revision committed c =
     (case cStore c of None \<Rightarrow> (c, Inl ErrPersistenceDisabled)
      | Some db \<Rightarrow>
          with_gate (ceContext env) (\<lambda>c.
            if cToken c \<noteq> tok then (c, Inl ErrStaleToken)
            else (case finishMutation (ceInjected env) (ceFinish env) tok revision
                         (cSnapshotSequence c) committed (ceNow env) db of
                    Inl e \<Rightarrow> (c, Inl e)
                  | Inr db' \<Rightarrow>
                      let c1 = c\<lparr>cStore := Some db'\<rparr>;
                          c2 = (if committed \<and> cMutationRevision c1 < revision
                                then c1\<lparr>cMutationRevision := revision\<rparr> else c1)
                      in (clear_pending revision c2, Inr ()))) c)"

section \<open>Capture and drain\<close>

definition capture_admit :: "token \<Rightarrow> coordinator \<Rightarrow> capture_intent result" where
  "capture_admit tok c =
     (if cPendingMutation c \<noteq> 0 then Inl (recovery_required (cPendingMutation c))
      else if cToken c \<noteq> tok then Inl ErrStaleToken
      else if cSnapshotSequence c = MaxUint64 then Inl ErrCounterExhausted
      else Inr \<lparr>ciToken = cToken c, ciMutationRevision = cMutationRevision c,
                ciSnapshotSequence = cSnapshotSequence c + 1\<rparr>)"

definition capture_prepare ::
  "call_env \<Rightarrow> capture_intent \<Rightarrow> coordinator \<Rightarrow> coordinator result" where
  "capture_prepare env i c =
     (case cStore c of None \<Rightarrow> Inr (c\<lparr>cSnapshotSequence := ciSnapshotSequence i\<rparr>)
      | Some db \<Rightarrow>
          (case prepareCapture (cePrepare env) i (cHighWatermark c) (ceNow env) db of
             Inl e \<Rightarrow> Inl e
           | Inr db' \<Rightarrow>
               Inr (c\<lparr>cStore := Some db', cSnapshotSequence := ciSnapshotSequence i\<rparr>)))"

definition capture_finish ::
  "call_env \<Rightarrow> capture_intent \<Rightarrow> frozen_roots result \<Rightarrow> coordinator
   \<Rightarrow> coordinator \<times> capture_handle result" where
  "capture_finish env i frozen c =
     (case frozen of
        Inl e \<Rightarrow>
          (case cStore c of None \<Rightarrow> (c, Inl e)
           | Some db \<Rightarrow>
               (case finishCapture (ceFinish env) i empty_roots CapFailed (ceFinishedAt env) db of
                  Inl p \<Rightarrow> (c, Inl (join2 e (Some p)))
                | Inr db' \<Rightarrow> (c\<lparr>cStore := Some db'\<rparr>, Inl e)))
      | Inr roots \<Rightarrow>
          (let handle = \<lparr>chIntent = i, chRoots = roots, chCapturedAt = ceFinishedAt env\<rparr>
           in (case cStore c of None \<Rightarrow> (c, Inr handle)
               | Some db \<Rightarrow>
                   (case finishCapture (ceFinish env) i roots CapCaptured (ceFinishedAt env) db of
                      Inl p \<Rightarrow> (c, Inl p)
                    | Inr db' \<Rightarrow> (c\<lparr>cStore := Some db'\<rparr>, Inr handle)))))"

definition Capture ::
  "call_env \<Rightarrow> token \<Rightarrow> (capture_intent \<Rightarrow> frozen_roots result) option \<Rightarrow> coordinator
   \<Rightarrow> coordinator \<times> capture_handle result" where
  "Capture env tok freeze c =
     (case freeze of None \<Rightarrow> (c, Inl (Err ''snapshot.capture.freeze_required''))
      | Some f \<Rightarrow>
          with_gate (ceContext env) (\<lambda>c.
            (case capture_admit tok c of Inl e \<Rightarrow> (c, Inl e)
             | Inr i \<Rightarrow>
                 (case capture_prepare env i c of Inl e \<Rightarrow> (c, Inl e)
                  | Inr c1 \<Rightarrow> capture_finish env i (f i) c1))) c)"

definition persisted_of :: "coordinator \<Rightarrow> persisted_state" where
  "persisted_of c = \<lparr>psToken = cToken c, psMutationRevision = cMutationRevision c,
     psSnapshotSequence = cSnapshotSequence c, psHighWatermark = cHighWatermark c,
     psAuditEpoch = cAuditEpoch c\<rparr>"

text \<open>The tail of \<open>Drain\<close>, \<open>RotateSession\<close> and \<open>TransferFence\<close>: persist the new
  state when there is a store, then adopt it.\<close>

definition persist_then ::
  "go_error option \<Rightarrow> coordinator \<Rightarrow> 'a \<Rightarrow> coordinator \<Rightarrow> coordinator \<times> 'a result" where
  "persist_then fault c' v c =
     (case cStore c of None \<Rightarrow> (c', Inr v)
      | Some db \<Rightarrow>
          (case persistState fault (persisted_of c') db of
             Inl e \<Rightarrow> (c, Inl e)
           | Inr db' \<Rightarrow> (c'\<lparr>cStore := Some db'\<rparr>, Inr v)))"

definition Drain ::
  "call_env \<Rightarrow> token \<Rightarrow> high_watermark result option \<Rightarrow> coordinator
   \<Rightarrow> coordinator \<times> high_watermark result" where
  "Drain env tok drain c =
     (case drain of None \<Rightarrow> (c, Inl (Err ''workspace.write.drain_required''))
      | Some d \<Rightarrow>
          with_gate (ceContext env) (\<lambda>c.
            if cPendingMutation c \<noteq> 0 then (c, Inl (recovery_required (cPendingMutation c)))
            else if cToken c \<noteq> tok then (c, Inl ErrStaleToken)
            else (case d of Inl e \<Rightarrow> (c, Inl e)
                  | Inr hw \<Rightarrow>
                      if go_blank (hwSourceEpoch hw) \<or> hwSourceSequence hw = 0
                         \<or> go_blank (hwChainHash hw)
                      then (c, Inl (Err ''workspace.write.high_watermark_invalid''))
                      else persist_then (ceFinish env) (c\<lparr>cHighWatermark := hw\<rparr>) hw c)) c)"

section \<open>Sessions and fences\<close>

definition RotateSession ::
  "call_env \<Rightarrow> token \<Rightarrow> coordinator \<Rightarrow> coordinator \<times> token result" where
  "RotateSession env expected c =
     with_gate (ceContext env) (\<lambda>c.
       if cToken c \<noteq> expected then (c, Inl ErrStaleToken)
       else if cPendingMutation c \<noteq> 0 then (c, Inl ErrRecoveryRequired)
       else if tokSessionEpoch (cToken c) = MaxUint64 then (c, Inl ErrCounterExhausted)
       else let next = (cToken c)\<lparr>tokSessionEpoch := tokSessionEpoch (cToken c) + 1\<rparr>
            in persist_then (ceFinish env) (c\<lparr>cToken := next\<rparr>) next c) c"

definition TransferFence ::
  "call_env \<Rightarrow> token \<Rightarrow> string \<Rightarrow> coordinator \<Rightarrow> coordinator \<times> token result" where
  "TransferFence env expected nextClaimID c =
     (if go_blank nextClaimID then (c, Inl ErrInvalidIdentity)
      else with_gate (ceContext env) (\<lambda>c.
        if cToken c \<noteq> expected then (c, Inl ErrStaleToken)
        else if cPendingMutation c \<noteq> 0 then (c, Inl ErrRecoveryRequired)
        else if tokFenceEpoch (cToken c) = MaxUint64 then (c, Inl ErrCounterExhausted)
        else let next = (cToken c)\<lparr>tokFenceEpoch := tokFenceEpoch (cToken c) + 1,
                          tokClaimID := nextClaimID\<rparr>
             in persist_then (ceFinish env) (c\<lparr>cToken := next\<rparr>) next c) c)"

definition CaptureIntent ::
  "go_error option \<Rightarrow> u64 \<Rightarrow> coordinator \<Rightarrow> capture_intent_record result" where
  "CaptureIntent fault sequence c =
     (case cStore c of None \<Rightarrow> Inl ErrPersistenceDisabled
      | Some db \<Rightarrow> captureIntent fault sequence db)"


section \<open>The coordinator invariant\<close>

text \<open>
  Memory mirrors the database: the singleton row holds exactly the coordinator's state and
  the pending mutation is the prepared intent. Without a store nothing is ever pending.
\<close>

definition coord_ok :: "coordinator \<Rightarrow> bool" where
  "coord_ok c \<longleftrightarrow>
     (case cStore c of
        None \<Rightarrow> cPendingMutation c = 0
      | Some db \<Rightarrow> db_ok db \<and> dbState db = Some (persisted_of c)
                 \<and> cPendingMutation c = prepared_revision db)"

lemma persisted_of_frame [simp]:
  "persisted_of (c\<lparr>cGate := b\<rparr>) = persisted_of c"
  "persisted_of (c\<lparr>cStore := st\<rparr>) = persisted_of c"
  "persisted_of (c\<lparr>cPendingMutation := p\<rparr>) = persisted_of c"
  "persisted_of (release c) = persisted_of c"
  by (simp_all add: persisted_of_def release_def)

lemma coord_ok_gate [simp]: "coord_ok (c\<lparr>cGate := b\<rparr>) = coord_ok c"
  by (simp add: coord_ok_def split: option.splits)

lemma coord_ok_release [simp]: "coord_ok (release c) = coord_ok c"
  by (simp add: release_def)

lemma coord_ok_store:
  assumes "coord_ok c" "cStore c = Some db"
  shows "db_ok db" "dbState db = Some (persisted_of c)" "cPendingMutation c = prepared_revision db"
  using assms by (simp_all add: coord_ok_def)

lemma coord_ok_file:
  assumes "coord_ok c" "cStore c \<noteq> None"
  shows "file_ok (cStore c)" "file_committed (cStore c) = cMutationRevision c"
    "file_prepared (cStore c) = cPendingMutation c"
  using assms by (auto simp: coord_ok_def file_defs persisted_of_def)

lemma pending_is_next:
  assumes "coord_ok c" "cPendingMutation c \<noteq> 0"
  shows "cPendingMutation c = cMutationRevision c + 1" "cPendingMutation c \<le> MaxInt64"
proof -
  obtain db where db: "cStore c = Some db" using assms by (cases "cStore c") (auto simp: coord_ok_def)
  note ok = coord_ok_store [OF assms(1) db]
  show "cPendingMutation c = cMutationRevision c + 1" "cPendingMutation c \<le> MaxInt64"
    using prepared_pos_le [OF ok(1,2)] assms(2) unfolding ok(3) by (auto simp: persisted_of_def)
qed

lemma stored_revision_bound:
  "coord_ok c \<Longrightarrow> cStore c \<noteq> None \<Longrightarrow> cMutationRevision c \<le> MaxInt64"
  by (auto simp: coord_ok_def db_ok_def intents_ok_def persisted_of_def)

lemma coord_okI:
  assumes "db_ok db" "dbState db = Some (persisted_of c)" "cPendingMutation c = prepared_revision db"
    "cStore c = Some db"
  shows "coord_ok c"
  using assms by (simp add: coord_ok_def)

section \<open>Phases of a write\<close>

lemma write_admit_next:
  "write_admit tok c = Inr next \<Longrightarrow>
     cPendingMutation c = 0 \<and> cToken c = tok \<and> next = cMutationRevision c + 1
     \<and> cMutationRevision c \<noteq> MaxUint64"
  by (auto simp: write_admit_def split: if_splits)

lemma write_prepare_keeps:
  assumes ok: "coord_ok c" and adm: "write_admit tok c = Inr next"
    and res: "write_prepare env next c = Inr c1"
  shows "coord_ok c1" "persisted_of c1 = persisted_of c" "cGate c1 = cGate c"
    "cStore c1 = None \<longleftrightarrow> cStore c = None"
    "cPendingMutation c1 = (if cStore c = None then 0 else next)"
proof -
  note a = write_admit_next [OF adm]
  have "coord_ok c1 \<and> persisted_of c1 = persisted_of c \<and> cGate c1 = cGate c
    \<and> (cStore c1 = None \<longleftrightarrow> cStore c = None)
    \<and> cPendingMutation c1 = (if cStore c = None then 0 else next)"
  proof (cases "cStore c")
    case None
    with res a ok show ?thesis by (auto simp: write_prepare_def)
  next
    case (Some db)
    note st = coord_ok_store [OF ok Some]
    obtain db' where p: "prepareMutation (cePrepare env) (cToken c) next (ceNow env) db = Inr db'"
      and c1: "c1 = c\<lparr>cStore := Some db', cPendingMutation := next\<rparr>"
      using res Some by (auto simp: write_prepare_def split: sum.splits)
    have "next = psMutationRevision (persisted_of c) + 1" using a by (simp add: persisted_of_def)
    with p have p': "prepareMutation (cePrepare env) (cToken c)
      (psMutationRevision (persisted_of c) + 1) (ceNow env) db = Inr db'" by simp
    note k = prepareMutation_keeps [OF st(1,2) _ p']
    have "prepared_revision db = 0" using st(3) a by simp
    note k = k [OF this]
    show ?thesis using k a Some by (auto simp: c1 coord_ok_def persisted_of_def)
  qed
  then show "coord_ok c1" "persisted_of c1 = persisted_of c" "cGate c1 = cGate c"
    "cStore c1 = None \<longleftrightarrow> cStore c = None"
    "cPendingMutation c1 = (if cStore c = None then 0 else next)" by blast+
qed

lemma write_abort_keeps:
  assumes ok: "coord_ok c" and res: "write_abort env next e c = (c', r)"
    and nx: "cStore c \<noteq> None \<Longrightarrow> cPendingMutation c = next"
  shows "coord_ok c'" "persisted_of c' = persisted_of c" "cGate c' = cGate c"
    "cStore c' = None \<longleftrightarrow> cStore c = None"
    "c' = c \<or> \<not> errors_is e ErrExternalCommitted \<and> cPendingMutation c' = 0"
    "\<exists>e'. r = Inl e'"
proof -
  have "coord_ok c' \<and> persisted_of c' = persisted_of c \<and> cGate c' = cGate c
    \<and> (cStore c' = None \<longleftrightarrow> cStore c = None)
    \<and> (c' = c \<or> \<not> errors_is e ErrExternalCommitted \<and> cPendingMutation c' = 0) \<and> (\<exists>e'. r = Inl e')"
  proof (cases "\<exists>db db'. cStore c = Some db \<and> \<not> errors_is e ErrExternalCommitted
      \<and> finishMutation (ceInjected env) (ceFinish env) (cToken c) next
           (cSnapshotSequence c) False (ceFinishedAt env) db = Inr db'")
    case False
    with res ok show ?thesis
      by (auto simp: write_abort_def split: if_splits option.splits sum.splits)
  next
    case True
    then obtain db db' where db: "cStore c = Some db" and ext: "\<not> errors_is e ErrExternalCommitted"
      and f: "finishMutation (ceInjected env) (ceFinish env) (cToken c) next
           (cSnapshotSequence c) False (ceFinishedAt env) db = Inr db'" by blast
    note st = coord_ok_store [OF ok db]
    note k = finishMutation_failed_keeps [OF st(1,2) f]
    have c': "c' = c\<lparr>cStore := Some db', cPendingMutation := 0\<rparr>" and r: "r = Inl e"
      using res db ext f nx by (auto simp: write_abort_def clear_pending_def)
    show ?thesis using k ext db by (auto simp: c' r coord_ok_def persisted_of_def)
  qed
  then show "coord_ok c'" "persisted_of c' = persisted_of c" "cGate c' = cGate c"
    "cStore c' = None \<longleftrightarrow> cStore c = None"
    "c' = c \<or> \<not> errors_is e ErrExternalCommitted \<and> cPendingMutation c' = 0"
    "\<exists>e'. r = Inl e'" by blast+
qed

text \<open>The effect of a recorded commit on a coordinator.\<close>

definition advanced :: "u64 \<Rightarrow> coordinator \<Rightarrow> coordinator \<Rightarrow> bool" where
  "advanced next c c' \<longleftrightarrow> persisted_of c' = (persisted_of c)\<lparr>psMutationRevision := next\<rparr>
     \<and> cPendingMutation c' = 0 \<and> cGate c' = cGate c \<and> (cStore c' = None \<longleftrightarrow> cStore c = None)"

lemma write_commit_keeps:
  assumes ok: "coord_ok c" and res: "write_commit env next c = (c', r)"
    and nx: "cStore c \<noteq> None \<Longrightarrow> cPendingMutation c = next"
  shows "coord_ok c'"
    "(\<exists>e. r = Inl e \<and> c' = c \<and> cStore c \<noteq> None)
     \<or> r = Inr \<lparr>wrToken = cToken c, wrMutationRevision = next\<rparr> \<and> advanced next c c'"
proof -
  have "coord_ok c' \<and> ((\<exists>e. r = Inl e \<and> c' = c \<and> cStore c \<noteq> None)
     \<or> r = Inr \<lparr>wrToken = cToken c, wrMutationRevision = next\<rparr> \<and> advanced next c c')"
  proof (cases "cStore c")
    case None
    with res ok show ?thesis
      by (auto simp: write_commit_def clear_pending_def advanced_def coord_ok_def persisted_of_def
          split: if_splits)
  next
    case (Some db)
    note st = coord_ok_store [OF ok Some]
    let ?fin = "finishMutation (ceInjected env) (ceFinish env) (cToken c) next
             (cSnapshotSequence c) True (ceFinishedAt env) db"
    show ?thesis
    proof (cases ?fin)
      case (Inl p)
      with res Some ok show ?thesis by (auto simp: write_commit_def)
    next
      case (Inr db')
      note k = finishMutation_committed_keeps [OF st(1,2) Inr]
      have c': "c' = c\<lparr>cStore := Some db', cMutationRevision := next, cPendingMutation := 0\<rparr>"
        and r: "r = Inr \<lparr>wrToken = cToken c, wrMutationRevision = next\<rparr>"
        using res Some Inr nx by (auto simp: write_commit_def clear_pending_def)
      show ?thesis using k Some by (auto simp: c' r coord_ok_def persisted_of_def advanced_def)
    qed
  qed
  then show "coord_ok c'" "(\<exists>e. r = Inl e \<and> c' = c \<and> cStore c \<noteq> None)
     \<or> r = Inr \<lparr>wrToken = cToken c, wrMutationRevision = next\<rparr> \<and> advanced next c c'" by blast+
qed


section \<open>The other operations\<close>

text \<open>Operations that neither allocate nor settle a mutation.\<close>

definition same_mutations :: "coordinator \<Rightarrow> coordinator \<Rightarrow> bool" where
  "same_mutations c c' \<longleftrightarrow> cMutationRevision c' = cMutationRevision c
     \<and> cPendingMutation c' = cPendingMutation c \<and> (cStore c' = None \<longleftrightarrow> cStore c = None)"

lemma same_mutations_refl [simp]: "same_mutations c c"
  by (simp add: same_mutations_def)

lemma with_gate_cases:
  assumes "with_gate ctx body c = (c', r)"
  obtains (ended) e where "ctx = Some e" "c' = c" "r = Inl e"
  | (gated) c2 where "ctx = None" "body (c\<lparr>cGate := True\<rparr>) = (c2, r)" "c' = release c2"
  using assms by (auto simp: with_gate_def acquire_def split: option.splits prod.splits)

lemma persist_then_keeps:
  assumes ok: "coord_ok c" and same: "same_mutations c c1" "cStore c1 = cStore c"
      "cSnapshotSequence c1 = cSnapshotSequence c"
    and res: "persist_then fault c1 v c = (c', r)"
  shows "coord_ok c'" "same_mutations c c'"
    "(\<exists>e. r = Inl e) \<and> c' = c \<or> r = Inr v \<and> persisted_of c' = persisted_of c1"
proof -
  have "coord_ok c' \<and> same_mutations c c' \<and>
    ((\<exists>e. r = Inl e) \<and> c' = c \<or> r = Inr v \<and> persisted_of c' = persisted_of c1)"
  proof (cases "cStore c")
    case None
    with res ok same show ?thesis by (auto simp: persist_then_def coord_ok_def same_mutations_def)
  next
    case (Some db)
    note st = coord_ok_store [OF ok Some]
    show ?thesis
    proof (cases "persistState fault (persisted_of c1) db")
      case (Inl e)
      with res Some ok show ?thesis by (auto simp: persist_then_def)
    next
      case (Inr db')
      have "psMutationRevision (persisted_of c1) = psMutationRevision (persisted_of c)"
        "psSnapshotSequence (persisted_of c1) = psSnapshotSequence (persisted_of c)"
        using same by (simp_all add: persisted_of_def same_mutations_def)
      note k = persistState_keeps [OF st(1,2) this Inr]
      have c': "c' = c1\<lparr>cStore := Some db'\<rparr>" "r = Inr v" using res Some Inr by (auto simp: persist_then_def)
      show ?thesis
        using k st same Some prepared_revision_frame [OF k(3)]
        by (auto simp: c' coord_ok_def same_mutations_def)
    qed
  qed
  then show "coord_ok c'" "same_mutations c c'"
    "(\<exists>e. r = Inl e) \<and> c' = c \<or> r = Inr v \<and> persisted_of c' = persisted_of c1" by blast+
qed

lemma same_mutations_gate [simp]:
  "same_mutations (c\<lparr>cGate := b\<rparr>) c' = same_mutations c c'"
  "same_mutations c (c'\<lparr>cGate := b\<rparr>) = same_mutations c c'"
  "same_mutations c (release c') = same_mutations c c'"
  by (simp_all add: same_mutations_def release_def)

lemma same_mutations_fields [simp]:
  "same_mutations c (c'\<lparr>cToken := t\<rparr>) = same_mutations c c'"
  "same_mutations c (c'\<lparr>cHighWatermark := h\<rparr>) = same_mutations c c'"
  "same_mutations c (c'\<lparr>cSnapshotSequence := n\<rparr>) = same_mutations c c'"
  by (simp_all add: same_mutations_def)

lemma Drain_keeps:
  assumes ok: "coord_ok c" and res: "Drain env tok d c = (c', r)"
  shows "coord_ok c' \<and> same_mutations c c' \<and> cToken c' = cToken c"
proof (cases d)
  case None
  with res ok show ?thesis by (auto simp: Drain_def)
next
  case (Some dr)
  from res [unfolded Drain_def Some option.case] show ?thesis
  proof (cases rule: with_gate_cases)
    case (gated c2)
    then consider "c2 = c\<lparr>cGate := True\<rparr>"
      | hw where "persist_then (ceFinish env) (c\<lparr>cGate := True, cHighWatermark := hw\<rparr>) hw
          (c\<lparr>cGate := True\<rparr>) = (c2, r)"
      by (auto split: if_splits sum.splits)
    then show ?thesis
    proof cases
      case 2
      note k = persist_then_keeps [OF _ _ _ _ this]
      show ?thesis using k ok gated(3) by (auto simp: release_def persisted_of_def)
    qed (use gated ok in \<open>auto simp: release_def\<close>)
  qed (use ok in simp)
qed

lemma RotateSession_keeps:
  assumes ok: "coord_ok c" and res: "RotateSession env tok c = (c', r)"
  shows "coord_ok c' \<and> same_mutations c c'"
    "(\<exists>e. r = Inl e) \<and> cToken c' = cToken c \<or>
     cToken c = tok \<and> cPendingMutation c = 0 \<and> tokSessionEpoch (cToken c) \<noteq> MaxUint64
     \<and> cToken c' = (cToken c)\<lparr>tokSessionEpoch := tokSessionEpoch (cToken c) + 1\<rparr>
     \<and> r = Inr (cToken c')"
proof -
  let ?next = "(cToken c)\<lparr>tokSessionEpoch := tokSessionEpoch (cToken c) + 1\<rparr>"
  let ?G = "c\<lparr>cGate := True\<rparr>"
  have "(coord_ok c' \<and> same_mutations c c') \<and> ((\<exists>e. r = Inl e) \<and> cToken c' = cToken c \<or>
     cToken c = tok \<and> cPendingMutation c = 0 \<and> tokSessionEpoch (cToken c) \<noteq> MaxUint64
     \<and> cToken c' = ?next \<and> r = Inr (cToken c'))"
    using res [unfolded RotateSession_def]
  proof (cases rule: with_gate_cases)
    case (gated c2)
    then consider "c2 = ?G" "\<exists>e. r = Inl e"
      | "persist_then (ceFinish env) (?G\<lparr>cToken := ?next\<rparr>) ?next ?G = (c2, r)"
        "cToken c = tok" "cPendingMutation c = 0" "tokSessionEpoch (cToken c) \<noteq> MaxUint64"
      by (auto simp: Let_def split: if_splits)
    then show ?thesis
    proof cases
      case 2
      note k = persist_then_keeps [OF _ _ _ _ 2(1)]
      show ?thesis using k ok gated(3) 2(2-) by (auto simp: release_def persisted_of_def)
    qed (use gated ok in \<open>auto simp: release_def\<close>)
  qed (use ok in simp)
  then show "coord_ok c' \<and> same_mutations c c'"
    "(\<exists>e. r = Inl e) \<and> cToken c' = cToken c \<or>
     cToken c = tok \<and> cPendingMutation c = 0 \<and> tokSessionEpoch (cToken c) \<noteq> MaxUint64
     \<and> cToken c' = ?next \<and> r = Inr (cToken c')" by blast+
qed

lemma TransferFence_keeps:
  assumes ok: "coord_ok c" and res: "TransferFence env tok claim c = (c', r)"
  shows "coord_ok c' \<and> same_mutations c c'"
    "(\<exists>e. r = Inl e) \<and> cToken c' = cToken c \<or>
     cToken c = tok \<and> cPendingMutation c = 0 \<and> tokFenceEpoch (cToken c) \<noteq> MaxUint64
     \<and> cToken c' = (cToken c)\<lparr>tokFenceEpoch := tokFenceEpoch (cToken c) + 1, tokClaimID := claim\<rparr>
     \<and> r = Inr (cToken c')"
proof -
  let ?next = "(cToken c)\<lparr>tokFenceEpoch := tokFenceEpoch (cToken c) + 1, tokClaimID := claim\<rparr>"
  let ?G = "c\<lparr>cGate := True\<rparr>"
  have "(coord_ok c' \<and> same_mutations c c') \<and> ((\<exists>e. r = Inl e) \<and> cToken c' = cToken c \<or>
     cToken c = tok \<and> cPendingMutation c = 0 \<and> tokFenceEpoch (cToken c) \<noteq> MaxUint64
     \<and> cToken c' = ?next \<and> r = Inr (cToken c'))"
  proof (cases "go_blank claim")
    case True
    with res ok show ?thesis by (auto simp: TransferFence_def)
  next
    case False
    from res [unfolded TransferFence_def if_not_P [OF False]] show ?thesis
    proof (cases rule: with_gate_cases)
      case (gated c2)
      then consider "c2 = ?G" "\<exists>e. r = Inl e"
        | "persist_then (ceFinish env) (?G\<lparr>cToken := ?next\<rparr>) ?next ?G = (c2, r)"
          "cToken c = tok" "cPendingMutation c = 0" "tokFenceEpoch (cToken c) \<noteq> MaxUint64"
        by (auto simp: Let_def split: if_splits)
      then show ?thesis
      proof cases
        case 2
        note k = persist_then_keeps [OF _ _ _ _ 2(1)]
        show ?thesis using k ok gated(3) 2(2-) by (auto simp: release_def persisted_of_def)
      qed (use gated ok in \<open>auto simp: release_def\<close>)
    qed (use ok in simp)
  qed
  then show "coord_ok c' \<and> same_mutations c c'"
    "(\<exists>e. r = Inl e) \<and> cToken c' = cToken c \<or>
     cToken c = tok \<and> cPendingMutation c = 0 \<and> tokFenceEpoch (cToken c) \<noteq> MaxUint64
     \<and> cToken c' = ?next \<and> r = Inr (cToken c')" by blast+
qed


lemma capture_admit_intent:
  "capture_admit tok c = Inr i \<Longrightarrow>
     cPendingMutation c = 0 \<and> cToken c = tok \<and> cSnapshotSequence c \<noteq> MaxUint64
     \<and> i = \<lparr>ciToken = cToken c, ciMutationRevision = cMutationRevision c,
            ciSnapshotSequence = cSnapshotSequence c + 1\<rparr>"
  by (auto simp: capture_admit_def split: if_splits)

lemma capture_prepare_keeps:
  assumes ok: "coord_ok c" and res: "capture_prepare env i c = Inr c1"
  shows "coord_ok c1" "same_mutations c c1" "cToken c1 = cToken c"
    "cSnapshotSequence c1 = ciSnapshotSequence i"
proof -
  have "coord_ok c1 \<and> same_mutations c c1 \<and> cToken c1 = cToken c
      \<and> cSnapshotSequence c1 = ciSnapshotSequence i"
  proof (cases "cStore c")
    case None
    with res ok show ?thesis by (auto simp: capture_prepare_def coord_ok_def)
  next
    case (Some db)
    note st = coord_ok_store [OF ok Some]
    obtain db' where p: "prepareCapture (cePrepare env) i (cHighWatermark c) (ceNow env) db = Inr db'"
      and c1: "c1 = c\<lparr>cStore := Some db', cSnapshotSequence := ciSnapshotSequence i\<rparr>"
      using res Some by (auto simp: capture_prepare_def split: sum.splits)
    note k = prepareCapture_keeps [OF st(1,2) p]
    show ?thesis
      using k st Some prepared_revision_frame [OF k(3)]
      by (auto simp: c1 coord_ok_def same_mutations_def persisted_of_def)
  qed
  then show "coord_ok c1" "same_mutations c c1" "cToken c1 = cToken c"
    "cSnapshotSequence c1 = ciSnapshotSequence i" by blast+
qed

lemma capture_finish_keeps:
  assumes ok: "coord_ok c" and res: "capture_finish env i frozen c = (c', r)"
  shows "coord_ok c'" "same_mutations c c'" "persisted_of c' = persisted_of c"
proof -
  have step: "coord_ok c' \<and> same_mutations c c' \<and> persisted_of c' = persisted_of c"
    if db: "cStore c = Some db" and f: "finishCapture fault i roots st at db = Inr db'"
      and c': "c' = c\<lparr>cStore := Some db'\<rparr>" for db db' fault roots st at
  proof -
    note s = coord_ok_store [OF ok db]
    note k = finishCapture_keeps [OF s(1) f]
    show ?thesis
      using k s db prepared_revision_frame [OF k(3)] by (auto simp: c' coord_ok_def same_mutations_def)
  qed
  have "c' = c \<or> (\<exists>db db' fault roots st at. cStore c = Some db
      \<and> finishCapture fault i roots st at db = Inr db' \<and> c' = c\<lparr>cStore := Some db'\<rparr>)"
    using res by (auto simp: capture_finish_def Let_def split: sum.splits option.splits; blast)
  then show "coord_ok c'" "same_mutations c c'" "persisted_of c' = persisted_of c"
    using ok step by auto
qed

lemma Capture_keeps:
  assumes ok: "coord_ok c" and res: "Capture env tok freeze c = (c', r)"
  shows "coord_ok c' \<and> same_mutations c c' \<and> cToken c' = cToken c"
proof (cases freeze)
  case None
  with res ok show ?thesis by (auto simp: Capture_def)
next
  case (Some f)
  from res [unfolded Capture_def Some option.case] show ?thesis
  proof (cases rule: with_gate_cases)
    case (gated c2)
    let ?G = "c\<lparr>cGate := True\<rparr>"
    from gated consider "c2 = ?G"
      | i c1 where "capture_prepare env i ?G = Inr c1" "capture_finish env i (f i) c1 = (c2, r)"
      by (auto split: sum.splits)
    then show ?thesis
    proof cases
      case 2
      have G: "coord_ok ?G" using ok by simp
      note p = capture_prepare_keeps [OF G 2(1)] and q = capture_finish_keeps [OF _ 2(2)]
      show ?thesis using p q gated(3)
        by (auto simp: same_mutations_def persisted_of_def release_def)
    qed (use gated ok in \<open>auto simp: release_def\<close>)
  qed (use ok in simp)
qed

lemma ResolvePreparedMutation_keeps:
  assumes ok: "coord_ok c" and res: "ResolvePreparedMutation env tok revision committed c = (c', r)"
  shows "coord_ok c'"
    "(\<exists>e. r = Inl e) \<and> persisted_of c' = persisted_of c \<and> same_mutations c c' \<or>
     r = Inr () \<and> revision = cMutationRevision c + 1 \<and> cPendingMutation c = revision
     \<and> cPendingMutation c' = 0 \<and> cStore c' \<noteq> None
     \<and> persisted_of c' = (if committed then (persisted_of c)\<lparr>psMutationRevision := revision\<rparr>
                          else persisted_of c)"
proof -
  have "coord_ok c' \<and> ((\<exists>e. r = Inl e) \<and> persisted_of c' = persisted_of c \<and> same_mutations c c' \<or>
     r = Inr () \<and> revision = cMutationRevision c + 1 \<and> cPendingMutation c = revision
     \<and> cPendingMutation c' = 0 \<and> cStore c' \<noteq> None
     \<and> persisted_of c' = (if committed then (persisted_of c)\<lparr>psMutationRevision := revision\<rparr>
                          else persisted_of c))"
  proof (cases "cStore c")
    case None
    with res ok show ?thesis by (auto simp: ResolvePreparedMutation_def)
  next
    case (Some db)
    note st = coord_ok_store [OF ok Some]
    from res [unfolded ResolvePreparedMutation_def Some option.case] show ?thesis
    proof (cases rule: with_gate_cases)
      case (gated c2)
      let ?G = "c\<lparr>cGate := True\<rparr>"
      let ?fin = "finishMutation (ceInjected env) (ceFinish env) tok revision (cSnapshotSequence c)
          committed (ceNow env) db"
      from gated consider "c2 = ?G" "\<exists>e. r = Inl e"
        | db' where "?fin = Inr db'" "r = Inr ()" "c2 = clear_pending revision
            (let c1 = ?G\<lparr>cStore := Some db'\<rparr> in if committed \<and> cMutationRevision c1 < revision
             then c1\<lparr>cMutationRevision := revision\<rparr> else c1)"
        by (auto simp: Let_def split: if_splits sum.splits)
      then show ?thesis
      proof cases
        case 2
        show ?thesis
        proof (cases committed)
          case True
          then have "finishMutation (ceInjected env) (ceFinish env) tok revision
            (cSnapshotSequence c) True (ceNow env) db = Inr db'" using 2(1) by simp
          note k = finishMutation_committed_keeps [OF st(1,2) this]
          have lt: "cMutationRevision c < revision"
            using k(4) stored_revision_bound [OF ok] Some word_Suc_gt [of "cMutationRevision c"]
            by (simp add: persisted_of_def)
          have c2: "c2 = ?G\<lparr>cStore := Some db', cMutationRevision := revision, cPendingMutation := 0\<rparr>"
            using 2(3) True lt k(4,5) st(3) by (simp add: clear_pending_def Let_def)
          show ?thesis using k st True 2(2)
            by (auto simp: gated(3) c2 coord_ok_def persisted_of_def release_def)
        next
          case False
          then have "finishMutation (ceInjected env) (ceFinish env) tok revision
            (cSnapshotSequence c) False (ceNow env) db = Inr db'" using 2(1) by simp
          note k = finishMutation_failed_keeps [OF st(1,2) this]
          have c2: "c2 = ?G\<lparr>cStore := Some db', cPendingMutation := 0\<rparr>"
            using 2(3) False k(5) st(3) by (simp add: clear_pending_def Let_def)
          show ?thesis using k st False 2(2)
            by (auto simp: gated(3) c2 coord_ok_def persisted_of_def release_def)
        qed
      qed (use gated ok in \<open>auto simp: release_def same_mutations_def\<close>)
    qed (use ok in simp)
  qed
  then show "coord_ok c'" "(\<exists>e. r = Inl e) \<and> persisted_of c' = persisted_of c \<and> same_mutations c c' \<or>
     r = Inr () \<and> revision = cMutationRevision c + 1 \<and> cPendingMutation c = revision
     \<and> cPendingMutation c' = 0 \<and> cStore c' \<noteq> None
     \<and> persisted_of c' = (if committed then (persisted_of c)\<lparr>psMutationRevision := revision\<rparr>
                          else persisted_of c)" by blast+
qed

lemma resume_guard_ok:
  "resume_guard tok revision c = Inr u \<Longrightarrow>
     cToken c = tok \<and> revision \<noteq> 0 \<and> cPendingMutation c = revision
     \<and> revision = cMutationRevision c + 1"
  by (auto simp: resume_guard_def split: if_splits)

lemma resume_finish_keeps:
  assumes ok: "coord_ok c" and db: "cStore c = Some db"
    and res: "resume_finish env tok revision db c = (c', r)"
  shows "coord_ok c'" "(\<exists>e. r = Inl e) \<and> c' = c \<or> advanced revision c c'
     \<and> r = Inr \<lparr>wrToken = cToken c, wrMutationRevision = revision\<rparr>"
proof -
  note st = coord_ok_store [OF ok db]
  let ?fin = "finishMutation (ceInjected env) (ceFinish env) tok revision (cSnapshotSequence c)
      True (ceFinishedAt env) db"
  have "coord_ok c' \<and> ((\<exists>e. r = Inl e) \<and> c' = c \<or> advanced revision c c'
     \<and> r = Inr \<lparr>wrToken = cToken c, wrMutationRevision = revision\<rparr>)"
  proof (cases "\<exists>db'. ?fin = Inr db' \<and> c' = c\<lparr>cStore := Some db', cMutationRevision := revision,
      cPendingMutation := 0\<rparr> \<and> r = Inr \<lparr>wrToken = cToken c, wrMutationRevision = revision\<rparr>")
    case False
    with res ok show ?thesis by (auto simp: resume_finish_def split: if_splits sum.splits)
  next
    case True
    then obtain db' where f: "?fin = Inr db'"
      and c': "c' = c\<lparr>cStore := Some db', cMutationRevision := revision, cPendingMutation := 0\<rparr>"
      and r: "r = Inr \<lparr>wrToken = cToken c, wrMutationRevision = revision\<rparr>" by blast
    note k = finishMutation_committed_keeps [OF st(1,2) f]
    show ?thesis using k db by (auto simp: c' r coord_ok_def persisted_of_def advanced_def)
  qed
  then show "coord_ok c'" "(\<exists>e. r = Inl e) \<and> c' = c \<or> advanced revision c c'
     \<and> r = Inr \<lparr>wrToken = cToken c, wrMutationRevision = revision\<rparr>" by blast+
qed

lemma ResumePreparedMutation_keeps:
  assumes ok: "coord_ok c" and gate: "\<not> cGate c"
    and res: "ResumePreparedMutation env tok revision (Some f) c = (c', r)"
  shows "coord_ok c'"
    "(\<exists>e. r = Inl e) \<and> c' = c \<or>
     advanced revision c c' \<and> resume_guard tok revision c = Inr () \<and> f (intent_of revision c) = None
     \<and> cStore c \<noteq> None"
proof -
  have "coord_ok c' \<and> ((\<exists>e. r = Inl e) \<and> c' = c \<or>
     advanced revision c c' \<and> resume_guard tok revision c = Inr () \<and> f (intent_of revision c) = None
     \<and> cStore c \<noteq> None)"
  proof (cases "cStore c")
    case None
    with res ok show ?thesis by (auto simp: ResumePreparedMutation_def)
  next
    case (Some db)
    have same: "release (c\<lparr>cGate := True\<rparr>) = c" using gate by (simp add: release_def)
    from res [unfolded ResumePreparedMutation_def Some option.case] show ?thesis
    proof (cases rule: with_gate_cases)
      case (gated c2)
      let ?G = "c\<lparr>cGate := True\<rparr>"
      have g: "resume_guard tok revision ?G = resume_guard tok revision c"
          "intent_of revision ?G = intent_of revision c"
        by (simp_all add: resume_guard_def intent_of_def)
      from gated consider "c2 = ?G" "\<exists>e. r = Inl e"
        | "resume_guard tok revision c = Inr ()" "f (intent_of revision c) = None"
          "resume_finish env (cToken c) revision db ?G = (c2, r)"
        by (auto simp: g split: sum.splits option.splits)
      then show ?thesis
      proof cases
        case 2
        have "coord_ok ?G" "cStore ?G = Some db" using ok Some by simp_all
        note k = resume_finish_keeps [OF this 2(3)]
        show ?thesis using k 2(1,2) Some gate
          by (auto simp: gated(3) same advanced_def) (auto simp: release_def)
      qed (use gated ok same in auto)
    qed (use ok in simp)
  qed
  then show "coord_ok c'" "(\<exists>e. r = Inl e) \<and> c' = c \<or>
     advanced revision c c' \<and> resume_guard tok revision c = Inr () \<and> f (intent_of revision c) = None
     \<and> cStore c \<noteq> None" by blast+
qed

lemma New_ok: "New ws fence claim sess = Inr c \<Longrightarrow>
    coord_ok c \<and> cStore c = None \<and> \<not> cGate c \<and> cMutationRevision c = 0"
  by (auto simp: New_def coord_ok_def split: if_splits)

lemma OpenPersistent_keeps:
  assumes ok: "file_ok file" and res: "OpenPersistent f now path ws fence claim sess file = (file', r)"
  shows "file_ok file'" "file_committed file' = file_committed file"
    "file_prepared file' = file_prepared file"
    "r = Inr c \<Longrightarrow> coord_ok c \<and> cStore c = file' \<and> file' \<noteq> None \<and> \<not> cGate c"
proof -
  have "file_ok file' \<and> file_committed file' = file_committed file
      \<and> file_prepared file' = file_prepared file
      \<and> (\<forall>c. r = Inr c \<longrightarrow> coord_ok c \<and> cStore c = file' \<and> file' \<noteq> None \<and> \<not> cGate c)"
  proof (cases "New ws fence claim sess")
    case (Inl e)
    with res ok show ?thesis by (auto simp: OpenPersistent_def)
  next
    case (Inr c0)
    obtain r0 where o: "openPersistentStore f path (cToken c0) now file = (file', r0)"
      using res Inr by (auto simp: OpenPersistent_def split: prod.splits sum.splits)
    note k = openPersistentStore_keeps [OF ok o]
    show ?thesis
    proof (cases r0)
      case (Inl e)
      with res Inr o k show ?thesis by (auto simp: OpenPersistent_def)
    next
      case r0: (Inr sp)
      obtain s p where sp: "sp = (s, p)" by (cases sp)
      obtain db where db: "file' = Some db" "dbState db = Some s" "p = prepared_revision db"
        using k(4) r0 sp by blast
      have r: "r = Inr (c0\<lparr>cStore := file', cToken := psToken s,
                  cMutationRevision := psMutationRevision s,
                  cSnapshotSequence := psSnapshotSequence s,
                  cHighWatermark := psHighWatermark s,
                  cPendingMutation := p, cAuditEpoch := psAuditEpoch s\<rparr>)"
        using res Inr o r0 sp by (simp add: OpenPersistent_def)
      show ?thesis using k db New_ok [OF Inr]
        by (auto simp: r coord_ok_def persisted_of_def file_ok_def)
    qed
  qed
  then show "file_ok file'" "file_committed file' = file_committed file"
    "file_prepared file' = file_prepared file"
    "r = Inr c \<Longrightarrow> coord_ok c \<and> cStore c = file' \<and> file' \<noteq> None \<and> \<not> cGate c" by blast+
qed

end
