(* ===== verification/Write_Recovery.thy ===== *)
theory Write_Recovery
  imports Write_Coordinator
begin

text \<open>
  The write protocol under crashes. A world is the coordinator process (absent after a
  crash), the database file it left, the external business domain as the log of revisions it
  has durably committed, and the write in flight. The steps are the phases of \<open>Write\<close>, the
  other operations, a crash at any point, and reopening.

  The external domain is a parameter of the coordinator: the rules state its documented
  contract. A callback that returns nil has committed; an error marked with
  \<open>ErrExternalCommitted\<close> means it committed; any other error means it did not. Startup
  recovery passes to \<open>ResolvePreparedMutation\<close> whether the external domain holds the
  revision, and a replay through \<open>ResumePreparedMutation\<close> publishes idempotently.
\<close>

section \<open>Worlds and steps\<close>

datatype flight = Idle | Applying u64 | Applied u64 "go_error option"

record world =
  wMem :: "coordinator option"
  wFile :: "coord_db option"
  wLog :: "u64 list"
  wFlight :: flight

definition publish :: "u64 \<Rightarrow> u64 list \<Rightarrow> u64 list" where
  "publish r log = (if r \<in> set log then log else log @ [r])"

definition world_init :: "world \<Rightarrow> bool" where
  "world_init w \<longleftrightarrow> w = \<lparr>wMem = None, wFile = None, wLog = [], wFlight = Idle\<rparr>"

inductive wc_step :: "world \<Rightarrow> world \<Rightarrow> bool" where
  begin_write:
    "\<lbrakk>wMem w = Some c; wFlight w = Idle; write_admit tok c = Inr next;
      write_prepare env next c = Inr c1\<rbrakk> \<Longrightarrow>
     wc_step w (w\<lparr>wMem := Some (c1\<lparr>cGate := True\<rparr>), wFlight := Applying next\<rparr>)"
| apply_commits:
    "\<lbrakk>wMem w = Some c; wFlight w = Applying r\<rbrakk> \<Longrightarrow>
     wc_step w (w\<lparr>wLog := wLog w @ [r], wFlight := Applied r None\<rparr>)"
| apply_commits_then_fails:
    "\<lbrakk>wMem w = Some c; wFlight w = Applying r; errors_is e ErrExternalCommitted\<rbrakk> \<Longrightarrow>
     wc_step w (w\<lparr>wLog := wLog w @ [r], wFlight := Applied r (Some e)\<rparr>)"
| apply_fails:
    "\<lbrakk>wMem w = Some c; wFlight w = Applying r; \<not> errors_is e ErrExternalCommitted\<rbrakk> \<Longrightarrow>
     wc_step w (w\<lparr>wFlight := Applied r (Some e)\<rparr>)"
| finish_commit:
    "\<lbrakk>wMem w = Some c; wFlight w = Applied r None; write_commit env r c = (c', res)\<rbrakk> \<Longrightarrow>
     wc_step w (w\<lparr>wMem := Some (release c'), wFlight := Idle\<rparr>)"
| finish_abort:
    "\<lbrakk>wMem w = Some c; wFlight w = Applied r (Some e); write_abort env r e c = (c', res)\<rbrakk> \<Longrightarrow>
     wc_step w (w\<lparr>wMem := Some (release c'), wFlight := Idle\<rparr>)"
| crash:
    "wMem w = Some c \<Longrightarrow>
     wc_step w (w\<lparr>wMem := None, wFile := cStore c, wFlight := Idle\<rparr>)"
| capture_crash:
    "\<lbrakk>wMem w = Some c; wFlight w = Idle; capture_admit tok c = Inr i;
      capture_prepare env i c = Inr c1\<rbrakk> \<Longrightarrow>
     wc_step w (w\<lparr>wMem := None, wFile := cStore c1\<rparr>)"
| reopen:
    "\<lbrakk>wMem w = None; OpenPersistent f now path ws fence claim sess (wFile w) = (file', Inr c)\<rbrakk> \<Longrightarrow>
     wc_step w (w\<lparr>wMem := Some c, wFile := file'\<rparr>)"
| reopen_fails:
    "\<lbrakk>wMem w = None; OpenPersistent f now path ws fence claim sess (wFile w) = (file', Inl e)\<rbrakk> \<Longrightarrow>
     wc_step w (w\<lparr>wFile := file'\<rparr>)"
| rotate_audit:
    "\<lbrakk>wMem w = None; RotatePersistentAuditEpoch fault path ws (wFile w) = (file', u)\<rbrakk> \<Longrightarrow>
     wc_step w (w\<lparr>wFile := file'\<rparr>)"
| resolve:
    "\<lbrakk>wMem w = Some c; wFlight w = Idle;
      ResolvePreparedMutation env tok r (r \<in> set (wLog w)) c = (c', u)\<rbrakk> \<Longrightarrow>
     wc_step w (w\<lparr>wMem := Some c'\<rparr>)"
| resume:
    "\<lbrakk>wMem w = Some c; wFlight w = Idle;
      ResumePreparedMutation env tok r (Some f) c = (c', rec);
      log' = wLog w \<or> (resume_guard tok r c = Inr () \<and> log' = publish r (wLog w));
      f (intent_of r c) = None \<and> resume_guard tok r c = Inr () \<Longrightarrow> log' = publish r (wLog w)\<rbrakk> \<Longrightarrow>
     wc_step w (w\<lparr>wMem := Some c', wLog := log'\<rparr>)"
| capture:
    "\<lbrakk>wMem w = Some c; wFlight w = Idle; Capture env tok fz c = (c', h)\<rbrakk> \<Longrightarrow>
     wc_step w (w\<lparr>wMem := Some c'\<rparr>)"
| drain:
    "\<lbrakk>wMem w = Some c; wFlight w = Idle; Drain env tok d c = (c', hw)\<rbrakk> \<Longrightarrow>
     wc_step w (w\<lparr>wMem := Some c'\<rparr>)"
| rotate:
    "\<lbrakk>wMem w = Some c; wFlight w = Idle; RotateSession env tok c = (c', t)\<rbrakk> \<Longrightarrow>
     wc_step w (w\<lparr>wMem := Some c'\<rparr>)"
| transfer:
    "\<lbrakk>wMem w = Some c; wFlight w = Idle; TransferFence env tok claim c = (c', t)\<rbrakk> \<Longrightarrow>
     wc_step w (w\<lparr>wMem := Some c'\<rparr>)"

section \<open>The invariant\<close>

definition world_file :: "world \<Rightarrow> coord_db option" where
  "world_file w = (case wMem w of None \<Rightarrow> wFile w | Some c \<Rightarrow> cStore c)"

text \<open>
  The log counts 1, 2, 3, \<dots>; it holds the committed revisions and at most the prepared one.
\<close>

definition log_ok :: "u64 list \<Rightarrow> u64 \<Rightarrow> u64 \<Rightarrow> bool" where
  "log_ok log m p \<longleftrightarrow> map unat log = [1..<Suc (length log)]
     \<and> (length log = unat m \<or> p \<noteq> 0 \<and> length log = Suc (unat m))"

definition flight_ok :: "flight \<Rightarrow> nat \<Rightarrow> u64 \<Rightarrow> u64 \<Rightarrow> bool" where
  "flight_ok fl n m p = (case fl of
     Idle \<Rightarrow> True
   | Applying r \<Rightarrow> p = r \<and> r \<noteq> 0 \<and> n = unat m
   | Applied r None \<Rightarrow> p = r \<and> r \<noteq> 0 \<and> n = Suc (unat m)
   | Applied r (Some e) \<Rightarrow> p = r \<and> r \<noteq> 0
       \<and> n = (if errors_is e ErrExternalCommitted then Suc (unat m) else unat m))"

definition wc_inv :: "world \<Rightarrow> bool" where
  "wc_inv w \<longleftrightarrow>
     file_ok (world_file w)
     \<and> log_ok (wLog w) (file_committed (world_file w)) (file_prepared (world_file w))
     \<and> flight_ok (wFlight w) (length (wLog w)) (file_committed (world_file w))
         (file_prepared (world_file w))
     \<and> (case wMem w of None \<Rightarrow> wFlight w = Idle
        | Some c \<Rightarrow> coord_ok c \<and> cStore c \<noteq> None \<and> (cGate c \<longleftrightarrow> wFlight w \<noteq> Idle))"

lemma wc_inv_live:
  assumes "wMem w = Some c"
  shows "wc_inv w \<longleftrightarrow> coord_ok c \<and> cStore c \<noteq> None \<and> (cGate c \<longleftrightarrow> wFlight w \<noteq> Idle)
     \<and> log_ok (wLog w) (cMutationRevision c) (cPendingMutation c)
     \<and> flight_ok (wFlight w) (length (wLog w)) (cMutationRevision c) (cPendingMutation c)"
proof (cases "coord_ok c \<and> cStore c \<noteq> None")
  case True
  then show ?thesis using assms coord_ok_file [of c] by (auto simp: wc_inv_def world_file_def)
qed (use assms in \<open>auto simp: wc_inv_def\<close>)

lemma wc_inv_down:
  "wMem w = None \<Longrightarrow> wc_inv w \<longleftrightarrow> file_ok (wFile w) \<and> wFlight w = Idle
     \<and> log_ok (wLog w) (file_committed (wFile w)) (file_prepared (wFile w))"
  by (auto simp: wc_inv_def world_file_def flight_ok_def)

lemma flight_Idle [simp]: "flight_ok Idle n m p"
  by (simp add: flight_ok_def)

lemma log_okD:
  assumes "log_ok log m p"
  shows "length log = unat m \<or> p \<noteq> 0 \<and> length log = Suc (unat m)"
    "r \<in> set log \<longleftrightarrow> 0 < r \<and> unat r \<le> length log"
proof -
  show "length log = unat m \<or> p \<noteq> 0 \<and> length log = Suc (unat m)"
    using assms by (simp add: log_ok_def)
  have img: "unat ` set log = {1..length log}"
    using assms atLeastLessThanSuc_atLeastAtMost [of 1 "length log"]
    by (simp add: log_ok_def flip: list.set_map del: upt_Suc)
  have "r \<in> set log \<longleftrightarrow> unat r \<in> unat ` set log"
    by (simp add: inj_image_mem_iff inj_def word_unat_eq_iff)
  then show "r \<in> set log \<longleftrightarrow> 0 < r \<and> unat r \<le> length log"
    unfolding img by (auto simp: unat_gt_0 word_gt_0 Suc_le_eq)
qed

lemma log_ok_snoc:
  assumes "log_ok log m p" "length log = unat m" "unat r = Suc (unat m)"
  shows "log_ok (log @ [r]) m' p' \<longleftrightarrow> (unat m' = Suc (unat m) \<or> p' \<noteq> 0 \<and> unat m' = unat m)"
  using assms by (simp add: log_ok_def) linarith

text \<open>The revision after the committed one is in the log exactly when the log is ahead.\<close>

lemma next_in_log:
  assumes "log_ok log m p" "m \<le> MaxInt64"
  shows "m + 1 \<in> set log \<longleftrightarrow> length log = Suc (unat m)"
proof -
  have "0 < m + 1" using word_Suc_nz [OF assms(2)] by (simp only: word_gt_0)
  then have "m + 1 \<in> set log \<longleftrightarrow> Suc (unat m) \<le> length log"
    by (simp only: log_okD(2) [OF assms(1)] unat_word_Suc [OF assms(2)] simp_thms)
  then show ?thesis using log_okD(1) [OF assms(1)] by linarith
qed

lemma publish_next:
  assumes log: "log_ok log m p" and m: "m \<le> MaxInt64"
  shows "length (publish (m + 1) log) = Suc (unat m)"
    "p' \<noteq> 0 \<or> m' = m + 1 \<Longrightarrow> m' = m \<or> m' = m + 1 \<Longrightarrow> log_ok (publish (m + 1) log) m' p'"
proof -
  have "length (publish (m + 1) log) = Suc (unat m)
    \<and> map unat (publish (m + 1) log) = [1..<Suc (Suc (unat m))]"
  proof (cases "m + 1 \<in> set log")
    case True
    with next_in_log [OF log m] log show ?thesis by (simp add: publish_def log_ok_def)
  next
    case False
    then have "length log = unat m" using next_in_log [OF log m] log_okD(1) [OF log] by auto
    with False log unat_word_Suc [OF m] show ?thesis by (simp add: publish_def log_ok_def)
  qed
  then show "length (publish (m + 1) log) = Suc (unat m)"
    "p' \<noteq> 0 \<or> m' = m + 1 \<Longrightarrow> m' = m \<or> m' = m + 1 \<Longrightarrow> log_ok (publish (m + 1) log) m' p'"
    using unat_word_Suc [OF m] by (auto simp: log_ok_def)
qed


section \<open>Every step keeps the invariant\<close>

lemma with_gate_free:
  "with_gate ctx body c = (c', r) \<Longrightarrow> \<not> cGate c \<Longrightarrow> \<not> cGate c'"
  by (erule with_gate_cases) (simp_all add: release_def)

lemma Capture_gate: "Capture env tok fz c = (c', r) \<Longrightarrow> \<not> cGate c \<Longrightarrow> \<not> cGate c'"
  by (auto simp: Capture_def dest: with_gate_free split: option.splits)

lemma Drain_gate: "Drain env tok d c = (c', r) \<Longrightarrow> \<not> cGate c \<Longrightarrow> \<not> cGate c'"
  by (auto simp: Drain_def dest: with_gate_free split: option.splits)

lemma RotateSession_gate: "RotateSession env tok c = (c', r) \<Longrightarrow> \<not> cGate c \<Longrightarrow> \<not> cGate c'"
  by (auto simp: RotateSession_def dest: with_gate_free)

lemma TransferFence_gate: "TransferFence env tok claim c = (c', r) \<Longrightarrow> \<not> cGate c \<Longrightarrow> \<not> cGate c'"
  by (auto simp: TransferFence_def dest: with_gate_free split: if_splits)

lemma ResolvePreparedMutation_gate:
  "ResolvePreparedMutation env tok n b c = (c', r) \<Longrightarrow> \<not> cGate c \<Longrightarrow> \<not> cGate c'"
  by (auto simp: ResolvePreparedMutation_def dest: with_gate_free split: option.splits)

lemmas op_gates = Capture_gate Drain_gate RotateSession_gate TransferFence_gate
  ResolvePreparedMutation_gate

text \<open>An idle operation that leaves the mutation counters alone keeps the invariant.\<close>

lemma inv_same_mutations:
  assumes "wc_inv w" "wMem w = Some c" "wFlight w = Idle"
    and "coord_ok c' \<and> same_mutations c c'" "\<not> cGate c \<Longrightarrow> \<not> cGate c'"
  shows "wc_inv (w\<lparr>wMem := Some c'\<rparr>)"
  using assms by (simp add: wc_inv_live same_mutations_def)

lemma inv_begin_write:
  assumes inv: "wc_inv w" and mem: "wMem w = Some c" "wFlight w = Idle"
    and adm: "write_admit tok c = Inr next" and prep: "write_prepare env next c = Inr c1"
  shows "wc_inv (w\<lparr>wMem := Some (c1\<lparr>cGate := True\<rparr>), wFlight := Applying next\<rparr>)"
proof -
  have ok: "coord_ok c" "cStore c \<noteq> None" and log: "log_ok (wLog w) (cMutationRevision c) (cPendingMutation c)"
    using inv mem by (simp_all add: wc_inv_live)
  note a = write_admit_next [OF adm] and k = write_prepare_keeps [OF ok(1) adm prep]
  have rev: "cMutationRevision c1 = cMutationRevision c"
    using k(2) by (simp add: persisted_of_def)
  have len: "length (wLog w) = unat (cMutationRevision c)" using log_okD(1) [OF log] a by simp
  have nz: "next \<noteq> 0" using a word_Suc_nz stored_revision_bound [OF ok] by simp
  have "log_ok (wLog w) (cMutationRevision c) next" using log len by (simp add: log_ok_def)
  then show ?thesis using k ok len nz rev by (simp add: wc_inv_live flight_ok_def)
qed

lemma inv_applied:
  assumes inv: "wc_inv w" and mem: "wMem w = Some c" "wFlight w = Applying r"
  shows "res = None \<or> (\<exists>e. res = Some e \<and> errors_is e ErrExternalCommitted) \<Longrightarrow>
      wc_inv (w\<lparr>wLog := wLog w @ [r], wFlight := Applied r res\<rparr>)"
    "\<not> errors_is e ErrExternalCommitted \<Longrightarrow> wc_inv (w\<lparr>wFlight := Applied r (Some e)\<rparr>)"
proof -
  have ok: "coord_ok c" "cStore c \<noteq> None" "cGate c"
    and log: "log_ok (wLog w) (cMutationRevision c) (cPendingMutation c)"
    and fl: "cPendingMutation c = r" "r \<noteq> 0" "length (wLog w) = unat (cMutationRevision c)"
    using inv mem by (auto simp: wc_inv_live flight_ok_def)
  have "unat r = Suc (unat (cMutationRevision c))"
    using pending_is_next [OF ok(1)] fl unat_word_Suc [OF stored_revision_bound [OF ok(1,2)]] by simp
  then have "log_ok (wLog w @ [r]) (cMutationRevision c) (cPendingMutation c)"
    using log_ok_snoc [OF log fl(3)] fl by simp
  then show "res = None \<or> (\<exists>e. res = Some e \<and> errors_is e ErrExternalCommitted) \<Longrightarrow>
      wc_inv (w\<lparr>wLog := wLog w @ [r], wFlight := Applied r res\<rparr>)"
    using ok fl mem by (auto simp: wc_inv_live flight_ok_def)
  show "\<not> errors_is e ErrExternalCommitted \<Longrightarrow> wc_inv (w\<lparr>wFlight := Applied r (Some e)\<rparr>)"
    using ok fl mem log by (auto simp: wc_inv_live flight_ok_def)
qed

lemma inv_finish_commit:
  assumes inv: "wc_inv w" and mem: "wMem w = Some c" "wFlight w = Applied r None"
    and fin: "write_commit env r c = (c', res)"
  shows "wc_inv (w\<lparr>wMem := Some (release c'), wFlight := Idle\<rparr>)"
proof -
  have ok: "coord_ok c" "cStore c \<noteq> None"
    and log: "log_ok (wLog w) (cMutationRevision c) (cPendingMutation c)"
    and fl: "cPendingMutation c = r" "r \<noteq> 0" "length (wLog w) = Suc (unat (cMutationRevision c))"
    using inv mem by (auto simp: wc_inv_live flight_ok_def)
  note k = write_commit_keeps [OF ok(1) fin fl(1)]
  have r: "unat r = Suc (unat (cMutationRevision c))"
    using pending_is_next [OF ok(1)] fl unat_word_Suc [OF stored_revision_bound [OF ok]] by simp
  from k(2) show ?thesis
  proof
    assume "\<exists>e. res = Inl e \<and> c' = c \<and> cStore c \<noteq> None"
    with ok log show ?thesis by (auto simp: wc_inv_live release_def)
  next
    assume a: "res = Inr \<lparr>wrToken = cToken c, wrMutationRevision = r\<rparr> \<and> advanced r c c'"
    then have "cMutationRevision c' = r" "cPendingMutation c' = 0" "cStore c' \<noteq> None"
      using ok by (simp_all add: advanced_def persisted_of_def)
    then show ?thesis using k(1) log fl r by (simp add: wc_inv_live release_def log_ok_def)
  qed
qed

lemma inv_finish_abort:
  assumes inv: "wc_inv w" and mem: "wMem w = Some c" "wFlight w = Applied r (Some e)"
    and fin: "write_abort env r e c = (c', res)"
  shows "wc_inv (w\<lparr>wMem := Some (release c'), wFlight := Idle\<rparr>)"
proof -
  have ok: "coord_ok c" "cStore c \<noteq> None"
    and log: "log_ok (wLog w) (cMutationRevision c) (cPendingMutation c)"
    and fl: "cPendingMutation c = r"
      "length (wLog w) = (if errors_is e ErrExternalCommitted then Suc (unat (cMutationRevision c))
         else unat (cMutationRevision c))"
    using inv mem by (auto simp: wc_inv_live flight_ok_def)
  note k = write_abort_keeps [OF ok(1) fin fl(1)]
  have "cMutationRevision c' = cMutationRevision c" using k(2) by (simp add: persisted_of_def)
  with k ok log fl show ?thesis by (auto simp: wc_inv_live release_def log_ok_def)
qed

lemma inv_crash:
  assumes "wc_inv w" "wMem w = Some c"
  shows "wc_inv (w\<lparr>wMem := None, wFile := cStore c, wFlight := Idle\<rparr>)"
  using assms coord_ok_file [of c] by (auto simp: wc_inv_live wc_inv_down)

lemma inv_resolve:
  assumes inv: "wc_inv w" and mem: "wMem w = Some c" "wFlight w = Idle"
    and res: "ResolvePreparedMutation env tok r (r \<in> set (wLog w)) c = (c', u)"
  shows "wc_inv (w\<lparr>wMem := Some c'\<rparr>)"
proof -
  have ok: "coord_ok c" "cStore c \<noteq> None" "\<not> cGate c"
    and log: "log_ok (wLog w) (cMutationRevision c) (cPendingMutation c)"
    using inv mem by (simp_all add: wc_inv_live)
  note k = ResolvePreparedMutation_keeps [OF ok(1) res]
  have gate: "\<not> cGate c'" using op_gates(5) [OF res] ok by simp
  have m: "cMutationRevision c \<le> MaxInt64" by (rule stored_revision_bound [OF ok(1,2)])
  from k(2) show ?thesis
  proof
    assume "(\<exists>e. u = Inl e) \<and> persisted_of c' = persisted_of c \<and> same_mutations c c'"
    then show ?thesis using inv_same_mutations [OF inv mem, of c'] k(1) gate by simp
  next
    assume d: "u = Inr () \<and> r = cMutationRevision c + 1 \<and> cPendingMutation c = r
     \<and> cPendingMutation c' = 0 \<and> cStore c' \<noteq> None
     \<and> persisted_of c' = (if r \<in> set (wLog w) then (persisted_of c)\<lparr>psMutationRevision := r\<rparr>
                          else persisted_of c)"
    then have rev: "cMutationRevision c' = (if r \<in> set (wLog w) then r else cMutationRevision c)"
      by (auto simp: persisted_of_def split: if_splits)
    have "r \<in> set (wLog w) \<longleftrightarrow> length (wLog w) = Suc (unat (cMutationRevision c))"
      using next_in_log [OF log m] d by simp
    then have "log_ok (wLog w) (cMutationRevision c') 0"
      using log log_okD(1) [OF log] d rev unat_word_Suc [OF m] by (auto simp: log_ok_def)
    then show ?thesis using d k(1) gate mem by (simp add: wc_inv_live)
  qed
qed

lemma inv_resume:
  assumes inv: "wc_inv w" and mem: "wMem w = Some c" "wFlight w = Idle"
    and res: "ResumePreparedMutation env tok r (Some f) c = (c', u)"
    and log': "log' = wLog w \<or> (resume_guard tok r c = Inr () \<and> log' = publish r (wLog w))"
    and dn: "f (intent_of r c) = None \<and> resume_guard tok r c = Inr () \<Longrightarrow> log' = publish r (wLog w)"
  shows "wc_inv (w\<lparr>wMem := Some c', wLog := log'\<rparr>)"
proof -
  have ok: "coord_ok c" "cStore c \<noteq> None" "\<not> cGate c"
    and log: "log_ok (wLog w) (cMutationRevision c) (cPendingMutation c)"
    using inv mem by (simp_all add: wc_inv_live)
  have m: "cMutationRevision c \<le> MaxInt64" by (rule stored_revision_bound [OF ok(1,2)])
  note k = ResumePreparedMutation_keeps [OF ok(1,3) res]
  note pub = publish_next(2) [OF log m]
  from k(2) show ?thesis
  proof
    assume "(\<exists>e. u = Inl e) \<and> c' = c"
    moreover have "log_ok log' (cMutationRevision c) (cPendingMutation c)"
      using log' log pub resume_guard_ok [of tok r c] by auto
    ultimately show ?thesis using ok mem by (simp add: wc_inv_live)
  next
    assume a: "advanced r c c' \<and> resume_guard tok r c = Inr () \<and> f (intent_of r c) = None
     \<and> cStore c \<noteq> None"
    then have "cMutationRevision c' = r" "cPendingMutation c' = 0" "cStore c' \<noteq> None" "\<not> cGate c'"
      using ok by (simp_all add: advanced_def persisted_of_def)
    moreover have "r = cMutationRevision c + 1" using resume_guard_ok a by blast
    moreover from this have "log_ok log' r 0" using dn a pub by simp
    ultimately show ?thesis using k(1) mem by (simp add: wc_inv_live)
  qed
qed

lemma wc_step_inv: "wc_step w w' \<Longrightarrow> wc_inv w \<Longrightarrow> wc_inv w'"
proof (induction rule: wc_step.induct)
  case begin_write then show ?case by (blast intro: inv_begin_write)
next
  case apply_commits then show ?case by (blast intro: inv_applied(1))
next
  case apply_commits_then_fails then show ?case by (blast intro: inv_applied(1))
next
  case apply_fails then show ?case by (blast intro: inv_applied(2))
next
  case finish_commit then show ?case by (blast intro: inv_finish_commit)
next
  case finish_abort then show ?case by (blast intro: inv_finish_abort)
next
  case crash then show ?case by (blast intro: inv_crash)
next
  case (capture_crash w c tok i env c1)
  then have "coord_ok c" "cStore c \<noteq> None" by (simp_all add: wc_inv_live)
  note k = capture_prepare_keeps [OF this(1) capture_crash.hyps(4)]
  have "cStore c1 \<noteq> None" using k(2) \<open>cStore c \<noteq> None\<close> by (simp add: same_mutations_def)
  then show ?case
    using capture_crash k coord_ok_file [OF k(1)] by (simp add: wc_inv_live wc_inv_down same_mutations_def)
next
  case (reopen w f now path ws fence claim sess file' c)
  then have "file_ok (wFile w)" by (simp add: wc_inv_down)
  note k = OpenPersistent_keeps [OF this reopen.hyps(2)]
  show ?case using reopen k coord_ok_file [of c] by (auto simp: wc_inv_live wc_inv_down)
next
  case (reopen_fails w f now path ws fence claim sess file' e)
  then have "file_ok (wFile w)" by (simp add: wc_inv_down)
  then show ?case using reopen_fails OpenPersistent_keeps by (simp add: wc_inv_down)
next
  case (rotate_audit w fault path ws file' u)
  then have "file_ok (wFile w)" by (simp add: wc_inv_down)
  then show ?case using rotate_audit RotatePersistentAuditEpoch_keeps by (simp add: wc_inv_down)
next
  case resolve then show ?case by (blast intro: inv_resolve)
next
  case resume then show ?case by (blast intro: inv_resume)
next
  case (capture w c env tok fz c' h)
  then have "coord_ok c" by (simp add: wc_inv_live)
  then show ?case
    using capture inv_same_mutations [of w c c'] Capture_keeps op_gates(1) by blast
next
  case (drain w c env tok d c' hw)
  then have "coord_ok c" by (simp add: wc_inv_live)
  then show ?case using drain inv_same_mutations [of w c c'] Drain_keeps op_gates(2) by blast
next
  case (rotate w c env tok c' t)
  then have "coord_ok c" by (simp add: wc_inv_live)
  then show ?case using rotate inv_same_mutations [of w c c'] RotateSession_keeps(1) op_gates(3) by blast
next
  case (transfer w c env tok claim c' t)
  then have "coord_ok c" by (simp add: wc_inv_live)
  then show ?case using transfer inv_same_mutations [of w c c'] TransferFence_keeps(1) op_gates(4) by blast
qed

lemma wc_inv_init: "world_init w \<Longrightarrow> wc_inv w"
  by (simp add: world_init_def wc_inv_down file_defs log_ok_def)

interpretation wc: transition_system world_init wc_step wc_inv
  by unfold_locales (auto intro: wc_inv_init wc_step_inv)


section \<open>Tokens are never reissued\<close>

definition world_token :: "world \<Rightarrow> token option" where
  "world_token w = map_option psToken (Option.bind (world_file w) dbState)"

text \<open>How far the token has moved: every rotation and every transfer adds one.\<close>

definition token_age :: "token option \<Rightarrow> nat" where
  "token_age t = (case t of None \<Rightarrow> 0
     | Some t \<Rightarrow> Suc (unat (tokSessionEpoch t) + unat (tokFenceEpoch t)))"

definition token_moves :: "token option \<Rightarrow> token option \<Rightarrow> bool" where
  "token_moves t t' \<longleftrightarrow> t' = t \<or> token_age t < token_age t'"

lemma token_moves_refl [simp]: "token_moves t t"
  by (simp add: token_moves_def)

lemma world_token_live:
  "wMem w = Some c \<Longrightarrow> coord_ok c \<Longrightarrow> cStore c \<noteq> None \<Longrightarrow> world_token w = Some (cToken c)"
  by (auto simp: world_token_def world_file_def coord_ok_def persisted_of_def)

lemma rotate_moves:
  assumes "coord_ok c" "RotateSession env tok c = (c', r)"
  shows "token_moves (Some (cToken c)) (Some (cToken c'))"
  using RotateSession_keeps(2) [OF assms] by (auto simp: token_moves_def token_age_def unat_Suc_max)

lemma transfer_moves:
  assumes "coord_ok c" "TransferFence env tok claim c = (c', r)"
  shows "token_moves (Some (cToken c)) (Some (cToken c'))"
  using TransferFence_keeps(2) [OF assms] by (auto simp: token_moves_def token_age_def unat_Suc_max)

definition file_token :: "coord_db option \<Rightarrow> token option" where
  "file_token file = map_option psToken (Option.bind file dbState)"

lemma file_token_ensure:
  "file_token (Some (ensureAuditEpochColumn (create_tables file))) = file_token file"
  by (auto simp: file_token_def ensureAuditEpochColumn_def create_tables_def empty_db_def
      split: option.splits)
     (simp add: option.map_comp o_def)

lemma open_moves:
  assumes "OpenPersistent f now path ws fence claim sess file = (file', r)"
  shows "token_moves (file_token file) (file_token file')"
proof (cases "New ws fence claim sess")
  case (Inl e)
  with assms show ?thesis by (simp add: OpenPersistent_def)
next
  case (Inr c0)
  define db where "db = ensureAuditEpochColumn (create_tables file)"
  have tok: "file_token (Some db) = file_token file"
    by (simp add: db_def file_token_ensure)
  obtain r0 where o: "openPersistentStore f path (cToken c0) now file = (file', r0)"
    using assms Inr by (auto simp: OpenPersistent_def split: prod.splits sum.splits)
  have "file_token file' = file_token file \<or> file_token file = None"
    using o tok unfolding openPersistentStore_def Let_def db_def [symmetric]
    by (auto simp: file_token_def loadState_def insertInitial_def abandon_captures_def
        split: if_splits option.splits sum.splits)
  moreover have "token_moves None (file_token file')"
    by (cases "file_token file'") (simp_all add: token_moves_def token_age_def)
  ultimately show ?thesis by auto
qed

lemma rotate_audit_token:
  assumes "RotatePersistentAuditEpoch fault path ws file = (file', r)"
  shows "file_token file' = file_token file"
proof (cases "file")
  case None
  with assms show ?thesis by (auto simp: RotatePersistentAuditEpoch_def split: if_splits)
next
  case (Some db)
  then show ?thesis using assms file_token_ensure [of "file"]
    by (auto simp: RotatePersistentAuditEpoch_def Let_def create_tables_def file_token_def
        split: if_splits option.splits)
qed

lemma world_token_file: "world_token w = file_token (world_file w)"
  by (simp add: world_token_def file_token_def)

lemma persisted_token: "persisted_of c' = persisted_of c \<Longrightarrow> cToken c' = cToken c"
  by (simp add: persisted_of_def)

lemma wc_step_token:
  assumes step: "wc_step w w'" and inv: "wc_inv w"
  shows "token_moves (world_token w) (world_token w')"
proof -
  have inv': "wc_inv w'" using step inv by (rule wc_step_inv)
  have live: "token_moves (world_token w) (world_token w')"
    if "wMem w = Some c" "wMem w' = Some c'" "token_moves (Some (cToken c)) (Some (cToken c'))" for c c'
    using that inv inv' by (simp add: wc_inv_live world_token_live)
  from step show ?thesis
  proof cases
    case (begin_write c tok n env c1)
    then have "coord_ok c" using inv by (simp add: wc_inv_live)
    then show ?thesis
      using begin_write persisted_token [OF write_prepare_keeps(2)] live by fastforce
  next
    case (apply_commits c r) then show ?thesis using live by simp
  next
    case (apply_commits_then_fails c r e) then show ?thesis using live by simp
  next
    case (apply_fails c r e) then show ?thesis using live by simp
  next
    case (finish_commit c r env c' res)
    then have "coord_ok c" "cPendingMutation c = r" using inv by (auto simp: wc_inv_live flight_ok_def)
    from write_commit_keeps(2) [OF this(1) finish_commit(4) this(2)] have "cToken c' = cToken c"
      by (auto simp: advanced_def persisted_of_def)
    then show ?thesis using finish_commit live by (simp add: release_def)
  next
    case (finish_abort c r e env c' res)
    then have "coord_ok c" "cPendingMutation c = r" using inv by (auto simp: wc_inv_live flight_ok_def)
    from persisted_token [OF write_abort_keeps(2) [OF this(1) finish_abort(4) this(2)]]
    show ?thesis using finish_abort live by (simp add: release_def)
  next
    case (crash c) then show ?thesis by (simp add: world_token_def world_file_def)
  next
    case (capture_crash c tok i env c1)
    then have ok: "coord_ok c" "cStore c \<noteq> None" using inv by (simp_all add: wc_inv_live)
    note k = capture_prepare_keeps [OF ok(1) capture_crash(5)]
    have "cStore c1 \<noteq> None" using k(2) ok by (simp add: same_mutations_def)
    then have "world_token w' = Some (cToken c1)"
      using capture_crash k(1) by (auto simp: world_token_def world_file_def coord_ok_def persisted_of_def)
    then show ?thesis using k(3) world_token_live [OF capture_crash(2) ok] by simp
  next
    case (reopen f now path ws fence claim sess file' c)
    then have "file_ok (wFile w)" using inv by (simp add: wc_inv_down)
    from OpenPersistent_keeps(4) [OF this reopen(3)] have "cStore c = file'" by simp
    then show ?thesis
      using reopen open_moves [OF reopen(3)] by (simp add: world_token_file world_file_def)
  next
    case (reopen_fails f now path ws fence claim sess file' e)
    then show ?thesis using open_moves by (simp add: world_token_file world_file_def)
  next
    case (rotate_audit fault path ws file' u)
    then show ?thesis using rotate_audit_token by (simp add: world_token_file world_file_def)
  next
    case (resolve c env tok r c' u)
    then have "coord_ok c" using inv by (simp add: wc_inv_live)
    from ResolvePreparedMutation_keeps(2) [OF this resolve(4)] have "cToken c' = cToken c"
      by (auto simp: persisted_of_def split: if_splits)
    then show ?thesis using resolve live by simp
  next
    case (resume c env tok r f c' rc log')
    then have "coord_ok c" "\<not> cGate c" using inv by (simp_all add: wc_inv_live)
    from ResumePreparedMutation_keeps(2) [OF this resume(4)] have "cToken c' = cToken c"
      by (auto simp: advanced_def persisted_of_def)
    then show ?thesis using resume live by simp
  next
    case (capture c env tok fz c' h)
    then have "coord_ok c" using inv by (simp add: wc_inv_live)
    then show ?thesis using capture live Capture_keeps by fastforce
  next
    case (drain c env tok d c' hw)
    then have "coord_ok c" using inv by (simp add: wc_inv_live)
    then show ?thesis using drain live Drain_keeps by fastforce
  next
    case (rotate c env tok c' t)
    then have "coord_ok c" using inv by (simp add: wc_inv_live)
    then show ?thesis using rotate live rotate_moves by fastforce
  next
    case (transfer c env tok claim c' t)
    then have "coord_ok c" using inv by (simp add: wc_inv_live)
    then show ?thesis using transfer live transfer_moves by fastforce
  qed
qed

interpretation wt: monotone_system world_init wc_step wc_inv "\<lambda>w. token_age (world_token w)"
proof unfold_locales
  fix s t assume "wc_inv s" "wc_step s t"
  then show "token_age (world_token s) \<le> token_age (world_token t)"
    using wc_step_token [of s t] by (auto simp: token_moves_def)
qed

lemma token_moves_steps:
  assumes "wc_step\<^sup>*\<^sup>* w w'" "wc_inv w"
  shows "token_moves (world_token w) (world_token w')"
  using assms
proof (induction rule: rtranclp_induct)
  case (step u v)
  then have "token_moves (world_token u) (world_token v)"
    by (blast intro: wc_step_token wc.inv_steps)
  with step show ?case by (auto simp: token_moves_def)
qed simp


section \<open>Recovery can always finish\<close>

lemma MaxUint64_not_stored: "m \<le> MaxInt64 \<Longrightarrow> m \<noteq> MaxUint64"
  by (auto simp: le_MaxInt64_iff unsigned_minus_1_eq_mask mask_eq_exp_minus_1)

lemma settle_prepared:
  assumes ok: "intents_ok m (dbMutations db)" and p: "prepared_revision db = k" "k \<noteq> 0"
  shows "\<exists>db'. settle_intent st k at db = Inr db'"
proof -
  obtain r where r: "map_of (dbMutations db) k = Some r" "miState r = Prepared" and k: "k \<le> MaxInt64"
    using prepared_revision_iff [OF ok p(2)] p(1) intents_fit [OF ok, of k] by fastforce
  have t: "tbl_ok (dbMutations db)" using ok by (simp add: intents_ok_def)
  have "sql_affected (\<lambda>k' r. k' = k \<and> miState r = Prepared) (dbMutations db) = 1"
    using sql_affected_key [OF t, of k "\<lambda>r. miState r = Prepared"] r by simp
  with k show ?thesis by (simp add: settle_intent_def sql_args_ok_def)
qed

lemma finish_prepared:
  assumes ok: "db_ok db" and s: "dbState db = Some s" and p: "prepared_revision db = k" "k \<noteq> 0"
  shows "\<exists>db'. finishMutation None None (psToken s) k (psSnapshotSequence s) committed at db = Inr db'"
proof (cases committed)
  case False
  then show ?thesis
    using settle_prepared [OF db_okD(1) [OF ok s] p] by (simp add: finishMutation_def)
next
  case True
  have k: "k = psMutationRevision s + 1" "k \<le> MaxInt64" using prepared_pos_le [OF ok s] p by blast+
  have m: "psMutationRevision s \<le> MaxInt64" using db_okD(1) [OF ok s] by (simp add: intents_ok_def)
  have args: "sql_args_ok ([k, psSnapshotSequence s] @ token_args (psToken s))"
    using db_okD(3) [OF ok s] k(2) by (simp add: sql_args_ok_def state_args_def)
  have lt: "psMutationRevision s < k" using word_Suc_gt [OF m] by (simp only: k(1))
  have "\<exists>db'. settle_intent Committed k at (db\<lparr>dbState := Some (s\<lparr>psMutationRevision := k\<rparr>)\<rparr>) = Inr db'"
    using settle_prepared [of "psMutationRevision s" "db\<lparr>dbState := Some (s\<lparr>psMutationRevision := k\<rparr>)\<rparr>" k]
      db_okD(1) [OF ok s] p by (simp add: prepared_revision_def)
  with True args lt s show ?thesis by (simp add: finishMutation_def)
qed


text \<open>A gated operation whose body refuses leaves the coordinator as it was.\<close>

lemma gated_refusal:
  assumes "\<not> cGate c"
  shows "\<exists>e. body (c\<lparr>cGate := True\<rparr>) = (c\<lparr>cGate := True\<rparr>, Inl e) \<Longrightarrow> \<exists>e. with_gate ctx body c = (c, Inl e)"
  using assms by (cases ctx) (auto simp: with_gate_def acquire_def release_def)

section \<open>A write as a run\<close>

text \<open>The external effect of one \<open>Write\<close>: the log grows by the allocated revision when the
  callback returned nil or an error marked as externally committed.\<close>

definition write_log :: "call_env \<Rightarrow> token \<Rightarrow> (write_intent \<Rightarrow> go_error option) \<Rightarrow> coordinator \<Rightarrow> u64 list \<Rightarrow> u64 list" where
  "write_log env tok f c log =
     (case write_admit tok c of Inl e \<Rightarrow> log
      | Inr r \<Rightarrow>
          (case write_prepare env r c of Inl e \<Rightarrow> log
           | Inr c1 \<Rightarrow>
               (case f (intent_of r c1) of
                  None \<Rightarrow> log @ [r]
                | Some e \<Rightarrow> if errors_is e ErrExternalCommitted then log @ [r] else log)))"

lemma three_steps:
  "wc_step a b \<Longrightarrow> wc_step b c \<Longrightarrow> wc_step c d \<Longrightarrow> d = e \<Longrightarrow> wc_step\<^sup>*\<^sup>* a e"
  by (simp add: converse_rtranclp_into_rtranclp)

lemma write_admit_gate [simp]: "write_admit tok (c\<lparr>cGate := b\<rparr>) = write_admit tok c"
  by (simp add: write_admit_def)

lemma write_prepare_gate:
  "write_prepare env r (c\<lparr>cGate := b\<rparr>) = map_sum id (cGate_update (\<lambda>_. b)) (write_prepare env r c)"
  by (simp add: write_prepare_def split: option.splits sum.splits)

lemma intent_of_gate [simp]: "intent_of r (c\<lparr>cGate := b\<rparr>) = intent_of r c"
  by (simp add: intent_of_def)

lemma Write_admitted:
  assumes "write_admit tok c = Inr r" "write_prepare env r c = Inr c1" "ceContext env = None"
  shows "Write env tok (Some f) c =
    (case (case f (intent_of r c1) of Some e \<Rightarrow> write_abort env r e (c1\<lparr>cGate := True\<rparr>)
           | None \<Rightarrow> write_commit env r (c1\<lparr>cGate := True\<rparr>)) of (c2, x) \<Rightarrow> (release c2, x))"
  using assms by (simp add: Write_def with_gate_def acquire_def write_prepare_gate)

lemma Write_refused:
  assumes "(\<exists>e. write_admit tok c = Inl e) \<or> (\<exists>r e. write_admit tok c = Inr r \<and> write_prepare env r c = Inl e)"
    "\<not> cGate c"
  shows "\<exists>e. Write env tok (Some f) c = (c, Inl e)"
  using assms(1) by (auto simp: Write_def write_prepare_gate intro!: gated_refusal [OF assms(2)])

section \<open>Audit source names\<close>

lemma source_epoch_inject:
  assumes "businessAuditSourceEpoch ws a = businessAuditSourceEpoch ws b" "1 \<le> a" "1 \<le> b"
  shows "a = b"
proof -
  have "pad_zeros 20 (dec_text (unat a)) = pad_zeros 20 (dec_text (unat b))" if "\<not> a \<le> 1" "\<not> b \<le> 1"
    using assms that by (simp add: businessAuditSourceEpoch_def)
  then have "unat a = unat b" if "\<not> a \<le> 1" "\<not> b \<le> 1"
    using that by (metis dec_value_pad dec_value_dec_text)
  then show ?thesis using assms
    by (auto simp: businessAuditSourceEpoch_def word_unat_eq_iff split: if_splits)
qed


end
