(* ===== verification/Write_Properties.thy ===== *)
theory Write_Properties
  imports Write_Recovery
begin

text \<open>
  What the write protocol guarantees, over the worlds of \<open>Write_Recovery\<close>, with a concrete run
  on which every guarantee is exercised: a workspace is opened, a write is prepared and applied,
  the process crashes before it can record the commit, and a second process reopens the file.
\<close>

section \<open>A concrete run\<close>

definition demo_token :: token where
  "demo_token = \<lparr>tokWorkspaceID = ''ws'', tokSessionEpoch = 1, tokFenceEpoch = 1, tokClaimID = ''claim''\<rparr>"

definition demo_db :: coord_db where
  "demo_db = \<lparr>dbState = Some \<lparr>psToken = demo_token, psMutationRevision = 0, psSnapshotSequence = 0,
       psHighWatermark = no_watermark, psAuditEpoch = 1\<rparr>,
     dbMutations = [], dbCaptures = [], dbHasAuditEpoch = True\<rparr>"

definition demo_prepared_db :: coord_db where
  "demo_prepared_db = demo_db\<lparr>dbMutations :=
     [(1, \<lparr>miToken = demo_token, miState = Prepared, miPreparedAt = 0, miFinishedAt = None\<rparr>)]\<rparr>"

definition demo_coord :: coordinator where
  "demo_coord = \<lparr>cGate = False, cStore = Some demo_db, cToken = demo_token, cMutationRevision = 0,
     cSnapshotSequence = 0, cHighWatermark = no_watermark, cPendingMutation = 0, cAuditEpoch = 1\<rparr>"

definition demo_prepared :: coordinator where
  "demo_prepared = demo_coord\<lparr>cStore := Some demo_prepared_db, cPendingMutation := 1\<rparr>"

definition demo_start :: world where
  "demo_start = \<lparr>wMem = None, wFile = None, wLog = [], wFlight = Idle\<rparr>"

definition demo_open :: world where
  "demo_open = \<lparr>wMem = Some demo_coord, wFile = Some demo_db, wLog = [], wFlight = Idle\<rparr>"

definition demo_applying :: world where
  "demo_applying = demo_open\<lparr>wMem := Some (demo_prepared\<lparr>cGate := True\<rparr>), wFlight := Applying 1\<rparr>"

definition demo_applied :: world where
  "demo_applied = demo_applying\<lparr>wLog := wLog demo_applying @ [1], wFlight := Applied 1 None\<rparr>"

definition demo_crashed :: world where
  "demo_crashed = demo_applied\<lparr>wMem := None, wFile := Some demo_prepared_db, wFlight := Idle\<rparr>"

definition demo_pending :: world where
  "demo_pending = demo_crashed\<lparr>wMem := Some demo_prepared, wFile := Some demo_prepared_db\<rparr>"

definition demo_resolved :: coordinator where
  "demo_resolved = fst (ResolvePreparedMutation calm_env demo_token 1 True demo_prepared)"

definition demo_done :: world where
  "demo_done = demo_pending\<lparr>wMem := Some demo_resolved\<rparr>"

definition demo_rotated :: coordinator where
  "demo_rotated = fst (RotateSession calm_env demo_token demo_coord)"

definition demo_session2 :: world where
  "demo_session2 = demo_open\<lparr>wMem := Some demo_rotated\<rparr>"

lemmas demo_worlds = demo_start_def demo_open_def demo_applying_def demo_applied_def
  demo_crashed_def demo_pending_def demo_done_def demo_session2_def

lemma demo_init: "world_init demo_start"
  by (simp add: world_init_def demo_start_def)

lemma demo_open_ok:
  "OpenPersistent no_open_faults 0 ''db'' ''ws'' 1 ''claim'' 1 None = (Some demo_db, Inr demo_coord)"
  "OpenPersistent no_open_faults 0 ''db'' ''ws'' 1 ''claim'' 1 (Some demo_prepared_db)
     = (Some demo_prepared_db, Inr demo_prepared)"
  by code_simp+

lemma demo_admit: "write_admit demo_token demo_coord = Inr 1"
    "write_prepare calm_env 1 demo_coord = Inr demo_prepared"
  by code_simp+

lemma demo_resolve:
  "ResolvePreparedMutation calm_env demo_token 1 (1 \<in> set (wLog demo_pending)) demo_prepared
     = (demo_resolved, Inr ())"
  by (simp add: demo_worlds) code_simp

lemma demo_rotate:
  "RotateSession calm_env demo_token demo_coord = (demo_rotated, Inr (cToken demo_rotated))"
  by code_simp

lemma demo_steps:
  "wc_step demo_start demo_open" "wc_step demo_open demo_applying"
  "wc_step demo_applying demo_applied" "wc_step demo_applied demo_crashed"
  "wc_step demo_crashed demo_pending" "wc_step demo_pending demo_done"
  "wc_step demo_open demo_session2"
proof -
  show "wc_step demo_start demo_open"
    using reopen [of demo_start, unfolded demo_start_def world.simps, OF refl demo_open_ok(1)]
    by (simp add: demo_worlds)
  show "wc_step demo_open demo_applying"
    using begin_write [of demo_open demo_coord, OF _ _ demo_admit] by (simp add: demo_worlds)
  show "wc_step demo_applying demo_applied"
    using apply_commits [of demo_applying] by (simp add: demo_worlds)
  show "wc_step demo_applied demo_crashed"
    using crash [of demo_applied] by (simp add: demo_worlds demo_prepared_def)
  show "wc_step demo_crashed demo_pending"
    using reopen [of demo_crashed no_open_faults 0 "''db''" "''ws''" 1 "''claim''" 1] demo_open_ok(2)
    by (simp add: demo_worlds)
  show "wc_step demo_pending demo_done"
    using resolve [of demo_pending demo_prepared, OF _ _ demo_resolve] by (simp add: demo_worlds)
  show "wc_step demo_open demo_session2"
    using rotate [of demo_open demo_coord, OF _ _ demo_rotate] by (simp add: demo_worlds)
qed

lemma demo_reaches:
  "wc_step\<^sup>*\<^sup>* demo_start demo_open" "wc_step\<^sup>*\<^sup>* demo_start demo_pending"
  "wc_step\<^sup>*\<^sup>* demo_start demo_done"
  using demo_steps by (meson r_into_rtranclp rtranclp.rtrancl_into_rtrancl)+


section \<open>Properties of the protocol\<close>

text \<open>C1. In every reachable world, whatever crashes and faults happened, the external
  domain has committed the revisions 1, 2, 3, \<dots> once each and in order; and whenever no write is
  in flight and nothing is pending, the coordinator's revision is exactly their number.\<close>

theorem external_commits_exactly_once:
  assumes "world_init w0" "wc_step\<^sup>*\<^sup>* w0 w"
  shows "map unat (wLog w) = [1..<Suc (length (wLog w))] \<and>
    (\<forall>c. wMem w = Some c \<longrightarrow> wFlight w = Idle \<longrightarrow> cPendingMutation c = 0 \<longrightarrow>
       unat (cMutationRevision c) = length (wLog w))"
proof -
  have inv: "wc_inv w" using assms by (rule wc.inv_reachable)
  then have "map unat (wLog w) = [1..<Suc (length (wLog w))]"
    by (simp add: wc_inv_def log_ok_def)
  moreover have "unat (cMutationRevision c) = length (wLog w)"
    if "wMem w = Some c" "cPendingMutation c = 0" for c
    using inv that log_okD(1) by (fastforce simp: wc_inv_live)
  ultimately show ?thesis by blast
qed

theorem external_commits_exactly_once_witness:
  "wc_step\<^sup>*\<^sup>* demo_start demo_done \<and> wLog demo_done = [1] \<and> map unat (wLog demo_done) = [1..<2]
   \<and> unat (cMutationRevision demo_resolved) = 1"
proof -
  have "wMem demo_done = Some demo_resolved" "wFlight demo_done = Idle" "wLog demo_done = [1]"
    by (simp_all add: demo_worlds)
  moreover have "cPendingMutation demo_resolved = 0" by code_simp
  ultimately show ?thesis
    using external_commits_exactly_once [OF demo_init demo_reaches(3)] demo_reaches(3)
    by (simp add: numeral_2_eq_2)
qed

text \<open>C2. A mutation a crash left prepared can always be resolved: in every reachable
  world with a pending mutation and no write in flight, \<open>ResolvePreparedMutation\<close>, told whether the
  external domain holds the revision, succeeds, after which nothing is pending, the revision is
  the number of external commits, and the next write is admitted.\<close>

theorem pending_mutation_recoverable:
  assumes "world_init w0" "wc_step\<^sup>*\<^sup>* w0 w" "wMem w = Some c" "wFlight w = Idle"
    and "cPendingMutation c \<noteq> 0"
  shows "\<exists>c'. ResolvePreparedMutation calm_env (cToken c) (cPendingMutation c)
      (cPendingMutation c \<in> set (wLog w)) c = (c', Inr ())
    \<and> cPendingMutation c' = 0 \<and> unat (cMutationRevision c') = length (wLog w)
    \<and> write_admit (cToken c) c' = Inr (cMutationRevision c' + 1)"
proof -
  let ?p = "cPendingMutation c" and ?b = "cPendingMutation c \<in> set (wLog w)"
  have inv: "wc_inv w" using assms(1,2) by (rule wc.inv_reachable)
  then have ok: "coord_ok c" "cStore c \<noteq> None" using assms(3) by (simp_all add: wc_inv_live)
  then obtain db where db: "cStore c = Some db" by auto
  note st = coord_ok_store [OF ok(1) db]
  obtain db' where f: "finishMutation None None (cToken c) ?p (cSnapshotSequence c) ?b 0 db = Inr db'"
    using finish_prepared [OF st(1,2) st(3) [symmetric] assms(5)] by (auto simp: persisted_of_def)
  obtain c' where res: "ResolvePreparedMutation calm_env (cToken c) ?p ?b c = (c', Inr ())"
    using db f by (simp add: ResolvePreparedMutation_def with_gate_def acquire_def calm_env_def Let_def)
  have k: "cPendingMutation c' = 0" "cStore c' \<noteq> None" "cToken c' = cToken c"
    using ResolvePreparedMutation_keeps(2) [OF ok(1) res] by (auto simp: persisted_of_def split: if_splits)
  have inv': "wc_inv (w\<lparr>wMem := Some c'\<rparr>)"
    using inv_resolve [OF inv assms(3,4) res] .
  then have ok': "coord_ok c'" "unat (cMutationRevision c') = length (wLog w)"
    using k log_okD(1) by (fastforce simp: wc_inv_live)+
  have "cMutationRevision c' \<noteq> MaxUint64"
    by (rule MaxUint64_not_stored [OF stored_revision_bound [OF ok'(1) k(2)]])
  then show ?thesis using res k ok' by (simp add: write_admit_def)
qed

theorem pending_mutation_recoverable_witness:
  "cPendingMutation demo_prepared = 1 \<and> 1 \<in> set (wLog demo_pending)
   \<and> (\<exists>c'. ResolvePreparedMutation calm_env demo_token 1 True demo_prepared = (c', Inr ())
        \<and> cPendingMutation c' = 0 \<and> unat (cMutationRevision c') = 1)"
proof -
  have "wMem demo_pending = Some demo_prepared" "wFlight demo_pending = Idle" "wLog demo_pending = [1]"
    by (simp_all add: demo_worlds)
  moreover have "cPendingMutation demo_prepared = 1" "cToken demo_prepared = demo_token"
    by (simp_all add: demo_prepared_def demo_coord_def)
  ultimately show ?thesis
    using pending_mutation_recoverable [OF demo_init demo_reaches(2), of demo_prepared] by auto
qed

text \<open>C3. The high-watermark a replica reads from the database file of a reachable
  world is at least every revision the external domain committed and at most one more.\<close>

theorem replica_high_watermark_conservative:
  assumes "world_init w0" "wc_step\<^sup>*\<^sup>* w0 w"
    and "ReadPersistentMutationRevision None path ws (world_file w) = Inr n"
  shows "(\<forall>r \<in> set (wLog w). r \<le> n) \<and> length (wLog w) \<le> unat n \<and> unat n \<le> Suc (length (wLog w))"
proof -
  have inv: "wc_inv w" using assms(1,2) by (rule wc.inv_reachable)
  obtain db s where db: "world_file w = Some db" "dbState db = Some s"
    and n: "n = (if psMutationRevision s < prepared_revision db then prepared_revision db
      else psMutationRevision s)"
    using assms(3) by (auto simp: ReadPersistentMutationRevision_def split: if_splits option.splits)
  have ok: "db_ok db" and log: "log_ok (wLog w) (psMutationRevision s) (prepared_revision db)"
    using inv db by (simp_all add: wc_inv_def file_defs)
  have m: "psMutationRevision s \<le> MaxInt64" using db_okD(1) [OF ok db(2)] by (simp add: intents_ok_def)
  have len: "length (wLog w) \<le> unat n \<and> unat n \<le> Suc (length (wLog w))"
  proof (cases "prepared_revision db = 0")
    case True
    with n log_okD(1) [OF log] show ?thesis by simp
  next
    case False
    have "prepared_revision db = psMutationRevision s + 1"
      using prepared_pos_le [OF ok db(2) False] by simp
    then have "unat n = Suc (unat (psMutationRevision s))"
      using n word_Suc_gt [OF m] unat_word_Suc [OF m] by simp
    with log_okD(1) [OF log] show ?thesis by auto
  qed
  moreover have "r \<le> n" if "r \<in> set (wLog w)" for r
    using log_okD(2) [OF log, of r] that len by (simp add: word_le_nat_alt)
  ultimately show ?thesis by blast
qed

theorem replica_high_watermark_conservative_witness:
  "ReadPersistentMutationRevision None ''db'' ''ws'' (world_file demo_pending) = Inr 1
   \<and> wLog demo_pending = [1] \<and> list_all (\<lambda>r. r \<le> 1) (wLog demo_pending)"
proof -
  have "world_file demo_pending = Some demo_prepared_db"
    by (simp add: world_file_def demo_worlds demo_prepared_def)
  moreover have "ReadPersistentMutationRevision None ''db'' ''ws'' (Some demo_prepared_db) = Inr 1"
    by code_simp
  ultimately show ?thesis
    using replica_high_watermark_conservative [OF demo_init demo_reaches(2)]
    by (simp add: list_all_iff) (simp add: demo_worlds)
qed

text \<open>The two operations that settle a pending mutation act only for the token and the revision that are pending.\<close>

lemma ResolvePreparedMutation_error:
  assumes "\<not> cGate c" "ResolvePreparedMutation env tok r b c = (c', Inl e)"
  shows "c' = c"
  using assms by (cases c) (auto simp: ResolvePreparedMutation_def with_gate_def acquire_def release_def Let_def
      split: option.splits if_splits sum.splits)

lemma settling_refused:
  assumes "\<not> cGate c"
  shows "tok \<noteq> cToken c \<or> r \<noteq> cPendingMutation c \<Longrightarrow> \<exists>e. ResumePreparedMutation env tok r f c = (c, Inl e)"
    and "tok \<noteq> cToken c \<or> coord_ok c \<and> r \<noteq> cPendingMutation c \<Longrightarrow> \<exists>e. ResolvePreparedMutation env tok r b c = (c, Inl e)"
proof -
  show "\<exists>e. ResumePreparedMutation env tok r f c = (c, Inl e)" if "tok \<noteq> cToken c \<or> r \<noteq> cPendingMutation c"
    using that by (auto simp: ResumePreparedMutation_def resume_guard_def intro!: gated_refusal [OF assms] split: option.splits)
  assume ne: "tok \<noteq> cToken c \<or> coord_ok c \<and> r \<noteq> cPendingMutation c"
  obtain c' x where res: "ResolvePreparedMutation env tok r b c = (c', x)" by fastforce
  have "\<exists>e. x = Inl e"
  proof (cases "tok = cToken c")
    case True
    then show ?thesis using ResolvePreparedMutation_keeps(2) [OF _ res] ne by auto
  next
    case False
    then show ?thesis using res assms by (auto simp: ResolvePreparedMutation_def with_gate_def acquire_def release_def
        split: option.splits if_splits)
  qed
  then show "\<exists>e. ResolvePreparedMutation env tok r b c = (c, Inl e)" using res ResolvePreparedMutation_error [OF assms] by blast
qed

text \<open>C4. While a mutation is pending, \<open>Write\<close>, \<open>Capture\<close>, \<open>Drain\<close>, \<open>RotateSession\<close>
  and \<open>TransferFence\<close> all return an error and change nothing, whatever token they are given. The two
  operations that settle a mutation, \<open>ResumePreparedMutation\<close> and \<open>ResolvePreparedMutation\<close>, do so too
  unless they are given the current token and the very revision that is pending; \<open>Resolve\<close> that returns no error
  leaves nothing pending.\<close>

theorem pending_mutation_blocks:
  assumes "coord_ok c" "cPendingMutation c \<noteq> 0" "\<not> cGate c"
  shows "(\<exists>e. Write env tok a c = (c, Inl e)) \<and> (\<exists>e. Capture env tok fz c = (c, Inl e))
    \<and> (\<exists>e. Drain env tok d c = (c, Inl e)) \<and> (\<exists>e. RotateSession env tok c = (c, Inl e))
    \<and> (\<exists>e. TransferFence env tok claim c = (c, Inl e))
    \<and> ((\<exists>e. ResumePreparedMutation env tok r f c = (c, Inl e)) \<or> tok = cToken c \<and> r = cPendingMutation c)
    \<and> ((\<exists>e. ResolvePreparedMutation env tok r b c = (c, Inl e)) \<or> tok = cToken c \<and> r = cPendingMutation c
        \<and> (\<exists>c'. ResolvePreparedMutation env tok r b c = (c', Inr ()) \<and> cPendingMutation c' = 0))"
proof (intro conjI)
  show "\<exists>e. Write env tok a c = (c, Inl e)" "\<exists>e. Capture env tok fz c = (c, Inl e)"
    "\<exists>e. Drain env tok d c = (c, Inl e)" "\<exists>e. RotateSession env tok c = (c, Inl e)"
    "\<exists>e. TransferFence env tok claim c = (c, Inl e)"
    using assms(2)
    by (auto simp: Write_def Capture_def Drain_def RotateSession_def TransferFence_def
        write_admit_def capture_admit_def intro!: gated_refusal [OF assms(3)] split: option.splits)
  show "(\<exists>e. ResumePreparedMutation env tok r f c = (c, Inl e)) \<or> tok = cToken c \<and> r = cPendingMutation c"
    using settling_refused(1) [OF assms(3)] by blast
  obtain c' x where res: "ResolvePreparedMutation env tok r b c = (c', x)" by fastforce
  have "x = Inl e \<Longrightarrow> c' = c" for e using ResolvePreparedMutation_error [OF assms(3)] res by blast
  then show "(\<exists>e. ResolvePreparedMutation env tok r b c = (c, Inl e)) \<or> tok = cToken c \<and> r = cPendingMutation c
        \<and> (\<exists>c'. ResolvePreparedMutation env tok r b c = (c', Inr ()) \<and> cPendingMutation c' = 0)"
    using res settling_refused(2) [OF assms(3)] assms(1) ResolvePreparedMutation_keeps(2) [OF assms(1) res] by (cases x) blast+
qed

theorem pending_mutation_blocks_witness:
  "cPendingMutation demo_prepared = 1 \<and> \<not> cGate demo_prepared
   \<and> (\<exists>e. Write calm_env demo_token (Some (\<lambda>_. None)) demo_prepared = (demo_prepared, Inl e))
   \<and> (\<exists>e. ResolvePreparedMutation calm_env demo_token 2 True demo_prepared = (demo_prepared, Inl e))"
proof -
  have "wc_inv demo_pending" using demo_init demo_reaches(2) by (rule wc.inv_reachable)
  then have "coord_ok demo_prepared" by (simp add: wc_inv_live demo_worlds)
  moreover have "cPendingMutation demo_prepared = 1" "\<not> cGate demo_prepared"
    by (simp_all add: demo_prepared_def demo_coord_def)
  ultimately show ?thesis
    using pending_mutation_blocks [of demo_prepared calm_env demo_token _ _ _ _ 2 _ True] by simp
qed

text \<open>C5. Once the token has changed, the old token is refused for ever: in every later
  world, across crashes and reopenings, every operation that takes a token (\<open>Write\<close>, \<open>Capture\<close>, \<open>Drain\<close>,
  \<open>RotateSession\<close>, \<open>TransferFence\<close>, \<open>ResumePreparedMutation\<close>, \<open>ResolvePreparedMutation\<close>) returns an error
  when it is given the old one, and changes nothing.\<close>

theorem superseded_token_refused:
  assumes "world_init w0" "wc_step\<^sup>*\<^sup>* w0 w1" "wc_step\<^sup>*\<^sup>* w1 w2" "wc_step\<^sup>*\<^sup>* w2 w3"
    and "world_token w1 = Some old" "world_token w2 \<noteq> Some old"
    and "wMem w3 = Some c" "wFlight w3 = Idle"
  shows "cToken c \<noteq> old \<and> (\<exists>e. Write env old a c = (c, Inl e)) \<and> (\<exists>e. Capture env old fz c = (c, Inl e))
    \<and> (\<exists>e. Drain env old d c = (c, Inl e)) \<and> (\<exists>e. RotateSession env old c = (c, Inl e))
    \<and> (\<exists>e. TransferFence env old claim c = (c, Inl e)) \<and> (\<exists>e. ResumePreparedMutation env old r f c = (c, Inl e))
    \<and> (\<exists>e. ResolvePreparedMutation env old r b c = (c, Inl e))"
proof -
  have inv: "wc_inv w1" "wc_inv w2" "wc_inv w3"
    using assms(1-4) wc.inv_reachable wc.inv_steps by blast+
  have "token_age (world_token w1) < token_age (world_token w3)"
    using token_moves_steps [OF assms(3) inv(1)] token_moves_steps [OF assms(4) inv(2)] assms(5,6)
    by (auto simp: token_moves_def)
  moreover have "world_token w3 = Some (cToken c)" and gate: "\<not> cGate c"
    using inv(3) assms(7,8) world_token_live by (auto simp: wc_inv_live)
  ultimately have ne: "cToken c \<noteq> old" using assms(5) by auto
  moreover have "\<exists>e. Write env old a c = (c, Inl e)" "\<exists>e. Capture env old fz c = (c, Inl e)"
    "\<exists>e. RotateSession env old c = (c, Inl e)" "\<exists>e. TransferFence env old claim c = (c, Inl e)"
    "\<exists>e. Drain env old d c = (c, Inl e)"
    using ne by (auto simp: Write_def Capture_def RotateSession_def TransferFence_def Drain_def
        write_admit_def capture_admit_def intro!: gated_refusal [OF gate] split: option.splits)
  moreover have "\<exists>e. ResumePreparedMutation env old r f c = (c, Inl e)" "\<exists>e. ResolvePreparedMutation env old r b c = (c, Inl e)"
    using ne by (auto intro!: settling_refused [OF gate])
  ultimately show ?thesis by blast
qed

theorem superseded_token_refused_witness:
  "cToken demo_rotated \<noteq> demo_token
   \<and> (\<exists>e. Write calm_env demo_token (Some (\<lambda>_. None)) demo_rotated = (demo_rotated, Inl e))"
proof -
  have mem: "wMem demo_session2 = Some demo_rotated" "wFlight demo_session2 = Idle"
    by (simp_all add: demo_worlds)
  have "world_token demo_open = Some demo_token"
    by (simp add: world_token_def world_file_def demo_worlds demo_coord_def demo_db_def)
  moreover have "map_option psToken (Option.bind (cStore demo_rotated) dbState) \<noteq> Some demo_token"
    by code_simp
  then have "world_token demo_session2 \<noteq> Some demo_token"
    using mem by (simp add: world_token_def world_file_def)
  ultimately show ?thesis
    using superseded_token_refused [OF demo_init demo_reaches(1) r_into_rtranclp [of wc_step, OF demo_steps(7)]
      rtranclp.rtrancl_refl _ _ mem] by blast
qed

text \<open>C6. \<open>Write\<close> is a run of the protocol: from a world with no write in flight, a
  completed call takes the world, through its prepare, apply and finish steps, to the one with
  the coordinator it returns and the external effect of its callback. So what holds of every
  reachable world holds after every call of \<open>Write\<close>.\<close>

theorem Write_is_a_run:
  assumes "wMem w = Some c" "wFlight w = Idle" "\<not> cGate c"
    and "Write env tok (Some f) c = (c', res)" "ceContext env = None"
  shows "wc_step\<^sup>*\<^sup>* w (w\<lparr>wMem := Some c', wLog := write_log env tok f c (wLog w)\<rparr>)"
proof (cases "\<exists>r c1. write_admit tok c = Inr r \<and> write_prepare env r c = Inr c1")
  case False
  then consider e where "write_admit tok c = Inl e"
    | r e where "write_admit tok c = Inr r" "write_prepare env r c = Inl e"
    by (metis sum.exhaust)
  then have "c' = c" "write_log env tok f c (wLog w) = wLog w"
    using Write_refused [of tok c env f] assms(3,4) by (cases; auto simp: write_log_def)+
  moreover have "w\<lparr>wMem := Some c, wLog := wLog w\<rparr> = w" using assms(1) by (cases w) simp
  ultimately show ?thesis by simp
next
  case True
  then obtain r c1 where a: "write_admit tok c = Inr r" and p: "write_prepare env r c = Inr c1" by blast
  let ?G = "c1\<lparr>cGate := True\<rparr>"
  let ?w1 = "w\<lparr>wMem := Some ?G, wFlight := Applying r\<rparr>"
  have s1: "wc_step w ?w1" by (rule begin_write [OF assms(1,2) a p])
  have m1: "wMem ?w1 = Some ?G" "wFlight ?w1 = Applying r" by simp_all
  show ?thesis
  proof (cases "f (intent_of r c1)")
    case None
    obtain c2 where c2: "write_commit env r ?G = (c2, res)" "c' = release c2"
      using assms(4) Write_admitted [OF a p assms(5), of f] None by (auto split: prod.splits)
    let ?w2 = "?w1\<lparr>wLog := wLog ?w1 @ [r], wFlight := Applied r None\<rparr>"
    have s2: "wc_step ?w1 ?w2" by (rule apply_commits [OF m1])
    have "wc_step ?w2 (?w2\<lparr>wMem := Some (release c2), wFlight := Idle\<rparr>)"
      by (rule finish_commit [OF _ _ c2(1)]) simp_all
    moreover have "?w2\<lparr>wMem := Some (release c2), wFlight := Idle\<rparr>
        = w\<lparr>wMem := Some c', wLog := write_log env tok f c (wLog w)\<rparr>"
      using a p None c2 assms(2) by (simp add: write_log_def)
    ultimately show ?thesis by (rule three_steps [OF s1 s2])
  next
    case (Some e)
    obtain c2 where c2: "write_abort env r e ?G = (c2, res)" "c' = release c2"
      using assms(4) Write_admitted [OF a p assms(5), of f] Some by (auto split: prod.splits)
    let ?log = "if errors_is e ErrExternalCommitted then wLog w @ [r] else wLog w"
    let ?w2 = "?w1\<lparr>wLog := ?log, wFlight := Applied r (Some e)\<rparr>"
    have s2: "wc_step ?w1 ?w2"
      using apply_commits_then_fails [OF m1, of e] apply_fails [OF m1, of e] by simp
    have "wc_step ?w2 (?w2\<lparr>wMem := Some (release c2), wFlight := Idle\<rparr>)"
      by (rule finish_abort [OF _ _ c2(1)]) simp_all
    moreover have "?w2\<lparr>wMem := Some (release c2), wFlight := Idle\<rparr>
        = w\<lparr>wMem := Some c', wLog := write_log env tok f c (wLog w)\<rparr>"
      using a p Some c2 assms(2) by (simp add: write_log_def)
    ultimately show ?thesis by (rule three_steps [OF s1 s2])
  qed
qed

theorem Write_is_a_run_witness:
  "\<exists>c' res. Write calm_env demo_token (Some (\<lambda>_. None)) demo_coord = (c', Inr res)
   \<and> wrMutationRevision res = 1 \<and> wc_step\<^sup>*\<^sup>* demo_open (demo_open\<lparr>wMem := Some c', wLog := [1]\<rparr>)"
proof -
  let ?r = "Write calm_env demo_token (Some (\<lambda>_. None)) demo_coord"
  have res: "map_sum id wrMutationRevision (snd ?r) = (Inr 1 :: u64 result)" by code_simp
  then obtain x where x: "snd ?r = Inr x" "wrMutationRevision x = 1" by (cases "snd ?r") auto
  have "write_log calm_env demo_token (\<lambda>_. None) demo_coord [] = [1]" by code_simp
  moreover have "?r = (fst ?r, Inr x)" using x by (simp add: prod_eq_iff)
  moreover have "wMem demo_open = Some demo_coord" "wFlight demo_open = Idle" "wLog demo_open = []"
    "\<not> cGate demo_coord" "ceContext calm_env = None"
    by (simp_all add: demo_worlds demo_coord_def calm_env_def)
  ultimately show ?thesis
    using Write_is_a_run [of demo_open demo_coord calm_env demo_token "\<lambda>_. None" "fst ?r" "Inr x"] x(2)
    by metis
qed

text \<open>A capture that returns a handle is durable: reading its sequence back gives
  exactly the intent and the frozen roots of the handle, in the state captured, and the sequence
  is the next one.\<close>

theorem captured_is_readable:
  assumes "coord_ok c" "cStore c \<noteq> None" "Capture env tok (Some f) c = (c', Inr h)"
  shows "chIntent h = \<lparr>ciToken = cToken c, ciMutationRevision = cMutationRevision c,
           ciSnapshotSequence = cSnapshotSequence c + 1\<rparr>
    \<and> f (chIntent h) = Inr (chRoots h)
    \<and> cSnapshotSequence c' = cSnapshotSequence c + 1
    \<and> (\<exists>rec. CaptureIntent None (ciSnapshotSequence (chIntent h)) c' = Inr rec
         \<and> cirIntent rec = chIntent h \<and> cirRoots rec = chRoots h \<and> cirState rec = CapCaptured
         \<and> cirCapturedAt rec = chCapturedAt h)"
proof -
  obtain db where db: "cStore c = Some db" using assms(2) by auto
  let ?G = "c\<lparr>cGate := True\<rparr>"
  have G: "coord_ok ?G" "cStore ?G = Some db" using assms(1) db by simp_all
  from assms(3) obtain i c1 c2 where a: "capture_admit tok ?G = Inr i"
    and p: "capture_prepare env i ?G = Inr c1" and q: "capture_finish env i (f i) c1 = (c2, Inr h)"
    and c': "c' = release c2"
    unfolding Capture_def option.case by - (erule with_gate_cases, auto split: sum.splits)
  have i: "i = \<lparr>ciToken = cToken c, ciMutationRevision = cMutationRevision c,
      ciSnapshotSequence = cSnapshotSequence c + 1\<rparr>" using capture_admit_intent [OF a] by simp
  obtain db1 where p1: "prepareCapture (cePrepare env) i (cHighWatermark ?G) (ceNow env) db = Inr db1"
    and c1: "c1 = ?G\<lparr>cStore := Some db1, cSnapshotSequence := ciSnapshotSequence i\<rparr>"
    using p G by (auto simp: capture_prepare_def split: sum.splits)
  obtain roots db2 where q1: "finishCapture (ceFinish env) i roots CapCaptured (ceFinishedAt env) db1 = Inr db2"
    and h: "f i = Inr roots" "h = \<lparr>chIntent = i, chRoots = roots, chCapturedAt = ceFinishedAt env\<rparr>"
    and c2: "c2 = c1\<lparr>cStore := Some db2\<rparr>"
    using q by (auto simp: capture_finish_def c1 Let_def split: sum.splits)
  note st = coord_ok_store [OF G]
  note k1 = prepareCapture_keeps [OF st(1,2) p1]
  obtain r where r: "crState r = CapPrepared" "crToken r = ciToken i" "crMutationRevision r = ciMutationRevision i"
    "map_of (dbCaptures db1) (ciSnapshotSequence i) = Some r" using k1(7) by auto
  have row: "map_of (dbCaptures db2) (ciSnapshotSequence i)
      = Some (r\<lparr>crState := CapCaptured, crRoots := roots, crCapturedAt := Some (ceFinishedAt env)\<rparr>)"
    using finishCapture_keeps(4) [OF k1(1) q1] r by simp
  have args: "sql_args_ok [ciSnapshotSequence i]"
    using db_okD(3) [OF k1(1,2)] by (simp add: sql_args_ok_def state_args_def)
  show ?thesis
    using row args r h by (simp add: c' c2 c1 i release_def CaptureIntent_def captureIntent_def)
qed

theorem captured_is_readable_witness:
  "\<exists>c' h. Capture calm_env demo_token (Some (\<lambda>i. Inr (empty_roots\<lparr>frFileRoot := ''r''\<rparr>))) demo_coord = (c', Inr h)
   \<and> (\<exists>rec. CaptureIntent None 1 c' = Inr rec \<and> frFileRoot (cirRoots rec) = ''r'' \<and> cirState rec = CapCaptured)"
proof -
  let ?f = "\<lambda>i. Inr (empty_roots\<lparr>frFileRoot := ''r''\<rparr>)"
  let ?r = "Capture calm_env demo_token (Some ?f) demo_coord"
  have "map_sum id (\<lambda>_. ()) (snd ?r) = (Inr () :: unit result)" by code_simp
  then obtain h where h: "?r = (fst ?r, Inr h)" by (cases "snd ?r") (auto simp: prod_eq_iff)
  have "coord_ok demo_coord" "cStore demo_coord \<noteq> None"
    by (auto simp: coord_ok_def demo_coord_def demo_db_def db_ok_def state_args_def token_args_def
        sql_args_ok_def intents_ok_def captures_ok_def persisted_of_def prepared_revision_def sql_max_def
        demo_token_def no_watermark_def MaxInt64_def)
  from captured_is_readable [OF this h] have c: "?f (chIntent h) = Inr (chRoots h)"
    "ciSnapshotSequence (chIntent h) = 1"
    "\<exists>rec. CaptureIntent None (ciSnapshotSequence (chIntent h)) (fst ?r) = Inr rec
       \<and> cirRoots rec = chRoots h \<and> cirState rec = CapCaptured"
    by (auto simp: demo_coord_def)
  from c(1) have "chRoots h = empty_roots\<lparr>frFileRoot := ''r''\<rparr>" by simp
  then have "frFileRoot (chRoots h) = ''r''" by simp
  with c h show ?thesis by metis
qed

text \<open>Rotating the audit epoch of a workspace's database file succeeds exactly once
  per epoch: the epoch read afterwards is one more than before (or the counter is reported
  exhausted), the mutation high-watermark is untouched, and the audit source name it leads to
  is different from that of every earlier epoch.\<close>

theorem audit_epoch_rotation_is_fresh:
  assumes "ReadPersistentBusinessEpoch None ws file = Inr e"
    and "RotatePersistentAuditEpoch None path ws file = (file', Inr ())"
  shows "(ReadPersistentBusinessEpoch None ws file' = Inr (e + 1)
       \<or> e + 1 = MaxInt64 \<and> ReadPersistentBusinessEpoch None ws file' = Inl ErrCounterExhausted)
    \<and> ReadPersistentMutationRevision None path ws file' = ReadPersistentMutationRevision None path ws file
    \<and> (\<forall>e'. 1 \<le> e' \<and> e' \<le> e \<longrightarrow> businessAuditSourceEpoch ws e' \<noteq> businessAuditSourceEpoch ws (e + 1))"
proof -
  obtain db s where db: "file = Some db" "dbHasAuditEpoch db" "dbState db = Some s"
      "tokWorkspaceID (psToken s) = ws" "e = psAuditEpoch s" "e \<noteq> 0" "e < MaxInt64" "\<not> go_blank ws"
    using assms(1) by (auto simp: ReadPersistentBusinessEpoch_def split: if_splits option.splits)
  have file': "file' = Some (db\<lparr>dbState := Some (s\<lparr>psAuditEpoch := e + 1\<rparr>)\<rparr>)"
    using assms(2) db
    by (auto simp: RotatePersistentAuditEpoch_def ensureAuditEpochColumn_def split: if_splits)
  have e: "e \<le> MaxInt64" using db by simp
  have "e + 1 \<noteq> 0" "e < e + 1" using word_Suc_nz [OF e] word_Suc_gt [OF e] by simp_all
  then have "ReadPersistentBusinessEpoch None ws file' = (if MaxInt64 \<le> e + 1 then Inl ErrCounterExhausted else Inr (e + 1))"
    using db by (simp add: file' ReadPersistentBusinessEpoch_def)
  moreover have "MaxInt64 \<le> e + 1 \<longleftrightarrow> e + 1 = MaxInt64"
    using word_le_Suc [OF e, of MaxInt64] db(7) by auto
  moreover have "ReadPersistentMutationRevision None path ws file' = ReadPersistentMutationRevision None path ws file"
    using db by (simp add: file' ReadPersistentMutationRevision_def prepared_revision_def)
  moreover have "businessAuditSourceEpoch ws e' \<noteq> businessAuditSourceEpoch ws (e + 1)" if "1 \<le> e'" "e' \<le> e" for e'
  proof
    assume "businessAuditSourceEpoch ws e' = businessAuditSourceEpoch ws (e + 1)"
    then have "e' = e + 1"
      by (rule source_epoch_inject [OF _ that(1)]) (use that \<open>e < e + 1\<close> in order)
    with that \<open>e < e + 1\<close> show False by simp
  qed
  ultimately show ?thesis by auto
qed

theorem audit_epoch_rotation_is_fresh_witness:
  "ReadPersistentBusinessEpoch None ''ws'' (Some demo_db) = Inr 1
   \<and> ReadPersistentBusinessEpoch None ''ws'' (fst (RotatePersistentAuditEpoch None ''db'' ''ws'' (Some demo_db))) = Inr 2
   \<and> businessAuditSourceEpoch ''ws'' 1 \<noteq> businessAuditSourceEpoch ''ws'' 2"
proof -
  let ?r = "RotatePersistentAuditEpoch None ''db'' ''ws'' (Some demo_db)"
  have a: "ReadPersistentBusinessEpoch None ''ws'' (Some demo_db) = Inr 1" by code_simp
  have b: "snd ?r = Inr ()" by code_simp
  then have "?r = (fst ?r, Inr ())" by (simp add: prod_eq_iff)
  from audit_epoch_rotation_is_fresh [OF a this] a show ?thesis by (auto simp: MaxInt64_def)
qed

end
