(* ===== verification/Exact_Decimal.thy ===== *)
theory Exact_Decimal
  imports VT_Prelude
begin

text \<open>
  Exact decimal coefficients (\<open>sidecar/internal/exactdecimal/value.go\<close>): a decimal of a format
  is stored as an unbounded integer, the coefficient; a format fixes the number of fractional
  digits and bounds the digits of the coefficient. \<open>*big.Int\<close> is \<^typ>\<open>int option\<close>, with
  \<^const>\<open>None\<close> the nil pointer.

  The dynamic argument of \<open>Parse\<close> is a value of \<open>go_any\<close>. A finite \<open>float64\<close> is a
  dyadic number, mantissa times a power of two; the sign of zero is dropped, which neither
  \<open>Parse\<close> nor a comparison distinguishes. \<open>AnyOther\<close> is a value of one of the remaining dynamic
  types; its argument stands for the type and the contents, so that equal arguments are the
  values \<open>reflect.DeepEqual\<close> identifies.
\<close>

section \<open>Formats and values\<close>

definition MaxScale :: int where "MaxScale = 18"
definition MaxDigits :: int where "MaxDigits = 38"

definition MaxSafeInteger :: int where "MaxSafeInteger = 2 ^ 53 - 1"

definition ErrInvalid :: go_error where "ErrInvalid = Err ''transaction.decimal_invalid''"
definition ErrOverflow :: go_error where "ErrOverflow = Err ''transaction.decimal_overflow''"

record format =
  fmtStorage :: string
  fmtScale :: int
  fmtDigits :: int

datatype go_float = NaN | Inf bool | Dyadic int int

datatype go_any = AnyNil | AnyNumber string | AnyFloat go_float | AnyInt int | AnyInt64 int
  | AnyString string | AnyOther string

definition Validate :: "format \<Rightarrow> unit result" where
  "Validate f =
     (if (fmtStorage f \<noteq> ''decimalText'' \<and> fmtStorage f \<noteq> ''integerUnits'')
         \<or> fmtScale f < 0 \<or> fmtScale f > MaxScale \<or> fmtDigits f < 1 \<or> fmtDigits f > MaxDigits
         \<or> fmtScale f > fmtDigits f
      then Inl ErrInvalid else Inr ())"

definition abs_text :: "int \<Rightarrow> string" where
  "abs_text n = dec_text (nat \<bar>n\<bar>)"

definition int_text :: "int \<Rightarrow> string" where
  "int_text n = (if n < 0 then ''-'' else []) @ abs_text n"

definition Check :: "format \<Rightarrow> int option \<Rightarrow> unit result" where
  "Check f n =
     (if Validate f \<noteq> Inr () then Inl ErrInvalid
      else case n of None \<Rightarrow> Inl ErrInvalid
      | Some n \<Rightarrow>
          if int (length (abs_text n)) > fmtDigits f then Inl ErrOverflow else Inr ())"

section \<open>Parsing\<close>

text \<open>The integral value of a float, if it is one within the safe range.\<close>

definition float_units :: "go_float \<Rightarrow> int option" where
  "float_units x = (case x of
     Dyadic m e \<Rightarrow>
       let integral = (0 \<le> e \<or> 2 ^ nat (- e) dvd m);
           v = (if 0 \<le> e then m * 2 ^ nat e else m div 2 ^ nat (- e))
       in if \<not> integral \<or> \<bar>v\<bar> > MaxSafeInteger then None else Some v
   | _ \<Rightarrow> None)"

definition value_text :: "format \<Rightarrow> go_any \<Rightarrow> string option" where
  "value_text f value =
     (if fmtStorage f = ''integerUnits''
      then (case value of
              AnyNumber s \<Rightarrow> Some s
            | AnyFloat x \<Rightarrow> map_option int_text (float_units x)
            | AnyInt n \<Rightarrow> Some (int_text n)
            | AnyInt64 n \<Rightarrow> Some (int_text n)
            | _ \<Rightarrow> None)
      else (case value of AnyString s \<Rightarrow> Some s | _ \<Rightarrow> None))"

text \<open>\<open>strings.Split(s, sep)\<close> for a separator of one byte.\<close>

fun go_split :: "char \<Rightarrow> string \<Rightarrow> string list" where
  "go_split c [] = [[]]"
| "go_split c (x # xs) =
     (if x = c then [] # go_split c xs
      else case go_split c xs of [] \<Rightarrow> [[x]] | p # ps \<Rightarrow> (x # p) # ps)"

text \<open>The coefficient an accepted text spells, given its integer part and fraction.\<close>

definition coefficient :: "format \<Rightarrow> bool \<Rightarrow> string \<Rightarrow> string \<Rightarrow> int result" where
  "coefficient f negative whole fraction =
     (if fmtStorage f = ''decimalText'' \<and> int (length fraction) > fmtScale f then Inl ErrInvalid
      else
        let fraction' = (if fmtStorage f = ''decimalText''
                         then fraction @ replicate (nat (fmtScale f) - length fraction) (CHR ''0'')
                         else fraction);
            m = int (dec_value (whole @ fraction'));
            n = (if negative then - m else m)
        in if fmtStorage f = ''integerUnits'' \<and> \<bar>n\<bar> > MaxSafeInteger then Inl ErrInvalid
           else case Check f (Some n) of Inl e \<Rightarrow> Inl e | Inr _ \<Rightarrow> Inr n)"

definition bad_whole :: "string \<Rightarrow> bool" where
  "bad_whole whole \<longleftrightarrow> whole = [] \<or> length whole > 1 \<and> hd whole = CHR ''0''"

definition parse_parts :: "format \<Rightarrow> bool \<Rightarrow> string list \<Rightarrow> int result" where
  "parse_parts f negative parts = (case parts of
     [whole] \<Rightarrow>
       if bad_whole whole \<or> \<not> list_all is_digit whole then Inl ErrInvalid
       else coefficient f negative whole []
   | [whole, fraction] \<Rightarrow>
       if bad_whole whole \<or> fraction = [] \<or> fmtStorage f = ''integerUnits''
          \<or> \<not> list_all is_digit (whole @ fraction) then Inl ErrInvalid
       else coefficient f negative whole fraction
   | _ \<Rightarrow> Inl ErrInvalid)"

fun parse_text :: "format \<Rightarrow> string \<Rightarrow> int result" where
  "parse_text f [] = Inl ErrInvalid"
| "parse_text f (c # cs) =
     (if int (length (c # cs)) > MaxDigits + MaxScale + 3 then Inl ErrInvalid
      else if c = CHR ''-'' then parse_parts f True (go_split (CHR ''.'') cs)
      else parse_parts f False (go_split (CHR ''.'') (c # cs)))"

declare parse_text.simps [simp del]

definition Parse :: "format \<Rightarrow> go_any \<Rightarrow> int result" where
  "Parse f value =
     (if Validate f \<noteq> Inr () \<or> value = AnyNil then Inl ErrInvalid
      else case value_text f value of None \<Rightarrow> Inl ErrInvalid | Some text \<Rightarrow> parse_text f text)"

section \<open>Arithmetic and printing\<close>

text \<open>\<open>Add\<close> writes to the object \<open>total\<close> points to; the result is its new content.\<close>

definition Add :: "format \<Rightarrow> int option \<Rightarrow> int option \<Rightarrow> int option \<times> unit result" where
  "Add f tot value =
     (case (tot, value) of
        (Some t, Some v) \<Rightarrow>
          (case Check f (Some (t + v)) of
             Inl e \<Rightarrow> (tot, Inl e) | Inr _ \<Rightarrow> (Some (t + v), Inr ()))
      | _ \<Rightarrow> (tot, Inl ErrInvalid))"

text \<open>Adding up, stopping at the first error, as the callers do.\<close>

fun add_all :: "format \<Rightarrow> int option \<Rightarrow> int list \<Rightarrow> int option \<times> unit result" where
  "add_all f tot [] = (tot, Inr ())"
| "add_all f tot (v # vs) =
     (case Add f tot (Some v) of
        (t, Inl e) \<Rightarrow> (t, Inl e) | (t, Inr _) \<Rightarrow> add_all f t vs)"

definition point_text :: "nat \<Rightarrow> string \<Rightarrow> string" where
  "point_text scale text =
     (let padded = (if length text \<le> scale
                    then replicate (scale - length text + 1) (CHR ''0'') @ text else text);
          k = length padded - scale
      in take k padded @ ''.'' @ drop k padded)"

definition Text :: "format \<Rightarrow> int option \<Rightarrow> string result" where
  "Text f n =
     (case Check f n of Inl e \<Rightarrow> Inl e
      | Inr _ \<Rightarrow>
          let text = abs_text (the n);
              body = (if 0 < fmtScale f then point_text (nat (fmtScale f)) text else text)
          in Inr (if the n < 0 then ''-'' @ body else body))"


section \<open>Ranges\<close>

lemma Validate_ok:
  "Validate f = Inr () \<longleftrightarrow> fmtStorage f \<in> {''decimalText'', ''integerUnits''}
     \<and> 0 \<le> fmtScale f \<and> fmtScale f \<le> 18 \<and> 1 \<le> fmtDigits f \<and> fmtDigits f \<le> 38 \<and> fmtScale f \<le> fmtDigits f"
  by (auto simp: Validate_def MaxScale_def MaxDigits_def)

lemma length_abs_text_le: "0 < k \<Longrightarrow> length (abs_text n) \<le> k \<longleftrightarrow> \<bar>n\<bar> < 10 ^ k"
  by (simp add: abs_text_def length_dec_text_le nat_less_iff)

lemma Check_ok:
  "Check f (Some n) = Inr u \<longleftrightarrow> Validate f = Inr () \<and> \<bar>n\<bar> < 10 ^ nat (fmtDigits f)"
proof (cases "Validate f = Inr ()")
  case True
  then have d: "1 \<le> fmtDigits f" by (simp add: Validate_ok)
  then have "int (length (abs_text n)) > fmtDigits f \<longleftrightarrow> \<not> \<bar>n\<bar> < 10 ^ nat (fmtDigits f)"
    using length_abs_text_le [of "nat (fmtDigits f)" n] by linarith
  with True show ?thesis by (simp add: Check_def)
qed (simp add: Check_def)

lemma coefficient_ok:
  "coefficient f negative whole fraction = Inr n \<Longrightarrow> Check f (Some n) = Inr ()"
  by (auto simp: coefficient_def Let_def split: if_splits sum.splits)

lemma Parse_checked: "Parse f v = Inr n \<Longrightarrow> Check f (Some n) = Inr ()"
proof -
  assume "Parse f v = Inr n"
  then obtain t where "parse_text f t = Inr n"
    by (auto simp: Parse_def split: if_splits option.splits)
  then obtain neg parts where "parse_parts f neg parts = Inr n"
    by (cases "(f, t)" rule: parse_text.cases) (auto simp: parse_text.simps split: if_splits)
  then show ?thesis
    by (auto simp: parse_parts_def split: list.splits if_splits dest: coefficient_ok)
qed

section \<open>Splitting\<close>

lemma go_split_nonempty [simp]: "go_split c s \<noteq> []" "[] \<noteq> go_split c s"
proof -
  show "go_split c s \<noteq> []" by (induction s) (auto split: list.splits)
  then show "[] \<noteq> go_split c s" by metis
qed

lemma go_split_plain: "c \<notin> set a \<Longrightarrow> go_split c a = [a]"
  by (induction a) auto

lemma go_split_at: "c \<notin> set a \<Longrightarrow> go_split c (a @ c # b) = a # go_split c b"
  by (induction a) auto

lemma go_split_cases:
  "go_split c s = p # ps \<Longrightarrow>
     c \<notin> set p \<and> (ps = [] \<and> s = p \<or> (\<exists>t. s = p @ c # t \<and> ps = go_split c t))"
proof (induction s arbitrary: p ps)
  case (Cons x s)
  show ?case
  proof (cases "x = c")
    case True
    with Cons.prems show ?thesis by auto
  next
    case False
    obtain q qs where q: "go_split c s = q # qs" by (cases "go_split c s") auto
    with Cons.prems False have "p = x # q" "ps = qs" by auto
    with Cons.IH [OF q] False show ?thesis by auto
  qed
qed auto

lemma go_split_two: "go_split c s = [a, b] \<Longrightarrow> s = a @ c # b"
proof -
  assume "go_split c s = [a, b]"
  from go_split_cases [OF this] obtain t where t: "s = a @ c # t" "go_split c t = [b]" by auto
  from go_split_cases [OF t(2)] have "t = b" by auto
  with t show ?thesis by simp
qed

lemma digits_no_point: "list_all is_digit s \<Longrightarrow> CHR ''.'' \<notin> set s"
  by (auto simp: list_all_iff is_digit_def)

section \<open>What parsing accepts\<close>

text \<open>The accepted texts: an optional sign, a whole part without redundant zeros and, for
  decimal text, an optional fraction.\<close>

definition spells :: "string \<Rightarrow> bool \<Rightarrow> string \<Rightarrow> string \<Rightarrow> bool" where
  "spells s neg whole fraction \<longleftrightarrow>
     s = (if neg then ''-'' else []) @ whole @ (if fraction = [] then [] else ''.'' @ fraction)
     \<and> whole \<noteq> [] \<and> list_all is_digit whole \<and> list_all is_digit fraction
     \<and> (length whole = 1 \<or> hd whole \<noteq> CHR ''0'')"

lemma is_digit_not_sign: "is_digit c \<Longrightarrow> c \<noteq> CHR ''-''"
  by (auto simp: is_digit_def)

lemma good_whole: "\<not> bad_whole w \<longleftrightarrow> w \<noteq> [] \<and> (length w = 1 \<or> hd w \<noteq> CHR ''0'')"
  by (cases w) (auto simp: bad_whole_def)

lemma parse_text_signed:
  assumes "whole \<noteq> []" "list_all is_digit whole"
  shows "parse_text f ((if neg then ''-'' else []) @ whole @ rest) =
    (if int (length ((if neg then ''-'' else []) @ whole @ rest)) > 59 then Inl ErrInvalid
     else parse_parts f neg (go_split (CHR ''.'') (whole @ rest)))"
  using assms is_digit_not_sign
  by (cases whole) (auto simp: parse_text.simps MaxDigits_def MaxScale_def)

lemma parse_text_spells:
  assumes "spells s neg whole fraction" "length s \<le> 59" "fmtStorage f = ''decimalText''"
  shows "parse_text f s = coefficient f neg whole fraction"
proof -
  let ?rest = "if fraction = [] then [] else ''.'' @ fraction"
  have w: "whole \<noteq> []" "list_all is_digit whole" "list_all is_digit fraction" "\<not> bad_whole whole"
    and s: "s = (if neg then ''-'' else []) @ whole @ ?rest"
    using assms(1) by (auto simp: spells_def good_whole)
  have "go_split (CHR ''.'') (whole @ ?rest) = (if fraction = [] then [whole] else [whole, fraction])"
    using w digits_no_point by (simp add: go_split_plain go_split_at)
  then have "parse_text f s = parse_parts f neg (if fraction = [] then [whole] else [whole, fraction])"
    using parse_text_signed [OF w(1,2), of f neg ?rest] assms(2) unfolding s [symmetric] by simp
  then show ?thesis using w assms(3) by (simp add: parse_parts_def)
qed

lemma parse_parts_accepts:
  assumes "parse_parts f neg (go_split (CHR ''.'') s) = Inr n"
  obtains whole fraction where "spells ((if neg then ''-'' else []) @ s) neg whole fraction"
    "coefficient f neg whole fraction = Inr n" "fmtStorage f = ''integerUnits'' \<longrightarrow> fraction = []"
proof -
  from assms consider
    whole where "go_split (CHR ''.'') s = [whole]" "\<not> bad_whole whole" "list_all is_digit whole"
      "coefficient f neg whole [] = Inr n"
  | whole fraction where "go_split (CHR ''.'') s = [whole, fraction]" "\<not> bad_whole whole" "fraction \<noteq> []"
      "list_all is_digit (whole @ fraction)" "coefficient f neg whole fraction = Inr n" "fmtStorage f \<noteq> ''integerUnits''"
    by (auto simp: parse_parts_def split: list.splits if_splits)
  then show thesis
  proof cases
    case 1
    then have "s = whole" using go_split_cases [OF 1(1)] by auto
    with 1 show thesis using that [of whole "[]"] by (auto simp: spells_def good_whole)
  next
    case 2
    from go_split_two [OF 2(1)] 2 show thesis
      using that [of whole fraction] by (auto simp: spells_def good_whole)
  qed
qed

lemma parse_text_accepts:
  assumes "parse_text f s = Inr n"
  obtains neg whole fraction where "spells s neg whole fraction" "coefficient f neg whole fraction = Inr n"
    "fmtStorage f = ''integerUnits'' \<longrightarrow> fraction = []"
proof (cases s)
  case Nil
  with assms show thesis by (simp add: parse_text.simps)
next
  case (Cons c cs)
  with assms consider "c = CHR ''-''" "parse_parts f True (go_split (CHR ''.'') cs) = Inr n"
    | "parse_parts f False (go_split (CHR ''.'') s) = Inr n"
    by (auto simp: parse_text.simps split: if_splits)
  then show thesis
  proof cases
    case 1
    then show thesis using that Cons by (auto elim!: parse_parts_accepts)
  next
    case 2
    from parse_parts_accepts [OF this] show thesis using that by auto
  qed
qed

lemma coefficient_value:
  assumes "coefficient f neg whole fraction = Inr n" "fmtStorage f = ''decimalText''"
  shows "int (length fraction) \<le> fmtScale f"
    "n = (if neg then - 1 else 1) * int (dec_value (whole @ fraction)) * 10 ^ (nat (fmtScale f) - length fraction)"
  using assms
  by (auto simp: coefficient_def Let_def dec_value_append [of _ "replicate _ _"] simp flip: append_assoc
      split: if_splits sum.splits)

lemma hd_pad: "0 < n \<Longrightarrow> length (dec_text n) > k \<Longrightarrow> hd (take (length (dec_text n) - k) (dec_text n)) \<noteq> CHR ''0''"
  using hd_dec_text [of n] by (simp add: hd_take)

lemma point_text_spells:
  assumes "0 < scale"
  shows "\<exists>whole fraction. point_text scale (dec_text n) = whole @ ''.'' @ fraction
    \<and> whole \<noteq> [] \<and> list_all is_digit whole \<and> list_all is_digit fraction
    \<and> (length whole = 1 \<or> hd whole \<noteq> CHR ''0'') \<and> length fraction = scale
    \<and> dec_value (whole @ fraction) = n \<and> length whole \<le> max 1 (length (dec_text n))"
proof (cases "length (dec_text n) \<le> scale")
  case True
  let ?z = "replicate (scale - length (dec_text n)) (CHR ''0'')"
  have pad: "replicate (scale - length (dec_text n) + 1) (CHR ''0'') @ dec_text n = ''0'' @ ?z @ dec_text n"
    by simp
  have "point_text scale (dec_text n) = ''0'' @ ''.'' @ ?z @ dec_text n"
    using True by (simp add: point_text_def pad Let_def)
  moreover have "dec_value (''0'' @ ?z @ dec_text n) = n"
    using dec_value_append [of "''0''" "?z @ dec_text n"] dec_value_append [of ?z "dec_text n"]
    by (simp add: dec_value_def [of "''0''"])
  moreover have "list_all is_digit ?z" by (simp add: list_all_iff)
  ultimately show ?thesis using True
    by - (rule exI [of _ "''0''"], rule exI [of _ "?z @ dec_text n"], auto)
next
  case False
  let ?k = "length (dec_text n) - scale"
  have "0 < n"
  proof (rule ccontr)
    assume "\<not> 0 < n"
    then show False using False assms by (simp add: dec_text_0)
  qed
  then have "hd (take ?k (dec_text n)) \<noteq> CHR ''0''" using False by (intro hd_pad) simp_all
  moreover have "point_text scale (dec_text n) = take ?k (dec_text n) @ ''.'' @ drop ?k (dec_text n)"
    using False by (simp add: point_text_def Let_def)
  moreover have "list_all is_digit (take ?k (dec_text n))" "list_all is_digit (drop ?k (dec_text n))"
    using dec_text_digits [of n] by (auto simp: list_all_iff dest: in_set_takeD in_set_dropD)
  ultimately show ?thesis using False
    by - (rule exI [of _ "take ?k (dec_text n)"], rule exI [of _ "drop ?k (dec_text n)"], auto)
qed

lemma Text_spells:
  assumes "Text f (Some n) = Inr t"
  shows "\<exists>whole fraction. spells t (n < 0) whole fraction \<and> length fraction = nat (fmtScale f)
    \<and> dec_value (whole @ fraction) = nat \<bar>n\<bar> \<and> length t \<le> 59"
proof -
  have ck: "Check f (Some n) = Inr ()"
    using assms by (auto simp: Text_def split: sum.splits)
  then have v: "0 \<le> fmtScale f" "fmtScale f \<le> 18" "1 \<le> fmtDigits f" "fmtDigits f \<le> 38"
    and bound: "\<bar>n\<bar> < 10 ^ nat (fmtDigits f)" by (simp_all add: Check_ok Validate_ok)
  have len: "length (dec_text (nat \<bar>n\<bar>)) \<le> 38"
    using length_abs_text_le [of "nat (fmtDigits f)" n] v bound by (simp add: abs_text_def)
  have t: "t = (if n < 0 then ''-'' else []) @
      (if 0 < fmtScale f then point_text (nat (fmtScale f)) (dec_text (nat \<bar>n\<bar>)) else dec_text (nat \<bar>n\<bar>))"
    using assms ck by (auto simp: Text_def abs_text_def Let_def)
  show ?thesis
  proof (cases "0 < fmtScale f")
    case True
    then obtain whole fraction where
      "point_text (nat (fmtScale f)) (dec_text (nat \<bar>n\<bar>)) = whole @ ''.'' @ fraction"
      "whole \<noteq> []" "list_all is_digit whole" "list_all is_digit fraction"
      "length whole = 1 \<or> hd whole \<noteq> CHR ''0''" "length fraction = nat (fmtScale f)"
      "dec_value (whole @ fraction) = nat \<bar>n\<bar>" "length whole \<le> max 1 (length (dec_text (nat \<bar>n\<bar>)))"
      using point_text_spells [of "nat (fmtScale f)" "nat \<bar>n\<bar>"] by auto
    with True v len show ?thesis
      by - (rule exI [of _ whole], rule exI [of _ fraction], auto simp: spells_def t)
  next
    case False
    have "length (dec_text (nat \<bar>n\<bar>)) = 1 \<or> hd (dec_text (nat \<bar>n\<bar>)) \<noteq> CHR ''0''"
      using hd_dec_text [of "nat \<bar>n\<bar>"] by (cases "n = 0") (simp_all add: dec_text_0)
    then show ?thesis using False v len
      by - (rule exI [of _ "dec_text (nat \<bar>n\<bar>)"], rule exI [of _ "[]"], auto simp: spells_def t)
  qed
qed

section \<open>Properties\<close>

text \<open>C7. Printing and parsing are inverse: for a decimal-text format, \<open>Parse\<close> applied to
  the text \<open>Text\<close> prints gives the coefficient back, for every coefficient in range.\<close>

theorem Parse_Text:
  assumes "fmtStorage f = ''decimalText''" "Text f (Some n) = Inr t"
  shows "Parse f (AnyString t) = Inr n"
proof -
  obtain whole fraction where s: "spells t (n < 0) whole fraction" "length fraction = nat (fmtScale f)"
    "dec_value (whole @ fraction) = nat \<bar>n\<bar>" "length t \<le> 59"
    using Text_spells [OF assms(2)] by blast
  have ck: "Check f (Some n) = Inr ()" using assms(2) by (auto simp: Text_def split: sum.splits)
  then have v: "Validate f = Inr ()" "0 \<le> fmtScale f" by (simp_all add: Check_ok Validate_ok)
  have "(if n < 0 then - int (nat \<bar>n\<bar>) else int (nat \<bar>n\<bar>)) = n" by simp
  then have "coefficient f (n < 0) whole fraction = Inr n"
    using s assms(1) v ck by (simp add: coefficient_def Let_def)
  then show ?thesis
    using parse_text_spells [OF s(1,4) assms(1)] v assms(1) by (simp add: Parse_def value_text_def)
qed

theorem Parse_Text_witness:
  "Text \<lparr>fmtStorage = ''decimalText'', fmtScale = 2, fmtDigits = 5\<rparr> (Some (- 7)) = Inr ''-0.07''
   \<and> Parse \<lparr>fmtStorage = ''decimalText'', fmtScale = 2, fmtDigits = 5\<rparr> (AnyString ''-0.07'') = Inr (- 7)"
proof -
  let ?f = "\<lparr>fmtStorage = ''decimalText'', fmtScale = 2, fmtDigits = 5\<rparr>"
  have t: "Text ?f (Some (- 7)) = Inr ''-0.07''" by code_simp
  moreover have "fmtStorage ?f = ''decimalText''" by simp
  ultimately show ?thesis using Parse_Text [of ?f "- 7" "''-0.07''"] by simp
qed

lemma units_value:
  assumes "coefficient f neg whole fraction = Inr n" "fmtStorage f = ''integerUnits''"
  shows "n = (if neg then - 1 else 1) * int (dec_value (whole @ fraction))" "\<bar>n\<bar> \<le> MaxSafeInteger"
  using assms by (auto simp: coefficient_def Let_def split: if_splits sum.splits)

lemma signed_unique:
  assumes "(if p then [x] else []) @ a = (if q then [x] else []) @ b" "x \<notin> set a" "x \<notin> set b"
  shows "p = q" "a = b"
  using assms by (cases p; cases q; auto)+

lemma spells_int_text:
  assumes "spells (int_text k) neg whole []"
  shows "(if neg then - 1 else 1) * int (dec_value whole) = k"
proof -
  have no_sign: "CHR ''-'' \<notin> set w" if "list_all is_digit w" for w
    using that by (auto simp: list_all_iff is_digit_def)
  have same: "(if neg then ''-'' else []) @ whole = (if k < 0 then ''-'' else []) @ dec_text (nat \<bar>k\<bar>)"
    and "list_all is_digit whole" using assms by (simp_all add: spells_def int_text_def abs_text_def)
  then have "CHR ''-'' \<notin> set whole" "CHR ''-'' \<notin> set (dec_text (nat \<bar>k\<bar>))" using no_sign by simp_all
  note sign = signed_unique [OF same this]
  show ?thesis unfolding sign by (cases "k < 0") simp_all
qed

text \<open>The text of a number of minor units: the number itself, without a fraction.\<close>

lemma parse_units:
  assumes "parse_text f s = Inr n" "fmtStorage f = ''integerUnits''"
  shows "\<exists>neg whole. spells s neg whole [] \<and> n = (if neg then - 1 else 1) * int (dec_value whole) \<and> \<bar>n\<bar> \<le> MaxSafeInteger"
proof -
  obtain neg whole fraction where "spells s neg whole fraction" "coefficient f neg whole fraction = Inr n" "fraction = []"
    by (rule parse_text_accepts [OF assms(1)]) (use assms(2) in simp)
  then have "spells s neg whole []" "coefficient f neg whole [] = Inr n" by simp_all
  moreover from units_value [OF this(2) assms(2)]
  have "n = (if neg then - 1 else 1) * int (dec_value whole)" "\<bar>n\<bar> \<le> MaxSafeInteger" by simp_all
  ultimately show ?thesis by blast
qed

lemma parse_int_text:
  assumes "parse_text f (int_text k) = Inr n" "fmtStorage f = ''integerUnits''"
  shows "n = k"
  using parse_units [OF assms] spells_int_text by blast

lemma float_units_exact:
  assumes "float_units x = Some k"
  shows "\<exists>m e. x = Dyadic m e \<and> k * 2 ^ nat (- e) = m * 2 ^ nat e"
proof -
  obtain m e where x: "x = Dyadic m e" using assms by (cases x) (auto simp: float_units_def)
  have "k * 2 ^ nat (- e) = m * 2 ^ nat e"
  proof (cases "0 \<le> e")
    case True
    then have "k = m * 2 ^ nat e" using assms x by (auto simp: float_units_def Let_def split: if_splits)
    then show ?thesis using True by simp
  next
    case False
    then have "2 ^ nat (- e) dvd m" "k = m div 2 ^ nat (- e)" using assms x by (auto simp: float_units_def Let_def split: if_splits)
    then show ?thesis using False by simp
  qed
  then show ?thesis using x by blast
qed

text \<open>C8. \<open>Parse\<close> never rounds, in either storage. Of decimal text it accepts a sign, a whole part and a
  fraction of at most \<open>Scale\<close> digits, and the coefficient is the exact value in units of
  \<open>10 ^ -Scale\<close>. As integer units it accepts an integer, of any of the four dynamic types, within
  the safe range, and the coefficient is that integer: of a \<open>float64\<close> its exact value. The coefficient
  has at most \<open>Digits\<close> digits.\<close>

theorem Parse_exact:
  assumes "Parse f value = Inr n"
  shows "\<bar>n\<bar> < 10 ^ nat (fmtDigits f) \<and>
    (fmtStorage f = ''decimalText'' \<and> (\<exists>s neg whole fraction. value = AnyString s \<and> spells s neg whole fraction
        \<and> int (length fraction) \<le> fmtScale f
        \<and> n = (if neg then - 1 else 1) * int (dec_value (whole @ fraction)) * 10 ^ (nat (fmtScale f) - length fraction))
     \<or> fmtStorage f = ''integerUnits'' \<and> \<bar>n\<bar> \<le> MaxSafeInteger
        \<and> ((\<exists>s neg whole. value = AnyNumber s \<and> spells s neg whole [] \<and> n = (if neg then - 1 else 1) * int (dec_value whole))
           \<or> (\<exists>m e. value = AnyFloat (Dyadic m e) \<and> n * 2 ^ nat (- e) = m * 2 ^ nat e)
           \<or> value = AnyInt n \<or> value = AnyInt64 n))"
proof -
  obtain t where t: "value_text f value = Some t" "parse_text f t = Inr n" and "Validate f = Inr ()"
    using assms by (auto simp: Parse_def split: if_splits option.splits)
  then consider "fmtStorage f = ''decimalText''" | "fmtStorage f = ''integerUnits''" by (auto simp: Validate_ok)
  then show ?thesis
  proof cases
    case 1
    obtain neg whole fraction where a: "spells t neg whole fraction" "coefficient f neg whole fraction = Inr n"
      by (rule parse_text_accepts [OF t(2)])
    have "value = AnyString t" using t(1) 1 by (cases "value") (simp_all add: value_text_def)
    moreover have "\<bar>n\<bar> < 10 ^ nat (fmtDigits f)" using Parse_checked [OF assms] by (simp add: Check_ok)
    ultimately show ?thesis using a(1) coefficient_value [OF a(2) 1] 1 by blast
  next
    case 2
    note units = parse_units [OF t(2) 2]
    have "(\<exists>s neg whole. value = AnyNumber s \<and> spells s neg whole [] \<and> n = (if neg then - 1 else 1) * int (dec_value whole))
           \<or> (\<exists>m e. value = AnyFloat (Dyadic m e) \<and> n * 2 ^ nat (- e) = m * 2 ^ nat e)
           \<or> value = AnyInt n \<or> value = AnyInt64 n"
    proof -
      consider "value = AnyNumber t" | x k where "value = AnyFloat x" "float_units x = Some k" "t = int_text k"
        | k where "value = AnyInt k" "t = int_text k" | k where "value = AnyInt64 k" "t = int_text k"
        using t(1) 2 by (cases "value") (auto simp: value_text_def)
      then show ?thesis
      proof cases
        case 1
        then show ?thesis using units by blast
      next
        case (2 x k)
        then have "n = k" using parse_int_text t(2) \<open>fmtStorage f = _\<close> by blast
        then show ?thesis using float_units_exact [OF 2(2)] 2(1) by blast
      qed (use t(2) 2 parse_int_text in blast)+
    qed
    moreover have "\<bar>n\<bar> < 10 ^ nat (fmtDigits f)" using Parse_checked [OF assms] by (simp add: Check_ok)
    ultimately show ?thesis using 2 units by blast
  qed
qed

theorem Parse_exact_witness:
  "Parse \<lparr>fmtStorage = ''decimalText'', fmtScale = 2, fmtDigits = 8\<rparr> (AnyString ''-1.5'') = Inr (- 150)
   \<and> (\<exists>neg whole fraction. spells ''-1.5'' neg whole fraction
        \<and> - 150 = (if neg then - 1 else 1) * int (dec_value (whole @ fraction)) * 10 ^ (2 - length fraction))
   \<and> Parse \<lparr>fmtStorage = ''integerUnits'', fmtScale = 2, fmtDigits = 8\<rparr> (AnyFloat (Dyadic 6 (- 1))) = Inr 3
   \<and> Parse \<lparr>fmtStorage = ''integerUnits'', fmtScale = 2, fmtDigits = 8\<rparr> (AnyFloat (Dyadic 3 (- 1))) = Inl ErrInvalid"
proof -
  let ?f = "\<lparr>fmtStorage = ''decimalText'', fmtScale = 2, fmtDigits = 8\<rparr>"
  have p: "Parse ?f (AnyString ''-1.5'') = Inr (- 150)" by code_simp
  have st: "fmtStorage ?f = ''decimalText''" "nat (fmtScale ?f) = 2" by simp_all
  have "\<exists>neg whole fraction. spells ''-1.5'' neg whole fraction
        \<and> - 150 = (if neg then - 1 else 1) * int (dec_value (whole @ fraction)) * 10 ^ (2 - length fraction)"
  proof -
    from Parse_exact [OF p] st(1) obtain s neg whole fraction where "AnyString ''-1.5'' = AnyString s" "spells s neg whole fraction"
      "- 150 = (if neg then - 1 else 1) * int (dec_value (whole @ fraction)) * 10 ^ (nat (fmtScale ?f) - length fraction)"
      by (elim conjE disjE exE) simp_all
    moreover from this(1) have "s = ''-1.5''" by simp
    ultimately show ?thesis unfolding st(2) by blast
  qed
  moreover have "Parse \<lparr>fmtStorage = ''integerUnits'', fmtScale = 2, fmtDigits = 8\<rparr> (AnyFloat (Dyadic 6 (- 1))) = Inr 3"
    "Parse \<lparr>fmtStorage = ''integerUnits'', fmtScale = 2, fmtDigits = 8\<rparr> (AnyFloat (Dyadic 3 (- 1))) = Inl ErrInvalid"
    by code_simp+
  ultimately show ?thesis using p by blast
qed

lemma Add_effect:
  "Add f (Some t) (Some v) =
     (if Validate f = Inr () \<and> \<bar>t + v\<bar> < 10 ^ nat (fmtDigits f) then (Some (t + v), Inr ())
      else (Some t, snd (Add f (Some t) (Some v))))
   \<and> (snd (Add f (Some t) (Some v)) = Inr () \<longleftrightarrow> Validate f = Inr () \<and> \<bar>t + v\<bar> < 10 ^ nat (fmtDigits f))"
  using Check_ok [of f "t + v" "()"] by (auto simp: Add_def split: sum.splits)

text \<open>C9. Adding up a list of coefficients stays exact and in range: the total left behind
  is always the exact sum of a prefix of the list; if no error is reported it is the sum of the
  whole list, and an error is reported exactly when some prefix sum leaves the range.\<close>

theorem add_all_exact:
  assumes "Check f (Some t) = Inr ()"
  shows "case add_all f (Some t) vs of (tot, r) \<Rightarrow>
    (\<exists>k \<le> length vs. tot = Some (t + sum_list (take k vs)) \<and> (r = Inr () \<longrightarrow> k = length vs))
    \<and> Check f tot = Inr ()
    \<and> (r = Inr () \<longleftrightarrow> (\<forall>k \<le> length vs. \<bar>t + sum_list (take k vs)\<bar> < 10 ^ nat (fmtDigits f)))"
  using assms
proof (induction vs arbitrary: t)
  case Nil
  then show ?case by (simp add: Check_ok)
next
  case (Cons v vs)
  have V: "Validate f = Inr ()" using Cons.prems by (simp add: Check_ok)
  have all_Suc: "(\<forall>k \<le> Suc (length vs). P k) \<longleftrightarrow> P 0 \<and> (\<forall>k \<le> length vs. P (Suc k))" for P
    by (simp add: less_Suc_eq_le [symmetric] All_less_Suc2)
  show ?case
  proof (cases "\<bar>t + v\<bar> < 10 ^ nat (fmtDigits f)")
    case True
    then have step: "add_all f (Some t) (v # vs) = add_all f (Some (t + v)) vs"
      using Add_effect [of f t v] V by simp
    have "Check f (Some (t + v)) = Inr ()" using True V by (simp add: Check_ok)
    note IH = Cons.IH [OF this]
    obtain tot r where res: "add_all f (Some (t + v)) vs = (tot, r)" by (cases "add_all f (Some (t + v)) vs")
    from IH obtain k where k: "k \<le> length vs" "tot = Some (t + v + sum_list (take k vs))"
        "r = Inr () \<longrightarrow> k = length vs" by (auto simp: res)
    have "\<exists>k \<le> length (v # vs). tot = Some (t + sum_list (take k (v # vs))) \<and> (r = Inr () \<longrightarrow> k = length (v # vs))"
      using k by (intro exI [of _ "Suc k"]) (simp add: algebra_simps)
    moreover have "\<bar>t\<bar> < 10 ^ nat (fmtDigits f)" using Cons.prems by (simp add: Check_ok)
    ultimately show ?thesis
      using IH unfolding step res by (simp add: all_Suc algebra_simps)
  next
    case False
    obtain e where "add_all f (Some t) (v # vs) = (Some t, Inl e)"
      using Add_effect [of f t v] False by (cases "snd (Add f (Some t) (Some v))") auto
    then show ?thesis using Cons.prems False by (auto simp: all_Suc intro: exI [of _ 0] exI [of _ "Suc 0"])
  qed
qed

theorem add_all_exact_witness:
  "add_all \<lparr>fmtStorage = ''decimalText'', fmtScale = 0, fmtDigits = 2\<rparr> (Some 0) [60, 39, 1, 5]
     = (Some 99, Inl ErrOverflow) \<and> Check \<lparr>fmtStorage = ''decimalText'', fmtScale = 0, fmtDigits = 2\<rparr> (Some 99) = Inr ()"
proof -
  let ?f = "\<lparr>fmtStorage = ''decimalText'', fmtScale = 0, fmtDigits = 2\<rparr>"
  have a: "add_all ?f (Some 0) [60, 39, 1, 5] = (Some 99, Inl ErrOverflow)" by code_simp
  have "Check ?f (Some 0) = Inr ()" by code_simp
  from add_all_exact [OF this, of "[60, 39, 1, 5]"] a show ?thesis by simp
qed

end
