(* ===== verification/Auto_Number.thy ===== *)
theory Auto_Number
  imports VT_Prelude
begin

text \<open>
  Automatic numbers: the text format of a number (\<open>sidecar/internal/schema/v2/auto_number.go\<close>)
  and the allocator with its persisted high-water mark
  (\<open>sidecar/internal/autonumber/state.go\<close>).

  The only part of an instant that reaches a number is its UTC calendar date, so \<open>time.Time\<close>
  is modelled by that date (\<open>civil\<close>). Sequences are \<open>int64\<close> in the code; they are checked
  against \<open>MaxAutoNumber\<close> before they grow, so they are modelled by \<^typ>\<open>int\<close>. A business
  table is the list of its record identifiers with the stored number; saving a record is
  PocketBase's and is a parameter, \<open>save\<close>.
\<close>

section \<open>Go library functions\<close>

definition go_slice :: "string \<Rightarrow> nat \<Rightarrow> nat \<Rightarrow> string result" where
  "go_slice s i j = (if i \<le> j \<and> j \<le> length s then Inr (take (j - i) (drop i s))
     else Inl (Err ''panic: slice bounds out of range''))"

text \<open>The number of runes of a valid UTF-8 text; \<^const>\<open>None\<close> when it is not valid.\<close>

definition tail_byte :: "nat \<Rightarrow> bool" where
  "tail_byte b \<longleftrightarrow> 128 \<le> b \<and> b \<le> 191"

fun rune_count :: "nat list \<Rightarrow> nat option" where
  "rune_count [] = Some 0"
| "rune_count (a # bs) =
     (if a < 128 then map_option Suc (rune_count bs)
      else case bs of [] \<Rightarrow> None
      | b # cs \<Rightarrow>
          if 194 \<le> a \<and> a \<le> 223 \<and> tail_byte b then map_option Suc (rune_count cs)
          else case cs of [] \<Rightarrow> None
          | c # ds \<Rightarrow>
              if (a = 224 \<and> 160 \<le> b \<and> b \<le> 191 \<or> 225 \<le> a \<and> a \<le> 236 \<and> tail_byte b
                  \<or> a = 237 \<and> 128 \<le> b \<and> b \<le> 159 \<or> 238 \<le> a \<and> a \<le> 239 \<and> tail_byte b)
                 \<and> tail_byte c then map_option Suc (rune_count ds)
              else case ds of [] \<Rightarrow> None
              | d # es \<Rightarrow>
                  if (a = 240 \<and> 144 \<le> b \<and> b \<le> 191 \<or> 241 \<le> a \<and> a \<le> 243 \<and> tail_byte b
                      \<or> a = 244 \<and> 128 \<le> b \<and> b \<le> 143)
                     \<and> tail_byte c \<and> tail_byte d then map_option Suc (rune_count es)
                  else None)"

text \<open>Calendar dates and the layout \<open>20060102\<close>.\<close>

record civil =
  cvYear :: int
  cvMonth :: nat
  cvDay :: nat

definition zero_date :: civil where
  "zero_date = \<lparr>cvYear = 1, cvMonth = 1, cvDay = 1\<rparr>"

definition leap_year :: "int \<Rightarrow> bool" where
  "leap_year y \<longleftrightarrow> 4 dvd y \<and> (\<not> 100 dvd y \<or> 400 dvd y)"

definition days_in :: "nat \<Rightarrow> int \<Rightarrow> nat" where
  "days_in m y = (if m = 2 then (if leap_year y then 29 else 28)
     else if m = 4 \<or> m = 6 \<or> m = 9 \<or> m = 11 then 30 else 31)"

definition civil_ok :: "civil \<Rightarrow> bool" where
  "civil_ok d \<longleftrightarrow> 0 \<le> cvYear d \<and> cvYear d \<le> 9999 \<and> 1 \<le> cvMonth d \<and> cvMonth d \<le> 12
     \<and> 1 \<le> cvDay d \<and> cvDay d \<le> days_in (cvMonth d) (cvYear d)"

definition format_yyyymmdd :: "civil \<Rightarrow> string" where
  "format_yyyymmdd d = (if cvYear d < 0 then ''-'' else []) @ pad_zeros 4 (dec_text (nat \<bar>cvYear d\<bar>))
     @ pad_zeros 2 (dec_text (cvMonth d)) @ pad_zeros 2 (dec_text (cvDay d))"

definition parse_yyyymmdd :: "string \<Rightarrow> civil option" where
  "parse_yyyymmdd s =
     (if length s = 8 \<and> list_all is_digit s
      then let d = \<lparr>cvYear = int (dec_value (take 4 s)), cvMonth = dec_value (take 2 (drop 4 s)),
                    cvDay = dec_value (drop 6 s)\<rparr>
           in if civil_ok d then Some d else None
      else None)"

section \<open>The number format\<close>

definition MaxAutoNumber :: int where "MaxAutoNumber = 2 ^ 53 - 1"

definition AutoNumberDateFormat :: string where "AutoNumberDateFormat = ''yyyyMMdd''"

definition AutoNumberOrderTokens :: "string list" where
  "AutoNumberOrderTokens = [''prefix'', ''date'', ''number'']"

record auto_number_spec =
  anPrefix :: string
  anStart :: int
  anWidth :: int
  anDateFormat :: string
  anOrder :: "string list"

definition invalid :: "string \<Rightarrow> string \<Rightarrow> go_error" where
  "invalid path message = Wrap (''field.contract.invalid '' @ path) (Err message)"

definition order_invalid :: go_error where
  "order_invalid = invalid ''autoNumber.order''
     ''order must contain each of prefix, date and number exactly once''"

fun order_loop :: "string list \<Rightarrow> string list \<Rightarrow> unit result" where
  "order_loop seen [] = Inr ()"
| "order_loop seen (t # ts) =
     (if t \<notin> set AutoNumberOrderTokens then Inl order_invalid
      else if t \<in> set seen then Inl order_invalid
      else order_loop (t # seen) ts)"

definition ValidateAutoNumberOrder :: "string list \<Rightarrow> unit result" where
  "ValidateAutoNumberOrder order =
     (if order = [] then Inr ()
      else if length order \<noteq> length AutoNumberOrderTokens then Inl order_invalid
      else order_loop [] order)"

definition prefix_ok :: "string \<Rightarrow> bool" where
  "prefix_ok p \<longleftrightarrow>
     (case rune_count (byte_values p) of None \<Rightarrow> False | Some n \<Rightarrow> n \<le> 64)
     \<and> list_all (\<lambda>c. c \<noteq> CHR 0x00 \<and> c \<noteq> CHR 0x0D \<and> c \<noteq> CHR 0x0A) p"

definition ValidateAutoNumberSpec :: "auto_number_spec option \<Rightarrow> unit result" where
  "ValidateAutoNumberSpec spec = (case spec of
     None \<Rightarrow> Inl (invalid ''autoNumber'' ''numbering settings are required'')
   | Some s \<Rightarrow>
       if \<not> prefix_ok (anPrefix s)
       then Inl (invalid ''autoNumber.prefix''
              ''prefix must contain at most 64 characters without NUL or line breaks'')
       else if anStart s < 1 \<or> anStart s > MaxAutoNumber
       then Inl (invalid ''autoNumber.start'' ''start must be a positive safe integer'')
       else if anWidth s < 1 \<or> anWidth s > 16
       then Inl (invalid ''autoNumber.width'' ''minimum width must be between 1 and 16'')
       else if anDateFormat s \<noteq> [] \<and> anDateFormat s \<noteq> AutoNumberDateFormat
       then Inl (invalid ''autoNumber.dateFormat'' ''dateFormat must be yyyyMMdd'')
       else ValidateAutoNumberOrder (anOrder s))"

definition orderTokens :: "auto_number_spec \<Rightarrow> string list" where
  "orderTokens s = (if length (anOrder s) = length AutoNumberOrderTokens then anOrder s
     else AutoNumberOrderTokens)"

definition AutoNumberDateEnabled :: "auto_number_spec \<Rightarrow> bool" where
  "AutoNumberDateEnabled s \<longleftrightarrow> anDateFormat s = AutoNumberDateFormat"

definition AutoNumberDateText :: "auto_number_spec \<Rightarrow> civil \<Rightarrow> string" where
  "AutoNumberDateText s createdAt =
     (if AutoNumberDateEnabled s then format_yyyymmdd createdAt else [])"

definition segment :: "auto_number_spec \<Rightarrow> string \<Rightarrow> string \<Rightarrow> string \<Rightarrow> string" where
  "segment s number date tok =
     (if tok = ''prefix'' then anPrefix s else if tok = ''date'' then date
      else if tok = ''number'' then number else [])"

definition AutoNumberValue :: "auto_number_spec \<Rightarrow> int \<Rightarrow> civil \<Rightarrow> string" where
  "AutoNumberValue s sequence createdAt =
     concat (map (segment s (sprintf_0d (anWidth s) sequence) (AutoNumberDateText s createdAt))
       (orderTokens s))"

definition date_length :: "auto_number_spec \<Rightarrow> nat" where
  "date_length s = (if AutoNumberDateEnabled s then 8 else 0)"

definition ErrNumberFormat :: go_error where
  "ErrNumberFormat = Err ''number is outside its fixed format or range''"

text \<open>The first pass of \<open>ParseAutoNumberValue\<close>: locate the segments.\<close>

fun locate :: "auto_number_spec \<Rightarrow> string \<Rightarrow> nat \<Rightarrow> nat \<Rightarrow> civil \<Rightarrow> string \<Rightarrow> string list
  \<Rightarrow> (civil \<times> string) result" where
  "locate s value n consumed date number [] = Inr (date, number)"
| "locate s value n consumed date number (t # ts) =
     (if t = ''prefix''
      then (case go_slice value consumed (length value) of Inl e \<Rightarrow> Inl e
            | Inr rest \<Rightarrow>
                if take (length (anPrefix s)) rest \<noteq> anPrefix s
                then Inl (Err ''number prefix does not match'')
                else locate s value n (consumed + length (anPrefix s)) date number ts)
      else if t = ''date''
      then (if \<not> AutoNumberDateEnabled s then locate s value n consumed date number ts
            else (case go_slice value consumed (consumed + date_length s) of Inl e \<Rightarrow> Inl e
                  | Inr part \<Rightarrow>
                      (case parse_yyyymmdd part of
                         None \<Rightarrow> Inl (Err ''number date segment is not a legal date'')
                       | Some d \<Rightarrow> locate s value n (consumed + date_length s) d number ts)))
      else if t = ''number''
      then (case go_slice value consumed (consumed + n) of Inl e \<Rightarrow> Inl e
            | Inr part \<Rightarrow> locate s value n (consumed + n) date part ts)
      else locate s value n consumed date number ts)"

definition ParseAutoNumberValue :: "auto_number_spec \<Rightarrow> string \<Rightarrow> int result" where
  "ParseAutoNumberValue s value =
     (let fixed = length (anPrefix s) + date_length s
      in if length value \<le> fixed then Inl ErrNumberFormat
         else (case locate s value (length value - fixed) 0 zero_date [] (orderTokens s) of
                 Inl e \<Rightarrow> Inl e
               | Inr (date, number) \<Rightarrow>
                   (case parse_int64 number of None \<Rightarrow> Inl ErrNumberFormat
                    | Some sequence \<Rightarrow>
                        if sequence < anStart s \<or> sequence > MaxAutoNumber
                           \<or> AutoNumberValue s sequence date \<noteq> value
                        then Inl ErrNumberFormat else Inr sequence)))"

fun segment_at :: "auto_number_spec \<Rightarrow> string \<Rightarrow> int \<Rightarrow> string list \<Rightarrow> string result" where
  "segment_at s value consumed [] = Inr []"
| "segment_at s value consumed (t # ts) =
     (if t = ''prefix'' then segment_at s value (consumed + int (length (anPrefix s))) ts
      else if t = ''date''
      then (if consumed < 0 then Inl (Err ''panic: slice bounds out of range'')
            else go_slice value (nat consumed) (nat consumed + date_length s))
      else if t = ''number''
      then segment_at s value
             (consumed + (int (length value) - int (length (anPrefix s)) - int (date_length s))) ts
      else segment_at s value consumed ts)"

definition AutoNumberDateSegment :: "auto_number_spec \<Rightarrow> string \<Rightarrow> string result" where
  "AutoNumberDateSegment s value =
     (if \<not> AutoNumberDateEnabled s then Inr [] else segment_at s value 0 (orderTokens s))"


section \<open>The allocator\<close>

text \<open>\<open>DecodeState\<close> after \<open>StrictDecode\<close>, whose result is the first argument.\<close>

definition DecodeState :: "int option result \<Rightarrow> auto_number_spec \<Rightarrow> int result" where
  "DecodeState decoded s = (case decoded of
     Inl e \<Rightarrow> Inl (Wrap ''auto_number.state_invalid'' e)
   | Inr hw \<Rightarrow>
       (case hw of None \<Rightarrow> Inl (Err ''auto_number.state_invalid: highWater is missing or outside the safe range'')
        | Some h \<Rightarrow>
            if h < anStart s - 1 \<or> h > MaxAutoNumber
            then Inl (Err ''auto_number.state_invalid: highWater is missing or outside the safe range'')
            else Inr h))"

record number_field =
  nfFieldID :: string
  nfPhysicalName :: string
  nfSpec :: auto_number_spec
  nfHighWater :: int
  nfDirty :: bool

text \<open>\<open>Assign\<close> on a record whose text fields are \<open>textFields\<close>: the field after the call and the
  value it sets.\<close>

definition Assign :: "string list \<Rightarrow> civil \<Rightarrow> number_field \<Rightarrow> (number_field \<times> string) result" where
  "Assign textFields createdAt fld =
     (if nfPhysicalName fld \<notin> set textFields
      then Inl (Err ''auto_number.state_invalid: physical text field is missing'')
      else if nfHighWater fld \<ge> MaxAutoNumber
      then Inl (Err ''auto_number.exhausted: no safe sequence remains'')
      else let h = nfHighWater fld + 1
           in Inr (fld\<lparr>nfHighWater := h, nfDirty := True\<rparr>, AutoNumberValue (nfSpec fld) h createdAt))"

record audit_event =
  aeTable :: string
  aeRecord :: string
  aeOperation :: string
  aeRevision :: int
  aeSequence :: int
  aeOccurredAt :: "civil option"

text \<open>\<open>CreationTimes\<close>: per record the latest insert event in ledger order. An instant that does
  not parse or is zero (\<^const>\<open>None\<close>) contributes nothing.\<close>

definition newer :: "audit_event \<Rightarrow> audit_event \<Rightarrow> bool" where
  "newer a b \<longleftrightarrow> aeRevision a > aeRevision b \<or> aeRevision a = aeRevision b \<and> aeSequence a > aeSequence b"

definition latest :: "audit_event list \<Rightarrow> audit_event option" where
  "latest es = fold (\<lambda>e best. case best of None \<Rightarrow> Some e | Some b \<Rightarrow> if newer e b then Some e else Some b)
     es None"

definition CreationTimes :: "string \<Rightarrow> audit_event list \<Rightarrow> string \<Rightarrow> civil option" where
  "CreationTimes tableID ledger recordID =
     Option.bind (latest (filter (\<lambda>e. aeTable e = tableID \<and> aeOperation e = ''insert''
        \<and> aeRecord e = recordID) ledger)) aeOccurredAt"

text \<open>\<open>Save\<close>: the persisted high-water marks, by field; \<open>fault\<close> is what saving the metadata of a
  field reports.\<close>

fun Save :: "(string \<Rightarrow> go_error option) \<Rightarrow> number_field list \<Rightarrow> (string \<rightharpoonup> int) \<Rightarrow> (string \<rightharpoonup> int) result" where
  "Save fault [] db = Inr db"
| "Save fault (f # fs) db =
     (if \<not> nfDirty f then Save fault fs db
      else case fault (nfFieldID f) of Some e \<Rightarrow> Inl e
      | None \<Rightarrow> Save fault fs (db(nfFieldID f \<mapsto> nfHighWater f)))"

section \<open>Reformatting and backfilling a table\<close>

type_synonym number_table = "(string \<times> string) list"

record rewrite =
  rwRecord :: string
  rwBefore :: string
  rwValue :: string

definition no_creation :: "string \<Rightarrow> go_error" where
  "no_creation recordID = Err (''auto_number.reformat_invalid: '' @ recordID @ '': record has no creation audit envelope'')"

text \<open>The instant a record's date segment is made from: the zero time when dates are off.\<close>

definition creation_of :: "(string \<Rightarrow> civil option) option \<Rightarrow> string \<Rightarrow> civil result" where
  "creation_of creations recordID = (case creations of None \<Rightarrow> Inr zero_date
   | Some m \<Rightarrow> (case m recordID of None \<Rightarrow> Inl (no_creation recordID) | Some d \<Rightarrow> Inr d))"

text \<open>The first loop of \<open>Reformat\<close>: \<open>final\<close> and \<open>existing\<close> are the two value sets. \<open>ctx\<close> is
  what the context reports when the loop reaches a record.\<close>

fun reformat_scan :: "(string \<Rightarrow> go_error option) \<Rightarrow> auto_number_spec \<Rightarrow> auto_number_spec
  \<Rightarrow> (string \<Rightarrow> civil option) option \<Rightarrow> string list \<Rightarrow> string list \<Rightarrow> rewrite list \<Rightarrow> number_table
  \<Rightarrow> (string list \<times> string list \<times> rewrite list) result" where
  "reformat_scan ctx before after creations final existing acc [] = Inr (final, existing, acc)"
| "reformat_scan ctx before after creations final existing acc ((r, stored) # rs) =
     (case ctx r of Some e \<Rightarrow> Inl e
      | None \<Rightarrow>
     (case ParseAutoNumberValue before stored of
        Inl e \<Rightarrow> Inl (Wrap (''auto_number.reformat_invalid: '' @ r) e)
      | Inr sequence \<Rightarrow>
     (case creation_of creations r of Inl e \<Rightarrow> Inl e
      | Inr d \<Rightarrow>
          let value = AutoNumberValue after sequence d
          in if value \<in> set final then Inl (Err (''auto_number.reformat_conflict: '' @ value))
             else reformat_scan ctx before after creations (final @ [value]) (existing @ [stored])
                    (if value \<noteq> stored
                     then acc @ [\<lparr>rwRecord = r, rwBefore = stored, rwValue = value\<rparr>] else acc) rs)))"

text \<open>The inner loop of \<open>parkReformatValues\<close>; \<open>n\<close> counts the growth steps left, from 128.\<close>

fun park_candidate :: "nat \<Rightarrow> string list \<Rightarrow> string \<Rightarrow> string \<Rightarrow> string \<times> string" where
  "park_candidate 0 taken r marker =
     (if marker @ r \<notin> set taken then (marker, marker @ r) else (marker, r))"
| "park_candidate (Suc n) taken r marker =
     (if marker @ r \<notin> set taken then (marker, marker @ r)
      else park_candidate n taken r (marker @ ''x''))"

fun park_all :: "string list \<Rightarrow> string \<Rightarrow> string list \<Rightarrow> (string \<times> string) list" where
  "park_all taken marker [] = []"
| "park_all taken marker (r # rs) =
     (case park_candidate 128 taken r marker of
        (marker', candidate) \<Rightarrow> (r, candidate) # park_all taken marker' rs)"

definition parkReformatValues :: "rewrite list \<Rightarrow> string list \<Rightarrow> string list \<Rightarrow> (string \<times> string) list" where
  "parkReformatValues rewrites final existing =
     park_all (final @ existing) ''vtrefmt'' (map rwRecord rewrites)"

type_synonym save_record = "string \<Rightarrow> string \<Rightarrow> number_table \<Rightarrow> number_table result"

text \<open>One saving loop; \<open>wrap\<close> is how it reports a failed save.\<close>

fun save_all :: "(string \<Rightarrow> go_error option) \<Rightarrow> (go_error \<Rightarrow> go_error) \<Rightarrow> save_record
  \<Rightarrow> (string \<times> string) list \<Rightarrow> number_table \<Rightarrow> number_table result" where
  "save_all ctx wrap save [] tbl = Inr tbl"
| "save_all ctx wrap save ((r, v) # rvs) tbl =
     (case ctx r of Some e \<Rightarrow> Inl e
      | None \<Rightarrow>
     (case save r v tbl of Inl e \<Rightarrow> Inl (wrap e) | Inr tbl' \<Rightarrow> save_all ctx wrap save rvs tbl'))"

record reformat_ctx =
  rxScan :: "string \<Rightarrow> go_error option"
  rxPark :: "string \<Rightarrow> go_error option"
  rxWrite :: "string \<Rightarrow> go_error option"

definition Reformat :: "reformat_ctx \<Rightarrow> save_record \<Rightarrow> string \<Rightarrow> audit_event list
  \<Rightarrow> string \<times> auto_number_spec option \<Rightarrow> string \<times> auto_number_spec option \<Rightarrow> number_table
  \<Rightarrow> (number_table \<times> rewrite list) result" where
  "Reformat ctx save tableID ledger before after tbl =
     (case (before, after) of
        ((bn, Some b), (an, Some a)) \<Rightarrow>
          if bn \<noteq> an then Inl (Err ''auto_number.state_invalid: reformat requires one stable physical field'')
          else
            let creations = (if AutoNumberDateEnabled a then Some (CreationTimes tableID ledger) else None)
            in (case reformat_scan (rxScan ctx) b a creations [] [] [] tbl of Inl e \<Rightarrow> Inl e
                | Inr (final, existing, rewrites) \<Rightarrow>
                    if rewrites = [] then Inr (tbl, [])
                    else (case save_all (rxPark ctx) (Wrap ''auto_number.reformat_parking_failed'') save
                                  (parkReformatValues rewrites final existing) tbl of
                            Inl e \<Rightarrow> Inl e
                          | Inr parked \<Rightarrow>
                              (case save_all (rxWrite ctx) (\<lambda>e. e) save
                                      (map (\<lambda>p. (rwRecord p, rwValue p)) rewrites) parked of
                                 Inl e \<Rightarrow> Inl e
                               | Inr tbl' \<Rightarrow> Inr (tbl', rewrites))))
      | _ \<Rightarrow> Inl (Err ''auto_number.state_invalid: reformat requires one stable physical field''))"

fun backfill_loop :: "(string \<Rightarrow> go_error option) \<Rightarrow> save_record \<Rightarrow> string list
  \<Rightarrow> (string \<Rightarrow> civil option) option \<Rightarrow> string list \<Rightarrow> number_field \<Rightarrow> number_table
  \<Rightarrow> (number_field \<times> number_table) result" where
  "backfill_loop ctx save textFields creations [] fld tbl = Inr (fld, tbl)"
| "backfill_loop ctx save textFields creations (r # rs) fld tbl =
     (case ctx r of Some e \<Rightarrow> Inl e
      | None \<Rightarrow>
     (case creation_of creations r of Inl e \<Rightarrow> Inl e
      | Inr d \<Rightarrow>
     (case Assign textFields d fld of Inl e \<Rightarrow> Inl e
      | Inr (fld', v) \<Rightarrow>
     (case save r v tbl of Inl e \<Rightarrow> Inl e
      | Inr tbl' \<Rightarrow> backfill_loop ctx save textFields creations rs fld' tbl'))))"

definition Backfill :: "(string \<Rightarrow> go_error option) \<Rightarrow> save_record \<Rightarrow> (string \<Rightarrow> go_error option)
  \<Rightarrow> string list \<Rightarrow> string \<Rightarrow> audit_event list \<Rightarrow> number_field \<Rightarrow> number_table \<Rightarrow> (string \<rightharpoonup> int)
  \<Rightarrow> (number_table \<times> (string \<rightharpoonup> int)) result" where
  "Backfill ctx save fault textFields tableID ledger definition tbl db =
     (let fld = definition\<lparr>nfHighWater := anStart (nfSpec definition) - 1, nfDirty := True\<rparr>
      in if int (length tbl) > MaxAutoNumber - nfHighWater fld
         then Inl (Err ''auto_number.exhausted: backfill exceeds safe sequence'')
         else
           let creations = (if AutoNumberDateEnabled (nfSpec definition)
                            then Some (CreationTimes tableID ledger) else None)
           in (case backfill_loop ctx save textFields creations (map fst tbl) fld tbl of Inl e \<Rightarrow> Inl e
               | Inr (fld', tbl') \<Rightarrow>
                   (case Save fault [fld'] db of Inl e \<Rightarrow> Inl e | Inr db' \<Rightarrow> Inr (tbl', db'))))"

section \<open>Round trips of the segments\<close>

lemma go_slice_mid [simp]:
  "go_slice (pre @ x @ post) (length pre) (length pre + length x) = Inr x"
  "go_slice (pre @ x) (length pre) (length pre + length x) = Inr x"
  by (simp_all add: go_slice_def)

lemma format_date:
  assumes "civil_ok d"
  shows "length (format_yyyymmdd d) = 8" "parse_yyyymmdd (format_yyyymmdd d) = Some d"
proof -
  have b: "0 \<le> cvYear d" "cvYear d \<le> 9999" "cvMonth d \<le> 12" "cvDay d \<le> 31"
    using assms by (auto simp: civil_ok_def days_in_def split: if_splits)
  let ?y = "pad_zeros 4 (dec_text (nat (cvYear d)))" and ?m = "pad_zeros 2 (dec_text (cvMonth d))"
    and ?d = "pad_zeros 2 (dec_text (cvDay d))"
  have f: "format_yyyymmdd d = ?y @ ?m @ ?d" using b by (simp add: format_yyyymmdd_def)
  have "length (dec_text (nat (cvYear d))) \<le> 4" "length (dec_text (cvMonth d)) \<le> 2"
    "length (dec_text (cvDay d)) \<le> 2"
    using b by (simp_all add: length_dec_text_le)
  then have len: "length ?y = 4" "length ?m = 2" "length ?d = 2" by (simp_all add: max_def)
  then show "length (format_yyyymmdd d) = 8" by (simp add: f)
  have "take 4 (format_yyyymmdd d) = ?y" "take 2 (drop 4 (format_yyyymmdd d)) = ?m"
    "drop 6 (format_yyyymmdd d) = ?d" using len by (simp_all add: f)
  moreover have "civil_ok \<lparr>cvYear = cvYear d, cvMonth = cvMonth d, cvDay = cvDay d\<rparr>"
    using assms by (simp add: civil_ok_def)
  ultimately show "parse_yyyymmdd (format_yyyymmdd d) = Some d"
    using assms b len by (simp add: parse_yyyymmdd_def f pad_zeros_digits Let_def)
qed

lemma sprintf_number:
  assumes "0 \<le> n" "n \<le> MaxAutoNumber" "1 \<le> w" "w \<le> 16"
  shows "parse_int64 (sprintf_0d w n) = Some n" "sprintf_0d w n \<noteq> []"
proof -
  have s: "sprintf_0d w n = pad_zeros (nat w) (dec_text (nat n))" using assms by (simp add: sprintf_0d_def)
  show "parse_int64 (sprintf_0d w n) = Some n"
    using assms by (simp add: s parse_int64_digits MaxAutoNumber_def)
  show "sprintf_0d w n \<noteq> []" using s by simp
qed

section \<open>Round trip of a number\<close>

lemma order_loop_ok: "order_loop seen ts = Inr u \<longleftrightarrow>
    set ts \<subseteq> set AutoNumberOrderTokens \<and> distinct ts \<and> set ts \<inter> set seen = {}"
  by (induction seen ts rule: order_loop.induct) auto

lemma valid_order:
  assumes "ValidateAutoNumberSpec (Some s) = Inr ()"
  shows "distinct (orderTokens s)" "set (orderTokens s) = {''prefix'', ''date'', ''number''}"
    "length (orderTokens s) = 3"
proof -
  have v: "ValidateAutoNumberOrder (anOrder s) = Inr ()"
    using assms by (auto simp: ValidateAutoNumberSpec_def split: if_splits)
  have len: "length (orderTokens s) = 3" and tok: "distinct (orderTokens s)"
      "set (orderTokens s) \<subseteq> set AutoNumberOrderTokens"
    using v by (auto simp: orderTokens_def ValidateAutoNumberOrder_def order_loop_ok
        AutoNumberOrderTokens_def split: if_splits)
  then show "length (orderTokens s) = 3" "distinct (orderTokens s)" by simp_all
  have "card (set (orderTokens s)) = 3" using tok len by (simp add: distinct_card)
  then have "set (orderTokens s) = set AutoNumberOrderTokens"
    using tok by (intro card_subset_eq) (simp_all add: AutoNumberOrderTokens_def)
  then show "set (orderTokens s) = {''prefix'', ''date'', ''number''}"
    by (simp add: AutoNumberOrderTokens_def)
qed

lemma valid_ranges:
  assumes "ValidateAutoNumberSpec (Some s) = Inr ()"
  shows "1 \<le> anStart s" "1 \<le> anWidth s" "anWidth s \<le> 16"
  using assms by (auto simp: ValidateAutoNumberSpec_def split: if_splits)

lemma length_concat_perm:
  assumes "distinct ts" "set ts = {a, b, c}" "a \<noteq> b" "a \<noteq> c" "b \<noteq> c"
  shows "length (concat (map f ts)) = length (f a) + length (f b) + length (f c)"
proof -
  have "length (concat (map f ts)) = (\<Sum>t \<in> set ts. length (f t))"
    using assms(1) by (simp add: length_concat o_def sum_list_distinct_conv_sum_set)
  then show ?thesis using assms by simp
qed

lemma AutoNumberValue_length:
  assumes "ValidateAutoNumberSpec (Some s) = Inr ()"
  shows "length (AutoNumberValue s n d) =
    length (anPrefix s) + length (AutoNumberDateText s d) + length (sprintf_0d (anWidth s) n)"
  unfolding AutoNumberValue_def
  by (subst length_concat_perm [OF valid_order(1,2) [OF assms]]) (simp_all add: segment_def)

lemma locate_segments:
  assumes "AutoNumberDateEnabled s \<longrightarrow> civil_ok d"
    and "value = pre @ concat (map (segment s num (AutoNumberDateText s d)) ts)"
    and "set ts \<subseteq> {''prefix'', ''date'', ''number''}"
  shows "locate s value (length num) (length pre) d0 n0 ts =
    Inr (if ''date'' \<in> set ts \<and> AutoNumberDateEnabled s then d else d0,
         if ''number'' \<in> set ts then num else n0)"
  using assms(2,3)
proof (induction ts arbitrary: pre d0 n0)
  case Nil
  then show ?case by simp
next
  case (Cons t ts)
  let ?seg = "segment s num (AutoNumberDateText s d)" and ?rest = "concat (map (segment s num (AutoNumberDateText s d)) ts)"
  have v: "value = pre @ ?seg t @ ?rest" and sub: "set ts \<subseteq> {''prefix'', ''date'', ''number''}"
    using Cons.prems by simp_all
  have v2: "value = (pre @ ?seg t) @ ?rest" using v by simp
  note IH = Cons.IH [OF v2 sub]
  consider "t = ''prefix''" | "t = ''date''" "AutoNumberDateEnabled s"
    | "t = ''date''" "\<not> AutoNumberDateEnabled s" | "t = ''number''"
    using Cons.prems(2) by auto
  then show ?case
  proof cases
    case 1
    have "go_slice value (length pre) (length value) = Inr (anPrefix s @ ?rest)"
      using v 1 by (simp add: go_slice_def segment_def)
    then show ?thesis using IH 1 by (simp add: segment_def)
  next
    case 2
    then have ok: "civil_ok d" using assms(1) by simp
    have dt: "?seg t = format_yyyymmdd d" using 2 by (simp add: segment_def AutoNumberDateText_def)
    have "go_slice value (length pre) (length pre + date_length s) = Inr (format_yyyymmdd d)"
      using go_slice_mid(1) [of pre "format_yyyymmdd d" ?rest] v dt 2 format_date [OF ok]
      by (simp add: date_length_def)
    then show ?thesis using IH 2 dt format_date [OF ok] by (simp add: date_length_def)
  next
    case 3
    then show ?thesis using IH by (simp add: segment_def AutoNumberDateText_def)
  next
    case 4
    then have "go_slice value (length pre) (length pre + length num) = Inr num"
      using go_slice_mid(1) [of pre num ?rest] v by (simp add: segment_def)
    then show ?thesis using IH 4 by (simp add: segment_def)
  qed
qed

lemma AutoNumberValue_date_irrelevant:
  "\<not> AutoNumberDateEnabled s \<Longrightarrow> AutoNumberValue s n d = AutoNumberValue s n d'"
  by (simp add: AutoNumberValue_def AutoNumberDateText_def)

lemma parse_of_value:
  assumes "ValidateAutoNumberSpec (Some s) = Inr ()" "anStart s \<le> n" "n \<le> MaxAutoNumber"
    and "AutoNumberDateEnabled s \<longrightarrow> civil_ok d"
  shows "ParseAutoNumberValue s (AutoNumberValue s n d) = Inr n"
proof -
  let ?v = "AutoNumberValue s n d" and ?num = "sprintf_0d (anWidth s) n"
  note r = valid_ranges [OF assms(1)] and o = valid_order [OF assms(1)]
  have num: "parse_int64 ?num = Some n" "?num \<noteq> []" using sprintf_number [of n "anWidth s"] r assms by simp_all
  have dl: "length (AutoNumberDateText s d) = date_length s"
    using assms(4) format_date(1) by (simp add: AutoNumberDateText_def date_length_def)
  then have len: "length ?v = length (anPrefix s) + date_length s + length ?num"
    using AutoNumberValue_length [OF assms(1)] by simp
  define d1 where "d1 = (if AutoNumberDateEnabled s then d else zero_date)"
  have "locate s ?v (length ?num) (length ([]::string)) zero_date [] (orderTokens s) = Inr (d1, ?num)"
    using locate_segments [OF assms(4), of ?v "[]" ?num "orderTokens s" zero_date "[]"] o(2)
    by (simp add: AutoNumberValue_def d1_def)
  moreover have "AutoNumberValue s n d1 = ?v"
    using AutoNumberValue_date_irrelevant [of s n] by (simp add: d1_def)
  ultimately show ?thesis using num len assms(2,3) by (simp add: ParseAutoNumberValue_def Let_def)
qed

lemma value_inject:
  assumes "ValidateAutoNumberSpec (Some s) = Inr ()" "anStart s \<le> m" "m \<le> MaxAutoNumber"
    "anStart s \<le> n" "n \<le> MaxAutoNumber" "AutoNumberDateEnabled s \<longrightarrow> civil_ok d \<and> civil_ok e"
    "AutoNumberValue s m d = AutoNumberValue s n e"
  shows "m = n"
  using parse_of_value [of s m d] parse_of_value [of s n e] assms by simp

lemma parse_accepts:
  assumes "ParseAutoNumberValue s v = Inr n"
  shows "anStart s \<le> n" "n \<le> MaxAutoNumber" "\<exists>d. v = AutoNumberValue s n d"
  using assms by (auto simp: ParseAutoNumberValue_def Let_def split: if_splits sum.splits option.splits)

section \<open>Parking\<close>

lemma park_candidate_marker:
  "park_candidate n taken r marker = (m', c) \<Longrightarrow> \<exists>k. m' = marker @ replicate k (CHR ''x'')"
proof (induction n arbitrary: marker)
  case 0
  then have "m' = marker @ replicate 0 (CHR ''x'')" by (auto split: if_splits)
  then show ?case by (rule exI)
next
  case (Suc n)
  show ?case
  proof (cases "marker @ r \<in> set taken")
    case True
    then have "park_candidate n taken r (marker @ ''x'') = (m', c)" using Suc.prems by simp
    then obtain k where "m' = (marker @ ''x'') @ replicate k (CHR ''x'')" using Suc.IH by blast
    then have "m' = marker @ replicate (Suc k) (CHR ''x'')" by simp
    then show ?thesis by (rule exI)
  next
    case False
    with Suc.prems have "m' = marker @ replicate 0 (CHR ''x'')" by simp
    then show ?thesis by (rule exI)
  qed
qed

text \<open>When no taken value is long enough to survive the growth, the candidate is marker and
  identifier, and it is free.\<close>

lemma park_candidate_free:
  assumes "\<forall>v \<in> set taken. length v < length marker + n + length r"
    "park_candidate n taken r marker = (m', c)"
  shows "c = m' @ r \<and> c \<notin> set taken"
  using assms
proof (induction n arbitrary: marker)
  case 0
  then have "marker @ r \<notin> set taken" by auto
  with 0 show ?case by auto
next
  case (Suc n)
  show ?case
  proof (cases "marker @ r \<in> set taken")
    case True
    show ?thesis
    proof (rule Suc.IH)
      show "park_candidate n taken r (marker @ ''x'') = (m', c)" using Suc.prems True by simp
    qed (use Suc.prems in simp)
  next
    case False
    with Suc.prems show ?thesis by auto
  qed
qed

lemma park_all_free:
  assumes "\<forall>v \<in> set taken. length v < length marker + 128 + l" "\<forall>r \<in> set rs. length r = l"
  shows "map fst (park_all taken marker rs) = rs
    \<and> (\<forall>(r, c) \<in> set (park_all taken marker rs). c \<notin> set taken \<and> (\<exists>m. c = m @ r))"
  using assms
proof (induction rs arbitrary: marker)
  case (Cons r rs)
  obtain m' c where p: "park_candidate 128 taken r marker = (m', c)"
    by (cases "park_candidate 128 taken r marker")
  have "length r = l" using Cons.prems by simp
  then have "\<forall>v \<in> set taken. length v < length marker + 128 + length r" using Cons.prems(1) by simp
  then have free: "c = m' @ r" "c \<notin> set taken" using park_candidate_free [OF _ p] by blast+
  obtain k where m': "m' = marker @ replicate k (CHR ''x'')" using park_candidate_marker [OF p] by blast
  have "map fst (park_all taken m' rs) = rs
    \<and> (\<forall>(r, c) \<in> set (park_all taken m' rs). c \<notin> set taken \<and> (\<exists>m. c = m @ r))"
  proof (rule Cons.IH)
    show "\<forall>v \<in> set taken. length v < length m' + 128 + l"
      using Cons.prems(1) by (fastforce simp: m')
  qed (use Cons.prems in simp)
  with free p show ?case by (simp del: replicate.simps)
qed simp

lemma park_all_distinct:
  assumes "map fst ps = rs" "distinct rs" "\<forall>r \<in> set rs. length r = l"
    and "\<forall>(r, c) \<in> set ps. \<exists>m. c = m @ (r :: string)"
  shows "distinct (map snd ps)"
proof -
  have d: "distinct (map fst ps)" using assms(1,2) by simp
  have "inj_on snd (set ps)"
  proof (rule inj_onI)
    fix p q assume pq: "p \<in> set ps" "q \<in> set ps" "snd p = snd q"
    obtain r c where p: "p = (r, c)" by (cases p)
    obtain r' where q: "q = (r', c)" using pq(3) p by (cases q) auto
    obtain m where m: "c = m @ r" using pq(1) p assms(4) by auto
    obtain m' where m': "c = m' @ r'" using pq(2) q assms(4) by auto
    have "r \<in> set rs" "r' \<in> set rs" using pq p q unfolding assms(1) [symmetric] by force+
    then have "length r = length r'" using assms(3) by simp
    with m m' have "r = r'" by simp
    then show "p = q" using p q by simp
  qed
  then show ?thesis using d by (simp add: distinct_map)
qed

section \<open>Saving\<close>

text \<open>What the code relies on of PocketBase: saving a value no other record holds succeeds, also
  under a unique index, and changes that record only.\<close>

definition saves_fresh :: "save_record \<Rightarrow> bool" where
  "saves_fresh save \<longleftrightarrow> (\<forall>r v tbl. r \<in> set (map fst tbl) \<longrightarrow> (\<forall>k u. (k, u) \<in> set tbl \<longrightarrow> k \<noteq> r \<longrightarrow> u \<noteq> v)
     \<longrightarrow> save r v tbl = Inr (sql_update (\<lambda>k _. k = r) (\<lambda>_. v) tbl))"

definition assign :: "(string \<times> string) list \<Rightarrow> number_table \<Rightarrow> number_table" where
  "assign rvs tbl = map (\<lambda>(k, u). (k, case map_of rvs k of Some v \<Rightarrow> v | None \<Rightarrow> u)) tbl"

lemma fst_assign [simp]: "map fst (assign rvs tbl) = map fst tbl"
  by (simp add: assign_def case_prod_beta o_def)

lemma assign_update:
  assumes "r \<notin> fst ` set rvs"
  shows "assign rvs (sql_update (\<lambda>k _. k = r) (\<lambda>_. v) tbl) = assign ((r, v) # rvs) tbl"
proof -
  have "map_of rvs r = None" using assms by (simp add: map_of_eq_None_iff)
  then show ?thesis by (auto simp: assign_def sql_update_def)
qed

lemma save_all_fresh:
  assumes "saves_fresh save" "ctx = (\<lambda>_. None)"
    and "distinct (map fst rvs)" "distinct (map snd rvs)" "fst ` set rvs \<subseteq> fst ` set tbl"
    and "\<And>r v k u. (r, v) \<in> set rvs \<Longrightarrow> (k, u) \<in> set tbl \<Longrightarrow> k \<noteq> r \<Longrightarrow> u \<noteq> v"
  shows "save_all ctx wrap save rvs tbl = Inr (assign rvs tbl)"
  using assms(3-)
proof (induction rvs arbitrary: tbl)
  case Nil
  then show ?case by (simp add: assign_def case_prod_beta)
next
  case (Cons rv rvs)
  obtain r v where [simp]: "rv = (r, v)" by (cases rv)
  let ?t = "sql_update (\<lambda>k _. k = r) (\<lambda>_. v) tbl"
  have "r \<in> set (map fst tbl)" using Cons.prems(3) by simp
  moreover have rv: "(r, v) \<in> set (rv # rvs)" by simp
  have "\<forall>k u. (k, u) \<in> set tbl \<longrightarrow> k \<noteq> r \<longrightarrow> u \<noteq> v" using Cons.prems(4) [OF rv] by blast
  ultimately have s: "save r v tbl = Inr ?t" using assms(1) unfolding saves_fresh_def by blast
  have keys: "map fst ?t = map fst tbl" by (simp add: sql_update_def case_prod_beta o_def)
  have "fst ` set ?t = fst ` set tbl" using arg_cong [OF keys, of set] by simp
  note keys = this
  have "save_all ctx wrap save rvs ?t = Inr (assign rvs ?t)"
  proof (rule Cons.IH)
    show "u \<noteq> v'" if "(r', v') \<in> set rvs" "(k, u) \<in> set ?t" "k \<noteq> r'" for r' v' k u
    proof (cases "k = r")
      case True
      then have "u = v" using that(2) by (auto simp: sql_update_def split: if_splits)
      moreover have "v' \<in> set (map snd rvs)" using that(1) by force
      then have "v \<noteq> v'" using Cons.prems(2) by auto
      ultimately show ?thesis by simp
    next
      case False
      then have "(k, u) \<in> set tbl" using that(2) by (auto simp: sql_update_def split: if_splits)
      moreover have "(r', v') \<in> set (rv # rvs)" using that(1) by simp
      ultimately show ?thesis using Cons.prems(4) that(3) by blast
    qed
  qed (use Cons.prems(1-3) keys in auto)
  then show ?case using s assms(2) Cons.prems(1) by (simp add: assign_update)
qed

section \<open>Reformatting keeps every sequence\<close>

lemma locate_date_ok:
  "locate s value n consumed date number ts = Inr (d, m) \<Longrightarrow> civil_ok date \<Longrightarrow> civil_ok d"
proof (induction s "value" n consumed date number ts rule: locate.induct)
  case (2 s v n consumed date number t ts)
  have "civil_ok d'" if "parse_yyyymmdd p = Some d'" for p d'
    using that by (auto simp: parse_yyyymmdd_def Let_def split: if_splits)
  with 2 show ?case by (auto split: if_splits sum.splits option.splits)
qed simp

lemma parse_accepts_date:
  assumes "ParseAutoNumberValue s v = Inr n"
  obtains d where "v = AutoNumberValue s n d" "civil_ok d" "anStart s \<le> n" "n \<le> MaxAutoNumber"
proof -
  obtain d number where l: "locate s v (length v - (length (anPrefix s) + date_length s)) 0 zero_date [] (orderTokens s)
      = Inr (d, number)" and v: "v = AutoNumberValue s n d" "anStart s \<le> n" "n \<le> MaxAutoNumber"
    using assms by (auto simp: ParseAutoNumberValue_def Let_def split: if_splits sum.splits option.splits)
  have "civil_ok d"
    using locate_date_ok [OF l] by (simp add: zero_date_def civil_ok_def days_in_def)
  with v show thesis using that by blast
qed

lemma value_length_bound:
  assumes "ValidateAutoNumberSpec (Some s) = Inr ()" "0 \<le> n" "n \<le> MaxAutoNumber"
    "AutoNumberDateEnabled s \<longrightarrow> civil_ok d"
  shows "length (AutoNumberValue s n d) \<le> length (anPrefix s) + 24"
proof -
  note r = valid_ranges [OF assms(1)]
  have "nat n < 10 ^ 16" using assms(2,3) by (simp add: MaxAutoNumber_def)
  then have "length (dec_text (nat n)) \<le> 16" by (simp add: length_dec_text_le)
  then have "length (sprintf_0d (anWidth s) n) \<le> 16" using r assms(2) by (simp add: sprintf_0d_def)
  moreover have "length (AutoNumberDateText s d) \<le> 8"
    using assms(4) format_date(1) by (simp add: AutoNumberDateText_def)
  ultimately show ?thesis by (simp add: AutoNumberValue_length [OF assms(1)])
qed

lemma reformat_scan_ok:
  assumes "\<forall>(r, u) \<in> set tbl. ParseAutoNumberValue b u = Inr (sq r) \<and> creation_of cr r = Inr (dt r)"
    and "distinct (final @ map (\<lambda>(r, u). AutoNumberValue a (sq r) (dt r)) tbl)"
  shows "reformat_scan (\<lambda>_. None) b a cr final existing acc tbl =
    Inr (final @ map (\<lambda>(r, u). AutoNumberValue a (sq r) (dt r)) tbl, existing @ map snd tbl,
      acc @ map (\<lambda>(r, u). \<lparr>rwRecord = r, rwBefore = u, rwValue = AutoNumberValue a (sq r) (dt r)\<rparr>)
        (filter (\<lambda>(r, u). AutoNumberValue a (sq r) (dt r) \<noteq> u) tbl))"
  using assms
proof (induction tbl arbitrary: final existing acc)
  case (Cons row tbl)
  obtain r u where [simp]: "row = (r, u)" by (cases row)
  have h: "ParseAutoNumberValue b u = Inr (sq r)" "creation_of cr r = Inr (dt r)"
    "AutoNumberValue a (sq r) (dt r) \<notin> set final" using Cons.prems by auto
  have "distinct ((final @ [AutoNumberValue a (sq r) (dt r)]) @ map (\<lambda>(r, u). AutoNumberValue a (sq r) (dt r)) tbl)"
    using Cons.prems(2) by auto
  from Cons.IH [OF _ this] Cons.prems(1) h show ?case by (simp add: Let_def)
qed simp

definition calm_ctx :: reformat_ctx where
  "calm_ctx = \<lparr>rxScan = \<lambda>_. None, rxPark = \<lambda>_. None, rxWrite = \<lambda>_. None\<rparr>"

text \<open>Parking, then writing, on a table whose new values are given by \<open>f\<close>.\<close>

lemma park_then_write:
  fixes f :: "string \<Rightarrow> string" and tbl :: number_table
  assumes save: "saves_fresh save" and ids: "distinct (map fst tbl)" "\<forall>r \<in> set (map fst tbl). length r = l"
    and new: "distinct (map (\<lambda>(r, u). f r) tbl)"
    and len: "\<forall>(r, u) \<in> set tbl. length u < 135 + l \<and> length (f r) < 135 + l"
  defines "rw \<equiv> map (\<lambda>(r, u). \<lparr>rwRecord = r, rwBefore = u, rwValue = f r\<rparr>) (filter (\<lambda>(r, u). f r \<noteq> u) tbl)"
  shows "\<exists>parked. save_all (\<lambda>_. None) wrap save
      (parkReformatValues rw (map (\<lambda>(r, u). f r) tbl) (map snd tbl)) tbl = Inr parked
    \<and> save_all (\<lambda>_. None) (\<lambda>e. e) save (map (\<lambda>p. (rwRecord p, rwValue p)) rw) parked
      = Inr (map (\<lambda>(r, u). (r, f r)) tbl)"
proof -
  let ?rows = "filter (\<lambda>(r, u). f r \<noteq> u) tbl"
  let ?taken = "map (\<lambda>(r, u). f r) tbl @ map snd tbl"
  let ?ps = "park_all ?taken ''vtrefmt'' (map fst ?rows)"
  have rec: "map rwRecord rw = map fst ?rows" by (auto simp: rw_def)
  have sub: "fst ` set ?rows \<subseteq> fst ` set tbl" by auto
  have dr: "distinct (map fst ?rows)" using ids(1) by (rule distinct_map_filter)
  have lr: "\<forall>r \<in> set (map fst ?rows). length r = l" using ids(2) sub by auto
  have "\<forall>v \<in> set ?taken. length v < length (''vtrefmt'' :: string) + 128 + l" using len by auto
  note pf = park_all_free [OF this lr]
  have keys: "map fst ?ps = map fst ?rows" using pf by (rule conjunct1)
  have free: "c \<notin> set ?taken" and suf: "\<exists>m. c = m @ r" if "(r, c) \<in> set ?ps" for r c
    using bspec [OF conjunct2 [OF pf] that] by blast+
  have "\<forall>(r, c) \<in> set ?ps. \<exists>m. c = m @ r" using suf by blast
  then have dv: "distinct (map snd ?ps)" by (rule park_all_distinct [OF keys dr lr])
  have kset: "fst ` set ?ps = fst ` set ?rows" using arg_cong [OF keys, of set] by simp
  have park: "save_all (\<lambda>_. None) wrap save ?ps tbl = Inr (assign ?ps tbl)"
  proof (rule save_all_fresh [OF save refl])
    show "distinct (map fst ?ps)" "distinct (map snd ?ps)" "fst ` set ?ps \<subseteq> fst ` set tbl"
      using keys dr dv sub kset by simp_all
    show "u \<noteq> v" if "(r, v) \<in> set ?ps" "(k, u) \<in> set tbl" "k \<noteq> r" for r v k u
    proof -
      have "v \<notin> set ?taken" using free that(1) by blast
      moreover have "u \<in> set ?taken" using that(2) by force
      ultimately show ?thesis by blast
    qed
  qed
  let ?fs = "map (\<lambda>(r, u). (r, f r)) ?rows"
  have injf: "r = k" if "(r, u) \<in> set tbl" "(k, w) \<in> set tbl" "f r = f k" for r u k w
    using new that by (auto simp: distinct_map dest!: inj_onD [of _ _ "(r, u)" "(k, w)"])
  have wr: "save_all (\<lambda>_. None) (\<lambda>e. e) save ?fs (assign ?ps tbl) = Inr (assign ?fs (assign ?ps tbl))"
  proof (rule save_all_fresh [OF save refl])
    have m: "map fst ?fs = map fst ?rows" by auto
    show "distinct (map fst ?fs)" using dr unfolding m .
    have "fst ` set (assign ?ps tbl) = fst ` set tbl" by (simp only: fst_assign flip: list.set_map)
    moreover have "fst ` set ?fs = fst ` set ?rows" by (simp only: m flip: list.set_map)
    ultimately show "fst ` set ?fs \<subseteq> fst ` set (assign ?ps tbl)" using sub by simp
    have m2: "map snd ?fs = map (\<lambda>(r, u). f r) ?rows" by auto
    show "distinct (map snd ?fs)" unfolding m2 by (rule distinct_map_filter [OF new])
    show "u \<noteq> v" if rv: "(r, v) \<in> set ?fs" and ku: "(k, u) \<in> set (assign ?ps tbl)" and ne: "k \<noteq> r" for r v k u
    proof -
      obtain u0 where r: "(r, u0) \<in> set tbl" "v = f r" using rv by auto
      obtain w where w: "(k, w) \<in> set tbl" "u = (case map_of ?ps k of Some c \<Rightarrow> c | None \<Rightarrow> w)"
        using ku by (auto simp: assign_def)
      have v: "v \<in> set ?taken" using r by force
      show ?thesis
      proof (cases "map_of ?ps k")
        case None
        then have "k \<notin> fst ` set ?rows" using kset by (simp add: map_of_eq_None_iff)
        then have "f k = w" using w(1) by force
        then have "u = f k" using None w(2) by simp
        then show ?thesis using r(2) ne injf [OF r(1) w(1)] by metis
      next
        case (Some c)
        have "c \<notin> set ?taken" by (rule free [OF map_of_SomeD [OF Some]])
        moreover have "u = c" using Some w(2) by simp
        ultimately show ?thesis using v by blast
      qed
    qed
  qed
  have "assign ?fs (assign ?ps tbl) = map (\<lambda>(r, u). (r, f r)) tbl"
  proof -
    have "(case map_of ?fs r of Some v \<Rightarrow> v | None \<Rightarrow> (case map_of ?ps r of Some c \<Rightarrow> c | None \<Rightarrow> u)) = f r"
      if "(r, u) \<in> set tbl" for r u
    proof (cases "f r = u")
      case True
      have "(r, w) \<in> set tbl \<Longrightarrow> w = u" for w using ids(1) that by (metis eq_key_imp_eq_value)
      then have n: "r \<notin> fst ` set ?rows" using True by force
      then have "map_of ?ps r = None" using kset by (simp add: map_of_eq_None_iff)
      moreover have "map_of ?fs r = None" using n by (force simp: map_of_eq_None_iff)
      ultimately show ?thesis using True by simp
    next
      case False
      then have "(r, f r) \<in> set ?fs" using that by force
      moreover have "distinct (map fst ?fs)" using dr by (simp add: case_prod_beta o_def)
      ultimately have "map_of ?fs r = Some (f r)" by simp
      then show ?thesis by simp
    qed
    then show ?thesis by (auto simp: assign_def)
  qed
  moreover have "map (\<lambda>p. (rwRecord p, rwValue p)) rw = ?fs" by (auto simp: rw_def)
  ultimately show ?thesis using park wr by (simp add: parkReformatValues_def rec)
qed

section \<open>Backfilling\<close>

fun numbered :: "auto_number_spec \<Rightarrow> (string \<Rightarrow> civil) \<Rightarrow> int \<Rightarrow> string list \<Rightarrow> (string \<times> string) list" where
  "numbered s dt h [] = []"
| "numbered s dt h (r # rs) = (r, AutoNumberValue s h (dt r)) # numbered s dt (h + 1) rs"

lemma fst_numbered [simp]: "map fst (numbered s dt h rs) = rs"
  by (induction rs arbitrary: h) auto

lemma numbered_range:
  "(r, v) \<in> set (numbered s dt h rs) \<Longrightarrow>
     \<exists>n. h \<le> n \<and> n < h + int (length rs) \<and> v = AutoNumberValue s n (dt r) \<and> r \<in> set rs"
proof (induction rs arbitrary: h)
  case (Cons x xs)
  then consider "r = x" "v = AutoNumberValue s h (dt x)" | "(r, v) \<in> set (numbered s dt (h + 1) xs)" by auto
  then show ?case
  proof cases
    case 2
    from Cons.IH [OF this] obtain n where "h + 1 \<le> n" "n < h + 1 + int (length xs)"
      "v = AutoNumberValue s n (dt r)" "r \<in> set xs" by blast
    then show ?thesis by (intro exI [of _ n]) simp
  qed (auto intro: exI [of _ h])
qed simp

lemma numbered_distinct:
  assumes "ValidateAutoNumberSpec (Some s) = Inr ()" "anStart s \<le> h" "h + int (length rs) - 1 \<le> MaxAutoNumber"
    "\<forall>r \<in> set rs. AutoNumberDateEnabled s \<longrightarrow> civil_ok (dt r)"
  shows "distinct (map snd (numbered s dt h rs))"
  using assms
proof (induction rs arbitrary: h)
  case (Cons x xs)
  have "AutoNumberValue s h (dt x) \<noteq> v" if rv: "(r, v) \<in> set (numbered s dt (h + 1) xs)" for r v
  proof
    assume eq: "AutoNumberValue s h (dt x) = v"
    obtain n where n: "h + 1 \<le> n" "n < h + 1 + int (length xs)" "v = AutoNumberValue s n (dt r)" "r \<in> set xs"
      using numbered_range [OF rv] by blast
    have "h = n"
      using value_inject [of s h n "dt x" "dt r"] eq n Cons.prems by (simp split: if_splits)
    with n show False by simp
  qed
  moreover have "distinct (map snd (numbered s dt (h + 1) xs))" using Cons.prems by (intro Cons.IH) auto
  ultimately show ?case by force
qed simp

lemma backfill_loop_saves:
  assumes "nfPhysicalName fld \<in> set textFields" "\<forall>r \<in> set rs. creation_of cr r = Inr (dt r)"
    "nfHighWater fld + int (length rs) \<le> MaxAutoNumber" "nfDirty fld"
  shows "backfill_loop (\<lambda>_. None) save textFields cr rs fld tbl =
    map_sum (\<lambda>e. e) (\<lambda>t. (fld\<lparr>nfHighWater := nfHighWater fld + int (length rs)\<rparr>, t))
      (save_all (\<lambda>_. None) (\<lambda>e. e) save (numbered (nfSpec fld) dt (nfHighWater fld + 1) rs) tbl)"
  using assms
proof (induction rs arbitrary: fld tbl)
  case (Cons r rs)
  let ?h = "nfHighWater fld + 1"
  let ?fld = "fld\<lparr>nfHighWater := ?h, nfDirty := True\<rparr>"
  have a: "Assign textFields (dt r) fld = Inr (?fld, AutoNumberValue (nfSpec fld) ?h (dt r))"
    using Cons.prems by (simp add: Assign_def Let_def)
  have upd: "?fld\<lparr>nfHighWater := nfHighWater ?fld + int (length rs)\<rparr>
      = fld\<lparr>nfHighWater := nfHighWater fld + int (length (r # rs))\<rparr>"
    using Cons.prems(4) by (cases fld) simp
  have IH: "backfill_loop (\<lambda>_. None) save textFields cr rs ?fld t =
    map_sum (\<lambda>e. e) (\<lambda>t. (fld\<lparr>nfHighWater := nfHighWater fld + int (length (r # rs))\<rparr>, t))
      (save_all (\<lambda>_. None) (\<lambda>e. e) save (numbered (nfSpec fld) dt (?h + 1) rs) t)" for t
    using Cons.IH [of ?fld t] Cons.prems unfolding upd by simp
  show ?case using a IH Cons.prems(2) by (simp split: sum.splits)
qed simp

lemma assign_numbered:
  assumes "distinct (map fst tbl)"
  shows "assign (numbered s dt h (map fst tbl)) tbl = numbered s dt h (map fst tbl)"
proof (rule nth_equalityI)
  let ?n = "numbered s dt h (map fst tbl)"
  have len: "length ?n = length tbl" using arg_cong [OF fst_numbered [of s dt h "map fst tbl"], of length]
    by (simp only: length_map)
  then show "length (assign ?n tbl) = length ?n" by (simp add: assign_def)
  fix i assume "i < length (assign ?n tbl)"
  then have i: "i < length tbl" by (simp add: assign_def)
  have key: "fst (?n ! i) = fst (tbl ! i)"
    using i len nth_map [of i ?n fst] nth_map [of i tbl fst] by (simp only: fst_numbered)
  have "map_of ?n (fst (?n ! i)) = Some (snd (?n ! i))"
    using assms i len by (intro map_of_is_SomeI) (simp_all only: fst_numbered prod.collapse nth_mem)
  then show "assign ?n tbl ! i = ?n ! i"
    using i key by (auto simp: assign_def case_prod_beta prod_eq_iff)
qed

lemma value_nonempty:
  assumes "ValidateAutoNumberSpec (Some s) = Inr ()" "0 \<le> n" "n \<le> MaxAutoNumber"
  shows "AutoNumberValue s n d \<noteq> []"
proof -
  have "sprintf_0d (anWidth s) n \<noteq> []" using sprintf_number(2) [of n] valid_ranges [OF assms(1)] assms by simp
  then have "0 < length (AutoNumberValue s n d)" by (simp add: AutoNumberValue_length [OF assms(1)])
  then show ?thesis by simp
qed


section \<open>Properties\<close>

lemma creation_of_dated:
  "AutoNumberDateEnabled s \<Longrightarrow> CreationTimes t ledger r = Some d \<Longrightarrow>
     creation_of (if AutoNumberDateEnabled s then Some (CreationTimes t ledger) else None) r = Inr d"
  "\<not> AutoNumberDateEnabled s \<Longrightarrow>
     creation_of (if AutoNumberDateEnabled s then Some (CreationTimes t ledger) else None) r = Inr zero_date"
  by (simp_all add: creation_of_def)

definition date_of :: "auto_number_spec \<Rightarrow> string \<Rightarrow> audit_event list \<Rightarrow> string \<Rightarrow> civil" where
  "date_of s tableID ledger r =
     (if AutoNumberDateEnabled s then (case CreationTimes tableID ledger r of None \<Rightarrow> zero_date | Some d \<Rightarrow> d)
      else zero_date)"

definition dated :: "auto_number_spec \<Rightarrow> string \<Rightarrow> audit_event list \<Rightarrow> string list \<Rightarrow> bool" where
  "dated s tableID ledger rs \<longleftrightarrow> (AutoNumberDateEnabled s \<longrightarrow>
     list_all (\<lambda>r. case CreationTimes tableID ledger r of None \<Rightarrow> False | Some d \<Rightarrow> civil_ok d) rs)"

lemma datedD:
  assumes "dated s tableID ledger rs" "r \<in> set rs"
  shows "creation_of (if AutoNumberDateEnabled s then Some (CreationTimes tableID ledger) else None) r
      = Inr (date_of s tableID ledger r)"
    "AutoNumberDateEnabled s \<longrightarrow> civil_ok (date_of s tableID ledger r)"
proof -
  have "creation_of (if AutoNumberDateEnabled s then Some (CreationTimes tableID ledger) else None) r
      = Inr (date_of s tableID ledger r)
    \<and> (AutoNumberDateEnabled s \<longrightarrow> civil_ok (date_of s tableID ledger r))"
  proof (cases "AutoNumberDateEnabled s")
    case True
    then obtain d where "CreationTimes tableID ledger r = Some d" "civil_ok d"
      using assms by (auto simp: dated_def list_all_iff split: option.splits)
    with True show ?thesis by (simp add: date_of_def creation_of_def)
  qed (simp add: date_of_def creation_of_def)
  then show "creation_of (if AutoNumberDateEnabled s then Some (CreationTimes tableID ledger) else None) r
      = Inr (date_of s tableID ledger r)"
    "AutoNumberDateEnabled s \<longrightarrow> civil_ok (date_of s tableID ledger r)" by blast+
qed

lemma reformat_rows:
  fixes sq :: "string \<Rightarrow> int" and tbl :: number_table
  assumes valid: "ValidateAutoNumberSpec (Some b) = Inr ()" "ValidateAutoNumberSpec (Some a) = Inr ()"
      "anStart a \<le> anStart b" "length (anPrefix a) \<le> 100" "length (anPrefix b) \<le> 100"
    and ids: "distinct (map fst tbl)"
    and stored: "\<forall>(r, u) \<in> set tbl. ParseAutoNumberValue b u = Inr (sq r)" "inj_on sq (set (map fst tbl))"
    and dates: "\<forall>r \<in> set (map fst tbl). AutoNumberDateEnabled a \<longrightarrow> civil_ok (dt r)"
  defines "f \<equiv> \<lambda>r. AutoNumberValue a (sq r) (dt r)"
  shows "\<forall>(r, u) \<in> set tbl. ParseAutoNumberValue a (f r) = Inr (sq r)"
    "\<forall>(r, u) \<in> set tbl. length u < 135 + l \<and> length (f r) < 135 + l"
    "distinct (map (\<lambda>(r, u). f r) tbl)"
proof -
  have row: "ParseAutoNumberValue a (f r) = Inr (sq r) \<and> length u < 135 + l \<and> length (f r) < 135 + l"
    if ru: "(r, u) \<in> set tbl" for r u
  proof -
    have "ParseAutoNumberValue b u = Inr (sq r)" using stored(1) ru by blast
    then obtain d where d: "u = AutoNumberValue b (sq r) d" "civil_ok d" "anStart b \<le> sq r" "sq r \<le> MaxAutoNumber"
      by (rule parse_accepts_date)
    have s: "anStart a \<le> sq r" "0 \<le> sq r" using d(3) valid(3) valid_ranges(1) [OF valid(2)] by simp_all
    have "r \<in> set (map fst tbl)" using ru by force
    then have ok: "AutoNumberDateEnabled a \<longrightarrow> civil_ok (dt r)" using dates by blast
    show ?thesis
      using value_length_bound [OF valid(1) s(2) d(4), of d] value_length_bound [OF valid(2) s(2) d(4) ok]
        parse_of_value [OF valid(2) s(1) d(4) ok] d(1,2) valid(4,5) by (simp add: f_def)
  qed
  show "\<forall>(r, u) \<in> set tbl. ParseAutoNumberValue a (f r) = Inr (sq r)"
    "\<forall>(r, u) \<in> set tbl. length u < 135 + l \<and> length (f r) < 135 + l" using row by blast+
  have "inj_on f (set (map fst tbl))"
  proof (rule inj_onI)
    fix r k assume rk: "r \<in> set (map fst tbl)" "k \<in> set (map fst tbl)" "f r = f k"
    from rk(1,2) obtain u w where "(r, u) \<in> set tbl" "(k, w) \<in> set tbl" by force
    then have "(Inr (sq r) :: int result) = Inr (sq k)" using row rk(3) by metis
    then have "sq r = sq k" by simp
    then show "r = k" using rk(1,2) stored(2) by (meson inj_onD)
  qed
  then have "distinct (map f (map fst tbl))" using ids distinct_map [of f "map fst tbl"] by blast
  moreover have "map (\<lambda>(r, u). f r) tbl = map f (map fst tbl)" by auto
  ultimately show "distinct (map (\<lambda>(r, u). f r) tbl)" by (simp only:)
qed

text \<open>C10. Numbers read back: for a valid specification, whatever the order of its segments,
  and every sequence in its range, \<open>ParseAutoNumberValue\<close> recovers the sequence from the value
  \<open>AutoNumberValue\<close> builds.\<close>

theorem auto_number_roundtrip:
  assumes "ValidateAutoNumberSpec (Some s) = Inr ()" "anStart s \<le> n" "n \<le> MaxAutoNumber"
    and "AutoNumberDateEnabled s \<longrightarrow> civil_ok d"
  shows "ParseAutoNumberValue s (AutoNumberValue s n d) = Inr n"
  using assms by (rule parse_of_value)

definition demo_spec :: auto_number_spec where
  "demo_spec = \<lparr>anPrefix = ''A1'', anStart = 5, anWidth = 3, anDateFormat = ''yyyyMMdd'',
     anOrder = [''date'', ''number'', ''prefix'']\<rparr>"

definition plain_spec :: auto_number_spec where
  "plain_spec = \<lparr>anPrefix = ''N'', anStart = 1, anWidth = 2, anDateFormat = [], anOrder = []\<rparr>"

lemma demo_specs_valid:
  "ValidateAutoNumberSpec (Some demo_spec) = Inr ()" "ValidateAutoNumberSpec (Some plain_spec) = Inr ()"
  by code_simp+

theorem auto_number_roundtrip_witness:
  "AutoNumberValue demo_spec 7 \<lparr>cvYear = 12, cvMonth = 2, cvDay = 29\<rparr> = ''00120229007A1''
   \<and> ParseAutoNumberValue demo_spec ''00120229007A1'' = Inr 7"
proof -
  let ?d = "\<lparr>cvYear = 12, cvMonth = 2, cvDay = 29\<rparr>"
  have v: "AutoNumberValue demo_spec 7 ?d = ''00120229007A1''" by code_simp
  have "civil_ok ?d" "anStart demo_spec \<le> 7" by code_simp+
  then show ?thesis
    using auto_number_roundtrip [OF demo_specs_valid(1), of 7 ?d] v by (simp add: MaxAutoNumber_def)
qed

text \<open>Only canonical values are accepted: a value \<open>ParseAutoNumberValue\<close> accepts is the
  one \<open>AutoNumberValue\<close> builds from the sequence and some legal date, and the sequence is within
  the range of the specification.\<close>

theorem auto_number_canonical:
  assumes "ParseAutoNumberValue s v = Inr n"
  shows "anStart s \<le> n \<and> n \<le> MaxAutoNumber \<and> (\<exists>d. civil_ok d \<and> v = AutoNumberValue s n d)"
  using parse_accepts_date [OF assms] by metis

theorem auto_number_canonical_witness:
  "ParseAutoNumberValue plain_spec ''N07'' = Inr 7 \<and> (\<exists>d. civil_ok d \<and> ''N07'' = AutoNumberValue plain_spec 7 d)"
proof -
  have "ParseAutoNumberValue plain_spec ''N07'' = Inr 7" by code_simp
  with auto_number_canonical [OF this] show ?thesis by blast
qed

text \<open>Reformatting a column keeps every sequence and never trips over its own
  intermediate values: for valid specifications with prefixes of at most 100 bytes, records whose
  identifiers have one length, and stored numbers with distinct sequences, \<open>Reformat\<close> succeeds even
  under a unique index, each record ends with its own sequence in the new format, and the new
  value parses to that sequence.\<close>

theorem Reformat_keeps_sequences:
  assumes save: "saves_fresh save"
    and ids: "distinct (map fst tbl)" "\<forall>r \<in> set (map fst tbl). length r = l"
    and valid: "ValidateAutoNumberSpec (Some b) = Inr ()" "ValidateAutoNumberSpec (Some a) = Inr ()"
      "anStart a \<le> anStart b" "length (anPrefix a) \<le> 100" "length (anPrefix b) \<le> 100"
    and stored: "\<forall>(r, u) \<in> set tbl. ParseAutoNumberValue b u = Inr (sq r)" "inj_on sq (set (map fst tbl))"
    and dates: "dated a tableID ledger (map fst tbl)"
  shows "\<exists>changes. Reformat calm_ctx save tableID ledger (p, Some b) (p, Some a) tbl
      = Inr (map (\<lambda>(r, u). (r, AutoNumberValue a (sq r) (date_of a tableID ledger r))) tbl, changes)
    \<and> (\<forall>(r, u) \<in> set tbl. ParseAutoNumberValue a
          (AutoNumberValue a (sq r) (date_of a tableID ledger r)) = Inr (sq r))"
proof -
  let ?dt = "date_of a tableID ledger"
  let ?f = "\<lambda>r. AutoNumberValue a (sq r) (?dt r)"
  let ?cr = "if AutoNumberDateEnabled a then Some (CreationTimes tableID ledger) else None"
  have dt: "creation_of ?cr r = Inr (?dt r)" "AutoNumberDateEnabled a \<longrightarrow> civil_ok (?dt r)"
    if "r \<in> set (map fst tbl)" for r using datedD [OF dates that] by blast+
  then have "\<forall>r \<in> set (map fst tbl). AutoNumberDateEnabled a \<longrightarrow> civil_ok (?dt r)" by blast
  note rows = reformat_rows [OF valid ids(1) stored this]
  have h: "\<forall>(r, u) \<in> set tbl. ParseAutoNumberValue b u = Inr (sq r) \<and> creation_of ?cr r = Inr (?dt r)"
    using stored(1) dt(1) by fastforce
  have "distinct ([] @ map (\<lambda>(r, u). ?f r) tbl)" using rows(3) by simp
  note scan = reformat_scan_ok [OF h this, of "[]" "[]"]
  let ?rw = "map (\<lambda>(r, u). \<lparr>rwRecord = r, rwBefore = u, rwValue = ?f r\<rparr>) (filter (\<lambda>(r, u). ?f r \<noteq> u) tbl)"
  obtain parked where w: "save_all (\<lambda>_. None) (Wrap ''auto_number.reformat_parking_failed'') save
      (parkReformatValues ?rw (map (\<lambda>(r, u). ?f r) tbl) (map snd tbl)) tbl = Inr parked"
    "save_all (\<lambda>_. None) (\<lambda>e. e) save (map (\<lambda>p. (rwRecord p, rwValue p)) ?rw) parked
      = Inr (map (\<lambda>(r, u). (r, ?f r)) tbl)"
    using park_then_write [OF save ids rows(3) rows(2)] by blast
  have same: "map (\<lambda>(r, u). (r, ?f r)) tbl = tbl" if "?rw = []"
    using that by (auto simp: filter_empty_conv intro!: map_idI)
  have "\<exists>changes. Reformat calm_ctx save tableID ledger (p, Some b) (p, Some a) tbl
      = Inr (map (\<lambda>(r, u). (r, ?f r)) tbl, changes)"
  proof (cases "?rw = []")
    case True
    then show ?thesis using scan same [OF True] by (simp add: Reformat_def calm_ctx_def Let_def)
  next
    case False
    then show ?thesis using scan w by (simp add: Reformat_def calm_ctx_def Let_def)
  qed
  then show ?thesis using rows(1) by blast
qed

text \<open>A concrete table of two records behind a unique index.\<close>

definition unique_save :: save_record where
  "unique_save r v tbl =
     (if list_ex (\<lambda>(k, u). k \<noteq> r \<and> u = v) tbl then Inl (Err ''UNIQUE constraint failed'')
      else Inr (sql_update (\<lambda>k _. k = r) (\<lambda>_. v) tbl))"

lemma unique_save_fresh: "saves_fresh unique_save"
  by (auto simp: saves_fresh_def unique_save_def list_ex_iff)

definition wide_spec :: auto_number_spec where
  "wide_spec = \<lparr>anPrefix = ''N'', anStart = 1, anWidth = 1, anDateFormat = [], anOrder = [''number'', ''date'', ''prefix'']\<rparr>"

theorem Reformat_keeps_sequences_witness:
  "\<exists>changes. Reformat calm_ctx unique_save ''t'' [] (''f'', Some plain_spec) (''f'', Some wide_spec)
     [(''r1'', ''N02''), (''r2'', ''N01'')] = Inr ([(''r1'', ''2N''), (''r2'', ''1N'')], changes)"
proof -
  let ?sq = "\<lambda>r. if r = ''r1'' then 2 else (1::int)" and ?tbl = "[(''r1'', ''N02''), (''r2'', ''N01'')]"
  have p: "ParseAutoNumberValue plain_spec ''N02'' = Inr 2" "ParseAutoNumberValue plain_spec ''N01'' = Inr 1"
    "ValidateAutoNumberSpec (Some wide_spec) = Inr ()" by code_simp+
  have v: "AutoNumberValue wide_spec 2 zero_date = ''2N''" "AutoNumberValue wide_spec 1 zero_date = ''1N''" by code_simp+
  have off: "\<not> AutoNumberDateEnabled wide_spec" by code_simp
  have d: "dated wide_spec ''t'' [] (map fst ?tbl)" "\<And>r. date_of wide_spec ''t'' [] r = zero_date"
    using off by (simp_all add: dated_def date_of_def)
  have "anStart wide_spec \<le> anStart plain_spec" "length (anPrefix wide_spec) \<le> 100" "length (anPrefix plain_spec) \<le> 100"
    "distinct (map fst ?tbl)" "\<forall>r \<in> set (map fst ?tbl). length r = 2" "inj_on ?sq (set (map fst ?tbl))"
    "\<forall>(r, u) \<in> set ?tbl. ParseAutoNumberValue plain_spec u = Inr (?sq r)"
    using p by (simp_all add: wide_spec_def plain_spec_def)
  note h = this
  from Reformat_keeps_sequences [OF unique_save_fresh h(4,5) demo_specs_valid(2) p(3) h(1-3) h(7,6) d(1), of "''f''"]
  show ?thesis using d(2) v by simp
qed

text \<open>C11. Creating a number field numbers the existing records consecutively: with valid
  settings, enough sequences left and a column that is still empty, \<open>Backfill\<close> gives the records, in
  order, the sequences from \<open>Start\<close> on, all values are different, and the persisted high-water mark
  is the last sequence used.\<close>

theorem Backfill_numbers_records:
  assumes "saves_fresh save" "ValidateAutoNumberSpec (Some (nfSpec fld)) = Inr ()"
    and "distinct (map fst tbl)" "\<forall>(r, u) \<in> set tbl. u = []" "nfPhysicalName fld \<in> set textFields"
    and "dated (nfSpec fld) tableID ledger (map fst tbl)"
    and "anStart (nfSpec fld) - 1 + int (length tbl) \<le> MaxAutoNumber"
  shows "Backfill (\<lambda>_. None) save (\<lambda>_. None) textFields tableID ledger fld tbl db
      = Inr (numbered (nfSpec fld) (date_of (nfSpec fld) tableID ledger) (anStart (nfSpec fld)) (map fst tbl),
             db(nfFieldID fld \<mapsto> anStart (nfSpec fld) - 1 + int (length tbl)))
    \<and> distinct (map snd (numbered (nfSpec fld) (date_of (nfSpec fld) tableID ledger) (anStart (nfSpec fld)) (map fst tbl)))"
proof -
  let ?s = "nfSpec fld" and ?dt = "date_of (nfSpec fld) tableID ledger"
  let ?n = "numbered ?s ?dt (anStart ?s) (map fst tbl)"
  let ?fld = "fld\<lparr>nfHighWater := anStart ?s - 1, nfDirty := True\<rparr>"
  let ?cr = "if AutoNumberDateEnabled ?s then Some (CreationTimes tableID ledger) else None"
  have dates: "\<forall>r \<in> set (map fst tbl). creation_of ?cr r = Inr (?dt r)"
    "\<forall>r \<in> set (map fst tbl). AutoNumberDateEnabled ?s \<longrightarrow> civil_ok (?dt r)"
    using datedD [OF assms(6)] by blast+
  have dist: "distinct (map snd ?n)" using dates(2) assms(7) by (intro numbered_distinct [OF assms(2)]) simp_all
  have "save_all (\<lambda>_. None) (\<lambda>e. e) save ?n tbl = Inr (assign ?n tbl)"
  proof (rule save_all_fresh [OF assms(1) refl])
    show "distinct (map fst ?n)" "distinct (map snd ?n)" using assms(3) dist by simp_all
    show "fst ` set ?n \<subseteq> fst ` set tbl" by (simp only: fst_numbered order_refl flip: list.set_map)
    show "u \<noteq> v" if rv: "(r, v) \<in> set ?n" and ku: "(k, u) \<in> set tbl" for r v k u
    proof -
      obtain n where "anStart ?s \<le> n" "n < anStart ?s + int (length tbl)" "v = AutoNumberValue ?s n (?dt r)"
        using numbered_range [OF rv] by auto
      then have "v \<noteq> []" using value_nonempty [OF assms(2)] valid_ranges(1) [OF assms(2)] assms(7) by simp
      moreover have "u = []" using assms(4) ku by blast
      ultimately show ?thesis by simp
    qed
  qed
  then have saved: "save_all (\<lambda>_. None) (\<lambda>e. e) save ?n tbl = Inr ?n" using assign_numbered [OF assms(3)] by simp
  have "backfill_loop (\<lambda>_. None) save textFields ?cr (map fst tbl) ?fld tbl
      = Inr (?fld\<lparr>nfHighWater := anStart ?s - 1 + int (length tbl)\<rparr>, ?n)"
    using backfill_loop_saves [of ?fld textFields "map fst tbl" ?cr ?dt save tbl] dates(1) assms(5,7) saved by simp
  then show ?thesis using assms(7) dist by (simp add: Backfill_def Let_def)
qed

theorem Backfill_numbers_records_witness:
  "Backfill (\<lambda>_. None) unique_save (\<lambda>_. None) [''f''] ''t'' []
     \<lparr>nfFieldID = ''id'', nfPhysicalName = ''f'', nfSpec = plain_spec, nfHighWater = 0, nfDirty = False\<rparr>
     [(''a'', []), (''b'', [])] Map.empty = Inr ([(''a'', ''N01''), (''b'', ''N02'')], [''id'' \<mapsto> 2])"
proof -
  let ?fld = "\<lparr>nfFieldID = ''id'', nfPhysicalName = ''f'', nfSpec = plain_spec, nfHighWater = 0, nfDirty = False\<rparr>"
  let ?tbl = "[(''a'', []), (''b'', [])] :: number_table"
  have off: "\<not> AutoNumberDateEnabled plain_spec" by code_simp
  have v: "AutoNumberValue plain_spec 1 zero_date = ''N01''" "AutoNumberValue plain_spec 2 zero_date = ''N02''" by code_simp+
  have "ValidateAutoNumberSpec (Some (nfSpec ?fld)) = Inr ()" using demo_specs_valid by simp
  moreover have "distinct (map fst ?tbl)" "\<forall>(r, u) \<in> set ?tbl. u = []" "nfPhysicalName ?fld \<in> set [''f'']" by simp_all
  moreover have "dated (nfSpec ?fld) ''t'' [] (map fst ?tbl)" using off by (simp add: dated_def)
  moreover have "anStart (nfSpec ?fld) - 1 + int (length ?tbl) \<le> MaxAutoNumber"
    by (simp add: plain_spec_def MaxAutoNumber_def)
  ultimately have "Backfill (\<lambda>_. None) unique_save (\<lambda>_. None) [''f''] ''t'' [] ?fld ?tbl Map.empty
      = Inr (numbered plain_spec (date_of plain_spec ''t'' []) (anStart plain_spec) (map fst ?tbl),
          [''id'' \<mapsto> anStart plain_spec - 1 + int (length ?tbl)])"
    using Backfill_numbers_records [OF unique_save_fresh, of ?fld ?tbl "[''f'']" "''t''" "[]" Map.empty] by simp
  moreover have "anStart plain_spec = 1" "\<And>r. date_of plain_spec ''t'' [] r = zero_date"
    using off by (simp_all add: plain_spec_def date_of_def)
  ultimately show ?thesis using v by simp
qed

text \<open>The hypothesis on identifier lengths is needed: with identifiers of different lengths two
  placeholders can coincide, because the marker grows between records.\<close>

lemma placeholders_can_collide:
  "parkReformatValues
     [\<lparr>rwRecord = ''xa'', rwBefore = ''p'', rwValue = ''q''\<rparr>, \<lparr>rwRecord = ''a'', rwBefore = ''vtrefmta'', rwValue = ''s''\<rparr>]
     [''q'', ''s''] [''p'', ''vtrefmta''] = [(''xa'', ''vtrefmtxa''), (''a'', ''vtrefmtxa'')]"
  by code_simp

end
