(* ===== verification/Retention.thy ===== *)
theory Retention
  imports VT_Prelude "HOL-Library.Product_Lexorder"
begin

text \<open>
  Snapshot retention and garbage selection (\<open>sidecar/internal/retention/engine.go\<close>): which
  snapshots a policy keeps, which repository objects are reachable from what is kept, and the
  two-phase clean-up, a preview and an apply that revalidates it.

  A Go map of nodes is an association list; the results that leave the package are sorted, so the
  order of iteration does not show. The clock and the inventory source are arguments: \<open>Preview\<close>
  and \<open>Apply\<close> take the instant and the inventory (or the error) they are given. The digest of an
  inventory is a parameter \<open>hash\<close>, the standard library's JSON encoding followed by SHA-256,
  applied to the canonical form the code builds.
\<close>

section \<open>Calendar buckets\<close>

definition day_ns :: int where "day_ns = 86400 * second"

definition days_of :: "instant \<Rightarrow> int" where "days_of t = t div day_ns"

definition hour_of :: "instant \<Rightarrow> int" where "hour_of t = (t mod day_ns) div (3600 * second)"

text \<open>Year, month and day of a day count since 1 January 1970, and the day of the year.\<close>

definition civil_of_days :: "int \<Rightarrow> int \<times> int \<times> int" where
  "civil_of_days z0 =
     (let z = z0 + 719468;
          era = z div 146097;
          doe = z - era * 146097;
          yoe = (doe - doe div 1460 + doe div 36524 - doe div 146096) div 365;
          doy = doe - (365 * yoe + yoe div 4 - yoe div 100);
          mp = (5 * doy + 2) div 153;
          d = doy - (153 * mp + 2) div 5 + 1;
          m = (if mp < 10 then mp + 3 else mp - 9);
          y = yoe + era * 400 + (if m \<le> 2 then 1 else 0)
      in (y, m, d))"

definition year_start :: "int \<Rightarrow> int" where
  "year_start y = (let p = y - 1 in 365 * (y - 1970) + (p div 4 - p div 100 + p div 400) - 477)"

definition go_pad :: "nat \<Rightarrow> int \<Rightarrow> string" where
  "go_pad w n = (if n < 0 then ''-'' @ pad_zeros w (dec_text (nat (- n))) else pad_zeros w (dec_text (nat n)))"

definition monthlyBucket :: "instant \<Rightarrow> string" where
  "monthlyBucket t = (case civil_of_days (days_of t) of (y, m, d) \<Rightarrow> go_pad 4 y @ ''-'' @ go_pad 2 m)"

definition dailyBucket :: "instant \<Rightarrow> string" where
  "dailyBucket t = (case civil_of_days (days_of t) of (y, m, d) \<Rightarrow>
     go_pad 4 y @ ''-'' @ go_pad 2 m @ ''-'' @ go_pad 2 d)"

definition hourlyBucket :: "instant \<Rightarrow> string" where
  "hourlyBucket t = dailyBucket t @ ''T'' @ go_pad 2 (hour_of t)"

text \<open>The ISO week of a day is the week of its Thursday.\<close>

definition iso_week :: "int \<Rightarrow> int \<times> int" where
  "iso_week days =
     (let weekday = (days + 3) mod 7;
          thursday = days - weekday + 3;
          y = fst (civil_of_days thursday)
      in (y, (thursday - year_start y) div 7 + 1))"

definition weeklyBucket :: "instant \<Rightarrow> string" where
  "weeklyBucket t = (case iso_week (days_of t) of (y, w) \<Rightarrow> go_pad 4 y @ ''-W'' @ go_pad 2 w)"

section \<open>Data\<close>

definition ErrInventoryChanged :: go_error where "ErrInventoryChanged = Err ''retention.inventory_changed''"
definition ErrUnsafeInventory :: go_error where "ErrUnsafeInventory = Err ''retention.inventory_unsafe''"
definition ErrPolicyInvalid :: go_error where "ErrPolicyInvalid = Err ''retention.policy_invalid''"

record policy =
  KeepHourlyFor :: duration
  KeepDailyFor :: duration
  KeepWeeklyFor :: duration
  KeepMonthlyFor :: duration
  TrashGrace :: duration
  MinimumRecent :: int

definition DefaultPolicy :: policy where
  "DefaultPolicy = (let snapshotWindow = 30 * day_ns in
     \<lparr>KeepHourlyFor = snapshotWindow, KeepDailyFor = snapshotWindow, KeepWeeklyFor = snapshotWindow,
      KeepMonthlyFor = snapshotWindow, TrashGrace = 90 * day_ns, MinimumRecent = 50\<rparr>)"

record node =
  ndID :: string
  ndChildren :: "string list"
  ndSize :: int
  ndCreatedAt :: instant
  ndTombstonedAt :: "instant option"

record snapshot =
  snID :: string
  snRoots :: "string list"
  snCreatedAt :: instant
  snPinned :: bool

text \<open>\<open>invNodes\<close> is \<^const>\<open>None\<close> for the nil map.\<close>

record inventory =
  invRevision :: u64
  invNodes :: "(string \<times> node) list option"
  invRoots :: "string list"
  invPinnedRoots :: "string list"
  invSnapshots :: "snapshot list"
  invPendingPublication :: bool
  invUnknownManifest :: bool
  invCorruptIndex :: bool

definition nodes_of :: "inventory \<Rightarrow> (string \<times> node) list" where
  "nodes_of ivt = (case invNodes ivt of None \<Rightarrow> [] | Some ns \<Rightarrow> ns)"

record cleanup_plan =
  cpInventoryRevision :: u64
  cpInventoryDigest :: string
  cpReachable :: "string list"
  cpTombstone :: "string list"
  cpRetainedSnapshots :: "string list"
  cpReclaimableBytes :: int
  cpGrace :: duration
  cpCreatedAt :: instant

section \<open>Validation\<close>

definition validatePolicy :: "policy \<Rightarrow> unit result" where
  "validatePolicy p =
     (if KeepHourlyFor p < 0 \<or> KeepDailyFor p < 0 \<or> KeepWeeklyFor p < 0 \<or> KeepMonthlyFor p < 0
         \<or> TrashGrace p \<le> 0 \<or> MinimumRecent p < 0
      then Inl ErrPolicyInvalid else Inr ())"

fun check_present :: "string \<Rightarrow> (string \<times> node) list \<Rightarrow> string list \<Rightarrow> unit result" where
  "check_present what ns [] = Inr ()"
| "check_present what ns (r # rs) =
     (if map_of ns r = None then Inl (Wrap (''missing '' @ what @ '' '' @ r) ErrUnsafeInventory)
      else check_present what ns rs)"

fun check_nodes :: "(string \<times> node) list \<Rightarrow> (string \<times> node) list \<Rightarrow> unit result" where
  "check_nodes ns [] = Inr ()"
| "check_nodes ns ((i, n) # rest) =
     (if i = [] \<or> ndID n \<noteq> i \<or> ndSize n < 0 then Inl ErrUnsafeInventory
      else case check_present ''child'' ns (ndChildren n) of Inl e \<Rightarrow> Inl e
      | Inr _ \<Rightarrow> check_nodes ns rest)"

fun snapshot_roots :: "snapshot list \<Rightarrow> string list result" where
  "snapshot_roots [] = Inr []"
| "snapshot_roots (s # ss) =
     (if snID s = [] \<or> snRoots s = [] \<or> snCreatedAt s = zero_time then Inl ErrUnsafeInventory
      else map_sum id ((@) (snRoots s)) (snapshot_roots ss))"

definition validateInventory :: "inventory \<Rightarrow> unit result" where
  "validateInventory ivt =
     (if invPendingPublication ivt \<or> invUnknownManifest ivt \<or> invCorruptIndex ivt \<or> invNodes ivt = None
      then Inl ErrUnsafeInventory
      else case check_nodes (nodes_of ivt) (nodes_of ivt) of Inl e \<Rightarrow> Inl e
      | Inr _ \<Rightarrow>
     (case snapshot_roots (invSnapshots ivt) of Inl e \<Rightarrow> Inl e
      | Inr rs \<Rightarrow> check_present ''root'' (nodes_of ivt) (invRoots ivt @ invPinnedRoots ivt @ rs)))"

section \<open>Selecting snapshots\<close>

definition newest_first :: "snapshot list \<Rightarrow> snapshot list" where
  "newest_first ss = sort_key (\<lambda>s. (- snCreatedAt s, snID s)) ss"

fun bucket_loop :: "instant \<Rightarrow> duration \<Rightarrow> (instant \<Rightarrow> string) \<Rightarrow> string list \<Rightarrow> snapshot list \<Rightarrow> snapshot list" where
  "bucket_loop now window bucket seen [] = []"
| "bucket_loop now window bucket seen (s # ss) =
     (let age = time_sub now (snCreatedAt s); key = bucket (snCreatedAt s)
      in if age < 0 \<or> age > window \<or> key \<in> set seen then bucket_loop now window bucket seen ss
         else s # bucket_loop now window bucket (key # seen) ss)"

definition selectBuckets :: "snapshot list \<Rightarrow> instant \<Rightarrow> duration \<Rightarrow> (instant \<Rightarrow> string) \<Rightarrow> snapshot list" where
  "selectBuckets ss now window bucket = (if window = 0 then [] else bucket_loop now window bucket [] ss)"

text \<open>The calls of \<open>add\<close>, in order.\<close>

definition additions :: "snapshot list \<Rightarrow> policy \<Rightarrow> instant \<Rightarrow> (snapshot \<times> string) list" where
  "additions vals p now =
     (let ss = newest_first vals
      in map (\<lambda>s. (s, ''pinned'')) (filter snPinned ss)
         @ map (\<lambda>s. (s, ''recent'')) (take (nat (MinimumRecent p)) ss)
         @ map (\<lambda>s. (s, ''hourly'')) (selectBuckets ss now (KeepHourlyFor p) hourlyBucket)
         @ map (\<lambda>s. (s, ''daily'')) (selectBuckets ss now (KeepDailyFor p) dailyBucket)
         @ map (\<lambda>s. (s, ''weekly'')) (selectBuckets ss now (KeepWeeklyFor p) weeklyBucket)
         @ map (\<lambda>s. (s, ''monthly'')) (selectBuckets ss now (KeepMonthlyFor p) monthlyBucket))"

type_synonym selections = "(string \<times> snapshot) list \<times> (string \<times> string list) list"

definition add_selection :: "snapshot \<times> string \<Rightarrow> selections \<Rightarrow> selections" where
  "add_selection sr sel = (case (sr, sel) of ((s, reason), (selected, reasons)) \<Rightarrow>
     (AList.update (snID s) s selected,
      AList.update (snID s)
        (case map_of reasons (snID s) of None \<Rightarrow> [reason] | Some rs \<Rightarrow> List.insert reason rs) reasons))"

definition retentionSnapshotSelections :: "snapshot list \<Rightarrow> policy \<Rightarrow> instant \<Rightarrow> selections" where
  "retentionSnapshotSelections vals p now = fold add_selection (additions vals p now) ([], [])"

definition SnapshotRetentionReasons :: "inventory \<Rightarrow> policy \<Rightarrow> instant \<Rightarrow> (string \<times> string list) list" where
  "SnapshotRetentionReasons ivt p now =
     map (\<lambda>(i, rs). (i, filter (\<lambda>r. r \<in> set rs)
            [''pinned'', ''recent'', ''hourly'', ''daily'', ''weekly'', ''monthly'']))
       (snd (retentionSnapshotSelections (invSnapshots ivt) p now))"

definition retentionRoots :: "inventory \<Rightarrow> policy \<Rightarrow> instant \<Rightarrow> string list \<times> string list" where
  "retentionRoots ivt p now =
     (let selected = fst (retentionSnapshotSelections (invSnapshots ivt) p now)
      in (sort (remdups (invRoots ivt @ invPinnedRoots ivt @ concat (map (snRoots \<circ> snd) selected))),
          sort (map fst selected)))"

section \<open>Reachability\<close>

definition children_of :: "(string \<times> node) list \<Rightarrow> string \<Rightarrow> string list" where
  "children_of ns i = (case map_of ns i of None \<Rightarrow> [] | Some n \<Rightarrow> ndChildren n)"

definition universe :: "(string \<times> node) list \<Rightarrow> string list \<Rightarrow> string set" where
  "universe ns stack = set stack \<union> (\<Union>(i, n) \<in> set ns. set (ndChildren n))"

lemma finite_universe [simp]: "finite (universe ns stack)"
  by (auto simp: universe_def)

lemma children_universe: "set (children_of ns i) \<subseteq> universe ns stack"
proof (cases "map_of ns i")
  case (Some n)
  then have "(i, n) \<in> set ns" by (rule map_of_SomeD)
  with Some show ?thesis by (force simp: children_of_def universe_def)
qed (simp add: children_of_def)

text \<open>The loop of \<open>reachableSet\<close>; the stack's top is its last element.\<close>

function reach :: "(string \<times> node) list \<Rightarrow> string list \<Rightarrow> string list \<Rightarrow> string list" where
  "reach ns stack visited =
     (if stack = [] then visited
      else let i = last stack; rest = butlast stack
           in if i \<in> set visited then reach ns rest visited
              else reach ns (rest @ children_of ns i) (visited @ [i]))"
  by pat_completeness auto
termination
proof (relation "measures [\<lambda>(ns, stack, visited). card (universe ns stack - set visited),
    \<lambda>(ns, stack, visited). length stack]", goal_cases)
  case 1
  show ?case by simp
next
  case (2 ns stack visited i rest)
  have "universe ns rest \<subseteq> universe ns stack"
    using 2 by (auto simp: universe_def dest: in_set_butlastD)
  then have "card (universe ns rest - set visited) \<le> card (universe ns stack - set visited)"
    by (intro card_mono) auto
  moreover have "length rest < length stack" using 2 by (cases stack rule: rev_cases) auto
  ultimately show ?case by auto
next
  case (3 ns stack visited i rest)
  have sub: "universe ns (rest @ children_of ns i) \<subseteq> universe ns stack"
    using 3 children_universe [of ns i stack] by (auto simp: universe_def dest: in_set_butlastD)
  have "i \<in> universe ns stack - set visited" using 3 by (auto simp: universe_def)
  then have "universe ns (rest @ children_of ns i) - set (visited @ [i]) \<subset> universe ns stack - set visited"
    using sub by auto
  then have "card (universe ns (rest @ children_of ns i) - set (visited @ [i])) < card (universe ns stack - set visited)"
    by (intro psubset_card_mono) auto
  then show ?case by simp
qed

declare reach.simps [simp del]

definition reachableSet :: "(string \<times> node) list \<Rightarrow> string list \<Rightarrow> string list" where
  "reachableSet ns roots = reach ns roots []"

section \<open>The digest\<close>

record canonical_inventory =
  cnRevision :: u64
  cnNodes :: "node list"
  cnRoots :: "string list"
  cnPinnedRoots :: "string list"
  cnSnapshots :: "snapshot list"

definition canonical :: "inventory \<Rightarrow> canonical_inventory" where
  "canonical ivt = \<lparr>cnRevision = invRevision ivt,
     cnNodes = sort_key ndID (map (\<lambda>(i, n). n\<lparr>ndChildren := sort (ndChildren n)\<rparr>) (nodes_of ivt)),
     cnRoots = sort (invRoots ivt), cnPinnedRoots = sort (invPinnedRoots ivt),
     cnSnapshots = sort_key snID (map (\<lambda>s. s\<lparr>snRoots := sort (snRoots s)\<rparr>) (invSnapshots ivt))\<rparr>"

definition inventoryDigest :: "(canonical_inventory \<Rightarrow> string result) \<Rightarrow> inventory \<Rightarrow> string result" where
  "inventoryDigest hash ivt = map_sum id ((@) ''sha256:'') (hash (canonical ivt))"

section \<open>Preview and apply\<close>

text \<open>Addition of \<open>int64\<close> values.\<close>

definition wrap64 :: "int \<Rightarrow> int" where "wrap64 x = (x + 2 ^ 63) mod 2 ^ 64 - 2 ^ 63"

definition Preview :: "(canonical_inventory \<Rightarrow> string result) \<Rightarrow> instant \<Rightarrow> inventory result \<Rightarrow> policy
  \<Rightarrow> cleanup_plan result" where
  "Preview hash now source p =
     (case validatePolicy p of Inl e \<Rightarrow> Inl e
      | Inr _ \<Rightarrow>
     (case source of Inl e \<Rightarrow> Inl e
      | Inr ivt \<Rightarrow>
     (case validateInventory ivt of Inl e \<Rightarrow> Inl e
      | Inr _ \<Rightarrow>
          let (roots, retained) = retentionRoots ivt p now;
              reachable = reachableSet (nodes_of ivt) roots
          in (case inventoryDigest hash ivt of Inl e \<Rightarrow> Inl e
              | Inr digest \<Rightarrow>
                  let live = filter (\<lambda>(i, n). i \<in> set reachable) (nodes_of ivt);
                      dead = filter (\<lambda>(i, n). i \<notin> set reachable \<and> ndTombstonedAt n = None) (nodes_of ivt)
                  in Inr \<lparr>cpInventoryRevision = invRevision ivt, cpInventoryDigest = digest,
                        cpReachable = sort (map fst live), cpTombstone = sort (map fst dead),
                        cpRetainedSnapshots = retained,
                        cpReclaimableBytes = wrap64 (sum_list (map (ndSize \<circ> snd) dead)),
                        cpGrace = TrashGrace p, cpCreatedAt = now\<rparr>))))"

fun check_tombstones :: "(string \<times> node) list \<Rightarrow> string list \<Rightarrow> string list \<Rightarrow> unit result" where
  "check_tombstones ns reachable [] = Inr ()"
| "check_tombstones ns reachable (i # is) =
     (case map_of ns i of None \<Rightarrow> Inl ErrInventoryChanged
      | Some n \<Rightarrow>
          if ndTombstonedAt n \<noteq> None then Inl ErrInventoryChanged
          else if i \<in> set reachable then Inl ErrInventoryChanged
          else check_tombstones ns reachable is)"

text \<open>\<open>Apply\<close> returns what it asked the cleaner to tombstone, if it got that far, and its result.\<close>

definition Apply :: "(canonical_inventory \<Rightarrow> string result) \<Rightarrow> (string list \<Rightarrow> duration \<Rightarrow> unit result)
  \<Rightarrow> instant \<Rightarrow> inventory result \<Rightarrow> cleanup_plan \<Rightarrow> policy
  \<Rightarrow> (string list \<times> duration) option \<times> unit result" where
  "Apply hash cleaner now source plan p =
     (case validatePolicy p of Inl e \<Rightarrow> (None, Inl e)
      | Inr _ \<Rightarrow>
          if cpGrace plan \<noteq> TrashGrace p then (None, Inl ErrInventoryChanged)
          else
     (case source of Inl e \<Rightarrow> (None, Inl e)
      | Inr ivt \<Rightarrow>
     (case validateInventory ivt of Inl e \<Rightarrow> (None, Inl e)
      | Inr _ \<Rightarrow>
     (case inventoryDigest hash ivt of Inl e \<Rightarrow> (None, Inl e)
      | Inr digest \<Rightarrow>
          if invRevision ivt \<noteq> cpInventoryRevision plan \<or> digest \<noteq> cpInventoryDigest plan
          then (None, Inl ErrInventoryChanged)
          else
            let (roots, retained) = retentionRoots ivt p now
            in if retained \<noteq> cpRetainedSnapshots plan then (None, Inl ErrInventoryChanged)
               else (case check_tombstones (nodes_of ivt) (reachableSet (nodes_of ivt) roots) (cpTombstone plan) of
                       Inl e \<Rightarrow> (None, Inl e)
                     | Inr _ \<Rightarrow> (Some (cpTombstone plan, TrashGrace p), cleaner (cpTombstone plan) (TrashGrace p)))))))"


section \<open>The loop computes reachability\<close>

definition edge :: "(string \<times> node) list \<Rightarrow> string \<Rightarrow> string \<Rightarrow> bool" where
  "edge ns i j \<longleftrightarrow> j \<in> set (children_of ns i)"

definition reachable_from :: "(string \<times> node) list \<Rightarrow> string set \<Rightarrow> string set" where
  "reachable_from ns R = {j. \<exists>i \<in> R. (edge ns)\<^sup>*\<^sup>* i j}"

lemma reach_step:
  "reach ns [] visited = visited"
  "reach ns (rest @ [i]) visited =
     (if i \<in> set visited then reach ns rest visited else reach ns (rest @ children_of ns i) (visited @ [i]))"
  by (subst reach.simps, simp)+

lemma reach_induct [case_names empty seen fresh]:
  assumes "\<And>visited. P [] visited"
    and "\<And>rest i visited. i \<in> set visited \<Longrightarrow> P rest visited \<Longrightarrow> P (rest @ [i]) visited"
    and "\<And>rest i visited. i \<notin> set visited \<Longrightarrow> P (rest @ children_of ns i) (visited @ [i])
      \<Longrightarrow> P (rest @ [i]) visited"
  shows "P stack visited"
proof -
  have "ns' = ns \<longrightarrow> P stack visited" for ns'
  proof (induction ns' stack visited rule: reach.induct)
    case (1 ns' stack visited)
    show ?case
    proof (cases stack rule: rev_cases)
      case Nil
      then show ?thesis using assms(1) by simp
    next
      case (snoc rest i)
      have ne: "stack \<noteq> []" and l: "last stack = i" "butlast stack = rest" using snoc by simp_all
      have "i \<in> set visited \<Longrightarrow> ns' = ns \<longrightarrow> P rest visited"
        using "1.IH"(1) [OF ne refl refl] unfolding l .
      moreover have "i \<notin> set visited \<Longrightarrow> ns' = ns \<longrightarrow> P (rest @ children_of ns' i) (visited @ [i])"
        using "1.IH"(2) [OF ne refl refl] unfolding l .
      ultimately show ?thesis using assms(2,3) snoc by blast
    qed
  qed
  then show ?thesis by blast
qed

lemma reach_sound:
  "j \<in> set (reach ns stack visited) \<Longrightarrow> j \<in> set visited \<or> j \<in> reachable_from ns (set stack)"
proof (induction stack visited rule: reach_induct [where ns = ns])
  case (empty visited)
  then show ?case by (simp add: reach_step)
next
  case (seen rest i visited)
  then show ?case by (auto simp: reach_step reachable_from_def)
next
  case (fresh rest i visited)
  then have "j \<in> set (visited @ [i]) \<or> j \<in> reachable_from ns (set (rest @ children_of ns i))"
    by (simp add: reach_step)
  then show ?case
    by (auto simp: reachable_from_def edge_def intro: converse_rtranclp_into_rtranclp)
qed

lemma reach_closed:
  "\<forall>i \<in> set visited. set (children_of ns i) \<subseteq> set visited \<union> set stack \<Longrightarrow>
     set visited \<union> set stack \<subseteq> set (reach ns stack visited)
    \<and> (\<forall>i \<in> set (reach ns stack visited). set (children_of ns i) \<subseteq> set (reach ns stack visited))"
proof (induction stack visited rule: reach_induct [where ns = ns])
  case (empty visited)
  then show ?case by (simp add: reach_step)
next
  case (seen rest i visited)
  then have "\<forall>k \<in> set visited. set (children_of ns k) \<subseteq> set visited \<union> set rest" by auto
  with seen have "set visited \<union> set rest \<subseteq> set (reach ns rest visited)
    \<and> (\<forall>i \<in> set (reach ns rest visited). set (children_of ns i) \<subseteq> set (reach ns rest visited))" by blast
  with seen(1) show ?case by (auto simp: reach_step)
next
  case (fresh rest i visited)
  then have "\<forall>k \<in> set (visited @ [i]). set (children_of ns k) \<subseteq> set (visited @ [i]) \<union> set (rest @ children_of ns i)"
    by auto
  with fresh show ?case by (simp add: reach_step)
qed

lemma reachableSet_correct: "set (reachableSet ns roots) = reachable_from ns (set roots)"
proof
  show "set (reachableSet ns roots) \<subseteq> reachable_from ns (set roots)"
    using reach_sound [of _ ns roots "[]"] by (auto simp: reachableSet_def)
  have c: "set roots \<subseteq> set (reachableSet ns roots)"
    "\<And>i. i \<in> set (reachableSet ns roots) \<Longrightarrow> set (children_of ns i) \<subseteq> set (reachableSet ns roots)"
    using reach_closed [of "[]" ns roots] by (auto simp: reachableSet_def)
  have "j \<in> set (reachableSet ns roots)" if "(edge ns)\<^sup>*\<^sup>* i j" "i \<in> set roots" for i j
    using that
  proof (induction rule: rtranclp_induct)
    case base
    then show ?case using c(1) by blast
  next
    case (step y z)
    then show ?case using c(2) by (auto simp: edge_def)
  qed
  then show "reachable_from ns (set roots) \<subseteq> set (reachableSet ns roots)"
    by (auto simp: reachable_from_def)
qed

section \<open>Which snapshots are kept\<close>

lemma fst_selections:
  "fst (fold add_selection evs (sel, rs)) = fold (\<lambda>(s, _). AList.update (snID s) s) evs sel"
  by (induction evs arbitrary: sel rs) (auto simp: add_selection_def split: prod.splits)

lemma map_of_selected:
  "map_of (fold (\<lambda>(s, _). AList.update (snID s) s) evs sel) =
     map_of sel ++ map_of (rev (map (\<lambda>(s, _). (snID s, s)) evs))"
proof (induction evs arbitrary: sel)
  case (Cons ev evs)
  then show ?case by (cases ev) (simp add: update_conv' fun_eq_iff map_add_def split: option.splits)
qed simp

definition kept :: "snapshot list \<Rightarrow> policy \<Rightarrow> instant \<Rightarrow> snapshot set" where
  "kept vals p now = fst ` set (additions vals p now)"

lemma set_newest_first [simp]: "set (newest_first ss) = set ss"
  by (simp add: newest_first_def)

lemma bucket_loop_subset: "set (bucket_loop now w b seen ss) \<subseteq> set ss"
proof (induction ss arbitrary: seen)
  case (Cons s ss)
  have "set (bucket_loop now w b seen' ss) \<subseteq> set (s # ss)" for seen' using Cons.IH [of seen'] by auto
  then show ?case by (simp add: Let_def)
qed simp

lemma selectBuckets_subset: "set (selectBuckets (newest_first vals) now w b) \<subseteq> set vals"
  using bucket_loop_subset [of now w b "[]" "newest_first vals"] by (simp add: selectBuckets_def)

lemma kept_eq:
  "kept vals p now = {s \<in> set vals. snPinned s} \<union> set (take (nat (MinimumRecent p)) (newest_first vals))
     \<union> set (selectBuckets (newest_first vals) now (KeepHourlyFor p) hourlyBucket)
     \<union> set (selectBuckets (newest_first vals) now (KeepDailyFor p) dailyBucket)
     \<union> set (selectBuckets (newest_first vals) now (KeepWeeklyFor p) weeklyBucket)
     \<union> set (selectBuckets (newest_first vals) now (KeepMonthlyFor p) monthlyBucket)"
  by (simp add: kept_def additions_def Let_def image_Un image_image Un_assoc)

lemma kept_subset: "kept vals p now \<subseteq> set vals"
  unfolding kept_eq using selectBuckets_subset set_take_subset [of _ "newest_first vals"]
  by (intro Un_least) auto

lemma selected_kept:
  fixes p :: policy and now :: instant
  assumes "distinct (map snID vals)"
  defines "sel \<equiv> fst (retentionSnapshotSelections vals p now)"
  shows "snd ` set sel = kept vals p now" "fst ` set sel = snID ` kept vals p now" "distinct (map fst sel)"
proof -
  let ?evs = "additions vals p now"
  have sel: "sel = fold (\<lambda>(s, _). AList.update (snID s) s) ?evs []"
    by (simp add: sel_def retentionSnapshotSelections_def fst_selections)
  show d: "distinct (map fst sel)"
  proof -
    have "distinct (map fst (fold (\<lambda>(s, _). AList.update (snID s) s) evs acc))"
      if "distinct (map fst acc)" for evs and acc :: "(string \<times> snapshot) list" using that
      by (induction evs arbitrary: acc) (auto simp: distinct_update)
    from this [of "[]" ?evs] show ?thesis by (simp only: sel distinct.simps list.map)
  qed
  have inj: "inj_on snID (kept vals p now)"
    using assms(1) kept_subset [of vals p now] by (auto simp: distinct_map intro: inj_on_subset)
  have m: "map_of sel = map_of (rev (map (\<lambda>(s, _). (snID s, s)) ?evs))"
    by (simp add: sel map_of_selected)
  have look: "map_of sel i = Some s \<longleftrightarrow> s \<in> kept vals p now \<and> i = snID s" for i s
  proof
    assume "map_of sel i = Some s"
    then show "s \<in> kept vals p now \<and> i = snID s" unfolding m by (force simp: kept_def dest!: map_of_SomeD)
  next
    assume s: "s \<in> kept vals p now \<and> i = snID s"
    then obtain t where t: "map_of sel i = Some t" unfolding m
      by (cases "map_of (rev (map (\<lambda>(s, _). (snID s, s)) ?evs)) i") (force simp: kept_def map_of_eq_None_iff)+
    then have "t \<in> kept vals p now \<and> i = snID t" unfolding m by (force simp: kept_def dest!: map_of_SomeD)
    with inj s have "t = s" by (auto dest: inj_onD)
    with t show "map_of sel i = Some s" by simp
  qed
  have mem: "(i, s) \<in> set sel \<longleftrightarrow> s \<in> kept vals p now \<and> i = snID s" for i s
    using look d by simp
  have "set sel = (\<lambda>s. (snID s, s)) ` kept vals p now" using mem by (auto simp: image_iff)
  then show "snd ` set sel = kept vals p now" "fst ` set sel = snID ` kept vals p now"
    by (simp_all add: image_image)
qed

text \<open>The objects nothing may delete: whatever the live roots, the pins and the kept snapshots reach.\<close>

definition protected_roots :: "inventory \<Rightarrow> policy \<Rightarrow> instant \<Rightarrow> string set" where
  "protected_roots ivt p now = set (invRoots ivt) \<union> set (invPinnedRoots ivt)
     \<union> (\<Union>s \<in> kept (invSnapshots ivt) p now. set (snRoots s))"

lemma retentionRoots_protected:
  assumes "distinct (map snID (invSnapshots ivt))"
  shows "set (fst (retentionRoots ivt p now)) = protected_roots ivt p now"
proof -
  let ?sel = "fst (retentionSnapshotSelections (invSnapshots ivt) p now)"
  have "set (fst (retentionRoots ivt p now)) = set (invRoots ivt) \<union> set (invPinnedRoots ivt)
      \<union> (\<Union>s \<in> snd ` set ?sel. set (snRoots s))"
    by (auto simp: retentionRoots_def Let_def)
  then show ?thesis by (simp only: selected_kept(1) [OF assms] protected_roots_def)
qed


lemma newest_first_order:
  assumes "newest_first ss = xs @ s # ys" "t \<in> set ys"
  shows "snCreatedAt t \<le> snCreatedAt s"
proof -
  have "sorted (map (\<lambda>s. (- snCreatedAt s, snID s)) (xs @ s # ys))"
    using assms(1) sorted_sort_key [of "\<lambda>s. (- snCreatedAt s, snID s)" ss] by (simp add: newest_first_def)
  then show ?thesis using assms(2) by (force simp: sorted_append less_eq_prod_def)
qed

text \<open>In the window, every snapshot's bucket is represented by one that comes no later in the list.\<close>

lemma bucket_loop_represents:
  assumes "s \<in> set ss" "0 \<le> time_sub now (snCreatedAt s)" "time_sub now (snCreatedAt s) \<le> w"
    "b (snCreatedAt s) \<notin> set seen"
  shows "\<exists>t xs ys. t \<in> set (bucket_loop now w b seen ss) \<and> b (snCreatedAt t) = b (snCreatedAt s)
    \<and> ss = xs @ t # ys \<and> s \<in> set (t # ys)"
  using assms
proof (induction ss arbitrary: seen)
  case (Cons x ss)
  let ?skip = "time_sub now (snCreatedAt x) < 0 \<or> time_sub now (snCreatedAt x) > w \<or> b (snCreatedAt x) \<in> set seen"
  show ?case
  proof (cases "b (snCreatedAt x) = b (snCreatedAt s) \<and> \<not> ?skip")
    case True
    then have "x \<in> set (bucket_loop now w b seen (x # ss))" by (auto simp: Let_def)
    moreover have "x # ss = [] @ x # ss" by simp
    ultimately show ?thesis using True Cons.prems(1) by blast
  next
    case False
    have "s \<noteq> x" using False Cons.prems by auto
    then have s: "s \<in> set ss" using Cons.prems by simp
    define seen' where "seen' = (if ?skip then seen else b (snCreatedAt x) # seen)"
    have "b (snCreatedAt s) \<notin> set seen'" using False Cons.prems(4) by (auto simp: seen'_def)
    from Cons.IH [OF s Cons.prems(2,3) this] obtain t xs ys where
      t: "t \<in> set (bucket_loop now w b seen' ss)" "b (snCreatedAt t) = b (snCreatedAt s)"
      "ss = xs @ t # ys" "s \<in> set (t # ys)" by blast
    have "t \<in> set (bucket_loop now w b seen (x # ss))"
      using t(1) by (auto simp: seen'_def Let_def split: if_splits)
    moreover have "x # ss = (x # xs) @ t # ys" using t(3) by simp
    ultimately show ?thesis using t(2,4) by blast
  qed
qed simp

lemma bucket_keeps:
  assumes "s \<in> set vals" "w \<noteq> 0" "0 \<le> time_sub now (snCreatedAt s)" "time_sub now (snCreatedAt s) \<le> w"
  shows "\<exists>t \<in> set (selectBuckets (newest_first vals) now w b).
    b (snCreatedAt t) = b (snCreatedAt s) \<and> snCreatedAt s \<le> snCreatedAt t"
proof -
  have "s \<in> set (newest_first vals)" using assms(1) by simp
  from bucket_loop_represents [OF this assms(3,4), of b "[]"] obtain t xs ys where
    t: "t \<in> set (bucket_loop now w b [] (newest_first vals))" "b (snCreatedAt t) = b (snCreatedAt s)"
    and split: "newest_first vals = xs @ t # ys" "s \<in> set (t # ys)" by auto
  have "snCreatedAt s \<le> snCreatedAt t" using split newest_first_order [OF split(1)] by auto
  with t assms(2) show ?thesis by (auto simp: selectBuckets_def)
qed

lemma check_tombstones_ok:
  "check_tombstones ns reachable is = Inr u \<longleftrightarrow>
     (\<forall>i \<in> set is. \<exists>n. map_of ns i = Some n \<and> ndTombstonedAt n = None \<and> i \<notin> set reachable)"
  by (induction ns reachable "is" rule: check_tombstones.induct) (auto split: option.splits)

lemma check_nodes_ok:
  "check_nodes ns xs = Inr u \<Longrightarrow> (i, n) \<in> set xs \<Longrightarrow> ndID n = i \<and> set (ndChildren n) \<subseteq> dom (map_of ns)"
proof (induction ns xs rule: check_nodes.induct)
  case (2 ns j m rest)
  have present: "check_present w ns rs = Inr v \<Longrightarrow> set rs \<subseteq> dom (map_of ns)" for w rs v
    by (induction w ns rs rule: check_present.induct) (auto split: if_splits)
  from 2 present show ?case by (auto split: if_splits sum.splits)
qed simp

section \<open>A concrete inventory\<close>

definition demo_node :: "string \<Rightarrow> string list \<Rightarrow> node" where
  "demo_node i cs = \<lparr>ndID = i, ndChildren = cs, ndSize = 10, ndCreatedAt = 0, ndTombstonedAt = None\<rparr>"

definition demo_snapshot :: "string \<Rightarrow> string \<Rightarrow> instant \<Rightarrow> bool \<Rightarrow> snapshot" where
  "demo_snapshot i r t pin = \<lparr>snID = i, snRoots = [r], snCreatedAt = t, snPinned = pin\<rparr>"

definition demo_inventory :: inventory where
  "demo_inventory = \<lparr>invRevision = 7,
     invNodes = Some [(''a'', demo_node ''a'' [''b'']), (''b'', demo_node ''b'' []), (''c'', demo_node ''c'' [''b'']),
       (''d'', demo_node ''d'' [])],
     invRoots = [''a''], invPinnedRoots = [],
     invSnapshots = [demo_snapshot ''s1'' ''c'' 0 False, demo_snapshot ''s2'' ''d'' second True],
     invPendingPublication = False, invUnknownManifest = False, invCorruptIndex = False\<rparr>"

definition demo_policy :: policy where
  "demo_policy = \<lparr>KeepHourlyFor = second, KeepDailyFor = 0, KeepWeeklyFor = 0, KeepMonthlyFor = 0,
     TrashGrace = second, MinimumRecent = 1\<rparr>"

definition demo_hash :: "canonical_inventory \<Rightarrow> string result" where
  "demo_hash c = (if cnRevision c = 7 \<and> c = canonical demo_inventory then Inr ''seven'' else Inl (Err ''no digest''))"

definition demo_plan :: cleanup_plan where
  "demo_plan = \<lparr>cpInventoryRevision = 7, cpInventoryDigest = ''sha256:seven'', cpReachable = [''a'', ''b'', ''d''],
     cpTombstone = [''c''], cpRetainedSnapshots = [''s2''], cpReclaimableBytes = 10, cpGrace = second,
     cpCreatedAt = 2 * second\<rparr>"

lemma demo_preview: "Preview demo_hash (2 * second) (Inr demo_inventory) demo_policy = Inr demo_plan"
  by code_simp

lemma demo_unique: "distinct (map snID (invSnapshots demo_inventory))" "distinct (map fst (nodes_of demo_inventory))"
  by code_simp+

text \<open>1 January 2021 is in the last week of 2020; 29 February 2024 exists.\<close>

lemma calendar_examples:
  "civil_of_days 0 = (1970, 1, 1)" "civil_of_days 18628 = (2021, 1, 1)" "iso_week 18628 = (2020, 53)"
  "civil_of_days 19782 = (2024, 2, 29)" "civil_of_days (- 1) = (1969, 12, 31)"
  by code_simp+

section \<open>Properties\<close>

text \<open>C12. Clean-up never touches what is kept: whatever plan it is given, if \<open>Apply\<close> asks the
  cleaner to tombstone objects, then each of them is a present, not yet tombstoned object that no
  live root, no pinned root and no root of a snapshot the policy keeps at that moment reaches.
  Snapshot identifiers are assumed unique.\<close>

theorem Apply_never_deletes_reachable:
  assumes "Apply hash cleaner now (Inr ivt) plan p = (Some (ids, grace), r)"
    and "distinct (map snID (invSnapshots ivt))" "i \<in> set ids"
  shows "i \<notin> reachable_from (nodes_of ivt) (protected_roots ivt p now)
    \<and> (\<exists>n. map_of (nodes_of ivt) i = Some n \<and> ndTombstonedAt n = None) \<and> grace = TrashGrace p"
proof -
  have "check_tombstones (nodes_of ivt) (reachableSet (nodes_of ivt) (fst (retentionRoots ivt p now))) ids = Inr ()"
    "grace = TrashGrace p"
    using assms(1) by (auto simp: Apply_def Let_def case_prod_beta split: sum.splits if_splits)
  then show ?thesis
    using assms(3) by (auto simp: check_tombstones_ok reachableSet_correct retentionRoots_protected [OF assms(2)])
qed

theorem Apply_never_deletes_reachable_witness:
  "Apply demo_hash (\<lambda>_ _. Inr ()) (2 * second) (Inr demo_inventory) demo_plan demo_policy
     = (Some ([''c''], second), Inr ())
   \<and> ''c'' \<notin> reachable_from (nodes_of demo_inventory) (protected_roots demo_inventory demo_policy (2 * second))"
proof -
  have a: "Apply demo_hash (\<lambda>_ _. Inr ()) (2 * second) (Inr demo_inventory) demo_plan demo_policy
     = (Some ([''c''], second), Inr ())" by code_simp
  from Apply_never_deletes_reachable [OF this demo_unique(1), of "''c''"] a show ?thesis by simp
qed

text \<open>The policy keeps what it promises: every pinned snapshot, the \<open>MinimumRecent\<close>
  newest ones, and, for every snapshot inside the hourly window, one at least as new from the same
  hour; likewise for days, weeks and months.\<close>

theorem policy_keeps:
  assumes "s \<in> set vals"
  shows "(snPinned s \<longrightarrow> s \<in> kept vals p now)
    \<and> (s \<in> set (take (nat (MinimumRecent p)) (newest_first vals)) \<longrightarrow> s \<in> kept vals p now)
    \<and> (\<forall>(w, b) \<in> {(KeepHourlyFor p, hourlyBucket), (KeepDailyFor p, dailyBucket),
                     (KeepWeeklyFor p, weeklyBucket), (KeepMonthlyFor p, monthlyBucket)}.
         w \<noteq> 0 \<and> 0 \<le> time_sub now (snCreatedAt s) \<and> time_sub now (snCreatedAt s) \<le> w \<longrightarrow>
         (\<exists>t \<in> kept vals p now. b (snCreatedAt t) = b (snCreatedAt s) \<and> snCreatedAt s \<le> snCreatedAt t))"
proof -
  have sel: "set (selectBuckets (newest_first vals) now w b) \<subseteq> kept vals p now"
    if "(w, b) \<in> {(KeepHourlyFor p, hourlyBucket), (KeepDailyFor p, dailyBucket),
          (KeepWeeklyFor p, weeklyBucket), (KeepMonthlyFor p, monthlyBucket)}" for w b
    using that unfolding kept_eq by blast
  have "\<exists>t \<in> kept vals p now. b (snCreatedAt t) = b (snCreatedAt s) \<and> snCreatedAt s \<le> snCreatedAt t"
    if wb: "(w, b) \<in> {(KeepHourlyFor p, hourlyBucket), (KeepDailyFor p, dailyBucket),
          (KeepWeeklyFor p, weeklyBucket), (KeepMonthlyFor p, monthlyBucket)}"
      and win: "w \<noteq> 0" "0 \<le> time_sub now (snCreatedAt s)" "time_sub now (snCreatedAt s) \<le> w" for w b
    using bucket_keeps [OF assms win, of b] sel [OF wb] by blast
  moreover have "snPinned s \<longrightarrow> s \<in> kept vals p now"
    "s \<in> set (take (nat (MinimumRecent p)) (newest_first vals)) \<longrightarrow> s \<in> kept vals p now"
    using assms unfolding kept_eq by blast+
  ultimately show ?thesis by blast
qed

theorem policy_keeps_witness:
  "demo_snapshot ''s2'' ''d'' second True \<in> kept (invSnapshots demo_inventory) demo_policy (2 * second)"
proof -
  have "demo_snapshot ''s2'' ''d'' second True \<in> set (invSnapshots demo_inventory)"
    by (simp add: demo_inventory_def)
  from policy_keeps [OF this, of demo_policy "2 * second"] show ?thesis by (simp add: demo_snapshot_def)
qed

text \<open>A preview is an exact account of the inventory: the objects are split into the
  reachable ones, the ones to tombstone, and those that are unreachable and already tombstoned; and
  applying the plan to the same inventory at the same time passes every check and hands exactly
  these objects to the cleaner.\<close>

theorem Preview_then_Apply:
  assumes "Preview hash now (Inr ivt) p = Inr plan" "distinct (map fst (nodes_of ivt))"
    and "distinct (map snID (invSnapshots ivt))"
  shows "set (cpReachable plan) = dom (map_of (nodes_of ivt))
        \<inter> reachable_from (nodes_of ivt) (protected_roots ivt p now)
    \<and> set (cpTombstone plan) = {i. \<exists>n. map_of (nodes_of ivt) i = Some n \<and> ndTombstonedAt n = None}
        - reachable_from (nodes_of ivt) (protected_roots ivt p now)
    \<and> Apply hash cleaner now (Inr ivt) plan p
      = (Some (cpTombstone plan, TrashGrace p), cleaner (cpTombstone plan) (TrashGrace p))"
proof -
  let ?R = "reachableSet (nodes_of ivt) (fst (retentionRoots ivt p now))"
  have R: "set ?R = reachable_from (nodes_of ivt) (protected_roots ivt p now)"
    by (simp add: reachableSet_correct retentionRoots_protected [OF assms(3)])
  obtain digest where ok: "validatePolicy p = Inr ()" "validateInventory ivt = Inr ()"
      "inventoryDigest hash ivt = Inr digest"
    and plan: "plan = \<lparr>cpInventoryRevision = invRevision ivt, cpInventoryDigest = digest,
      cpReachable = sort (map fst (filter (\<lambda>(i, n). i \<in> set ?R) (nodes_of ivt))),
      cpTombstone = sort (map fst (filter (\<lambda>(i, n). i \<notin> set ?R \<and> ndTombstonedAt n = None) (nodes_of ivt))),
      cpRetainedSnapshots = snd (retentionRoots ivt p now),
      cpReclaimableBytes = wrap64 (sum_list (map (ndSize \<circ> snd)
        (filter (\<lambda>(i, n). i \<notin> set ?R \<and> ndTombstonedAt n = None) (nodes_of ivt)))),
      cpGrace = TrashGrace p, cpCreatedAt = now\<rparr>"
    using assms(1) by (auto simp: Preview_def Let_def case_prod_beta split: sum.splits)
  have lookup: "(i, n) \<in> set (nodes_of ivt) \<longleftrightarrow> map_of (nodes_of ivt) i = Some n" for i n
    using assms(2) by simp
  have tomb: "set (cpTombstone plan) = {i. \<exists>n. map_of (nodes_of ivt) i = Some n \<and> ndTombstonedAt n = None} - set ?R"
    using lookup by (force simp: plan)
  moreover have "set (cpReachable plan) = dom (map_of (nodes_of ivt)) \<inter> set ?R"
    using lookup by (force simp: plan)
  moreover have "check_tombstones (nodes_of ivt) ?R (cpTombstone plan) = Inr ()"
    using tomb by (auto simp: check_tombstones_ok)
  then have "Apply hash cleaner now (Inr ivt) plan p
      = (Some (cpTombstone plan, TrashGrace p), cleaner (cpTombstone plan) (TrashGrace p))"
    using ok by (simp add: Apply_def Let_def case_prod_beta plan)
  ultimately show ?thesis by (simp only: R)
qed

theorem Preview_then_Apply_witness:
  "set (cpTombstone demo_plan) = {''c''} \<and> Apply demo_hash (\<lambda>_ _. Inr ()) (2 * second) (Inr demo_inventory) demo_plan demo_policy
     = (Some (cpTombstone demo_plan, TrashGrace demo_policy), Inr ())"
  using Preview_then_Apply [OF demo_preview demo_unique(2,1), of "\<lambda>_ _. Inr ()"] by (simp add: demo_plan_def)

text \<open>A plan is bound to the inventory it was made from: if the digest function does not
  collide, a plan previewed from one inventory is refused, and nothing is deleted, on every
  inventory whose nodes, roots, pins, snapshots or revision differ.\<close>

theorem stale_plan_refused:
  assumes "Preview hash now (Inr ivt) p = Inr plan" "inj_on hash {c. \<exists>d. hash c = Inr d}"
    and "canonical ivt' \<noteq> canonical ivt"
  shows "\<exists>e. Apply hash cleaner now' (Inr ivt') plan p' = (None, Inl e)"
proof -
  obtain d where d: "hash (canonical ivt) = Inr d" "cpInventoryDigest plan = ''sha256:'' @ d"
    using assms(1) by (cases "hash (canonical ivt)")
      (auto simp: Preview_def inventoryDigest_def Let_def case_prod_beta split: sum.splits)
  have "inventoryDigest hash ivt' \<noteq> Inr (cpInventoryDigest plan)"
  proof
    assume "inventoryDigest hash ivt' = Inr (cpInventoryDigest plan)"
    then have "hash (canonical ivt') = Inr d"
      using d(2) by (cases "hash (canonical ivt')") (auto simp: inventoryDigest_def)
    then have "canonical ivt' = canonical ivt" using d(1) by (intro inj_onD [OF assms(2)]) auto
    with assms(3) show False by simp
  qed
  then show ?thesis
    by (auto simp: Apply_def Let_def case_prod_beta split: sum.splits)
qed

theorem stale_plan_refused_witness:
  "\<exists>e. Apply demo_hash (\<lambda>_ _. Inr ()) (3 * second) (Inr (demo_inventory\<lparr>invPinnedRoots := [''c'']\<rparr>)) demo_plan demo_policy
     = (None, Inl e)"
proof (rule stale_plan_refused [OF demo_preview])
  show "inj_on demo_hash {c. \<exists>d. demo_hash c = Inr d}"
    by (auto simp: inj_on_def demo_hash_def split: if_splits)
  show "canonical (demo_inventory\<lparr>invPinnedRoots := [''c'']\<rparr>) \<noteq> canonical demo_inventory"
    by (simp add: canonical_def demo_inventory_def)
qed

end
