(* ===== verification/Conflict.thy ===== *)
theory Conflict
  imports VT_Prelude
begin

text \<open>
  Three-way conflict resolution between a workspace and its replica
  (\<open>sidecar/internal/conflict/resolver.go\<close>): building a plan from a common base, a local and a
  replica candidate; resolving the plan with the user's choices; and recognising a conflict that
  has been discovered before.

  A Go map is the list of its entries in the order of the keys, so that equal maps are equal lists
  (\<open>gomap_ok\<close>). The JSON encoding and SHA-256 behind \<open>candidateHash\<close> and \<open>planHash\<close> are
  parameters, collected in a record \<open>hashes\<close>. The appender that publishes a resolution
  atomically belongs to the workspace and is a parameter of \<open>Apply\<close>.
\<close>

section \<open>Data\<close>

datatype side = Local | Replica | Both | OtherSide string

definition FileItem :: string where "FileItem = ''file''"
definition TableItem :: string where "TableItem = ''table''"
definition SettingsItem :: string where "SettingsItem = ''settings''"
definition WorkspaceSettingsItemID :: string where "WorkspaceSettingsItemID = ''workspace-settings''"

definition ErrStalePlan :: go_error where "ErrStalePlan = Err ''conflict.stale_plan''"
definition choice_missing :: go_error where "choice_missing = Err ''conflict.choice_missing''"
definition choice_invalid :: go_error where "choice_invalid = Err ''conflict.choice_invalid''"

record file_state =
  fsDocumentID :: string
  fsPath :: string
  fsContentID :: string
  fsMimeType :: string
  fsDeleted :: bool

record table_state =
  tsItemID :: string
  tsKind :: string
  tsTableID :: string
  tsDisplayName :: string
  tsDatabaseObjectID :: string
  tsSchemaObjectID :: string
  tsRecordsObjectID :: string
  tsViewsObjectID :: string
  tsAttachmentsObjectID :: string
  tsAttachmentObjects :: "(string \<times> string) list"
  tsDeleted :: bool

type_synonym settings_state = string

record candidate =
  cdSnapshotID :: string
  cdBusinessDatabaseObjectID :: string
  cdSettings :: settings_state
  cdAttachmentObjects :: "(string \<times> string) list"
  cdFiles :: "(string \<times> file_state) list"
  cdTables :: "(string \<times> table_state) list"
  cdRevision :: u64

definition zero_file :: file_state where
  "zero_file = \<lparr>fsDocumentID = [], fsPath = [], fsContentID = [], fsMimeType = [], fsDeleted = False\<rparr>"

definition zero_table :: table_state where
  "zero_table = \<lparr>tsItemID = [], tsKind = [], tsTableID = [], tsDisplayName = [], tsDatabaseObjectID = [],
     tsSchemaObjectID = [], tsRecordsObjectID = [], tsViewsObjectID = [], tsAttachmentsObjectID = [],
     tsAttachmentObjects = [], tsDeleted = False\<rparr>"

text \<open>A conflict of one item: its identifier and the three states.\<close>

record 's conflict_item =
  ciID :: string
  ciBase :: 's
  ciLocal :: 's
  ciReplica :: 's

record plan =
  plPlanID :: string
  plBaseSnapshot :: string
  plLocalSnapshot :: string
  plReplicaSnapshot :: string
  plLocalRevision :: u64
  plBaseHash :: string
  plLocalHash :: string
  plReplicaHash :: string
  plFiles :: "file_state conflict_item list"
  plAutomatic :: "file_state list"
  plTables :: "table_state conflict_item list"
  plAutomaticTables :: "table_state list"
  plSettings :: "settings_state conflict_item option"
  plAutomaticSetting :: "settings_state option"

record resolved_change =
  rcKind :: string
  rcItemID :: string
  rcDocumentID :: string
  rcPrevious :: file_state
  rcChosen :: file_state
  rcTablePrevious :: table_state
  rcTableChosen :: table_state
  rcSettingsPrevious :: settings_state
  rcSettingsChosen :: settings_state
  rcCopy :: "file_state option"
  rcReason :: string

definition zero_change :: resolved_change where
  "zero_change = \<lparr>rcKind = [], rcItemID = [], rcDocumentID = [], rcPrevious = zero_file, rcChosen = zero_file,
     rcTablePrevious = zero_table, rcTableChosen = zero_table, rcSettingsPrevious = [],
     rcSettingsChosen = [], rcCopy = None, rcReason = []\<rparr>"

definition gomap_ok :: "(string \<times> 'v) list \<Rightarrow> bool" where
  "gomap_ok m \<longleftrightarrow> sorted (map fst m) \<and> distinct (map fst m)"

section \<open>Hashes\<close>

text \<open>The canonical form that is hashed is the candidate itself: its maps are sorted lists.\<close>

record hashes =
  hsCandidate :: "candidate \<Rightarrow> string"
  hsPlan :: "plan \<Rightarrow> string"

definition candidateHash :: "hashes \<Rightarrow> candidate \<Rightarrow> string" where
  "candidateHash H c = ''sha256:'' @ hsCandidate H c"

definition planHash :: "hashes \<Rightarrow> plan \<Rightarrow> string" where
  "planHash H p = ''sha256:'' @ hsPlan H (p\<lparr>plPlanID := []\<rparr>)"

section \<open>Building a plan\<close>

definition file_of :: "candidate \<Rightarrow> string \<Rightarrow> file_state" where
  "file_of c i = (case map_of (cdFiles c) i of None \<Rightarrow> zero_file | Some s \<Rightarrow> s)"

definition stateForDocument :: "candidate \<Rightarrow> string \<Rightarrow> file_state" where
  "stateForDocument c i =
     (let s = file_of c i in if fsDocumentID s = [] then s\<lparr>fsDocumentID := i\<rparr> else s)"

definition stateForTable :: "candidate \<Rightarrow> string \<Rightarrow> table_state" where
  "stateForTable c i = (case map_of (cdTables c) i of
     None \<Rightarrow> zero_table\<lparr>tsTableID := i, tsDeleted := True\<rparr>
   | Some s \<Rightarrow> if tsTableID s = [] then s\<lparr>tsTableID := i\<rparr> else s)"

definition EqualTableContent :: "table_state \<Rightarrow> table_state \<Rightarrow> bool" where
  "EqualTableContent l r \<longleftrightarrow>
     tsAttachmentObjects l = tsAttachmentObjects r
     \<and> l\<lparr>tsDatabaseObjectID := [], tsAttachmentObjects := []\<rparr>
       = r\<lparr>tsDatabaseObjectID := [], tsAttachmentObjects := []\<rparr>"

text \<open>The decision the three loops share: a conflict, the replica's state taken over
  automatically, or nothing to do.\<close>

datatype decision = Keep | Take | Clash

definition decide :: "('s \<Rightarrow> 's \<Rightarrow> bool) \<Rightarrow> 's \<Rightarrow> 's \<Rightarrow> 's \<Rightarrow> decision" where
  "decide eq b l r =
     (let localChanged = \<not> eq l b; replicaChanged = \<not> eq r b
      in if localChanged \<and> replicaChanged \<and> \<not> eq l r then Clash
         else if \<not> localChanged \<and> replicaChanged then Take else Keep)"

definition item_ids :: "(string \<times> 'a) list \<Rightarrow> (string \<times> 'a) list \<Rightarrow> (string \<times> 'a) list \<Rightarrow> string list" where
  "item_ids b l r = sort (remdups (map fst b @ map fst l @ map fst r))"

definition conflicts :: "('s \<Rightarrow> 's \<Rightarrow> bool) \<Rightarrow> (string \<Rightarrow> 's) \<Rightarrow> (string \<Rightarrow> 's) \<Rightarrow> (string \<Rightarrow> 's) \<Rightarrow> string list
  \<Rightarrow> 's conflict_item list" where
  "conflicts eq b l r ids = map (\<lambda>i. \<lparr>ciID = i, ciBase = b i, ciLocal = l i, ciReplica = r i\<rparr>)
     (filter (\<lambda>i. decide eq (b i) (l i) (r i) = Clash) ids)"

definition takeovers :: "('s \<Rightarrow> 's \<Rightarrow> bool) \<Rightarrow> (string \<Rightarrow> 's) \<Rightarrow> (string \<Rightarrow> 's) \<Rightarrow> (string \<Rightarrow> 's) \<Rightarrow> string list
  \<Rightarrow> 's list" where
  "takeovers eq b l r ids = map r (filter (\<lambda>i. decide eq (b i) (l i) (r i) = Take) ids)"

definition BuildPlan :: "hashes \<Rightarrow> candidate \<Rightarrow> candidate \<Rightarrow> candidate \<Rightarrow> plan" where
  "BuildPlan H b l r =
     (let ids = item_ids (cdFiles b) (cdFiles l) (cdFiles r);
          tids = item_ids (cdTables b) (cdTables l) (cdTables r);
          sd = decide (=) (cdSettings b) (cdSettings l) (cdSettings r);
          p = \<lparr>plPlanID = [], plBaseSnapshot = cdSnapshotID b, plLocalSnapshot = cdSnapshotID l,
               plReplicaSnapshot = cdSnapshotID r, plLocalRevision = cdRevision l,
               plBaseHash = candidateHash H b, plLocalHash = candidateHash H l,
               plReplicaHash = candidateHash H r,
               plFiles = conflicts (=) (file_of b) (file_of l) (file_of r) ids,
               plAutomatic = sort_key fsDocumentID
                 (takeovers (=) (file_of b) (file_of l) (file_of r) ids),
               plTables = conflicts EqualTableContent (stateForTable b) (stateForTable l)
                 (stateForTable r) tids,
               plAutomaticTables = sort_key tsTableID
                 (takeovers EqualTableContent (stateForTable b) (stateForTable l) (stateForTable r) tids),
               plSettings = (if sd = Clash
                 then Some \<lparr>ciID = WorkspaceSettingsItemID, ciBase = cdSettings b,
                            ciLocal = cdSettings l, ciReplica = cdSettings r\<rparr> else None),
               plAutomaticSetting = (if sd = Take then Some (cdSettings r) else None)\<rparr>
      in p\<lparr>plPlanID := planHash H p\<rparr>)"

section \<open>Public items\<close>

definition PublicItem :: "table_state \<Rightarrow> string \<times> string" where
  "PublicItem t = (if tsItemID t = [] then tsTableID t else tsItemID t,
                   if tsKind t = [] then TableItem else tsKind t)"

fun first_public :: "table_state list \<Rightarrow> (string \<times> string) option" where
  "first_public [] = None"
| "first_public (t # ts) =
     (if tsTableID t \<noteq> [] \<and> \<not> tsDeleted t then Some (PublicItem t) else first_public ts)"

definition ConflictPublicItem :: "table_state conflict_item \<Rightarrow> string \<times> string" where
  "ConflictPublicItem c = (case first_public [ciLocal c, ciReplica c, ciBase c] of
     None \<Rightarrow> (ciID c, TableItem) | Some p \<Rightarrow> p)"

section \<open>Resolving a plan\<close>

type_synonym choices = "(string \<times> side) list"

definition resolve_file :: "choices \<Rightarrow> file_state conflict_item \<Rightarrow> resolved_change result" where
  "resolve_file ch c =
     (let change = zero_change\<lparr>rcKind := FileItem, rcItemID := ciID c, rcDocumentID := ciID c,
            rcPrevious := ciLocal c\<rparr>
      in case map_of ch (ciID c) of
           None \<Rightarrow> Inl choice_missing
         | Some Replica \<Rightarrow> Inr (change\<lparr>rcChosen := ciReplica c, rcReason := ''user-choice''\<rparr>)
         | Some Local \<Rightarrow> Inr (change\<lparr>rcChosen := ciLocal c, rcReason := ''user-choice''\<rparr>)
         | Some Both \<Rightarrow>
             if fsDeleted (ciLocal c) \<or> fsDeleted (ciReplica c) then Inl choice_invalid
             else Inr (change\<lparr>rcChosen := ciLocal c, rcCopy := Some (ciReplica c),
                    rcReason := ''keep-both-documents''\<rparr>)
         | Some (OtherSide s) \<Rightarrow> Inl choice_invalid)"

definition choose_side :: "choices \<Rightarrow> 's conflict_item \<Rightarrow> 's result" where
  "choose_side ch c = (case map_of ch (ciID c) of
     Some Replica \<Rightarrow> Inr (ciReplica c) | Some Local \<Rightarrow> Inr (ciLocal c) | _ \<Rightarrow> Inl choice_invalid)"

definition resolve_table :: "choices \<Rightarrow> table_state conflict_item \<Rightarrow> resolved_change result" where
  "resolve_table ch c = (case choose_side ch c of Inl e \<Rightarrow> Inl e
   | Inr chosen \<Rightarrow> Inr (zero_change\<lparr>rcKind := snd (ConflictPublicItem c), rcItemID := ciID c,
       rcTablePrevious := ciLocal c, rcTableChosen := chosen, rcReason := ''user-choice''\<rparr>))"

definition resolve_settings :: "choices \<Rightarrow> settings_state conflict_item \<Rightarrow> resolved_change result" where
  "resolve_settings ch c = (case choose_side ch c of Inl e \<Rightarrow> Inl e
   | Inr chosen \<Rightarrow> Inr (zero_change\<lparr>rcKind := SettingsItem, rcItemID := ciID c,
       rcSettingsPrevious := ciLocal c, rcSettingsChosen := chosen, rcReason := ''user-choice''\<rparr>))"

fun sequence_results :: "'a result list \<Rightarrow> 'a list result" where
  "sequence_results [] = Inr []"
| "sequence_results (x # xs) = (case x of Inl e \<Rightarrow> Inl e
     | Inr v \<Rightarrow> map_sum id ((#) v) (sequence_results xs))"

definition automatic_file :: "candidate \<Rightarrow> file_state \<Rightarrow> resolved_change" where
  "automatic_file l s = zero_change\<lparr>rcKind := FileItem, rcItemID := fsDocumentID s,
     rcDocumentID := fsDocumentID s, rcPrevious := stateForDocument l (fsDocumentID s),
     rcChosen := s, rcReason := ''replica-only''\<rparr>"

definition automatic_table :: "candidate \<Rightarrow> table_state \<Rightarrow> resolved_change" where
  "automatic_table l s = zero_change\<lparr>rcKind := snd (PublicItem s), rcItemID := tsTableID s,
     rcTablePrevious := stateForTable l (tsTableID s), rcTableChosen := s, rcReason := ''replica-only''\<rparr>"

definition automatic_settings :: "candidate \<Rightarrow> settings_state \<Rightarrow> resolved_change" where
  "automatic_settings l s = zero_change\<lparr>rcKind := SettingsItem, rcItemID := WorkspaceSettingsItemID,
     rcSettingsPrevious := cdSettings l, rcSettingsChosen := s, rcReason := ''replica-only''\<rparr>"

definition opt_list :: "'a option \<Rightarrow> 'a list" where
  "opt_list x = (case x of None \<Rightarrow> [] | Some a \<Rightarrow> [a])"

definition expected_choices :: "plan \<Rightarrow> nat" where
  "expected_choices p = length (plFiles p) + length (plTables p) + length (opt_list (plSettings p))"

definition ResolveChanges :: "hashes \<Rightarrow> plan \<Rightarrow> candidate \<Rightarrow> candidate \<Rightarrow> choices
  \<Rightarrow> resolved_change list result" where
  "ResolveChanges H p l r ch =
     (if cdSnapshotID l \<noteq> plLocalSnapshot p \<or> cdRevision l \<noteq> plLocalRevision p
         \<or> cdSnapshotID r \<noteq> plReplicaSnapshot p \<or> candidateHash H l \<noteq> plLocalHash p
         \<or> candidateHash H r \<noteq> plReplicaHash p \<or> planHash H p \<noteq> plPlanID p
      then Inl ErrStalePlan
      else if length ch \<noteq> expected_choices p then Inl choice_missing
      else sequence_results
        (map (Inr \<circ> automatic_file l) (plAutomatic p) @ map (resolve_file ch) (plFiles p)
         @ map (Inr \<circ> automatic_table l) (plAutomaticTables p) @ map (resolve_table ch) (plTables p)
         @ map (Inr \<circ> automatic_settings l) (opt_list (plAutomaticSetting p))
         @ map (resolve_settings ch) (opt_list (plSettings p))))"

definition Apply :: "hashes \<Rightarrow> plan \<Rightarrow> candidate \<Rightarrow> candidate \<Rightarrow> choices
  \<Rightarrow> (plan \<Rightarrow> resolved_change list \<Rightarrow> candidate \<Rightarrow> string result) \<Rightarrow> string result" where
  "Apply H p l r ch appender = (case ResolveChanges H p l r ch of
     Inl e \<Rightarrow> Inl e | Inr changes \<Rightarrow> appender p changes r)"

section \<open>Recognising a known conflict\<close>

record conflict_set =
  stWorkspaceID :: string
  stBase :: candidate
  stLocal :: candidate
  stReplica :: candidate
  stReplanRequired :: bool

definition equalCandidateContent :: "candidate \<Rightarrow> candidate \<Rightarrow> bool" where
  "equalCandidateContent l r \<longleftrightarrow>
     cdSettings l = cdSettings r \<and> cdFiles l = cdFiles r \<and> cdAttachmentObjects l = cdAttachmentObjects r
     \<and> length (cdTables l) = length (cdTables r)
     \<and> list_all (\<lambda>(i, t). case map_of (cdTables r) i of None \<Rightarrow> False
          | Some other \<Rightarrow> EqualTableContent t other) (cdTables l)
     \<and> (cdTables l \<noteq> [] \<or> cdBusinessDatabaseObjectID l = cdBusinessDatabaseObjectID r)"

definition EquivalentDiscovery :: "conflict_set \<Rightarrow> conflict_set \<Rightarrow> bool" where
  "EquivalentDiscovery old new \<longleftrightarrow>
     \<not> stReplanRequired old \<and> stWorkspaceID old = stWorkspaceID new
     \<and> cdSnapshotID (stBase old) = cdSnapshotID (stBase new)
     \<and> cdSnapshotID (stReplica old) = cdSnapshotID (stReplica new)
     \<and> cdRevision (stBase old) = cdRevision (stBase new)
     \<and> cdRevision (stReplica old) = cdRevision (stReplica new)
     \<and> cdBusinessDatabaseObjectID (stBase old) = cdBusinessDatabaseObjectID (stBase new)
     \<and> cdBusinessDatabaseObjectID (stReplica old) = cdBusinessDatabaseObjectID (stReplica new)
     \<and> equalCandidateContent (stBase old) (stBase new)
     \<and> equalCandidateContent (stReplica old) (stReplica new)
     \<and> equalCandidateContent (stLocal old) (stLocal new)"


section \<open>Three-way merging\<close>

text \<open>The state an item should end with, given how a clash is settled.\<close>

definition merge :: "('s \<Rightarrow> 's \<Rightarrow> bool) \<Rightarrow> ('s \<Rightarrow> 's \<Rightarrow> 's) \<Rightarrow> 's \<Rightarrow> 's \<Rightarrow> 's \<Rightarrow> 's" where
  "merge eq pick b l r =
     (if eq l b then (if eq r b then l else r)
      else if eq r b \<or> eq l r then l else pick l r)"

lemma merge_decide: "merge eq pick b l r = (case decide eq b l r of Keep \<Rightarrow> l | Take \<Rightarrow> r | Clash \<Rightarrow> pick l r)"
  by (simp add: merge_def decide_def Let_def)

locale three_way =
  fixes eq :: "'s \<Rightarrow> 's \<Rightarrow> bool"
  assumes eq_refl: "eq x x"
    and eq_sym: "eq x y \<Longrightarrow> eq y x"
    and eq_trans: "eq x y \<Longrightarrow> eq y z \<Longrightarrow> eq x z"
begin

lemma decide_iff:
  "decide eq b l r = Clash \<longleftrightarrow> \<not> eq l b \<and> \<not> eq r b \<and> \<not> eq l r"
  "decide eq b l r = Take \<longleftrightarrow> eq l b \<and> \<not> eq r b"
  by (auto simp: decide_def Let_def)

lemma clash_symmetric: "decide eq b l r = Clash \<longleftrightarrow> decide eq b r l = Clash"
  using eq_sym by (auto simp: decide_iff)

text \<open>Without a clash, the merged state agrees with every side that changed.\<close>

lemma merge_honours_changes:
  assumes "decide eq b l r \<noteq> Clash"
  shows "(eq l b \<or> eq (merge eq pick b l r) l) \<and> (eq r b \<or> eq (merge eq pick b l r) r)"
  using assms eq_refl by (auto simp: merge_decide decide_def Let_def split: if_splits)

lemma decide_cong:
  assumes "eq b b'" "eq l l'" "eq r r'"
  shows "decide eq b l r = decide eq b' l' r'"
proof -
  have "eq x y \<longleftrightarrow> eq x' y'" if "eq x x'" "eq y y'" for x y x' y'
    using that eq_sym eq_trans by blast
  then have "eq l b \<longleftrightarrow> eq l' b'" "eq r b \<longleftrightarrow> eq r' b'" "eq l r \<longleftrightarrow> eq l' r'" using assms by blast+
  then show ?thesis by (simp add: decide_def)
qed

end

interpretation by_value: three_way "(=)"
  by unfold_locales simp_all

interpretation by_content: three_way EqualTableContent
  by unfold_locales (simp_all add: EqualTableContent_def)

section \<open>What a resolution contains\<close>

lemma sequence_results_Inr: "sequence_results xs = Inr ys \<longleftrightarrow> xs = map Inr ys"
proof (induction xs arbitrary: ys)
  case (Cons x xs)
  then show ?case by (cases x; cases ys; cases "sequence_results xs") auto
qed auto

lemma sequence_results_ok:
  assumes "\<forall>x \<in> set xs. \<exists>v. x = Inr v"
  shows "\<exists>ys. sequence_results xs = Inr ys"
  using assms by (induction xs) auto

lemma map_Inr_appendD:
  "xs @ zs = map Inr ys \<Longrightarrow> \<exists>us vs. ys = us @ vs \<and> xs = map Inr us \<and> zs = map Inr vs"
  by (metis append_eq_map_conv)

text \<open>Every change comes from one part of the plan, and every part of the plan gives its change.\<close>

lemma ResolveChanges_contents:
  assumes "ResolveChanges H p l r ch = Inr changes"
  shows "c \<in> set changes \<longleftrightarrow>
      (\<exists>s \<in> set (plAutomatic p). c = automatic_file l s)
    \<or> (\<exists>k \<in> set (plFiles p). resolve_file ch k = Inr c)
    \<or> (\<exists>s \<in> set (plAutomaticTables p). c = automatic_table l s)
    \<or> (\<exists>k \<in> set (plTables p). resolve_table ch k = Inr c)
    \<or> (\<exists>s \<in> set (opt_list (plAutomaticSetting p)). c = automatic_settings l s)
    \<or> (\<exists>k \<in> set (opt_list (plSettings p)). resolve_settings ch k = Inr c)"
proof -
  have "map (Inr \<circ> automatic_file l) (plAutomatic p) @ map (resolve_file ch) (plFiles p)
         @ map (Inr \<circ> automatic_table l) (plAutomaticTables p) @ map (resolve_table ch) (plTables p)
         @ map (Inr \<circ> automatic_settings l) (opt_list (plAutomaticSetting p))
         @ map (resolve_settings ch) (opt_list (plSettings p)) = map Inr changes" (is "?xs = _")
    using assms by (simp add: ResolveChanges_def sequence_results_Inr split: if_splits)
  then have "set ?xs = Inr ` set changes" by (metis list.set_map)
  moreover have "c \<in> set changes \<longleftrightarrow> (Inr c :: resolved_change result) \<in> Inr ` set changes" by auto
  ultimately have "c \<in> set changes \<longleftrightarrow> (Inr c :: resolved_change result) \<in> set ?xs" by simp
  then show ?thesis by (auto simp: image_iff) metis+
qed

definition file_effect :: "resolved_change list \<Rightarrow> string \<Rightarrow> file_state \<Rightarrow> file_state" where
  "file_effect changes i s = (case find (\<lambda>c. rcDocumentID c = i) changes of
     None \<Rightarrow> s | Some c \<Rightarrow> rcChosen c)"

definition table_effect :: "resolved_change list \<Rightarrow> string \<Rightarrow> table_state \<Rightarrow> table_state" where
  "table_effect changes i s = (case find (\<lambda>c. rcDocumentID c = [] \<and> rcKind c \<noteq> SettingsItem \<and> rcItemID c = i) changes of
     None \<Rightarrow> s | Some c \<Rightarrow> rcTableChosen c)"

definition settings_effect :: "resolved_change list \<Rightarrow> settings_state \<Rightarrow> settings_state" where
  "settings_effect changes s = (case find (\<lambda>c. rcDocumentID c = [] \<and> rcKind c = SettingsItem) changes of
     None \<Rightarrow> s | Some c \<Rightarrow> rcSettingsChosen c)"

lemma find_effect:
  assumes "\<And>c. c \<in> set cs \<Longrightarrow> P c \<Longrightarrow> f c = v" "(\<exists>c \<in> set cs. P c) \<or> d = v"
  shows "(case find P cs of None \<Rightarrow> d | Some c \<Rightarrow> f c) = v"
proof (cases "find P cs")
  case None
  then have "\<not> (\<exists>c \<in> set cs. P c)" by (simp add: find_None_iff)
  then show ?thesis using assms(2) None by simp
next
  case (Some c)
  then have "c \<in> set cs" "P c" by (auto simp: find_Some_iff)
  then show ?thesis using assms(1) Some by simp
qed

definition pick_side :: "choices \<Rightarrow> string \<Rightarrow> 's \<Rightarrow> 's \<Rightarrow> 's" where
  "pick_side ch i x y = (if map_of ch i = Some Replica then y else x)"

lemma resolve_file_effect:
  assumes "resolve_file ch k = Inr c"
  shows "rcDocumentID c = ciID k" "rcChosen c = pick_side ch (ciID k) (ciLocal k) (ciReplica k)"
  using assms by (auto simp: resolve_file_def Let_def pick_side_def split: option.splits side.splits if_splits)

lemma resolve_table_effect:
  assumes "resolve_table ch k = Inr c"
  shows "rcDocumentID c = []" "rcItemID c = ciID k" "rcKind c = snd (ConflictPublicItem k)"
    "rcTableChosen c = pick_side ch (ciID k) (ciLocal k) (ciReplica k)"
  using assms
  by (auto simp: resolve_table_def choose_side_def zero_change_def pick_side_def split: option.splits side.splits sum.splits)

lemma resolve_settings_effect:
  assumes "resolve_settings ch k = Inr c"
  shows "rcDocumentID c = []" "rcKind c = SettingsItem"
    "rcSettingsChosen c = pick_side ch (ciID k) (ciLocal k) (ciReplica k)"
  using assms
  by (auto simp: resolve_settings_def choose_side_def zero_change_def pick_side_def split: option.splits side.splits sum.splits)

lemma automatic_fields [simp]:
  "rcDocumentID (automatic_file l s) = fsDocumentID s" "rcChosen (automatic_file l s) = s"
  "rcDocumentID (automatic_table l t) = []" "rcItemID (automatic_table l t) = tsTableID t"
  "rcKind (automatic_table l t) = snd (PublicItem t)" "rcTableChosen (automatic_table l t) = t"
  "rcDocumentID (automatic_settings l x) = []" "rcKind (automatic_settings l x) = SettingsItem"
  "rcSettingsChosen (automatic_settings l x) = x"
  by (simp_all add: automatic_file_def automatic_table_def automatic_settings_def zero_change_def)

lemma in_conflicts:
  "k \<in> set (conflicts eq b l r ids) \<longleftrightarrow> ciID k \<in> set ids \<and> decide eq (b (ciID k)) (l (ciID k)) (r (ciID k)) = Clash
     \<and> k = \<lparr>ciID = ciID k, ciBase = b (ciID k), ciLocal = l (ciID k), ciReplica = r (ciID k)\<rparr>"
  by (auto simp: conflicts_def)

lemma in_takeovers:
  "s \<in> set (takeovers eq b l r ids) \<longleftrightarrow> (\<exists>i \<in> set ids. decide eq (b i) (l i) (r i) = Take \<and> s = r i)"
  by (auto simp: takeovers_def)

lemma set_item_ids [simp]: "set (item_ids b l r) = fst ` set b \<union> fst ` set l \<union> fst ` set r"
  by (simp add: item_ids_def Un_assoc)

lemma BuildPlan_fields:
  "set (plAutomatic (BuildPlan H b l r)) = set (takeovers (=) (file_of b) (file_of l) (file_of r)
     (item_ids (cdFiles b) (cdFiles l) (cdFiles r)))"
  "plFiles (BuildPlan H b l r) = conflicts (=) (file_of b) (file_of l) (file_of r)
     (item_ids (cdFiles b) (cdFiles l) (cdFiles r))"
  "set (plAutomaticTables (BuildPlan H b l r)) = set (takeovers EqualTableContent (stateForTable b)
     (stateForTable l) (stateForTable r) (item_ids (cdTables b) (cdTables l) (cdTables r)))"
  "plTables (BuildPlan H b l r) = conflicts EqualTableContent (stateForTable b) (stateForTable l)
     (stateForTable r) (item_ids (cdTables b) (cdTables l) (cdTables r))"
  "plAutomaticSetting (BuildPlan H b l r) =
     (if decide (=) (cdSettings b) (cdSettings l) (cdSettings r) = Take then Some (cdSettings r) else None)"
  "plSettings (BuildPlan H b l r) =
     (if decide (=) (cdSettings b) (cdSettings l) (cdSettings r) = Clash
      then Some \<lparr>ciID = WorkspaceSettingsItemID, ciBase = cdSettings b, ciLocal = cdSettings l,
        ciReplica = cdSettings r\<rparr> else None)"
  "plPlanID (BuildPlan H b l r) = planHash H (BuildPlan H b l r)"
  "plLocalSnapshot (BuildPlan H b l r) = cdSnapshotID l" "plLocalRevision (BuildPlan H b l r) = cdRevision l"
  "plReplicaSnapshot (BuildPlan H b l r) = cdSnapshotID r"
  "plLocalHash (BuildPlan H b l r) = candidateHash H l" "plReplicaHash (BuildPlan H b l r) = candidateHash H r"
  by (simp_all add: BuildPlan_def Let_def planHash_def)

lemma BuildPlan_automatic_tables:
  "plAutomaticTables (BuildPlan H b l r) = sort_key tsTableID (takeovers EqualTableContent (stateForTable b)
     (stateForTable l) (stateForTable r) (item_ids (cdTables b) (cdTables l) (cdTables r)))"
  by (simp add: BuildPlan_def Let_def)

text \<open>The candidates name their items by key: what the workspace's candidates satisfy.\<close>

definition keyed :: "candidate \<Rightarrow> bool" where
  "keyed c \<longleftrightarrow> list_all (\<lambda>(i, s). i \<noteq> [] \<and> fsDocumentID s = i) (cdFiles c)
     \<and> list_all (\<lambda>(i, t). tsTableID t = [] \<or> tsTableID t = i) (cdTables c)
     \<and> list_all (\<lambda>(i, t). tsKind t \<noteq> SettingsItem) (cdTables c)"

lemma keyed_file:
  assumes "keyed c" "map_of (cdFiles c) i \<noteq> None"
  shows "fsDocumentID (file_of c i) = i \<and> i \<noteq> []"
proof -
  obtain s where s: "map_of (cdFiles c) i = Some s" using assms(2) by blast
  then have "(i, s) \<in> set (cdFiles c)" by (rule map_of_SomeD)
  with assms(1) s show ?thesis by (auto simp: keyed_def file_of_def list_all_iff)
qed

lemma keyed_table:
  assumes "keyed c"
  shows "tsTableID (stateForTable c i) = i \<and> tsKind (stateForTable c i) \<noteq> SettingsItem"
proof (cases "map_of (cdTables c) i")
  case None
  then show ?thesis by (simp add: stateForTable_def zero_table_def SettingsItem_def)
next
  case (Some t)
  then have "(i, t) \<in> set (cdTables c)" by (rule map_of_SomeD)
  with assms have "tsTableID t = [] \<or> tsTableID t = i" "tsKind t \<noteq> SettingsItem"
    by (auto simp: keyed_def list_all_iff)
  with Some show ?thesis by (auto simp: stateForTable_def)
qed


section \<open>A resolution performs the merge\<close>

text \<open>A document the base has, unchanged in the local candidate, that the replica no longer names, not
  even with a tombstone. \<open>BuildPlan\<close> then takes over the zero state, whose document identifier is empty,
  and the change that \<open>ResolveChanges\<close> makes of it names no document.\<close>

definition dropped :: "candidate \<Rightarrow> candidate \<Rightarrow> candidate \<Rightarrow> string \<Rightarrow> bool" where
  "dropped b l r i \<longleftrightarrow> file_of l i = file_of b i \<and> file_of r i \<noteq> file_of b i \<and> map_of (cdFiles r) i = None"

lemma document_named:
  assumes "keyed r"
  shows "(if map_of (cdFiles r) i = None then file_of r i = zero_file else fsDocumentID (file_of r i) = i \<and> i \<noteq> [])"
  using keyed_file [OF assms, of i] by (simp add: file_of_def)

lemma document_ids:
  assumes "keyed b" "keyed l" "keyed r" "i \<in> set (item_ids (cdFiles b) (cdFiles l) (cdFiles r))"
  shows "i \<noteq> []"
  using assms by (fastforce simp: keyed_def list_all_iff)

lemma ResolveChanges_members:
  assumes "ResolveChanges H p l r ch = Inr changes"
  shows "s \<in> set (plAutomatic p) \<Longrightarrow> automatic_file l s \<in> set changes"
    "k \<in> set (plFiles p) \<Longrightarrow> \<exists>c \<in> set changes. resolve_file ch k = Inr c"
    "t \<in> set (plAutomaticTables p) \<Longrightarrow> automatic_table l t \<in> set changes"
    "kt \<in> set (plTables p) \<Longrightarrow> \<exists>c \<in> set changes. resolve_table ch kt = Inr c"
    "x \<in> set (opt_list (plAutomaticSetting p)) \<Longrightarrow> automatic_settings l x \<in> set changes"
    "ks \<in> set (opt_list (plSettings p)) \<Longrightarrow> \<exists>c \<in> set changes. resolve_settings ch ks = Inr c"
proof -
  let ?xs = "map (Inr \<circ> automatic_file l) (plAutomatic p) @ map (resolve_file ch) (plFiles p)
         @ map (Inr \<circ> automatic_table l) (plAutomaticTables p) @ map (resolve_table ch) (plTables p)
         @ map (Inr \<circ> automatic_settings l) (opt_list (plAutomaticSetting p))
         @ map (resolve_settings ch) (opt_list (plSettings p))"
  have "?xs = map Inr changes"
    using assms by (simp add: ResolveChanges_def sequence_results_Inr split: if_splits)
  then have all: "y \<in> Inr ` set changes" if "y \<in> set ?xs" for y using that by (metis list.set_map)
  have un: "(Inr c :: resolved_change result) \<in> Inr ` set changes \<Longrightarrow> c \<in> set changes" for c by auto
  show "s \<in> set (plAutomatic p) \<Longrightarrow> automatic_file l s \<in> set changes"
    using all [of "Inr (automatic_file l s)"] by (intro un) simp
  show "t \<in> set (plAutomaticTables p) \<Longrightarrow> automatic_table l t \<in> set changes"
    using all [of "Inr (automatic_table l t)"] by (intro un) simp
  show "x \<in> set (opt_list (plAutomaticSetting p)) \<Longrightarrow> automatic_settings l x \<in> set changes"
    using all [of "Inr (automatic_settings l x)"] by (intro un) simp
  show "k \<in> set (plFiles p) \<Longrightarrow> \<exists>c \<in> set changes. resolve_file ch k = Inr c"
    using all [of "resolve_file ch k"] by auto
  show "kt \<in> set (plTables p) \<Longrightarrow> \<exists>c \<in> set changes. resolve_table ch kt = Inr c"
    using all [of "resolve_table ch kt"] by auto
  show "ks \<in> set (opt_list (plSettings p)) \<Longrightarrow> \<exists>c \<in> set changes. resolve_settings ch ks = Inr c"
    using all [of "resolve_settings ch ks"] by auto
qed

lemma file_of_unknown: "i \<notin> fst ` set (cdFiles c) \<Longrightarrow> file_of c i = zero_file"
  by (simp add: file_of_def map_of_eq_None_iff [symmetric])

lemma merge_files:
  assumes res: "ResolveChanges H (BuildPlan H b l r) l r ch = Inr changes" and ok: "keyed r" and i: "i \<noteq> []"
  shows "file_effect changes i (file_of l i)
    = (if dropped b l r i then file_of l i else merge (=) (pick_side ch i) (file_of b i) (file_of l i) (file_of r i))"
    (is "_ = ?m")
  unfolding file_effect_def
proof (rule find_effect)
  let ?ids = "item_ids (cdFiles b) (cdFiles l) (cdFiles r)"
  note parts = ResolveChanges_contents [OF res, unfolded BuildPlan_fields]
  show "rcChosen c = ?m" if c: "c \<in> set changes" "rcDocumentID c = i" for c
    using c(1) unfolding parts
  proof (elim disjE bexE)
    fix s assume s: "s \<in> set (takeovers (=) (file_of b) (file_of l) (file_of r) ?ids)" "c = automatic_file l s"
    then obtain j where "j \<in> set ?ids" "decide (=) (file_of b j) (file_of l j) (file_of r j) = Take" "s = file_of r j"
      by (auto simp: in_takeovers)
    then show ?thesis using c(2) s(2) i document_named [OF ok, of j]
      by (auto simp: merge_decide dropped_def zero_file_def split: if_splits)
  next
    fix k assume k: "k \<in> set (conflicts (=) (file_of b) (file_of l) (file_of r) ?ids)" "resolve_file ch k = Inr c"
    have "ciID k = i" using resolve_file_effect(1) [OF k(2)] c(2) by simp
    with k(1) have clash: "decide (=) (file_of b i) (file_of l i) (file_of r i) = Clash"
      and "ciLocal k = file_of l i" "ciReplica k = file_of r i" by (auto simp: conflicts_def)
    moreover have "\<not> dropped b l r i" using clash by (simp add: dropped_def by_value.decide_iff)
    ultimately show ?thesis using resolve_file_effect(2) [OF k(2)] \<open>ciID k = i\<close> by (simp add: merge_decide)
  qed (use c(2) i resolve_table_effect(1) resolve_settings_effect(1) in \<open>fastforce+\<close>)
  have known: "i \<in> set ?ids" if "decide (=) (file_of b i) (file_of l i) (file_of r i) \<noteq> Keep"
    using that file_of_unknown by (fastforce simp: decide_def Let_def split: if_splits)
  show "(\<exists>c \<in> set changes. rcDocumentID c = i) \<or> file_of l i = ?m"
  proof (cases "decide (=) (file_of b i) (file_of l i) (file_of r i)")
    case Keep
    then show ?thesis by (simp add: merge_decide)
  next
    case Take
    show ?thesis
    proof (cases "dropped b l r i")
      case False
      then have named: "fsDocumentID (file_of r i) = i"
        using Take document_named [OF ok, of i] by (auto simp: dropped_def by_value.decide_iff split: if_splits)
      have "file_of r i \<in> set (plAutomatic (BuildPlan H b l r))"
        using known Take unfolding BuildPlan_fields in_takeovers by auto
      then have "automatic_file l (file_of r i) \<in> set changes" by (rule ResolveChanges_members(1) [OF res])
      then show ?thesis using named by force
    qed simp
  next
    case Clash
    let ?k = "\<lparr>ciID = i, ciBase = file_of b i, ciLocal = file_of l i, ciReplica = file_of r i\<rparr>"
    have "?k \<in> set (plFiles (BuildPlan H b l r))" using known Clash by (auto simp: BuildPlan_fields conflicts_def)
    then obtain c where c: "c \<in> set changes" "resolve_file ch ?k = Inr c"
      using ResolveChanges_members(2) [OF res] by blast
    then show ?thesis using resolve_file_effect(1) [OF c(2)] by force
  qed
qed

text \<open>A change that names no document is one of a table or the settings, or that of a dropped document.\<close>

lemma file_changes_named:
  assumes res: "ResolveChanges H (BuildPlan H b l r) l r ch = Inr changes"
    and ok: "keyed b" "keyed l" "keyed r" and c: "c \<in> set changes" "rcDocumentID c = []"
  shows "(\<exists>s \<in> set (plAutomaticTables (BuildPlan H b l r)). c = automatic_table l s)
    \<or> (\<exists>k \<in> set (plTables (BuildPlan H b l r)). resolve_table ch k = Inr c)
    \<or> (\<exists>s \<in> set (opt_list (plAutomaticSetting (BuildPlan H b l r))). c = automatic_settings l s)
    \<or> (\<exists>k \<in> set (opt_list (plSettings (BuildPlan H b l r))). resolve_settings ch k = Inr c)
    \<or> rcKind c = FileItem \<and> rcItemID c = []"
proof -
  have "ciID k \<noteq> []" if "k \<in> set (plFiles (BuildPlan H b l r))" for k
    using that document_ids [OF ok] by (auto simp: BuildPlan_fields conflicts_def simp del: set_item_ids)
  then have "\<not> (\<exists>k \<in> set (plFiles (BuildPlan H b l r)). resolve_file ch k = Inr c)"
    using c(2) resolve_file_effect(1) by fastforce
  moreover have "rcKind c = FileItem \<and> rcItemID c = []" if "c = automatic_file l s" for s
    using that c(2) by (simp add: automatic_file_def)
  ultimately show ?thesis using c(1) ResolveChanges_contents [OF res, of c] by blast
qed

lemma table_kinds:
  assumes "keyed b" "keyed l" "keyed r" "k \<in> set (plTables (BuildPlan H b l r))"
  shows "snd (ConflictPublicItem k) \<noteq> SettingsItem"
proof -
  have "snd (PublicItem t) \<noteq> SettingsItem" if "tsKind t \<noteq> SettingsItem" for t
    using that by (simp add: PublicItem_def TableItem_def SettingsItem_def)
  moreover have "tsKind (ciLocal k) \<noteq> SettingsItem" "tsKind (ciReplica k) \<noteq> SettingsItem" "tsKind (ciBase k) \<noteq> SettingsItem"
    using assms keyed_table by (auto simp: BuildPlan_fields conflicts_def)
  ultimately show ?thesis by (simp add: ConflictPublicItem_def TableItem_def SettingsItem_def)
qed

lemma stateForTable_unknown: "i \<notin> fst ` set (cdTables c) \<Longrightarrow> stateForTable c i = zero_table\<lparr>tsTableID := i, tsDeleted := True\<rparr>"
  by (simp add: stateForTable_def map_of_eq_None_iff [symmetric])

lemma merge_tables:
  assumes res: "ResolveChanges H (BuildPlan H b l r) l r ch = Inr changes"
    and ok: "keyed b" "keyed l" "keyed r" and i: "i \<noteq> []"
  shows "table_effect changes i (stateForTable l i)
    = merge EqualTableContent (pick_side ch i) (stateForTable b i) (stateForTable l i) (stateForTable r i)"
    (is "_ = ?m")
  unfolding table_effect_def
proof (rule find_effect)
  let ?ids = "item_ids (cdTables b) (cdTables l) (cdTables r)"
  let ?P = "\<lambda>c. rcDocumentID c = [] \<and> rcKind c \<noteq> SettingsItem \<and> rcItemID c = i"
  note named = file_changes_named [OF res ok]
  show "rcTableChosen c = ?m" if c: "c \<in> set changes" "?P c" for c
    using named [OF c(1) conjunct1 [OF c(2)]] c(2)
  proof (elim disjE bexE conjE)
    fix s assume s: "s \<in> set (plAutomaticTables (BuildPlan H b l r))" "c = automatic_table l s" "rcItemID c = i"
    then obtain j where j: "decide EqualTableContent (stateForTable b j) (stateForTable l j) (stateForTable r j) = Take"
      "s = stateForTable r j" by (auto simp: BuildPlan_fields in_takeovers)
    then have "j = i" using s keyed_table [OF ok(3), of j] by simp
    then show ?thesis using s j by (simp add: merge_decide)
  next
    fix k assume k: "k \<in> set (plTables (BuildPlan H b l r))" "resolve_table ch k = Inr c" "rcItemID c = i"
    have "ciID k = i" using resolve_table_effect(2) [OF k(2)] k(3) by simp
    with k(1) have "decide EqualTableContent (stateForTable b i) (stateForTable l i) (stateForTable r i) = Clash"
      "ciLocal k = stateForTable l i" "ciReplica k = stateForTable r i" by (auto simp: BuildPlan_fields conflicts_def)
    then show ?thesis using resolve_table_effect(4) [OF k(2)] \<open>ciID k = i\<close> by (simp add: merge_decide)
  qed (use resolve_settings_effect(2) i in auto)
  have known: "i \<in> set ?ids" if "decide EqualTableContent (stateForTable b i) (stateForTable l i) (stateForTable r i) \<noteq> Keep"
    using that stateForTable_unknown by (fastforce simp: decide_def Let_def by_content.eq_refl split: if_splits)
  show "(\<exists>c \<in> set changes. ?P c) \<or> stateForTable l i = ?m"
  proof (cases "decide EqualTableContent (stateForTable b i) (stateForTable l i) (stateForTable r i)")
    case Keep
    then show ?thesis by (simp add: merge_decide)
  next
    case Take
    then have "stateForTable r i \<in> set (plAutomaticTables (BuildPlan H b l r))"
      using known unfolding BuildPlan_fields in_takeovers by auto
    then have "automatic_table l (stateForTable r i) \<in> set changes" by (rule ResolveChanges_members(3) [OF res])
    moreover have "?P (automatic_table l (stateForTable r i))"
      using keyed_table [OF ok(3), of i] by (simp add: PublicItem_def TableItem_def SettingsItem_def)
    ultimately show ?thesis by blast
  next
    case Clash
    let ?k = "\<lparr>ciID = i, ciBase = stateForTable b i, ciLocal = stateForTable l i, ciReplica = stateForTable r i\<rparr>"
    have k: "?k \<in> set (plTables (BuildPlan H b l r))" using known Clash by (auto simp: BuildPlan_fields conflicts_def)
    then obtain c where c: "c \<in> set changes" "resolve_table ch ?k = Inr c"
      using ResolveChanges_members(4) [OF res] by blast
    have "?P c" using resolve_table_effect [OF c(2)] table_kinds [OF ok(1-3) k] by simp
    then show ?thesis using c(1) by blast
  qed
qed

lemma merge_settings:
  assumes res: "ResolveChanges H (BuildPlan H b l r) l r ch = Inr changes"
    and ok: "keyed b" "keyed l" "keyed r"
  shows "settings_effect changes (cdSettings l)
    = merge (=) (pick_side ch WorkspaceSettingsItemID) (cdSettings b) (cdSettings l) (cdSettings r)" (is "_ = ?m")
  unfolding settings_effect_def
proof (rule find_effect)
  let ?P = "\<lambda>c. rcDocumentID c = [] \<and> rcKind c = SettingsItem" and ?d = "decide (=) (cdSettings b) (cdSettings l) (cdSettings r)"
  note named = file_changes_named [OF res ok]
  show "rcSettingsChosen c = ?m" if c: "c \<in> set changes" "?P c" for c
    using named [OF c(1) conjunct1 [OF c(2)]] c(2)
  proof (elim disjE bexE conjE)
    fix s assume s: "s \<in> set (plAutomaticTables (BuildPlan H b l r))" "c = automatic_table l s" "rcKind c = SettingsItem"
    then obtain j where "s = stateForTable r j" by (auto simp: BuildPlan_fields in_takeovers)
    then have "rcKind c \<noteq> SettingsItem"
      using s(2) keyed_table [OF ok(3), of j] by (simp add: PublicItem_def TableItem_def SettingsItem_def)
    then show ?thesis using s(3) by simp
  next
    fix k assume "k \<in> set (plTables (BuildPlan H b l r))" "resolve_table ch k = Inr c" "rcKind c = SettingsItem"
    then show ?thesis using resolve_table_effect(3) table_kinds [OF ok(1-3)] by metis
  next
    fix s assume "s \<in> set (opt_list (plAutomaticSetting (BuildPlan H b l r)))" "c = automatic_settings l s"
    then show ?thesis by (auto simp: BuildPlan_fields opt_list_def merge_decide split: if_splits)
  next
    fix k assume "k \<in> set (opt_list (plSettings (BuildPlan H b l r)))" "resolve_settings ch k = Inr c"
    then show ?thesis
      using resolve_settings_effect(3) by (auto simp: BuildPlan_fields opt_list_def merge_decide split: if_splits)
  qed (simp add: FileItem_def SettingsItem_def)
  show "(\<exists>c \<in> set changes. ?P c) \<or> cdSettings l = ?m"
  proof (cases ?d)
    case Keep
    then show ?thesis by (simp add: merge_decide)
  next
    case Take
    then have "cdSettings r \<in> set (opt_list (plAutomaticSetting (BuildPlan H b l r)))"
      by (simp add: BuildPlan_fields opt_list_def)
    from ResolveChanges_members(5) [OF res this] show ?thesis by force
  next
    case Clash
    then have "\<lparr>ciID = WorkspaceSettingsItemID, ciBase = cdSettings b, ciLocal = cdSettings l, ciReplica = cdSettings r\<rparr>
        \<in> set (opt_list (plSettings (BuildPlan H b l r)))" by (simp add: BuildPlan_fields opt_list_def)
    from ResolveChanges_members(6) [OF res this] show ?thesis using resolve_settings_effect by blast
  qed
qed


section \<open>Equivalent discoveries\<close>

lemma EqualTableContent_named:
  assumes "EqualTableContent t u"
  shows "tsTableID t = tsTableID u" "EqualTableContent (t\<lparr>tsTableID := i\<rparr>) (u\<lparr>tsTableID := i\<rparr>)"
  using assms by (cases t; cases u; simp add: EqualTableContent_def)+

lemma equal_content_tables:
  assumes "equalCandidateContent c d" "distinct (map fst (cdTables c))" "distinct (map fst (cdTables d))"
  shows "fst ` set (cdTables c) = fst ` set (cdTables d)"
    "EqualTableContent (stateForTable c i) (stateForTable d i)"
proof -
  have row: "\<exists>u. map_of (cdTables d) j = Some u \<and> EqualTableContent t u" if "(j, t) \<in> set (cdTables c)" for j t
    using assms(1) that by (auto simp: equalCandidateContent_def list_all_iff split: option.splits)
  have sub: "fst ` set (cdTables c) \<subseteq> fst ` set (cdTables d)"
    using row by (force dest: map_of_SomeD)
  have "card (set (map fst (cdTables c))) = card (set (map fst (cdTables d)))"
    using assms by (simp only: distinct_card length_map equalCandidateContent_def)
  then show eq: "fst ` set (cdTables c) = fst ` set (cdTables d)"
    using sub by (intro card_subset_eq) simp_all
  show "EqualTableContent (stateForTable c i) (stateForTable d i)"
  proof (cases "map_of (cdTables c) i")
    case None
    then have "i \<notin> fst ` set (cdTables c)" by (simp add: map_of_eq_None_iff)
    then show ?thesis using eq by (simp add: stateForTable_unknown by_content.eq_refl)
  next
    case (Some t)
    then obtain u where u: "map_of (cdTables d) i = Some u" "EqualTableContent t u"
      using row [OF map_of_SomeD [OF Some]] by blast
    then show ?thesis using Some EqualTableContent_named [OF u(2)] by (simp add: stateForTable_def)
  qed
qed

lemma item_ids_sorted: "sorted (item_ids b l r)" "distinct (item_ids b l r)"
  by (simp_all add: item_ids_def)

lemma item_ids_cong:
  assumes "fst ` set b = fst ` set b'" "fst ` set l = fst ` set l'" "fst ` set r = fst ` set r'"
  shows "item_ids b l r = item_ids b' l' r'"
proof (rule sorted_distinct_set_unique [OF item_ids_sorted item_ids_sorted])
  show "set (item_ids b l r) = set (item_ids b' l' r')" using assms by simp
qed

lemma list_all2_insort_key:
  assumes "\<And>x y. R x y \<Longrightarrow> f x = f y" "R x y" "list_all2 R xs ys"
  shows "list_all2 R (insort_key f x xs) (insort_key f y ys)"
  using assms(3,2) by (induction xs ys rule: list_all2_induct) (use assms(1) in auto)

lemma list_all2_sort_key:
  assumes "\<And>x y. R x y \<Longrightarrow> f x = f y" "list_all2 R xs ys"
  shows "list_all2 R (sort_key f xs) (sort_key f ys)"
  using assms(2) by (induction xs ys rule: list_all2_induct) (auto intro: list_all2_insort_key assms(1))

text \<open>Two conflicts about the same table, whose three states differ at most in the object of the database
  they were read from.\<close>

definition same_conflict :: "table_state conflict_item \<Rightarrow> table_state conflict_item \<Rightarrow> bool" where
  "same_conflict k k' \<longleftrightarrow> ciID k = ciID k' \<and> EqualTableContent (ciBase k) (ciBase k')
     \<and> EqualTableContent (ciLocal k) (ciLocal k') \<and> EqualTableContent (ciReplica k) (ciReplica k')"

definition tables_distinct :: "conflict_set \<Rightarrow> bool" where
  "tables_distinct st \<longleftrightarrow> distinct (map fst (cdTables (stBase st))) \<and> distinct (map fst (cdTables (stLocal st)))
     \<and> distinct (map fst (cdTables (stReplica st)))"

section \<open>A concrete conflict\<close>

definition demo_file :: "string \<Rightarrow> string \<Rightarrow> file_state" where
  "demo_file i content = \<lparr>fsDocumentID = i, fsPath = i, fsContentID = content, fsMimeType = [], fsDeleted = False\<rparr>"

definition demo_candidate :: "string \<Rightarrow> string \<Rightarrow> string \<Rightarrow> string \<Rightarrow> candidate" where
  "demo_candidate snap x y st = \<lparr>cdSnapshotID = snap, cdBusinessDatabaseObjectID = [], cdSettings = st,
     cdAttachmentObjects = [], cdFiles = [(''x'', demo_file ''x'' x), (''y'', demo_file ''y'' y)],
     cdTables = [], cdRevision = 3\<rparr>"

definition demo_base :: candidate where "demo_base = demo_candidate ''B'' ''1'' ''1'' ''s''"
definition demo_local :: candidate where "demo_local = demo_candidate ''L'' ''2'' ''1'' ''s''"
definition demo_replica :: candidate where "demo_replica = demo_candidate ''R'' ''3'' ''4'' ''s''"

definition demo_hashes :: hashes where
  "demo_hashes = \<lparr>hsCandidate = cdSnapshotID, hsPlan = (\<lambda>_. ''p'')\<rparr>"

definition demo_changes :: "resolved_change list" where
  "demo_changes = (case ResolveChanges demo_hashes (BuildPlan demo_hashes demo_base demo_local demo_replica)
     demo_local demo_replica [(''x'', Replica)] of Inr cs \<Rightarrow> cs | Inl _ \<Rightarrow> [])"

lemma demo_resolves:
  "ResolveChanges demo_hashes (BuildPlan demo_hashes demo_base demo_local demo_replica)
     demo_local demo_replica [(''x'', Replica)] = Inr demo_changes"
  by code_simp

lemma demo_keyed: "keyed demo_base" "keyed demo_local" "keyed demo_replica"
  by code_simp+

section \<open>Properties\<close>



text \<open>The choices give every conflicting item a side it may take.\<close>

definition admissible :: "plan \<Rightarrow> choices \<Rightarrow> bool" where
  "admissible p ch \<longleftrightarrow>
     list_all (\<lambda>k. map_of ch (ciID k) \<in> {Some Local, Some Replica}
        \<or> map_of ch (ciID k) = Some Both \<and> \<not> fsDeleted (ciLocal k) \<and> \<not> fsDeleted (ciReplica k)) (plFiles p)
     \<and> list_all (\<lambda>k. map_of ch (ciID k) \<in> {Some Local, Some Replica}) (plTables p)
     \<and> list_all (\<lambda>k. map_of ch (ciID k) \<in> {Some Local, Some Replica}) (opt_list (plSettings p))"

text \<open>C14. Every plan can be resolved: if there are as many choices as conflicts and they give
  every conflicting document, table and the settings an admissible side, \<open>ResolveChanges\<close> succeeds
  on the candidates the plan was built from.\<close>

theorem plan_resolvable:
  assumes "p = BuildPlan H b l r" "admissible p ch" "length ch = expected_choices p"
  shows "\<exists>changes. ResolveChanges H p l r ch = Inr changes"
proof -
  let ?xs = "map (Inr \<circ> automatic_file l) (plAutomatic p) @ map (resolve_file ch) (plFiles p)
         @ map (Inr \<circ> automatic_table l) (plAutomaticTables p) @ map (resolve_table ch) (plTables p)
         @ map (Inr \<circ> automatic_settings l) (opt_list (plAutomaticSetting p))
         @ map (resolve_settings ch) (opt_list (plSettings p))"
  have f: "\<exists>v. resolve_file ch k = Inr v" if "k \<in> set (plFiles p)" for k
    using assms(2) that by (auto simp: admissible_def list_all_iff resolve_file_def Let_def)
  have t: "\<exists>v. resolve_table ch k = Inr v" if "k \<in> set (plTables p)" for k
    using assms(2) that by (auto simp: admissible_def list_all_iff resolve_table_def choose_side_def)
  have s: "\<exists>v. resolve_settings ch k = Inr v" if "k \<in> set (opt_list (plSettings p))" for k
    using assms(2) that by (auto simp: admissible_def list_all_iff resolve_settings_def choose_side_def)
  have "\<forall>x \<in> set ?xs. \<exists>v. x = Inr v" using f t s by auto
  then have "\<exists>ys. sequence_results ?xs = Inr ys" by (rule sequence_results_ok)
  then show ?thesis using assms(3) by (simp add: ResolveChanges_def assms(1) BuildPlan_fields)
qed

theorem plan_resolvable_witness:
  "\<exists>changes. ResolveChanges demo_hashes (BuildPlan demo_hashes demo_base demo_local demo_replica)
     demo_local demo_replica [(''x'', Both)] = Inr changes"
proof (rule plan_resolvable [OF refl])
  show "admissible (BuildPlan demo_hashes demo_base demo_local demo_replica) [(''x'', Both)]" by code_simp
  show "length [(''x'', Both)] = expected_choices (BuildPlan demo_hashes demo_base demo_local demo_replica)" by code_simp
qed

text \<open>A plan made for other contents is refused: if the local or the replica candidate is not
  the one the plan was built from, and the hash tells the candidates involved apart, then
  \<open>ResolveChanges\<close> reports a stale plan and \<open>Apply\<close> publishes nothing.\<close>

theorem changed_candidate_refused:
  assumes "inj_on (hsCandidate H) {l, l', r, r'}" "l' \<noteq> l \<or> r' \<noteq> r"
  shows "ResolveChanges H (BuildPlan H b l r) l' r' ch = Inl ErrStalePlan
    \<and> Apply H (BuildPlan H b l r) l' r' ch appender = Inl ErrStalePlan"
proof -
  have "candidateHash H l' \<noteq> candidateHash H l \<or> candidateHash H r' \<noteq> candidateHash H r"
    using assms by (auto simp: candidateHash_def inj_on_def)
  then have "ResolveChanges H (BuildPlan H b l r) l' r' ch = Inl ErrStalePlan"
    by (auto simp: ResolveChanges_def BuildPlan_fields)
  then show ?thesis by (simp add: Apply_def)
qed

theorem changed_candidate_refused_witness:
  "ResolveChanges demo_hashes (BuildPlan demo_hashes demo_base demo_local demo_replica) demo_base demo_replica
     [(''x'', Replica)] = Inl ErrStalePlan"
proof -
  have "inj_on (hsCandidate demo_hashes) {demo_local, demo_base, demo_replica, demo_replica}" "demo_base \<noteq> demo_local"
    by (simp_all add: demo_hashes_def demo_base_def demo_local_def demo_replica_def demo_candidate_def)
  then show ?thesis using changed_candidate_refused by blast
qed

text \<open>C15. A rediscovered conflict is the same conflict: if \<open>EquivalentDiscovery\<close> accepts a new
  discovery, then building a plan from it gives the same conflicting documents, the same automatic
  document changes, the same conflicts and automatic changes of tables, one by one and in the same order, up to
  the object of the database a table was read from, and the same decision on the settings.\<close>

theorem equivalent_discovery_same_conflicts:
  assumes "EquivalentDiscovery old new" "tables_distinct old" "tables_distinct new"
    and po_def: "po = BuildPlan H (stBase old) (stLocal old) (stReplica old)"
    and pn_def: "pn = BuildPlan H (stBase new) (stLocal new) (stReplica new)"
  shows "plFiles pn = plFiles po \<and> plAutomatic pn = plAutomatic po
    \<and> list_all2 same_conflict (plTables po) (plTables pn)
    \<and> list_all2 EqualTableContent (plAutomaticTables po) (plAutomaticTables pn)
    \<and> plSettings pn = plSettings po \<and> plAutomaticSetting pn = plAutomaticSetting po"
proof -
  have eq: "equalCandidateContent (stBase old) (stBase new)" "equalCandidateContent (stLocal old) (stLocal new)"
    "equalCandidateContent (stReplica old) (stReplica new)"
    using assms(1) by (simp_all add: EquivalentDiscovery_def)
  have files: "cdFiles (stBase new) = cdFiles (stBase old)" "cdFiles (stLocal new) = cdFiles (stLocal old)"
    "cdFiles (stReplica new) = cdFiles (stReplica old)" "cdSettings (stBase new) = cdSettings (stBase old)"
    "cdSettings (stLocal new) = cdSettings (stLocal old)" "cdSettings (stReplica new) = cdSettings (stReplica old)"
    using eq by (simp_all add: equalCandidateContent_def)
  then have fo: "file_of (stBase new) = file_of (stBase old)" "file_of (stLocal new) = file_of (stLocal old)"
    "file_of (stReplica new) = file_of (stReplica old)" by (simp_all add: file_of_def fun_eq_iff)
  have db: "distinct (map fst (cdTables (stBase old)))" "distinct (map fst (cdTables (stBase new)))"
    and dl: "distinct (map fst (cdTables (stLocal old)))" "distinct (map fst (cdTables (stLocal new)))"
    and dr: "distinct (map fst (cdTables (stReplica old)))" "distinct (map fst (cdTables (stReplica new)))"
    using assms(2,3) by (simp_all add: tables_distinct_def)
  note tb = equal_content_tables [OF eq(1) db] and tl = equal_content_tables [OF eq(2) dl]
    and tr = equal_content_tables [OF eq(3) dr]
  note same = by_content.decide_cong [OF tb(2) tl(2) tr(2)]
  note ids = item_ids_cong [OF tb(1) tl(1) tr(1)]
  have "list_all2 same_conflict (plTables po) (plTables pn)"
    unfolding po_def pn_def BuildPlan_fields conflicts_def ids same
    by (simp add: list_all2_map1 list_all2_map2 list_all2_same same_conflict_def tb(2) tl(2) tr(2))
  moreover have "list_all2 EqualTableContent (plAutomaticTables po) (plAutomaticTables pn)"
    unfolding po_def pn_def BuildPlan_automatic_tables takeovers_def ids same
    by (rule list_all2_sort_key) (simp_all add: EqualTableContent_named list_all2_map1 list_all2_map2 list_all2_same tr(2))
  moreover have "plFiles pn = plFiles po" "plSettings pn = plSettings po" "plAutomaticSetting pn = plAutomaticSetting po"
    using files fo by (simp_all add: po_def pn_def BuildPlan_fields)
  moreover have "plAutomatic pn = plAutomatic po"
    using files fo by (simp add: po_def pn_def BuildPlan_def Let_def)
  ultimately show ?thesis by blast
qed


theorem equivalent_discovery_same_conflicts_witness:
  "map ciID (plFiles (BuildPlan demo_hashes demo_base (demo_local\<lparr>cdSnapshotID := ''L2''\<rparr>) demo_replica)) = [''x'']"
proof -
  let ?old = "\<lparr>stWorkspaceID = ''w'', stBase = demo_base, stLocal = demo_local, stReplica = demo_replica,
    stReplanRequired = False\<rparr>"
  let ?new = "?old\<lparr>stLocal := demo_local\<lparr>cdSnapshotID := ''L2''\<rparr>\<rparr>"
  have "EquivalentDiscovery ?old ?new" "tables_distinct ?old" "tables_distinct ?new" by code_simp+
  moreover have "map ciID (plFiles (BuildPlan demo_hashes demo_base demo_local demo_replica)) = [''x'']" by code_simp
  ultimately show ?thesis
    using equivalent_discovery_same_conflicts [of ?old ?new, OF _ _ _ refl refl, of demo_hashes] by simp
qed

end
