(* ===== verification/Replica_Queue.thy ===== *)
theory Replica_Queue
  imports VT_Prelude "HOL-Library.Product_Lexorder"
begin

text \<open>
  The queue of snapshots to replicate (\<open>sidecar/internal/replica/queue.go\<close>), in its two forms: in
  memory, and in an SQLite table whose rows carry a lease. Workers claim a task, synchronise it
  without holding any lock, and then complete or fail the claim; a claim is identified by a fresh
  token (a UUID, an argument here).

  The table is an association list from task identifiers; the in-memory map of leases is a function
  with the empty token for absent keys, as the code reads it. Database faults are arguments. A
  drain takes, for each turn of its loop, what the environment does in it: the clock, the token,
  what the syncer returns and the faults.
\<close>

section \<open>Data\<close>

definition ErrTaskInvalid :: go_error where "ErrTaskInvalid = Err ''replica.task_invalid''"
definition ErrTaskConflict :: go_error where "ErrTaskConflict = Err ''replica.task_conflict''"
definition ErrTaskLeaseLost :: go_error where "ErrTaskLeaseLost = Err ''replica.task_lease_lost''"
definition ErrQueueClosed :: go_error where "ErrQueueClosed = Err ''replica.queue_closed''"

record sync_task =
  stTaskID :: string
  stWorkspaceID :: string
  stSnapshotID :: string
  stAttempts :: int
  stNextAttempt :: instant
  stLastError :: string
  stCompleted :: bool
  stInFlight :: bool

type_synonym queue_claim = "sync_task \<times> string"

datatype row_state = Queued | InFlight | Completed

record task_row =
  trWorkspaceID :: string
  trSnapshotID :: string
  trAttempts :: int
  trNextAttempt :: instant
  trLastError :: string
  trState :: row_state
  trLeaseToken :: string
  trLeaseUntil :: instant

type_synonym task_table = "(string \<times> task_row) list"

record mem_queue =
  mqTasks :: "(string \<times> sync_task) list"
  mqInflight :: "string \<Rightarrow> string"

datatype queue_store = Memory mem_queue | Durable task_table

record queue =
  quStore :: queue_store
  quClosed :: bool
  quLeaseDuration :: duration

text \<open>The text of an error (\<open>Error()\<close>).\<close>

fun err_text :: "go_error \<Rightarrow> string" where
  "err_text (Err s) = s"
| "err_text (Wrap m e) = m @ '': '' @ err_text e"
| "err_text (Join es) = (case map err_text es of [] \<Rightarrow> []
     | x # xs \<Rightarrow> x @ concat (map ((#) (CHR 0x0A)) xs))"

definition validateTask :: "sync_task \<Rightarrow> unit result" where
  "validateTask t =
     (if go_blank (stTaskID t) \<or> go_blank (stWorkspaceID t) \<or> go_blank (stSnapshotID t) \<or> stAttempts t < 0
      then Inl ErrTaskInvalid else Inr ())"

definition backoff_delay :: "nat \<Rightarrow> duration" where
  "backoff_delay attempts = second * 2 ^ min attempts 10"

interpretation retry: backoff 10 backoff_delay
  by unfold_locales (simp add: backoff_delay_def)

definition retry_at :: "int \<Rightarrow> instant \<Rightarrow> instant" where
  "retry_at attempts now = now + backoff_delay (nat attempts)"

definition NewQueue :: queue where
  "NewQueue = \<lparr>quStore = Memory \<lparr>mqTasks = [], mqInflight = (\<lambda>_. [])\<rparr>, quClosed = False,
     quLeaseDuration = 60 * second\<rparr>"

definition OpenPersistentQueue :: "go_error option \<Rightarrow> string \<Rightarrow> task_table option \<Rightarrow> queue result" where
  "OpenPersistentQueue fault path file =
     (if go_blank path then Inl (Err ''replica.queue_path_required'')
      else case fault of Some e \<Rightarrow> Inl e
      | None \<Rightarrow> Inr \<lparr>quStore = Durable (case file of None \<Rightarrow> [] | Some tbl \<Rightarrow> tbl), quClosed = False,
                   quLeaseDuration = 60 * second\<rparr>)"

section \<open>The durable form\<close>

definition enqueuePersistent :: "go_error option \<times> go_error option \<Rightarrow> sync_task \<Rightarrow> task_table
  \<Rightarrow> task_table \<times> unit result" where
  "enqueuePersistent faults t tbl =
     (case fst faults of Some e \<Rightarrow> (tbl, Inl e)
      | None \<Rightarrow>
          let tbl' = (if map_of tbl (stTaskID t) = None
                      then sql_insert (stTaskID t) \<lparr>trWorkspaceID = stWorkspaceID t, trSnapshotID = stSnapshotID t,
                             trAttempts = stAttempts t, trNextAttempt = stNextAttempt t, trLastError = [],
                             trState = Queued, trLeaseToken = [], trLeaseUntil = 0\<rparr> tbl
                      else tbl)
          in (case snd faults of Some e \<Rightarrow> (tbl', Inl e)
              | None \<Rightarrow>
                  (case map_of tbl' (stTaskID t) of
                     None \<Rightarrow> (tbl', Inl (Err ''sql: no rows in result set''))
                   | Some r \<Rightarrow>
                       if trWorkspaceID r \<noteq> stWorkspaceID t \<or> trSnapshotID r \<noteq> stSnapshotID t
                       then (tbl', Inl ErrTaskConflict) else (tbl', Inr ()))))"

definition row_due :: "instant \<Rightarrow> task_row \<Rightarrow> bool" where
  "row_due now r \<longleftrightarrow> trState r = Queued \<and> trNextAttempt r \<le> now
     \<or> trState r = InFlight \<and> trLeaseUntil r \<le> now"

text \<open>\<open>ORDER BY next_attempt, task_id LIMIT 1\<close>.\<close>

definition next_due :: "instant \<Rightarrow> task_table \<Rightarrow> (string \<times> task_row) option" where
  "next_due now tbl = (case sort_key (\<lambda>(i, r). (trNextAttempt r, i)) (filter (\<lambda>(i, r). row_due now r) tbl) of
     [] \<Rightarrow> None | x # _ \<Rightarrow> Some x)"

definition row_task :: "string \<Rightarrow> task_row \<Rightarrow> sync_task" where
  "row_task i r = \<lparr>stTaskID = i, stWorkspaceID = trWorkspaceID r, stSnapshotID = trSnapshotID r,
     stAttempts = trAttempts r, stNextAttempt = trNextAttempt r, stLastError = trLastError r,
     stCompleted = False, stInFlight = False\<rparr>"

definition sql_claim :: "go_error option \<Rightarrow> instant \<Rightarrow> instant \<Rightarrow> string \<Rightarrow> task_table
  \<Rightarrow> task_table \<times> queue_claim option result" where
  "sql_claim fault now leaseUntil tok tbl =
     (case fault of Some e \<Rightarrow> (tbl, Inl e)
      | None \<Rightarrow>
          (case next_due now tbl of None \<Rightarrow> (tbl, Inr None)
           | Some (i, r) \<Rightarrow>
               let tbl' = sql_update (\<lambda>k _. k = i)
                     (\<lambda>r. r\<lparr>trState := InFlight, trLeaseToken := tok, trLeaseUntil := leaseUntil\<rparr>) tbl;
                   t = row_task i r
               in if validateTask t \<noteq> Inr () then (tbl', Inl (Join [ErrTaskLeaseLost]))
                  else (tbl', Inr (Some (t\<lparr>stInFlight := True\<rparr>, tok)))))"

definition leased :: "queue_claim \<Rightarrow> string \<Rightarrow> task_row \<Rightarrow> bool" where
  "leased c i r \<longleftrightarrow> i = stTaskID (fst c) \<and> trState r = InFlight \<and> trLeaseToken r = snd c"

text \<open>An update of the claimed row and \<open>requireOneTask\<close>.\<close>

definition finish_claim :: "go_error option \<Rightarrow> queue_claim \<Rightarrow> (task_row \<Rightarrow> task_row) \<Rightarrow> task_table
  \<Rightarrow> task_table \<times> unit result" where
  "finish_claim fault c f tbl =
     (case fault of Some e \<Rightarrow> (tbl, Inl e)
      | None \<Rightarrow>
          (sql_update (leased c) f tbl,
           if sql_affected (leased c) tbl \<noteq> 1 then Inl ErrTaskLeaseLost else Inr ()))"

definition sql_complete :: "go_error option \<Rightarrow> queue_claim \<Rightarrow> task_table \<Rightarrow> task_table \<times> unit result" where
  "sql_complete fault c tbl = finish_claim fault c
     (\<lambda>r. r\<lparr>trState := Completed, trLastError := [], trLeaseToken := [], trLeaseUntil := 0\<rparr>) tbl"

definition sql_fail :: "go_error option \<Rightarrow> queue_claim \<Rightarrow> go_error \<Rightarrow> instant \<Rightarrow> task_table
  \<Rightarrow> task_table \<times> unit result" where
  "sql_fail fault c e now tbl =
     (let attempts = stAttempts (fst c) + 1
      in finish_claim fault c
           (\<lambda>r. r\<lparr>trState := Queued, trAttempts := attempts, trNextAttempt := retry_at attempts now,
                  trLastError := err_text e, trLeaseToken := [], trLeaseUntil := 0\<rparr>) tbl)"

definition list_row :: "string \<Rightarrow> task_row \<Rightarrow> sync_task" where
  "list_row i r = (row_task i r)\<lparr>stInFlight := (trState r = InFlight), stCompleted := (trState r = Completed)\<rparr>"

fun list_rows :: "task_table \<Rightarrow> sync_task list result" where
  "list_rows [] = Inr []"
| "list_rows ((i, r) # rs) =
     (if validateTask (row_task i r) \<noteq> Inr () then Inl ErrTaskInvalid
      else map_sum id ((#) (list_row i r)) (list_rows rs))"

definition listPersistent :: "go_error option \<Rightarrow> task_table \<Rightarrow> sync_task list result" where
  "listPersistent fault tbl = (case fault of Some e \<Rightarrow> Inl e | None \<Rightarrow> list_rows (sort_key fst tbl))"

section \<open>The in-memory form\<close>

definition mem_enqueue :: "sync_task \<Rightarrow> mem_queue \<Rightarrow> mem_queue \<times> unit result" where
  "mem_enqueue t m = (case map_of (mqTasks m) (stTaskID t) of
     Some old \<Rightarrow>
       if stWorkspaceID old = stWorkspaceID t \<and> stSnapshotID old = stSnapshotID t then (m, Inr ())
       else (m, Inl ErrTaskConflict)
   | None \<Rightarrow> (m\<lparr>mqTasks := sql_insert (stTaskID t) t (mqTasks m)\<rparr>, Inr ()))"

definition mem_due :: "instant \<Rightarrow> mem_queue \<Rightarrow> string \<times> sync_task \<Rightarrow> bool" where
  "mem_due now m it \<longleftrightarrow> \<not> stCompleted (snd it) \<and> stNextAttempt (snd it) \<le> now \<and> mqInflight m (fst it) = []"

definition mem_claim :: "instant \<Rightarrow> string \<Rightarrow> mem_queue \<Rightarrow> mem_queue \<times> queue_claim option result" where
  "mem_claim now tok m = (case find (mem_due now m) (sort_key fst (mqTasks m)) of
     None \<Rightarrow> (m, Inr None)
   | Some (i, t) \<Rightarrow> (m\<lparr>mqInflight := (mqInflight m)(i := tok)\<rparr>, Inr (Some (t\<lparr>stInFlight := True\<rparr>, tok))))"

text \<open>\<open>queue.tasks[id]\<close> of an absent key is the zero value.\<close>

definition zero_task :: sync_task where
  "zero_task = \<lparr>stTaskID = [], stWorkspaceID = [], stSnapshotID = [], stAttempts = 0,
     stNextAttempt = zero_time, stLastError = [], stCompleted = False, stInFlight = False\<rparr>"

definition mem_finish :: "queue_claim \<Rightarrow> (sync_task \<Rightarrow> sync_task) \<Rightarrow> mem_queue \<Rightarrow> mem_queue \<times> unit result" where
  "mem_finish c f m =
     (let i = stTaskID (fst c)
      in if mqInflight m i \<noteq> snd c then (m, Inl ErrTaskLeaseLost)
         else (m\<lparr>mqTasks := (case map_of (mqTasks m) i of
                    None \<Rightarrow> sql_insert i (f zero_task) (mqTasks m)
                  | Some _ \<Rightarrow> sql_update (\<lambda>k _. k = i) f (mqTasks m)),
                 mqInflight := (mqInflight m)(i := [])\<rparr>, Inr ()))"

definition mem_complete :: "queue_claim \<Rightarrow> mem_queue \<Rightarrow> mem_queue \<times> unit result" where
  "mem_complete c m = mem_finish c (\<lambda>t. t\<lparr>stCompleted := True, stInFlight := False, stLastError := []\<rparr>) m"

definition mem_fail :: "queue_claim \<Rightarrow> go_error \<Rightarrow> instant \<Rightarrow> mem_queue \<Rightarrow> mem_queue \<times> unit result" where
  "mem_fail c e now m =
     (let attempts = stAttempts (fst c) + 1
      in mem_finish c (\<lambda>t. t\<lparr>stAttempts := attempts, stNextAttempt := retry_at attempts now,
           stLastError := err_text e, stInFlight := False\<rparr>) m)"

definition mem_list :: "mem_queue \<Rightarrow> sync_task list" where
  "mem_list m = map (\<lambda>(i, t). t\<lparr>stInFlight := (mqInflight m i \<noteq> [])\<rparr>) (sort_key fst (mqTasks m))"

section \<open>The queue\<close>

definition with_store :: "queue \<Rightarrow> (mem_queue \<Rightarrow> mem_queue \<times> 'a) \<Rightarrow> (task_table \<Rightarrow> task_table \<times> 'a)
  \<Rightarrow> queue \<times> 'a" where
  "with_store q f g = (case quStore q of
     Memory m \<Rightarrow> (case f m of (m', x) \<Rightarrow> (q\<lparr>quStore := Memory m'\<rparr>, x))
   | Durable tbl \<Rightarrow> (case g tbl of (tbl', x) \<Rightarrow> (q\<lparr>quStore := Durable tbl'\<rparr>, x)))"

definition Enqueue :: "go_error option \<times> go_error option \<Rightarrow> instant \<Rightarrow> sync_task \<Rightarrow> queue \<Rightarrow> queue \<times> unit result" where
  "Enqueue faults now t q =
     (if quClosed q then (q, Inl ErrQueueClosed)
      else if validateTask t \<noteq> Inr () then (q, Inl ErrTaskInvalid)
      else let t' = t\<lparr>stNextAttempt := (if stNextAttempt t = zero_time then now else stNextAttempt t),
                      stCompleted := False, stInFlight := False, stLastError := []\<rparr>
           in with_store q (mem_enqueue t') (enqueuePersistent faults t'))"

definition claimNext :: "go_error option \<Rightarrow> instant \<Rightarrow> instant \<Rightarrow> string \<Rightarrow> queue \<Rightarrow> queue \<times> queue_claim option result" where
  "claimNext fault now leaseUntil tok q =
     with_store q (mem_claim now tok) (sql_claim fault now leaseUntil tok)"

definition completeClaim :: "go_error option \<Rightarrow> queue_claim \<Rightarrow> queue \<Rightarrow> queue \<times> unit result" where
  "completeClaim fault c q = with_store q (mem_complete c) (sql_complete fault c)"

definition failClaim :: "go_error option \<Rightarrow> queue_claim \<Rightarrow> go_error \<Rightarrow> instant \<Rightarrow> queue \<Rightarrow> queue \<times> unit result" where
  "failClaim fault c e now q = with_store q (mem_fail c e now) (sql_fail fault c e now)"

definition List :: "go_error option \<Rightarrow> queue \<Rightarrow> sync_task list result" where
  "List fault q =
     (if quClosed q then Inl ErrQueueClosed
      else case quStore q of Memory m \<Rightarrow> Inr (mem_list m) | Durable tbl \<Rightarrow> listPersistent fault tbl)"

text \<open>Closing the durable form drops the database handle, so that a worker still in its loop sees
  nil maps; the rows stay in the file. The arguments are the errors of the checkpoint and of
  \<open>db.Close\<close>.\<close>

definition Close :: "go_error option \<Rightarrow> go_error option \<Rightarrow> queue \<Rightarrow> queue \<times> unit result" where
  "Close checkpointErr closeErr q = (case quStore q of
     Memory _ \<Rightarrow> (q\<lparr>quClosed := True\<rparr>, Inr ())
   | Durable _ \<Rightarrow>
       (q\<lparr>quStore := Memory \<lparr>mqTasks = [], mqInflight = (\<lambda>_. [])\<rparr>, quClosed := True\<rparr>,
        case errors_join [checkpointErr, closeErr] of None \<Rightarrow> Inr () | Some e \<Rightarrow> Inl e))"

record drain_turn =
  dtNow :: instant
  dtToken :: string
  dtSync :: "sync_task \<Rightarrow> go_error option"
  dtFinishedAt :: instant
  dtClaimFault :: "go_error option"
  dtFinishFault :: "go_error option"

text \<open>\<^const>\<open>None\<close>: the loop is still running when the listed turns are over.\<close>

fun drain_loop :: "drain_turn list \<Rightarrow> queue \<Rightarrow> (queue \<times> unit result) option" where
  "drain_loop [] q = None"
| "drain_loop (d # ds) q =
     (case claimNext (dtClaimFault d) (dtNow d) (dtNow d + quLeaseDuration q) (dtToken d) q of
        (q1, Inl e) \<Rightarrow> Some (q1, Inl e)
      | (q1, Inr None) \<Rightarrow> Some (q1, Inr ())
      | (q1, Inr (Some c)) \<Rightarrow>
          (case (case dtSync d (fst c) of
                   Some e \<Rightarrow> failClaim (dtFinishFault d) c e (dtFinishedAt d) q1
                 | None \<Rightarrow> completeClaim (dtFinishFault d) c q1) of
             (q2, Inl e) \<Rightarrow> Some (q2, Inl e)
           | (q2, Inr _) \<Rightarrow> drain_loop ds q2))"

definition Drain :: "drain_turn list \<Rightarrow> queue \<Rightarrow> (queue \<times> unit result) option" where
  "Drain turns q = (if quClosed q then Some (q, Inl ErrQueueClosed) else drain_loop turns q)"


section \<open>The contract of a lease queue\<close>

datatype lease_op = LClaim instant instant string | LComplete queue_claim | LFail queue_claim go_error instant

text \<open>Run a sequence of worker operations, in the order they take effect; the second component is
  the list of the tasks completed in it.\<close>

fun lease_run :: "(instant \<Rightarrow> instant \<Rightarrow> string \<Rightarrow> 'q \<Rightarrow> 'q \<times> queue_claim option result)
  \<Rightarrow> (queue_claim \<Rightarrow> 'q \<Rightarrow> 'q \<times> unit result) \<Rightarrow> (queue_claim \<Rightarrow> go_error \<Rightarrow> instant \<Rightarrow> 'q \<Rightarrow> 'q \<times> unit result)
  \<Rightarrow> lease_op list \<Rightarrow> 'q \<Rightarrow> 'q \<times> string list" where
  "lease_run claim complete fail [] q = (q, [])"
| "lease_run claim complete fail (LClaim now until tok # ops) q =
     lease_run claim complete fail ops (fst (claim now until tok q))"
| "lease_run claim complete fail (LFail c e now # ops) q =
     lease_run claim complete fail ops (fst (fail c e now q))"
| "lease_run claim complete fail (LComplete c # ops) q =
     (case complete c q of (q1, r) \<Rightarrow>
        (case lease_run claim complete fail ops q1 of (q2, done) \<Rightarrow>
           (q2, if r = Inr () then stTaskID (fst c) # done else done)))"

text \<open>Tokens are UUIDs and claims come from the queue: no operation carries an empty token or a
  negative number of attempts.\<close>

fun op_ok :: "lease_op \<Rightarrow> bool" where
  "op_ok (LClaim now until tok) \<longleftrightarrow> tok \<noteq> []"
| "op_ok (LComplete c) \<longleftrightarrow> snd c \<noteq> []"
| "op_ok (LFail c e now) \<longleftrightarrow> snd c \<noteq> [] \<and> 0 \<le> stAttempts (fst c)"

locale lease_queue =
  fixes good :: "'q \<Rightarrow> bool"
    and holder :: "'q \<Rightarrow> string \<Rightarrow> string"
    and finished :: "'q \<Rightarrow> string \<Rightarrow> bool"
    and claim :: "instant \<Rightarrow> instant \<Rightarrow> string \<Rightarrow> 'q \<Rightarrow> 'q \<times> queue_claim option result"
    and complete :: "queue_claim \<Rightarrow> 'q \<Rightarrow> 'q \<times> unit result"
    and fail :: "queue_claim \<Rightarrow> go_error \<Rightarrow> instant \<Rightarrow> 'q \<Rightarrow> 'q \<times> unit result"
  assumes released: "good q \<Longrightarrow> finished q i \<Longrightarrow> holder q i = []"
    and claim_law: "good q \<Longrightarrow> tok \<noteq> [] \<Longrightarrow> claim now until tok q = (q', cr) \<Longrightarrow>
      good q' \<and> finished q' = finished q \<and>
      (cr = Inr None \<and> q' = q \<or>
       (\<exists>t. cr = Inr (Some (t, tok)) \<and> \<not> finished q (stTaskID t) \<and> holder q' = (holder q)(stTaskID t := tok)))"
    and complete_law: "good q \<Longrightarrow> k \<noteq> [] \<Longrightarrow> complete (t, k) q = (q', r) \<Longrightarrow>
      good q' \<and> (if holder q (stTaskID t) = k
        then r = Inr () \<and> finished q' = (finished q)(stTaskID t := True) \<and> holder q' = (holder q)(stTaskID t := [])
        else r = Inl ErrTaskLeaseLost \<and> q' = q)"
    and fail_law: "good q \<Longrightarrow> k \<noteq> [] \<Longrightarrow> 0 \<le> stAttempts t \<Longrightarrow> fail (t, k) e now q = (q', r) \<Longrightarrow>
      good q' \<and> finished q' = finished q \<and> (if holder q (stTaskID t) = k
        then r = Inr () \<and> holder q' = (holder q)(stTaskID t := []) else r = Inl ErrTaskLeaseLost \<and> q' = q)"
begin

lemma finished_not_completed:
  "good q \<Longrightarrow> finished q i \<Longrightarrow> k \<noteq> [] \<Longrightarrow> complete (t, k) q = (q', Inr ()) \<Longrightarrow> stTaskID t \<noteq> i"
  using complete_law [of q k t q' "Inr ()"] released [of q i] by (auto split: if_splits)

lemma run_completes:
  assumes "good q" "list_all op_ok ops" "lease_run claim complete fail ops q = (q', done)"
  shows "good q' \<and> distinct done \<and> (\<forall>i \<in> set done. \<not> finished q i)
    \<and> (\<forall>i. finished q' i \<longleftrightarrow> finished q i \<or> i \<in> set done)"
  using assms
proof (induction ops arbitrary: q "done")
  case (Cons op ops)
  show ?case
  proof (cases op)
    case (LClaim now until tok)
    obtain q1 r where c: "claim now until tok q = (q1, r)" by (cases "claim now until tok q")
    have "tok \<noteq> []" using Cons.prems(2) LClaim by simp
    from claim_law [OF Cons.prems(1) this c] have "good q1" "finished q1 = finished q" by blast+
    then show ?thesis using Cons.IH [of q1 "done"] Cons.prems c LClaim by simp
  next
    case (LFail c e now)
    obtain t k where tk: "c = (t, k)" by (cases c)
    obtain q1 r where f: "fail c e now q = (q1, r)" by (cases "fail c e now q")
    have "k \<noteq> []" "0 \<le> stAttempts t" using Cons.prems(2) LFail tk by simp_all
    from fail_law [OF Cons.prems(1) this f [unfolded tk]] have "good q1" "finished q1 = finished q" by blast+
    then show ?thesis using Cons.IH [of q1 "done"] Cons.prems f LFail by simp
  next
    case (LComplete c)
    obtain t k where tk: "c = (t, k)" by (cases c)
    obtain q1 r where f: "complete c q = (q1, r)" by (cases "complete c q")
    obtain rest where rest: "lease_run claim complete fail ops q1 = (q', rest)"
      and d: "done = (if r = Inr () then stTaskID t # rest else rest)"
      using Cons.prems(3) f LComplete tk by (auto split: prod.splits)
    have k: "k \<noteq> []" using Cons.prems(2) LComplete tk by simp
    note law = complete_law [OF Cons.prems(1) k f [unfolded tk]]
    have IH: "good q' \<and> distinct rest \<and> (\<forall>i \<in> set rest. \<not> finished q1 i) \<and> (\<forall>i. finished q' i \<longleftrightarrow> finished q1 i \<or> i \<in> set rest)"
      using Cons.IH [of q1 rest] law Cons.prems(2) rest by simp
    show ?thesis
    proof (cases "holder q (stTaskID t) = k")
      case True
      then have "\<not> finished q (stTaskID t)" using released [OF Cons.prems(1)] k by metis
      then show ?thesis using True law IH d by (auto split: if_splits)
    next
      case False
      then show ?thesis using law IH d by auto
    qed
  qed
qed simp

text \<open>A worker whose lease was taken over by another claim can neither complete nor fail it.\<close>

lemma overtaken_claim_refused:
  assumes "good q" "k' \<noteq> []" "claim now until k' q = (q', Inr (Some (t', k')))" "stTaskID t' = stTaskID t"
    "k \<noteq> []" "k \<noteq> k'" "0 \<le> stAttempts t"
  shows "complete (t, k) q' = (q', Inl ErrTaskLeaseLost) \<and> fail (t, k) e at q' = (q', Inl ErrTaskLeaseLost)"
proof -
  have law: "good q'" "holder q' (stTaskID t) = k'"
    using claim_law [OF assms(1-3)] assms(4) by auto
  obtain q1 r1 where c: "complete (t, k) q' = (q1, r1)" by (cases "complete (t, k) q'")
  obtain q2 r2 where f: "fail (t, k) e at q' = (q2, r2)" by (cases "fail (t, k) e at q'")
  show ?thesis
    using complete_law [OF law(1) assms(5) c] fail_law [OF law(1) assms(5,7) f] law(2) assms(6) c f by auto
qed

end

section \<open>The durable form keeps the contract\<close>

definition row_good :: "string \<Rightarrow> task_row \<Rightarrow> bool" where
  "row_good i r \<longleftrightarrow> validateTask (row_task i r) = Inr () \<and> (trState r = InFlight \<longleftrightarrow> trLeaseToken r \<noteq> [])"

definition sql_good :: "task_table \<Rightarrow> bool" where
  "sql_good tbl \<longleftrightarrow> tbl_ok tbl \<and> (\<forall>i r. map_of tbl i = Some r \<longrightarrow> row_good i r)"

definition sql_holder :: "task_table \<Rightarrow> string \<Rightarrow> string" where
  "sql_holder tbl i = (case map_of tbl i of None \<Rightarrow> [] | Some r \<Rightarrow> if trState r = InFlight then trLeaseToken r else [])"

definition sql_finished :: "task_table \<Rightarrow> string \<Rightarrow> bool" where
  "sql_finished tbl i \<longleftrightarrow> (case map_of tbl i of None \<Rightarrow> False | Some r \<Rightarrow> trState r = Completed)"

lemma next_due_Some:
  assumes "tbl_ok tbl" "next_due now tbl = Some (i, r)"
  shows "map_of tbl i = Some r" "row_due now r"
    "\<And>j s. map_of tbl j = Some s \<Longrightarrow> row_due now s \<Longrightarrow> (trNextAttempt r, i) \<le> (trNextAttempt s, j)"
proof -
  let ?f = "\<lambda>(i, r). (trNextAttempt r, i)" and ?due = "filter (\<lambda>(i, r). row_due now r) tbl"
  obtain rest where s: "sort_key ?f ?due = (i, r) # rest"
    using assms(2) by (auto simp: next_due_def split: list.splits)
  then have mem: "set ?due = insert (i, r) (set rest)" by (metis list.set(2) set_sort)
  then have ir: "(i, r) \<in> set tbl" "row_due now r" by auto
  then show "map_of tbl i = Some r" "row_due now r" using assms(1) by (simp_all add: tbl_ok_def)
  have "sorted (map ?f ((i, r) # rest))" using sorted_sort_key [of ?f ?due] s by simp
  then have le: "\<forall>x \<in> set rest. ?f (i, r) \<le> ?f x" by simp
  fix j u assume "map_of tbl j = Some u" "row_due now u"
  then have "(j, u) \<in> set ?due" by (auto dest: map_of_SomeD)
  then have "(j, u) = (i, r) \<or> (j, u) \<in> set rest" using mem by blast
  then show "(trNextAttempt r, i) \<le> (trNextAttempt u, j)" using bspec [OF le, of "(j, u)"] by auto
qed

lemma next_due_None: "tbl_ok tbl \<Longrightarrow> next_due now tbl = None \<longleftrightarrow> (\<forall>i r. map_of tbl i = Some r \<longrightarrow> \<not> row_due now r)"
proof -
  assume ok: "tbl_ok tbl"
  have "next_due now tbl = None \<longleftrightarrow> filter (\<lambda>(i, r). row_due now r) tbl = []"
    by (auto simp: next_due_def split: list.splits dest: arg_cong [of _ _ length])
  also have "\<dots> \<longleftrightarrow> (\<forall>i r. map_of tbl i = Some r \<longrightarrow> \<not> row_due now r)"
    using ok by (auto simp: filter_empty_conv tbl_ok_def)
  finally show ?thesis .
qed

text \<open>The effect of a claim on a well-formed table.\<close>

lemma sql_claim_effect:
  assumes "sql_good tbl" "sql_claim None now until tok tbl = (tbl', x)"
  shows "x = Inr None \<and> tbl' = tbl \<and> next_due now tbl = None
    \<or> (\<exists>i r. next_due now tbl = Some (i, r) \<and> map_of tbl i = Some r
         \<and> x = Inr (Some ((row_task i r)\<lparr>stInFlight := True\<rparr>, tok))
         \<and> tbl_ok tbl' \<and> map_of tbl' = (map_of tbl)(i \<mapsto>
             r\<lparr>trState := InFlight, trLeaseToken := tok, trLeaseUntil := until\<rparr>))"
proof (cases "next_due now tbl")
  case None
  with assms(2) show ?thesis by (simp add: sql_claim_def)
next
  case (Some ir)
  obtain i r where ir: "next_due now tbl = Some (i, r)" using Some by (cases ir) simp
  have ok: "tbl_ok tbl" using assms(1) by (simp add: sql_good_def)
  note nd = next_due_Some [OF ok ir]
  have "validateTask (row_task i r) = Inr ()" using assms(1) nd(1) by (simp add: sql_good_def row_good_def)
  then have r: "x = Inr (Some ((row_task i r)\<lparr>stInFlight := True\<rparr>, tok))"
    "tbl' = sql_update (\<lambda>k _. k = i) (\<lambda>r. r\<lparr>trState := InFlight, trLeaseToken := tok, trLeaseUntil := until\<rparr>) tbl"
    using assms(2) ir by (simp_all add: sql_claim_def Let_def)
  have "map_of tbl' = (map_of tbl)(i \<mapsto> r\<lparr>trState := InFlight, trLeaseToken := tok, trLeaseUntil := until\<rparr>)"
    using nd(1) by (auto simp: r fun_eq_iff option.map_ident)
  moreover have "tbl_ok tbl'" using ok by (simp add: r)
  ultimately show ?thesis using ir nd(1) r(1) by blast
qed

lemma finish_claim_effect:
  assumes "sql_good tbl" "k \<noteq> []" "finish_claim None (t, k) f tbl = (tbl', x)"
  shows "if sql_holder tbl (stTaskID t) = k
    then x = Inr () \<and> tbl_ok tbl' \<and> (\<exists>r. map_of tbl (stTaskID t) = Some r \<and> trState r = InFlight
           \<and> map_of tbl' = (map_of tbl)(stTaskID t \<mapsto> f r))
    else x = Inl ErrTaskLeaseLost \<and> tbl' = tbl"
proof -
  let ?i = "stTaskID t"
  have ok: "tbl_ok tbl" using assms(1) by (simp add: sql_good_def)
  have l: "leased (t, k) = (\<lambda>i r. i = ?i \<and> trState r = InFlight \<and> trLeaseToken r = k)"
    by (auto simp: leased_def fun_eq_iff)
  have aff: "sql_affected (leased (t, k)) tbl = (if sql_holder tbl ?i = k then 1 else 0)"
    using sql_affected_key [OF ok, of ?i "\<lambda>r. trState r = InFlight \<and> trLeaseToken r = k"] assms(2)
    by (auto simp: l sql_holder_def split: option.splits)
  have x: "x = (if sql_affected (leased (t, k)) tbl \<noteq> 1 then Inl ErrTaskLeaseLost else Inr ())"
    and tbl': "tbl' = sql_update (leased (t, k)) f tbl" using assms(3) by (simp_all add: finish_claim_def)
  show ?thesis
  proof (cases "sql_holder tbl ?i = k")
    case True
    then obtain r where r: "map_of tbl ?i = Some r" "trState r = InFlight" "trLeaseToken r = k"
      using assms(2) by (auto simp: sql_holder_def split: option.splits if_splits)
    then have "map_of tbl' = (map_of tbl)(?i \<mapsto> f r)"
      by (auto simp: tbl' l fun_eq_iff option.map_ident)
    moreover have "tbl_ok tbl'" using ok by (simp add: tbl')
    ultimately show ?thesis using True x aff r by auto
  next
    case False
    have "sql_update (leased (t, k)) f tbl = tbl"
    proof -
      have "\<not> leased (t, k) i r" if "(i, r) \<in> set tbl" for i r
        using False that ok assms(2) by (auto simp: l sql_holder_def tbl_ok_def)
      then show ?thesis by (auto simp: sql_update_def intro!: map_idI)
    qed
    then show ?thesis using False x aff tbl' by simp
  qed
qed

lemma sql_good_upd:
  "sql_good tbl \<Longrightarrow> tbl_ok tbl' \<Longrightarrow> map_of tbl' = (map_of tbl)(i \<mapsto> r) \<Longrightarrow> row_good i r \<Longrightarrow> sql_good tbl'"
  by (auto simp: sql_good_def)

lemma row_goodD: "sql_good tbl \<Longrightarrow> map_of tbl i = Some r \<Longrightarrow> row_good i r"
  by (simp add: sql_good_def)

lemma validate_row: "validateTask (row_task i r) = Inr () \<longleftrightarrow>
    \<not> go_blank i \<and> \<not> go_blank (trWorkspaceID r) \<and> \<not> go_blank (trSnapshotID r) \<and> 0 \<le> trAttempts r"
  by (auto simp: validateTask_def row_task_def)

interpretation sq: lease_queue sql_good sql_holder sql_finished "sql_claim None" "sql_complete None" "sql_fail None"
proof unfold_locales
  show "sql_holder q i = []" if "sql_good q" "sql_finished q i" for q i
    using that by (auto simp: sql_finished_def sql_holder_def split: option.splits)
next
  fix q tok now until q' cr assume q: "sql_good q" and tok: "tok \<noteq> ([]::string)"
    and c: "sql_claim None now until tok q = (q', cr)"
  from sql_claim_effect [OF q c] show "sql_good q' \<and> sql_finished q' = sql_finished q \<and>
      (cr = Inr None \<and> q' = q \<or> (\<exists>t. cr = Inr (Some (t, tok)) \<and> \<not> sql_finished q (stTaskID t)
         \<and> sql_holder q' = (sql_holder q)(stTaskID t := tok)))"
  proof (elim disjE conjE exE)
    fix i r assume e: "next_due now q = Some (i, r)" "map_of q i = Some r"
      "cr = Inr (Some ((row_task i r)\<lparr>stInFlight := True\<rparr>, tok))" "tbl_ok q'"
      "map_of q' = (map_of q)(i \<mapsto> r\<lparr>trState := InFlight, trLeaseToken := tok, trLeaseUntil := until\<rparr>)"
    have due: "trState r \<noteq> Completed" using next_due_Some(2) [OF _ e(1)] q by (auto simp: sql_good_def row_due_def)
    have "row_good i (r\<lparr>trState := InFlight, trLeaseToken := tok, trLeaseUntil := until\<rparr>)"
      using row_goodD [OF q e(2)] tok by (simp add: row_good_def validate_row)
    then have "sql_good q'" using sql_good_upd [OF q e(4,5)] by simp
    moreover have "sql_finished q' = sql_finished q" "\<not> sql_finished q i"
      using e(2,5) due by (auto simp: sql_finished_def fun_eq_iff)
    moreover have "sql_holder q' = (sql_holder q)(i := tok)" using e(5) by (auto simp: sql_holder_def fun_eq_iff)
    moreover have "stTaskID ((row_task i r)\<lparr>stInFlight := True\<rparr>) = i" by (simp add: row_task_def)
    ultimately show ?thesis using e(3) by auto
  qed (use q in auto)
next
  fix q k t q' x assume q: "sql_good q" and k: "k \<noteq> ([]::string)" and c: "sql_complete None (t, k) q = (q', x)"
  note eff = finish_claim_effect [OF q k c [unfolded sql_complete_def]]
  show "sql_good q' \<and> (if sql_holder q (stTaskID t) = k
        then x = Inr () \<and> sql_finished q' = (sql_finished q)(stTaskID t := True) \<and> sql_holder q' = (sql_holder q)(stTaskID t := [])
        else x = Inl ErrTaskLeaseLost \<and> q' = q)"
  proof (cases "sql_holder q (stTaskID t) = k")
    case True
    then obtain r where r: "x = Inr ()" "tbl_ok q'" "map_of q (stTaskID t) = Some r"
      "map_of q' = (map_of q)(stTaskID t \<mapsto> r\<lparr>trState := Completed, trLastError := [], trLeaseToken := [], trLeaseUntil := 0\<rparr>)"
      using eff by auto
    then have "sql_good q'"
      using sql_good_upd [OF q r(2,4)] row_goodD [OF q r(3)] by (simp add: row_good_def validate_row)
    then show ?thesis using True r by (auto simp: sql_finished_def sql_holder_def fun_eq_iff)
  qed (use eff q in simp)
next
  fix q k t e now q' x assume q: "sql_good q" and k: "k \<noteq> ([]::string)" and a: "0 \<le> stAttempts t"
    and c: "sql_fail None (t, k) e now q = (q', x)"
  note eff = finish_claim_effect [OF q k c [unfolded sql_fail_def Let_def]]
  show "sql_good q' \<and> sql_finished q' = sql_finished q \<and> (if sql_holder q (stTaskID t) = k
        then x = Inr () \<and> sql_holder q' = (sql_holder q)(stTaskID t := []) else x = Inl ErrTaskLeaseLost \<and> q' = q)"
  proof (cases "sql_holder q (stTaskID t) = k")
    case True
    then obtain r where r: "x = Inr ()" "tbl_ok q'" "map_of q (stTaskID t) = Some r" "trState r = InFlight"
      "map_of q' = (map_of q)(stTaskID t \<mapsto> r\<lparr>trState := Queued, trAttempts := stAttempts t + 1,
         trNextAttempt := retry_at (stAttempts t + 1) now, trLastError := err_text e, trLeaseToken := [], trLeaseUntil := 0\<rparr>)"
      using eff by auto
    then have "sql_good q'"
      using sql_good_upd [OF q r(2,5)] row_goodD [OF q r(3)] a by (simp add: row_good_def validate_row)
    then show ?thesis using True r by (auto simp: sql_finished_def sql_holder_def fun_eq_iff)
  qed (use eff q in simp)
qed

section \<open>The in-memory form keeps the contract\<close>

definition mem_good :: "mem_queue \<Rightarrow> bool" where
  "mem_good m \<longleftrightarrow> tbl_ok (mqTasks m)
     \<and> (\<forall>i t. map_of (mqTasks m) i = Some t \<longrightarrow> stTaskID t = i \<and> 0 \<le> stAttempts t)
     \<and> (\<forall>i. mqInflight m i \<noteq> [] \<longrightarrow> (\<exists>t. map_of (mqTasks m) i = Some t \<and> \<not> stCompleted t))"

definition mem_finished :: "mem_queue \<Rightarrow> string \<Rightarrow> bool" where
  "mem_finished m i \<longleftrightarrow> (case map_of (mqTasks m) i of None \<Rightarrow> False | Some t \<Rightarrow> stCompleted t)"

lemma mem_claim_effect:
  assumes "mem_good m" "mem_claim now tok m = (m', x)"
  shows "x = Inr None \<and> m' = m
    \<or> (\<exists>i t. map_of (mqTasks m) i = Some t \<and> mem_due now m (i, t) \<and> stTaskID t = i \<and> 0 \<le> stAttempts t
         \<and> x = Inr (Some (t\<lparr>stInFlight := True\<rparr>, tok)) \<and> m' = m\<lparr>mqInflight := (mqInflight m)(i := tok)\<rparr>)"
proof (cases "find (mem_due now m) (sort_key fst (mqTasks m))")
  case None
  with assms(2) show ?thesis by (simp add: mem_claim_def)
next
  case (Some it)
  obtain i t where it: "it = (i, t)" by (cases it)
  have "it \<in> set (sort_key fst (mqTasks m))" and due: "mem_due now m it"
    using Some by (auto simp only: find_Some_iff intro: nth_mem)
  then have "it \<in> set (mqTasks m)" by simp
  then have mo: "map_of (mqTasks m) i = Some t" using assms(1) it by (simp add: mem_good_def tbl_ok_def)
  moreover have "stTaskID t = i" "0 \<le> stAttempts t" using mo assms(1) by (simp_all add: mem_good_def)
  moreover have "x = Inr (Some (t\<lparr>stInFlight := True\<rparr>, tok))" "m' = m\<lparr>mqInflight := (mqInflight m)(i := tok)\<rparr>"
    using assms(2) Some it by (simp_all add: mem_claim_def)
  ultimately show ?thesis using due it by blast
qed

lemma mem_finish_effect:
  assumes "mem_good m" "k \<noteq> []" "mem_finish (t, k) f m = (m', x)"
  shows "if mqInflight m (stTaskID t) = k
    then x = Inr () \<and> tbl_ok (mqTasks m') \<and> mqInflight m' = (mqInflight m)(stTaskID t := [])
      \<and> (\<exists>u. map_of (mqTasks m) (stTaskID t) = Some u \<and> \<not> stCompleted u \<and> stTaskID u = stTaskID t \<and> 0 \<le> stAttempts u
           \<and> map_of (mqTasks m') = (map_of (mqTasks m))(stTaskID t \<mapsto> f u))
    else x = Inl ErrTaskLeaseLost \<and> m' = m"
proof (cases "mqInflight m (stTaskID t) = k")
  case True
  then obtain u where u: "map_of (mqTasks m) (stTaskID t) = Some u" "\<not> stCompleted u" "stTaskID u = stTaskID t"
    "0 \<le> stAttempts u" using assms(1,2) by (auto simp: mem_good_def)
  have m': "x = Inr ()" "m' = m\<lparr>mqTasks := sql_update (\<lambda>k _. k = stTaskID t) f (mqTasks m),
      mqInflight := (mqInflight m)(stTaskID t := [])\<rparr>"
    using assms(3) True u by (simp_all add: mem_finish_def Let_def)
  have "map_of (mqTasks m') = (map_of (mqTasks m))(stTaskID t \<mapsto> f u)"
    using u(1) by (auto simp: m' fun_eq_iff option.map_ident)
  then show ?thesis using True u m' assms(1) by (simp add: mem_good_def)
next
  case False
  then show ?thesis using assms(3) by (simp add: mem_finish_def)
qed

lemma mem_good_finish:
  assumes "mem_good m" "tbl_ok (mqTasks m')" "mqInflight m' = (mqInflight m)(i := [])"
    "map_of (mqTasks m') = (map_of (mqTasks m))(i \<mapsto> u)" "stTaskID u = i" "0 \<le> stAttempts u"
  shows "mem_good m'"
  using assms by (auto simp: mem_good_def)

interpretation mq: lease_queue mem_good mqInflight mem_finished "\<lambda>now until tok. mem_claim now tok" mem_complete mem_fail
proof unfold_locales
  show "mqInflight q i = []" if "mem_good q" "mem_finished q i" for q i
    using that by (auto simp: mem_good_def mem_finished_def split: option.splits)
next
  fix q tok now q' cr assume q: "mem_good q" and tok: "tok \<noteq> ([]::string)" and c: "mem_claim now tok q = (q', cr)"
  from mem_claim_effect [OF q c] show "mem_good q' \<and> mem_finished q' = mem_finished q \<and>
      (cr = Inr None \<and> q' = q \<or> (\<exists>t. cr = Inr (Some (t, tok)) \<and> \<not> mem_finished q (stTaskID t)
         \<and> mqInflight q' = (mqInflight q)(stTaskID t := tok)))"
  proof (elim disjE conjE exE)
    fix i t assume e: "map_of (mqTasks q) i = Some t" "mem_due now q (i, t)" "stTaskID t = i"
      "cr = Inr (Some (t\<lparr>stInFlight := True\<rparr>, tok))" "q' = q\<lparr>mqInflight := (mqInflight q)(i := tok)\<rparr>"
    have "mem_good q'" using q e(1,2) by (simp add: e(5) mem_good_def mem_due_def)
    moreover have "mem_finished q' = mem_finished q" "\<not> mem_finished q i"
      using e(1,2) by (simp_all add: e(5) mem_finished_def mem_due_def fun_eq_iff)
    ultimately show ?thesis using e(3,4,5) by auto
  qed (use q in auto)
next
  fix q k t q' x assume q: "mem_good q" and k: "k \<noteq> ([]::string)" and c: "mem_complete (t, k) q = (q', x)"
  note eff = mem_finish_effect [OF q k c [unfolded mem_complete_def]]
  show "mem_good q' \<and> (if mqInflight q (stTaskID t) = k
        then x = Inr () \<and> mem_finished q' = (mem_finished q)(stTaskID t := True) \<and> mqInflight q' = (mqInflight q)(stTaskID t := [])
        else x = Inl ErrTaskLeaseLost \<and> q' = q)"
    using eff q mem_good_finish [OF q, of q' "stTaskID t"] by (auto simp: mem_finished_def fun_eq_iff split: if_splits)
next
  fix q k t e now q' x assume q: "mem_good q" and k: "k \<noteq> ([]::string)" and a: "0 \<le> stAttempts t" and c: "mem_fail (t, k) e now q = (q', x)"
  note eff = mem_finish_effect [OF q k c [unfolded mem_fail_def Let_def]]
  show "mem_good q' \<and> mem_finished q' = mem_finished q \<and> (if mqInflight q (stTaskID t) = k
        then x = Inr () \<and> mqInflight q' = (mqInflight q)(stTaskID t := []) else x = Inl ErrTaskLeaseLost \<and> q' = q)"
    using eff q a mem_good_finish [OF q, of q' "stTaskID t"] by (auto simp: mem_finished_def fun_eq_iff split: if_splits)
qed


section \<open>The queue keeps the contract in both forms\<close>

definition queue_good :: "queue \<Rightarrow> bool" where
  "queue_good q \<longleftrightarrow> (case quStore q of Memory m \<Rightarrow> mem_good m | Durable tbl \<Rightarrow> sql_good tbl)"

definition queue_holder :: "queue \<Rightarrow> string \<Rightarrow> string" where
  "queue_holder q = (case quStore q of Memory m \<Rightarrow> mqInflight m | Durable tbl \<Rightarrow> sql_holder tbl)"

definition queue_finished :: "queue \<Rightarrow> string \<Rightarrow> bool" where
  "queue_finished q = (case quStore q of Memory m \<Rightarrow> mem_finished m | Durable tbl \<Rightarrow> sql_finished tbl)"

lemmas queue_views = queue_good_def queue_holder_def queue_finished_def

lemma with_store_cases:
  assumes "with_store q f g = (q', x)"
  obtains (mem) m m' where "quStore q = Memory m" "f m = (m', x)" "q' = q\<lparr>quStore := Memory m'\<rparr>"
    | (sql) tbl tbl' where "quStore q = Durable tbl" "g tbl = (tbl', x)" "q' = q\<lparr>quStore := Durable tbl'\<rparr>"
  using assms by (auto simp: with_store_def split: queue_store.splits prod.splits)

lemma same_store: "quStore q = s \<Longrightarrow> q\<lparr>quStore := s\<rparr> = q"
  by (cases q) simp

interpretation wq: lease_queue queue_good queue_holder queue_finished "claimNext None" "completeClaim None" "failClaim None"
proof unfold_locales
  show "queue_holder q i = []" if "queue_good q" "queue_finished q i" for q i
    using that sq.released mq.released by (auto simp: queue_views split: queue_store.splits)
next
  fix q tok now until q' cr assume q: "queue_good q" and tok: "tok \<noteq> ([]::string)"
    and c: "claimNext None now until tok q = (q', cr)"
  from c [unfolded claimNext_def] show "queue_good q' \<and> queue_finished q' = queue_finished q \<and>
      (cr = Inr None \<and> q' = q \<or> (\<exists>t. cr = Inr (Some (t, tok)) \<and> \<not> queue_finished q (stTaskID t)
         \<and> queue_holder q' = (queue_holder q)(stTaskID t := tok)))"
  proof (cases rule: with_store_cases)
    case (mem m m')
    then show ?thesis using mq.claim_law [of m tok now m' cr] q tok by (auto simp: queue_views same_store)
  next
    case (sql tbl tbl')
    then show ?thesis using sq.claim_law [of tbl tok now until tbl' cr] q tok by (auto simp: queue_views same_store)
  qed
next
  fix q k t q' x assume q: "queue_good q" and k: "k \<noteq> ([]::string)" and c: "completeClaim None (t, k) q = (q', x)"
  from c [unfolded completeClaim_def] show "queue_good q' \<and> (if queue_holder q (stTaskID t) = k
        then x = Inr () \<and> queue_finished q' = (queue_finished q)(stTaskID t := True) \<and> queue_holder q' = (queue_holder q)(stTaskID t := [])
        else x = Inl ErrTaskLeaseLost \<and> q' = q)"
  proof (cases rule: with_store_cases)
    case (mem m m')
    then show ?thesis using mq.complete_law [of m k t m' x] q k by (auto simp: queue_views same_store)
  next
    case (sql tbl tbl')
    then show ?thesis using sq.complete_law [of tbl k t tbl' x] q k by (auto simp: queue_views same_store)
  qed
next
  fix q k t e now q' x assume q: "queue_good q" and k: "k \<noteq> ([]::string)" and a: "0 \<le> stAttempts t"
    and c: "failClaim None (t, k) e now q = (q', x)"
  from c [unfolded failClaim_def] show "queue_good q' \<and> queue_finished q' = queue_finished q \<and> (if queue_holder q (stTaskID t) = k
        then x = Inr () \<and> queue_holder q' = (queue_holder q)(stTaskID t := []) else x = Inl ErrTaskLeaseLost \<and> q' = q)"
  proof (cases rule: with_store_cases)
    case (mem m m')
    then show ?thesis using mq.fail_law [of m k t e now m' x] q k a by (auto simp: queue_views same_store)
  next
    case (sql tbl tbl')
    then show ?thesis using sq.fail_law [of tbl k t e now tbl' x] q k a by (auto simp: queue_views same_store)
  qed
qed

lemma good_NewQueue: "queue_good NewQueue"
  by (simp add: NewQueue_def queue_good_def mem_good_def)

lemma mem_enqueue_good:
  assumes "mem_good m" "validateTask t = Inr ()" "\<not> stCompleted t" shows "mem_good (fst (mem_enqueue t m))"
proof (cases "map_of (mqTasks m) (stTaskID t)")
  case None
  have "0 \<le> stAttempts t" using assms(2) by (simp add: validateTask_def split: if_splits)
  then show ?thesis using assms(1) None by (force simp: mem_enqueue_def mem_good_def split: option.splits)
qed (use assms in \<open>simp add: mem_enqueue_def\<close>)

lemma sql_enqueue_good:
  assumes "sql_good tbl" "validateTask t = Inr ()" shows "sql_good (fst (enqueuePersistent (None, fault) t tbl))"
proof (cases "map_of tbl (stTaskID t)")
  case None
  let ?r = "\<lparr>trWorkspaceID = stWorkspaceID t, trSnapshotID = stSnapshotID t, trAttempts = stAttempts t,
    trNextAttempt = stNextAttempt t, trLastError = [], trState = Queued, trLeaseToken = [], trLeaseUntil = 0\<rparr>"
  have "row_good (stTaskID t) ?r" using assms(2) by (simp add: row_good_def validateTask_def row_task_def split: if_splits)
  then have "sql_good (sql_insert (stTaskID t) ?r tbl)"
    using assms(1) None by (auto simp: sql_good_def split: option.splits if_splits)
  moreover have "fst (enqueuePersistent (None, fault) t tbl) = sql_insert (stTaskID t) ?r tbl"
    using None by (simp add: enqueuePersistent_def Let_def split: option.splits)
  ultimately show ?thesis by simp
next
  case (Some a)
  then have "fst (enqueuePersistent (None, fault) t tbl) = tbl"
    by (simp add: enqueuePersistent_def Let_def split: option.splits)
  then show ?thesis using assms(1) by simp
qed


section \<open>What is due, and the drain\<close>

definition queue_due :: "instant \<Rightarrow> queue \<Rightarrow> string list" where
  "queue_due now q = (case quStore q of Memory m \<Rightarrow> map fst (filter (mem_due now m) (mqTasks m))
     | Durable tbl \<Rightarrow> map fst (filter (\<lambda>(i, r). row_due now r) tbl))"

lemma due_keys: "tbl_ok t \<Longrightarrow> distinct (map fst (filter P t)) \<and> set (map fst (filter P t)) = {i. \<exists>r. map_of t i = Some r \<and> P (i, r)}"
  by (auto simp: tbl_ok_def distinct_map_filter image_iff dest: map_of_SomeD)

text \<open>One turn that claims a task and finishes the claim removes exactly that task from what is due
  at any instant up to the retry.\<close>

definition finish_turn :: "drain_turn \<Rightarrow> queue_claim \<Rightarrow> queue \<Rightarrow> queue \<times> unit result" where
  "finish_turn d c q = (case dtSync d (fst c) of Some e \<Rightarrow> failClaim (dtFinishFault d) c e (dtFinishedAt d) q
     | None \<Rightarrow> completeClaim (dtFinishFault d) c q)"

text \<open>A turn without faults within two seconds (the smallest retry delay) before \<open>T\<close>.\<close>

definition turn_ok :: "instant \<Rightarrow> drain_turn \<Rightarrow> bool" where
  "turn_ok T d \<longleftrightarrow> dtClaimFault d = None \<and> dtFinishFault d = None \<and> dtToken d \<noteq> [] \<and> dtNow d \<le> T
     \<and> T < dtFinishedAt d + 2 * second"

lemma retry_after: "0 \<le> a \<Longrightarrow> now + 2 * second \<le> retry_at (a + 1) now"
proof -
  assume "0 \<le> a"
  then have "1 \<le> nat (a + 1)" by simp
  from retry.delay_mono [OF this] show ?thesis by (simp add: retry_at_def retry.delay_eq)
qed

lemma sql_claimed_finish:
  assumes good: "sql_good tbl" and tok: "tok \<noteq> []" and c: "sql_claim None now until tok tbl = (tbl1, Inr (Some c))"
  obtains i r where "next_due now tbl = Some (i, r)" "map_of tbl i = Some r" "stTaskID (fst c) = i"
    "stAttempts (fst c) = trAttempts r" "0 \<le> trAttempts r"
    "\<And>f. \<exists>tbl2. finish_claim None c f tbl1 = (tbl2, Inr ()) \<and> tbl_ok tbl2
       \<and> map_of tbl2 = (map_of tbl)(i \<mapsto> f (r\<lparr>trState := InFlight, trLeaseToken := tok, trLeaseUntil := until\<rparr>))"
proof -
  let ?up = "\<lambda>r. r\<lparr>trState := InFlight, trLeaseToken := tok, trLeaseUntil := until\<rparr>"
  from sql_claim_effect [OF good c] obtain i r where r: "next_due now tbl = Some (i, r)" "map_of tbl i = Some r"
    "c = ((row_task i r)\<lparr>stInFlight := True\<rparr>, tok)" "map_of tbl1 = (map_of tbl)(i \<mapsto> ?up r)"
    by auto
  have good1: "sql_good tbl1" using sq.claim_law [OF good tok c] by blast
  have i: "stTaskID (fst c) = i" and a: "stAttempts (fst c) = trAttempts r" "0 \<le> trAttempts r"
    using row_goodD [OF good r(2)] by (simp_all add: r(3) row_task_def row_good_def validateTask_def split: if_splits)
  have h: "sql_holder tbl1 i = tok" by (simp add: sql_holder_def r(4))
  have eff: "\<exists>tbl2. finish_claim None c f tbl1 = (tbl2, Inr ()) \<and> tbl_ok tbl2 \<and> map_of tbl2 = (map_of tbl)(i \<mapsto> f (?up r))" for f
    using finish_claim_effect [OF good1 tok, of "fst c" f "fst (finish_claim None c f tbl1)" "snd (finish_claim None c f tbl1)"]
      h i r(3,4) by (cases "finish_claim None c f tbl1") auto
  show ?thesis using that [OF r(1,2) i a eff] .
qed

lemma sql_turn:
  assumes good: "sql_good tbl" and d: "turn_ok T d" and q: "quStore q = Durable tbl"
    and c: "claimNext None (dtNow d) until (dtToken d) q = (q1, Inr (Some c))"
  shows "\<exists>q2. finish_turn d c q1 = (q2, Inr ()) \<and> set (queue_due T q2) = set (queue_due T q) - {stTaskID (fst c)}
    \<and> stTaskID (fst c) \<in> set (queue_due T q)"
proof -
  let ?up = "\<lambda>r. r\<lparr>trState := InFlight, trLeaseToken := dtToken d, trLeaseUntil := until\<rparr>"
  have ok: "tbl_ok tbl" and tok: "dtToken d \<noteq> []" using good d by (simp_all add: sql_good_def turn_ok_def)
  obtain tbl1 where tbl1: "sql_claim None (dtNow d) until (dtToken d) tbl = (tbl1, Inr (Some c))" "q1 = q\<lparr>quStore := Durable tbl1\<rparr>"
    using c q by (auto simp: claimNext_def with_store_def split: prod.splits)
  obtain i r where r: "next_due (dtNow d) tbl = Some (i, r)" "map_of tbl i = Some r" and i: "stTaskID (fst c) = i"
    and a: "stAttempts (fst c) = trAttempts r" "0 \<le> trAttempts r"
    and eff: "\<And>f. \<exists>tbl2. finish_claim None c f tbl1 = (tbl2, Inr ()) \<and> tbl_ok tbl2 \<and> map_of tbl2 = (map_of tbl)(i \<mapsto> f (?up r))"
    using sql_claimed_finish [OF good tok tbl1(1)] by blast
  have due: "row_due T r" using next_due_Some(2) [OF ok r(1)] d by (auto simp: row_due_def turn_ok_def)
  obtain tbl2 r2 where t2: "finish_turn d c q1 = (q1\<lparr>quStore := Durable tbl2\<rparr>, Inr ())" "tbl_ok tbl2"
      "map_of tbl2 = (map_of tbl)(i \<mapsto> r2)" "\<not> row_due T r2"
  proof (cases "dtSync d (fst c)")
    case None
    from eff [of "\<lambda>r. r\<lparr>trState := Completed, trLastError := [], trLeaseToken := [], trLeaseUntil := 0\<rparr>"]
    obtain tbl2 where e: "sql_complete None c tbl1 = (tbl2, Inr ())" "tbl_ok tbl2" "map_of tbl2 = (map_of tbl)(i \<mapsto>
        (?up r)\<lparr>trState := Completed, trLastError := [], trLeaseToken := [], trLeaseUntil := 0\<rparr>)"
      unfolding sql_complete_def by blast
    show ?thesis
      by (rule that [OF _ e(2,3)]) (use e(1) None d tbl1(2) in
        \<open>simp_all add: finish_turn_def completeClaim_def with_store_def turn_ok_def row_due_def\<close>)
  next
    case (Some err)
    from eff [of "\<lambda>s. s\<lparr>trState := Queued, trAttempts := trAttempts r + 1,
        trNextAttempt := retry_at (trAttempts r + 1) (dtFinishedAt d), trLastError := err_text err, trLeaseToken := [], trLeaseUntil := 0\<rparr>"]
    obtain tbl2 where e: "sql_fail None c err (dtFinishedAt d) tbl1 = (tbl2, Inr ())" "tbl_ok tbl2" "map_of tbl2 = (map_of tbl)(i \<mapsto>
        (?up r)\<lparr>trState := Queued, trAttempts := trAttempts r + 1, trNextAttempt := retry_at (trAttempts r + 1) (dtFinishedAt d),
          trLastError := err_text err, trLeaseToken := [], trLeaseUntil := 0\<rparr>)"
      unfolding sql_fail_def Let_def a(1) by blast
    have "T < retry_at (trAttempts r + 1) (dtFinishedAt d)"
      using retry_after [OF a(2), of "dtFinishedAt d"] d by (simp add: turn_ok_def)
    then show ?thesis
      by (intro that [OF _ e(2,3)]) (use e(1) Some d tbl1(2) in
        \<open>simp_all add: finish_turn_def failClaim_def with_store_def turn_ok_def row_due_def\<close>)
  qed
  have "set (queue_due T (q1\<lparr>quStore := Durable tbl2\<rparr>)) = set (queue_due T q) - {i}"
    using due_keys [OF t2(2), of "\<lambda>(i, r). row_due T r"] due_keys [OF ok, of "\<lambda>(i, r). row_due T r"] t2(3,4) q
    by (auto simp: queue_due_def split: if_splits)
  moreover have "i \<in> set (queue_due T q)"
    using due_keys [OF ok, of "\<lambda>(i, r). row_due T r"] due r(2) q by (simp add: queue_due_def)
  ultimately show ?thesis using t2(1) i by blast
qed

lemma mem_turn:
  assumes good: "mem_good m" and d: "turn_ok T d" and q: "quStore q = Memory m"
    and c: "claimNext None (dtNow d) until (dtToken d) q = (q1, Inr (Some c))"
  shows "\<exists>q2. finish_turn d c q1 = (q2, Inr ()) \<and> set (queue_due T q2) = set (queue_due T q) - {stTaskID (fst c)}
    \<and> stTaskID (fst c) \<in> set (queue_due T q)"
proof -
  have ok: "tbl_ok (mqTasks m)" and tok: "dtToken d \<noteq> []" using good d by (simp_all add: mem_good_def turn_ok_def)
  obtain m1 where m1: "mem_claim (dtNow d) (dtToken d) m = (m1, Inr (Some c))" "q1 = q\<lparr>quStore := Memory m1\<rparr>"
    using c q by (auto simp: claimNext_def with_store_def split: prod.splits)
  obtain i t where t: "map_of (mqTasks m) i = Some t" "mem_due (dtNow d) m (i, t)" "stTaskID t = i" "0 \<le> stAttempts t"
    "c = (t\<lparr>stInFlight := True\<rparr>, dtToken d)" "m1 = m\<lparr>mqInflight := (mqInflight m)(i := dtToken d)\<rparr>"
    using mem_claim_effect [OF good m1(1)] by auto
  have i: "stTaskID (fst c) = i" and a: "stAttempts (fst c) = stAttempts t" by (simp_all add: t(3,5))
  have fin: "mem_finish c f m1 = (m\<lparr>mqTasks := sql_update (\<lambda>k _. k = i) f (mqTasks m)\<rparr>, Inr ())" for f
  proof -
    have "(mqInflight m)(i := []) = mqInflight m" using t(2) by (auto simp: mem_due_def)
    then show ?thesis using t by (simp add: mem_finish_def Let_def)
  qed
  obtain f where f: "finish_turn d c q1 = (q1\<lparr>quStore := Memory (m\<lparr>mqTasks := sql_update (\<lambda>k _. k = i) f (mqTasks m)\<rparr>)\<rparr>, Inr ())"
      "\<not> mem_due T m (i, f t)"
  proof (cases "dtSync d (fst c)")
    case None
    show ?thesis
      by (rule that [of "\<lambda>t. t\<lparr>stCompleted := True, stInFlight := False, stLastError := []\<rparr>"])
        (use None d in \<open>simp_all add: finish_turn_def turn_ok_def completeClaim_def with_store_def m1(2) mem_complete_def fin mem_due_def\<close>)
  next
    case (Some e)
    have "T < retry_at (stAttempts t + 1) (dtFinishedAt d)"
      using retry_after [OF t(4), of "dtFinishedAt d"] d by (simp add: turn_ok_def)
    then show ?thesis using Some d
      by (intro that [of "\<lambda>u. u\<lparr>stAttempts := stAttempts t + 1, stNextAttempt := retry_at (stAttempts t + 1) (dtFinishedAt d),
            stLastError := err_text e, stInFlight := False\<rparr>"])
        (simp_all add: finish_turn_def turn_ok_def failClaim_def with_store_def m1(2) mem_fail_def Let_def fin mem_due_def a)
  qed
  let ?m2 = "m\<lparr>mqTasks := sql_update (\<lambda>k _. k = i) f (mqTasks m)\<rparr>"
  have "mem_due T ?m2 = mem_due T m" by (simp add: mem_due_def fun_eq_iff)
  then have "set (queue_due T (q1\<lparr>quStore := Memory ?m2\<rparr>)) = set (queue_due T q) - {i}"
    using due_keys [of "mqTasks ?m2" "mem_due T m"] due_keys [OF ok, of "mem_due T m"] ok q f(2) t(1)
    by (auto simp: queue_due_def option.map_ident split: if_splits)
  moreover have "i \<in> set (queue_due T q)"
    using due_keys [OF ok, of "mem_due T m"] t(1,2) d q by (simp add: queue_due_def mem_due_def turn_ok_def)
  ultimately show ?thesis using f(1) i by blast
qed

lemma queue_turn:
  assumes "queue_good q" "turn_ok T d" "claimNext None (dtNow d) until (dtToken d) q = (q1, Inr (Some c))"
  shows "\<exists>q2. finish_turn d c q1 = (q2, Inr ()) \<and> set (queue_due T q2) = set (queue_due T q) - {stTaskID (fst c)}
    \<and> stTaskID (fst c) \<in> set (queue_due T q)"
  using assms sql_turn mem_turn by (cases "quStore q") (auto simp: queue_good_def)

lemma due_distinct: "queue_good q \<Longrightarrow> distinct (queue_due now q)"
  by (auto simp: queue_good_def queue_due_def sql_good_def mem_good_def tbl_ok_def distinct_map_filter split: queue_store.splits)

lemma claimed_attempts:
  "queue_good q \<Longrightarrow> claimNext None now until tok q = (q1, Inr (Some (t, k))) \<Longrightarrow> 0 \<le> stAttempts t"
proof (cases "quStore q")
  case (Memory m)
  assume "queue_good q" "claimNext None now until tok q = (q1, Inr (Some (t, k)))"
  then show ?thesis using Memory mem_claim_effect [of m now tok]
    by (force simp: queue_good_def claimNext_def with_store_def split: prod.splits)
next
  case (Durable tbl)
  assume "queue_good q" "claimNext None now until tok q = (q1, Inr (Some (t, k)))"
  then have g: "sql_good tbl" and c: "\<exists>tbl1. sql_claim None now until tok tbl = (tbl1, Inr (Some (t, k)))"
    using Durable by (auto simp: queue_good_def claimNext_def with_store_def split: prod.splits)
  from c obtain i r where r: "map_of tbl i = Some r" "t = (row_task i r)\<lparr>stInFlight := True\<rparr>"
    using sql_claim_effect [OF g] by blast
  then show ?thesis using row_goodD [OF g r(1)] by (simp add: row_good_def validate_row) (simp add: row_task_def)
qed

lemma finish_turn_good:
  assumes "queue_good q" "k \<noteq> []" "finish_turn d (t, k) q = (q', x)" "dtFinishFault d = None" "0 \<le> stAttempts t"
  shows "queue_good q'"
proof (cases "dtSync d t")
  case None
  then show ?thesis using wq.complete_law [of q k t q' x] assms by (simp add: finish_turn_def)
next
  case (Some e)
  then show ?thesis using wq.fail_law [of q k t e "dtFinishedAt d" q' x] assms by (simp add: finish_turn_def)
qed

lemma claim_none_due:
  assumes "queue_good q" "claimNext None now until tok q = (q1, Inr None)" shows "queue_due now q1 = []"
proof (cases "quStore q")
  case (Memory m)
  then have c: "mem_claim now tok m = (m, Inr None)" "q1 = q"
    using assms(2) by (auto simp: claimNext_def with_store_def mem_claim_def same_store split: prod.splits option.splits)
  then have "find (mem_due now m) (sort_key fst (mqTasks m)) = None" by (auto simp: mem_claim_def split: option.splits)
  then show ?thesis using Memory c(2) by (auto simp: queue_due_def find_None_iff filter_empty_conv)
next
  case (Durable tbl)
  have g: "sql_good tbl" using assms(1) Durable by (simp add: queue_good_def)
  obtain tbl1 where c: "sql_claim None now until tok tbl = (tbl1, Inr None)" "q1 = q\<lparr>quStore := Durable tbl1\<rparr>"
    using assms(2) Durable by (auto simp: claimNext_def with_store_def split: prod.splits)
  then have "tbl1 = tbl" "next_due now tbl = None" using sql_claim_effect [OF g c(1)] by auto
  then show ?thesis using g next_due_None [of tbl now] c(2)
    by (auto simp: queue_due_def filter_empty_conv sql_good_def tbl_ok_def)
qed

lemma drain_ends:
  assumes "queue_good q" "list_all (turn_ok T) ds" "length (queue_due T q) < length ds"
  shows "\<exists>q'. drain_loop ds q = Some (q', Inr ()) \<and> queue_good q' \<and> (\<exists>d \<in> set ds. queue_due (dtNow d) q' = [])"
  using assms
proof (induction ds arbitrary: q)
  case (Cons d ds)
  let ?until = "dtNow d + quLeaseDuration q"
  have d: "turn_ok T d" "dtToken d \<noteq> []" "dtClaimFault d = None" "dtFinishFault d = None"
    using Cons.prems(2) by (simp_all add: turn_ok_def)
  obtain q1 r where c: "claimNext None (dtNow d) ?until (dtToken d) q = (q1, r)" by (cases "claimNext None (dtNow d) ?until (dtToken d) q")
  note law = wq.claim_law [OF Cons.prems(1) d(2) c]
  show ?case
  proof (cases "r = Inr None")
    case True
    have "queue_due (dtNow d) q1 = []" using claim_none_due [OF Cons.prems(1) c [unfolded True]] .
    then show ?thesis using True c conjunct1 [OF law] d by simp
  next
    case False
    then obtain t where r: "r = Inr (Some (t, dtToken d))" using law by auto
    obtain q2 where q2: "finish_turn d (t, dtToken d) q1 = (q2, Inr ())" "set (queue_due T q2) = set (queue_due T q) - {stTaskID t}"
      "stTaskID t \<in> set (queue_due T q)"
      using queue_turn [OF Cons.prems(1) d(1) c [unfolded r]] by auto
    have good2: "queue_good q2" using finish_turn_good [OF _ d(2) q2(1) d(4)] law claimed_attempts [OF Cons.prems(1) c [unfolded r]] by blast
    have "length (queue_due T q2) < length (queue_due T q)"
      using q2(2,3) due_distinct [OF good2, of T] due_distinct [OF Cons.prems(1), of T]
      by (metis List.finite_set card_Diff1_less distinct_card)
    then have "\<exists>q'. drain_loop ds q2 = Some (q', Inr ()) \<and> queue_good q' \<and> (\<exists>d \<in> set ds. queue_due (dtNow d) q' = [])"
      using Cons.IH [OF good2] Cons.prems(2,3) by simp
    moreover have "drain_loop (d # ds) q = drain_loop ds q2"
      using c r d q2(1) by (simp add: finish_turn_def split: option.splits)
    ultimately show ?thesis by auto
  qed
qed simp


section \<open>Properties\<close>

definition demo_row :: "int \<Rightarrow> row_state \<Rightarrow> string \<Rightarrow> int \<Rightarrow> task_row" where
  "demo_row due st tok lease = \<lparr>trWorkspaceID = ''w'', trSnapshotID = ''s'', trAttempts = 2, trNextAttempt = due,
     trLastError = [], trState = st, trLeaseToken = tok, trLeaseUntil = lease\<rparr>"

definition demo_queue :: queue where
  "demo_queue = \<lparr>quStore = Durable [(''a'', demo_row 9 Queued [] 0), (''b'', demo_row 3 InFlight ''old'' 5)],
     quClosed = False, quLeaseDuration = 4\<rparr>"

definition demo_turn :: "string \<Rightarrow> drain_turn" where
  "demo_turn tok = \<lparr>dtNow = 9, dtToken = tok, dtSync = (\<lambda>t. if stTaskID t = ''b'' then Some (Err ''net'') else None),
     dtFinishedAt = 9, dtClaimFault = None, dtFinishFault = None\<rparr>"

lemma demo_queue_good: "queue_good demo_queue"
proof -
  have "\<not> go_blank ''a''" "\<not> go_blank ''b''" "\<not> go_blank ''w''" "\<not> go_blank ''s''" by code_simp+
  then show ?thesis
    by (auto simp: queue_good_def demo_queue_def demo_row_def sql_good_def tbl_ok_def row_good_def validate_row split: if_splits)
qed

text \<open>C16. Whatever the order in which workers claim, complete and fail tasks, with leases expiring
  and being taken over in between, no task is completed twice: a completion is acknowledged at most
  once per task, never for a task that was already completed, and the tasks completed at the end are
  exactly those completed at the start and those acknowledged. It holds for the in-memory and for
  the durable queue.\<close>

theorem queue_completes_once:
  assumes "queue_good q" "list_all op_ok ops"
    and "lease_run (claimNext None) (completeClaim None) (failClaim None) ops q = (q', acked)"
  shows "distinct acked \<and> (\<forall>i \<in> set acked. \<not> queue_finished q i)
    \<and> (\<forall>i. queue_finished q' i \<longleftrightarrow> queue_finished q i \<or> i \<in> set acked)"
  using wq.run_completes [OF assms] by blast

theorem queue_completes_once_witness:
  "(let t = \<lparr>stTaskID = ''b'', stWorkspaceID = ''w'', stSnapshotID = ''s'', stAttempts = 2, stNextAttempt = 3,
              stLastError = [], stCompleted = False, stInFlight = True\<rparr>;
        run = lease_run (claimNext None) (completeClaim None) (failClaim None)
          [LClaim 7 11 ''new'', LComplete (t, ''old''), LComplete (t, ''new''), LComplete (t, ''new'')] demo_queue
    in snd run = [''b''] \<and> queue_finished (fst run) ''b'' \<and> \<not> queue_finished (fst run) ''a'')"
proof -
  let ?t = "\<lparr>stTaskID = ''b'', stWorkspaceID = ''w'', stSnapshotID = ''s'', stAttempts = 2, stNextAttempt = 3,
              stLastError = [], stCompleted = False, stInFlight = True\<rparr>"
  let ?ops = "[LClaim 7 11 ''new'', LComplete (?t, ''old''), LComplete (?t, ''new''), LComplete (?t, ''new'')]"
  let ?run = "lease_run (claimNext None) (completeClaim None) (failClaim None) ?ops demo_queue"
  have acked: "snd ?run = [''b'']" by code_simp
  have start: "\<not> queue_finished demo_queue ''a''" by (simp add: queue_finished_def demo_queue_def sql_finished_def demo_row_def)
  have "list_all op_ok ?ops" by simp
  from queue_completes_once [OF demo_queue_good this, of "fst ?run" "[''b'']"] acked
  have "\<forall>i. queue_finished (fst ?run) i \<longleftrightarrow> queue_finished demo_queue i \<or> i \<in> set [''b'']"
    by (metis prod.collapse)
  with start acked show ?thesis by (simp add: Let_def)
qed

text \<open>A claim on the durable queue hands out the due task that is first by next attempt and then
  by identifier, never one whose lease has not expired, and reports that there is none exactly when no
  task is due; a worker that still holds the previous lease of the task can neither complete nor fail
  it.\<close>

theorem claim_earliest_due:
  assumes "queue_good q" "quStore q = Durable tbl" "tok \<noteq> []" "claimNext None now until tok q = (q', x)"
  shows "x = Inr None \<and> q' = q \<and> (\<forall>i r. map_of tbl i = Some r \<longrightarrow> \<not> row_due now r)
    \<or> (\<exists>i r. x = Inr (Some ((row_task i r)\<lparr>stInFlight := True\<rparr>, tok)) \<and> map_of tbl i = Some r \<and> row_due now r
        \<and> (\<forall>j s. map_of tbl j = Some s \<and> row_due now s \<longrightarrow> (trNextAttempt r, i) \<le> (trNextAttempt s, j))
        \<and> (\<forall>k e at. k \<noteq> [] \<and> k \<noteq> tok \<longrightarrow> completeClaim None (row_task i r, k) q' = (q', Inl ErrTaskLeaseLost)
             \<and> failClaim None (row_task i r, k) e at q' = (q', Inl ErrTaskLeaseLost)))"
proof -
  have g: "sql_good tbl" and ok: "tbl_ok tbl" using assms(1,2) by (simp_all add: queue_good_def sql_good_def)
  obtain tbl1 where c: "sql_claim None now until tok tbl = (tbl1, x)" "q' = q\<lparr>quStore := Durable tbl1\<rparr>"
    using assms(2,4) by (auto simp: claimNext_def with_store_def split: prod.splits)
  from sql_claim_effect [OF g c(1)] show ?thesis
  proof (elim disjE conjE exE)
    assume "x = Inr None" "tbl1 = tbl" "next_due now tbl = None"
    then show ?thesis using next_due_None [OF ok] c(2) assms(2) by (auto simp: same_store)
  next
    fix i r assume e: "next_due now tbl = Some (i, r)" "map_of tbl i = Some r" "x = Inr (Some ((row_task i r)\<lparr>stInFlight := True\<rparr>, tok))"
    have "0 \<le> stAttempts (row_task i r)" using row_goodD [OF g e(2)] by (simp add: row_good_def validate_row) (simp add: row_task_def)
    then have "completeClaim None (row_task i r, k) q' = (q', Inl ErrTaskLeaseLost)
        \<and> failClaim None (row_task i r, k) err at q' = (q', Inl ErrTaskLeaseLost)" if "k \<noteq> []" "k \<noteq> tok" for k err at
      using wq.overtaken_claim_refused [OF assms(1,3) assms(4) [unfolded e(3)], of "row_task i r" k] that by (simp add: row_task_def)
    then show ?thesis using e(2,3) next_due_Some(2,3) [OF ok e(1)] by blast
  qed
qed

theorem claim_earliest_due_witness:
  "map_option (stTaskID \<circ> fst) (projr (snd (claimNext None 9 13 ''new'' demo_queue))) = Some ''b''
   \<and> snd (claimNext None 2 6 ''new'' demo_queue) = Inr None
   \<and> snd (completeClaim None (row_task ''b'' (demo_row 3 InFlight ''old'' 5), ''old'') (fst (claimNext None 9 13 ''new'' demo_queue)))
       = Inl ErrTaskLeaseLost"
proof -
  let ?c = "claimNext None 9 13 ''new'' demo_queue" and ?b = "demo_row 3 InFlight ''old'' 5"
  have st: "quStore demo_queue = Durable [(''a'', demo_row 9 Queued [] 0), (''b'', ?b)]" by (simp add: demo_queue_def)
  have b: "snd ?c = Inr (Some ((row_task ''b'' ?b)\<lparr>stInFlight := True\<rparr>, ''new''))" by code_simp
  then have c: "?c = (fst ?c, Inr (Some ((row_task ''b'' ?b)\<lparr>stInFlight := True\<rparr>, ''new'')))" by (metis prod.collapse)
  obtain i r where ir: "(row_task ''b'' ?b)\<lparr>stInFlight := True\<rparr> = (row_task i r)\<lparr>stInFlight := True\<rparr>"
    "completeClaim None (row_task i r, ''old'') (fst ?c) = (fst ?c, Inl ErrTaskLeaseLost)"
    using claim_earliest_due [OF demo_queue_good st _ c] unfolding sum.inject option.inject prod.inject by blast
  have "row_task i r = row_task ''b'' ?b" using ir(1) by (simp add: row_task_def)
  then have ref: "snd (completeClaim None (row_task ''b'' ?b, ''old'') (fst ?c)) = Inl ErrTaskLeaseLost" using ir(2) by simp
  have none: "snd (claimNext None 2 6 ''new'' demo_queue) = Inr None" by code_simp
  show ?thesis using ref none by (simp only: b) (simp add: row_task_def)
qed

text \<open>A failed claim goes back to the queue with one attempt more and is not due again before a
  positive delay of at most 1024 seconds, which doubles with the attempts.\<close>

theorem failed_claim_backs_off:
  assumes "queue_good q" "quStore q = Durable tbl" "tok \<noteq> []" "claimNext None now until tok q = (q1, Inr (Some c))"
  shows "\<exists>tbl2 r r2. failClaim None c e at q1 = (q\<lparr>quStore := Durable tbl2\<rparr>, Inr ())
    \<and> map_of tbl (stTaskID (fst c)) = Some r \<and> map_of tbl2 = (map_of tbl)(stTaskID (fst c) \<mapsto> r2)
    \<and> trState r2 = Queued \<and> trAttempts r2 = trAttempts r + 1 \<and> trLastError r2 = err_text e \<and> trLeaseToken r2 = []
    \<and> trNextAttempt r2 = at + second * 2 ^ min (nat (trAttempts r + 1)) 10
    \<and> at < trNextAttempt r2 \<and> trNextAttempt r2 \<le> at + 1024 * second
    \<and> (\<forall>u. row_due u r2 \<longleftrightarrow> trNextAttempt r2 \<le> u)"
proof -
  have g: "sql_good tbl" using assms(1,2) by (simp add: queue_good_def)
  obtain tbl1 where c: "sql_claim None now until tok tbl = (tbl1, Inr (Some c))" "q1 = q\<lparr>quStore := Durable tbl1\<rparr>"
    using assms(2,4) by (auto simp: claimNext_def with_store_def split: prod.splits)
  obtain i r where "next_due now tbl = Some (i, r)" and r: "map_of tbl i = Some r" "stTaskID (fst c) = i"
      "stAttempts (fst c) = trAttempts r" and "0 \<le> trAttempts r"
    and eff: "\<And>f. \<exists>tbl2. finish_claim None c f tbl1 = (tbl2, Inr ()) \<and> tbl_ok tbl2
       \<and> map_of tbl2 = (map_of tbl)(i \<mapsto> f (r\<lparr>trState := InFlight, trLeaseToken := tok, trLeaseUntil := until\<rparr>))"
    using sql_claimed_finish [OF g assms(3) c(1)] by blast
  let ?up = "\<lambda>s. s\<lparr>trState := Queued, trAttempts := trAttempts r + 1, trNextAttempt := retry_at (trAttempts r + 1) at,
      trLastError := err_text e, trLeaseToken := [], trLeaseUntil := 0\<rparr>"
  let ?r2 = "?up (r\<lparr>trState := InFlight, trLeaseToken := tok, trLeaseUntil := until\<rparr>)"
  obtain tbl2 where t2: "sql_fail None c e at tbl1 = (tbl2, Inr ())" "map_of tbl2 = (map_of tbl)(i \<mapsto> ?r2)"
    using eff [of ?up] unfolding sql_fail_def Let_def r(3) by blast
  note d = retry.delay_pos [of "nat (trAttempts r + 1)"] retry.delay_capped [of "nat (trAttempts r + 1)"]
  show ?thesis
  proof (intro exI conjI)
    show "failClaim None c e at q1 = (q\<lparr>quStore := Durable tbl2\<rparr>, Inr ())" by (simp add: failClaim_def with_store_def c(2) t2(1))
    show "map_of tbl (stTaskID (fst c)) = Some r" "map_of tbl2 = (map_of tbl)(stTaskID (fst c) \<mapsto> ?r2)" by (simp_all only: r t2(2))
    show "trNextAttempt ?r2 = at + second * 2 ^ min (nat (trAttempts r + 1)) 10" by (simp add: retry_at_def backoff_delay_def)
    show "at < trNextAttempt ?r2" "trNextAttempt ?r2 \<le> at + 1024 * second" using d by (simp_all add: retry_at_def)
  qed (simp_all add: row_due_def)
qed

theorem failed_claim_backs_off_witness:
  "\<exists>tbl2 r2. failClaim None ((row_task ''b'' (demo_row 3 InFlight ''old'' 5))\<lparr>stInFlight := True\<rparr>, ''n'') (Err ''net'') 10
       (fst (claimNext None 9 13 ''n'' demo_queue)) = (demo_queue\<lparr>quStore := Durable tbl2\<rparr>, Inr ())
     \<and> map_of tbl2 ''b'' = Some r2 \<and> trAttempts r2 = 3 \<and> trNextAttempt r2 = 10 + 8 * second"
proof -
  let ?b = "demo_row 3 InFlight ''old'' 5" and ?q1 = "fst (claimNext None 9 13 ''n'' demo_queue)"
  let ?c = "((row_task ''b'' ?b)\<lparr>stInFlight := True\<rparr>, ''n'')"
  have st: "quStore demo_queue = Durable [(''a'', demo_row 9 Queued [] 0), (''b'', ?b)]" by (simp add: demo_queue_def)
  have "snd (claimNext None 9 13 ''n'' demo_queue) = Inr (Some ?c)" by code_simp
  then have c: "claimNext None 9 13 ''n'' demo_queue = (?q1, Inr (Some ?c))" by (metis prod.collapse)
  have i: "stTaskID (fst ?c) = ''b''" by (simp add: row_task_def)
  obtain tbl2 r r2 where w: "failClaim None ?c (Err ''net'') 10 ?q1 = (demo_queue\<lparr>quStore := Durable tbl2\<rparr>, Inr ())"
    "map_of [(''a'', demo_row 9 Queued [] 0), (''b'', ?b)] ''b'' = Some r"
    "map_of tbl2 = (map_of [(''a'', demo_row 9 Queued [] 0), (''b'', ?b)])(''b'' \<mapsto> r2)"
    "trAttempts r2 = trAttempts r + 1" "trNextAttempt r2 = 10 + second * 2 ^ min (nat (trAttempts r + 1)) 10"
    using failed_claim_backs_off [OF demo_queue_good st _ c, of "Err ''net''" 10] unfolding i by auto
  have "trAttempts r = 2" using w(2) by (auto simp: demo_row_def split: if_splits)
  then show ?thesis using w(1,3,4,5)
    by - (rule exI [of _ tbl2], rule exI [of _ r2], simp)
qed

text \<open>C17. \<open>Drain\<close> returns. When the turns of its loop fall within the two seconds before an instant
  \<open>T\<close>, which is the smallest retry delay, it ends without an error after at most as many turns as
  there are tasks due at \<open>T\<close>, and one more that finds nothing due.\<close>

theorem drain_terminates:
  assumes "queue_good q" "\<not> quClosed q" "list_all (turn_ok T) ds" "length (queue_due T q) < length ds"
  shows "\<exists>q'. Drain ds q = Some (q', Inr ()) \<and> queue_good q' \<and> (\<exists>d \<in> set ds. queue_due (dtNow d) q' = [])"
  using drain_ends [OF assms(1,3,4)] assms(2) by (simp add: Drain_def)

theorem drain_terminates_witness:
  "\<exists>q'. Drain [demo_turn ''x'', demo_turn ''y'', demo_turn ''z''] demo_queue = Some (q', Inr ()) \<and> queue_good q'
     \<and> queue_due 9 q' = []"
proof -
  have "\<not> quClosed demo_queue" "list_all (turn_ok 9) [demo_turn ''x'', demo_turn ''y'', demo_turn ''z'']"
    "length (queue_due 9 demo_queue) < length [demo_turn ''x'', demo_turn ''y'', demo_turn ''z'']"
    by (simp_all add: demo_queue_def demo_turn_def turn_ok_def second_def queue_due_def demo_row_def row_due_def)
  from drain_terminates [OF demo_queue_good this] show ?thesis by (auto simp: demo_turn_def)
qed

text \<open>Enqueuing is idempotent: after a successful call the same task, or one with the same
  identifier, workspace and snapshot, is accepted again and changes nothing, whether the task is still
  queued, leased or already completed; another snapshot under the identifier is refused and changes
  nothing. Every call keeps the queue well formed.\<close>

theorem enqueue_idempotent:
  assumes "queue_good q" "Enqueue (None, None) now t q = (q1, Inr ())" "stTaskID u = stTaskID t" "validateTask u = Inr ()"
  shows "queue_good q1 \<and> Enqueue (None, None) later u q1 = (q1,
    if stWorkspaceID u = stWorkspaceID t \<and> stSnapshotID u = stSnapshotID t then Inr () else Inl ErrTaskConflict)"
proof -
  let ?t = "t\<lparr>stNextAttempt := (if stNextAttempt t = zero_time then now else stNextAttempt t),
     stCompleted := False, stInFlight := False, stLastError := []\<rparr>"
  have open': "\<not> quClosed q" and vt: "validateTask t = Inr ()" "validateTask ?t = Inr ()"
    and ws: "with_store q (mem_enqueue ?t) (enqueuePersistent (None, None) ?t) = (q1, Inr ())"
    using assms(2) by (auto simp: Enqueue_def validateTask_def Let_def split: if_splits)
  from ws show ?thesis
  proof (cases rule: with_store_cases)
    case (mem m m')
    have "mem_good m'" using mem_enqueue_good [of m ?t] mem assms(1) vt(2) by (simp add: queue_good_def)
    moreover obtain v where "map_of (mqTasks m') (stTaskID t) = Some v" "stWorkspaceID v = stWorkspaceID t" "stSnapshotID v = stSnapshotID t"
      using mem(2) by (auto simp: mem_enqueue_def split: option.splits if_splits)
    ultimately show ?thesis using mem open' assms(3,4)
      by (auto simp: Enqueue_def with_store_def mem_enqueue_def queue_good_def Let_def)
  next
    case (sql tbl tbl')
    have "sql_good tbl'" using sql_enqueue_good [of tbl ?t None] sql assms(1) vt(2) by (simp add: queue_good_def)
    moreover obtain v where "map_of tbl' (stTaskID t) = Some v" "trWorkspaceID v = stWorkspaceID t" "trSnapshotID v = stSnapshotID t"
      using sql(2) by (auto simp: enqueuePersistent_def Let_def split: option.splits if_splits)
    ultimately show ?thesis using sql open' assms(3,4)
      by (auto simp: Enqueue_def with_store_def enqueuePersistent_def queue_good_def Let_def)
  qed
qed

theorem enqueue_idempotent_witness:
  "let t = \<lparr>stTaskID = ''c'', stWorkspaceID = ''w'', stSnapshotID = ''s1'', stAttempts = 0, stNextAttempt = 8,
             stLastError = [], stCompleted = False, stInFlight = False\<rparr>;
       q1 = fst (Enqueue (None, None) 4 t demo_queue)
   in snd (Enqueue (None, None) 4 t demo_queue) = Inr () \<and> Enqueue (None, None) 6 t q1 = (q1, Inr ())
      \<and> Enqueue (None, None) 6 (t\<lparr>stSnapshotID := ''s2''\<rparr>) q1 = (q1, Inl ErrTaskConflict)"
proof -
  let ?t = "\<lparr>stTaskID = ''c'', stWorkspaceID = ''w'', stSnapshotID = ''s1'', stAttempts = 0, stNextAttempt = 8,
             stLastError = [], stCompleted = False, stInFlight = False\<rparr>"
  have ok: "snd (Enqueue (None, None) 4 ?t demo_queue) = Inr ()" "validateTask ?t = Inr ()"
    "validateTask (?t\<lparr>stSnapshotID := ''s2''\<rparr>) = Inr ()" by code_simp+
  then have e: "Enqueue (None, None) 4 ?t demo_queue = (fst (Enqueue (None, None) 4 ?t demo_queue), Inr ())"
    by (metis prod.collapse)
  show ?thesis
    using enqueue_idempotent [OF demo_queue_good e refl ok(2), of 6]
      enqueue_idempotent [OF demo_queue_good e _ ok(3), of 6] ok(1) by (simp add: Let_def)
qed

end
