(* ===== verification/Restore.thy ===== *)
theory Restore
  imports VT_Prelude
begin

text \<open>
  The journalled restore of a workspace (\<open>sidecar/internal/restore/coordinator.go\<close>): \<open>Apply\<close>,
  \<open>Recover\<close>, \<open>rollback\<close>, \<open>advance\<close> and the journal file.

  The runtime, the installer and the recovery snapshot are interfaces. A call to one of them, and a
  write or removal of the journal, is an event; the environment decides from the history how the
  event ends: done, with an error, or with the death of the process. The world is the history and
  the journal file. What the interfaces promise of the workspace data and of the running services is
  read off the history.
\<close>

section \<open>Data\<close>

definition ErrWorkspaceMismatch :: go_error where "ErrWorkspaceMismatch = Err ''restore.workspace_mismatch''"
definition ErrJournalCorrupt :: go_error where "ErrJournalCorrupt = Err ''restore.journal_corrupt''"
text \<open>\<open>os.ErrNotExist\<close>.\<close>

definition ErrNotExist :: go_error where "ErrNotExist = Err ''file does not exist''"

definition ErrPlanInvalid :: go_error where "ErrPlanInvalid = Err ''restore.plan_invalid''"

text \<open>\<open>StageOther\<close>: any other text in the stage field of a journal file.\<close>

datatype stage = StagePrepared | StageServicesStopped | StageDataInstalled | StageTopologyCommitted
  | StageAuditEpochCommitted | StageVerified | StageRecoverySnapshotPending | StageCommitted
  | StageRollbackServicesStopped | StageRollbackDataRestored | StageRollbackVerified | StageOther string

record restore_plan =
  plWorkspaceID :: string
  plSnapshotID :: string
  plWorkspaceRoot :: string
  plManifestHash :: string
  plSealHash :: string
  plFenceEpoch :: "64 word"
  plClaimID :: string
  plLedgerAnchor :: string

record journal =
  joFormatVersion :: int
  joWorkspaceID :: string
  joSnapshotID :: string
  joStage :: stage
  joPreviousRoot :: string
  joStagingRoot :: string
  joManifestHash :: string
  joSealHash :: string
  joFenceEpoch :: "64 word"
  joClaimID :: string
  joLedgerAnchor :: string

text \<open>What reading and decoding the journal file gives; the flag of \<open>Document\<close> says that something
  follows the first JSON value.\<close>

datatype journal_file = Absent | Unreadable go_error | Undecodable | Document journal bool

text \<open>The methods of the interfaces \<open>Runtime\<close>, \<open>Installer\<close> and \<open>SnapshotAfterRestore\<close>, and the two
  operations on the journal file.\<close>

datatype call = Protect | Stop | Start | Health
  | Stage string string | InstallData string string | InstallFilesAsRestoreLeaves string string
  | CommitAuditEpoch string string | Rollback string string
  | CaptureRecovery string | Persist journal | RemoveJournal

datatype outcome = Done | Failed go_error | Died

datatype file_step = MkdirAll | MarshalIndent | CreateTemp | ChmodTemp | WriteTemp | SyncTemp | CloseTemp
  | RenameTemp | RemoveFile | SyncDirectory

type_synonym history = "(call \<times> outcome) list"

record environment =
  evCall :: "history \<Rightarrow> call \<Rightarrow> outcome"
  evStep :: "history \<Rightarrow> file_step \<Rightarrow> outcome"
  evStaging :: "string \<Rightarrow> string \<Rightarrow> string"

record world =
  rwHistory :: history
  rwJournal :: journal_file

datatype res = Returned "go_error option" | Crashed

section \<open>The journal file\<close>

text \<open>Run file operations up to the first that does not succeed; the operations done, and how it
  ended.\<close>

fun file_steps :: "(file_step \<Rightarrow> outcome) \<Rightarrow> file_step list \<Rightarrow> file_step list \<times> outcome" where
  "file_steps f [] = ([], Done)"
| "file_steps f (s # ss) = (case f s of
     Done \<Rightarrow> (case file_steps f ss of (ok, out) \<Rightarrow> (s # ok, out)) | out \<Rightarrow> ([], out))"

text \<open>The new journal is in place once the temporary file has been renamed; the error may still come
  from the directory sync of \<open>replaceJournalFile\<close>.\<close>

definition writeJournal :: "(file_step \<Rightarrow> outcome) \<Rightarrow> journal \<Rightarrow> journal_file \<Rightarrow> journal_file \<times> outcome" where
  "writeJournal f j jf =
     (case file_steps f [MkdirAll, MarshalIndent, CreateTemp, ChmodTemp, WriteTemp, SyncTemp, CloseTemp,
             RenameTemp, SyncDirectory] of
        (ok, out) \<Rightarrow> (if RenameTemp \<in> set ok then Document j False else jf, out))"

text \<open>A file that is not there counts as removed.\<close>

definition removeJournal :: "(file_step \<Rightarrow> outcome) \<Rightarrow> journal_file \<Rightarrow> journal_file \<times> outcome" where
  "removeJournal f jf =
     (case file_steps f [RemoveFile, SyncDirectory] of
        (ok, out) \<Rightarrow> (if RemoveFile \<in> set ok then Absent else jf, out))"

fun validStage :: "stage \<Rightarrow> bool" where
  "validStage (StageOther s) \<longleftrightarrow> False"
| "validStage _ \<longleftrightarrow> True"

fun readJournal :: "journal_file \<Rightarrow> journal result" where
  "readJournal Absent = Inl ErrNotExist"
| "readJournal (Unreadable e) = Inl e"
| "readJournal Undecodable = Inl ErrJournalCorrupt"
| "readJournal (Document j trailing) =
     (if joFormatVersion j \<noteq> 2 \<or> joWorkspaceID j = [] \<or> joSnapshotID j = [] \<or> joPreviousRoot j = []
         \<or> joStagingRoot j = [] then Inl ErrJournalCorrupt
      else if trailing then Inl ErrJournalCorrupt
      else if \<not> validStage (joStage j) then Inl ErrJournalCorrupt
      else Inr j)"

section \<open>Calls\<close>

definition perform :: "environment \<Rightarrow> call \<Rightarrow> world \<Rightarrow> world \<times> outcome" where
  "perform env c w =
     (case (case c of
              Persist j \<Rightarrow> writeJournal (evStep env (rwHistory w)) j (rwJournal w)
            | RemoveJournal \<Rightarrow> removeJournal (evStep env (rwHistory w)) (rwJournal w)
            | _ \<Rightarrow> (rwJournal w, evCall env (rwHistory w) c)) of
        (jf, out) \<Rightarrow> (\<lparr>rwHistory = rwHistory w @ [(c, out)], rwJournal = jf\<rparr>, out))"

type_synonym act = "world \<Rightarrow> world \<times> res"

definition return :: "go_error option \<Rightarrow> act" where
  "return e w = (w, Returned e)"

definition call :: "environment \<Rightarrow> call \<Rightarrow> act" where
  "call env c w = (case perform env c w of
     (w', Done) \<Rightarrow> (w', Returned None) | (w', Failed e) \<Rightarrow> (w', Returned (Some e)) | (w', Died) \<Rightarrow> (w', Crashed))"

text \<open>\<open>if err := m; err != nil { return h(err) }\<close>, then \<open>k\<close>.\<close>

definition check :: "act \<Rightarrow> (go_error \<Rightarrow> act) \<Rightarrow> act \<Rightarrow> act" where
  "check m h k w = (case m w of
     (w', Returned None) \<Rightarrow> k w' | (w', Returned (Some e)) \<Rightarrow> h e w' | (w', Crashed) \<Rightarrow> (w', Crashed))"

abbreviation "attempt m k \<equiv> check m (\<lambda>e. return (Some e)) k"

section \<open>The coordinator\<close>

definition rollback :: "environment \<Rightarrow> journal \<Rightarrow> go_error option \<Rightarrow> act" where
  "rollback env j cause =
     (let failed = (\<lambda>e. return (errors_join [cause, Some e]));
          at = (\<lambda>s. j\<lparr>joStage := s\<rparr>)
      in check (call env Stop) failed
        (check (call env (Persist (at StageRollbackServicesStopped))) failed
        (check (call env (Rollback (joStagingRoot j) (joPreviousRoot j))) failed
        (check (call env (Persist (at StageRollbackDataRestored))) failed
        (check (call env Start) failed
        (check (call env Health) failed
        (check (call env (Persist (at StageRollbackVerified))) failed
        (check (call env RemoveJournal) failed
        (return (errors_join [cause, None]))))))))))"

definition advance :: "environment \<Rightarrow> journal \<Rightarrow> stage \<Rightarrow> act" where
  "advance env j s =
     (let j' = j\<lparr>joStage := s\<rparr>
      in check (call env (Persist j'))
           (\<lambda>e. if s \<noteq> StageCommitted then rollback env j' (Some e) else return (Some e))
           (return None))"

text \<open>\<open>advance\<close> sets the stage through the pointer, so later steps see the journal with the new stage.\<close>

definition plan_journal :: "environment \<Rightarrow> restore_plan \<Rightarrow> stage \<Rightarrow> journal" where
  "plan_journal env plan s =
     \<lparr>joFormatVersion = 2, joWorkspaceID = plWorkspaceID plan, joSnapshotID = plSnapshotID plan, joStage = s,
      joPreviousRoot = plWorkspaceRoot plan,
      joStagingRoot = evStaging env (plSnapshotID plan) (plWorkspaceRoot plan),
      joManifestHash = plManifestHash plan, joSealHash = plSealHash plan, joFenceEpoch = plFenceEpoch plan,
      joClaimID = plClaimID plan, joLedgerAnchor = plLedgerAnchor plan\<rparr>"

definition Apply :: "environment \<Rightarrow> restore_plan \<Rightarrow> act" where
  "Apply env plan =
     (if plWorkspaceID plan = [] \<or> plSnapshotID plan = [] \<or> plWorkspaceRoot plan = [] then return (Some ErrPlanInvalid)
      else
        let root = plWorkspaceRoot plan; staging = evStaging env (plSnapshotID plan) root;
            jn = plan_journal env plan; undo = (\<lambda>s e. rollback env (jn s) (Some e))
        in attempt (call env Protect)
          (attempt (call env (Stage (plSnapshotID plan) root))
          (attempt (call env (Persist (jn StagePrepared)))
          (check (call env Stop) (undo StagePrepared)
          (attempt (advance env (jn StagePrepared) StageServicesStopped)
          (check (call env (InstallData staging root)) (undo StageServicesStopped)
          (attempt (advance env (jn StageServicesStopped) StageDataInstalled)
          (check (call env (InstallFilesAsRestoreLeaves staging root)) (undo StageDataInstalled)
          (attempt (advance env (jn StageDataInstalled) StageTopologyCommitted)
          (check (call env (CommitAuditEpoch (plWorkspaceID plan) (plSnapshotID plan))) (undo StageTopologyCommitted)
          (attempt (advance env (jn StageTopologyCommitted) StageAuditEpochCommitted)
          (check (call env Start) (undo StageAuditEpochCommitted)
          (check (call env Health) (undo StageAuditEpochCommitted)
          (attempt (advance env (jn StageAuditEpochCommitted) StageVerified)
          (attempt (advance env (jn StageVerified) StageRecoverySnapshotPending)
          (attempt (call env (CaptureRecovery (plWorkspaceID plan)))
          (attempt (advance env (jn StageRecoverySnapshotPending) StageCommitted)
          (call env RemoveJournal))))))))))))))))))"

definition Restore :: "environment \<Rightarrow> string \<Rightarrow> string \<Rightarrow> string \<Rightarrow> act" where
  "Restore env workspaceID snapshotID workspaceRoot = Apply env
     \<lparr>plWorkspaceID = workspaceID, plSnapshotID = snapshotID, plWorkspaceRoot = workspaceRoot, plManifestHash = [],
      plSealHash = [], plFenceEpoch = 0, plClaimID = [], plLedgerAnchor = []\<rparr>"

definition Recover :: "environment \<Rightarrow> string \<Rightarrow> act" where
  "Recover env workspaceID w = (case readJournal (rwJournal w) of
     Inl e \<Rightarrow> if errors_is e ErrNotExist then return None w else return (Some e) w
   | Inr j \<Rightarrow>
       if joWorkspaceID j \<noteq> workspaceID then return (Some ErrWorkspaceMismatch) w
       else if joStage j = StageCommitted then call env RemoveJournal w
       else if joStage j = StageVerified \<or> joStage j = StageRecoverySnapshotPending then
         (let finish = (\<lambda>j. attempt (call env (CaptureRecovery workspaceID))
                         (attempt (advance env j StageCommitted) (call env RemoveJournal)))
          in if joStage j = StageVerified
             then attempt (advance env j StageRecoverySnapshotPending) (finish (j\<lparr>joStage := StageRecoverySnapshotPending\<rparr>)) w
             else finish j w)
       else rollback env j None w)"


section \<open>What the history says of the workspace\<close>

text \<open>The data of the workspace: the previous ones, partly installed, all of the snapshot, or unknown
  after an installation or a rollback that did not finish.\<close>

datatype live = Old | DataOnly | DataAndFiles | New | Unknown

fun live_step :: "call \<times> outcome \<Rightarrow> live \<Rightarrow> live" where
  "live_step (InstallData s r, out) l = (if out = Done then DataOnly else Unknown)"
| "live_step (InstallFilesAsRestoreLeaves s r, out) l = (if out = Done \<and> l = DataOnly then DataAndFiles else Unknown)"
| "live_step (CommitAuditEpoch w s, out) l = (if out = Done \<and> l = DataAndFiles then New else Unknown)"
| "live_step (Rollback s r, out) l = (if out = Done then Old else Unknown)"
| "live_step _ l = l"

definition live :: "history \<Rightarrow> live" where
  "live h = fold live_step h Old"

text \<open>Services may be running unless the last call that concerns them is a \<open>Stop\<close> that succeeded.\<close>

fun run_step :: "call \<times> outcome \<Rightarrow> bool \<Rightarrow> bool" where
  "run_step (Start, out) r = True"
| "run_step (Stop, out) r = (if out = Done then False else r)"
| "run_step _ r = r"

definition may_run :: "history \<Rightarrow> bool" where
  "may_run h = fold run_step h True"

fun mutates :: "call \<Rightarrow> bool" where
  "mutates (InstallData s r) = True"
| "mutates (InstallFilesAsRestoreLeaves s r) = True"
| "mutates (CommitAuditEpoch w s) = True"
| "mutates (Rollback s r) = True"
| "mutates _ = False"

text \<open>No call of the history changed the workspace while services may have been running.\<close>

fun quiet :: "bool \<Rightarrow> history \<Rightarrow> bool" where
  "quiet r [] \<longleftrightarrow> True"
| "quiet r (x # h) \<longleftrightarrow> (mutates (fst x) \<longrightarrow> \<not> r) \<and> quiet (run_step x r) h"

lemma quiet_append: "quiet r (h @ k) \<longleftrightarrow> quiet r h \<and> quiet (fold run_step h r) k"
  by (induction h arbitrary: r) auto

lemma live_snoc [simp]: "live (h @ [x]) = live_step x (live h)"
  by (simp add: live_def)

lemma may_run_snoc [simp]: "may_run (h @ [x]) = run_step x (may_run h)"
  by (simp add: may_run_def)

lemma quiet_snoc [simp]: "quiet True (h @ [x]) \<longleftrightarrow> quiet True h \<and> (mutates (fst x) \<longrightarrow> \<not> may_run h)"
  by (simp add: quiet_append may_run_def)

section \<open>Weakest preconditions\<close>

definition wp :: "act \<Rightarrow> (world \<Rightarrow> bool) \<Rightarrow> (world \<Rightarrow> bool) \<Rightarrow> (world \<Rightarrow> bool) \<Rightarrow> world \<Rightarrow> bool" where
  "wp m Q E C w = (case m w of (w', Returned None) \<Rightarrow> Q w' | (w', Returned (Some e)) \<Rightarrow> E w' | (w', Crashed) \<Rightarrow> C w')"

lemma wp_return [simp]: "wp (return x) Q E C w \<longleftrightarrow> (if x = None then Q w else E w)"
  by (auto simp: wp_def return_def)

lemma wp_check: "wp (check m h k) Q E C w \<longleftrightarrow>
    (case m w of (w', Returned None) \<Rightarrow> wp k Q E C w' | (w', Returned (Some e)) \<Rightarrow> wp (h e) Q E C w' | (w', Crashed) \<Rightarrow> C w')"
  by (auto simp: wp_def check_def split: prod.splits res.splits option.splits)

lemma wp_checkI:
  "wp m R F D w \<Longrightarrow> (\<And>v. R v \<Longrightarrow> wp k Q E C v) \<Longrightarrow> (\<And>v e. F v \<Longrightarrow> wp (h e) Q E C v) \<Longrightarrow> (\<And>v. D v \<Longrightarrow> C v)
   \<Longrightarrow> wp (check m h k) Q E C w"
  by (auto simp: wp_check wp_def [of m] split: prod.splits res.splits option.splits)

lemma wp_mono: "wp m Q E C w \<Longrightarrow> (\<And>v. Q v \<Longrightarrow> Q' v) \<Longrightarrow> (\<And>v. E v \<Longrightarrow> E' v) \<Longrightarrow> (\<And>v. C v \<Longrightarrow> C' v) \<Longrightarrow> wp m Q' E' C' w"
  by (auto simp: wp_def split: prod.splits res.splits option.splits)

text \<open>How a call can change the journal file.\<close>

fun lands :: "call \<Rightarrow> journal_file \<Rightarrow> outcome \<Rightarrow> journal_file \<Rightarrow> bool" where
  "lands (Persist j) f out f' \<longleftrightarrow> f' = Document j False \<or> out \<noteq> Done \<and> f' = f"
| "lands RemoveJournal f out f' \<longleftrightarrow> f' = Absent \<or> out \<noteq> Done \<and> f' = f"
| "lands _ f out f' \<longleftrightarrow> f' = f"

lemma file_steps_done: "file_steps f ss = (ok, Done) \<Longrightarrow> ok = ss"
  by (induction ss arbitrary: ok) (auto split: outcome.splits prod.splits)

lemma perform_effect:
  assumes "perform env c w = (w', out)"
  shows "rwHistory w' = rwHistory w @ [(c, out)] \<and> lands c (rwJournal w) out (rwJournal w')"
proof (cases "(\<exists>j. c = Persist j) \<or> c = RemoveJournal")
  case True
  then show ?thesis using assms file_steps_done
    by (force simp: perform_def writeJournal_def removeJournal_def simp del: file_steps.simps split: prod.splits if_splits)
qed (use assms in \<open>auto simp: perform_def split: call.splits\<close>)

lemma wp_call:
  assumes "\<And>v out. rwHistory v = rwHistory w @ [(c, out)] \<Longrightarrow> lands c (rwJournal w) out (rwJournal v) \<Longrightarrow>
    (out = Done \<longrightarrow> Q v) \<and> (\<forall>e. out = Failed e \<longrightarrow> E v) \<and> (out = Died \<longrightarrow> C v)"
  shows "wp (call env c) Q E C w"
proof -
  obtain v out where p: "perform env c w = (v, out)" by (cases "perform env c w")
  with perform_effect assms show ?thesis by (cases out) (simp_all add: wp_def call_def)
qed

section \<open>The journal always tells how to finish\<close>

definition journal_ok :: "string \<Rightarrow> journal \<Rightarrow> bool" where
  "journal_ok ws j \<longleftrightarrow> joFormatVersion j = 2 \<and> joWorkspaceID j = ws \<and> ws \<noteq> [] \<and> joSnapshotID j \<noteq> []
     \<and> joPreviousRoot j \<noteq> [] \<and> joStagingRoot j \<noteq> []"

fun verified_stage :: "stage \<Rightarrow> bool" where
  "verified_stage StageVerified = True"
| "verified_stage StageRecoverySnapshotPending = True"
| "verified_stage StageCommitted = True"
| "verified_stage _ = False"

fun consistent :: "string \<Rightarrow> journal_file \<Rightarrow> live \<Rightarrow> bool" where
  "consistent ws Absent l \<longleftrightarrow> l = Old \<or> l = New"
| "consistent ws (Document j trailing) l \<longleftrightarrow> \<not> trailing \<and> journal_ok ws j \<and> validStage (joStage j)
     \<and> (verified_stage (joStage j) \<longrightarrow> l = New)"
| "consistent ws _ l \<longleftrightarrow> False"

definition recoverable :: "string \<Rightarrow> world \<Rightarrow> bool" where
  "recoverable ws w \<longleftrightarrow> quiet True (rwHistory w) \<and> consistent ws (rwJournal w) (live (rwHistory w))"

text \<open>The exact state between two calls.\<close>

definition st :: "journal_file \<Rightarrow> live \<Rightarrow> bool \<Rightarrow> world \<Rightarrow> bool" where
  "st f l r w \<longleftrightarrow> quiet True (rwHistory w) \<and> rwJournal w = f \<and> live (rwHistory w) = l \<and> may_run (rwHistory w) = r"

text \<open>From \<open>P\<close>, the action returns nil only in \<open>Q\<close>; however it ends, the workspace is recoverable.\<close>

definition safe :: "string \<Rightarrow> (world \<Rightarrow> bool) \<Rightarrow> act \<Rightarrow> (world \<Rightarrow> bool) \<Rightarrow> bool" where
  "safe ws P m Q \<longleftrightarrow> (\<forall>w. P w \<longrightarrow> wp m Q (recoverable ws) (recoverable ws) w)"

lemma st_recoverable: "st f l r w \<Longrightarrow> consistent ws f l \<Longrightarrow> recoverable ws w"
  by (auto simp: st_def recoverable_def)

lemma safe_attempt: "safe ws P m R \<Longrightarrow> safe ws R k Q \<Longrightarrow> safe ws P (attempt m k) Q"
  by (auto simp: safe_def intro!: wp_checkI)

lemma safe_weaken: "safe ws P m Q \<Longrightarrow> (\<And>w. P' w \<Longrightarrow> P w) \<Longrightarrow> (\<And>w. Q w \<Longrightarrow> Q' w) \<Longrightarrow> safe ws P' m Q'"
  by (auto simp: safe_def intro: wp_mono)


lemma errors_join_Some [simp]: "errors_join [cause, Some e] \<noteq> None" "errors_join [Some e, x] \<noteq> None" "errors_join [None, None] = None"
  by (auto simp: errors_join_def List.map_filter_def split: option.splits list.splits)

lemma safe_check:
  assumes "safe ws R k Q" "\<And>e. safe ws (recoverable ws) (h e) Q"
    and "\<And>w v out. P w \<Longrightarrow> rwHistory v = rwHistory w @ [(c, out)] \<Longrightarrow> lands c (rwJournal w) out (rwJournal v) \<Longrightarrow>
      if out = Done then R v else recoverable ws v"
  shows "safe ws P (check (call env c) h k) Q"
  unfolding safe_def
proof (intro allI impI)
  fix w assume P: "P w"
  have "wp (call env c) R (recoverable ws) (recoverable ws) w"
  proof (rule wp_call)
    fix v :: world and out assume "rwHistory v = rwHistory w @ [(c, out)]" "lands c (rwJournal w) out (rwJournal v)"
    from assms(3) [OF P this] show "(out = Done \<longrightarrow> R v) \<and> (\<forall>e. out = Failed e \<longrightarrow> recoverable ws v) \<and> (out = Died \<longrightarrow> recoverable ws v)"
      by auto
  qed
  then show "wp (check (call env c) h k) Q (recoverable ws) (recoverable ws) w"
    by (rule wp_checkI) (use assms(1,2) in \<open>auto simp: safe_def\<close>)
qed

lemma safe_fail [simp]: "x \<noteq> None \<Longrightarrow> safe ws (recoverable ws) (return x) Q"
  by (auto simp: safe_def)

lemma safe_call:
  assumes "\<And>w v out. P w \<Longrightarrow> rwHistory v = rwHistory w @ [(c, out)] \<Longrightarrow> lands c (rwJournal w) out (rwJournal v) \<Longrightarrow>
      if out = Done then Q v else recoverable ws v"
  shows "safe ws P (call env c) Q"
  unfolding safe_def
proof (intro allI impI)
  fix w assume "P w"
  then show "wp (call env c) Q (recoverable ws) (recoverable ws) w" using assms by (intro wp_call) fastforce
qed

abbreviation settled :: "live \<Rightarrow> world \<Rightarrow> bool" where
  "settled l w \<equiv> quiet True (rwHistory w) \<and> rwJournal w = Absent \<and> live (rwHistory w) = l"

text \<open>Rolling back is safe from every recoverable state, and returns nil only when the previous data
  are back and the journal is gone.\<close>

lemma safe_rollback:
  assumes j: "journal_ok ws j"
  shows "safe ws (recoverable ws) (rollback env j cause) (\<lambda>w. cause = None \<and> settled Old w)"
proof -
  let ?q = "\<lambda>w. quiet True (rwHistory w) \<and> \<not> may_run (rwHistory w)"
  let ?at = "\<lambda>s w. quiet True (rwHistory w) \<and> rwJournal w = Document (j\<lparr>joStage := s\<rparr>) False"
  let ?old = "\<lambda>s w. ?at s w \<and> live (rwHistory w) = Old"
  have ok: "consistent ws (Document (j\<lparr>joStage := s\<rparr>) False) l" if "validStage s" "\<not> verified_stage s" for s l
    using j that by (simp add: journal_ok_def)
  show ?thesis
    unfolding rollback_def Let_def
    apply (rule safe_check [where R = "\<lambda>w. recoverable ws w \<and> \<not> may_run (rwHistory w)"])
      apply (rule safe_check [where R = "\<lambda>w. ?at StageRollbackServicesStopped w \<and> \<not> may_run (rwHistory w)"])
        apply (rule safe_check [where R = "?old StageRollbackServicesStopped"])
          apply (rule safe_check [where R = "?old StageRollbackDataRestored"])
            apply (rule safe_check [where R = "?old StageRollbackDataRestored"])
              apply (rule safe_check [where R = "?old StageRollbackDataRestored"])
                apply (rule safe_check [where R = "?old StageRollbackVerified"])
                  apply (rule safe_check [where R = "settled Old"])
                    apply (cases cause; simp add: safe_def recoverable_def)
    using ok by (auto simp: recoverable_def)
qed

lemma safe_undo: "journal_ok ws j \<Longrightarrow> safe ws (recoverable ws) (rollback env j (Some e)) Q"
  using safe_rollback [of ws j env "Some e"] by (auto intro: safe_weaken)


lemma safe_advance:
  assumes j: "journal_ok ws j" and s: "validStage s" "verified_stage s \<longrightarrow> l = New" and f: "consistent ws f l"
  shows "safe ws (st f l r) (advance env j s) (st (Document (j\<lparr>joStage := s\<rparr>) False) l r)"
proof -
  have j': "journal_ok ws (j\<lparr>joStage := s\<rparr>)" using j by (simp add: journal_ok_def)
  show ?thesis
    unfolding advance_def Let_def
    by (rule safe_check [where R = "st (Document (j\<lparr>joStage := s\<rparr>) False) l r"])
      (use j' s f in \<open>auto simp: safe_undo st_def recoverable_def safe_def [of ws _ "return None"]\<close>)
qed

text \<open>A call of an interface whose failure is undone.\<close>

fun plain :: "call \<Rightarrow> bool" where
  "plain (Persist j) = False"
| "plain RemoveJournal = False"
| "plain _ = True"

lemma lands_plain: "plain c \<Longrightarrow> lands c f out f' \<longleftrightarrow> f' = f"
  by (cases c) auto

lemma safe_step:
  assumes c: "plain c" "mutates c \<longrightarrow> \<not> r" and f: "\<And>out. out \<noteq> Done \<Longrightarrow> consistent ws f (live_step (c, out) l)"
    and R: "st f (live_step (c, Done) l) (run_step (c, Done) r) = R"
    and h: "\<And>e. safe ws (recoverable ws) (h e) Q" and k: "safe ws R k Q"
  shows "safe ws (st f l r) (check (call env c) h k) Q"
  by (rule safe_check [OF k h]) (use c f R in \<open>auto simp: st_def recoverable_def lands_plain\<close>)

lemma consistent_open: "journal_ok ws j \<Longrightarrow> validStage (joStage j) \<Longrightarrow> \<not> verified_stage (joStage j) \<Longrightarrow>
    consistent ws (Document j False) l"
  by simp

lemma plan_journal_ok:
  "plWorkspaceID p \<noteq> [] \<Longrightarrow> plSnapshotID p \<noteq> [] \<Longrightarrow> plWorkspaceRoot p \<noteq> [] \<Longrightarrow>
   evStaging env (plSnapshotID p) (plWorkspaceRoot p) \<noteq> [] \<Longrightarrow> journal_ok (plWorkspaceID p) (plan_journal env p s)"
  by (simp add: journal_ok_def plan_journal_def)

lemma plan_journal_stage [simp]: "(plan_journal env p s)\<lparr>joStage := t\<rparr> = plan_journal env p t" "joStage (plan_journal env p s) = s"
  by (simp_all add: plan_journal_def)

lemma safe_persist:
  assumes "consistent ws (Document j False) l" "consistent ws f l"
  shows "safe ws (st f l r) (call env (Persist j)) (st (Document j False) l r)"
  by (rule safe_call) (use assms in \<open>auto simp: st_def recoverable_def\<close>)

lemma safe_remove: "l = Old \<or> l = New \<Longrightarrow> consistent ws f l \<Longrightarrow> safe ws (st f l r) (call env RemoveJournal) (st Absent l r)"
  by (rule safe_call) (auto simp: st_def recoverable_def)

lemma safe_apply:
  assumes p: "plWorkspaceID p \<noteq> []" "plSnapshotID p \<noteq> []" "plWorkspaceRoot p \<noteq> []"
    and staged: "evStaging env (plSnapshotID p) (plWorkspaceRoot p) \<noteq> []"
  shows "safe (plWorkspaceID p) (st Absent Old True) (Apply env p) (st Absent New True)"
proof -
  let ?ws = "plWorkspaceID p" and ?j = "plan_journal env p"
  note jo = plan_journal_ok [OF p staged]
  have adv: "safe ?ws (st (Document (?j s) False) l r) (advance env (?j s) t) (st (Document (?j t) False) l r)"
    if "validStage s" "validStage t" "verified_stage s \<longrightarrow> l = New" "verified_stage t \<longrightarrow> l = New" for s t l r
    using safe_advance [OF jo [of s], of t l "Document (?j s) False" r env] that jo by simp
  note undo = safe_step [OF _ _ _ _ safe_undo [OF jo]] and pass = safe_step [OF _ _ _ _ safe_fail]
  show ?thesis
    unfolding Apply_def Let_def
    by (simp only: if_False simp_thms p,
      (rule safe_attempt [OF adv] safe_attempt [OF safe_persist] undo pass safe_remove, (simp add: jo; fail)+)+)
qed


text \<open>Recovery is safe from every recoverable state, and returns nil only when the journal is gone and
  the data are all of one side.\<close>

lemma safe_finish:
  assumes j: "journal_ok ws j"
  shows "safe ws (st (Document (j\<lparr>joStage := StageRecoverySnapshotPending\<rparr>) False) New r)
    (attempt (call env (CaptureRecovery ws)) (attempt (advance env (j\<lparr>joStage := StageRecoverySnapshotPending\<rparr>) StageCommitted)
      (call env RemoveJournal))) (st Absent New r)"
proof -
  have j': "journal_ok ws (j\<lparr>joStage := s\<rparr>)" for s using j by (simp add: journal_ok_def)
  show ?thesis
    by ((rule safe_attempt [OF safe_advance] safe_step [OF _ _ _ _ safe_fail] safe_remove, (simp add: j'; fail)+)+)
qed

lemma recoverable_cases:
  assumes "recoverable ws w"
  obtains (absent) "rwJournal w = Absent" "readJournal (rwJournal w) = Inl ErrNotExist" "live (rwHistory w) = Old \<or> live (rwHistory w) = New"
  | (committed) j where "readJournal (rwJournal w) = Inr j" "journal_ok ws j" "rwJournal w = Document j False" "joStage j = StageCommitted"
      "st (rwJournal w) New (may_run (rwHistory w)) w"
  | (verified) j s where "readJournal (rwJournal w) = Inr j" "journal_ok ws j" "rwJournal w = Document j False" "joStage j = s"
      "s = StageVerified \<or> s = StageRecoverySnapshotPending" "st (rwJournal w) New (may_run (rwHistory w)) w"
  | (undo) j where "readJournal (rwJournal w) = Inr j" "journal_ok ws j" "\<not> verified_stage (joStage j)"
proof (cases "rwJournal w")
  case Absent
  then show ?thesis using assms absent by (auto simp: recoverable_def)
next
  case (Document j t)
  then have j: "journal_ok ws j" "readJournal (rwJournal w) = Inr j" "rwJournal w = Document j False"
    using assms by (auto simp: recoverable_def journal_ok_def)
  show ?thesis
  proof (cases "verified_stage (joStage j)")
    case True
    then have "live (rwHistory w) = New" using assms j by (simp add: recoverable_def)
    then have s: "st (rwJournal w) New (may_run (rwHistory w)) w" using assms by (simp add: st_def recoverable_def)
    have "joStage j = StageCommitted \<or> joStage j = StageVerified \<or> joStage j = StageRecoverySnapshotPending"
      using True by (cases "joStage j") auto
    then show ?thesis using committed [OF j(2,1,3) _ s] verified [OF j(2,1,3) refl _ s] by blast
  next
    case False
    then show ?thesis using undo j by blast
  qed
qed (use assms in \<open>simp_all add: recoverable_def\<close>)

lemma safe_recover:
  "safe ws (recoverable ws) (Recover env ws) (\<lambda>w. quiet True (rwHistory w) \<and> rwJournal w = Absent
     \<and> (live (rwHistory w) = Old \<or> live (rwHistory w) = New))"
  (is "safe ws _ _ ?Q")
  unfolding safe_def
proof (intro allI impI)
  fix w assume w: "recoverable ws w"
  have use_safe: "wp (Recover env ws) ?Q (recoverable ws) (recoverable ws) w"
    if "Recover env ws w = m w" "safe ws P m Q" "P w" "\<And>v. Q v \<Longrightarrow> ?Q v" for m P Q
    using wp_mono [of m Q "recoverable ws" "recoverable ws" w ?Q] that by (simp add: safe_def wp_def [of "Recover env ws"] wp_def [of m])
  from w show "wp (Recover env ws) ?Q (recoverable ws) (recoverable ws) w"
  proof (cases rule: recoverable_cases)
    case absent
    then show ?thesis using w by (simp add: wp_def Recover_def return_def recoverable_def)
  next
    case (committed j)
    then have "Recover env ws w = call env RemoveJournal w" by (simp add: Recover_def journal_ok_def)
    then show ?thesis using use_safe [OF _ safe_remove committed(5)] committed(2-4) by (auto simp: st_def)
  next
    case (verified j s)
    let ?p = "j\<lparr>joStage := StageRecoverySnapshotPending\<rparr>"
    have c: "consistent ws (Document j False) New" using verified(2,4,5) by auto
    from verified(5) show ?thesis
    proof
      assume s: "s = StageVerified"
      then have "Recover env ws w = attempt (advance env j StageRecoverySnapshotPending) (attempt (call env (CaptureRecovery ws))
          (attempt (advance env ?p StageCommitted) (call env RemoveJournal))) w"
        using verified(1,2,4) by (simp add: Recover_def journal_ok_def)
      then show ?thesis
        by (rule use_safe [OF _ safe_attempt [OF safe_advance safe_finish] verified(6)]) (use verified(2,3) c in \<open>auto simp: st_def\<close>)
    next
      assume s: "s = StageRecoverySnapshotPending"
      then have p: "?p = j" using verified(4) by (cases j) simp
      have "Recover env ws w = attempt (call env (CaptureRecovery ws)) (attempt (advance env ?p StageCommitted) (call env RemoveJournal)) w"
        using verified(1,2,4) s by (simp add: Recover_def journal_ok_def p)
      then show ?thesis
        by (rule use_safe [OF _ safe_finish [of ws j]]) (use verified(2,3,6) p in \<open>auto simp: st_def\<close>)
    qed
  next
    case (undo j)
    then have "Recover env ws w = rollback env j None w" by (auto simp: Recover_def journal_ok_def)
    then show ?thesis using use_safe [OF _ safe_rollback [OF undo(2)] w] by auto
  qed
qed

section \<open>Without faults\<close>

definition faultless :: "environment \<Rightarrow> bool" where
  "faultless env \<longleftrightarrow> (\<forall>h c. evCall env h c = Done) \<and> (\<forall>h s. evStep env h s = Done)"

definition calm :: "act \<Rightarrow> bool" where
  "calm m \<longleftrightarrow> (\<forall>w. \<exists>v. m w = (v, Returned None))"

lemma calm_call: "faultless env \<Longrightarrow> calm (call env c)"
  by (cases c) (auto simp: calm_def faultless_def call_def perform_def writeJournal_def removeJournal_def)

lemma calm_check: "calm m \<Longrightarrow> calm k \<Longrightarrow> calm (check m h k)"
proof -
  assume m: "calm m" and k: "calm k"
  show ?thesis unfolding calm_def
  proof
    fix w
    obtain v u where "m w = (v, Returned None)" "k v = (u, Returned None)" using m k unfolding calm_def by metis
    then show "\<exists>u. check m h k w = (u, Returned None)" by (simp add: check_def)
  qed
qed

lemma calm_return [simp]: "calm (return None)"
  by (simp add: calm_def return_def)

lemma calm_advance: "faultless env \<Longrightarrow> calm (advance env j s)"
  unfolding advance_def Let_def by (intro calm_check calm_call) simp_all

lemma calm_rollback: "faultless env \<Longrightarrow> calm (rollback env j None)"
  unfolding rollback_def Let_def by (intro calm_check calm_call; simp)

lemma recover_ends:
  assumes "faultless env" "recoverable ws w"
  shows "\<exists>v. Recover env ws w = (v, Returned None)"
proof -
  note calm = calm_check calm_call [OF assms(1)] calm_advance [OF assms(1)]
  have run: "\<exists>v. Recover env ws w = (v, Returned None)" if "Recover env ws w = m w" "calm m" for m
    using that by (auto simp: calm_def)
  from assms(2) show ?thesis
  proof (cases rule: recoverable_cases)
    case absent
    then show ?thesis by (simp add: Recover_def return_def)
  next
    case (committed j)
    then show ?thesis using calm(2) by (intro run [of "call env RemoveJournal"]) (auto simp: Recover_def journal_ok_def)
  next
    case (verified j s)
    let ?finish = "\<lambda>j. attempt (call env (CaptureRecovery ws)) (attempt (advance env j StageCommitted) (call env RemoveJournal))"
    have fin: "calm (?finish j)" for j by (intro calm)
    then have "calm (attempt (advance env j StageRecoverySnapshotPending) (?finish (j\<lparr>joStage := StageRecoverySnapshotPending\<rparr>)))"
      by (intro calm)
    then show ?thesis using verified fin [of j] run [of "?finish j"]
        run [of "attempt (advance env j StageRecoverySnapshotPending) (?finish (j\<lparr>joStage := StageRecoverySnapshotPending\<rparr>))"]
      by (auto simp: Recover_def journal_ok_def Let_def)
  next
    case (undo j)
    then show ?thesis using calm_rollback [OF assms(1)] by (intro run [of "rollback env j None"]) (auto simp: Recover_def journal_ok_def)
  qed
qed

lemma calm_apply:
  assumes "faultless env" "plWorkspaceID p \<noteq> []" "plSnapshotID p \<noteq> []" "plWorkspaceRoot p \<noteq> []"
  shows "calm (Apply env p)"
  unfolding Apply_def Let_def using assms(2-4)
  by (simp only: if_False simp_thms) (intro calm_check calm_call [OF assms(1)] calm_advance [OF assms(1)])

section \<open>The calls behind a success\<close>

definition never_nil :: "act \<Rightarrow> bool" where
  "never_nil m \<longleftrightarrow> (\<forall>w v. m w \<noteq> (v, Returned None))"

definition completes :: "act \<Rightarrow> call list \<Rightarrow> bool" where
  "completes m cs \<longleftrightarrow> (\<forall>w v. m w = (v, Returned None) \<longrightarrow> rwHistory v = rwHistory w @ map (\<lambda>c. (c, Done)) cs)"

lemma never_nil_return: "x \<noteq> None \<Longrightarrow> never_nil (return x)"
  by (simp add: never_nil_def return_def)

lemma never_nil_check: "(\<And>e. never_nil (h e)) \<Longrightarrow> never_nil k \<Longrightarrow> never_nil (check m h k)"
  by (auto simp: never_nil_def check_def split: prod.splits res.splits option.splits)

lemma never_nil_rollback: "never_nil (rollback env j (Some e))"
  unfolding rollback_def Let_def by (intro never_nil_check never_nil_return) simp_all

lemma completes_call: "completes (call env c) [c]"
proof -
  have "rwHistory v = rwHistory w @ [(c, Done)]" if "call env c w = (v, Returned None)" for v w
    using that perform_effect [of env c w] by (auto simp: call_def split: prod.splits outcome.splits)
  then show ?thesis by (simp add: completes_def)
qed

lemma completes_check: "completes m cs \<Longrightarrow> completes k ds \<Longrightarrow> (\<And>e. never_nil (h e)) \<Longrightarrow> completes (check m h k) (cs @ ds)"
  by (fastforce simp: completes_def never_nil_def check_def split: prod.splits res.splits option.splits)

lemma completes_return [simp]: "completes (return x) []"
  by (simp add: completes_def return_def)

lemma completes_advance: "completes (advance env j s) [Persist (j\<lparr>joStage := s\<rparr>)]"
proof -
  have "never_nil (if s \<noteq> StageCommitted then rollback env j' (Some e) else return (Some e))" for j' e
    by (simp add: never_nil_rollback never_nil_return)
  from completes_check [OF completes_call completes_return this] show ?thesis by (simp add: advance_def Let_def)
qed


section \<open>Properties\<close>

definition start :: world where
  "start = \<lparr>rwHistory = [], rwJournal = Absent\<rparr>"

definition recoveries :: "environment list \<Rightarrow> string \<Rightarrow> world \<Rightarrow> world" where
  "recoveries envs ws w = fold (\<lambda>env w. fst (Recover env ws w)) envs w"

lemma wp_recoverable:
  "wp m Q (recoverable ws) (recoverable ws) w \<Longrightarrow> (\<And>v. Q v \<Longrightarrow> recoverable ws v) \<Longrightarrow> recoverable ws (fst (m w))"
  by (auto simp: wp_def split: prod.splits res.splits option.splits)

lemma apply_wp:
  assumes "plWorkspaceID p \<noteq> []" "plSnapshotID p \<noteq> []" "plWorkspaceRoot p \<noteq> []"
    "evStaging env (plSnapshotID p) (plWorkspaceRoot p) \<noteq> []"
  shows "wp (Apply env p) (st Absent New True) (recoverable (plWorkspaceID p)) (recoverable (plWorkspaceID p)) start"
proof -
  have "st Absent Old True start" by (simp add: st_def start_def live_def may_run_def)
  then show ?thesis using safe_apply [OF assms] by (simp add: safe_def)
qed

lemma recoveries_recoverable:
  assumes "plWorkspaceID p \<noteq> []" "plSnapshotID p \<noteq> []" "plWorkspaceRoot p \<noteq> []"
    "evStaging env (plSnapshotID p) (plWorkspaceRoot p) \<noteq> []"
  shows "recoverable (plWorkspaceID p) (recoveries envs (plWorkspaceID p) (fst (Apply env p start)))"
proof -
  let ?ws = "plWorkspaceID p"
  have step: "recoverable ?ws (fst (Recover env ?ws w))" if "recoverable ?ws w" for env w
    by (rule wp_recoverable [OF safe_recover [unfolded safe_def, rule_format, OF that]]) (auto simp: recoverable_def)
  have "recoverable ?ws (fst (Apply env p start))"
    by (rule wp_recoverable [OF apply_wp [OF assms]]) (auto simp: st_def recoverable_def)
  then show ?thesis unfolding recoveries_def by (induction envs rule: rev_induct) (simp_all add: step)
qed

definition demo_plan :: restore_plan where
  "demo_plan = \<lparr>plWorkspaceID = ''w'', plSnapshotID = ''s'', plWorkspaceRoot = ''root'', plManifestHash = [], plSealHash = [],
     plFenceEpoch = 0, plClaimID = [], plLedgerAnchor = []\<rparr>"

text \<open>Everything succeeds.\<close>

definition demo_calm :: environment where
  "demo_calm = \<lparr>evCall = (\<lambda>h c. Done), evStep = (\<lambda>h s. Done), evStaging = (\<lambda>s r. ''staging'')\<rparr>"

text \<open>The health check of the restored workspace fails, and the process dies in the rollback.\<close>

definition demo_unhealthy :: environment where
  "demo_unhealthy = demo_calm\<lparr>evCall := (\<lambda>h c. case c of Health \<Rightarrow> Failed (Err ''down'') | Rollback s r \<Rightarrow> Died | _ \<Rightarrow> Done)\<rparr>"

lemma demo_faultless: "faultless demo_calm"
  by (simp add: faultless_def demo_calm_def)

lemma demo_plan_ok: "plWorkspaceID demo_plan = ''w''" "plSnapshotID demo_plan = ''s''" "plWorkspaceRoot demo_plan = ''root''"
  by (simp_all add: demo_plan_def)

text \<open>C18. A restore is all or nothing. However \<open>Apply\<close> ends, with an error, a failed rollback, a
  journal that could not be written or the death of the process at any call, and however many
  recoveries are cut short in the same way afterwards, a recovery in which nothing fails returns nil,
  removes the journal and leaves either all of the previous data or all of the snapshot.\<close>

theorem restore_atomic:
  assumes "plWorkspaceID p \<noteq> []" "plSnapshotID p \<noteq> []" "plWorkspaceRoot p \<noteq> []"
    "evStaging env (plSnapshotID p) (plWorkspaceRoot p) \<noteq> []" "faultless env'"
  shows "\<exists>v. Recover env' (plWorkspaceID p) (recoveries envs (plWorkspaceID p) (fst (Apply env p start))) = (v, Returned None)
    \<and> rwJournal v = Absent \<and> (live (rwHistory v) = Old \<or> live (rwHistory v) = New)"
proof -
  let ?ws = "plWorkspaceID p" and ?w = "recoveries envs (plWorkspaceID p) (fst (Apply env p start))"
  note rec = recoveries_recoverable [OF assms(1-4), of envs]
  obtain v where v: "Recover env' ?ws ?w = (v, Returned None)" using recover_ends [OF assms(5) rec] by blast
  then show ?thesis using safe_recover [unfolded safe_def, rule_format, OF rec, of env'] by (simp add: wp_def)
qed

theorem restore_atomic_witness:
  "rwJournal (fst (Apply demo_unhealthy demo_plan start)) \<noteq> Absent
   \<and> (\<exists>v. Recover demo_calm ''w'' (recoveries [demo_unhealthy] ''w'' (fst (Apply demo_unhealthy demo_plan start))) = (v, Returned None)
      \<and> rwJournal v = Absent \<and> (live (rwHistory v) = Old \<or> live (rwHistory v) = New))"
proof -
  have "evStaging demo_unhealthy ''s'' ''root'' \<noteq> []" by (simp add: demo_unhealthy_def demo_calm_def)
  then have "\<exists>v. Recover demo_calm ''w'' (recoveries [demo_unhealthy] ''w'' (fst (Apply demo_unhealthy demo_plan start))) = (v, Returned None)
      \<and> rwJournal v = Absent \<and> (live (rwHistory v) = Old \<or> live (rwHistory v) = New)"
    using restore_atomic [of demo_plan demo_unhealthy demo_calm "[demo_unhealthy]"] by (simp add: demo_plan_ok demo_faultless)
  moreover have "rwJournal (fst (Apply demo_unhealthy demo_plan start)) \<noteq> Absent" by code_simp
  ultimately show ?thesis by blast
qed

text \<open>The workspace is never changed under running services. In the history of a restore and of
  any number of recoveries, with any failures and crashes, every installation, audit epoch and
  rollback comes after a \<open>Stop\<close> that succeeded and before the next \<open>Start\<close>.\<close>

theorem restore_quiet:
  assumes "plWorkspaceID p \<noteq> []" "plSnapshotID p \<noteq> []" "plWorkspaceRoot p \<noteq> []"
    "evStaging env (plSnapshotID p) (plWorkspaceRoot p) \<noteq> []"
  shows "quiet True (rwHistory (recoveries envs (plWorkspaceID p) (fst (Apply env p start))))"
  using recoveries_recoverable [OF assms] by (simp add: recoverable_def)

theorem restore_quiet_witness:
  "quiet True (rwHistory (recoveries [demo_unhealthy, demo_calm] ''w'' (fst (Apply demo_unhealthy demo_plan start))))
   \<and> \<not> quiet True [(Start, Done), (Rollback ''staging'' ''root'', Done)]"
proof -
  have "evStaging demo_unhealthy ''s'' ''root'' \<noteq> []" by (simp add: demo_unhealthy_def demo_calm_def)
  then show ?thesis
    using restore_quiet [of demo_plan demo_unhealthy "[demo_unhealthy, demo_calm]"] by (simp add: demo_plan_ok)
qed

text \<open>\<open>Apply\<close> returns nil exactly after all of its calls have succeeded, in this order, with the
  journal written between them; then the snapshot is installed and running and the journal is
  gone. When nothing fails it does return nil.\<close>

definition success_calls :: "environment \<Rightarrow> restore_plan \<Rightarrow> call list" where
  "success_calls env p =
     (let root = plWorkspaceRoot p; staging = evStaging env (plSnapshotID p) root; at = (\<lambda>s. Persist (plan_journal env p s))
      in [Protect, Stage (plSnapshotID p) root, at StagePrepared, Stop, at StageServicesStopped, InstallData staging root,
          at StageDataInstalled, InstallFilesAsRestoreLeaves staging root, at StageTopologyCommitted,
          CommitAuditEpoch (plWorkspaceID p) (plSnapshotID p), at StageAuditEpochCommitted, Start, Health, at StageVerified,
          at StageRecoverySnapshotPending, CaptureRecovery (plWorkspaceID p), at StageCommitted, RemoveJournal])"

lemma completes_apply:
  assumes "plWorkspaceID p \<noteq> []" "plSnapshotID p \<noteq> []" "plWorkspaceRoot p \<noteq> []"
  shows "completes (Apply env p) (success_calls env p)"
proof -
  have adv: "completes (advance env (plan_journal env p s) t) [Persist (plan_journal env p t)]" for s t
    using completes_advance [of env "plan_journal env p s" t] by simp
  note call = completes_check [OF completes_call _ never_nil_rollback, unfolded append.simps]
    completes_check [OF completes_call _ never_nil_return, unfolded append.simps]
    completes_check [OF adv _ never_nil_return, unfolded append.simps]
  show ?thesis
    unfolding Apply_def success_calls_def Let_def
    by (simp only: if_False simp_thms assms) (rule call | simp | rule completes_call)+
qed

theorem restore_success:
  assumes "plWorkspaceID p \<noteq> []" "plSnapshotID p \<noteq> []" "plWorkspaceRoot p \<noteq> []"
    "evStaging env (plSnapshotID p) (plWorkspaceRoot p) \<noteq> []"
  shows "(Apply env p start = (w, Returned None) \<longrightarrow> rwHistory w = map (\<lambda>c. (c, Done)) (success_calls env p)
      \<and> rwJournal w = Absent \<and> live (rwHistory w) = New \<and> may_run (rwHistory w))
    \<and> (faultless env \<longrightarrow> (\<exists>v. Apply env p start = (v, Returned None)))"
  using completes_apply [OF assms(1-3), of env] apply_wp [OF assms] calm_apply [OF _ assms(1-3), of env]
  by (auto simp: completes_def wp_def st_def calm_def start_def)

theorem restore_success_witness:
  "\<exists>w. Apply demo_calm demo_plan start = (w, Returned None) \<and> rwHistory w = map (\<lambda>c. (c, Done)) (success_calls demo_calm demo_plan)
     \<and> rwJournal w = Absent \<and> live (rwHistory w) = New \<and> may_run (rwHistory w)"
proof -
  have s: "evStaging demo_calm ''s'' ''root'' \<noteq> []" by (simp add: demo_calm_def)
  then obtain w where w: "Apply demo_calm demo_plan start = (w, Returned None)"
    using restore_success [of demo_plan demo_calm] by (auto simp: demo_plan_ok demo_faultless)
  from restore_success [of demo_plan demo_calm w, unfolded demo_plan_ok, OF _ _ _ s] show ?thesis using w by blast
qed

end
