(* ===== verification/Object_Repo.thy ===== *)
theory Object_Repo
  imports VT_Prelude
begin

text \<open>
  The content-addressed object repository in memory (\<open>sidecar/internal/objectrepo/memory.go\<close>) with
  the identities and authority checks shared by all repositories (\<open>common.go\<close>): fenced authorities,
  atomic commits of objects and manifests, reading and verification, storage accounting and pins.

  Contents and payloads are byte strings. Maps are association lists with unique keys, updated with
  \<^const>\<open>AList.update\<close>; their order stands for the iteration order of a Go map. SHA-256 (as lower-case
  hexadecimal digits) and the JSON encoding of a manifest are arguments; the encoding is undefined on
  payloads that are not JSON. The fault injector, the clock and fresh identifiers are arguments too.
\<close>

section \<open>Data\<close>

definition ErrStaleAuthority :: go_error where "ErrStaleAuthority = Err ''repository.stale_authority''"
definition ErrNotFound :: go_error where "ErrNotFound = Err ''repository.not_found''"
definition ErrCorrupt :: go_error where "ErrCorrupt = Err ''repository.corrupt''"

record authority =
  auWorkspaceID :: string
  auFenceEpoch :: "64 word"
  auClaimID :: string

record object_input =
  oiName :: string
  oiContent :: string

type_synonym labels = "(string \<times> string) list"

record manifest_input =
  miName :: string
  miLabels :: labels
  miPayload :: string

record commit_request =
  crAuthority :: authority
  crObjects :: "object_input list"
  crManifests :: "manifest_input list"

record commit_receipt =
  drWorkspaceID :: string
  drFenceEpoch :: "64 word"
  drClaimID :: string
  drObjects :: "(string \<times> string) list"
  drManifests :: "(string \<times> string) list"
  drRevision :: "64 word"
  drFlushedAt :: instant
  drDurable :: bool

record verification_report =
  vrValid :: bool
  vrChecked :: "string list"
  vrMissing :: "string list"
  vrCorrupt :: "string list"

record storage_inventory =
  siRepositoryRevision :: "64 word"
  siObjectCount :: "64 word"
  siUniqueContentCount :: "64 word"
  siLogicalBytes :: "64 word"
  siPhysicalBytes :: "64 word"
  siPhysicalBytesEstimated :: bool

record root_pin =
  rpPinID :: string
  rpWorkspaceID :: string
  rpRoots :: "string list"
  rpPurpose :: string
  rpExpiresAt :: "instant option"
  rpCreatedAt :: instant

record manifest_record =
  mrID :: string
  mrName :: string
  mrLabels :: labels
  mrPayload :: string

datatype fault_point = FaultBeforeObjectWrite | FaultBeforeManifestWrite | FaultBeforeFlush | FaultBeforePinWrite

text \<open>What the injector returns at a point, for the n-th time the operation asks.\<close>

type_synonym injector = "fault_point \<Rightarrow> nat \<Rightarrow> go_error option"

record repo =
  reAuthority :: "authority option"
  reObjects :: "(string \<times> string) list"
  reManifests :: "(string \<times> manifest_record) list"
  rePins :: "(string \<times> root_pin) list"
  reRevision :: "64 word"

definition NewMemory :: repo where
  "NewMemory = \<lparr>reAuthority = None, reObjects = [], reManifests = [], rePins = [], reRevision = 0\<rparr>"

text \<open>SHA-256 in hexadecimal, and the JSON text of labels and payload.\<close>

record codec =
  sha256_hex :: "string \<Rightarrow> string"
  manifest_json :: "(string \<times> string) list \<Rightarrow> string \<Rightarrow> string option"

section \<open>Identities\<close>

definition validateAuthority :: "authority \<Rightarrow> unit result" where
  "validateAuthority a =
     (if go_blank (auWorkspaceID a) \<or> go_blank (auClaimID a) \<or> auFenceEpoch a = 0
      then Inl (Err ''repository.authority_invalid'') else Inr ())"

definition authorityEqual :: "authority \<Rightarrow> authority \<Rightarrow> bool" where
  "authorityEqual l r \<longleftrightarrow> auWorkspaceID l = auWorkspaceID r \<and> auFenceEpoch l = auFenceEpoch r \<and> auClaimID l = auClaimID r"

definition objectID :: "codec \<Rightarrow> string \<Rightarrow> string" where
  "objectID h content = ''obj_'' @ sha256_hex h content"

definition hex_digit :: "char \<Rightarrow> bool" where
  "hex_digit c \<longleftrightarrow> is_digit c \<or> c \<in> set ''abcdefABCDEF''"

definition validateObjectID :: "string \<Rightarrow> bool" where
  "validateObjectID i \<longleftrightarrow> take 4 i = ''obj_'' \<and> length i = 4 + 64 \<and> list_all hex_digit (drop 4 i)"

definition canonicalManifestID :: "codec \<Rightarrow> manifest_input \<Rightarrow> string result" where
  "canonicalManifestID h m =
     (if go_blank (miName m) \<or> miPayload m = [] then Inl (Err ''repository.manifest_invalid'')
      else case manifest_json h (sort_key fst (miLabels m)) (miPayload m) of
        None \<Rightarrow> Inl (Err ''repository.manifest_invalid'')
      | Some text \<Rightarrow> Inr (''manifest_'' @ sha256_hex h text))"

definition record_input :: "manifest_record \<Rightarrow> manifest_input" where
  "record_input r = \<lparr>miName = mrName r, miLabels = mrLabels r, miPayload = mrPayload r\<rparr>"

definition VerifyManifestRecord :: "codec \<Rightarrow> manifest_record \<Rightarrow> unit result" where
  "VerifyManifestRecord h r = (case canonicalManifestID h (record_input r) of
     Inl _ \<Rightarrow> Inl ErrCorrupt | Inr i \<Rightarrow> if i \<noteq> mrID r then Inl ErrCorrupt else Inr ())"

section \<open>Authority\<close>

definition AcceptAuthority :: "authority option \<Rightarrow> authority \<Rightarrow> repo \<Rightarrow> repo \<times> unit result" where
  "AcceptAuthority expected nxt re =
     (case validateAuthority nxt of Inl e \<Rightarrow> (re, Inl e)
      | Inr _ \<Rightarrow>
          if (case expected of None \<Rightarrow> reAuthority re \<noteq> None
              | Some x \<Rightarrow> (case reAuthority re of None \<Rightarrow> True | Some a \<Rightarrow> \<not> authorityEqual a x))
          then (re, Inl ErrStaleAuthority)
          else if (case reAuthority re of None \<Rightarrow> False
              | Some a \<Rightarrow> auWorkspaceID nxt \<noteq> auWorkspaceID a \<or> auFenceEpoch nxt < auFenceEpoch a
                  \<or> auFenceEpoch nxt = auFenceEpoch a \<and> auClaimID nxt \<noteq> auClaimID a)
          then (re, Inl ErrStaleAuthority)
          else (re\<lparr>reAuthority := Some nxt\<rparr>, Inr ()))"

text \<open>\<open>repository.authority == nil || !authorityEqual(...)\<close>\<close>

definition stale :: "authority \<Rightarrow> repo \<Rightarrow> bool" where
  "stale a re \<longleftrightarrow> (case reAuthority re of None \<Rightarrow> True | Some b \<Rightarrow> \<not> authorityEqual b a)"

section \<open>Commits\<close>

text \<open>The loops over the inputs of a commit, on copies of the maps; the number is that of the inputs
  already written.\<close>

fun write_objects :: "codec \<Rightarrow> injector \<Rightarrow> nat \<Rightarrow> object_input list \<Rightarrow> (string \<times> string) list \<Rightarrow> (string \<times> string) list
  \<Rightarrow> ((string \<times> string) list \<times> (string \<times> string) list) result" where
  "write_objects h f n [] objs names = Inr (objs, names)"
| "write_objects h f n (i # is) objs names =
     (case f FaultBeforeObjectWrite n of Some e \<Rightarrow> Inl e
      | None \<Rightarrow>
          if oiName i = [] then Inl (Err ''repository.object_name_invalid'')
          else write_objects h f (Suc n) is (AList.update (objectID h (oiContent i)) (oiContent i) objs)
                 (AList.update (oiName i) (objectID h (oiContent i)) names))"

fun write_manifests :: "codec \<Rightarrow> injector \<Rightarrow> nat \<Rightarrow> manifest_input list \<Rightarrow> (string \<times> manifest_record) list
  \<Rightarrow> (string \<times> string) list \<Rightarrow> ((string \<times> manifest_record) list \<times> (string \<times> string) list) result" where
  "write_manifests h f n [] ms names = Inr (ms, names)"
| "write_manifests h f n (i # is) ms names =
     (case f FaultBeforeManifestWrite n of Some e \<Rightarrow> Inl e
      | None \<Rightarrow>
          (case canonicalManifestID h i of Inl e \<Rightarrow> Inl e
           | Inr mid \<Rightarrow> write_manifests h f (Suc n) is
               (AList.update mid \<lparr>mrID = mid, mrName = miName i, mrLabels = miLabels i, mrPayload = miPayload i\<rparr> ms)
               (AList.update (miName i) mid names)))"

definition Commit :: "codec \<Rightarrow> injector \<Rightarrow> instant \<Rightarrow> commit_request \<Rightarrow> repo \<Rightarrow> repo \<times> commit_receipt result" where
  "Commit h f now req re =
     (case validateAuthority (crAuthority req) of Inl e \<Rightarrow> (re, Inl e)
      | Inr _ \<Rightarrow>
          if stale (crAuthority req) re then (re, Inl ErrStaleAuthority)
          else (case write_objects h f 0 (crObjects req) (reObjects re) [] of Inl e \<Rightarrow> (re, Inl e)
            | Inr (objs, onames) \<Rightarrow>
                (case write_manifests h f 0 (crManifests req) (reManifests re) [] of Inl e \<Rightarrow> (re, Inl e)
                 | Inr (ms, mnames) \<Rightarrow>
                     (case f FaultBeforeFlush 0 of Some e \<Rightarrow> (re, Inl e)
                      | None \<Rightarrow>
                          (re\<lparr>reObjects := objs, reManifests := ms, reRevision := reRevision re + 1\<rparr>,
                           Inr \<lparr>drWorkspaceID = auWorkspaceID (crAuthority req),
                                drFenceEpoch = auFenceEpoch (crAuthority req), drClaimID = auClaimID (crAuthority req),
                                drObjects = onames, drManifests = mnames, drRevision = reRevision re + 1,
                                drFlushedAt = now, drDurable = True\<rparr>)))))"

section \<open>Reading\<close>

definition Open :: "codec \<Rightarrow> string \<Rightarrow> repo \<Rightarrow> string result" where
  "Open h i re = (case map_of (reObjects re) i of None \<Rightarrow> Inl ErrNotFound
     | Some c \<Rightarrow> if objectID h c \<noteq> i then Inl ErrCorrupt else Inr c)"

definition GetManifest :: "codec \<Rightarrow> string \<Rightarrow> repo \<Rightarrow> manifest_record result" where
  "GetManifest h i re = (case map_of (reManifests re) i of None \<Rightarrow> Inl ErrNotFound
     | Some r \<Rightarrow> (case canonicalManifestID h (record_input r) of Inl _ \<Rightarrow> Inl ErrCorrupt
         | Inr j \<Rightarrow> if j \<noteq> i then Inl ErrCorrupt else Inr r))"

definition verify_one :: "codec \<Rightarrow> repo \<Rightarrow> string \<Rightarrow> verification_report \<Rightarrow> verification_report" where
  "verify_one h re i rep =
     (let rep = rep\<lparr>vrChecked := vrChecked rep @ [i]\<rparr>
      in case map_of (reObjects re) i of
           None \<Rightarrow> rep\<lparr>vrMissing := vrMissing rep @ [i], vrValid := False\<rparr>
         | Some c \<Rightarrow> if objectID h c \<noteq> i then rep\<lparr>vrCorrupt := vrCorrupt rep @ [i], vrValid := False\<rparr> else rep)"

definition Verify :: "codec \<Rightarrow> string list \<Rightarrow> repo \<Rightarrow> verification_report" where
  "Verify h roots re = fold (verify_one h re) roots \<lparr>vrValid = True, vrChecked = [], vrMissing = [], vrCorrupt = []\<rparr>"

fun inventory_loop :: "codec \<Rightarrow> repo \<Rightarrow> string list \<Rightarrow> string list \<Rightarrow> 64 word \<Rightarrow> (string list \<times> 64 word) result" where
  "inventory_loop h re [] seen n = Inr (seen, n)"
| "inventory_loop h re (i # is) seen n =
     (if i \<in> set seen then inventory_loop h re is seen n
      else case map_of (reObjects re) i of None \<Rightarrow> Inl ErrNotFound
      | Some c \<Rightarrow>
          if objectID h c \<noteq> i then Inl ErrCorrupt
          else let size = of_nat (length c) in
            if MaxUint64 - n < size then Inl (Err ''repository.inventory_size_overflow'')
            else inventory_loop h re is (i # seen) (n + size))"

definition StorageInventory :: "codec \<Rightarrow> string list \<Rightarrow> repo \<Rightarrow> storage_inventory result" where
  "StorageInventory h roots re = (case inventory_loop h re roots [] 0 of Inl e \<Rightarrow> Inl e
     | Inr (seen, n) \<Rightarrow> Inr \<lparr>siRepositoryRevision = reRevision re, siObjectCount = of_nat (length seen),
          siUniqueContentCount = of_nat (length seen), siLogicalBytes = n, siPhysicalBytes = n,
          siPhysicalBytesEstimated = False\<rparr>)"

definition add_usage :: "64 word \<Rightarrow> string \<Rightarrow> 64 word result" where
  "add_usage n c = (let size = of_nat (length c) in
     if MaxUint64 - n < size then Inl (Err ''repository.usage_size_overflow'') else Inr (n + size))"

fun object_usage :: "codec \<Rightarrow> (string \<times> string) list \<Rightarrow> 64 word \<Rightarrow> 64 word result" where
  "object_usage h [] n = Inr n"
| "object_usage h ((i, c) # os) n =
     (if objectID h c \<noteq> i then Inl ErrCorrupt
      else case add_usage n c of Inl e \<Rightarrow> Inl e | Inr m \<Rightarrow> object_usage h os m)"

fun manifest_usage :: "(string \<times> manifest_record) list \<Rightarrow> 64 word \<Rightarrow> 64 word result" where
  "manifest_usage [] n = Inr n"
| "manifest_usage ((i, r) # ms) n = (case add_usage n (mrPayload r) of Inl e \<Rightarrow> Inl e | Inr m \<Rightarrow> manifest_usage ms m)"

definition RepositoryUsage :: "codec \<Rightarrow> repo \<Rightarrow> 64 word result" where
  "RepositoryUsage h re = (case object_usage h (reObjects re) 0 of Inl e \<Rightarrow> Inl e
     | Inr n \<Rightarrow> manifest_usage (reManifests re) n)"

section \<open>Pins\<close>

definition Pin :: "injector \<Rightarrow> instant \<Rightarrow> string \<Rightarrow> authority \<Rightarrow> string list \<Rightarrow> string \<Rightarrow> instant option \<Rightarrow> repo
  \<Rightarrow> repo \<times> root_pin result" where
  "Pin f now pinID a roots purpose expiry re =
     (if stale a re then (re, Inl ErrStaleAuthority)
      else if purpose = [] then (re, Inl (Err ''repository.pin_purpose_invalid''))
      else if \<not> list_all (\<lambda>i. map_of (reObjects re) i \<noteq> None) roots then (re, Inl ErrNotFound)
      else case f FaultBeforePinWrite 0 of Some e \<Rightarrow> (re, Inl e)
      | None \<Rightarrow>
          let p = \<lparr>rpPinID = pinID, rpWorkspaceID = auWorkspaceID a, rpRoots = roots, rpPurpose = purpose,
                   rpExpiresAt = expiry, rpCreatedAt = now\<rparr>
          in (re\<lparr>rePins := AList.update pinID p (rePins re)\<rparr>, Inr p))"

definition ReleasePin :: "authority \<Rightarrow> string \<Rightarrow> repo \<Rightarrow> repo \<times> unit result" where
  "ReleasePin a pinID re =
     (if stale a re then (re, Inl ErrStaleAuthority)
      else (re\<lparr>rePins := AList.delete pinID (rePins re)\<rparr>, Inr ()))"

definition ListPins :: "repo \<Rightarrow> root_pin list" where
  "ListPins re = sort_key rpPinID (map snd (rePins re))"


section \<open>The invariant of a repository\<close>

definition objects_ok :: "codec \<Rightarrow> (string \<times> string) list \<Rightarrow> bool" where
  "objects_ok h os \<longleftrightarrow> (\<forall>i c. map_of os i = Some c \<longrightarrow> objectID h c = i)"

definition manifests_ok :: "codec \<Rightarrow> (string \<times> manifest_record) list \<Rightarrow> bool" where
  "manifests_ok h ms \<longleftrightarrow> (\<forall>i r. map_of ms i = Some r \<longrightarrow> mrID r = i \<and> canonicalManifestID h (record_input r) = Inr i)"

definition pins_ok :: "repo \<Rightarrow> bool" where
  "pins_ok re \<longleftrightarrow> (\<forall>i p. map_of (rePins re) i = Some p \<longrightarrow> rpPinID p = i \<and> (\<forall>x \<in> set (rpRoots p). map_of (reObjects re) x \<noteq> None))"

definition repo_ok :: "codec \<Rightarrow> repo \<Rightarrow> bool" where
  "repo_ok h re \<longleftrightarrow> objects_ok h (reObjects re) \<and> manifests_ok h (reManifests re) \<and> pins_ok re
     \<and> distinct (map fst (reObjects re)) \<and> distinct (map fst (rePins re))"

lemma map_of_AList_update [simp]: "map_of (AList.update k v xs) k' = (if k' = k then Some v else map_of xs k')"
  by (simp add: update_conv)

text \<open>The loops over the inputs, when they succeed.\<close>

definition put_object :: "codec \<Rightarrow> object_input \<Rightarrow> (string \<times> string) list \<Rightarrow> (string \<times> string) list" where
  "put_object h i = AList.update (objectID h (oiContent i)) (oiContent i)"

definition put_manifest :: "codec \<Rightarrow> manifest_input \<Rightarrow> (string \<times> manifest_record) list \<Rightarrow> (string \<times> manifest_record) list" where
  "put_manifest h i ms = (case canonicalManifestID h i of Inl e \<Rightarrow> ms
     | Inr mid \<Rightarrow> AList.update mid \<lparr>mrID = mid, mrName = miName i, mrLabels = miLabels i, mrPayload = miPayload i\<rparr> ms)"

lemma write_objects_eq:
  "write_objects h f n is objs names = Inr (objs', names') \<Longrightarrow> objs' = fold (put_object h) is objs"
  by (induction h f n "is" objs names rule: write_objects.induct) (auto simp: put_object_def split: option.splits if_splits)

lemma write_manifests_eq:
  "write_manifests h f n is ms names = Inr (ms', names') \<Longrightarrow>
   ms' = fold (put_manifest h) is ms \<and> (\<forall>i \<in> set is. \<exists>mid. canonicalManifestID h i = Inr mid)"
  by (induction h f n "is" ms names rule: write_manifests.induct)
    (auto simp: put_manifest_def split: option.splits sum.splits)

lemma map_of_put_object [simp]:
  "map_of (put_object h i objs) k = (if k = objectID h (oiContent i) then Some (oiContent i) else map_of objs k)"
  by (simp add: put_object_def)

lemma map_of_put_manifest:
  "map_of (put_manifest h i ms) k = (if canonicalManifestID h i = Inr k
     then Some \<lparr>mrID = k, mrName = miName i, mrLabels = miLabels i, mrPayload = miPayload i\<rparr> else map_of ms k)"
  by (auto simp: put_manifest_def split: sum.splits)

lemma put_objects_stay: "map_of objs i \<noteq> None \<Longrightarrow> map_of (fold (put_object h) is objs) i \<noteq> None"
  by (induction "is" arbitrary: objs) simp_all

lemma put_objects_distinct: "distinct (map fst objs) \<Longrightarrow> distinct (map fst (fold (put_object h) is objs))"
  by (induction "is" arbitrary: objs) (simp_all add: put_object_def distinct_update)

lemma put_objects_old: "map_of (fold (put_object h) is objs) i = Some c \<Longrightarrow>
    map_of objs i = Some c \<or> c \<in> oiContent ` set is \<and> objectID h c = i"
proof (induction "is" arbitrary: objs)
  case (Cons x "is")
  then show ?case using Cons.IH [of "put_object h x objs"] by (auto split: if_splits)
qed simp

lemma put_objects_ok: "objects_ok h objs \<Longrightarrow> objects_ok h (fold (put_object h) is objs)"
  unfolding objects_ok_def by (meson put_objects_old)

lemma put_objects_new: "x \<in> set is \<Longrightarrow> map_of (fold (put_object h) is objs) (objectID h (oiContent x)) \<noteq> None"
proof (induction "is" arbitrary: objs)
  case (Cons i "is")
  then show ?case
    using put_objects_stay [of "put_object h x objs" "objectID h (oiContent x)" h "is"] by auto
qed simp

lemma put_manifests_ok: "manifests_ok h ms \<Longrightarrow> manifests_ok h (fold (put_manifest h) is ms)"
proof (induction "is" arbitrary: ms)
  case (Cons i "is")
  have same: "\<lparr>miName = miName i, miLabels = miLabels i, miPayload = miPayload i\<rparr> = i" by (cases i) simp
  have "manifests_ok h (put_manifest h i ms)"
    using Cons.prems by (simp add: manifests_ok_def map_of_put_manifest record_input_def same)
  then show ?case using Cons.IH by simp
qed simp

lemma put_manifests_stay: "map_of ms i \<noteq> None \<Longrightarrow> map_of (fold (put_manifest h) is ms) i \<noteq> None"
  by (induction "is" arbitrary: ms) (simp_all add: map_of_put_manifest)

lemma put_manifests_new:
  "x \<in> set is \<Longrightarrow> canonicalManifestID h x = Inr i \<Longrightarrow> map_of (fold (put_manifest h) is ms) i \<noteq> None"
proof (induction "is" arbitrary: ms)
  case (Cons y "is")
  have "map_of (put_manifest h x ms) i \<noteq> None" using Cons.prems by (simp add: map_of_put_manifest)
  then show ?case using put_manifests_stay [of "put_manifest h x ms" i h "is"] Cons by auto
qed simp

lemma put_manifests_old:
  "map_of (fold (put_manifest h) is ms) i = Some s \<Longrightarrow>
    map_of ms i = Some s \<or> (\<exists>m \<in> set is. canonicalManifestID h m = Inr i \<and> record_input s = m)"
proof (induction "is" arbitrary: ms)
  case (Cons x "is")
  have same: "\<lparr>miName = miName x, miLabels = miLabels x, miPayload = miPayload x\<rparr> = x" by (cases x) simp
  show ?case using Cons.IH [of "put_manifest h x ms"] Cons.prems same
    by (auto simp: map_of_put_manifest record_input_def split: if_splits)
qed simp

text \<open>A commit either fails and changes nothing, or puts all of its inputs.\<close>

lemma Commit_cases:
  assumes "Commit h f now req re = (re', r)"
  obtains (failed) e where "r = Inl e" "re' = re"
  | (stored) rc where "r = Inr rc" "\<not> stale (crAuthority req) re" "drRevision rc = reRevision re + 1"
      "re' = re\<lparr>reObjects := fold (put_object h) (crObjects req) (reObjects re),
             reManifests := fold (put_manifest h) (crManifests req) (reManifests re), reRevision := reRevision re + 1\<rparr>"
      "\<forall>m \<in> set (crManifests req). \<exists>mid. canonicalManifestID h m = Inr mid"
proof (cases r)
  case (Inl e)
  then have "re' = re" using assms by (auto simp: Commit_def split: sum.splits if_splits option.splits)
  then show ?thesis using failed Inl by blast
next
  case (Inr rc)
  then obtain objs onames ms mnames where w: "write_objects h f 0 (crObjects req) (reObjects re) [] = Inr (objs, onames)"
    "write_manifests h f 0 (crManifests req) (reManifests re) [] = Inr (ms, mnames)" "\<not> stale (crAuthority req) re"
    "re' = re\<lparr>reObjects := objs, reManifests := ms, reRevision := reRevision re + 1\<rparr>" "drRevision rc = reRevision re + 1"
    using assms by (auto simp: Commit_def split: sum.splits if_splits option.splits)
  show ?thesis using stored [OF Inr w(3,5)] w(4) write_objects_eq [OF w(1)] write_manifests_eq [OF w(2)] by simp
qed

lemma Commit_ok:
  assumes "Commit h f now req re = (re', r)" "repo_ok h re"
  shows "repo_ok h re'"
  using assms(1)
proof (cases rule: Commit_cases)
  case (stored rc)
  have "pins_ok re'" using assms(2) put_objects_stay stored(4) unfolding repo_ok_def pins_ok_def by fastforce
  then show ?thesis
    using assms(2) stored(4) by (simp add: repo_ok_def put_objects_ok put_objects_distinct put_manifests_ok)
qed (use assms in simp)

lemma Pin_ok: "Pin f now i a roots purpose expiry re = (re', r) \<Longrightarrow> repo_ok h re \<Longrightarrow> repo_ok h re'"
  by (auto simp: Pin_def repo_ok_def pins_ok_def Let_def list_all_iff distinct_update split: if_splits option.splits)

lemma ReleasePin_ok: "ReleasePin a i re = (re', r) \<Longrightarrow> repo_ok h re \<Longrightarrow> repo_ok h re'"
  by (auto simp: ReleasePin_def repo_ok_def pins_ok_def delete_conv' distinct_delete split: if_splits)

lemma AcceptAuthority_ok: "AcceptAuthority x n re = (re', r) \<Longrightarrow> repo_ok h re \<Longrightarrow> repo_ok h re'"
  by (auto simp: AcceptAuthority_def repo_ok_def pins_ok_def split: sum.splits if_splits)


section \<open>Runs of a repository\<close>

inductive repo_step :: "codec \<Rightarrow> repo \<Rightarrow> repo \<Rightarrow> bool" for h where
  accept: "AcceptAuthority x n re = (re', r) \<Longrightarrow> repo_step h re re'"
| commit: "Commit h f now req re = (re', rc) \<Longrightarrow> repo_step h re re'"
| pin: "Pin f now i a roots purpose expiry re = (re', rp) \<Longrightarrow> repo_step h re re'"
| unpin: "ReleasePin a i re = (re', r) \<Longrightarrow> repo_step h re re'"

lemma repo_step_authority:
  "repo_step h re re' \<Longrightarrow> reAuthority re = Some a \<Longrightarrow>
   \<exists>b. reAuthority re' = Some b \<and> (b = a \<or> auFenceEpoch a < auFenceEpoch b)"
proof (induction rule: repo_step.induct)
  case (accept x n re re' r)
  then show ?case
    by (auto simp: AcceptAuthority_def split: sum.splits if_splits option.splits)
next
  case (commit f now req re re' rc)
  from commit(1) show ?case by (rule Commit_cases) (use commit(2) in auto)
qed (auto simp: Pin_def ReleasePin_def Let_def split: if_splits option.splits)

definition fence :: "repo \<Rightarrow> 64 word" where
  "fence re = (case reAuthority re of None \<Rightarrow> 0 | Some a \<Rightarrow> auFenceEpoch a)"

interpretation rp: monotone_system "\<lambda>re. re = NewMemory" "repo_step h" "repo_ok h" fence for h
proof unfold_locales
  show "repo_ok h s" if "s = NewMemory" for s
    using that by (simp add: NewMemory_def repo_ok_def objects_ok_def manifests_ok_def pins_ok_def)
  show "repo_ok h t" if "repo_step h s t" "repo_ok h s" for s t
    using that by (induction rule: repo_step.induct) (blast intro: AcceptAuthority_ok Commit_ok Pin_ok ReleasePin_ok)+
  show "fence s \<le> fence t" if "repo_ok h s" "repo_step h s t" for s t
    using repo_step_authority [OF that(2)] by (auto simp: fence_def split: option.splits)
qed

lemma authority_moves_on:
  assumes "(repo_step h)\<^sup>*\<^sup>* re re'" "reAuthority re = Some a"
  shows "\<exists>b. reAuthority re' = Some b \<and> (b = a \<or> auFenceEpoch a < auFenceEpoch b)"
  using assms
proof (induction rule: rtranclp_induct)
  case (step y z)
  then obtain b where b: "reAuthority y = Some b" "b = a \<or> auFenceEpoch a < auFenceEpoch b" by blast
  with repo_step_authority [OF step(2) b(1)] show ?case by fastforce
qed simp

lemma stale_iff: "stale a re \<longleftrightarrow> reAuthority re \<noteq> Some a"
  by (auto simp: stale_def authorityEqual_def split: option.splits intro: authority.equality)

lemma Verify_eq: "Verify h roots re = \<lparr>vrValid = list_all (\<lambda>i. \<exists>c. Open h i re = Inr c) roots, vrChecked = roots,
    vrMissing = filter (\<lambda>i. map_of (reObjects re) i = None) roots,
    vrCorrupt = filter (\<lambda>i. Open h i re = Inl ErrCorrupt) roots\<rparr>"
proof -
  have "fold (verify_one h re) roots rep = \<lparr>vrValid = (vrValid rep \<and> list_all (\<lambda>i. \<exists>c. Open h i re = Inr c) roots),
      vrChecked = vrChecked rep @ roots, vrMissing = vrMissing rep @ filter (\<lambda>i. map_of (reObjects re) i = None) roots,
      vrCorrupt = vrCorrupt rep @ filter (\<lambda>i. Open h i re = Inl ErrCorrupt) roots\<rparr>" for rep
    by (induction roots arbitrary: rep)
      (auto simp: verify_one_def Open_def Let_def ErrCorrupt_def ErrNotFound_def split: option.splits)
  then show ?thesis by (simp add: Verify_def)
qed

lemma Open_ok: "repo_ok h re \<Longrightarrow> map_of (reObjects re) i \<noteq> None \<Longrightarrow> \<exists>c. Open h i re = Inr c"
  by (auto simp: Open_def repo_ok_def objects_ok_def)

text \<open>The checked sum of sizes is the sum of the sizes, or an overflow.\<close>

lemma word_add_checked:
  fixes n :: "64 word"
  assumes "s < 2 ^ 64"
  shows "MaxUint64 - n < of_nat s \<longleftrightarrow> 2 ^ 64 \<le> unat n + s"
    and "unat n + s < 2 ^ 64 \<Longrightarrow> unat (n + of_nat s) = unat n + s"
proof -
  have le: "n \<le> MaxUint64" by simp
  have unat_max: "unat MaxUint64 = 2 ^ 64 - 1" by (simp add: unsigned_minus_1_eq_mask mask_eq_exp_minus_1)
  have "unat (MaxUint64 - n) = 2 ^ 64 - 1 - unat n" using le by (simp add: unat_sub unat_max)
  moreover have s: "unat (of_nat s :: 64 word) = s" using assms by (simp add: unsigned_of_nat take_bit_nat_eq_self)
  ultimately show "MaxUint64 - n < of_nat s \<longleftrightarrow> 2 ^ 64 \<le> unat n + s"
    using unsigned_less [where 'a = nat and w = n] by (auto simp: word_less_nat_alt)
  show "unat n + s < 2 ^ 64 \<Longrightarrow> unat (n + of_nat s) = unat n + s" using s by (simp add: unat_plus_if')
qed

definition object_size :: "repo \<Rightarrow> string \<Rightarrow> nat" where
  "object_size re i = (case map_of (reObjects re) i of None \<Rightarrow> 0 | Some c \<Rightarrow> length c)"

lemma inventory_loop_eq:
  assumes "repo_ok h re" "\<forall>i \<in> set is. map_of (reObjects re) i \<noteq> None \<and> object_size re i < 2 ^ 63" "distinct seen"
  shows "(case inventory_loop h re is seen n of
      Inl e \<Rightarrow> e = Err ''repository.inventory_size_overflow'' \<and> 2 ^ 64 \<le> unat n + (\<Sum>i \<in> set is - set seen. object_size re i)
    | Inr (seen', m) \<Rightarrow> distinct seen' \<and> set seen' = set seen \<union> set is
        \<and> unat m = unat n + (\<Sum>i \<in> set is - set seen. object_size re i))"
  using assms(2,3)
proof (induction "is" arbitrary: seen n)
  case (Cons i "is")
  show ?case
  proof (cases "i \<in> set seen")
    case True
    then have "set (i # is) - set seen = set is - set seen" by auto
    then show ?thesis using True Cons.IH [of seen n] Cons.prems by (auto split: sum.splits)
  next
    case False
    obtain c where c: "map_of (reObjects re) i = Some c" "length c < 2 ^ 63" "object_size re i = length c"
      using Cons.prems(1) by (auto simp: object_size_def)
    have obj: "objectID h c = i" using c(1) assms(1) by (auto simp: repo_ok_def objects_ok_def)
    have lt: "length c < 2 ^ 64" using c(2) by simp
    note w = word_add_checked [OF lt, of n]
    have "set (i # is) - set seen = insert i (set is - set (i # seen))" using False by auto
    then have sum: "(\<Sum>i \<in> set (i # is) - set seen. object_size re i) = length c + (\<Sum>i \<in> set is - set (i # seen). object_size re i)"
      using c(3) by simp
    show ?thesis
    proof (cases "unat n + length c < 2 ^ 64")
      case True
      then have "inventory_loop h re (i # is) seen n = inventory_loop h re is (i # seen) (n + of_nat (length c))"
        using False c obj w(1) by (simp add: Let_def)
      then show ?thesis using Cons.IH [of "i # seen" "n + of_nat (length c)"] Cons.prems False w(2) [OF True]
        unfolding sum by (auto simp: add.assoc split: sum.splits)
    next
      case no: False
      then have "inventory_loop h re (i # is) seen n = Inl (Err ''repository.inventory_size_overflow'')"
        using False c obj w(1) by (simp add: Let_def)
      then show ?thesis using no unfolding sum by simp
    qed
  qed
qed simp


lemma authorityEqual_iff: "authorityEqual a b \<longleftrightarrow> a = b"
  by (auto simp: authorityEqual_def intro: authority.equality)

section \<open>Properties\<close>

text \<open>A digest without collisions, no faults, and a repository with one owner and one pinned object.\<close>

definition demo_codec :: codec where
  "demo_codec = \<lparr>sha256_hex = (\<lambda>c. c), manifest_json = (\<lambda>ls p. Some p)\<rparr>"

definition no_faults :: injector where
  "no_faults p n = None"

definition demo_owner :: authority where
  "demo_owner = \<lparr>auWorkspaceID = ''w'', auFenceEpoch = 1, auClaimID = ''c''\<rparr>"

definition demo_request :: commit_request where
  "demo_request = \<lparr>crAuthority = demo_owner, crObjects = [\<lparr>oiName = ''a'', oiContent = ''xyz''\<rparr>],
     crManifests = [\<lparr>miName = ''m'', miLabels = [], miPayload = ''{}''\<rparr>]\<rparr>"

definition demo_owned :: repo where
  "demo_owned = NewMemory\<lparr>reAuthority := Some demo_owner\<rparr>"

definition demo_stored :: repo where
  "demo_stored = fst (Commit demo_codec no_faults 7 demo_request demo_owned)"

definition demo_pinned :: repo where
  "demo_pinned = fst (Pin no_faults 8 ''p'' demo_owner [''obj_xyz''] ''snapshot'' None demo_stored)"

lemma demo_accept: "AcceptAuthority None demo_owner NewMemory = (demo_owned, Inr ())"
proof -
  have "validateAuthority demo_owner = Inr ()" by code_simp
  then show ?thesis by (simp add: AcceptAuthority_def NewMemory_def demo_owned_def)
qed

lemma demo_reachable: "(repo_step demo_codec)\<^sup>*\<^sup>* NewMemory demo_owned" "(repo_step demo_codec)\<^sup>*\<^sup>* demo_owned demo_pinned"
proof -
  show "(repo_step demo_codec)\<^sup>*\<^sup>* NewMemory demo_owned" using repo_step.accept [OF demo_accept] by blast
  have "repo_step demo_codec demo_owned demo_stored" unfolding demo_stored_def by (rule repo_step.commit [OF prod.collapse [symmetric]])
  moreover have "repo_step demo_codec demo_stored demo_pinned" unfolding demo_pinned_def by (rule repo_step.pin [OF prod.collapse [symmetric]])
  ultimately show "(repo_step demo_codec)\<^sup>*\<^sup>* demo_owned demo_pinned" by auto
qed

text \<open>C19. A commit is all or nothing and what it stores can be read back. When it returns an error
  the repository is as before. When it returns a receipt, the revision is the next one, every object of
  the request opens with its content under its identity, every manifest of the request is there and
  passes the identity check, every object that could be opened before still opens with the same
  content, every manifest that was there is still there, unchanged unless the request stores a manifest
  under the same identity, and nothing else of the repository changes (its authority and its pins stay). The digest is
  assumed to have no collision between the contents involved.\<close>

theorem commit_atomic:
  assumes "repo_ok h re" "Commit h f now req re = (re', r)"
    and "inj_on (sha256_hex h) (snd ` set (reObjects re) \<union> oiContent ` set (crObjects req))"
  shows "(\<exists>e. r = Inl e) \<and> re' = re
    \<or> (\<exists>rc. r = Inr rc \<and> drRevision rc = reRevision re + 1 \<and> reRevision re' = drRevision rc
        \<and> (\<forall>x \<in> set (crObjects req). Open h (objectID h (oiContent x)) re' = Inr (oiContent x))
        \<and> (\<forall>m \<in> set (crManifests req). \<exists>i s. canonicalManifestID h m = Inr i \<and> GetManifest h i re' = Inr s
             \<and> mrID s = i \<and> VerifyManifestRecord h s = Inr ())
        \<and> (\<forall>i c. Open h i re = Inr c \<longrightarrow> Open h i re' = Inr c)
        \<and> (\<forall>i s. GetManifest h i re = Inr s \<longrightarrow> (\<exists>s'. GetManifest h i re' = Inr s' \<and> canonicalManifestID h (record_input s') = Inr i
             \<and> (s' = s \<or> (\<exists>m \<in> set (crManifests req). canonicalManifestID h m = Inr i \<and> record_input s' = m))))
        \<and> re'\<lparr>reObjects := reObjects re, reManifests := reManifests re, reRevision := reRevision re\<rparr> = re)"
  using assms(2)
proof (cases rule: Commit_cases)
  case (stored rc)
  let ?objs = "fold (put_object h) (crObjects req) (reObjects re)" and ?C = "snd ` set (reObjects re) \<union> oiContent ` set (crObjects req)"
  have ok: "repo_ok h re'" using Commit_ok [OF assms(2,1)] .
  have objs: "reObjects re' = ?objs" "reManifests re' = fold (put_manifest h) (crManifests req) (reManifests re)"
    using stored(4) by simp_all
  have reads: "Open h (objectID h c) re' = Inr c" if c: "c \<in> ?C" "map_of ?objs (objectID h c) \<noteq> None" for c
  proof -
    obtain d where d: "map_of ?objs (objectID h c) = Some d" using c(2) by auto
    have "objectID h d = objectID h c" using ok d by (simp add: repo_ok_def objects_ok_def objs)
    then have "sha256_hex h d = sha256_hex h c" by (simp add: objectID_def)
    moreover have "d \<in> ?C" using put_objects_old [OF d] by (metis UnI1 UnI2 imageI map_of_SomeD snd_conv)
    ultimately have "d = c" using c(1) by (rule inj_onD [OF assms(3)])
    then show ?thesis using d by (simp add: Open_def objs)
  qed
  have new: "Open h (objectID h (oiContent x)) re' = Inr (oiContent x)" if "x \<in> set (crObjects req)" for x
    using reads [of "oiContent x"] put_objects_new [OF that] that by blast
  have old: "Open h i re' = Inr c" if opened: "Open h i re = Inr c" for i c
  proof -
    have c: "map_of (reObjects re) i = Some c" "objectID h c = i" using opened by (auto simp: Open_def split: option.splits if_splits)
    have "c \<in> ?C" using map_of_SomeD [OF c(1)] by (metis UnI1 imageI snd_conv)
    moreover have "map_of ?objs i \<noteq> None" using put_objects_stay [of "reObjects re" i] c(1) by simp
    ultimately show ?thesis using reads [of c] c(2) by blast
  qed
  have "\<exists>i s. canonicalManifestID h m = Inr i \<and> GetManifest h i re' = Inr s \<and> mrID s = i \<and> VerifyManifestRecord h s = Inr ()"
    if m: "m \<in> set (crManifests req)" for m
  proof -
    obtain i where i: "canonicalManifestID h m = Inr i" using stored(5) m by blast
    obtain s where s: "map_of (reManifests re') i = Some s" using put_manifests_new [OF m i] objs(2) by auto
    then have "mrID s = i" "canonicalManifestID h (record_input s) = Inr i" using ok by (simp_all add: repo_ok_def manifests_ok_def)
    then show ?thesis using i s by (simp add: GetManifest_def VerifyManifestRecord_def)
  qed
  moreover have "\<exists>s'. GetManifest h i re' = Inr s' \<and> canonicalManifestID h (record_input s') = Inr i
      \<and> (s' = s \<or> (\<exists>m \<in> set (crManifests req). canonicalManifestID h m = Inr i \<and> record_input s' = m))"
    if got: "GetManifest h i re = Inr s" for i s
  proof -
    have s: "map_of (reManifests re) i = Some s" using got by (auto simp: GetManifest_def split: option.splits sum.splits if_splits)
    then obtain s' where s': "map_of (reManifests re') i = Some s'" using put_manifests_stay [of "reManifests re" i] objs(2) by fastforce
    then have "canonicalManifestID h (record_input s') = Inr i" using ok by (simp add: repo_ok_def manifests_ok_def)
    moreover have "s' = s \<or> (\<exists>m \<in> set (crManifests req). canonicalManifestID h m = Inr i \<and> record_input s' = m)"
      using put_manifests_old [OF s' [unfolded objs(2)]] s by auto
    ultimately show ?thesis using s' by (simp add: GetManifest_def)
  qed
  moreover have "re'\<lparr>reObjects := reObjects re, reManifests := reManifests re, reRevision := reRevision re\<rparr> = re"
    using stored(4) by simp
  ultimately show ?thesis using stored(1,3,4) new old by (intro disjI2 exI [of _ rc] conjI allI impI ballI) simp_all
qed simp

theorem commit_atomic_witness:
  "Open demo_codec ''obj_xyz'' demo_stored = Inr ''xyz'' \<and> reRevision demo_stored = 1"
proof -
  let ?c = "Commit demo_codec no_faults 7 demo_request demo_owned"
  have "repo_ok demo_codec demo_owned"
    by (simp add: demo_owned_def NewMemory_def repo_ok_def objects_ok_def manifests_ok_def pins_ok_def)
  moreover have "map_sum (\<lambda>e. e) drRevision (snd ?c) = Inr 1" by code_simp
  then obtain rc where rc: "?c = (demo_stored, Inr rc)" "drRevision rc = 1"
    by (cases "snd ?c") (auto simp: demo_stored_def prod_eq_iff)
  moreover have "inj_on (sha256_hex demo_codec) A" for A by (simp add: demo_codec_def inj_on_def)
  ultimately show ?thesis
    using commit_atomic [of demo_codec demo_owned no_faults 7 demo_request demo_stored "Inr rc"]
    by (auto simp: demo_request_def demo_codec_def objectID_def)
qed

text \<open>A superseded authority is refused for ever. Once another authority has been accepted after
  \<open>a\<close>, in whatever run of the repository, no commit, pin, release or hand-over on behalf of \<open>a\<close> is
  accepted and none changes anything.\<close>

theorem superseded_authority_refused:
  assumes "(repo_step h)\<^sup>*\<^sup>* re1 re2" "(repo_step h)\<^sup>*\<^sup>* re2 re3"
    and "reAuthority re1 = Some a" "reAuthority re2 \<noteq> Some a"
  shows "(\<exists>e. Commit h f now (req\<lparr>crAuthority := a\<rparr>) re3 = (re3, Inl e))
    \<and> Pin f now i a roots purpose expiry re3 = (re3, Inl ErrStaleAuthority)
    \<and> ReleasePin a i re3 = (re3, Inl ErrStaleAuthority)
    \<and> (\<exists>e. AcceptAuthority (Some a) n re3 = (re3, Inl e))"
proof -
  obtain b where b: "reAuthority re2 = Some b" "auFenceEpoch a < auFenceEpoch b"
    using authority_moves_on [OF assms(1,3)] assms(4) by auto
  obtain c where c: "reAuthority re3 = Some c" "c = b \<or> auFenceEpoch b < auFenceEpoch c"
    using authority_moves_on [OF assms(2) b(1)] by auto
  have "c \<noteq> a" using b(2) c(2) by auto
  then have "stale a re3" "\<not> authorityEqual c a" using c(1) by (simp_all add: stale_iff authorityEqual_iff)
  then show ?thesis using c(1)
    by (auto simp: Commit_def Pin_def ReleasePin_def AcceptAuthority_def split: sum.splits)
qed

theorem superseded_authority_refused_witness:
  "let other = demo_owner\<lparr>auFenceEpoch := 2, auClaimID := ''d''\<rparr>;
       moved = fst (AcceptAuthority (Some demo_owner) other demo_pinned)
   in reAuthority moved = Some other \<and> ReleasePin demo_owner ''p'' moved = (moved, Inl ErrStaleAuthority)"
proof -
  let ?other = "demo_owner\<lparr>auFenceEpoch := 2, auClaimID := ''d''\<rparr>"
  let ?moved = "fst (AcceptAuthority (Some demo_owner) ?other demo_pinned)"
  have step: "repo_step demo_codec demo_pinned ?moved" by (rule repo_step.accept [OF prod.collapse [symmetric]])
  have other: "reAuthority ?moved = Some ?other" by code_simp
  have "reAuthority demo_owned = Some demo_owner" by (simp add: demo_owned_def)
  moreover have "(repo_step demo_codec)\<^sup>*\<^sup>* demo_owned ?moved" using demo_reachable(2) step by auto
  moreover have "reAuthority ?moved \<noteq> Some demo_owner" using other by (simp add: demo_owner_def)
  ultimately show ?thesis
    using superseded_authority_refused [of demo_codec demo_owned ?moved ?moved demo_owner, OF _ rtranclp.rtrancl_refl] other
    by (simp add: Let_def)
qed

text \<open>C20. What is pinned stays. In every reachable repository each listed pin verifies: none of its
  roots is missing or corrupt and each of them opens; and the storage inventory of the roots counts
  every object once and either gives the exact number of bytes or reports that it does not fit in 64
  bits.\<close>

theorem pinned_roots_verify:
  assumes "(repo_step h)\<^sup>*\<^sup>* NewMemory re" "p \<in> set (ListPins re)"
    and "\<forall>i \<in> set (rpRoots p). object_size re i < 2 ^ 63"
  shows "Verify h (rpRoots p) re = \<lparr>vrValid = True, vrChecked = rpRoots p, vrMissing = [], vrCorrupt = []\<rparr>
    \<and> (\<forall>i \<in> set (rpRoots p). \<exists>c. Open h i re = Inr c)
    \<and> (case StorageInventory h (rpRoots p) re of
         Inl e \<Rightarrow> e = Err ''repository.inventory_size_overflow'' \<and> 2 ^ 64 \<le> (\<Sum>i \<in> set (rpRoots p). object_size re i)
       | Inr si \<Rightarrow> unat (siLogicalBytes si) = (\<Sum>i \<in> set (rpRoots p). object_size re i)
           \<and> siObjectCount si = of_nat (card (set (rpRoots p))) \<and> siPhysicalBytes si = siLogicalBytes si)"
proof -
  have ok: "repo_ok h re" using rp.inv_reachable [OF refl assms(1)] .
  obtain k where "(k, p) \<in> set (rePins re)" using assms(2) by (auto simp: ListPins_def)
  then have "map_of (rePins re) k = Some p" using ok by (simp add: repo_ok_def)
  then have stored: "\<forall>i \<in> set (rpRoots p). map_of (reObjects re) i \<noteq> None" using ok by (auto simp: repo_ok_def pins_ok_def)
  then have opens: "\<forall>i \<in> set (rpRoots p). \<exists>c. Open h i re = Inr c" using Open_ok [OF ok] by blast
  have "Verify h (rpRoots p) re = \<lparr>vrValid = True, vrChecked = rpRoots p, vrMissing = [], vrCorrupt = []\<rparr>"
    using stored opens by (auto simp: Verify_eq list_all_iff filter_empty_conv)
  moreover have "case StorageInventory h (rpRoots p) re of
         Inl e \<Rightarrow> e = Err ''repository.inventory_size_overflow'' \<and> 2 ^ 64 \<le> (\<Sum>i \<in> set (rpRoots p). object_size re i)
       | Inr si \<Rightarrow> unat (siLogicalBytes si) = (\<Sum>i \<in> set (rpRoots p). object_size re i)
           \<and> siObjectCount si = of_nat (card (set (rpRoots p))) \<and> siPhysicalBytes si = siLogicalBytes si"
    using inventory_loop_eq [OF ok, of "rpRoots p" "[]" 0] stored assms(3)
    by (auto simp: StorageInventory_def distinct_card [symmetric] split: sum.splits prod.splits)
  ultimately show ?thesis using opens by blast
qed

theorem pinned_roots_verify_witness:
  "map rpRoots (ListPins demo_pinned) = [[''obj_xyz'']]
   \<and> vrValid (Verify demo_codec [''obj_xyz''] demo_pinned)
   \<and> (\<exists>si. StorageInventory demo_codec [''obj_xyz''] demo_pinned = Inr si \<and> unat (siLogicalBytes si) = 3)"
proof -
  have pins: "map rpRoots (ListPins demo_pinned) = [[''obj_xyz'']]" by code_simp
  then obtain p where p: "p \<in> set (ListPins demo_pinned)" "rpRoots p = [''obj_xyz'']" by (cases "ListPins demo_pinned") auto
  have reach: "(repo_step demo_codec)\<^sup>*\<^sup>* NewMemory demo_pinned" using demo_reachable by (rule rtranclp_trans)
  have size: "object_size demo_pinned ''obj_xyz'' = 3" by code_simp
  from pinned_roots_verify [OF reach p(1)] p(2) size pins show ?thesis by (auto split: sum.splits)
qed

end
