(* ===== verification/Audit_Ledger.thy ===== *)
theory Audit_Ledger
  imports VT_Prelude "HOL-Library.Product_Lexorder"
begin

text \<open>
  The append-only audit ledger (\<open>sidecar/internal/auditledger/ledger.go\<close>), the outbox of the business
  database (\<open>pocketbase_outbox.go\<close>) and the drain between them (\<open>drain.go\<close>).

  A ledger is a table with a hash chain over its rows, and a copy in memory with indexes. SHA-256 and
  \<open>encoding/json\<close> are arguments (\<open>codec\<close>); RFC 3339 texts are modelled by the instants they denote,
  \<^const>\<open>None\<close> for a text that does not parse. Database faults and cancelled contexts are arguments.
  Errors built with a detail after the wrapped error carry the detail as their message.
\<close>

section \<open>Data\<close>

definition ErrInvalidEnvelope :: go_error where "ErrInvalidEnvelope = Err ''audit.invalid_envelope''"
definition ErrPayloadMismatch :: go_error where "ErrPayloadMismatch = Err ''audit.payload_hash_mismatch''"
definition ErrEventConflict :: go_error where "ErrEventConflict = Err ''audit.event_conflict''"
definition ErrSourceConflict :: go_error where "ErrSourceConflict = Err ''audit.source_sequence_conflict''"
definition ErrSourceGap :: go_error where "ErrSourceGap = Err ''audit.source_sequence_gap''"
definition ErrChainCorrupt :: go_error where "ErrChainCorrupt = Err ''audit.chain_corrupt''"

definition chain_corrupt :: "string \<Rightarrow> go_error" where
  "chain_corrupt detail = Wrap detail ErrChainCorrupt"

record envelope =
  enEventID :: string
  enSourceEpoch :: string
  enSourceSequence :: u64
  enMutationIdentity :: string
  enPayloadHash :: string
  enPayload :: string
  enOccurredAt :: instant

record audit_record =
  arLedgerSequence :: u64
  arPreviousHash :: string
  arHash :: string
  arEnvelope :: envelope

record anchor =
  anSourceEpoch :: string
  anSourceSequence :: u64
  anLedgerSequence :: u64
  anHash :: string

record prefix =
  pxFormatVersion :: int
  pxAnchor :: anchor
  pxRecords :: "audit_record list"

text \<open>A row of the table \<open>audit_ledger\<close>; SQLite integers are signed.\<close>

record ledger_row =
  lrEventID :: string
  lrSourceEpoch :: string
  lrSourceSequence :: int
  lrMutationIdentity :: string
  lrPayloadHash :: string
  lrPayload :: string
  lrOccurredAt :: "instant option"
  lrPreviousHash :: string
  lrHash :: string

type_synonym ledger_table = "(int \<times> ledger_row) list"

text \<open>The copy in memory.\<close>

record cache =
  lcRecords :: "audit_record list"
  lcEvents :: "string \<Rightarrow> nat option"
  lcSourceKeys :: "string \<Rightarrow> string option"
  lcSourceHigh :: "string \<Rightarrow> u64"

record ledger =
  ldOpen :: bool
  ldTable :: ledger_table
  ldCache :: cache

definition empty_cache :: cache where
  "empty_cache = \<lparr>lcRecords = [], lcEvents = (\<lambda>_. None), lcSourceKeys = (\<lambda>_. None), lcSourceHigh = (\<lambda>_. 0)\<rparr>"

text \<open>What a JSON decoder finds: an error, or a first value (is it null, and its encoding) and what
  follows it.\<close>

datatype json_tail = EndOfInput | MoreJson | TailError go_error
datatype json_read = JsonError go_error | JsonRead bool "string result" json_tail

record codec =
  sha256_hex :: "string \<Rightarrow> string"
  read_json :: "string \<Rightarrow> json_read"
  hash_input_json :: "u64 \<Rightarrow> string \<Rightarrow> envelope \<Rightarrow> string result"
  envelope_json :: "envelope \<Rightarrow> string result"
  prefix_json :: "prefix \<Rightarrow> string result"
  read_prefix :: "string \<Rightarrow> prefix option"

section \<open>Envelopes and records\<close>

definition digest :: "codec \<Rightarrow> string \<Rightarrow> string" where
  "digest h raw = ''sha256:'' @ sha256_hex h raw"

definition canonicalJSON :: "codec \<Rightarrow> string \<Rightarrow> string result" where
  "canonicalJSON h raw = (case read_json h raw of
     JsonError e \<Rightarrow> Inl (Wrap ''decode audit payload'' e)
   | JsonRead null text tail \<Rightarrow>
       if null then Inl (Err ''audit payload must not be null'')
       else (case tail of
          MoreJson \<Rightarrow> Inl (Err ''audit payload contains trailing JSON'')
        | TailError e \<Rightarrow> Inl (Wrap ''decode trailing audit payload'' e)
        | EndOfInput \<Rightarrow> (case text of Inl e \<Rightarrow> Inl (Wrap ''encode canonical audit payload'' e) | Inr t \<Rightarrow> Inr t)))"

definition NewEnvelope :: "codec \<Rightarrow> string \<Rightarrow> string \<Rightarrow> u64 \<Rightarrow> string \<Rightarrow> string \<Rightarrow> instant \<Rightarrow> envelope result" where
  "NewEnvelope h eventID sourceEpoch sourceSequence mutationIdentity payload occurredAt =
     (case canonicalJSON h payload of Inl e \<Rightarrow> Inl e
      | Inr canonical \<Rightarrow> Inr \<lparr>enEventID = eventID, enSourceEpoch = sourceEpoch, enSourceSequence = sourceSequence,
          enMutationIdentity = mutationIdentity, enPayloadHash = digest h canonical, enPayload = canonical,
          enOccurredAt = occurredAt\<rparr>)"

definition normalizeEnvelope :: "codec \<Rightarrow> envelope \<Rightarrow> envelope result" where
  "normalizeEnvelope h e =
     (if go_blank (enEventID e) \<or> go_blank (enSourceEpoch e) \<or> enSourceSequence e = 0
         \<or> go_blank (enMutationIdentity e) \<or> enOccurredAt e = zero_time then Inl ErrInvalidEnvelope
      else case canonicalJSON h (enPayload e) of Inl x \<Rightarrow> Inl (join2 ErrInvalidEnvelope (Some x))
      | Inr canonical \<Rightarrow> if enPayloadHash e \<noteq> digest h canonical then Inl ErrPayloadMismatch
                         else Inr (e\<lparr>enPayload := canonical\<rparr>))"

definition recordHash :: "codec \<Rightarrow> audit_record \<Rightarrow> string result" where
  "recordHash h r = (case hash_input_json h (arLedgerSequence r) (arPreviousHash r) (arEnvelope r) of
     Inl e \<Rightarrow> Inl (Wrap ''encode audit hash input'' e) | Inr raw \<Rightarrow> Inr (digest h raw))"

definition envelopeSourceKey :: "envelope \<Rightarrow> string" where
  "envelopeSourceKey e = enSourceEpoch e @ CHR 0x00 # pad_zeros 20 (dec_text (unat (enSourceSequence e)))"

definition envelopesEqual :: "codec \<Rightarrow> envelope \<Rightarrow> envelope \<Rightarrow> bool" where
  "envelopesEqual h l r = (case (envelope_json h l, envelope_json h r) of (Inr a, Inr b) \<Rightarrow> a = b | _ \<Rightarrow> False)"

fun verify_from :: "codec \<Rightarrow> nat \<Rightarrow> string \<Rightarrow> audit_record list \<Rightarrow> unit result" where
  "verify_from h n previous [] = Inr ()"
| "verify_from h n previous (r # rs) =
     (if arLedgerSequence r \<noteq> of_nat (n + 1) \<or> arPreviousHash r \<noteq> previous
      then Inl (chain_corrupt ''invalid link'')
      else case recordHash h r of Inl e \<Rightarrow> Inl (chain_corrupt ''invalid record'')
      | Inr expected \<Rightarrow> if arHash r \<noteq> expected then Inl (chain_corrupt ''invalid hash'')
                        else verify_from h (n + 1) (arHash r) rs)"

definition verifyRecords :: "codec \<Rightarrow> audit_record list \<Rightarrow> unit result" where
  "verifyRecords h rs = verify_from h 0 [] rs"

section \<open>Opening\<close>

definition row_envelope :: "ledger_row \<Rightarrow> instant \<Rightarrow> envelope" where
  "row_envelope r t = \<lparr>enEventID = lrEventID r, enSourceEpoch = lrSourceEpoch r,
     enSourceSequence = word_of_int (lrSourceSequence r), enMutationIdentity = lrMutationIdentity r,
     enPayloadHash = lrPayloadHash r, enPayload = lrPayload r, enOccurredAt = t\<rparr>"

text \<open>One row of the result; scanning a negative integer into an unsigned variable is an error.\<close>

definition read_row :: "codec \<Rightarrow> nat \<Rightarrow> int \<times> ledger_row \<Rightarrow> audit_record result" where
  "read_row h line kr =
     (if fst kr < 0 \<or> lrSourceSequence (snd kr) < 0 then Inl (chain_corrupt ''row'')
      else case lrOccurredAt (snd kr) of None \<Rightarrow> Inl (chain_corrupt ''row timestamp'')
      | Some t \<Rightarrow>
          (case normalizeEnvelope h (row_envelope (snd kr) t) of Inl e \<Rightarrow> Inl (chain_corrupt ''row'')
           | Inr e \<Rightarrow>
               if word_of_int (fst kr) \<noteq> (of_nat line :: u64) then Inl (chain_corrupt ''row has sequence'')
               else Inr \<lparr>arLedgerSequence = word_of_int (fst kr), arPreviousHash = lrPreviousHash (snd kr),
                         arHash = lrHash (snd kr), arEnvelope = e\<rparr>))"

fun read_rows :: "codec \<Rightarrow> nat \<Rightarrow> ledger_table \<Rightarrow> audit_record list result" where
  "read_rows h line [] = Inr []"
| "read_rows h line (r # rs) = (case read_row h line r of Inl e \<Rightarrow> Inl e
     | Inr x \<Rightarrow> (case read_rows h (line + 1) rs of Inl e \<Rightarrow> Inl e | Inr xs \<Rightarrow> Inr (x # xs)))"

text \<open>The query fails, or the iteration stops with an error after some rows.\<close>

datatype read_fault = ReadLedger go_error | ScanLedger nat go_error

definition readRecords :: "codec \<Rightarrow> read_fault option \<Rightarrow> ledger_table \<Rightarrow> audit_record list result" where
  "readRecords h fault t = (case fault of
     Some (ReadLedger e) \<Rightarrow> Inl (chain_corrupt ''read ledger'')
   | Some (ScanLedger n e) \<Rightarrow> (case read_rows h 1 (take n (sort_key fst t)) of Inl x \<Rightarrow> Inl x
       | Inr _ \<Rightarrow> Inl (chain_corrupt ''scan ledger''))
   | None \<Rightarrow> read_rows h 1 (sort_key fst t))"

text \<open>\<open>ledger.records = append(ledger.records, record)\<close> with the indexes.\<close>

definition add_record :: "audit_record \<Rightarrow> cache \<Rightarrow> cache" where
  "add_record r m = (let e = arEnvelope r in
     \<lparr>lcRecords = lcRecords m @ [r],
      lcEvents = (lcEvents m)(enEventID e \<mapsto> length (lcRecords m)),
      lcSourceKeys = (lcSourceKeys m)(envelopeSourceKey e \<mapsto> enEventID e),
      lcSourceHigh = (lcSourceHigh m)(enSourceEpoch e := enSourceSequence e)\<rparr>)"

fun load_records :: "audit_record list \<Rightarrow> cache \<Rightarrow> cache result" where
  "load_records [] m = Inr m"
| "load_records (r # rs) m =
     (let e = arEnvelope r in
      if lcEvents m (enEventID e) \<noteq> None then Inl (chain_corrupt ''duplicate event'')
      else if lcSourceKeys m (envelopeSourceKey e) \<noteq> None then Inl (chain_corrupt ''duplicate source sequence'')
      else if enSourceSequence e \<noteq> lcSourceHigh m (enSourceEpoch e) + 1
      then Inl (chain_corrupt ''non-contiguous source sequence'')
      else load_records rs (add_record r m))"

definition load :: "codec \<Rightarrow> read_fault option \<Rightarrow> ledger_table \<Rightarrow> cache result" where
  "load h fault t = (case readRecords h fault t of Inl e \<Rightarrow> Inl e
     | Inr rs \<Rightarrow> (case load_records rs empty_cache of Inl e \<Rightarrow> Inl e
         | Inr m \<Rightarrow> (case verifyRecords h (lcRecords m) of Inl e \<Rightarrow> Inl e | Inr _ \<Rightarrow> Inr m)))"

text \<open>\<open>file\<close> is the table of an existing database file; a fault names the call that failed.\<close>

datatype open_fault = CreateRoot go_error | OpenDatabase go_error | InitializeTables go_error

fun open_error :: "open_fault \<Rightarrow> go_error" where
  "open_error (CreateRoot e) = Wrap ''create audit root'' e"
| "open_error (OpenDatabase e) = Wrap ''open audit ledger'' e"
| "open_error (InitializeTables e) = Wrap ''initialize audit ledger'' e"

definition OpenLedger :: "codec \<Rightarrow> open_fault option \<Rightarrow> read_fault option \<Rightarrow> string \<Rightarrow> ledger_table option \<Rightarrow> ledger result" where
  "OpenLedger h fault readFault root file =
     (if go_blank root then Inl (Err ''audit.root_required'')
      else case fault of Some e \<Rightarrow> Inl (open_error e)
      | None \<Rightarrow>
          let t = (case file of None \<Rightarrow> [] | Some t \<Rightarrow> t)
          in (case load h readFault t of Inl e \<Rightarrow> Inl e
              | Inr m \<Rightarrow> Inr \<lparr>ldOpen = True, ldTable = t, ldCache = m\<rparr>))"

definition CloseLedger :: "ledger \<Rightarrow> ledger" where
  "CloseLedger l = l\<lparr>ldOpen := False\<rparr>"


section \<open>Appending\<close>

text \<open>The local variables of \<open>appendBatch\<close>.\<close>

record batch =
  baResults :: "(audit_record \<times> bool) list"
  baAdditions :: "audit_record list"
  baEvents :: "string \<Rightarrow> audit_record option"
  baSourceKeys :: "string \<Rightarrow> string option"
  baSourceHigh :: "string \<Rightarrow> u64 option"
  baPrevious :: string

definition new_batch :: "cache \<Rightarrow> batch" where
  "new_batch m = \<lparr>baResults = [], baAdditions = [], baEvents = (\<lambda>_. None), baSourceKeys = (\<lambda>_. None),
     baSourceHigh = (\<lambda>_. None), baPrevious = (if lcRecords m = [] then [] else arHash (last (lcRecords m)))\<rparr>"

text \<open>The record already known for an event: of this batch, or of the ledger.\<close>

definition known_event :: "cache \<Rightarrow> batch \<Rightarrow> string \<Rightarrow> audit_record option" where
  "known_event m b i = (case baEvents b i of Some r \<Rightarrow> Some r
     | None \<Rightarrow> (case lcEvents m i of Some n \<Rightarrow> Some (lcRecords m ! n) | None \<Rightarrow> None))"

definition known_key :: "cache \<Rightarrow> batch \<Rightarrow> string \<Rightarrow> string option" where
  "known_key m b k = (case baSourceKeys b k of Some i \<Rightarrow> Some i | None \<Rightarrow> lcSourceKeys m k)"

definition known_high :: "cache \<Rightarrow> batch \<Rightarrow> string \<Rightarrow> u64" where
  "known_high m b s = (case baSourceHigh b s of Some n \<Rightarrow> n | None \<Rightarrow> lcSourceHigh m s)"

definition batch_step :: "codec \<Rightarrow> cache \<Rightarrow> envelope \<Rightarrow> batch \<Rightarrow> batch result" where
  "batch_step h m envelope b =
     (case normalizeEnvelope h envelope of Inl e \<Rightarrow> Inl e
      | Inr e \<Rightarrow>
          (case known_event m b (enEventID e) of
             Some x \<Rightarrow>
               if \<not> envelopesEqual h (arEnvelope x) e then Inl ErrEventConflict
               else Inr (b\<lparr>baResults := baResults b @ [(x, True)]\<rparr>)
           | None \<Rightarrow>
               if (case known_key m b (envelopeSourceKey e) of None \<Rightarrow> False | Some i \<Rightarrow> i \<noteq> enEventID e)
               then Inl ErrSourceConflict
               else if enSourceSequence e \<noteq> known_high m b (enSourceEpoch e) + 1 then Inl ErrSourceGap
               else
                 let r = \<lparr>arLedgerSequence = of_nat (length (lcRecords m) + length (baAdditions b)) + 1,
                          arPreviousHash = baPrevious b, arHash = [], arEnvelope = e\<rparr>
                 in (case recordHash h r of Inl x \<Rightarrow> Inl x
                     | Inr hash \<Rightarrow>
                         let r = r\<lparr>arHash := hash\<rparr>
                         in Inr \<lparr>baResults = baResults b @ [(r, False)], baAdditions = baAdditions b @ [r],
                                 baEvents = (baEvents b)(enEventID e \<mapsto> r),
                                 baSourceKeys = (baSourceKeys b)(envelopeSourceKey e \<mapsto> enEventID e),
                                 baSourceHigh = (baSourceHigh b)(enSourceEpoch e \<mapsto> enSourceSequence e),
                                 baPrevious = hash\<rparr>)))"

text \<open>\<open>ctx n\<close> is what \<open>ctx.Err()\<close> returns the n-th time.\<close>

fun batch_loop :: "codec \<Rightarrow> (nat \<Rightarrow> go_error option) \<Rightarrow> nat \<Rightarrow> cache \<Rightarrow> envelope list \<Rightarrow> batch \<Rightarrow> batch result" where
  "batch_loop h ctx n m [] b = Inr b"
| "batch_loop h ctx n m (e # es) b =
     (case ctx n of Some x \<Rightarrow> Inl x
      | None \<Rightarrow> (case batch_step h m e b of Inl x \<Rightarrow> Inl x | Inr b' \<Rightarrow> batch_loop h ctx (n + 1) m es b'))"

definition row_of :: "audit_record \<Rightarrow> int \<times> ledger_row" where
  "row_of r = (let e = arEnvelope r in
     (uint (arLedgerSequence r), \<lparr>lrEventID = enEventID e, lrSourceEpoch = enSourceEpoch e,
        lrSourceSequence = uint (enSourceSequence e), lrMutationIdentity = enMutationIdentity e,
        lrPayloadHash = enPayloadHash e, lrPayload = enPayload e, lrOccurredAt = Some (enOccurredAt e),
        lrPreviousHash = arPreviousHash r, lrHash = arHash r\<rparr>))"

text \<open>\<open>INSERT\<close> with the constraints of the table: primary key, event, source epoch and sequence.\<close>

definition insert_row :: "audit_record \<Rightarrow> ledger_table \<Rightarrow> ledger_table result" where
  "insert_row r t =
     (if \<not> sql_args_ok [arLedgerSequence r, enSourceSequence (arEnvelope r)] then Inl ErrArgHighBit
      else case row_of r of (k, row) \<Rightarrow>
        if list_ex (\<lambda>(k', row'). k' = k \<or> lrEventID row' = lrEventID row
             \<or> lrSourceEpoch row' = lrSourceEpoch row \<and> lrSourceSequence row' = lrSourceSequence row) t
        then Inl (Err ''UNIQUE constraint failed'')
        else Inr (t @ [(k, row)]))"

fun insert_rows :: "(nat \<Rightarrow> go_error option) \<Rightarrow> nat \<Rightarrow> audit_record list \<Rightarrow> ledger_table \<Rightarrow> ledger_table result" where
  "insert_rows fault n [] t = Inr t"
| "insert_rows fault n (r # rs) t =
     (case fault n of Some e \<Rightarrow> Inl (Wrap ''append audit record'' e)
      | None \<Rightarrow> (case insert_row r t of Inl e \<Rightarrow> Inl (Wrap ''append audit record'' e)
                 | Inr t' \<Rightarrow> insert_rows fault (n + 1) rs t'))"

record append_env =
  apContext :: "nat \<Rightarrow> go_error option"
  apBegin :: "go_error option"
  apInsert :: "nat \<Rightarrow> go_error option"
  apCommit :: "go_error option"

definition appendBatch :: "codec \<Rightarrow> append_env \<Rightarrow> envelope list \<Rightarrow> ledger \<Rightarrow> ledger \<times> (audit_record \<times> bool) list result" where
  "appendBatch h env es l =
     (case apContext env 0 of Some e \<Rightarrow> (l, Inl e)
      | None \<Rightarrow>
          if \<not> ldOpen l then (l, Inl (Err ''audit.ledger_closed''))
          else (case batch_loop h (apContext env) 1 (ldCache l) es (new_batch (ldCache l)) of Inl e \<Rightarrow> (l, Inl e)
            | Inr b \<Rightarrow>
                if baAdditions b = [] then (l, Inr (baResults b))
                else (case apBegin env of Some e \<Rightarrow> (l, Inl (Wrap ''begin audit append'' e))
                  | None \<Rightarrow>
                      (case insert_rows (apInsert env) 0 (baAdditions b) (ldTable l) of Inl e \<Rightarrow> (l, Inl e)
                       | Inr t \<Rightarrow>
                           (case apCommit env of Some e \<Rightarrow> (l, Inl (Wrap ''flush audit record'' e))
                            | None \<Rightarrow> (l\<lparr>ldTable := t, ldCache := fold add_record (baAdditions b) (ldCache l)\<rparr>,
                                       Inr (baResults b)))))))"

definition Append :: "codec \<Rightarrow> append_env \<Rightarrow> envelope \<Rightarrow> ledger \<Rightarrow> ledger \<times> (audit_record \<times> bool) result" where
  "Append h env e l = (case appendBatch h env [e] l of (l', Inl x) \<Rightarrow> (l', Inl x) | (l', Inr rs) \<Rightarrow> (l', Inr (hd rs)))"

section \<open>Reading\<close>

definition record_anchor :: "audit_record \<Rightarrow> anchor" where
  "record_anchor r = \<lparr>anSourceEpoch = enSourceEpoch (arEnvelope r), anSourceSequence = enSourceSequence (arEnvelope r),
     anLedgerSequence = arLedgerSequence r, anHash = arHash r\<rparr>"

definition Anchor :: "ledger \<Rightarrow> anchor" where
  "Anchor l = (if lcRecords (ldCache l) = [] then \<lparr>anSourceEpoch = [], anSourceSequence = 0, anLedgerSequence = 0, anHash = []\<rparr>
     else record_anchor (last (lcRecords (ldCache l))))"

definition Records :: "u64 \<Rightarrow> int \<Rightarrow> ledger \<Rightarrow> audit_record list" where
  "Records after limit l = (if limit \<le> 0 then []
     else take (nat limit) (filter (\<lambda>r. \<not> arLedgerSequence r \<le> after) (lcRecords (ldCache l))))"

definition VerifiedRecords :: "codec \<Rightarrow> go_error option \<Rightarrow> read_fault option \<Rightarrow> ledger \<Rightarrow> audit_record list result" where
  "VerifiedRecords h ctx fault l =
     (case ctx of Some e \<Rightarrow> Inl e
      | None \<Rightarrow>
          if \<not> ldOpen l then Inl (Err ''audit.ledger_closed'')
          else (case readRecords h fault (ldTable l) of Inl e \<Rightarrow> Inl e
            | Inr rs \<Rightarrow>
                (case verifyRecords h rs of Inl e \<Rightarrow> Inl e
                 | Inr _ \<Rightarrow>
                     if length rs \<noteq> length (lcRecords (ldCache l)) then Inl (chain_corrupt ''durable record count changed'')
                     else if map arHash rs \<noteq> map arHash (lcRecords (ldCache l)) then Inl (chain_corrupt ''durable record differs'')
                     else Inr rs)))"

definition Verify :: "codec \<Rightarrow> ledger \<Rightarrow> unit result" where
  "Verify h l = verifyRecords h (lcRecords (ldCache l))"

definition ExportPrefix :: "codec \<Rightarrow> anchor \<Rightarrow> ledger \<Rightarrow> (string \<times> string) result" where
  "ExportPrefix h a l =
     (let rs = lcRecords (ldCache l) in
      if anLedgerSequence a = 0 \<or> anLedgerSequence a > of_nat (length rs) then Inl ErrChainCorrupt
      else let r = rs ! (unat (anLedgerSequence a) - 1) in
        if arHash r \<noteq> anHash a \<or> enSourceEpoch (arEnvelope r) \<noteq> anSourceEpoch a
           \<or> enSourceSequence (arEnvelope r) \<noteq> anSourceSequence a then Inl ErrChainCorrupt
        else case prefix_json h \<lparr>pxFormatVersion = 1, pxAnchor = a, pxRecords = take (unat (anLedgerSequence a)) rs\<rparr> of
          Inl e \<Rightarrow> Inl e | Inr raw \<Rightarrow> Inr (raw, digest h raw))"

definition VerifyPrefix :: "codec \<Rightarrow> string \<Rightarrow> anchor result" where
  "VerifyPrefix h raw = (case read_prefix h raw of None \<Rightarrow> Inl ErrChainCorrupt
     | Some p \<Rightarrow>
         if pxFormatVersion p \<noteq> 1 \<or> anLedgerSequence (pxAnchor p) \<noteq> of_nat (length (pxRecords p)) then Inl ErrChainCorrupt
         else (case verifyRecords h (pxRecords p) of Inl e \<Rightarrow> Inl e
           | Inr _ \<Rightarrow>
               if pxRecords p = [] then Inl ErrChainCorrupt
               else let r = last (pxRecords p) in
                 if arHash r \<noteq> anHash (pxAnchor p) \<or> enSourceEpoch (arEnvelope r) \<noteq> anSourceEpoch (pxAnchor p)
                    \<or> enSourceSequence (arEnvelope r) \<noteq> anSourceSequence (pxAnchor p) then Inl ErrChainCorrupt
                 else Inr (pxAnchor p)))"

section \<open>The outbox\<close>

record outbox_row =
  obEventID :: string
  obSourceEpoch :: string
  obSourceSequence :: u64
  obMutationIdentity :: string
  obPayloadHash :: string
  obPayload :: string
  obOccurredAt :: "instant option"
  obPending :: bool

definition outbox_envelope :: "codec \<Rightarrow> outbox_row \<Rightarrow> envelope result" where
  "outbox_envelope h r = (case obOccurredAt r of
     None \<Rightarrow> Inl (Wrap ''read audit outbox timestamp'' (Err ''audit.outbox_timestamp_invalid''))
   | Some t \<Rightarrow>
       (case NewEnvelope h (obEventID r) (obSourceEpoch r) (obSourceSequence r) (obMutationIdentity r) (obPayload r) t of
          Inl e \<Rightarrow> Inl (join2 ErrPayloadMismatch (Some e))
        | Inr e \<Rightarrow> if enPayloadHash e \<noteq> obPayloadHash r then Inl (join2 ErrPayloadMismatch None) else Inr e))"

fun outbox_envelopes :: "codec \<Rightarrow> outbox_row list \<Rightarrow> envelope list result" where
  "outbox_envelopes h [] = Inr []"
| "outbox_envelopes h (r # rs) = (case outbox_envelope h r of Inl e \<Rightarrow> Inl e
     | Inr e \<Rightarrow> (case outbox_envelopes h rs of Inl x \<Rightarrow> Inl x | Inr es \<Rightarrow> Inr (e # es)))"

definition Pending :: "codec \<Rightarrow> go_error option \<Rightarrow> int \<Rightarrow> outbox_row list \<Rightarrow> envelope list result" where
  "Pending h fault limit rows =
     (if limit \<le> 0 then Inl (Err ''audit.outbox_limit_invalid'')
      else case fault of Some e \<Rightarrow> Inl (Wrap ''read audit outbox'' e)
      | None \<Rightarrow> outbox_envelopes h
          (take (nat limit) (sort_key (\<lambda>r. (obSourceEpoch r, obSourceSequence r)) (filter obPending rows))))"

definition acknowledged_row :: "string \<Rightarrow> string \<Rightarrow> u64 \<Rightarrow> outbox_row \<Rightarrow> bool" where
  "acknowledged_row eventID epoch sequence r \<longleftrightarrow>
     obEventID r = eventID \<and> obSourceEpoch r = epoch \<and> obSourceSequence r = sequence \<and> obPending r"

definition Acknowledge :: "go_error option \<Rightarrow> string \<Rightarrow> string \<Rightarrow> u64 \<Rightarrow> outbox_row list \<Rightarrow> outbox_row list \<times> unit result" where
  "Acknowledge fault eventID epoch sequence rows =
     (case fault of Some e \<Rightarrow> (rows, Inl (Wrap ''acknowledge audit outbox'' e))
      | None \<Rightarrow>
          (map (\<lambda>r. if acknowledged_row eventID epoch sequence r then r\<lparr>obPending := False\<rparr> else r) rows,
           if length (filter (acknowledged_row eventID epoch sequence) rows) \<noteq> 1
           then Inl (join2 ErrSourceConflict None) else Inr ()))"

section \<open>The drain\<close>

definition SortEnvelopes :: "envelope list \<Rightarrow> envelope list" where
  "SortEnvelopes es = sort_key (\<lambda>e. (enSourceEpoch e, enSourceSequence e, enEventID e)) es"

record drain_report =
  rpAppended :: nat
  rpDuplicates :: nat
  rpAcknowledged :: nat
  rpAnchor :: anchor
  rpPhase :: string
  rpPendingCalls :: nat
  rpAppendCalls :: nat
  rpAcknowledgeCalls :: nat

text \<open>The faults of one turn of the loop: reading, the context before the append, the append, and for
  the n-th envelope the context and the acknowledgement.\<close>

record turn =
  tuPending :: "go_error option"
  tuContext :: "go_error option"
  tuAppend :: append_env
  tuAckContext :: "nat \<Rightarrow> go_error option"
  tuAck :: "nat \<Rightarrow> go_error option"

fun ack_loop :: "turn \<Rightarrow> nat \<Rightarrow> envelope list \<Rightarrow> outbox_row list \<Rightarrow> drain_report
  \<Rightarrow> outbox_row list \<times> drain_report \<times> unit result" where
  "ack_loop tu n [] rows rep = (rows, rep, Inr ())"
| "ack_loop tu n (e # es) rows rep =
     (case tuAckContext tu n of Some x \<Rightarrow> (rows, rep\<lparr>rpPhase := ''between_records''\<rparr>, Inl x)
      | None \<Rightarrow>
          let rep = rep\<lparr>rpPhase := ''ack'', rpAcknowledgeCalls := rpAcknowledgeCalls rep + 1\<rparr>
          in (case Acknowledge (tuAck tu n) (enEventID e) (enSourceEpoch e) (enSourceSequence e) rows of
                (rows', Inl x) \<Rightarrow> (rows', rep, Inl x)
              | (rows', Inr _) \<Rightarrow> ack_loop tu (n + 1) es rows' (rep\<lparr>rpAcknowledged := rpAcknowledged rep + 1\<rparr>)))"

text \<open>\<^const>\<open>None\<close>: the loop is still running after the listed turns.\<close>

fun drain_loop :: "codec \<Rightarrow> int \<Rightarrow> turn list \<Rightarrow> ledger \<Rightarrow> outbox_row list \<Rightarrow> drain_report
  \<Rightarrow> (ledger \<times> outbox_row list \<times> drain_report \<times> unit result) option" where
  "drain_loop h batchSize [] l rows rep = None"
| "drain_loop h batchSize (tu # tus) l rows rep =
     (let rep = rep\<lparr>rpPhase := ''pending'', rpPendingCalls := rpPendingCalls rep + 1\<rparr>;
          stop = (\<lambda>l rows rep r. Some (l, rows, rep\<lparr>rpAnchor := Anchor l\<rparr>, r))
      in case Pending h (tuPending tu) batchSize rows of Inl e \<Rightarrow> stop l rows rep (Inl e)
         | Inr pending \<Rightarrow>
             if pending = [] then stop l rows (rep\<lparr>rpPhase := ''completed''\<rparr>) (Inr ())
             else
               let pending = SortEnvelopes pending; rep = rep\<lparr>rpPhase := ''between_records''\<rparr>
               in case tuContext tu of Some e \<Rightarrow> stop l rows rep (Inl e)
                  | None \<Rightarrow>
                      let rep = rep\<lparr>rpPhase := ''append'', rpAppendCalls := rpAppendCalls rep + 1\<rparr>
                      in (case appendBatch h (tuAppend tu) pending l of
                            (l', Inl e) \<Rightarrow> stop l' rows rep (Inl e)
                          | (l', Inr results) \<Rightarrow>
                              let rep = rep\<lparr>rpDuplicates := rpDuplicates rep + length (filter snd results),
                                            rpAppended := rpAppended rep + length (filter (\<lambda>r. \<not> snd r) results)\<rparr>
                              in (case ack_loop tu 0 pending rows rep of
                                    (rows', rep, Inl e) \<Rightarrow> stop l' rows' rep (Inl e)
                                  | (rows', rep, Inr _) \<Rightarrow> drain_loop h batchSize tus l' rows' rep)))"

definition NewDrainer :: "int \<Rightarrow> int result" where
  "NewDrainer batchSize = (if batchSize \<le> 0 then Inl (Err ''audit.batch_size_invalid'') else Inr batchSize)"

definition empty_report :: drain_report where
  "empty_report = \<lparr>rpAppended = 0, rpDuplicates = 0, rpAcknowledged = 0,
     rpAnchor = \<lparr>anSourceEpoch = [], anSourceSequence = 0, anLedgerSequence = 0, anHash = []\<rparr>, rpPhase = [],
     rpPendingCalls = 0, rpAppendCalls = 0, rpAcknowledgeCalls = 0\<rparr>"

definition DrainOutbox :: "codec \<Rightarrow> int \<Rightarrow> turn list \<Rightarrow> ledger \<Rightarrow> outbox_row list
  \<Rightarrow> (ledger \<times> outbox_row list \<times> drain_report \<times> unit result) option" where
  "DrainOutbox h batchSize tus l rows = drain_loop h batchSize tus l rows empty_report"


section \<open>Chains of records\<close>

definition ledger_of :: "audit_record list \<Rightarrow> cache" where
  "ledger_of rs = fold add_record rs empty_cache"

definition last_hash :: "audit_record list \<Rightarrow> string" where
  "last_hash rs = (if rs = [] then [] else arHash (last rs))"

definition extends :: "codec \<Rightarrow> audit_record list \<Rightarrow> audit_record \<Rightarrow> bool" where
  "extends h rs r \<longleftrightarrow> (let e = arEnvelope r; m = ledger_of rs in
     arLedgerSequence r = of_nat (length rs) + 1 \<and> arPreviousHash r = last_hash rs \<and> recordHash h r = Inr (arHash r)
     \<and> normalizeEnvelope h e = Inr e \<and> lcEvents m (enEventID e) = None \<and> lcSourceKeys m (envelopeSourceKey e) = None
     \<and> enSourceSequence e = lcSourceHigh m (enSourceEpoch e) + 1)"

inductive ledger_chain :: "codec \<Rightarrow> audit_record list \<Rightarrow> bool" for h where
  nil: "ledger_chain h []"
| snoc: "ledger_chain h rs \<Longrightarrow> extends h rs r \<Longrightarrow> ledger_chain h (rs @ [r])"

inductive_simps chain_Nil [simp]: "ledger_chain h []"
inductive_simps chain_snoc [simp]: "ledger_chain h (rs @ [r])"

lemma ledger_of_Nil [simp]: "ledger_of [] = empty_cache"
  by (simp add: ledger_of_def)

lemma ledger_of_snoc [simp]: "ledger_of (rs @ [r]) = add_record r (ledger_of rs)"
  by (simp add: ledger_of_def)

lemma lcRecords_ledger_of [simp]: "lcRecords (ledger_of rs) = rs"
  by (induction rs rule: rev_induct) (simp_all add: empty_cache_def add_record_def Let_def)

lemma last_hash_Nil [simp]: "last_hash [] = []" and last_hash_snoc [simp]: "last_hash (rs @ [r]) = arHash r"
  by (simp_all add: last_hash_def)

lemma ledger_of_event: "lcEvents (ledger_of rs) i = Some n \<Longrightarrow> n < length rs \<and> enEventID (arEnvelope (rs ! n)) = i"
  by (induction rs rule: rev_induct) (auto simp: empty_cache_def add_record_def Let_def nth_append split: if_splits)

lemma ledger_of_event_None: "lcEvents (ledger_of rs) i = None \<longleftrightarrow> i \<notin> (enEventID \<circ> arEnvelope) ` set rs"
  by (induction rs rule: rev_induct) (auto simp: empty_cache_def add_record_def Let_def)

lemma ledger_of_key: "lcSourceKeys (ledger_of rs) k = Some i \<Longrightarrow> lcEvents (ledger_of rs) i \<noteq> None"
  by (induction rs rule: rev_induct) (auto simp: empty_cache_def add_record_def Let_def split: if_splits)

lemma load_records_append: "load_records (rs @ ss) m = (case load_records rs m of Inl e \<Rightarrow> Inl e | Inr m' \<Rightarrow> load_records ss m')"
  by (induction rs arbitrary: m) (simp_all add: Let_def)

lemma verify_from_append:
  "verify_from h n p (rs @ [r]) = (case verify_from h n p rs of Inl e \<Rightarrow> Inl e
     | Inr _ \<Rightarrow> verify_from h (n + length rs) (if rs = [] then p else arHash (last rs)) [r])"
  by (induction rs arbitrary: n p) (auto split: sum.splits)

lemma chain_verifies: "ledger_chain h rs \<Longrightarrow> verifyRecords h rs = Inr ()"
proof (induction rule: ledger_chain.induct)
  case (snoc rs r)
  then show ?case
    by (simp add: verifyRecords_def verify_from_append extends_def Let_def last_hash_def)
qed (simp add: verifyRecords_def)

lemma chain_loads: "ledger_chain h rs \<Longrightarrow> load_records rs empty_cache = Inr (ledger_of rs)"
  by (induction rule: ledger_chain.induct) (simp_all add: load_records_append extends_def Let_def)

lemma chain_events_distinct: "ledger_chain h rs \<Longrightarrow> distinct (map (enEventID \<circ> arEnvelope) rs)"
  by (induction rule: ledger_chain.induct) (auto simp: extends_def Let_def ledger_of_event_None)

section \<open>The durable table\<close>

definition args_ok :: "audit_record \<Rightarrow> bool" where
  "args_ok r \<longleftrightarrow> sql_args_ok [arLedgerSequence r, enSourceSequence (arEnvelope r)]"

definition ledger_good :: "codec \<Rightarrow> ledger \<Rightarrow> bool" where
  "ledger_good h l \<longleftrightarrow> (let rs = lcRecords (ldCache l) in
     ldTable l = map row_of rs \<and> ldCache l = ledger_of rs \<and> ledger_chain h rs \<and> list_all args_ok rs)"

lemma unat_next: "n < 2 ^ 63 \<Longrightarrow> unat (of_nat n + 1 :: u64) = Suc n"
  by (simp add: unat_plus_if' unsigned_of_nat take_bit_nat_eq_self)

lemma word_bound: "of_nat n + (1::u64) \<le> MaxInt64 \<Longrightarrow> n < 2 ^ 63 \<Longrightarrow> Suc n < 2 ^ 63"
  using unat_next [of n] by (simp add: word_le_nat_alt MaxInt64_def)

lemma chain_length: "ledger_chain h rs \<Longrightarrow> list_all args_ok rs \<Longrightarrow> length rs < 2 ^ 63"
proof (induction rule: ledger_chain.induct)
  case (snoc rs r)
  then have "of_nat (length rs) + (1::u64) \<le> MaxInt64"
    by (simp add: args_ok_def sql_args_ok_def extends_def Let_def)
  with snoc word_bound show ?case by simp
qed simp

lemma chain_sequence:
  assumes "ledger_chain h rs" "list_all args_ok rs" "i < length rs"
  shows "unat (arLedgerSequence (rs ! i)) = Suc i"
  using assms
proof (induction rule: ledger_chain.induct)
  case (snoc rs r)
  show ?case
  proof (cases "i < length rs")
    case False
    then have i: "i = length rs" using snoc.prems(2) by simp
    have "length rs < 2 ^ 63" using chain_length [OF snoc(1)] snoc.prems(1) by simp
    then show ?thesis using snoc(2) i unat_next [of "length rs"] by (simp add: extends_def Let_def)
  qed (use snoc in \<open>simp add: nth_append\<close>)
qed simp

lemma uint_word: "unat w = n \<Longrightarrow> uint w = int n" for w :: u64
  by (metis of_nat_unat)

lemma row_of_key: "fst (row_of r) = uint (arLedgerSequence r)"
  by (simp add: row_of_def Let_def)

lemma table_sorted:
  assumes "ledger_chain h rs" "list_all args_ok rs"
  shows "sort_key fst (map row_of rs) = map row_of rs"
proof (rule sort_key_id_if_sorted)
  have "uint (arLedgerSequence (rs ! i)) = int (Suc i)" if "i < length rs" for i
    using uint_word [OF chain_sequence [OF assms that]] .
  then have "map fst (map row_of rs) = map (\<lambda>i. int (Suc i)) [0..<length rs]"
    by (intro nth_equalityI) (simp_all add: row_of_key)
  then show "sorted (map fst (map row_of rs))" by (simp add: sorted_iff_nth_mono)
qed

lemma read_row_of:
  assumes "normalizeEnvelope h (arEnvelope r) = Inr (arEnvelope r)" "arLedgerSequence r = of_nat line"
  shows "read_row h line (row_of r) = Inr r"
proof -
  have "row_envelope (snd (row_of r)) (enOccurredAt (arEnvelope r)) = arEnvelope r"
    by (simp add: row_envelope_def row_of_def Let_def)
  then show ?thesis using assms by (simp add: read_row_def) (simp add: row_of_def Let_def)
qed

lemma read_rows_append: "read_rows h n (xs @ ys) = (case read_rows h n xs of Inl e \<Rightarrow> Inl e
    | Inr as \<Rightarrow> (case read_rows h (n + length xs) ys of Inl e \<Rightarrow> Inl e | Inr bs \<Rightarrow> Inr (as @ bs)))"
  by (induction xs arbitrary: n) (auto split: sum.splits)

lemma chain_reads: "ledger_chain h rs \<Longrightarrow> read_rows h 1 (map row_of rs) = Inr rs"
proof (induction rule: ledger_chain.induct)
  case (snoc rs r)
  then have "read_row h (1 + length rs) (row_of r) = Inr r"
    by (intro read_row_of) (simp_all add: extends_def Let_def add.commute)
  with snoc show ?case by (simp add: read_rows_append)
qed simp

text \<open>What was written is read back: opening the table of a well-formed ledger rebuilds it.\<close>

lemma good_load: "ledger_good h l \<Longrightarrow> load h None (ldTable l) = Inr (ldCache l)"
proof -
  assume good: "ledger_good h l"
  let ?rs = "lcRecords (ldCache l)"
  have rs: "ldTable l = map row_of ?rs" "ldCache l = ledger_of ?rs" "ledger_chain h ?rs" "list_all args_ok ?rs"
    using good by (simp_all add: ledger_good_def Let_def)
  have "readRecords h None (ldTable l) = Inr ?rs"
    using table_sorted [OF rs(3,4)] chain_reads [OF rs(3)] by (simp add: readRecords_def rs(1))
  moreover have "load_records ?rs empty_cache = Inr (ldCache l)" using chain_loads [OF rs(3)] rs(2) by simp
  ultimately show ?thesis using chain_verifies [OF rs(3)] by (simp add: load_def)
qed


section \<open>A batch extends the chain\<close>

text \<open>What the ledger relies on of \<open>encoding/json\<close>: encoding a decoded value is stable, and the hash
  input, which contains the envelope, can only be encoded when the envelope can.\<close>

definition json_laws :: "codec \<Rightarrow> bool" where
  "json_laws h \<longleftrightarrow> (\<forall>raw t. canonicalJSON h raw = Inr t \<longrightarrow> canonicalJSON h t = Inr t)
     \<and> (\<forall>n p e t. hash_input_json h n p e = Inr t \<longrightarrow> (\<exists>u. envelope_json h e = Inr u))"

lemma normalize_stable: "json_laws h \<Longrightarrow> normalizeEnvelope h e = Inr e' \<Longrightarrow> normalizeEnvelope h e' = Inr e'"
  by (auto simp: json_laws_def normalizeEnvelope_def split: if_splits sum.splits)

text \<open>The record that answers an envelope.\<close>

definition answers :: "codec \<Rightarrow> envelope \<Rightarrow> audit_record \<Rightarrow> bool" where
  "answers h e r \<longleftrightarrow> (\<exists>n. normalizeEnvelope h e = Inr n \<and> enEventID (arEnvelope r) = enEventID n \<and> envelopesEqual h (arEnvelope r) n)"

definition batch_ok :: "codec \<Rightarrow> cache \<Rightarrow> batch \<Rightarrow> bool" where
  "batch_ok h m b \<longleftrightarrow> (let rs = lcRecords m @ baAdditions b; l = ledger_of rs in
     ledger_chain h rs \<and> known_event m b = map_option ((!) rs) \<circ> lcEvents l \<and> known_key m b = lcSourceKeys l
     \<and> known_high m b = lcSourceHigh l \<and> baPrevious b = last_hash rs)"

lemma new_batch_ok:
  assumes "m = ledger_of rs" "ledger_chain h rs"
  shows "batch_ok h m (new_batch m)"
proof -
  have "known_event m (new_batch m) = map_option ((!) rs) \<circ> lcEvents m"
    by (auto simp: known_event_def new_batch_def fun_eq_iff assms(1) split: option.splits)
  moreover have "known_key m (new_batch m) = lcSourceKeys m" "known_high m (new_batch m) = lcSourceHigh m"
    by (simp_all add: known_key_def known_high_def new_batch_def fun_eq_iff)
  ultimately show ?thesis
    using assms by (simp add: batch_ok_def Let_def) (simp add: new_batch_def last_hash_def)
qed

lemma event_lookup_snoc:
  "map_option ((!) (rs @ [r])) (lcEvents (ledger_of (rs @ [r])) i) =
   (if i = enEventID (arEnvelope r) then Some r else map_option ((!) rs) (lcEvents (ledger_of rs) i))"
  using ledger_of_event [of rs i]
  by (cases "lcEvents (ledger_of rs) i") (auto simp: add_record_def Let_def nth_append)

lemma batch_grows:
  assumes b: "batch_ok h m b" and ext: "extends h (lcRecords m @ baAdditions b) r"
    and b': "baAdditions b' = baAdditions b @ [r]" "baEvents b' = (baEvents b)(enEventID (arEnvelope r) \<mapsto> r)"
      "baSourceKeys b' = (baSourceKeys b)(envelopeSourceKey (arEnvelope r) \<mapsto> enEventID (arEnvelope r))"
      "baSourceHigh b' = (baSourceHigh b)(enSourceEpoch (arEnvelope r) \<mapsto> enSourceSequence (arEnvelope r))" "baPrevious b' = arHash r"
  shows "batch_ok h m b'"
proof -
  define rs where "rs = lcRecords m @ baAdditions b"
  let ?e = "arEnvelope r"
  have ok: "ledger_chain h rs" "known_event m b = map_option ((!) rs) \<circ> lcEvents (ledger_of rs)"
    "known_key m b = lcSourceKeys (ledger_of rs)" "known_high m b = lcSourceHigh (ledger_of rs)"
    using b by (simp_all add: batch_ok_def Let_def rs_def)
  have "known_event m b' i = (if i = enEventID ?e then Some r else known_event m b i)"
    and key: "known_key m b' k = (if k = envelopeSourceKey ?e then Some (enEventID ?e) else known_key m b k)"
    and high: "known_high m b' s = (if s = enSourceEpoch ?e then enSourceSequence ?e else known_high m b s)" for i k s
    by (simp_all add: known_event_def known_key_def known_high_def b')
  then have "known_event m b' = map_option ((!) (rs @ [r])) \<circ> lcEvents (ledger_of (rs @ [r]))"
    by (simp only: ok(2) fun_eq_iff comp_apply event_lookup_snoc simp_thms)
  moreover have "known_key m b' = lcSourceKeys (ledger_of (rs @ [r]))" "known_high m b' = lcSourceHigh (ledger_of (rs @ [r]))"
    by (simp_all add: fun_eq_iff key high ok add_record_def Let_def)
  moreover have eq: "lcRecords m @ baAdditions b' = rs @ [r]" by (simp add: b' rs_def)
  moreover have "ledger_chain h (rs @ [r])" using ok(1) ext unfolding rs_def [symmetric] by simp
  ultimately show ?thesis using b'(5) by (simp add: batch_ok_def Let_def eq)
qed

lemma batch_step_ok:
  assumes laws: "json_laws h" and b: "batch_ok h m b" and step: "batch_step h m e b = Inr b'"
  shows "batch_ok h m b' \<and> (\<exists>r dup. baResults b' = baResults b @ [(r, dup)] \<and> answers h e r
      \<and> r \<in> set (lcRecords m @ baAdditions b') \<and> baAdditions b' = baAdditions b @ (if dup then [] else [r]))"
proof -
  let ?rs = "lcRecords m @ baAdditions b" and ?l = "ledger_of (lcRecords m @ baAdditions b)"
  have ok: "ledger_chain h ?rs" "known_event m b = map_option ((!) ?rs) \<circ> lcEvents ?l" "known_key m b = lcSourceKeys ?l"
    "known_high m b = lcSourceHigh ?l" "baPrevious b = last_hash ?rs"
    using b by (simp_all add: batch_ok_def Let_def)
  obtain n where n: "normalizeEnvelope h e = Inr n" using step by (auto simp: batch_step_def split: sum.splits)
  show ?thesis
  proof (cases "known_event m b (enEventID n)")
    case (Some x)
    then obtain i where i: "lcEvents ?l (enEventID n) = Some i" "x = ?rs ! i" by (auto simp: ok(2))
    have "x \<in> set ?rs" "enEventID (arEnvelope x) = enEventID n" using ledger_of_event [OF i(1)] i(2) by (metis nth_mem, metis)
    moreover have "envelopesEqual h (arEnvelope x) n" "b' = b\<lparr>baResults := baResults b @ [(x, True)]\<rparr>"
      using step n Some by (simp_all add: batch_step_def split: if_splits)
    moreover have "batch_ok h m b'"
      using b calculation(4) by (simp add: batch_ok_def known_event_def known_key_def known_high_def fun_eq_iff)
    ultimately show ?thesis using n by (auto simp: answers_def)
  next
    case None
    let ?r = "\<lparr>arLedgerSequence = of_nat (length ?rs) + 1, arPreviousHash = baPrevious b, arHash = [], arEnvelope = n\<rparr>"
    obtain hash where hash: "recordHash h ?r = Inr hash" and key: "known_key m b (envelopeSourceKey n) = None \<or> known_key m b (envelopeSourceKey n) = Some (enEventID n)"
      and high: "enSourceSequence n = known_high m b (enSourceEpoch n) + 1"
      and b': "b' = \<lparr>baResults = baResults b @ [(?r\<lparr>arHash := hash\<rparr>, False)], baAdditions = baAdditions b @ [?r\<lparr>arHash := hash\<rparr>],
                 baEvents = (baEvents b)(enEventID n \<mapsto> ?r\<lparr>arHash := hash\<rparr>),
                 baSourceKeys = (baSourceKeys b)(envelopeSourceKey n \<mapsto> enEventID n),
                 baSourceHigh = (baSourceHigh b)(enSourceEpoch n \<mapsto> enSourceSequence n), baPrevious = hash\<rparr>"
      using step n None by (auto simp: batch_step_def Let_def split: if_splits sum.splits option.splits)
    let ?R = "?r\<lparr>arHash := hash\<rparr>"
    have ev: "lcEvents ?l (enEventID n) = None" using None by (simp add: ok(2))
    then have "lcSourceKeys ?l (envelopeSourceKey n) = None" using key ledger_of_key [of ?rs "envelopeSourceKey n" "enEventID n"] by (auto simp: ok(3))
    moreover have "recordHash h ?R = Inr hash" using hash by (simp add: recordHash_def)
    ultimately have ext: "extends h ?rs ?R"
      using ev high normalize_stable [OF laws n] by (simp add: extends_def Let_def ok)
    have "batch_ok h m b'" using batch_grows [OF b ext, of b'] by (simp add: b')
    moreover obtain raw where "hash_input_json h (arLedgerSequence ?r) (baPrevious b) n = Inr raw"
      using hash by (auto simp: recordHash_def split: sum.splits)
    then obtain u where "envelope_json h n = Inr u" using laws unfolding json_laws_def by blast
    ultimately show ?thesis using n by (auto simp: b' answers_def envelopesEqual_def)
  qed
qed

lemma batch_loop_ok:
  assumes laws: "json_laws h" and "batch_ok h m b" "batch_loop h ctx n m es b = Inr b'"
  shows "batch_ok h m b' \<and> (\<exists>new. baAdditions b' = baAdditions b @ map fst (filter (\<lambda>x. \<not> snd x) new) \<and> baResults b' = baResults b @ new
      \<and> list_all2 (\<lambda>e x. answers h e (fst x) \<and> fst x \<in> set (lcRecords m @ baAdditions b')) es new)"
  using assms(2,3)
proof (induction es arbitrary: n b)
  case (Cons e es)
  obtain b1 where s: "batch_step h m e b = Inr b1" and rest: "batch_loop h ctx (n + 1) m es b1 = Inr b'"
    using Cons.prems(2) by (auto split: option.splits sum.splits)
  obtain r dup where b1: "batch_ok h m b1" "baResults b1 = baResults b @ [(r, dup)]" "answers h e r"
    "r \<in> set (lcRecords m @ baAdditions b1)" "baAdditions b1 = baAdditions b @ (if dup then [] else [r])"
    using batch_step_ok [OF laws Cons.prems(1) s] by blast
  obtain new where new: "batch_ok h m b'" "baAdditions b' = baAdditions b1 @ map fst (filter (\<lambda>x. \<not> snd x) new)"
    "baResults b' = baResults b1 @ new" "list_all2 (\<lambda>e x. answers h e (fst x) \<and> fst x \<in> set (lcRecords m @ baAdditions b')) es new"
    using Cons.IH [OF b1(1) rest] by blast
  show ?case
    by (intro conjI new(1), rule exI [of _ "(r, dup) # new"]) (use b1 new(2-) in auto)
qed simp


section \<open>The effect of an append\<close>

lemma insert_rows_ok: "insert_rows f n rs t = Inr t' \<Longrightarrow> t' = t @ map row_of rs \<and> list_all args_ok rs"
proof (induction rs arbitrary: n t)
  case (Cons r rs)
  then obtain t1 where t1: "insert_row r t = Inr t1" "insert_rows f (n + 1) rs t1 = Inr t'"
    by (auto split: option.splits sum.splits)
  have "args_ok r" "t1 = t @ [row_of r]" using t1(1) by (auto simp: insert_row_def args_ok_def split: if_splits prod.splits)
  then show ?case using Cons.IH [OF t1(2)] by simp
qed simp

lemma fold_add_records: "fold add_record ss (ledger_of rs) = ledger_of (rs @ ss)"
  by (simp add: ledger_of_def)

definition appended :: "codec \<Rightarrow> envelope list \<Rightarrow> ledger \<Rightarrow> ledger \<Rightarrow> (audit_record \<times> bool) list \<Rightarrow> bool" where
  "appended h es l l' results \<longleftrightarrow> ledger_good h l' \<and> ldOpen l \<and> ldOpen l'
     \<and> lcRecords (ldCache l') = lcRecords (ldCache l) @ map fst (filter (\<lambda>x. \<not> snd x) results)
     \<and> list_all2 (\<lambda>e x. answers h e (fst x) \<and> fst x \<in> set (lcRecords (ldCache l'))) es results"

lemma appendBatch_effect:
  assumes laws: "json_laws h" and good: "ledger_good h l" and app: "appendBatch h env es l = (l', res)"
  shows "(\<exists>e. res = Inl e) \<and> l' = l \<or> (\<exists>results. res = Inr results \<and> appended h es l l' results)"
proof (cases res)
  case (Inl e)
  then show ?thesis using app by (auto simp: appendBatch_def split: option.splits if_splits sum.splits)
next
  case (Inr results)
  let ?m = "ldCache l" and ?rs = "lcRecords (ldCache l)"
  have g: "ldTable l = map row_of ?rs" "?m = ledger_of ?rs" "ledger_chain h ?rs" "list_all args_ok ?rs"
    using good by (simp_all add: ledger_good_def Let_def)
  obtain b where open': "ldOpen l" and b: "batch_loop h (apContext env) 1 ?m es (new_batch ?m) = Inr b" "results = baResults b"
    and l': "l' = (if baAdditions b = [] then l else l') \<and> (baAdditions b \<noteq> [] \<longrightarrow> (\<exists>t. insert_rows (apInsert env) 0 (baAdditions b) (ldTable l) = Inr t
        \<and> l' = l\<lparr>ldTable := t, ldCache := fold add_record (baAdditions b) ?m\<rparr>))"
    using app Inr by (auto simp: appendBatch_def split: option.splits if_splits sum.splits)
  obtain new where ok: "batch_ok h ?m b" and new: "baAdditions b = map fst (filter (\<lambda>x. \<not> snd x) new)" "results = new"
    "list_all2 (\<lambda>e x. answers h e (fst x) \<and> fst x \<in> set (?rs @ baAdditions b)) es new"
    using batch_loop_ok [OF laws new_batch_ok [OF g(2,3)] b(1)] b(2) by (auto simp: new_batch_def)
  have "ldCache l' = ledger_of (?rs @ baAdditions b) \<and> ldTable l' = map row_of (?rs @ baAdditions b)
      \<and> list_all args_ok (?rs @ baAdditions b) \<and> ldOpen l'"
  proof (cases "baAdditions b = []")
    case True
    then show ?thesis using l' g open' by simp
  next
    case False
    then obtain t where t: "insert_rows (apInsert env) 0 (baAdditions b) (ldTable l) = Inr t"
      "l' = l\<lparr>ldTable := t, ldCache := fold add_record (baAdditions b) ?m\<rparr>" using l' by blast
    have "fold add_record (baAdditions b) ?m = ledger_of (?rs @ baAdditions b)" using fold_add_records [of "baAdditions b" ?rs] g(2) by simp
    then show ?thesis using t(2) insert_rows_ok [OF t(1)] g(1,4) open' by simp
  qed
  moreover have "ledger_chain h (?rs @ baAdditions b)" using ok by (simp add: batch_ok_def Let_def)
  ultimately have "appended h es l l' results"
    using new open' by (simp add: appended_def ledger_good_def Let_def)
  then show ?thesis using Inr by blast
qed

lemma chain_lookup:
  assumes "ledger_chain h rs" "r \<in> set rs"
  shows "\<exists>n. lcEvents (ledger_of rs) (enEventID (arEnvelope r)) = Some n \<and> rs ! n = r"
proof -
  obtain n where n: "lcEvents (ledger_of rs) (enEventID (arEnvelope r)) = Some n"
    using assms(2) ledger_of_event_None [of rs "enEventID (arEnvelope r)"] by fastforce
  obtain k where k: "k < length rs" "rs ! k = r" using assms(2) by (auto simp: in_set_conv_nth)
  have "n = k" using ledger_of_event [OF n] k chain_events_distinct [OF assms(1)]
    by (auto simp: distinct_conv_nth)
  then show ?thesis using n k by blast
qed

text \<open>Appending what the ledger already has changes nothing and returns the records it has.\<close>

lemma batch_replay:
  assumes m: "m = ledger_of rs" "ledger_chain h rs" and b: "baEvents b = (\<lambda>_. None)"
    and "list_all2 (\<lambda>e x. answers h e (fst x) \<and> fst x \<in> set rs) es results"
  shows "batch_loop h (\<lambda>_. None) n m es b = Inr (b\<lparr>baResults := baResults b @ map (\<lambda>x. (fst x, True)) results\<rparr>)"
  using assms(4,3)
proof (induction es results arbitrary: n b rule: list_all2_induct)
  case (Cons e es x results)
  then obtain v where v: "normalizeEnvelope h e = Inr v" "enEventID (arEnvelope (fst x)) = enEventID v" "envelopesEqual h (arEnvelope (fst x)) v"
    by (auto simp: answers_def)
  obtain k where "lcEvents (ledger_of rs) (enEventID v) = Some k" "rs ! k = fst x"
    using chain_lookup [OF m(2), of "fst x"] Cons.hyps v(2) by auto
  then have "batch_step h m e b = Inr (b\<lparr>baResults := baResults b @ [(fst x, True)]\<rparr>)"
    using v Cons.prems m(1) by (simp add: batch_step_def known_event_def)
  then show ?case using Cons.IH [of "b\<lparr>baResults := baResults b @ [(fst x, True)]\<rparr>" "n + 1"] Cons.prems by simp
qed simp

lemma appendBatch_replay:
  assumes "appended h es l l' results" "apContext env = (\<lambda>_. None)"
  shows "appendBatch h env es l' = (l', Inr (map (\<lambda>x. (fst x, True)) results))"
proof -
  let ?rs = "lcRecords (ldCache l')"
  have "ldCache l' = ledger_of ?rs" "ledger_chain h ?rs" "ldOpen l'"
    "list_all2 (\<lambda>e x. answers h e (fst x) \<and> fst x \<in> set ?rs) es results"
    using assms(1) unfolding appended_def ledger_good_def Let_def by blast+
  then have "batch_loop h (\<lambda>_. None) 1 (ldCache l') es (new_batch (ldCache l')) =
      Inr ((new_batch (ldCache l'))\<lparr>baResults := map (\<lambda>x. (fst x, True)) results\<rparr>)"
    using batch_replay [of "ldCache l'" ?rs h "new_batch (ldCache l')" es results 1] by (simp add: new_batch_def)
  then show ?thesis using assms(2) \<open>ldOpen l'\<close> by (simp add: appendBatch_def) (simp add: new_batch_def)
qed

section \<open>Tampering\<close>

text \<open>No two of these records have the same hash without being equal in what is hashed.\<close>

definition no_collision :: "codec \<Rightarrow> audit_record list \<Rightarrow> audit_record list \<Rightarrow> bool" where
  "no_collision h rs ss \<longleftrightarrow> (\<forall>r \<in> set rs. \<forall>s \<in> set ss. \<forall>x. recordHash h r = Inr x \<and> recordHash h s = Inr x \<longrightarrow>
     arLedgerSequence r = arLedgerSequence s \<and> arPreviousHash r = arPreviousHash s \<and> arEnvelope r = arEnvelope s)"

lemma no_collision_mono: "no_collision h rs ss \<Longrightarrow> set rs' \<subseteq> set rs \<Longrightarrow> set ss' \<subseteq> set ss \<Longrightarrow> no_collision h rs' ss'"
  unfolding no_collision_def by blast

lemma verify_snoc: "verifyRecords h (rs @ [r]) = Inr () \<longleftrightarrow> verifyRecords h rs = Inr ()
    \<and> arLedgerSequence r = of_nat (length rs) + 1 \<and> arPreviousHash r = last_hash rs \<and> recordHash h r = Inr (arHash r)"
  by (auto simp: verifyRecords_def verify_from_append last_hash_def split: sum.splits if_splits)

lemma hash_nonempty: "recordHash h r = Inr x \<Longrightarrow> x \<noteq> []"
  by (auto simp: recordHash_def digest_def split: sum.splits)

lemma last_hash_empty: "verifyRecords h rs = Inr () \<Longrightarrow> last_hash rs = [] \<longleftrightarrow> rs = []"
  by (cases rs rule: rev_cases) (auto simp: verify_snoc dest: hash_nonempty)

lemma verified_unique:
  assumes "verifyRecords h rs = Inr ()" "verifyRecords h ss = Inr ()" "last_hash rs = last_hash ss" "no_collision h rs ss"
  shows "rs = ss"
  using assms
proof (induction rs arbitrary: ss rule: rev_induct)
  case Nil
  then show ?case using last_hash_empty [of h ss] by simp
next
  case (snoc r rs)
  have "last_hash (rs @ [r]) \<noteq> []" using last_hash_empty [OF snoc.prems(1)] by simp
  then have "ss \<noteq> []" using snoc.prems(3) by auto
  then obtain ss' s where ss: "ss = ss' @ [s]" by (cases ss rule: rev_cases) auto
  have v: "verifyRecords h rs = Inr ()" "recordHash h r = Inr (arHash r)" "arPreviousHash r = last_hash rs"
    "verifyRecords h ss' = Inr ()" "recordHash h s = Inr (arHash s)" "arPreviousHash s = last_hash ss'" "arHash r = arHash s"
    using snoc.prems(1-3) by (simp_all add: verify_snoc ss)
  have same: "arLedgerSequence r = arLedgerSequence s" "arPreviousHash r = arPreviousHash s" "arEnvelope r = arEnvelope s"
    using snoc.prems(4) v(2,5,7) by (auto simp: no_collision_def ss)
  then have "r = s" using v(7) by (intro audit_record.equality) simp_all
  moreover have "no_collision h rs ss'" by (rule no_collision_mono [OF snoc.prems(4)]) (auto simp: ss)
  then have "rs = ss'" using snoc.IH [OF v(1,4)] v(3,6) same(2) by simp
  ultimately show ?case by (simp add: ss)
qed

lemma verify_take: "verifyRecords h rs = Inr () \<Longrightarrow> verifyRecords h (take n rs) = Inr ()"
proof (induction rs rule: rev_induct)
  case (snoc r rs)
  then show ?case by (cases "n \<le> length rs") (simp_all add: verify_snoc)
qed simp

lemma last_hash_take: "i < length rs \<Longrightarrow> last_hash (take (Suc i) rs) = arHash (rs ! i)"
  by (simp add: last_hash_def take_Suc_conv_app_nth)


end
