(* ===== verification/Audit_Properties.thy ===== *)
theory Audit_Properties
  imports Audit_Ledger
begin

text \<open>
  The properties of the audit ledger: a batch is appended atomically and durably, replays change
  nothing, tampering with verified records is detected, and the drain of the outbox never
  acknowledges an event that the ledger does not hold.
\<close>

section \<open>The drain\<close>

text \<open>A row is unchanged, or pending and now drained with its event among those given.\<close>

definition drained_into :: "string set \<Rightarrow> outbox_row \<Rightarrow> outbox_row \<Rightarrow> bool" where
  "drained_into evs r r' \<longleftrightarrow> r' = r \<or> obPending r \<and> r' = r\<lparr>obPending := False\<rparr> \<and> obEventID r \<in> evs"

lemma drained_into_mono: "drained_into evs r r' \<Longrightarrow> evs \<subseteq> evs' \<Longrightarrow> drained_into evs' r r'"
  by (auto simp: drained_into_def)

lemma drained_into_trans: "drained_into evs r s \<Longrightarrow> drained_into evs s t \<Longrightarrow> drained_into evs r t"
  by (auto simp: drained_into_def)

lemma rows_drained_refl: "list_all2 (drained_into evs) rows rows"
  by (simp add: list_all2_same drained_into_def)

lemma rows_drained_trans:
  "list_all2 (drained_into evs) rows rows1 \<Longrightarrow> list_all2 (drained_into evs') rows1 rows2 \<Longrightarrow> evs \<subseteq> evs'
   \<Longrightarrow> list_all2 (drained_into evs') rows rows2"
  by (rule list_all2_trans [where ?P1.0 = "drained_into evs'"])
    (auto intro: drained_into_trans list_all2_mono drained_into_mono)

lemma Acknowledge_effect:
  assumes "Acknowledge fault i s n rows = (rows', r)"
  shows "list_all2 (drained_into {i}) rows rows'"
    and "r = Inr () \<Longrightarrow> Suc (length (filter obPending rows')) = length (filter obPending rows)"
proof -
  have m: "list_all2 (drained_into {i}) rows (map (\<lambda>r. if acknowledged_row i s n r then r\<lparr>obPending := False\<rparr> else r) rows)" for rows
    by (auto simp: list_all2_map2 drained_into_def acknowledged_row_def intro!: list_all2_refl)
  then show "list_all2 (drained_into {i}) rows rows'"
    using assms by (auto simp: Acknowledge_def rows_drained_refl split: option.splits)
  have count: "length (filter obPending (map (\<lambda>r. if acknowledged_row i s n r then r\<lparr>obPending := False\<rparr> else r) rows))
      + length (filter (acknowledged_row i s n) rows) = length (filter obPending rows)" for rows
    by (induction rows) (auto simp: acknowledged_row_def)
  show "Suc (length (filter obPending rows')) = length (filter obPending rows)" if "r = Inr ()"
    using assms that count [of rows] by (auto simp: Acknowledge_def split: option.splits if_splits)
qed

lemma ack_loop_effect:
  assumes "ack_loop tu n es rows rep = (rows', rep', r)"
  shows "list_all2 (drained_into (enEventID ` set es)) rows rows'"
    and "r = Inr () \<Longrightarrow> length (filter obPending rows') + length es = length (filter obPending rows)"
  using assms
proof (induction es arbitrary: n rows rep)
  case (Cons e es)
  {
    case 1
    then show ?case
    proof (cases "tuAckContext tu n")
      case None
      obtain rows1 a where a: "Acknowledge (tuAck tu n) (enEventID e) (enSourceEpoch e) (enSourceSequence e) rows = (rows1, a)"
        by (cases "Acknowledge (tuAck tu n) (enEventID e) (enSourceEpoch e) (enSourceSequence e) rows")
      note eff = Acknowledge_effect(1) [OF a]
      show ?thesis
      proof (cases a)
        case (Inl x)
        then have "rows' = rows1" using "1" None a by (simp add: Let_def)
        then show ?thesis using eff by (auto elim: list_all2_mono drained_into_mono)
      next
        case (Inr u)
        then have "\<exists>rep1. ack_loop tu (n + 1) es rows1 rep1 = (rows', rep', r)" using "1" None a by (auto simp: Let_def)
        then have "list_all2 (drained_into (enEventID ` set es)) rows1 rows'" using Cons.IH(1) by blast
        then have "list_all2 (drained_into (enEventID ` set (e # es))) rows1 rows'"
          by (rule list_all2_mono) (auto intro: drained_into_mono)
        then show ?thesis using rows_drained_trans [OF eff] by simp
      qed
    qed (simp add: rows_drained_refl)
  next
    case 2
    then obtain rows1 rep1 where a: "Acknowledge (tuAck tu n) (enEventID e) (enSourceEpoch e) (enSourceSequence e) rows = (rows1, Inr ())"
      "ack_loop tu (n + 1) es rows1 rep1 = (rows', rep', r)"
      by (auto simp: Let_def split: option.splits prod.splits sum.splits)
    then show ?case using Cons.IH(2) [OF "2"(1) a(2)] Acknowledge_effect(2) [OF a(1)] by simp
  }
qed (auto simp: rows_drained_refl)

lemma outbox_envelopes_length: "outbox_envelopes h rs = Inr es \<Longrightarrow> length es = length rs"
  by (induction rs arbitrary: es) (auto split: sum.splits)

lemma Pending_empty: "Pending h f n rows = Inr [] \<Longrightarrow> filter obPending rows = []"
proof -
  assume p: "Pending h f n rows = Inr []"
  let ?s = "sort_key (\<lambda>r. (obSourceEpoch r, obSourceSequence r)) (filter obPending rows)"
  have n: "0 < n" and es: "outbox_envelopes h (take (nat n) ?s) = Inr []"
    using p by (auto simp: Pending_def split: if_splits option.splits)
  have "length (take (nat n) ?s) = 0" using outbox_envelopes_length [OF es] by simp
  then have "length ?s = 0" using n by (simp add: min_def split: if_splits)
  then show ?thesis by simp
qed


text \<open>The events of a batch that was appended are in the ledger.\<close>

lemma appended_events:
  assumes "appended h es l l' results"
  shows "enEventID ` set es \<subseteq> (enEventID \<circ> arEnvelope) ` set (lcRecords (ldCache l'))"
proof
  fix i assume "i \<in> enEventID ` set es"
  then obtain k where k: "k < length es" "enEventID (es ! k) = i" by (auto simp: in_set_conv_nth)
  have rel: "list_all2 (\<lambda>e x. answers h e (fst x) \<and> fst x \<in> set (lcRecords (ldCache l'))) es results"
    using assms unfolding appended_def by blast
  then have a: "answers h (es ! k) (fst (results ! k))" and r: "fst (results ! k) \<in> set (lcRecords (ldCache l'))"
    using list_all2_nthD [OF rel k(1)] by simp_all
  then obtain n where "normalizeEnvelope h (es ! k) = Inr n" "enEventID (arEnvelope (fst (results ! k))) = enEventID n"
    by (auto simp: answers_def)
  then have "enEventID (arEnvelope (fst (results ! k))) = i"
    using k(2) by (auto simp: normalizeEnvelope_def split: if_splits sum.splits)
  then show "i \<in> (enEventID \<circ> arEnvelope) ` set (lcRecords (ldCache l'))" using r by force
qed

definition drain_safe :: "codec \<Rightarrow> ledger \<Rightarrow> outbox_row list \<Rightarrow> ledger \<Rightarrow> outbox_row list \<Rightarrow> bool" where
  "drain_safe h l rows l' rows' \<longleftrightarrow> ledger_good h l' \<and> (\<exists>new. lcRecords (ldCache l') = lcRecords (ldCache l) @ new)
     \<and> list_all2 (drained_into ((enEventID \<circ> arEnvelope) ` set (lcRecords (ldCache l')))) rows rows'"

lemma drain_safe_trans:
  assumes "drain_safe h l rows l1 rows1" "drain_safe h l1 rows1 l2 rows2"
  shows "drain_safe h l rows l2 rows2"
proof -
  obtain a b where "lcRecords (ldCache l1) = lcRecords (ldCache l) @ a" and b: "lcRecords (ldCache l2) = lcRecords (ldCache l1) @ b"
    using assms by (auto simp: drain_safe_def)
  moreover have "list_all2 (drained_into ((enEventID \<circ> arEnvelope) ` set (lcRecords (ldCache l2)))) rows rows2"
    by (rule rows_drained_trans [of "(enEventID \<circ> arEnvelope) ` set (lcRecords (ldCache l1))" _ rows1])
      (use assms b in \<open>auto simp: drain_safe_def\<close>)
  ultimately show ?thesis using assms(2) by (simp add: drain_safe_def)
qed

lemma drain_turn:
  assumes laws: "json_laws h" and good: "ledger_good h l" and p: "Pending h (tuPending tu) batchSize rows = Inr pending" "pending \<noteq> []"
    and app: "appendBatch h (tuAppend tu) (SortEnvelopes pending) l = (l1, Inr results)"
    and ack: "ack_loop tu 0 (SortEnvelopes pending) rows rep = (rows1, rep1, r)"
  shows "drain_safe h l rows l1 rows1 \<and> (r = Inr () \<longrightarrow> length (filter obPending rows1) < length (filter obPending rows))"
proof -
  have a: "appended h (SortEnvelopes pending) l l1 results" using appendBatch_effect [OF laws good app] by auto
  have "list_all2 (drained_into ((enEventID \<circ> arEnvelope) ` set (lcRecords (ldCache l1)))) rows rows1"
    using ack_loop_effect(1) [OF ack] by (rule list_all2_mono) (rule drained_into_mono [OF _ appended_events [OF a]])
  then have "drain_safe h l rows l1 rows1" using a unfolding drain_safe_def appended_def by blast
  moreover have "0 < length (SortEnvelopes pending)" using p(2) by (simp add: SortEnvelopes_def)
  then have "r = Inr () \<longrightarrow> length (filter obPending rows1) < length (filter obPending rows)"
    using ack_loop_effect(2) [OF ack] by (metis less_add_same_cancel1)
  ultimately show ?thesis by blast
qed

text \<open>A turn of the loop ends it, or leaves fewer pending rows.\<close>

lemma drain_step:
  assumes laws: "json_laws h" and good: "ledger_good h l"
  shows "\<exists>l1 rows1 rep1. drain_safe h l rows l1 rows1 \<and>
    ((\<exists>r. drain_loop h k (tu # tus) l rows rep = Some (l1, rows1, rep1, r) \<and> (r = Inr () \<longrightarrow> filter obPending rows1 = []))
     \<or> drain_loop h k (tu # tus) l rows rep = drain_loop h k tus l1 rows1 rep1
        \<and> length (filter obPending rows1) < length (filter obPending rows))"
    (is "\<exists>l1 rows1 rep1. ?P l1 rows1 rep1")
proof -
  have id: "drain_safe h l rows l rows" using good by (simp add: drain_safe_def rows_drained_refl)
  show ?thesis
  proof (cases "Pending h (tuPending tu) k rows")
    case (Inl e)
    then have "\<exists>rep1. ?P l rows rep1" using id by (simp add: Let_def)
    then show ?thesis by blast
  next
    case p: (Inr pending)
    consider (empty) "pending = []" | (cancelled) e where "pending \<noteq> []" "tuContext tu = Some e" | (go) "pending \<noteq> []" "tuContext tu = None"
      by (cases "tuContext tu") auto
    then show ?thesis
    proof cases
      case empty
      then have "\<exists>rep1. ?P l rows rep1" using id p Pending_empty [of h "tuPending tu" k rows] by (simp add: Let_def)
      then show ?thesis by blast
    next
      case cancelled
      then have "\<exists>rep1. ?P l rows rep1" using id p by (simp add: Let_def)
      then show ?thesis by blast
    next
      case go
      obtain l1 ar where ar: "appendBatch h (tuAppend tu) (SortEnvelopes pending) l = (l1, ar)"
        by (cases "appendBatch h (tuAppend tu) (SortEnvelopes pending) l")
      show ?thesis
      proof (cases ar)
        case (Inl e)
        then have "l1 = l" using appendBatch_effect [OF laws good ar] by auto
        then have "\<exists>rep1. ?P l rows rep1" using id p go ar Inl by (simp add: Let_def)
        then show ?thesis by blast
      next
        case (Inr results)
        define rep0 where "rep0 = rep\<lparr>rpPhase := ''pending'', rpPendingCalls := rpPendingCalls rep + 1\<rparr>"
        define rep1 where "rep1 = (rep0\<lparr>rpPhase := ''between_records''\<rparr>)\<lparr>rpPhase := ''append'', rpAppendCalls := rpAppendCalls rep0 + 1\<rparr>"
        define rep2 where "rep2 = rep1\<lparr>rpDuplicates := rpDuplicates rep1 + length (filter snd results),
          rpAppended := rpAppended rep1 + length (filter (\<lambda>r. \<not> snd r) results)\<rparr>"
        have eq: "drain_loop h k (tu # tus) l rows rep = (case ack_loop tu 0 (SortEnvelopes pending) rows rep2 of
            (rows', rep, Inl e) \<Rightarrow> Some (l1, rows', rep\<lparr>rpAnchor := Anchor l1\<rparr>, Inl e)
          | (rows', rep, Inr _) \<Rightarrow> drain_loop h k tus l1 rows' rep)"
          using p go ar Inr by (simp add: Let_def rep2_def rep1_def rep0_def)
        obtain rows1 rep3 a where a: "ack_loop tu 0 (SortEnvelopes pending) rows rep2 = (rows1, rep3, a)"
          by (cases "ack_loop tu 0 (SortEnvelopes pending) rows rep2")
        note turn = drain_turn [OF laws good p go(1) ar [unfolded Inr] a]
        have "\<exists>rep1. ?P l1 rows1 rep1"
          using turn a by (cases a) (auto simp: eq simp del: drain_loop.simps)
        then show ?thesis by blast
      qed
    qed
  qed
qed

lemma drain_loop_safe:
  assumes laws: "json_laws h"
  shows "ledger_good h l \<Longrightarrow> drain_loop h k tus l rows rep = Some (l', rows', rep', r) \<Longrightarrow>
      drain_safe h l rows l' rows' \<and> (r = Inr () \<longrightarrow> filter obPending rows' = [])"
proof (induction tus arbitrary: l rows rep)
  case (Cons tu tus)
  from drain_step [OF laws Cons.prems(1), of rows k tu tus rep] show ?case
  proof (elim exE conjE disjE)
    fix l1 rows1 rep1 assume d: "drain_safe h l rows l1 rows1" and eq: "drain_loop h k (tu # tus) l rows rep = drain_loop h k tus l1 rows1 rep1"
    have "ledger_good h l1" using d by (simp add: drain_safe_def)
    from Cons.IH [OF this] show ?thesis using Cons.prems(2) eq drain_safe_trans [OF d] by metis
  qed (use Cons.prems(2) in simp)
qed simp

lemma drain_loop_returns:
  assumes laws: "json_laws h"
  shows "ledger_good h l \<Longrightarrow> length (filter obPending rows) < length tus \<Longrightarrow> \<exists>x. drain_loop h k tus l rows rep = Some x"
proof (induction tus arbitrary: l rows rep)
  case (Cons tu tus)
  from drain_step [OF laws Cons.prems(1), of rows k tu tus rep] show ?case
  proof (elim exE conjE disjE)
    fix l1 rows1 rep1 assume d: "drain_safe h l rows l1 rows1" and eq: "drain_loop h k (tu # tus) l rows rep = drain_loop h k tus l1 rows1 rep1"
      and less: "length (filter obPending rows1) < length (filter obPending rows)"
    have "ledger_good h l1" using d by (simp add: drain_safe_def)
    then show ?thesis using Cons.IH [of l1 rows1 rep1] less Cons.prems(2) by (simp only: eq) simp
  qed blast
qed simp


section \<open>Atomic and durable appends\<close>

text \<open>
  C21. A batch is appended atomically and durably. When \<open>appendBatch\<close> returns an error, whatever the
  cause (a cancelled context, an invalid or conflicting envelope, a gap, a database fault while
  beginning, inserting or committing), the table and the copy in memory are as before. When it succeeds
  the ledger is again a verified chain that extends the old one by exactly the records reported as new,
  every envelope is answered by a record of the ledger with the same event and content, opening the
  table afresh gives the same ledger, and appending the batch again changes nothing and returns the
  same records, all reported as duplicates.
\<close>

theorem append_atomic_durable:
  assumes "json_laws h" "ledger_good h l" "appendBatch h env es l = (l', res)" "\<not> go_blank root"
  shows "(\<forall>e. res = Inl e \<longrightarrow> l' = l)
    \<and> (\<forall>results. res = Inr results \<longrightarrow> appended h es l l' results
         \<and> OpenLedger h None None root (Some (ldTable l')) = Inr l'
         \<and> appendBatch h (env\<lparr>apContext := \<lambda>_. None\<rparr>) es l' = (l', Inr (map (\<lambda>x. (fst x, True)) results)))"
proof -
  have open': "OpenLedger h None None root (Some (ldTable l')) = Inr l'" if "appended h es l l' results" for results
  proof -
    have "ledger_good h l'" "ldOpen l'" using that unfolding appended_def by blast+
    then show ?thesis using good_load [of h l'] assms(4) by (simp add: OpenLedger_def)
  qed
  from appendBatch_effect [OF assms(1-3)] show ?thesis
    by (auto intro: open' appendBatch_replay)
qed

definition demo_envelope :: "string \<Rightarrow> u64 \<Rightarrow> envelope" where
  "demo_envelope i n = \<lparr>enEventID = i, enSourceEpoch = ''epoch'', enSourceSequence = n, enMutationIdentity = ''m'',
     enPayloadHash = ''sha256:p'', enPayload = ''p'', enOccurredAt = 5\<rparr>"

definition demo_records :: "audit_record list" where
  "demo_records =
     [\<lparr>arLedgerSequence = 1, arPreviousHash = [], arHash = ''sha256:#1||a'', arEnvelope = demo_envelope ''a'' 1\<rparr>,
      \<lparr>arLedgerSequence = 2, arPreviousHash = ''sha256:#1||a'', arHash = ''sha256:#2|sha256:#1||a|b'', arEnvelope = demo_envelope ''b'' 2\<rparr>]"

definition demo_prefix :: prefix where
  "demo_prefix = \<lparr>pxFormatVersion = 1, pxAnchor = record_anchor (demo_records ! 0), pxRecords = take 1 demo_records\<rparr>"

text \<open>The same evidence with a blank in the payload.\<close>

definition demo_copy :: prefix where
  "demo_copy = demo_prefix\<lparr>pxRecords := map (\<lambda>r. r\<lparr>arEnvelope := (arEnvelope r)\<lparr>enPayload := ''p ''\<rparr>\<rparr>) (pxRecords demo_prefix)\<rparr>"

text \<open>A codec for the witnesses: an injective hash, JSON texts whose canonical form has no blanks, and the texts
  of the two records above.\<close>

definition no_blanks :: "string \<Rightarrow> string" where
  "no_blanks s = filter (\<lambda>c. c \<noteq> CHR '' '') s"

definition demo_codec :: codec where
  "demo_codec = \<lparr>sha256_hex = (\<lambda>s. s), read_json = (\<lambda>s. JsonRead False (Inr (no_blanks s)) EndOfInput),
     hash_input_json = (\<lambda>n p e. let x = (n, p, e\<lparr>enPayload := no_blanks (enPayload e)\<rparr>) in
        if x = (1, [], demo_envelope ''a'' 1) then Inr ''#1||a''
        else if x = (2, ''sha256:#1||a'', demo_envelope ''b'' 2) then Inr ''#2|sha256:#1||a|b'' else Inl (Err ''json'')),
     envelope_json = (\<lambda>e. Inr (enEventID e @ enPayload e)),
     prefix_json = (\<lambda>p. if p = demo_prefix then Inr ''prefix'' else Inl (Err ''json'')),
     read_prefix = (\<lambda>s. if s = ''prefix'' then Some demo_prefix else if s = ''copy'' then Some demo_copy else None)\<rparr>"

definition demo_env :: append_env where
  "demo_env = \<lparr>apContext = (\<lambda>_. None), apBegin = None, apInsert = (\<lambda>_. None), apCommit = None\<rparr>"

definition demo_ledger :: ledger where
  "demo_ledger = \<lparr>ldOpen = True, ldTable = [], ldCache = empty_cache\<rparr>"

lemma demo_laws: "json_laws demo_codec"
  by (simp add: json_laws_def demo_codec_def canonicalJSON_def no_blanks_def)

lemma demo_good: "ledger_good demo_codec demo_ledger"
  by (simp add: ledger_good_def demo_ledger_def Let_def) (simp add: empty_cache_def)

definition demo_ledger2 :: ledger where
  "demo_ledger2 = fst (appendBatch demo_codec demo_env [demo_envelope ''a'' 1, demo_envelope ''b'' 2] demo_ledger)"

definition demo_results :: "(audit_record \<times> bool) list" where
  "demo_results = map (\<lambda>r. (r, False)) demo_records"

lemma demo_append: "appendBatch demo_codec demo_env [demo_envelope ''a'' 1, demo_envelope ''b'' 2] demo_ledger = (demo_ledger2, Inr demo_results)"
proof -
  have "snd (appendBatch demo_codec demo_env [demo_envelope ''a'' 1, demo_envelope ''b'' 2] demo_ledger) = Inr demo_results"
    by code_simp
  then show ?thesis by (metis demo_ledger2_def prod.collapse)
qed

theorem append_atomic_durable_witness:
  "OpenLedger demo_codec None None ''root'' (Some (ldTable demo_ledger2)) = Inr demo_ledger2
   \<and> appendBatch demo_codec (demo_env\<lparr>apContext := \<lambda>_. None\<rparr>) [demo_envelope ''a'' 1, demo_envelope ''b'' 2] demo_ledger2 =
       (demo_ledger2, Inr (map (\<lambda>x. (fst x, True)) demo_results))
   \<and> map snd demo_results = [False, False]"
proof -
  have "\<not> go_blank ''root''" by code_simp
  moreover have "map snd demo_results = [False, False]" by (simp add: demo_results_def demo_records_def)
  ultimately show ?thesis
    using append_atomic_durable [OF demo_laws demo_good demo_append, of "''root''"] by blast
qed

section \<open>Evidence\<close>

lemma good_records:
  assumes "ledger_good h l"
  shows "verifyRecords h (lcRecords (ldCache l)) = Inr ()" "length (lcRecords (ldCache l)) < 2 ^ 63"
    and "i < length (lcRecords (ldCache l)) \<Longrightarrow> unat (arLedgerSequence (lcRecords (ldCache l) ! i)) = Suc i"
  using assms chain_verifies chain_length chain_sequence unfolding ledger_good_def Let_def by blast+

lemma ExportPrefix_anchor:
  assumes good: "ledger_good h l" and e: "ExportPrefix h a l = Inr (raw, d)"
  obtains i where "i < length (lcRecords (ldCache l))" "anLedgerSequence a = of_nat (Suc i)" "unat (anLedgerSequence a) = Suc i"
    "a = record_anchor (lcRecords (ldCache l) ! i)"
    "prefix_json h \<lparr>pxFormatVersion = 1, pxAnchor = a, pxRecords = take (Suc i) (lcRecords (ldCache l))\<rparr> = Inr raw"
proof -
  let ?rs = "lcRecords (ldCache l)"
  have a: "anLedgerSequence a \<noteq> 0" "\<not> anLedgerSequence a > of_nat (length ?rs)"
    using e by (auto simp: ExportPrefix_def Let_def split: if_splits)
  obtain i where i: "unat (anLedgerSequence a) = Suc i" using a(1) by (cases "unat (anLedgerSequence a)") (auto simp: unsigned_eq_0_iff)
  have "unat (of_nat (length ?rs) :: u64) = length ?rs"
    using good_records(2) [OF good] by (simp add: unsigned_of_nat take_bit_nat_eq_self)
  then have lt: "i < length ?rs" using a(2) i by (simp add: word_less_nat_alt)
  have "arLedgerSequence (?rs ! i) = anLedgerSequence a"
    using good_records(3) [OF good lt] i by (metis word_unat_eq_iff)
  then have "a = record_anchor (?rs ! i)"
    using e a i by (auto simp: ExportPrefix_def Let_def record_anchor_def split: if_splits)
  moreover have "prefix_json h \<lparr>pxFormatVersion = 1, pxAnchor = a, pxRecords = take (Suc i) ?rs\<rparr> = Inr raw"
    using e i by (auto simp: ExportPrefix_def Let_def split: if_splits sum.splits)
  moreover have "anLedgerSequence a = of_nat (Suc i)"
    using i lt good_records(2) [OF good] by (simp add: word_unat_eq_iff unsigned_of_nat take_bit_nat_eq_self del: of_nat_Suc)
  ultimately show ?thesis using that lt i by blast
qed

lemma VerifyPrefix_ok:
  "VerifyPrefix h raw = Inr a \<longleftrightarrow> (\<exists>p. read_prefix h raw = Some p \<and> pxAnchor p = a \<and> pxFormatVersion p = 1
     \<and> anLedgerSequence a = of_nat (length (pxRecords p)) \<and> verifyRecords h (pxRecords p) = Inr () \<and> pxRecords p \<noteq> []
     \<and> anHash a = arHash (last (pxRecords p)) \<and> anSourceEpoch a = enSourceEpoch (arEnvelope (last (pxRecords p)))
     \<and> anSourceSequence a = enSourceSequence (arEnvelope (last (pxRecords p))))"
  by (auto simp: VerifyPrefix_def Let_def split: option.splits sum.splits if_splits)

text \<open>JSON text is not one to one with what it decodes to: \<open>json.Marshal\<close> drops the blanks of a payload and
  replaces text that is not UTF-8. What is relied on holds of records whose strings are ASCII and whose payload
  is canonical, as every payload of a ledger is.\<close>

definition ascii :: "string \<Rightarrow> bool" where
  "ascii s \<longleftrightarrow> list_all (\<lambda>c. of_char c < (128 :: nat)) s"

definition ascii_record :: "audit_record \<Rightarrow> bool" where
  "ascii_record r \<longleftrightarrow> list_all ascii [arPreviousHash r, arHash r, enEventID (arEnvelope r), enSourceEpoch (arEnvelope r),
     enMutationIdentity (arEnvelope r), enPayloadHash (arEnvelope r), enPayload (arEnvelope r)]"

definition plain_record :: "codec \<Rightarrow> audit_record \<Rightarrow> bool" where
  "plain_record h r \<longleftrightarrow> ascii_record r \<and> canonicalJSON h (enPayload (arEnvelope r)) = Inr (enPayload (arEnvelope r))"

text \<open>The text of a record that is hashed, and two records that differ at most in how the same payload is written.\<close>

definition hashed :: "codec \<Rightarrow> audit_record \<Rightarrow> string result" where
  "hashed h r = hash_input_json h (arLedgerSequence r) (arPreviousHash r) (arEnvelope r)"

definition same_hashed :: "codec \<Rightarrow> audit_record \<Rightarrow> audit_record \<Rightarrow> bool" where
  "same_hashed h r s \<longleftrightarrow> arLedgerSequence r = arLedgerSequence s \<and> arPreviousHash r = arPreviousHash s
     \<and> (arEnvelope r)\<lparr>enPayload := enPayload (arEnvelope s)\<rparr> = arEnvelope s
     \<and> canonicalJSON h (enPayload (arEnvelope r)) = Inr (enPayload (arEnvelope s))"

definition same_record :: "codec \<Rightarrow> audit_record \<Rightarrow> audit_record \<Rightarrow> bool" where
  "same_record h r s \<longleftrightarrow> same_hashed h r s \<and> arHash r = arHash s"

text \<open>SHA-256 tells the texts hashed for these records apart.\<close>

definition digests_differ :: "codec \<Rightarrow> audit_record list \<Rightarrow> audit_record list \<Rightarrow> bool" where
  "digests_differ h rs ss \<longleftrightarrow> (\<forall>r \<in> set rs. \<forall>s \<in> set ss. \<forall>t u. hashed h r = Inr t \<and> hashed h s = Inr u
     \<and> sha256_hex h t = sha256_hex h u \<longrightarrow> t = u)"

lemma digests_differ_mono: "digests_differ h rs ss \<Longrightarrow> set rs' \<subseteq> set rs \<Longrightarrow> set ss' \<subseteq> set ss \<Longrightarrow> digests_differ h rs' ss'"
  unfolding digests_differ_def by blast

lemma recordHash_hashed: "recordHash h r = Inr x \<Longrightarrow> \<exists>t. hashed h r = Inr t \<and> x = digest h t"
  by (auto simp: recordHash_def hashed_def split: sum.splits)

lemma chain_canonical: "ledger_chain h rs \<Longrightarrow> r \<in> set rs \<Longrightarrow> canonicalJSON h (enPayload (arEnvelope r)) = Inr (enPayload (arEnvelope r))"
proof (induction rule: ledger_chain.induct)
  case (snoc rs x)
  have "canonicalJSON h (enPayload e) = Inr (enPayload e)" if "normalizeEnvelope h e = Inr e" for e
    using that by (cases e) (auto simp: normalizeEnvelope_def split: if_splits sum.splits)
  with snoc show ?case by (auto simp: extends_def Let_def)
qed simp

text \<open>Two chains that verify and end with the same hash have the same records.\<close>

lemma verified_same:
  assumes json: "\<And>r s t. hashed h r = Inr t \<Longrightarrow> hashed h s = Inr t \<Longrightarrow> plain_record h s \<Longrightarrow> same_hashed h r s"
  shows "verifyRecords h rs = Inr () \<Longrightarrow> verifyRecords h ss = Inr () \<Longrightarrow> last_hash rs = last_hash ss \<Longrightarrow> digests_differ h rs ss
    \<Longrightarrow> list_all (plain_record h) ss \<Longrightarrow> list_all2 (same_record h) rs ss"
proof (induction rs arbitrary: ss rule: rev_induct)
  case Nil
  then show ?case using last_hash_empty [of h ss] by simp
next
  case (snoc r rs)
  have "last_hash (rs @ [r]) \<noteq> []" using last_hash_empty [OF snoc.prems(1)] by simp
  then have "ss \<noteq> []" using snoc.prems(3) by auto
  then obtain ss' s where ss: "ss = ss' @ [s]" by (cases ss rule: rev_cases) auto
  have v: "verifyRecords h rs = Inr ()" "recordHash h r = Inr (arHash r)" "arPreviousHash r = last_hash rs"
    "verifyRecords h ss' = Inr ()" "recordHash h s = Inr (arHash s)" "arPreviousHash s = last_hash ss'" "arHash r = arHash s"
    using snoc.prems(1-3) by (simp_all add: verify_snoc ss)
  obtain t where t: "hashed h r = Inr t" "arHash r = digest h t" using recordHash_hashed [OF v(2)] by (elim exE conjE)
  obtain u where u: "hashed h s = Inr u" "arHash s = digest h u" using recordHash_hashed [OF v(5)] by (elim exE conjE)
  have "t = u" using snoc.prems(4) v(7) t u by (simp add: digests_differ_def ss digest_def)
  then have same: "same_hashed h r s" using json [OF t(1)] u(1) snoc.prems(5) by (simp add: ss)
  moreover have "digests_differ h rs ss'" by (rule digests_differ_mono [OF snoc.prems(4)]) (auto simp: ss)
  then have "list_all2 (same_record h) rs ss'"
    using snoc.IH [OF v(1,4)] v(3,6) same snoc.prems(5) by (simp add: same_hashed_def ss)
  moreover have "same_record h r s" using same v(7) by (simp add: same_record_def)
  ultimately show ?case by (simp add: ss list_all2_appendI)
qed

text \<open>
  C22. Exported evidence is verifiable and tamper evident. What \<open>ExportPrefix\<close> writes for an anchor of
  a ledger whose strings are ASCII is accepted by \<open>VerifyPrefix\<close>, with that anchor. And any other
  evidence that \<open>VerifyPrefix\<close> accepts with the same hash, whoever made it, has the same anchor and,
  record by record, the records of the ledger up to the anchor: the same sequence, hashes, identifiers
  and time, and a payload that is the same JSON, written perhaps with other blanks; unless SHA-256
  collides on the texts hashed. The hypotheses on \<open>encoding/json\<close> are that such records are decoded as
  they were encoded, and that a text to be hashed determines its record up to the writing of the payload.
\<close>

theorem prefix_evidence:
  assumes good: "ledger_good h l" and export: "ExportPrefix h a l = Inr (raw, d)"
    and plain: "list_all ascii_record (lcRecords (ldCache l))"
    and json: "\<And>p. prefix_json h p = Inr raw \<Longrightarrow> list_all (plain_record h) (pxRecords p) \<Longrightarrow> read_prefix h raw = Some p"
    and hash_json: "\<And>r s t. hashed h r = Inr t \<Longrightarrow> hashed h s = Inr t \<Longrightarrow> plain_record h s \<Longrightarrow> same_hashed h r s"
  shows "VerifyPrefix h raw = Inr a
    \<and> (\<forall>raw' a' p. VerifyPrefix h raw' = Inr a' \<and> anHash a' = anHash a \<and> read_prefix h raw' = Some p
         \<and> digests_differ h (pxRecords p) (lcRecords (ldCache l))
         \<longrightarrow> a' = a \<and> list_all2 (same_record h) (pxRecords p) (take (unat (anLedgerSequence a)) (lcRecords (ldCache l))))"
proof -
  let ?rs = "lcRecords (ldCache l)"
  obtain i where i: "i < length ?rs" "anLedgerSequence a = of_nat (Suc i)" "unat (anLedgerSequence a) = Suc i"
    "a = record_anchor (?rs ! i)" "prefix_json h \<lparr>pxFormatVersion = 1, pxAnchor = a, pxRecords = take (Suc i) ?rs\<rparr> = Inr raw"
    using ExportPrefix_anchor [OF good export] .
  have v: "verifyRecords h (take (Suc i) ?rs) = Inr ()" by (rule verify_take [OF good_records(1) [OF good]])
  have last: "last (take (Suc i) ?rs) = ?rs ! i" using i(1) by (simp add: take_Suc_conv_app_nth)
  have len: "length (take (Suc i) ?rs) = Suc i" "take (Suc i) ?rs \<noteq> []" using i(1) by auto
  have "plain_record h r" if "r \<in> set ?rs" for r
    using that plain good chain_canonical [of h ?rs r] by (simp add: plain_record_def list_all_iff ledger_good_def Let_def)
  then have pl: "list_all (plain_record h) (take (Suc i) ?rs)" by (auto simp: list_all_iff dest: in_set_takeD)
  let ?p = "\<lparr>pxFormatVersion = 1, pxAnchor = a, pxRecords = take (Suc i) ?rs\<rparr>"
  have "read_prefix h raw = Some ?p" by (rule json [OF i(5)]) (use pl in simp)
  then have "VerifyPrefix h raw = Inr a"
    unfolding VerifyPrefix_ok by (intro exI [of _ ?p]) (use v last len i(2,4) in \<open>simp add: record_anchor_def\<close>)
  moreover have "a' = a \<and> list_all2 (same_record h) (pxRecords p) (take (unat (anLedgerSequence a)) ?rs)"
    if h: "VerifyPrefix h raw' = Inr a'" "anHash a' = anHash a" "read_prefix h raw' = Some p" "digests_differ h (pxRecords p) ?rs"
    for raw' a' p
  proof -
    have p: "pxAnchor p = a'" "anLedgerSequence a' = of_nat (length (pxRecords p))" "verifyRecords h (pxRecords p) = Inr ()" "pxRecords p \<noteq> []"
      "anHash a' = arHash (last (pxRecords p))" "anSourceEpoch a' = enSourceEpoch (arEnvelope (last (pxRecords p)))"
      "anSourceSequence a' = enSourceSequence (arEnvelope (last (pxRecords p)))"
      using h(1,3) by (auto simp: VerifyPrefix_ok)
    have ends: "last_hash (pxRecords p) = last_hash (take (Suc i) ?rs)"
      using p(4,5) h(2) i(1,4) by (simp add: last_hash_take) (simp add: last_hash_def record_anchor_def)
    have "digests_differ h (pxRecords p) (take (Suc i) ?rs)"
      by (rule digests_differ_mono [OF h(4)]) (auto dest: in_set_takeD)
    from verified_same [OF hash_json p(3) v ends this pl]
    have same: "list_all2 (same_record h) (pxRecords p) (take (Suc i) ?rs)" .
    note size = list_all2_lengthD [OF same, unfolded len(1)]
    have "same_record h (last (pxRecords p)) (?rs ! i)"
      using list_all2_nthD [OF same, of i] p(4) size i(1) by (simp add: last_conv_nth)
    then have "enSourceEpoch (arEnvelope (last (pxRecords p))) = enSourceEpoch (arEnvelope (?rs ! i))"
      "enSourceSequence (arEnvelope (last (pxRecords p))) = enSourceSequence (arEnvelope (?rs ! i))"
      by (auto simp: same_record_def same_hashed_def dest: arg_cong [of _ _ enSourceEpoch] arg_cong [of _ _ enSourceSequence])
    then have "a' = a" using p(2,5-7) h(2) i(2,4) size by (intro anchor.equality) (simp_all add: record_anchor_def)
    then show ?thesis using same i(3) by simp
  qed
  ultimately show ?thesis by blast
qed

lemma demo_good2: "ledger_good demo_codec demo_ledger2" and demo_open2: "ldOpen demo_ledger2"
  and demo_records2: "lcRecords (ldCache demo_ledger2) = demo_records"
proof -
  have "appended demo_codec [demo_envelope ''a'' 1, demo_envelope ''b'' 2] demo_ledger demo_ledger2 demo_results"
    using appendBatch_effect [OF demo_laws demo_good demo_append] by simp
  then show "ledger_good demo_codec demo_ledger2" "ldOpen demo_ledger2" "lcRecords (ldCache demo_ledger2) = demo_records"
    by (simp_all add: appended_def demo_results_def demo_ledger_def empty_cache_def comp_def)
qed

lemma demo_no_collision: "no_collision demo_codec demo_records demo_records"
  by (simp add: no_collision_def demo_records_def recordHash_def demo_codec_def digest_def demo_envelope_def)

lemma demo_hashed:
  assumes "hashed demo_codec r = Inr t" "hashed demo_codec s = Inr t" "plain_record demo_codec s"
  shows "same_hashed demo_codec r s"
proof -
  have "no_blanks (enPayload (arEnvelope s)) = enPayload (arEnvelope s)"
    using assms(3) by (simp add: plain_record_def demo_codec_def canonicalJSON_def)
  then have "(arEnvelope s)\<lparr>enPayload := no_blanks (enPayload (arEnvelope s))\<rparr> = arEnvelope s" by simp
  then have "(arLedgerSequence r, arPreviousHash r, (arEnvelope r)\<lparr>enPayload := no_blanks (enPayload (arEnvelope r))\<rparr>)
      = (arLedgerSequence s, arPreviousHash s, arEnvelope s)"
    using assms(1,2) by (auto simp: hashed_def demo_codec_def Let_def split: if_splits)
  then have same: "arLedgerSequence r = arLedgerSequence s" "arPreviousHash r = arPreviousHash s"
    "(arEnvelope r)\<lparr>enPayload := no_blanks (enPayload (arEnvelope r))\<rparr> = arEnvelope s" by simp_all
  from arg_cong [OF this(3), of enPayload] have "no_blanks (enPayload (arEnvelope r)) = enPayload (arEnvelope s)" by simp
  then show ?thesis using same by (simp add: same_hashed_def demo_codec_def canonicalJSON_def)
qed

theorem prefix_evidence_witness:
  "VerifyPrefix demo_codec ''prefix'' = Inr (record_anchor (demo_records ! 0))
   \<and> VerifyPrefix demo_codec ''copy'' = Inr (record_anchor (demo_records ! 0)) \<and> pxRecords demo_copy \<noteq> pxRecords demo_prefix
   \<and> list_all2 (same_record demo_codec) (pxRecords demo_copy)
       (take (unat (anLedgerSequence (record_anchor (demo_records ! 0)))) (lcRecords (ldCache demo_ledger2)))"
proof -
  let ?a = "record_anchor (demo_records ! 0)"
  have e: "ExportPrefix demo_codec ?a demo_ledger2 = Inr (''prefix'', ''sha256:prefix'')"
    unfolding ExportPrefix_def demo_records2 by code_simp
  have p: "list_all ascii_record (lcRecords (ldCache demo_ledger2))" unfolding demo_records2 by code_simp
  have j: "prefix_json demo_codec p = Inr ''prefix'' \<Longrightarrow> read_prefix demo_codec ''prefix'' = Some p" for p
    by (simp add: demo_codec_def split: if_splits)
  have v: "VerifyPrefix demo_codec ''copy'' = Inr ?a" "read_prefix demo_codec ''copy'' = Some demo_copy"
    "pxRecords demo_copy \<noteq> pxRecords demo_prefix" by code_simp+
  have n: "digests_differ demo_codec (pxRecords demo_copy) (lcRecords (ldCache demo_ledger2))"
    by (simp add: digests_differ_def demo_codec_def)
  note evidence = prefix_evidence [OF demo_good2 e p]
  have "VerifyPrefix demo_codec ''prefix'' = Inr ?a"
    by (rule evidence [THEN conjunct1]) (erule j, erule (2) demo_hashed)
  moreover have "list_all2 (same_record demo_codec) (pxRecords demo_copy)
      (take (unat (anLedgerSequence ?a)) (lcRecords (ldCache demo_ledger2)))"
    by (rule evidence [THEN conjunct2, rule_format, THEN conjunct2]) (erule j, erule (2) demo_hashed, use v n in blast)
  ultimately show ?thesis using v by blast
qed


text \<open>
  C23. Reading with verification never returns altered history. On the ledger's own table
  \<open>VerifiedRecords\<close> returns the records; after any change of the table behind the ledger's back (rows
  edited, removed, reordered, appended, a whole chain rebuilt with fresh hashes) it returns an error or
  the original records, unless the altered rows collide with them in SHA-256.
\<close>

theorem verified_records_authentic:
  assumes good: "ledger_good h l" and is_open: "ldOpen l"
  shows "VerifiedRecords h None None l = Inr (lcRecords (ldCache l))
    \<and> (\<forall>t ctx fault rs. VerifiedRecords h ctx fault (l\<lparr>ldTable := t\<rparr>) = Inr rs \<and> no_collision h rs (lcRecords (ldCache l))
         \<longrightarrow> rs = lcRecords (ldCache l))"
proof -
  let ?rs = "lcRecords (ldCache l)"
  have "readRecords h None (ldTable l) = Inr ?rs"
    using good table_sorted [of h ?rs] chain_reads [of h ?rs] by (simp add: readRecords_def ledger_good_def Let_def)
  then have "VerifiedRecords h None None l = Inr ?rs"
    using is_open good_records(1) [OF good] by (simp add: VerifiedRecords_def)
  moreover have "rs = ?rs" if v: "VerifiedRecords h ctx fault (l\<lparr>ldTable := t\<rparr>) = Inr rs" and n: "no_collision h rs ?rs" for t ctx fault rs
  proof -
    have rs: "verifyRecords h rs = Inr ()" "length rs = length ?rs" "map arHash rs = map arHash ?rs"
      using v by (auto simp: VerifiedRecords_def split: option.splits if_splits sum.splits)
    have "last_hash rs = last_hash ?rs" using rs(2,3) by (metis last_hash_def last_map length_0_conv)
    then show ?thesis using verified_unique [OF rs(1) good_records(1) [OF good] _ n] by blast
  qed
  ultimately show ?thesis by blast
qed

theorem verified_records_authentic_witness:
  "VerifiedRecords demo_codec None None demo_ledger2 = Inr demo_records
   \<and> VerifiedRecords demo_codec None None (demo_ledger2\<lparr>ldTable := rev (ldTable demo_ledger2)\<rparr>) = Inr demo_records
   \<and> VerifiedRecords demo_codec None None (demo_ledger2\<lparr>ldTable := []\<rparr>) = Inl (chain_corrupt ''durable record count changed'')"
proof -
  have t: "ldTable demo_ledger2 = map row_of demo_records" using demo_good2 by (simp add: ledger_good_def Let_def demo_records2)
  have "sort_key fst (map row_of demo_records) = map row_of demo_records" "sort_key fst (rev (map row_of demo_records)) = map row_of demo_records"
    by (simp_all add: demo_records_def row_of_def Let_def)
  then have same: "VerifiedRecords demo_codec None None (demo_ledger2\<lparr>ldTable := rev (ldTable demo_ledger2)\<rparr>) = VerifiedRecords demo_codec None None demo_ledger2"
    by (simp add: VerifiedRecords_def readRecords_def t split: sum.split)
  have "VerifiedRecords demo_codec None None (demo_ledger2\<lparr>ldTable := []\<rparr>) = Inl (chain_corrupt ''durable record count changed'')"
    using demo_open2 by (simp add: VerifiedRecords_def readRecords_def verifyRecords_def demo_records2) (simp add: demo_records_def)
  then show ?thesis using verified_records_authentic [OF demo_good2 demo_open2] same by (simp add: demo_records2)
qed

section \<open>The drain\<close>

text \<open>
  C24. Draining the outbox ends and loses nothing. \<open>DrainOutbox\<close> returns after at most as many turns as
  there are pending rows, plus one, whatever faults and cancellations each turn meets. Whether it
  returns success or an error, the ledger is a verified chain that extends the old one, no outbox row
  is changed except from pending to drained, and every row that was drained has its event in the
  ledger; and on success no row is pending.
\<close>

theorem drain_outbox:
  assumes "json_laws h" "ledger_good h l" "length (filter obPending rows) < length tus"
  shows "\<exists>l' rows' rep r. DrainOutbox h k tus l rows = Some (l', rows', rep, r)
    \<and> ledger_good h l' \<and> (\<exists>new. lcRecords (ldCache l') = lcRecords (ldCache l) @ new)
    \<and> list_all2 (drained_into ((enEventID \<circ> arEnvelope) ` set (lcRecords (ldCache l')))) rows rows'
    \<and> (r = Inr () \<longrightarrow> filter obPending rows' = [])"
proof -
  obtain l' rows' rep r where x: "DrainOutbox h k tus l rows = Some (l', rows', rep, r)"
    using drain_loop_returns [OF assms, of k empty_report] by (auto simp: DrainOutbox_def)
  have "drain_safe h l rows l' rows' \<and> (r = Inr () \<longrightarrow> filter obPending rows' = [])"
    using drain_loop_safe [OF assms(1,2)] x unfolding DrainOutbox_def .
  with x show ?thesis unfolding drain_safe_def by blast
qed

definition demo_rows :: "outbox_row list" where
  "demo_rows = [\<lparr>obEventID = ''b'', obSourceEpoch = ''epoch'', obSourceSequence = 2, obMutationIdentity = ''m'',
       obPayloadHash = ''sha256:p'', obPayload = ''p'', obOccurredAt = Some 5, obPending = True\<rparr>,
     \<lparr>obEventID = ''a'', obSourceEpoch = ''epoch'', obSourceSequence = 1, obMutationIdentity = ''m'',
       obPayloadHash = ''sha256:p'', obPayload = ''p'', obOccurredAt = Some 5, obPending = True\<rparr>]"

definition demo_turn :: turn where
  "demo_turn = \<lparr>tuPending = None, tuContext = None, tuAppend = demo_env, tuAckContext = (\<lambda>_. None), tuAck = (\<lambda>_. None)\<rparr>"

theorem drain_outbox_witness:
  "case DrainOutbox demo_codec 1 [demo_turn, demo_turn, demo_turn] demo_ledger demo_rows of None \<Rightarrow> False
   | Some (l', rows', rep, r) \<Rightarrow> ledger_good demo_codec l' \<and> filter obPending rows' = [] \<and> lcRecords (ldCache l') = demo_records"
proof -
  have n: "length (filter obPending demo_rows) < length [demo_turn, demo_turn, demo_turn]" by code_simp
  have c: "map_option (\<lambda>x. (lcRecords (ldCache (fst x)), snd (snd (snd x)))) (DrainOutbox demo_codec 1 [demo_turn, demo_turn, demo_turn] demo_ledger demo_rows) = Some (demo_records, Inr ())"
    by code_simp
  show ?thesis using drain_outbox [OF demo_laws demo_good n, of 1] c by auto
qed

end
