(* ===== verification/Dependency_Order.thy ===== *)
theory Dependency_Order
  imports VT_Prelude
begin

text \<open>
  Dependency orders: what the planners of formulas and of computed fields share. \<open>needs x\<close> is the set of
  things \<open>x\<close> depends on. A list is in dependency order when everything needed comes earlier; a set is
  stuck when each of its members needs another of them.
\<close>

definition dependency_edges :: "('a \<Rightarrow> 'a set) \<Rightarrow> ('a \<times> 'a) set" where
  "dependency_edges needs = {(d, x). d \<in> needs x}"

definition dependency_ordered :: "('a \<Rightarrow> 'a set) \<Rightarrow> 'a list \<Rightarrow> bool" where
  "dependency_ordered needs xs \<longleftrightarrow> distinct xs \<and> (\<forall>i < length xs. needs (xs ! i) \<subseteq> set (take i xs))"

lemma edge_iff [simp]: "(d, x) \<in> dependency_edges needs \<longleftrightarrow> d \<in> needs x"
  by (simp add: dependency_edges_def)

lemma ordered_Nil [simp]: "dependency_ordered needs []"
  by (simp add: dependency_ordered_def)

lemma ordered_snoc [simp]:
  "dependency_ordered needs (xs @ [x]) \<longleftrightarrow> dependency_ordered needs xs \<and> x \<notin> set xs \<and> needs x \<subseteq> set xs"
  by (auto simp: dependency_ordered_def nth_append less_Suc_eq)

text \<open>What an ordered list depends on, directly or not, is in the list, strictly before.\<close>

lemma ordered_closed:
  assumes "dependency_ordered needs xs" "(y, x) \<in> (dependency_edges needs)\<^sup>*" "x \<in> set xs"
  shows "y \<in> set xs"
  using assms(2,3)
proof (induction rule: converse_rtrancl_induct)
  case (step y z)
  then obtain i where "i < length xs" "xs ! i = z" by (auto simp: in_set_conv_nth)
  then have "needs z \<subseteq> set (take i xs)" using assms(1) by (auto simp: dependency_ordered_def)
  then show ?case using step(1) by (auto dest: in_set_takeD)
qed

lemma ordered_needs: "dependency_ordered needs xs \<Longrightarrow> x \<in> set xs \<Longrightarrow> needs x \<subseteq> set xs"
  using ordered_closed [of needs xs _ x] by (meson edge_iff r_into_rtrancl subsetI)

lemma ordered_before:
  assumes ord: "dependency_ordered needs xs" and yx: "(y, x) \<in> (dependency_edges needs)\<^sup>+"
  shows "\<lbrakk>j < length xs; xs ! j = x\<rbrakk> \<Longrightarrow> \<exists>i < j. xs ! i = y"
  using yx
proof (induction arbitrary: j rule: trancl_induct)
  case (base x)
  then have "y \<in> set (take j xs)" using ord by (auto simp: dependency_ordered_def)
  then show ?case by (auto simp: in_set_conv_nth)
next
  case (step z x)
  then have "z \<in> set (take j xs)" using ord by (auto simp: dependency_ordered_def)
  then obtain k where "k < j" "k < length xs" "xs ! k = z" by (auto simp: in_set_conv_nth)
  then show ?case using step.IH [of k] by (meson less_trans)
qed

lemma ordered_no_cycle:
  assumes "dependency_ordered needs xs" "x \<in> set xs"
  shows "(x, x) \<notin> (dependency_edges needs)\<^sup>+"
proof
  assume cycle: "(x, x) \<in> (dependency_edges needs)\<^sup>+"
  obtain j where j: "j < length xs" "xs ! j = x" using assms(2) by (auto simp: in_set_conv_nth)
  then obtain i where "i < j" "xs ! i = x" using ordered_before [OF assms(1) cycle] by blast
  then show False using j assms(1) by (auto simp: dependency_ordered_def distinct_conv_nth)
qed

text \<open>In a finite set where each member needs another member, every member depends on a cycle.\<close>

lemma stuck_has_cycle:
  assumes fin: "finite S" and stuck: "\<And>x. x \<in> S \<Longrightarrow> \<exists>d \<in> S. d \<in> needs x" and x: "x \<in> S"
  shows "\<exists>y \<in> S. (y, y) \<in> (dependency_edges needs)\<^sup>+ \<and> (y, x) \<in> (dependency_edges needs)\<^sup>*"
proof (rule ccontr)
  assume none: "\<not> ?thesis"
  define T where "T = {y \<in> S. (y, x) \<in> (dependency_edges needs)\<^sup>*}"
  define r where "r = dependency_edges needs \<inter> T \<times> T"
  have "finite r" using fin by (simp add: r_def T_def)
  moreover have "acyclic r"
  proof (rule acyclicI, rule allI)
    fix y show "(y, y) \<notin> r\<^sup>+"
    proof
      assume c: "(y, y) \<in> r\<^sup>+"
      then have "(y, y) \<in> (dependency_edges needs)\<^sup>+" by (rule trancl_mono) (auto simp: r_def)
      moreover have "y \<in> T" using c by (auto simp: r_def dest: tranclD)
      ultimately show False using none by (auto simp: T_def)
    qed
  qed
  ultimately have "wf r" by (rule finite_acyclic_wf)
  moreover have "x \<in> T" using x by (simp add: T_def)
  ultimately obtain z where z: "z \<in> T" "\<And>d. (d, z) \<in> r \<Longrightarrow> d \<notin> T" by (auto elim: wfE_min)
  then obtain d where "d \<in> S" "d \<in> needs z" using stuck by (auto simp: T_def)
  moreover have "(d, x) \<in> (dependency_edges needs)\<^sup>*"
    using z(1) calculation(2) by (auto simp: T_def intro: converse_rtrancl_into_rtrancl)
  ultimately show False using z by (auto simp: T_def r_def)
qed

end
