(* ===== verification/Formula_Plan.thy ===== *)
theory Formula_Plan
  imports Dependency_Order
begin

text \<open>
  Formula plans (\<open>sidecar/internal/formula/plan.go\<close>): the order in which the formulas of a table are
  evaluated, the formulas affected by a change, and the evaluation of a row.

  The compiler and the program of a formula are CEL (a package the repository only calls) and are
  arguments here, as is the normalisation of values. Two iterations over Go maps, whose order is not
  specified, are over lists in the model: the entries of a row are given in the order they are visited,
  and the identifiers in a cycle error are sorted by the code anyway.
\<close>

section \<open>Data\<close>

text \<open>The parts of the schema contract the planners read: fields with their relation and lookup
  specifications, and tables with the schemas of the collections their formulas use.\<close>

record lookup_rule =
  luSourceFieldID :: string
  luOperandField :: "string option"

record lookup_condition =
  lcSourceTableID :: string
  lcRules :: "lookup_rule list"

record lookup_spec =
  lsPath :: "string list"
  lsTargetFieldID :: string
  lsCondition :: "lookup_condition option"

record field_definition =
  fdFieldID :: string
  fdPhysicalName :: string
  fdLogicalType :: string
  fdState :: string
  fdFormula :: "string option"
  fdRelation :: "string option"
  fdLookup :: "lookup_spec option"

record schema_snapshot =
  ssTableID :: string
  ssFields :: "field_definition list"

record exec_table =
  etSnapshot :: schema_snapshot
  etFormulaSources :: "(string \<times> schema_snapshot) list"

definition LogicalRelation :: string where "LogicalRelation = ''relation''"
definition LogicalFormula :: string where "LogicalFormula = ''formula''"
definition LogicalLookup :: string where "LogicalLookup = ''lookup''"
definition LifecycleRetired :: string where "LifecycleRetired = ''retired''"

text \<open>\<open>Table.Field\<close>: a field by identifier or physical name.\<close>

definition snapshot_field :: "schema_snapshot \<Rightarrow> string \<Rightarrow> field_definition option" where
  "snapshot_field s identity = find (\<lambda>f. fdFieldID f = identity \<or> fdPhysicalName f = identity) (ssFields s)"

abbreviation table_id :: "exec_table \<Rightarrow> string" where
  "table_id t \<equiv> ssTableID (etSnapshot t)"

abbreviation table_field :: "exec_table \<Rightarrow> string \<Rightarrow> field_definition option" where
  "table_field t \<equiv> snapshot_field (etSnapshot t)"

text \<open>\<open>CollectionDependency\<close>, \<open>CompiledFormula\<close> (without its program) and \<open>formula.Error\<close> with its details.\<close>

record collection_dependency =
  cdTableID :: string
  cdFieldID :: string
  cdRelationFieldID :: string

record compiled =
  cfFieldID :: string
  cfPhysicalName :: string
  cfDependencies :: "string list"
  cfDependencyNames :: "string list"
  cfReferencePaths :: "string list"
  cfRelationAggregatePaths :: "string list"
  cfCollectionDependencies :: "collection_dependency list"

datatype formula_error = FormulaError string string "(string \<times> string list) list"

section \<open>Topological order\<close>

definition byID :: "compiled list \<Rightarrow> string \<Rightarrow> compiled option" where
  "byID fs i = find (\<lambda>f. cfFieldID f = i) (rev fs)"

definition is_formula :: "compiled list \<Rightarrow> string \<Rightarrow> bool" where
  "is_formula fs i \<longleftrightarrow> byID fs i \<noteq> None"

definition indegrees :: "compiled list \<Rightarrow> string \<Rightarrow> int" where
  "indegrees fs = fold (\<lambda>f. fold (\<lambda>d m. if is_formula fs d then m(cfFieldID f := m (cfFieldID f) + 1) else m)
     (cfDependencies f)) fs (\<lambda>_. 0)"

definition dependents :: "compiled list \<Rightarrow> string \<Rightarrow> string list" where
  "dependents fs = fold (\<lambda>f. fold (\<lambda>d m. if is_formula fs d then m(d := m d @ [cfFieldID f]) else m)
     (cfDependencies f)) fs (\<lambda>_. [])"

text \<open>The inner loop: one less to wait for, and into the queue when nothing is left.\<close>

fun release :: "string list \<Rightarrow> (string \<Rightarrow> int) \<Rightarrow> string list \<Rightarrow> (string \<Rightarrow> int) \<times> string list" where
  "release [] indegree queue = (indegree, queue)"
| "release (d # ds) indegree queue =
     (let indegree = indegree(d := indegree d - 1)
      in release ds indegree (if indegree d = 0 then sort (queue @ [d]) else queue))"

lemma find_None: "find P xs = None \<longleftrightarrow> \<not> (\<exists>x \<in> set xs. P x)"
  by (induction xs) auto

lemma is_formula_iff: "is_formula fs i \<longleftrightarrow> i \<in> cfFieldID ` set fs"
  by (auto simp: is_formula_def byID_def find_None)

lemma inner_dependents:
  "fold (\<lambda>d m. if P d then m(d := m d @ [i]) else m) ds m x = m x @ replicate (length (filter (\<lambda>d. d = x \<and> P d) ds)) i"
  by (induction ds arbitrary: m) (auto simp: replicate_append_same)

lemma dependents_eq:
  "dependents fs x = concat (map (\<lambda>f. replicate (length (filter (\<lambda>d. d = x \<and> is_formula fs d) (cfDependencies f))) (cfFieldID f)) fs)"
proof -
  have "fold (\<lambda>f. fold (\<lambda>d m. if P d then m(d := m d @ [cfFieldID f]) else m) (cfDependencies f)) gs m x =
      m x @ concat (map (\<lambda>f. replicate (length (filter (\<lambda>d. d = x \<and> P d) (cfDependencies f))) (cfFieldID f)) gs)" for P gs m
    by (induction gs arbitrary: m) (simp_all add: inner_dependents)
  from this [of "is_formula fs" fs "\<lambda>_. []"] show ?thesis unfolding dependents_def by (simp only: append_Nil)
qed

lemma dependents_known: "set (dependents fs x) \<subseteq> cfFieldID ` set fs"
  by (auto simp: dependents_eq is_formula_iff)

text \<open>Each identifier that reaches zero leaves the set of waiting ones and enters the queue.\<close>

lemma release_measure:
  assumes "finite A" "set ds \<subseteq> A" "release ds ind q = (ind', q')"
  shows "length q' + card {x \<in> A. 0 < ind' x} = length q + card {x \<in> A. 0 < ind x}"
  using assms(2,3)
proof (induction ds arbitrary: ind q)
  case (Cons d ds)
  let ?ind = "ind(d := ind d - 1)"
  have step: "length q' + card {x \<in> A. 0 < ind' x} = length (if ?ind d = 0 then sort (q @ [d]) else q) + card {x \<in> A. 0 < ?ind x}"
    by (rule Cons.IH) (use Cons.prems in \<open>simp_all add: Let_def fun_upd_def\<close>)
  show ?case
  proof (cases "ind d = 1")
    case True
    then have "{x \<in> A. 0 < ind x} = insert d {x \<in> A. 0 < ?ind x}" using Cons.prems(1) by auto
    moreover have "d \<notin> {x \<in> A. 0 < ?ind x}" using True by simp
    ultimately have "card {x \<in> A. 0 < ind x} = Suc (card {x \<in> A. 0 < ?ind x})" using assms(1) by simp
    then show ?thesis using step True by simp
  next
    case False
    then have "{x \<in> A. 0 < ind x} = {x \<in> A. 0 < ?ind x}" by auto
    then show ?thesis using step False by simp
  qed
qed simp

function kahn :: "compiled list \<Rightarrow> string list \<Rightarrow> (string \<Rightarrow> int) \<Rightarrow> string list \<times> (string \<Rightarrow> int)" where
  "kahn fs [] indegree = ([], indegree)"
| "kahn fs (i # queue) indegree =
     (case release (dependents fs i) indegree queue of (indegree, queue) \<Rightarrow>
        (case kahn fs queue indegree of (ids, indegree) \<Rightarrow> (i # ids, indegree)))"
  by pat_completeness auto

termination
proof (relation "measure (\<lambda>(fs, q, ind). length q + card {x \<in> cfFieldID ` set fs. 0 < ind x})", goal_cases)
  case (2 fs i queue indegree indegree' queue')
  then show ?case using release_measure [OF _ dependents_known, of fs i indegree queue indegree' queue'] by simp
qed simp

definition topologicalOrder :: "compiled list \<Rightarrow> formula_error + compiled list" where
  "topologicalOrder fs =
     (let indegree = indegrees fs;
          queue = sort (filter (\<lambda>i. indegree i = 0) (map cfFieldID fs))
      in case kahn fs queue indegree of (ids, indegree) \<Rightarrow>
        let ordered = List.map_filter (byID fs) ids
        in if length ordered \<noteq> length fs
           then Inl (FormulaError ''formula.cycle'' ''formula dependency cycle detected''
                  [(''fieldIds'', sort (filter (\<lambda>i. 0 < indegree i) (remdups (map cfFieldID fs))))])
           else Inr ordered)"


section \<open>Plans\<close>

text \<open>The compiled formulas of a table in order, its fields by physical name and its field identifiers.\<close>

record plan =
  plFormulas :: "compiled list"
  plFields :: "string \<Rightarrow> field_definition option"
  plFieldIDs :: "string list"

fun compile_formulas :: "(exec_table \<Rightarrow> field_definition \<Rightarrow> formula_error + compiled) \<Rightarrow> exec_table \<Rightarrow> field_definition list
  \<Rightarrow> formula_error + compiled list" where
  "compile_formulas compile t [] = Inr []"
| "compile_formulas compile t (f # fs) =
     (if fdLogicalType f \<noteq> LogicalFormula then compile_formulas compile t fs
      else case compile t f of Inl e \<Rightarrow> Inl e
      | Inr c \<Rightarrow> (case compile_formulas compile t fs of Inl e \<Rightarrow> Inl e | Inr cs \<Rightarrow> Inr (c # cs)))"

definition compileExecutionTable :: "(exec_table \<Rightarrow> field_definition \<Rightarrow> formula_error + compiled) \<Rightarrow> exec_table
  \<Rightarrow> formula_error + plan" where
  "compileExecutionTable compile t =
     (case compile_formulas compile t (ssFields (etSnapshot t)) of Inl e \<Rightarrow> Inl e
      | Inr formulas \<Rightarrow>
          (case topologicalOrder formulas of Inl e \<Rightarrow> Inl e
           | Inr ordered \<Rightarrow> Inr \<lparr>plFormulas = ordered,
               plFields = fold (\<lambda>f m. m(fdPhysicalName f \<mapsto> f)) (ssFields (etSnapshot t)) (\<lambda>_. None),
               plFieldIDs = map fdFieldID (ssFields (etSnapshot t))\<rparr>))"

text \<open>\<open>impacted\<close>: \<^const>\<open>None\<close> stands for all formulas.\<close>

definition impacted_step :: "compiled \<Rightarrow> string list \<times> string list \<Rightarrow> string list \<times> string list" where
  "impacted_step f ci = (case ci of (changed, impacted) \<Rightarrow>
     if list_ex (\<lambda>d. d \<in> set changed) (cfDependencies f) then (cfFieldID f # changed, cfFieldID f # impacted) else ci)"

definition impacted :: "plan \<Rightarrow> string list \<Rightarrow> string list option" where
  "impacted p changedFieldIDs = (if changedFieldIDs = [] then None
     else Some (snd (fold impacted_step (plFormulas p) (changedFieldIDs, []))))"

text \<open>What evaluation uses of the context and of other packages: a cancelled context's reason, the
  fields a selective materialisation includes, the evaluation time, the normalisation of an input
  and the program of a formula.\<close>

record 'v runtime =
  rtCancelled :: "string option"
  rtIncludes :: "string \<Rightarrow> bool"
  rtTime :: 'v
  rtNormalizeInput :: "field_definition \<Rightarrow> 'v \<Rightarrow> formula_error + 'v"
  rtProgram :: "compiled \<Rightarrow> (string \<Rightarrow> 'v option) \<Rightarrow> formula_error + 'v"

definition clockActivationName :: string where
  "clockActivationName = ''@vibetable.evaluationTime''"

definition empty_field :: field_definition where
  "empty_field = \<lparr>fdFieldID = [], fdPhysicalName = [], fdLogicalType = [], fdState = [], fdFormula = None,
     fdRelation = None, fdLookup = None\<rparr>"

fun normalize_row :: "'v runtime \<Rightarrow> plan \<Rightarrow> (string \<times> 'v) list \<Rightarrow> (string \<Rightarrow> 'v option) \<Rightarrow> formula_error + (string \<Rightarrow> 'v option)" where
  "normalize_row rt p [] activation = Inr activation"
| "normalize_row rt p ((key, v) # row) activation =
     (case plFields p key of
        None \<Rightarrow> Inl (FormulaError ''formula.dependency'' ''formula input references an unknown field'' [(''field'', [key])])
      | Some field \<Rightarrow>
          (case rtNormalizeInput rt field v of Inl e \<Rightarrow> Inl e
           | Inr normalized \<Rightarrow> normalize_row rt p row (activation(key \<mapsto> normalized))))"

fun identified :: "string \<Rightarrow> formula_error \<Rightarrow> formula_error" where
  "identified fieldID (FormulaError code message details) =
     FormulaError code message
       (if list_ex (\<lambda>d. fst d = ''evaluationFieldId'') details then details else details @ [(''evaluationFieldId'', [fieldID])])"

fun evaluate_formulas :: "'v runtime \<Rightarrow> plan \<Rightarrow> string list option \<Rightarrow> compiled list \<Rightarrow> (string \<Rightarrow> 'v option) \<Rightarrow> (string \<times> 'v) list
  \<Rightarrow> formula_error + (string \<times> 'v) list" where
  "evaluate_formulas rt p sel [] activation outputs = Inr outputs"
| "evaluate_formulas rt p sel (f # fs) activation outputs =
     (if \<not> rtIncludes rt (cfFieldID f) \<or> (case sel of None \<Rightarrow> False | Some is \<Rightarrow> cfFieldID f \<notin> set is)
      then evaluate_formulas rt p sel fs activation outputs
      else case rtProgram rt f activation of Inl e \<Rightarrow> Inl (identified (cfFieldID f) e)
      | Inr v \<Rightarrow>
          (case rtNormalizeInput rt (case plFields p (cfPhysicalName f) of None \<Rightarrow> empty_field | Some fd \<Rightarrow> fd) v of
             Inl e \<Rightarrow> Inl e
           | Inr input \<Rightarrow>
               evaluate_formulas rt p sel fs (activation(cfPhysicalName f \<mapsto> input)) (outputs @ [(cfPhysicalName f, v)])))"

definition Evaluate :: "'v runtime \<Rightarrow> plan \<Rightarrow> (string \<times> 'v) list \<Rightarrow> string list \<Rightarrow> formula_error + (string \<times> 'v) list" where
  "Evaluate rt p row changedFieldIDs =
     (case rtCancelled rt of
        Some reason \<Rightarrow> Inl (FormulaError ''formula.resource_limit'' ''formula evaluation was cancelled'' [(''reason'', [reason])])
      | None \<Rightarrow>
          (case normalize_row rt p row [clockActivationName \<mapsto> rtTime rt] of Inl e \<Rightarrow> Inl e
           | Inr activation \<Rightarrow>
               (case find (\<lambda>i. i \<notin> set (plFieldIDs p)) changedFieldIDs of
                  Some i \<Rightarrow> Inl (FormulaError ''formula.dependency'' ''changedFieldIds references an unknown field'' [(''fieldId'', [i])])
                | None \<Rightarrow> evaluate_formulas rt p (impacted p changedFieldIDs) (plFormulas p) activation [])))"

section \<open>The order is a dependency order\<close>

definition formula_needs :: "compiled list \<Rightarrow> string \<Rightarrow> string set" where
  "formula_needs fs x = {d \<in> cfFieldID ` set fs. \<exists>f \<in> set fs. cfFieldID f = x \<and> d \<in> set (cfDependencies f)}"

text \<open>How many dependencies of \<open>x\<close> are formulas outside \<open>R\<close>, counted as listed.\<close>

definition waiting :: "compiled list \<Rightarrow> string set \<Rightarrow> string \<Rightarrow> nat" where
  "waiting fs R x = (\<Sum>f \<leftarrow> fs. if cfFieldID f = x then length (filter (\<lambda>d. is_formula fs d \<and> d \<notin> R) (cfDependencies f)) else 0)"

lemma inner_indegrees:
  "fold (\<lambda>d m. if P d then m(i := m i + 1) else m) ds m x = m x + (if i = x then int (length (filter P ds)) else 0)"
  by (induction ds arbitrary: m) auto

lemma indegrees_eq: "indegrees fs x = int (waiting fs {} x)"
proof -
  have "fold (\<lambda>f. fold (\<lambda>d m. if P d then m(cfFieldID f := m (cfFieldID f) + 1) else m) (cfDependencies f)) gs m x =
      m x + int (\<Sum>f \<leftarrow> gs. if cfFieldID f = x then length (filter P (cfDependencies f)) else 0)" for P gs and m :: "string \<Rightarrow> int"
    by (induction gs arbitrary: m) (simp_all add: inner_indegrees)
  from this [of "is_formula fs" fs "\<lambda>_. 0"] show ?thesis by (simp add: indegrees_def waiting_def cong: if_cong)
qed

lemma count_list_replicate: "count_list (replicate n a) x = (if a = x then n else 0)"
  by (induction n) auto

lemma waiting_insert:
  assumes "i \<notin> R"
  shows "waiting fs R x = waiting fs (insert i R) x + count_list (dependents fs i) x"
proof -
  have split: "length (filter (\<lambda>d. P d \<and> d \<notin> R) ds) = length (filter (\<lambda>d. P d \<and> d \<notin> insert i R) ds) + length (filter (\<lambda>d. d = i \<and> P d) ds)" for P ds
    using assms by (induction ds) auto
  have "(\<Sum>f \<leftarrow> gs. if cfFieldID f = x then length (filter (\<lambda>d. P d \<and> d \<notin> R) (cfDependencies f)) else 0) =
      (\<Sum>f \<leftarrow> gs. if cfFieldID f = x then length (filter (\<lambda>d. P d \<and> d \<notin> insert i R) (cfDependencies f)) else 0)
      + count_list (concat (map (\<lambda>f. replicate (length (filter (\<lambda>d. d = i \<and> P d) (cfDependencies f))) (cfFieldID f)) gs)) x" for P gs
    by (induction gs) (simp_all add: split count_list_replicate)
  from this [of "is_formula fs" fs] show ?thesis by (simp only: waiting_def dependents_eq)
qed

lemma waiting_0: "waiting fs R x = 0 \<longleftrightarrow> formula_needs fs x \<subseteq> R"
proof -
  have "waiting fs R x = 0 \<longleftrightarrow> (\<forall>f \<in> set fs. cfFieldID f = x \<longrightarrow> (\<forall>d \<in> set (cfDependencies f). \<not> (is_formula fs d \<and> d \<notin> R)))"
    unfolding waiting_def sum_list_eq_0_iff by (simp add: ball_Un filter_empty_conv) (auto simp: filter_empty_conv)
  then show ?thesis by (auto simp: formula_needs_def is_formula_iff)
qed

lemma release_indegree: "fst (release ds ind q) x = ind x - int (count_list ds x)"
  by (induction ds arbitrary: ind q) (simp_all add: Let_def)

lemma release_queue: "x \<in> set (snd (release ds ind q)) \<longleftrightarrow> x \<in> set q \<or> 0 < ind x \<and> ind x \<le> int (count_list ds x)"
proof (induction ds arbitrary: ind q)
  case (Cons d ds)
  have "x \<in> set (snd (release (d # ds) ind q)) \<longleftrightarrow> x \<in> set q \<or> x = d \<and> ind d = 1
      \<or> 0 < (ind(d := ind d - 1)) x \<and> (ind(d := ind d - 1)) x \<le> int (count_list ds x)"
    by (auto simp add: Let_def Cons.IH)
  then show ?case by (cases "x = d") auto
qed auto

lemma release_distinct: "distinct q \<Longrightarrow> \<forall>x \<in> set q. ind x \<le> 0 \<Longrightarrow> distinct (snd (release ds ind q))"
proof (induction ds arbitrary: ind q)
  case (Cons d ds)
  let ?ind = "ind(d := ind d - 1)" and ?q = "if ind d = 1 then sort (q @ [d]) else q"
  have "ind d = 1 \<Longrightarrow> d \<notin> set q" using Cons.prems by force
  then have "distinct ?q" "\<forall>x \<in> set ?q. ?ind x \<le> 0" using Cons.prems by auto
  from Cons.IH [OF this] show ?case by (auto simp: Let_def fun_upd_def)
qed simp

definition kahn_inv :: "compiled list \<Rightarrow> string list \<Rightarrow> string list \<Rightarrow> (string \<Rightarrow> int) \<Rightarrow> bool" where
  "kahn_inv fs R Q ind \<longleftrightarrow> dependency_ordered (formula_needs fs) R \<and> set R \<subseteq> cfFieldID ` set fs
     \<and> ind = (\<lambda>x. int (waiting fs (set R) x)) \<and> distinct Q
     \<and> set Q = {x \<in> cfFieldID ` set fs. formula_needs fs x \<subseteq> set R} - set R"

lemma kahn_inv_step:
  assumes inv: "kahn_inv fs R (i # Q) ind" and rel: "release (dependents fs i) ind Q = (ind', Q')"
  shows "kahn_inv fs (R @ [i]) Q' ind'"
proof -
  have i: "i \<in> cfFieldID ` set fs" "formula_needs fs i \<subseteq> set R" "i \<notin> set R" "i \<notin> set Q" "distinct Q"
    using inv by (auto simp: kahn_inv_def)
  have Q: "set Q = {x \<in> cfFieldID ` set fs. formula_needs fs x \<subseteq> set R} - set R - {i}"
  proof -
    have "set (i # Q) = {x \<in> cfFieldID ` set fs. formula_needs fs x \<subseteq> set R} - set R" using inv unfolding kahn_inv_def by blast
    then show ?thesis using i(4) by auto
  qed
  have closed: "formula_needs fs x \<subseteq> set R" if "x \<in> set R" for x
  proof -
    have "dependency_ordered (formula_needs fs) R" using inv unfolding kahn_inv_def by blast
    then show ?thesis using that by (rule ordered_needs)
  qed
  have ind: "ind = (\<lambda>x. int (waiting fs (set R) x))" using inv by (simp add: kahn_inv_def)
  have w: "waiting fs (set R) x = waiting fs (set (R @ [i])) x + count_list (dependents fs i) x" for x
    using waiting_insert [OF i(3)] by simp
  have spec: "ind' = (\<lambda>x. ind x - int (count_list (dependents fs i) x))"
    "set Q' = set Q \<union> {x. 0 < ind x \<and> ind x \<le> int (count_list (dependents fs i) x)}"
    using release_indegree [of "dependents fs i" ind Q] release_queue [of _ "dependents fs i" ind Q] rel by auto
  have "ind' = (\<lambda>x. int (waiting fs (set (R @ [i])) x))" unfolding spec(1) ind by (simp only: w) simp
  moreover have new: "{x. 0 < ind x \<and> ind x \<le> int (count_list (dependents fs i) x)} =
      {x \<in> cfFieldID ` set fs. \<not> formula_needs fs x \<subseteq> set R \<and> formula_needs fs x \<subseteq> set (R @ [i])}" (is "?new = ?ready")
  proof (rule set_eqI)
    fix x
    have "x \<in> ?new \<longleftrightarrow> waiting fs (set R) x \<noteq> 0 \<and> waiting fs (set (R @ [i])) x = 0" unfolding ind by (simp only: w mem_Collect_eq) linarith
    also have "\<dots> \<longleftrightarrow> x \<in> ?ready" by (auto simp only: waiting_0) (auto simp: formula_needs_def)
    finally show "x \<in> ?new \<longleftrightarrow> x \<in> ?ready" .
  qed
  have "set Q' = {x \<in> cfFieldID ` set fs. formula_needs fs x \<subseteq> set (R @ [i])} - set (R @ [i])"
    unfolding spec(2) Q new using i(1-3) by (auto dest: closed [THEN subsetD])
  moreover have "distinct Q'"
    using release_distinct [OF i(5), of ind "dependents fs i"] rel by (simp add: Q ind waiting_0)
  ultimately show ?thesis using inv i by (simp add: kahn_inv_def)
qed

lemma kahn_correct:
  "kahn_inv fs R Q ind \<Longrightarrow> kahn fs Q ind = (S, ind') \<Longrightarrow> kahn_inv fs (R @ S) [] ind'"
proof (induction fs Q ind arbitrary: R S ind' rule: kahn.induct)
  case (2 fs i Q ind)
  obtain ind1 Q1 where rel: "release (dependents fs i) ind Q = (ind1, Q1)" by (cases "release (dependents fs i) ind Q")
  obtain S1 ind2 where k: "kahn fs Q1 ind1 = (S1, ind2)" by (cases "kahn fs Q1 ind1")
  have "kahn_inv fs ((R @ [i]) @ S1) [] ind2"
    using "2.IH" [OF rel [symmetric] kahn_inv_step [OF "2.prems"(1) rel] k] .
  then show ?case using "2.prems"(2) by (simp add: rel k)
qed simp

lemma byID_Some: "i \<in> cfFieldID ` set fs \<Longrightarrow> \<exists>f. byID fs i = Some f \<and> cfFieldID f = i \<and> f \<in> set fs"
  by (induction fs rule: rev_induct) (auto simp: byID_def)

lemma map_filter_byID:
  "set is \<subseteq> cfFieldID ` set fs \<Longrightarrow> map cfFieldID (List.map_filter (byID fs) is) = is \<and> set (List.map_filter (byID fs) is) \<subseteq> set fs"
proof (induction "is")
  case (Cons i "is")
  then obtain f where "byID fs i = Some f" "cfFieldID f = i" "f \<in> set fs" using byID_Some [of i fs] by auto
  then show ?case using Cons by (simp add: map_filter_simps)
qed (simp add: map_filter_simps)

lemma topologicalOrder_run:
  assumes "distinct (map cfFieldID fs)"
  obtains R where "dependency_ordered (formula_needs fs) R" "set R \<subseteq> cfFieldID ` set fs"
    "\<And>x. x \<in> cfFieldID ` set fs \<Longrightarrow> x \<in> set R \<longleftrightarrow> formula_needs fs x \<subseteq> set R"
    "topologicalOrder fs = (if length R \<noteq> length fs
       then Inl (FormulaError ''formula.cycle'' ''formula dependency cycle detected'' [(''fieldIds'', sort (filter (\<lambda>i. i \<notin> set R) (map cfFieldID fs)))])
       else Inr (List.map_filter (byID fs) R))"
proof -
  let ?queue = "sort (filter (\<lambda>i. indegrees fs i = 0) (map cfFieldID fs))"
  obtain R ind where k: "kahn fs ?queue (indegrees fs) = (R, ind)" by (cases "kahn fs ?queue (indegrees fs)")
  have "kahn_inv fs [] ?queue (indegrees fs)"
    using assms by (auto simp: kahn_inv_def fun_eq_iff indegrees_eq waiting_0)
  from kahn_correct [OF this k] have inv: "kahn_inv fs R [] ind" by simp
  have R: "dependency_ordered (formula_needs fs) R" "set R \<subseteq> cfFieldID ` set fs" "ind = (\<lambda>x. int (waiting fs (set R) x))"
    and sub: "{x \<in> cfFieldID ` set fs. formula_needs fs x \<subseteq> set R} \<subseteq> set R" using inv by (auto simp: kahn_inv_def)
  have iff: "x \<in> set R \<longleftrightarrow> formula_needs fs x \<subseteq> set R" if "x \<in> cfFieldID ` set fs" for x
    using that sub ordered_needs [OF R(1)] by blast
  have cyc: "filter (\<lambda>i. 0 < ind i) (remdups (map cfFieldID fs)) = filter (\<lambda>i. i \<notin> set R) (map cfFieldID fs)"
    unfolding distinct_remdups_id [OF assms] by (rule filter_cong [OF refl]) (auto simp: R(3) iff waiting_0 zero_less_iff_neq_zero)
  have "length (List.map_filter (byID fs) R) = length R"
    using map_filter_byID [OF R(2)] by (metis length_map)
  then show ?thesis using that [OF R(1,2) iff] by (simp add: topologicalOrder_def Let_def k cyc)
qed


lemma formula_needs_known: "formula_needs fs x \<subseteq> cfFieldID ` set fs" "d \<in> formula_needs fs x \<Longrightarrow> x \<in> cfFieldID ` set fs"
  by (auto simp: formula_needs_def)

text \<open>What stays behind is what is on a cycle or depends on one.\<close>

lemma left_behind:
  assumes ord: "dependency_ordered (formula_needs fs) R"
    and R: "\<And>x. x \<in> cfFieldID ` set fs \<Longrightarrow> x \<in> set R \<longleftrightarrow> formula_needs fs x \<subseteq> set R"
  shows "cfFieldID ` set fs - set R = {x \<in> cfFieldID ` set fs. \<exists>y. (y, y) \<in> (dependency_edges (formula_needs fs))\<^sup>+
    \<and> (y, x) \<in> (dependency_edges (formula_needs fs))\<^sup>*}" (is "?S = {x \<in> ?ids. ?cyclic x}")
proof (intro equalityI subsetI)
  fix x assume x: "x \<in> ?S"
  have stuck: "\<exists>d \<in> ?S. d \<in> formula_needs fs x" if "x \<in> ?S" for x
  proof -
    have "\<not> formula_needs fs x \<subseteq> set R" using that R [of x] by simp
    then obtain d where d: "d \<in> formula_needs fs x" "d \<notin> set R" by blast
    have "d \<in> ?S" by (rule DiffI [OF subsetD [OF formula_needs_known(1) d(1)] d(2)])
    then show ?thesis using d(1) by (rule rev_bexI)
  qed
  have "\<exists>y \<in> ?S. (y, y) \<in> (dependency_edges (formula_needs fs))\<^sup>+ \<and> (y, x) \<in> (dependency_edges (formula_needs fs))\<^sup>*"
    by (rule stuck_has_cycle [OF _ _ x]) (simp, rule stuck)
  then have "?cyclic x" by (rule bexE) (rule exI)
  with x show "x \<in> {x \<in> ?ids. ?cyclic x}" by simp
next
  fix x assume x: "x \<in> {x \<in> ?ids. ?cyclic x}"
  then have "?cyclic x" by simp
  then have "x \<notin> set R" using ordered_closed [OF ord] ordered_no_cycle [OF ord] by blast
  with x show "x \<in> ?S" by simp
qed

lemma ordered_acyclic:
  assumes "dependency_ordered (formula_needs fs) R" "set R = cfFieldID ` set fs"
  shows "acyclic (dependency_edges (formula_needs fs))"
proof (rule acyclicI, intro allI notI)
  fix x assume c: "(x, x) \<in> (dependency_edges (formula_needs fs))\<^sup>+"
  then obtain z where "z \<in> formula_needs fs x" by (meson edge_iff tranclD2)
  then have "x \<in> set R" using formula_needs_known(2) assms(2) by simp
  then show False using c ordered_no_cycle [OF assms(1)] by blast
qed

lemma same_formulas:
  assumes "distinct (map cfFieldID fs)" "set gs \<subseteq> set fs" "cfFieldID ` set gs = cfFieldID ` set fs"
  shows "set gs = set fs"
proof (intro equalityI subsetI)
  fix f assume f: "f \<in> set fs"
  then obtain g where "g \<in> set gs" "cfFieldID g = cfFieldID f" using assms(3) by (metis (no_types, lifting) image_iff)
  then show "f \<in> set gs" using assms(1,2) f by (auto simp: distinct_map dest: inj_onD)
qed (use assms(2) in blast)

lemma topological_order_holds:
  assumes distinct: "distinct (map cfFieldID fs)"
  shows "(case topologicalOrder fs of
      Inr ordered \<Rightarrow> acyclic (dependency_edges (formula_needs fs)) \<and> set ordered = set fs
        \<and> dependency_ordered (formula_needs fs) (map cfFieldID ordered)
    | Inl e \<Rightarrow> \<not> acyclic (dependency_edges (formula_needs fs)) \<and> (\<exists>is. e = FormulaError ''formula.cycle'' ''formula dependency cycle detected'' [(''fieldIds'', is)]
        \<and> set is = {x \<in> cfFieldID ` set fs. \<exists>y. (y, y) \<in> (dependency_edges (formula_needs fs))\<^sup>+ \<and> (y, x) \<in> (dependency_edges (formula_needs fs))\<^sup>*}))"
proof -
  let ?ids = "cfFieldID ` set fs" and ?E = "dependency_edges (formula_needs fs)"
  obtain R where R: "dependency_ordered (formula_needs fs) R" "set R \<subseteq> ?ids"
    "\<And>x. x \<in> ?ids \<Longrightarrow> x \<in> set R \<longleftrightarrow> formula_needs fs x \<subseteq> set R"
    and run: "topologicalOrder fs = (if length R \<noteq> length fs
       then Inl (FormulaError ''formula.cycle'' ''formula dependency cycle detected'' [(''fieldIds'', sort (filter (\<lambda>i. i \<notin> set R) (map cfFieldID fs)))])
       else Inr (List.map_filter (byID fs) R))"
    using topologicalOrder_run [OF distinct] by blast
  have card: "length R = length fs \<longleftrightarrow> set R = ?ids"
  proof -
    have c: "card (set R) = length R" "card ?ids = length fs" "distinct R"
      using R(1) distinct by (simp_all add: dependency_ordered_def distinct_card) (metis distinct_card length_map set_map)
    then show ?thesis using R(2) by (metis card_subset_eq finite_imageI List.finite_set)
  qed
  show ?thesis
  proof (cases "length R = length fs")
    case True
    let ?o = "List.map_filter (byID fs) R"
    have o: "map cfFieldID ?o = R" "set ?o \<subseteq> set fs" using map_filter_byID [OF R(2)] by blast+
    have "set ?o = set fs" using same_formulas [OF distinct o(2)] card True o(1) by (metis set_map)
    moreover have "acyclic ?E" using ordered_acyclic [OF R(1)] card True by blast
    ultimately show ?thesis using run True R(1) o(1) by simp
  next
    case False
    have S: "?ids - set R = {x \<in> ?ids. \<exists>y. (y, y) \<in> ?E\<^sup>+ \<and> (y, x) \<in> ?E\<^sup>*}"
      by (rule left_behind [OF R(1)]) (rule R(3))
    have "?ids - set R \<noteq> {}" using card False R(2) by blast
    then obtain x where "x \<in> ?ids - set R" by (meson ex_in_conv)
    then have "x \<in> {x \<in> ?ids. \<exists>y. (y, y) \<in> ?E\<^sup>+ \<and> (y, x) \<in> ?E\<^sup>*}" by (rule subsetD [OF equalityD1 [OF S]])
    then have "\<not> acyclic ?E" by (auto simp: acyclic_def)
    moreover have "set (sort (filter (\<lambda>i. i \<notin> set R) (map cfFieldID fs))) = ?ids - set R" by auto
    ultimately show ?thesis using run False S by simp
  qed
qed

text \<open>
  C25. The planner orders formulas exactly when it can. For formulas with distinct identifiers
  \<open>topologicalOrder\<close> succeeds if and only if their dependencies on each other have no cycle. When it
  succeeds the result is a rearrangement of the formulas in which every formula comes after all formulas
  it depends on; when it fails the error lists exactly the formulas that are on a cycle or depend on one.
\<close>

theorem topological_order:
  assumes distinct: "distinct (map cfFieldID fs)"
  shows "(case topologicalOrder fs of
      Inr ordered \<Rightarrow> acyclic (dependency_edges (formula_needs fs)) \<and> set ordered = set fs
        \<and> dependency_ordered (formula_needs fs) (map cfFieldID ordered)
    | Inl e \<Rightarrow> \<not> acyclic (dependency_edges (formula_needs fs)) \<and> (\<exists>is. e = FormulaError ''formula.cycle'' ''formula dependency cycle detected'' [(''fieldIds'', is)]
        \<and> set is = {x \<in> cfFieldID ` set fs. \<exists>y. (y, y) \<in> (dependency_edges (formula_needs fs))\<^sup>+ \<and> (y, x) \<in> (dependency_edges (formula_needs fs))\<^sup>*}))"
  by (rule topological_order_holds [OF distinct])


definition demo_formula :: "string \<Rightarrow> string list \<Rightarrow> compiled" where
  "demo_formula i ds = \<lparr>cfFieldID = i, cfPhysicalName = ''f_'' @ i, cfDependencies = ds, cfDependencyNames = map (\<lambda>d. ''f_'' @ d) ds,
     cfReferencePaths = [], cfRelationAggregatePaths = [], cfCollectionDependencies = []\<rparr>"

theorem topological_order_witness:
  "map cfFieldID (case topologicalOrder [demo_formula ''c'' [''a'', ''b''], demo_formula ''b'' [''a'', ''x''], demo_formula ''a'' [''x'']] of
      Inr fs \<Rightarrow> fs | Inl e \<Rightarrow> []) = [''a'', ''b'', ''c'']
   \<and> acyclic (dependency_edges (formula_needs [demo_formula ''c'' [''a'', ''b''], demo_formula ''b'' [''a'', ''x''], demo_formula ''a'' [''x'']]))
   \<and> \<not> acyclic (dependency_edges (formula_needs [demo_formula ''b'' [''a''], demo_formula ''a'' [''b''], demo_formula ''c'' [''a'']]))"
proof -
  have ok: "topologicalOrder [demo_formula ''c'' [''a'', ''b''], demo_formula ''b'' [''a'', ''x''], demo_formula ''a'' [''x'']] =
      Inr [demo_formula ''a'' [''x''], demo_formula ''b'' [''a'', ''x''], demo_formula ''c'' [''a'', ''b'']]" by code_simp
  have cyc: "topologicalOrder [demo_formula ''b'' [''a''], demo_formula ''a'' [''b''], demo_formula ''c'' [''a'']] =
      Inl (FormulaError ''formula.cycle'' ''formula dependency cycle detected'' [(''fieldIds'', [''a'', ''b'', ''c''])])" by code_simp
  have "distinct (map cfFieldID [demo_formula ''c'' [''a'', ''b''], demo_formula ''b'' [''a'', ''x''], demo_formula ''a'' [''x'']])"
    "distinct (map cfFieldID [demo_formula ''b'' [''a''], demo_formula ''a'' [''b''], demo_formula ''c'' [''a'']])"
    by (simp_all add: demo_formula_def)
  from topological_order [OF this(1)] topological_order [OF this(2)] show ?thesis
    unfolding ok cyc by (simp add: demo_formula_def)
qed

section \<open>Incremental evaluation\<close>

text \<open>No formula depends on itself or on a later one.\<close>

definition formulas_ordered :: "compiled list \<Rightarrow> bool" where
  "formulas_ordered fs \<longleftrightarrow> distinct (map cfFieldID fs)
     \<and> (\<forall>k < length fs. \<forall>j \<le> k. cfFieldID (fs ! k) \<notin> set (cfDependencies (fs ! j)))"

lemma formulas_ordered_Nil [simp]: "formulas_ordered []"
  by (simp add: formulas_ordered_def)

lemma formulas_ordered_snoc [simp]:
  "formulas_ordered (fs @ [g]) \<longleftrightarrow> formulas_ordered fs \<and> cfFieldID g \<notin> cfFieldID ` set fs
     \<and> cfFieldID g \<notin> set (cfDependencies g) \<and> (\<forall>f \<in> set fs. cfFieldID g \<notin> set (cfDependencies f))"
proof -
  have "(\<forall>k < length (fs @ [g]). \<forall>j \<le> k. cfFieldID ((fs @ [g]) ! k) \<notin> set (cfDependencies ((fs @ [g]) ! j)))
      \<longleftrightarrow> (\<forall>k < length fs. \<forall>j \<le> k. cfFieldID (fs ! k) \<notin> set (cfDependencies (fs ! j)))
        \<and> (\<forall>j \<le> length fs. cfFieldID g \<notin> set (cfDependencies ((fs @ [g]) ! j)))"
    by (auto simp: nth_append less_Suc_eq)
  moreover have "(\<forall>j \<le> length fs. cfFieldID g \<notin> set (cfDependencies ((fs @ [g]) ! j)))
      \<longleftrightarrow> cfFieldID g \<notin> set (cfDependencies g) \<and> (\<forall>f \<in> set fs. cfFieldID g \<notin> set (cfDependencies f))"
    by (auto simp: nth_append all_set_conv_all_nth le_less)
  ultimately show ?thesis by (auto simp: formulas_ordered_def)
qed

lemma topological_formulas_ordered:
  assumes distinct: "distinct (map cfFieldID fs)" and top: "topologicalOrder fs = Inr gs"
  shows "formulas_ordered gs \<and> set gs = set fs"
proof -
  have s: "set gs = set fs" and ord: "dependency_ordered (formula_needs fs) (map cfFieldID gs)"
    using topological_order_holds [OF distinct] top by auto
  have "cfFieldID (gs ! k) \<notin> set (cfDependencies (gs ! j))" if k: "k < length gs" "j \<le> k" for k j
  proof
    assume d: "cfFieldID (gs ! k) \<in> set (cfDependencies (gs ! j))"
    have "gs ! k \<in> set fs" "gs ! j \<in> set fs" using k s by (metis nth_mem, metis nth_mem le_less_trans)
    then have "cfFieldID (gs ! k) \<in> formula_needs fs (cfFieldID (gs ! j))" using d by (auto simp: formula_needs_def)
    moreover have "formula_needs fs (cfFieldID (gs ! j)) \<subseteq> set (take j (map cfFieldID gs))"
      using ord le_less_trans [OF k(2,1)] by (simp add: dependency_ordered_def)
    ultimately have "cfFieldID (gs ! k) \<in> set (take j (map cfFieldID gs))" by blast
    then obtain i where "i < j" "cfFieldID (gs ! i) = cfFieldID (gs ! k)" using k by (auto simp: in_set_conv_nth)
    then show False using ord k by (auto simp: dependency_ordered_def distinct_conv_nth)
  qed
  then show ?thesis using s ord by (simp add: formulas_ordered_def dependency_ordered_def)
qed

text \<open>A formula is impacted exactly when something it depends on has changed or is impacted.\<close>

definition impacted_set :: "compiled list \<Rightarrow> string list \<Rightarrow> string set" where
  "impacted_set fs changed = set (snd (fold impacted_step fs (changed, [])))"

lemma impacted_fold:
  assumes "formulas_ordered fs" "fold impacted_step fs (changed, []) = (ch, im)"
  shows "set ch = set changed \<union> set im \<and> set im \<subseteq> cfFieldID ` set fs
    \<and> (\<forall>f \<in> set fs. cfFieldID f \<in> set im \<longleftrightarrow> (\<exists>d \<in> set (cfDependencies f). d \<in> set changed \<union> set im))"
  using assms
proof (induction fs arbitrary: ch im rule: rev_induct)
  case (snoc g fs)
  obtain ch0 im0 where f0: "fold impacted_step fs (changed, []) = (ch0, im0)" by (cases "fold impacted_step fs (changed, [])")
  have IH: "set ch0 = set changed \<union> set im0" "set im0 \<subseteq> cfFieldID ` set fs"
    "\<And>f. f \<in> set fs \<Longrightarrow> cfFieldID f \<in> set im0 \<longleftrightarrow> (\<exists>d \<in> set (cfDependencies f). d \<in> set changed \<union> set im0)"
    using snoc.IH [OF _ f0] snoc.prems(1) by auto
  have g: "cfFieldID g \<notin> cfFieldID ` set fs" "cfFieldID g \<notin> set (cfDependencies g)" "\<And>f. f \<in> set fs \<Longrightarrow> cfFieldID g \<notin> set (cfDependencies f)"
    using snoc.prems(1) by auto
  let ?hit = "\<exists>d \<in> set (cfDependencies g). d \<in> set changed \<union> set im0"
  have "(ch, im) = impacted_step g (ch0, im0)" using snoc.prems(2) f0 by simp
  then have step: "(ch, im) = (if ?hit then (cfFieldID g # ch0, cfFieldID g # im0) else (ch0, im0))"
    unfolding impacted_step_def by (simp add: list_ex_iff IH(1))
  have old: "cfFieldID f \<in> set im \<longleftrightarrow> (\<exists>d \<in> set (cfDependencies f). d \<in> set changed \<union> set im)" if f: "f \<in> set fs" for f
  proof -
    have "cfFieldID f \<noteq> cfFieldID g" using imageI [OF f, of cfFieldID] g(1) by (metis)
    then have "cfFieldID f \<in> set im \<longleftrightarrow> cfFieldID f \<in> set im0" using step by (simp split: if_splits)
    moreover have "d \<in> set changed \<union> set im \<longleftrightarrow> d \<in> set changed \<union> set im0" if "d \<in> set (cfDependencies f)" for d
      using g(3) [OF f] that step by (auto split: if_splits)
    ultimately show ?thesis using IH(3) [OF f] by simp
  qed
  have new: "cfFieldID g \<in> set im \<longleftrightarrow> (\<exists>d \<in> set (cfDependencies g). d \<in> set changed \<union> set im)"
    using step g(1,2) IH(2) by (auto split: if_splits)
  show ?case using step IH(1,2) old new by (auto split: if_splits)
qed simp

lemma impacted_iff:
  assumes "formulas_ordered fs" "f \<in> set fs"
  shows "cfFieldID f \<in> impacted_set fs changed \<longleftrightarrow> (\<exists>d \<in> set (cfDependencies f). d \<in> set changed \<union> impacted_set fs changed)"
  using impacted_fold [OF assms(1)] assms(2) unfolding impacted_set_def by (cases "fold impacted_step fs (changed, [])") auto


text \<open>What a compiled plan guarantees about its formulas and fields.\<close>

definition plan_ok :: "plan \<Rightarrow> bool" where
  "plan_ok p \<longleftrightarrow> formulas_ordered (plFormulas p) \<and> distinct (map cfPhysicalName (plFormulas p))
     \<and> (\<forall>f \<in> set (plFormulas p). \<exists>fd. plFields p (cfPhysicalName f) = Some fd \<and> fdFieldID fd = cfFieldID f)
     \<and> (\<forall>f \<in> set (plFormulas p). \<forall>n \<in> set (cfDependencyNames f). \<exists>fd. plFields p n = Some fd \<and> fdFieldID fd \<in> set (cfDependencies f))
     \<and> plFields p clockActivationName = None"

text \<open>The program of a formula reads the fields it depends on and the evaluation time, nothing else.\<close>

definition program_local :: "'v runtime \<Rightarrow> bool" where
  "program_local rt \<longleftrightarrow> (\<forall>f a b v. rtProgram rt f a = Inr v \<and> (\<forall>n \<in> insert clockActivationName (set (cfDependencyNames f)). a n = b n)
     \<longrightarrow> rtProgram rt f b = Inr v)"

lemma program_localD:
  "program_local rt \<Longrightarrow> rtProgram rt f a = Inr v \<Longrightarrow> (\<And>n. n \<in> insert clockActivationName (set (cfDependencyNames f)) \<Longrightarrow> a n = b n)
   \<Longrightarrow> rtProgram rt f b = Inr v"
  unfolding program_local_def by blast

text \<open>Two evaluations may happen at different times and see other tables in different states. A formula is
  steady between them if from the same fields it gives in the first what it gives in the second: it does not
  use \<open>NOW\<close> or \<open>TODAY\<close>, or the instants fall into the same period, and what it looks up is unchanged.\<close>

definition steady :: "'v runtime \<Rightarrow> 'v runtime \<Rightarrow> compiled \<Rightarrow> bool" where
  "steady rt0 rt f \<longleftrightarrow> (\<forall>a b v. rtProgram rt f a = Inr v \<and> a clockActivationName = Some (rtTime rt) \<and> b clockActivationName = Some (rtTime rt0)
     \<and> (\<forall>n \<in> set (cfDependencyNames f). a n = b n) \<longrightarrow> rtProgram rt0 f b = Inr v)"

lemma steadyD:
  "steady rt0 rt f \<Longrightarrow> rtProgram rt f a = Inr v \<Longrightarrow> a clockActivationName = Some (rtTime rt) \<Longrightarrow> b clockActivationName = Some (rtTime rt0)
   \<Longrightarrow> (\<And>n. n \<in> set (cfDependencyNames f) \<Longrightarrow> a n = b n) \<Longrightarrow> rtProgram rt0 f b = Inr v"
  unfolding steady_def by blast

text \<open>One evaluation with itself, or with one at the same time that sees the same tables.\<close>

lemma local_steady: "program_local rt \<Longrightarrow> steady rt rt f"
  unfolding steady_def by (auto intro: program_localD [of rt f])

definition unaffected :: "plan \<Rightarrow> string set \<Rightarrow> string \<Rightarrow> bool" where
  "unaffected p S n \<longleftrightarrow> (case plFields p n of None \<Rightarrow> True | Some fd \<Rightarrow> fdFieldID fd \<notin> S)"

definition impacted_name :: "plan \<Rightarrow> string set \<Rightarrow> string \<Rightarrow> bool" where
  "impacted_name p im n \<longleftrightarrow> (\<exists>f \<in> set (plFormulas p). cfPhysicalName f = n \<and> cfFieldID f \<in> im)"

lemma plan_okD:
  assumes "plan_ok p"
  shows "formulas_ordered (plFormulas p)" "distinct (map cfPhysicalName (plFormulas p))" "plFields p clockActivationName = None"
    and "f \<in> set (plFormulas p) \<Longrightarrow> \<exists>fd. plFields p (cfPhysicalName f) = Some fd \<and> fdFieldID fd = cfFieldID f"
    and "f \<in> set (plFormulas p) \<Longrightarrow> n \<in> set (cfDependencyNames f) \<Longrightarrow> \<exists>fd. plFields p n = Some fd \<and> fdFieldID fd \<in> set (cfDependencies f)"
  using assms unfolding plan_ok_def by blast+

lemma impacted_name_iff:
  assumes "plan_ok p" "f \<in> set (plFormulas p)"
  shows "impacted_name p im (cfPhysicalName f) \<longleftrightarrow> cfFieldID f \<in> im"
proof -
  have "g = f" if "g \<in> set (plFormulas p)" "cfPhysicalName g = cfPhysicalName f" for g
    using assms that by (auto simp: plan_ok_def distinct_map dest: inj_onD)
  then show ?thesis using assms(2) by (auto simp: impacted_name_def)
qed

lemma ordered_middle:
  assumes "formulas_ordered (P @ f # fs)" "g \<in> set (f # fs)"
  shows "cfFieldID g \<notin> set (cfDependencies f)"
proof -
  obtain k where k: "k < length (f # fs)" "(f # fs) ! k = g" using assms(2) by (metis in_set_conv_nth)
  then have "length P + k < length (P @ f # fs)" "length P \<le> length P + k" by simp_all
  then have "cfFieldID ((P @ f # fs) ! (length P + k)) \<notin> set (cfDependencies ((P @ f # fs) ! length P))"
    using assms(1) unfolding formulas_ordered_def by blast
  then show ?thesis using k by (simp add: nth_append)
qed

text \<open>The names a formula reads are not those of formulas still to be evaluated.\<close>

lemma dependency_not_pending:
  assumes ok: "plan_ok p" and p: "plFormulas p = P @ f # fs" and n: "n \<in> insert clockActivationName (set (cfDependencyNames f))"
  shows "n \<notin> cfPhysicalName ` set (f # fs)"
proof
  assume "n \<in> cfPhysicalName ` set (f # fs)"
  then obtain g where g: "g \<in> set (f # fs)" "cfPhysicalName g = n" by auto
  then have "g \<in> set (plFormulas p)" "f \<in> set (plFormulas p)" using p by auto
  then obtain fd where fd: "plFields p n = Some fd" "fdFieldID fd = cfFieldID g" using plan_okD(4) [OF ok] g(2) by blast
  then have "n \<in> set (cfDependencyNames f)" using n plan_okD(3) [OF ok] by auto
  then have "cfFieldID g \<in> set (cfDependencies f)" using fd plan_okD(5) [OF ok \<open>f \<in> set (plFormulas p)\<close>] by fastforce
  moreover have "formulas_ordered (P @ f # fs)" using plan_okD(1) [OF ok] p by simp
  ultimately show False using ordered_middle g(1) by blast
qed

lemma full_step:
  assumes "\<And>i. rtIncludes rt i" "evaluate_formulas rt p None (f # fs) A os = Inr r"
  obtains v w where "rtProgram rt f A = Inr v"
    "rtNormalizeInput rt (case plFields p (cfPhysicalName f) of None \<Rightarrow> empty_field | Some fd \<Rightarrow> fd) v = Inr w"
    "evaluate_formulas rt p None fs (A(cfPhysicalName f \<mapsto> w)) (os @ [(cfPhysicalName f, v)]) = Inr r"
  using assms by (auto split: sum.splits)

lemma full_outputs:
  assumes "\<And>i. rtIncludes rt i" "evaluate_formulas rt p None fs A os = Inr r"
  shows "\<exists>new. r = os @ new \<and> map fst new = map cfPhysicalName fs"
  using assms(2)
proof (induction fs arbitrary: A os)
  case (Cons f fs)
  from full_step [OF assms(1) Cons.prems] obtain v w where
    "evaluate_formulas rt p None fs (A(cfPhysicalName f \<mapsto> w)) (os @ [(cfPhysicalName f, v)]) = Inr r" by metis
  then show ?case using Cons.IH by fastforce
qed simp

lemma incremental_loop:
  assumes ok: "plan_ok p" and inc: "\<And>i. rtIncludes rt i" and inc0: "\<And>i. rtIncludes rt0 i" and loc: "program_local rt"
    and norm: "rtNormalizeInput rt0 = rtNormalizeInput rt"
    and steady: "\<And>f. f \<in> set (plFormulas p) \<Longrightarrow> cfFieldID f \<notin> set im \<Longrightarrow> steady rt0 rt f"
    and im: "\<And>f. f \<in> set (plFormulas p) \<Longrightarrow> cfFieldID f \<in> set im \<longleftrightarrow> (\<exists>d \<in> set (cfDependencies f). d \<in> set changed \<union> set im)"
    and "plFormulas p = P @ fs"
    and "evaluate_formulas rt0 p None fs C o1 = Inr (o1 @ n1)" "evaluate_formulas rt p None fs A o2 = Inr (o2 @ n2)"
    and "\<And>n. n \<notin> cfPhysicalName ` set fs \<Longrightarrow> A n = B n"
    and "\<And>n. n \<noteq> clockActivationName \<Longrightarrow> n \<notin> cfPhysicalName ` set fs \<Longrightarrow> unaffected p (set changed \<union> set im) n \<Longrightarrow> A n = C n"
    and "\<And>n v. (n, v) \<in> set n1 \<Longrightarrow> \<exists>fd w. plFields p n = Some fd \<and> rtNormalizeInput rt fd v = Inr w \<and> B n = Some w"
    and "A clockActivationName = Some (rtTime rt)" "C clockActivationName = Some (rtTime rt0)"
  shows "evaluate_formulas rt p (Some im) fs B o3 = Inr (o3 @ filter (\<lambda>x. impacted_name p (set im) (fst x)) n2)
    \<and> (\<forall>x \<in> set n2. \<not> impacted_name p (set im) (fst x) \<longrightarrow> x \<in> set n1)"
  using assms(8-)
proof (induction fs arbitrary: P A B C o1 o2 o3 n1 n2)
  case (Cons f fs)
  let ?n = "cfPhysicalName f"
  have f: "f \<in> set (plFormulas p)" using Cons.prems(1) by simp
  obtain fd where fd: "plFields p ?n = Some fd" "fdFieldID fd = cfFieldID f" using plan_okD(4) [OF ok f] by blast
  have clock: "?n \<noteq> clockActivationName" using fd(1) plan_okD(3) [OF ok] by auto
  obtain v1 w1 where r1: "rtProgram rt0 f C = Inr v1" "rtNormalizeInput rt fd v1 = Inr w1"
    "evaluate_formulas rt0 p None fs (C(?n \<mapsto> w1)) (o1 @ [(?n, v1)]) = Inr (o1 @ n1)"
    using full_step [OF inc0 Cons.prems(2)] fd(1) unfolding norm by (metis option.simps(5))
  obtain v2 w2 where r2: "rtProgram rt f A = Inr v2" "rtNormalizeInput rt fd v2 = Inr w2"
    "evaluate_formulas rt p None fs (A(?n \<mapsto> w2)) (o2 @ [(?n, v2)]) = Inr (o2 @ n2)"
    using full_step [OF inc Cons.prems(3)] fd(1) by (metis option.simps(5))
  obtain m1 where m1: "n1 = (?n, v1) # m1" using full_outputs [OF inc0 r1(3)] by auto
  obtain m2 where m2: "n2 = (?n, v2) # m2" using full_outputs [OF inc r2(3)] by auto
  note pending = dependency_not_pending [OF ok Cons.prems(1)]
  have run: "evaluate_formulas rt0 p None fs (C(?n \<mapsto> w1)) (o1 @ [(?n, v1)]) = Inr ((o1 @ [(?n, v1)]) @ m1)"
    "evaluate_formulas rt p None fs (A(?n \<mapsto> w2)) (o2 @ [(?n, v2)]) = Inr ((o2 @ [(?n, v2)]) @ m2)"
    using r1(3) r2(3) by (simp_all add: m1 m2)
  note step = Cons.IH [of "P @ [f]", OF _ run]
  have AB: "rtProgram rt f B = Inr v2"
    by (rule program_localD [OF loc r2(1)]) (rule Cons.prems(4) [OF pending])
  have stored: "\<exists>fd w. plFields p n = Some fd \<and> rtNormalizeInput rt fd v = Inr w \<and> B n = Some w" if "(n, v) \<in> set m1" for n v
    using Cons.prems(6) that m1 by simp
  have "map fst m1 = map cfPhysicalName fs" using full_outputs [OF inc0 run(1)] by (simp only: same_append_eq) auto
  then have "fst ` set m1 = cfPhysicalName ` set fs" by (metis set_map)
  moreover have "?n \<notin> cfPhysicalName ` set fs" using plan_okD(2) [OF ok] by (simp add: Cons.prems(1))
  ultimately have fresh: "(n, v) \<in> set m1 \<Longrightarrow> n \<noteq> ?n" for n v by (metis fst_conv image_eqI)
  show ?case
  proof (cases "cfFieldID f \<in> set im")
    case True
    have "evaluate_formulas rt p (Some im) fs (B(?n \<mapsto> w2)) (o3 @ [(?n, v2)]) =
        Inr ((o3 @ [(?n, v2)]) @ filter (\<lambda>x. impacted_name p (set im) (fst x)) m2)
      \<and> (\<forall>x \<in> set m2. \<not> impacted_name p (set im) (fst x) \<longrightarrow> x \<in> set m1)"
    proof (rule step)
      fix n assume n: "n \<notin> cfPhysicalName ` set fs"
      show "(A(?n \<mapsto> w2)) n = (B(?n \<mapsto> w2)) n" using Cons.prems(4) [of n] n by simp
    next
      fix n assume n: "n \<noteq> clockActivationName" "n \<notin> cfPhysicalName ` set fs" "unaffected p (set changed \<union> set im) n"
      then have "n \<noteq> ?n" using True fd by (auto simp: unaffected_def)
      then show "(A(?n \<mapsto> w2)) n = (C(?n \<mapsto> w1)) n" using Cons.prems(5) [of n] n by simp
    qed (use Cons.prems(1,7,8) stored fresh clock in auto)
    moreover have "impacted_name p (set im) ?n" using True impacted_name_iff [OF ok f] by simp
    ultimately show ?thesis using True inc AB r2(2) fd(1) by (simp add: m1 m2)
  next
    case False
    have dep: "n \<noteq> clockActivationName \<and> n \<notin> cfPhysicalName ` set (f # fs) \<and> unaffected p (set changed \<union> set im) n"
      if "n \<in> set (cfDependencyNames f)" for n
    proof (intro conjI)
      show "n \<notin> cfPhysicalName ` set (f # fs)" by (rule pending) (use that in simp)
    qed (use that plan_okD(3) [OF ok] plan_okD(5) [OF ok f, of n] im [OF f] False in \<open>auto simp: unaffected_def\<close>)
    have "rtProgram rt0 f C = Inr v2"
    proof (rule steadyD [where b = C, OF steady [OF f False] r2(1) Cons.prems(7,8)])
      fix n assume "n \<in> set (cfDependencyNames f)"
      note d = dep [OF this]
      show "A n = C n" by (rule Cons.prems(5) [OF d [THEN conjunct1] d [THEN conjunct2, THEN conjunct1] d [THEN conjunct2, THEN conjunct2]])
    qed
    then have same: "v2 = v1" "w2 = w1" using r1(1,2) r2(2) by simp_all
    have B: "B ?n = Some w1" using Cons.prems(6) [of ?n v1] m1 fd(1) r1(2) by auto
    have "evaluate_formulas rt p (Some im) fs B o3 = Inr (o3 @ filter (\<lambda>x. impacted_name p (set im) (fst x)) m2)
      \<and> (\<forall>x \<in> set m2. \<not> impacted_name p (set im) (fst x) \<longrightarrow> x \<in> set m1)"
    proof (rule step)
      fix n assume n: "n \<notin> cfPhysicalName ` set fs"
      show "(A(?n \<mapsto> w2)) n = B n" using Cons.prems(4) [of n] n B same by simp
    next
      fix n assume "n \<noteq> clockActivationName" "n \<notin> cfPhysicalName ` set fs" "unaffected p (set changed \<union> set im) n"
      then show "(A(?n \<mapsto> w2)) n = (C(?n \<mapsto> w1)) n" using Cons.prems(5) [of n] same by simp
    qed (use Cons.prems(1,7,8) stored clock in auto)
    moreover have "\<not> impacted_name p (set im) ?n" using False impacted_name_iff [OF ok f] by simp
    ultimately show ?thesis using False same by (simp add: m1 m2)
  qed
qed simp


lemma normalize_row_values:
  assumes "normalize_row rt p row a = Inr b" "distinct (map fst row)"
  shows "map_of row n = None \<Longrightarrow> b n = a n"
    and "map_of row n = Some v \<Longrightarrow> \<exists>fd w. plFields p n = Some fd \<and> rtNormalizeInput rt fd v = Inr w \<and> b n = Some w"
  using assms
proof (induction row arbitrary: a)
  case (Cons x row)
  obtain k u where x: "x = (k, u)" by (cases x)
  {
    case 1
    then show ?case using Cons.IH(1) by (auto simp: x split: option.splits sum.splits if_splits)
  next
    case 2
    then obtain fd w where w: "plFields p k = Some fd" "rtNormalizeInput rt fd u = Inr w" "normalize_row rt p row (a(k \<mapsto> w)) = Inr b"
      by (auto simp: x split: option.splits sum.splits)
    show ?case
    proof (cases "k = n")
      case True
      then have "map_of row n = None" using "2"(3) by (auto simp: x map_of_eq_None_iff)
      then have "b n = Some w" using Cons.IH(1) [OF _ w(3)] "2"(3) True by (simp add: x)
      then show ?thesis using w True "2"(1) by (simp add: x)
    next
      case False
      then show ?thesis using Cons.IH(2) [OF _ w(3)] "2"(1,3) by (simp add: x)
    qed
  }
qed simp_all

text \<open>What the planner relies on of the compiler: the compiled formula carries the identity of its field,
  and names among its dependencies exactly fields of the table whose identifiers it lists.\<close>

definition compiler_law :: "(exec_table \<Rightarrow> field_definition \<Rightarrow> formula_error + compiled) \<Rightarrow> exec_table \<Rightarrow> bool" where
  "compiler_law compile t \<longleftrightarrow> (\<forall>f c. compile t f = Inr c \<longrightarrow> cfFieldID c = fdFieldID f \<and> cfPhysicalName c = fdPhysicalName f
     \<and> (\<forall>n \<in> set (cfDependencyNames c). \<exists>fd \<in> set (ssFields (etSnapshot t)). fdPhysicalName fd = n \<and> fdFieldID fd \<in> set (cfDependencies c)))"

definition schema_ok :: "exec_table \<Rightarrow> bool" where
  "schema_ok t \<longleftrightarrow> (let fs = ssFields (etSnapshot t) in distinct (map fdFieldID fs) \<and> distinct (map fdPhysicalName fs)
     \<and> clockActivationName \<notin> set (map fdPhysicalName fs))"

lemma compile_formulas_result:
  "compiler_law compile t \<Longrightarrow> compile_formulas compile t fs = Inr cs \<Longrightarrow>
    map cfFieldID cs = map fdFieldID (filter (\<lambda>f. fdLogicalType f = LogicalFormula) fs)
    \<and> map cfPhysicalName cs = map fdPhysicalName (filter (\<lambda>f. fdLogicalType f = LogicalFormula) fs)
    \<and> (\<forall>c \<in> set cs. \<exists>f. compile t f = Inr c)"
proof (induction fs arbitrary: cs)
  case (Cons f fs)
  then show ?case
  proof (cases "fdLogicalType f = LogicalFormula")
    case True
    then obtain c cs' where c: "compile t f = Inr c" "compile_formulas compile t fs = Inr cs'" "cs = c # cs'"
      using Cons.prems(2) by (auto split: sum.splits)
    then show ?thesis using Cons.IH [OF Cons.prems(1) c(2)] True Cons.prems(1) by (auto simp: compiler_law_def)
  qed auto
qed simp

lemma fields_by_name:
  assumes "distinct (map fdPhysicalName fs)"
  shows "fold (\<lambda>f m. m(fdPhysicalName f \<mapsto> f)) fs (\<lambda>_. None) n = Some fd \<longleftrightarrow> fd \<in> set fs \<and> fdPhysicalName fd = n"
  using assms
proof (induction fs rule: rev_induct)
  case (snoc f fs)
  then have "fdPhysicalName f \<notin> fdPhysicalName ` set fs" by simp
  then have new: "g \<in> set fs \<Longrightarrow> fdPhysicalName g \<noteq> fdPhysicalName f" for g by (metis imageI)
  show ?case
  proof (cases "fdPhysicalName f = n")
    case True
    then show ?thesis using new by auto
  next
    case False
    then show ?thesis using snoc by auto
  qed
qed simp

lemma parallel_maps:
  "map a xs = map b ys \<Longrightarrow> map a' xs = map b' ys \<Longrightarrow> x \<in> set xs \<Longrightarrow> \<exists>y \<in> set ys. b y = a x \<and> b' y = a' x"
proof (induction xs arbitrary: ys)
  case (Cons z xs)
  then obtain y ys' where "ys = y # ys'" by (cases ys) auto
  then show ?case using Cons by auto
qed simp

lemma compiled_plan:
  assumes compiled: "compileExecutionTable compile t = Inr p" and law: "compiler_law compile t" and schema: "schema_ok t"
  shows "plan_ok p" and "plFields p n = Some fd \<longleftrightarrow> fd \<in> set (ssFields (etSnapshot t)) \<and> fdPhysicalName fd = n"
    and "f \<in> set (plFormulas p) \<Longrightarrow> \<exists>fd \<in> set (ssFields (etSnapshot t)). fdLogicalType fd = LogicalFormula \<and> fdPhysicalName fd = cfPhysicalName f \<and> fdFieldID fd = cfFieldID f"
    and "set (plFieldIDs p) = fdFieldID ` set (ssFields (etSnapshot t))"
proof -
  let ?fs = "ssFields (etSnapshot t)" and ?ff = "filter (\<lambda>f. fdLogicalType f = LogicalFormula) (ssFields (etSnapshot t))"
  obtain cs gs where cs: "compile_formulas compile t ?fs = Inr cs" and gs: "topologicalOrder cs = Inr gs"
    and p: "p = \<lparr>plFormulas = gs, plFields = fold (\<lambda>f m. m(fdPhysicalName f \<mapsto> f)) ?fs (\<lambda>_. None), plFieldIDs = map fdFieldID ?fs\<rparr>"
    using compiled by (auto simp: compileExecutionTable_def split: sum.splits)
  have c: "map cfFieldID cs = map fdFieldID ?ff" "map cfPhysicalName cs = map fdPhysicalName ?ff" "\<And>c. c \<in> set cs \<Longrightarrow> \<exists>f. compile t f = Inr c"
    using compile_formulas_result [OF law cs] by auto
  have dist: "distinct (map fdFieldID ?fs)" "distinct (map fdPhysicalName ?fs)" "clockActivationName \<notin> set (map fdPhysicalName ?fs)"
    using schema by (simp_all add: schema_ok_def Let_def)
  have ids: "distinct (map cfFieldID cs)" unfolding c(1) using dist(1) by (simp add: distinct_map_filter)
  note g = topological_formulas_ordered [OF ids gs]
  show fields: "plFields p n = Some fd \<longleftrightarrow> fd \<in> set ?fs \<and> fdPhysicalName fd = n" for n fd
    using fields_by_name [OF dist(2)] by (simp add: p)
  have field: "\<exists>fd \<in> set ?fs. fdLogicalType fd = LogicalFormula \<and> fdPhysicalName fd = cfPhysicalName f \<and> fdFieldID fd = cfFieldID f"
    if "f \<in> set gs" for f
    using parallel_maps [OF c(2,1), of f] that g by auto
  then show "f \<in> set (plFormulas p) \<Longrightarrow> \<exists>fd \<in> set ?fs. fdLogicalType fd = LogicalFormula \<and> fdPhysicalName fd = cfPhysicalName f \<and> fdFieldID fd = cfFieldID f"
    by (simp add: p)
  show "set (plFieldIDs p) = fdFieldID ` set ?fs" by (simp add: p)
  have "distinct (map cfPhysicalName gs)"
  proof -
    have "distinct (map cfPhysicalName cs)" unfolding c(2) using dist(2) by (simp add: distinct_map_filter)
    then have "inj_on cfPhysicalName (set gs)" using g by (simp add: distinct_map)
    moreover have "distinct gs" using g by (auto simp: formulas_ordered_def distinct_map)
    ultimately show ?thesis by (simp add: distinct_map)
  qed
  moreover have "\<exists>fd. plFields p n = Some fd \<and> fdFieldID fd \<in> set (cfDependencies f)"
    if "f \<in> set gs" "n \<in> set (cfDependencyNames f)" for f n
    using that g c(3) [of f] law unfolding fields compiler_law_def by blast
  moreover have "\<exists>fd. plFields p (cfPhysicalName f) = Some fd \<and> fdFieldID fd = cfFieldID f" if "f \<in> set gs" for f
    using field [OF that] unfolding fields by blast
  moreover have "plFields p clockActivationName = None" using fields [of clockActivationName] dist(3) by (metis imageI not_None_eq set_map)
  ultimately show "plan_ok p" using g by (simp add: plan_ok_def) (simp add: p)
qed


text \<open>
  C26. Incremental evaluation is exact where the other formulas are steady. Take a plan compiled for a
  table, a row on which all formulas were evaluated and their results stored, and the row after some of its
  fields other than formulas have changed, evaluated later, perhaps at another time and with other tables in
  another state, with no field left out of materialisation in either evaluation. If every formula that the
  change does not impact is steady between the two (it does not read the clock across a change of its
  period, nor another table that changed) and evaluating all formulas on the new row succeeds, then
  evaluating only the impacted ones for the changed fields succeeds too and returns exactly the results of
  the impacted formulas; every other result of the full evaluation is the value the row already has. So laying
  the incremental results over the row gives the full evaluation. The compiler's law (compiled formulas carry
  their field's identity and list what they name) and the locality of programs are hypotheses on CEL.
\<close>

theorem incremental_evaluation:
  assumes plan: "compileExecutionTable compile t = Inr p" "compiler_law compile t" "schema_ok t"
    and runtime: "program_local rt" "\<And>i. rtIncludes rt i" "\<And>i. rtIncludes rt0 i" "rtNormalizeInput rt0 = rtNormalizeInput rt"
    and steady: "\<And>f. f \<in> set (plFormulas p) \<Longrightarrow> cfFieldID f \<notin> impacted_set (plFormulas p) changed \<Longrightarrow> steady rt0 rt f"
    and before: "distinct (map fst row)" "Evaluate rt0 p row [] = Inr old" "\<And>n v. (n, v) \<in> set old \<Longrightarrow> map_of row n = Some v"
    and change: "changed \<noteq> []" "set changed \<subseteq> set (plFieldIDs p)" "\<And>n. map_of row n \<noteq> map_of row' n \<Longrightarrow>
      \<exists>fd \<in> set (ssFields (etSnapshot t)). fdPhysicalName fd = n \<and> fdFieldID fd \<in> set changed \<and> fdLogicalType fd \<noteq> LogicalFormula"
    and after: "distinct (map fst row')" "Evaluate rt p row' [] = Inr new"
  shows "Evaluate rt p row' changed = Inr (filter (\<lambda>x. impacted_name p (impacted_set (plFormulas p) changed) (fst x)) new)
    \<and> (\<forall>x \<in> set new. \<not> impacted_name p (impacted_set (plFormulas p) changed) (fst x) \<longrightarrow> map_of row' (fst x) = Some (snd x))"
proof -
  note ok = compiled_plan(1) [OF plan] and fields = compiled_plan(2) [OF plan] and formulas = compiled_plan(3) [OF plan]
  obtain im where im: "impacted p changed = Some im" "set im = impacted_set (plFormulas p) changed"
    using change(1) by (simp add: impacted_def impacted_set_def)
  obtain C where C: "normalize_row rt0 p row [clockActivationName \<mapsto> rtTime rt0] = Inr C" "evaluate_formulas rt0 p None (plFormulas p) C [] = Inr ([] @ old)"
    using before(2) by (auto simp: Evaluate_def impacted_def split: option.splits sum.splits)
  obtain A where A: "normalize_row rt p row' [clockActivationName \<mapsto> rtTime rt] = Inr A" "evaluate_formulas rt p None (plFormulas p) A [] = Inr ([] @ new)"
    and alive: "rtCancelled rt = None" using after(2) by (auto simp: Evaluate_def impacted_def split: option.splits sum.splits)
  have stored: "map_of row' n = Some v" if "(n, v) \<in> set old" for n v
  proof -
    have "n \<in> cfPhysicalName ` set (plFormulas p)" using full_outputs [OF runtime(3) C(2)] that by (metis append_Nil fst_conv image_eqI set_map)
    then obtain f where f: "f \<in> set (plFormulas p)" "cfPhysicalName f = n" by blast
    obtain fd where fd: "fd \<in> set (ssFields (etSnapshot t))" "fdLogicalType fd = LogicalFormula" "fdPhysicalName fd = n"
      using formulas [OF f(1)] f(2) by blast
    then have "plFields p n = Some fd" using fields by blast
    then have "map_of row n = map_of row' n" using change(3) [of n] fields [of n] fd(2) by (metis option.inject)
    then show ?thesis using before(3) [OF that] by simp
  qed
  have "plFields p clockActivationName = None" by (rule plan_okD(3) [OF ok])
  then have clock: "A clockActivationName = Some (rtTime rt)" "C clockActivationName = Some (rtTime rt0)"
    using normalize_row_values [OF A(1) after(1), of clockActivationName] normalize_row_values [OF C(1) before(1), of clockActivationName]
    by (cases "map_of row' clockActivationName"; cases "map_of row clockActivationName"; simp)+
  have same: "A n = C n" if "n \<noteq> clockActivationName" "unaffected p (set changed \<union> set im) n" for n
  proof -
    have eq: "map_of row n = map_of row' n"
    proof (rule ccontr)
      assume "map_of row n \<noteq> map_of row' n"
      then obtain fd where "plFields p n = Some fd" "fdFieldID fd \<in> set changed" using change(3) fields by blast
      then show False using that by (simp add: unaffected_def)
    qed
    show ?thesis using normalize_row_values [OF A(1) after(1), of n] normalize_row_values [OF C(1) before(1), of n] eq that(1) runtime(4)
      by (cases "map_of row' n") auto
  qed
  have loop: "evaluate_formulas rt p (Some im) (plFormulas p) A [] = Inr ([] @ filter (\<lambda>x. impacted_name p (set im) (fst x)) new)
    \<and> (\<forall>x \<in> set new. \<not> impacted_name p (set im) (fst x) \<longrightarrow> x \<in> set old)"
  proof (rule incremental_loop [OF ok runtime(2,3,1,4) _ _ _ C(2) A(2) _ _ _ clock])
    show "steady rt0 rt f" if "f \<in> set (plFormulas p)" "cfFieldID f \<notin> set im" for f using steady that im(2) by blast
    show "cfFieldID f \<in> set im \<longleftrightarrow> (\<exists>d \<in> set (cfDependencies f). d \<in> set changed \<union> set im)" if "f \<in> set (plFormulas p)" for f
      unfolding im(2) by (rule impacted_iff [OF plan_okD(1) [OF ok] that])
    show "\<exists>fd w. plFields p n = Some fd \<and> rtNormalizeInput rt fd v = Inr w \<and> A n = Some w" if "(n, v) \<in> set old" for n v
      by (rule normalize_row_values(2) [OF A(1) after(1) stored [OF that]])
  qed (auto intro: same)
  have "find (\<lambda>i. i \<notin> set (plFieldIDs p)) changed = None" using change(2) by (auto simp: find_None)
  then have "Evaluate rt p row' changed = Inr (filter (\<lambda>x. impacted_name p (set im) (fst x)) new)"
    using loop alive A(1) im(1) by (simp add: Evaluate_def)
  moreover have "map_of row' (fst x) = Some (snd x)" if "x \<in> set new" "\<not> impacted_name p (set im) (fst x)" for x
    using loop stored [of "fst x" "snd x"] that by simp
  ultimately show ?thesis unfolding im(2) by blast
qed


text \<open>The formulas \<open>a = x + 1\<close>, \<open>b = y + 1\<close> and \<open>c = a + 1\<close> over the numbers \<open>x\<close> and \<open>y\<close>.\<close>

definition demo_field :: "string \<Rightarrow> string \<Rightarrow> field_definition" where
  "demo_field i ty = \<lparr>fdFieldID = i, fdPhysicalName = ''f_'' @ i, fdLogicalType = ty, fdState = ''active'', fdFormula = None,
     fdRelation = None, fdLookup = None\<rparr>"

definition demo_table :: exec_table where
  "demo_table = \<lparr>etSnapshot = \<lparr>ssTableID = ''t'', ssFields = [demo_field ''c'' LogicalFormula, demo_field ''x'' ''number'',
     demo_field ''a'' LogicalFormula, demo_field ''y'' ''number'', demo_field ''b'' LogicalFormula]\<rparr>, etFormulaSources = []\<rparr>"

definition demo_compile :: "exec_table \<Rightarrow> field_definition \<Rightarrow> formula_error + compiled" where
  "demo_compile t f = Inr ((demo_formula (fdFieldID f) (if fdFieldID f = ''c'' then [''a''] else if fdFieldID f = ''a'' then [''x''] else [''y'']))
     \<lparr>cfPhysicalName := fdPhysicalName f\<rparr>)"

definition demo_runtime :: "int runtime" where
  "demo_runtime = \<lparr>rtCancelled = None, rtIncludes = (\<lambda>_. True), rtTime = 0, rtNormalizeInput = (\<lambda>fd v. Inr v),
     rtProgram = (\<lambda>f act. Inr (sum_list (map (\<lambda>n. case act n of None \<Rightarrow> 0 | Some v \<Rightarrow> v) (cfDependencyNames f)) + 1))\<rparr>"

definition demo_plan :: plan where
  "demo_plan = (case compileExecutionTable demo_compile demo_table of Inr p \<Rightarrow> p | Inl e \<Rightarrow> \<lparr>plFormulas = [], plFields = (\<lambda>_. None), plFieldIDs = []\<rparr>)"

definition demo_row :: "int \<Rightarrow> int \<Rightarrow> int \<Rightarrow> int \<Rightarrow> int \<Rightarrow> (string \<times> int) list" where
  "demo_row x y a b c = [(''f_x'', x), (''f_y'', y), (''f_a'', a), (''f_b'', b), (''f_c'', c)]"

lemma demo_compiled: "compileExecutionTable demo_compile demo_table = Inr demo_plan"
proof -
  have "isl (compileExecutionTable demo_compile demo_table) = False" by code_simp
  then show ?thesis unfolding demo_plan_def by (cases "compileExecutionTable demo_compile demo_table") simp_all
qed

lemma demo_law: "compiler_law demo_compile demo_table"
  by (auto simp: compiler_law_def demo_compile_def demo_formula_def demo_table_def demo_field_def)

lemma demo_schema: "schema_ok demo_table"
  by (simp add: schema_ok_def demo_table_def demo_field_def clockActivationName_def)

lemma demo_local: "program_local demo_runtime"
proof -
  have "map (\<lambda>n. case a n of None \<Rightarrow> 0 | Some v \<Rightarrow> v) ns = map (\<lambda>n. case b n of None \<Rightarrow> (0::int) | Some v \<Rightarrow> v) ns"
    if "\<forall>n \<in> set ns. a n = b n" for a b and ns :: "string list"
    using that by (simp cong: map_cong)
  then show ?thesis unfolding program_local_def demo_runtime_def by (auto cong: map_cong)
qed

theorem incremental_evaluation_witness:
  "Evaluate (demo_runtime\<lparr>rtTime := 7\<rparr>) demo_plan (demo_row 10 2 2 3 3) [''x''] = Inr [(''f_a'', 11), (''f_c'', 12)]"
proof -
  let ?rt = "demo_runtime\<lparr>rtTime := 7\<rparr>"
  have full: "Evaluate demo_runtime demo_plan (demo_row 1 2 2 3 3) [] = Inr [(''f_a'', 2), (''f_b'', 3), (''f_c'', 3)]"
    "Evaluate ?rt demo_plan (demo_row 10 2 2 3 3) [] = Inr [(''f_a'', 11), (''f_b'', 3), (''f_c'', 12)]" by code_simp+
  have "impacted_set (plFormulas demo_plan) [''x''] = {''c'', ''a''}" unfolding impacted_set_def by code_simp
  moreover have "map (\<lambda>f. (cfPhysicalName f, cfFieldID f)) (plFormulas demo_plan) = [(''f_a'', ''a''), (''f_b'', ''b''), (''f_c'', ''c'')]" by code_simp
  moreover have "impacted_name demo_plan im n \<longleftrightarrow> list_ex (\<lambda>x. fst x = n \<and> snd x \<in> im) (map (\<lambda>f. (cfPhysicalName f, cfFieldID f)) (plFormulas demo_plan))" for im n
    by (auto simp: impacted_name_def list_ex_iff)
  ultimately have out: "filter (\<lambda>x. impacted_name demo_plan (impacted_set (plFormulas demo_plan) [''x'']) (fst x)) [(''f_a'', 11), (''f_b'', 3), (''f_c'', 12)]
      = [(''f_a'', 11), (''f_c'', 12::int)]" by simp
  have ids: "set [''x''] \<subseteq> set (plFieldIDs demo_plan)" by code_simp
  have field: "demo_field ''x'' ''number'' \<in> set (ssFields (etSnapshot demo_table))" by (simp add: demo_table_def)
  have inc: "rtIncludes ?rt i" "rtIncludes demo_runtime i" "rtNormalizeInput demo_runtime = rtNormalizeInput ?rt" for i
    by (simp_all add: demo_runtime_def)
  have prog: "rtProgram ?rt = rtProgram demo_runtime" by simp
  have loc: "program_local ?rt" using demo_local unfolding program_local_def prog .
  have steady: "steady demo_runtime ?rt f" for f
    unfolding steady_def demo_runtime_def by (auto cong: map_cong)
  have dist: "distinct (map fst (demo_row x 2 2 3 3))" for x by (simp add: demo_row_def)
  have stored: "(n, v) \<in> set [(''f_a'', 2), (''f_b'', 3), (''f_c'', 3)] \<Longrightarrow> map_of (demo_row 1 2 2 3 3) n = Some v" for n v
    by (auto simp: demo_row_def)
  have diff: "\<exists>fd \<in> set (ssFields (etSnapshot demo_table)). fdPhysicalName fd = n \<and> fdFieldID fd \<in> set [''x''] \<and> fdLogicalType fd \<noteq> LogicalFormula"
    if "map_of (demo_row 1 2 2 3 3) n \<noteq> map_of (demo_row 10 2 2 3 3) n" for n
  proof -
    have "n = ''f_x''" using that by (simp add: demo_row_def split: if_splits)
    then show ?thesis using field by (intro bexI [OF _ field]) (simp add: demo_field_def LogicalFormula_def)
  qed
  have ne: "[''x''] \<noteq> []" by simp
  have "Evaluate ?rt demo_plan (demo_row 10 2 2 3 3) [''x''] =
      Inr (filter (\<lambda>x. impacted_name demo_plan (impacted_set (plFormulas demo_plan) [''x'']) (fst x)) [(''f_a'', 11), (''f_b'', 3), (''f_c'', 12)])"
    by (rule incremental_evaluation [THEN conjunct1, OF demo_compiled demo_law demo_schema loc inc steady dist full(1) stored ne ids diff dist full(2)])
  then show ?thesis by (simp only: out)
qed

end
