(* ===== verification/Computation_Plan.thy ===== *)
theory Computation_Plan
  imports Formula_Plan
begin

text \<open>
  The plan of computed fields across tables (\<open>sidecar/internal/computationplan/plan.go\<close>) with the
  resolution of the schemas formulas use (\<open>formula/collection_sources.go\<close>): a depth-first search over
  formulas and lookups that finds cycles and lists dependencies before what uses them.

  The search runs on a state with caches of tables and compiled formulas. Its parts are written over an
  arbitrary state and arbitrary access operations, so that the same definitions, run without state on
  the snapshot itself, say what the dependencies of a field are. The CEL parser, the compiler, the
  resolution of a table and the context are arguments.
\<close>

section \<open>Errors and actions\<close>

type_synonym node = "string \<times> string"

datatype graph_details = NoDetails | CycleDetails "node list" | NodeDetails node | Reference string | PathIndex nat

datatype plan_error = ContextError go_error | ResolveError go_error | FormulaFailure formula_error
  | GraphError string string graph_details

type_synonym ('s, 'a) action = "'s \<Rightarrow> plan_error + 'a \<times> 's"

definition ret :: "'a \<Rightarrow> ('s, 'a) action" where
  "ret v s = Inr (v, s)"

definition fail :: "plan_error \<Rightarrow> ('s, 'a) action" where
  "fail e s = Inl e"

definition bind :: "('s, 'a) action \<Rightarrow> ('a \<Rightarrow> ('s, 'b) action) \<Rightarrow> ('s, 'b) action" where
  "bind m f s = (case m s of Inl e \<Rightarrow> Inl e | Inr (v, s') \<Rightarrow> f v s')"

definition lift_formula :: "formula_error + 'a \<Rightarrow> ('s, 'a) action" where
  "lift_formula r = (case r of Inl e \<Rightarrow> fail (FormulaFailure e) | Inr v \<Rightarrow> ret v)"

text \<open>How the planner reaches the context and the tables.\<close>

record 's access =
  acContext :: "('s, unit) action"
  acTable :: "string \<Rightarrow> ('s, exec_table) action"

text \<open>The schema source, the CEL parser, the compiler of one field, what \<open>ctx.Err()\<close> returns the n-th
  time, and whether table plans are reused.\<close>

datatype cel = IdentExpr string | CallExpr string "cel option" "cel list" | SelectExpr cel | ListExpr "cel list"
  | StringConst string | OtherExpr

record planner =
  pnContext :: "nat \<Rightarrow> go_error option"
  pnResolve :: "string \<Rightarrow> exec_table result"
  pnParse :: "string \<Rightarrow> formula_error + cel"
  pnCompile :: "exec_table \<Rightarrow> field_definition \<Rightarrow> formula_error + compiled"
  pnReusePlans :: bool

section \<open>The schemas a table's formulas use\<close>

definition collectionCall :: "string \<Rightarrow> cel option \<Rightarrow> cel list \<Rightarrow> bool" where
  "collectionCall function target args = (target = None \<and>
     (function \<in> set [''TABLE'', ''FILTER'', ''PROJECT'', ''SUMIF'', ''COUNTIF'', ''SUM'', ''AVERAGE'', ''COUNT'',
        ''COUNTA'', ''UNIQUE'', ''ARRAYJOIN''] \<or> function \<in> set [''MIN'', ''MAX''] \<and> length args = 1))"

record scan =
  scTableIDs :: "string list"
  scNames :: "string list"
  scHasCollections :: bool

definition static_table :: "cel list \<Rightarrow> string option" where
  "static_table args = (case args of [StringConst s] \<Rightarrow> if s = [] then None else Some s | _ \<Rightarrow> None)"

definition scan_call :: "string \<Rightarrow> cel option \<Rightarrow> cel list \<Rightarrow> scan \<Rightarrow> formula_error + scan" where
  "scan_call function target args sc =
     (let sc = sc\<lparr>scHasCollections := scHasCollections sc \<or> collectionCall function target args\<rparr>
      in if function = ''TABLE''
         then (case static_table args of
                 None \<Rightarrow> Inl (FormulaError ''formula.dependency'' ''TABLE requires a static table identity'' [])
               | Some i \<Rightarrow> Inr (sc\<lparr>scTableIDs := List.insert i (scTableIDs sc)\<rparr>))
         else Inr sc)"

fun scan_expr :: "cel \<Rightarrow> scan \<Rightarrow> formula_error + scan" and scan_exprs :: "cel list \<Rightarrow> scan \<Rightarrow> formula_error + scan" where
  "scan_expr (IdentExpr name) sc = Inr (sc\<lparr>scNames := List.insert name (scNames sc)\<rparr>)"
| "scan_expr (CallExpr function None args) sc =
     (case scan_call function None args sc of Inl e \<Rightarrow> Inl e | Inr sc \<Rightarrow> scan_exprs args sc)"
| "scan_expr (CallExpr function (Some target) args) sc =
     (case scan_call function (Some target) args sc of Inl e \<Rightarrow> Inl e
      | Inr sc \<Rightarrow> (case scan_expr target sc of Inl e \<Rightarrow> Inl e | Inr sc \<Rightarrow> scan_exprs args sc))"
| "scan_expr (SelectExpr operand) sc = scan_expr operand sc"
| "scan_expr (ListExpr elements) sc = scan_exprs elements sc"
| "scan_expr (StringConst s) sc = Inr sc"
| "scan_expr OtherExpr sc = Inr sc"
| "scan_exprs [] sc = Inr sc"
| "scan_exprs (x # xs) sc = (case scan_expr x sc of Inl e \<Rightarrow> Inl e | Inr sc \<Rightarrow> scan_exprs xs sc)"

type_synonym sources = "(string \<times> schema_snapshot) list"

text \<open>\<open>load\<close>: the table itself, a source already loaded, or a table of the snapshot.\<close>

definition load_source :: "'s access \<Rightarrow> exec_table \<Rightarrow> string \<Rightarrow> sources \<Rightarrow> ('s, schema_snapshot \<times> sources) action" where
  "load_source ac t i sources =
     (if i = table_id t then ret (etSnapshot t, AList.update i (etSnapshot t) sources)
      else case map_of sources i of Some s \<Rightarrow> ret (s, sources)
      | None \<Rightarrow> bind (acContext ac) (\<lambda>_. bind (acTable ac i) (\<lambda>source.
          if table_id source \<noteq> i then fail (FormulaFailure (FormulaError ''formula.dependency'' ''source table identity differs'' []))
          else ret (etSnapshot source, AList.update i (etSnapshot source) sources))))"

fun load_sources :: "'s access \<Rightarrow> exec_table \<Rightarrow> string list \<Rightarrow> sources \<Rightarrow> ('s, sources) action" where
  "load_sources ac t [] sources = ret sources"
| "load_sources ac t (i # is) sources = bind (load_source ac t i sources) (\<lambda>(_, sources). load_sources ac t is sources)"

fun load_path :: "'s access \<Rightarrow> exec_table \<Rightarrow> string list \<Rightarrow> schema_snapshot \<Rightarrow> sources \<Rightarrow> ('s, sources) action" where
  "load_path ac t [] current sources = ret sources"
| "load_path ac t (step # steps) current sources =
     (case Option.bind (snapshot_field current step) fdRelation of
        None \<Rightarrow> fail (FormulaFailure (FormulaError ''formula.dependency'' ''lookup range path is unavailable'' []))
      | Some target \<Rightarrow> bind (load_source ac t target sources) (\<lambda>(current, sources). load_path ac t steps current sources))"

definition load_field :: "'s access \<Rightarrow> exec_table \<Rightarrow> field_definition \<Rightarrow> sources \<Rightarrow> ('s, sources) action" where
  "load_field ac t f sources =
     bind (case fdRelation f of None \<Rightarrow> ret sources | Some target \<Rightarrow> load_sources ac t [target] sources) (\<lambda>sources.
       case fdLookup f of None \<Rightarrow> ret sources
       | Some lookup \<Rightarrow> (case lsCondition lookup of
            Some condition \<Rightarrow> load_sources ac t [lcSourceTableID condition] sources
          | None \<Rightarrow> load_path ac t (lsPath lookup) (etSnapshot t) sources))"

fun load_fields :: "'s access \<Rightarrow> exec_table \<Rightarrow> string list \<Rightarrow> field_definition list \<Rightarrow> sources \<Rightarrow> ('s, sources) action" where
  "load_fields ac t names [] sources = ret sources"
| "load_fields ac t names (f # fs) sources =
     (if fdPhysicalName f \<notin> set names then load_fields ac t names fs sources
      else bind (load_field ac t f sources) (\<lambda>sources. load_fields ac t names fs sources))"

fun load_expressions :: "'s access \<Rightarrow> planner \<Rightarrow> exec_table \<Rightarrow> string list \<Rightarrow> sources \<Rightarrow> ('s, sources) action" where
  "load_expressions ac p t [] sources = ret sources"
| "load_expressions ac p t (x # xs) sources =
     bind (lift_formula (pnParse p x)) (\<lambda>parsed.
     bind (lift_formula (scan_expr parsed \<lparr>scTableIDs = [], scNames = [], scHasCollections = False\<rparr>)) (\<lambda>sc.
       if \<not> scHasCollections sc then load_expressions ac p t xs sources
       else bind (load_sources ac t (scTableIDs sc) sources) (\<lambda>sources.
         bind (load_fields ac t (scNames sc) (ssFields (etSnapshot t)) sources) (\<lambda>sources.
           load_expressions ac p t xs sources))))"

definition ResolveCollectionSchemas :: "'s access \<Rightarrow> planner \<Rightarrow> exec_table \<Rightarrow> ('s, exec_table) action" where
  "ResolveCollectionSchemas ac p t =
     bind (load_expressions ac p t (List.map_filter fdFormula (ssFields (etSnapshot t))) []) (\<lambda>sources.
       ret (t\<lparr>etFormulaSources := (if sources = [] then [] else AList.update (table_id t) (etSnapshot t) sources)\<rparr>))"

section \<open>The dependencies of a field\<close>

definition graph_error :: "string \<Rightarrow> string \<Rightarrow> graph_details \<Rightarrow> plan_error" where
  "graph_error code message details = GraphError (''schema.'' @ code) message details"

definition target_not_found :: "graph_details \<Rightarrow> string \<Rightarrow> plan_error" where
  "target_not_found details message = graph_error ''computation.target_not_found'' message details"

text \<open>The compiled formula of a field and the entries its compilation adds to the cache: one, or with
  \<open>reusePlans\<close> all formulas of the table's plan.\<close>

definition compile_formula :: "'s access \<Rightarrow> planner \<Rightarrow> node \<Rightarrow> exec_table \<Rightarrow> field_definition
  \<Rightarrow> ('s, compiled \<times> (node \<times> compiled) list) action" where
  "compile_formula ac p key t f =
     bind (ResolveCollectionSchemas ac p t) (\<lambda>resolved.
       if pnReusePlans p then
         bind (lift_formula (compileExecutionTable (pnCompile p) resolved)) (\<lambda>plan.
           let entries = rev (map (\<lambda>c. ((fst key, cfFieldID c), c)) (plFormulas plan))
           in case map_of entries key of
                None \<Rightarrow> fail (target_not_found NoDetails ''computed formula is unavailable'')
              | Some c \<Rightarrow> ret (c, entries))
       else bind (lift_formula (pnCompile p resolved f)) (\<lambda>c. ret (c, [(key, c)])))"

fun split_at :: "char \<Rightarrow> string \<Rightarrow> string list" where
  "split_at sep [] = [[]]"
| "split_at sep (c # cs) = (if c = sep then [] # split_at sep cs
     else case split_at sep cs of part # parts \<Rightarrow> (c # part) # parts | [] \<Rightarrow> [[c]])"

definition reference_dependency :: "'s access \<Rightarrow> exec_table \<Rightarrow> string \<Rightarrow> ('s, node option) action" where
  "reference_dependency ac t reference =
     (case split_at CHR ''.'' reference of
        [name, fieldName] \<Rightarrow>
          (case table_field t name of
             None \<Rightarrow> ret None
           | Some relation \<Rightarrow>
               (case fdRelation relation of None \<Rightarrow> ret None
                | Some targetID \<Rightarrow>
                    if fdLogicalType relation \<noteq> LogicalRelation then ret None
                    else bind (acTable ac targetID) (\<lambda>target.
                      case table_field target fieldName of
                        None \<Rightarrow> fail (graph_error ''formula.target_field_not_found'' ''formula relation target field was not found'' (Reference reference))
                      | Some field \<Rightarrow>
                          if fdLogicalType field = LogicalRelation
                          then fail (graph_error ''formula.target_field_not_found'' ''formula relation target field was not found'' (Reference reference))
                          else ret (Some (table_id target, fdFieldID field)))))
      | _ \<Rightarrow> fail (graph_error ''formula.relation_path_invalid'' ''relation formula paths must select one target field'' (Reference reference)))"

fun reference_dependencies :: "'s access \<Rightarrow> exec_table \<Rightarrow> string list \<Rightarrow> string list \<Rightarrow> ('s, node list) action" where
  "reference_dependencies ac t seen [] = ret []"
| "reference_dependencies ac t seen (r # rs) =
     (if r \<in> set seen then reference_dependencies ac t seen rs
      else bind (reference_dependency ac t r) (\<lambda>d.
        bind (reference_dependencies ac t (r # seen) rs) (\<lambda>ds.
          ret (case d of None \<Rightarrow> ds | Some d \<Rightarrow> d # ds))))"

definition formulaDependencies :: "'s access \<Rightarrow> ('s, compiled) action \<Rightarrow> node \<Rightarrow> exec_table \<Rightarrow> ('s, node list) action" where
  "formulaDependencies ac compile key t =
     bind compile (\<lambda>compiled.
     bind (reference_dependencies ac t [] (cfReferencePaths compiled @ cfRelationAggregatePaths compiled)) (\<lambda>references.
       ret (map (Pair (fst key)) (cfDependencies compiled)
          @ map (\<lambda>d. (cdTableID d, cdFieldID d)) (filter (\<lambda>d. cdFieldID d \<noteq> ''__path__'') (cfCollectionDependencies compiled))
          @ references)))"

fun check_owned :: "'s access \<Rightarrow> node list \<Rightarrow> ('s, unit) action" where
  "check_owned ac [] = ret ()"
| "check_owned ac (d # ds) = bind (acTable ac (fst d)) (\<lambda>owner.
     if table_field owner (snd d) = None
     then fail (graph_error ''lookup.target_field_not_found'' ''conditional lookup dependency is unavailable'' NoDetails)
     else check_owned ac ds)"

fun follow_path :: "'s access \<Rightarrow> nat \<Rightarrow> string list \<Rightarrow> exec_table \<Rightarrow> ('s, exec_table) action" where
  "follow_path ac n [] current = ret current"
| "follow_path ac n (step # steps) current =
     bind (acContext ac) (\<lambda>_.
       case Option.bind (table_field current step) (\<lambda>f. if fdLogicalType f \<noteq> LogicalRelation then None else fdRelation f) of
         None \<Rightarrow> fail (graph_error ''lookup.relation_not_found'' ''lookup path relation field was not found'' (PathIndex n))
       | Some target \<Rightarrow> bind (acTable ac target) (\<lambda>target. follow_path ac (n + 1) steps target))"

definition lookupDependencies :: "'s access \<Rightarrow> exec_table \<Rightarrow> field_definition \<Rightarrow> ('s, node list) action" where
  "lookupDependencies ac t f =
     (case Option.bind (fdLookup f) (\<lambda>lookup. map_option (Pair lookup) (lsCondition lookup)) of
        Some (lookup, condition) \<Rightarrow>
          bind (acTable ac (lcSourceTableID condition)) (\<lambda>target.
            let ds = (table_id target, lsTargetFieldID lookup) # concat (map (\<lambda>rule.
                  (table_id target, luSourceFieldID rule) # (case luOperandField rule of None \<Rightarrow> [] | Some i \<Rightarrow> [(table_id t, i)]))
                (lcRules condition))
            in bind (check_owned ac ds) (\<lambda>_. ret ds))
      | None \<Rightarrow>
          (case fdLookup f of
             None \<Rightarrow> fail (graph_error ''lookup.path_invalid'' ''lookup dependency path is unavailable'' NoDetails)
           | Some lookup \<Rightarrow>
               if lsPath lookup = [] then fail (graph_error ''lookup.path_invalid'' ''lookup dependency path is unavailable'' NoDetails)
               else bind (follow_path ac 0 (lsPath lookup) t) (\<lambda>current.
                 case table_field current (lsTargetFieldID lookup) of
                   None \<Rightarrow> fail (graph_error ''lookup.target_field_not_found'' ''lookup target field was not found'' NoDetails)
                 | Some target \<Rightarrow>
                     if fdLogicalType target = LogicalRelation
                     then fail (graph_error ''lookup.target_field_not_found'' ''lookup target field was not found'' NoDetails)
                     else ret [(table_id current, fdFieldID target)])))"

definition field_dependencies :: "'s access \<Rightarrow> (field_definition \<Rightarrow> ('s, compiled) action) \<Rightarrow> node \<Rightarrow> exec_table \<Rightarrow> field_definition
  \<Rightarrow> ('s, node list) action" where
  "field_dependencies ac compile key t f =
     (if fdLogicalType f = LogicalFormula then formulaDependencies ac (compile f) key t else lookupDependencies ac t f)"

definition computed_field :: "field_definition \<Rightarrow> bool" where
  "computed_field f \<longleftrightarrow> fdLogicalType f = LogicalFormula \<or> fdLogicalType f = LogicalLookup"

section \<open>The search\<close>

definition activeTable :: "exec_table \<Rightarrow> exec_table" where
  "activeTable t = t\<lparr>etSnapshot := (etSnapshot t)\<lparr>ssFields := filter (\<lambda>f. fdState f \<noteq> LifecycleRetired) (ssFields (etSnapshot t))\<rparr>\<rparr>"

text \<open>\<open>bdTicks\<close> counts the calls of \<open>ctx.Err()\<close>; \<open>bdState\<close> is 1 while a node is being visited and 2 when it
  is finished.\<close>

record builder =
  bdTicks :: nat
  bdTables :: "string \<Rightarrow> exec_table option"
  bdCompiled :: "node \<Rightarrow> compiled option"
  bdState :: "node \<Rightarrow> nat"
  bdStack :: "node list"
  bdOrder :: "node list"

definition check_context :: "planner \<Rightarrow> (builder, unit) action" where
  "check_context p b = (case pnContext p (bdTicks b) of Some e \<Rightarrow> Inl (ContextError e)
     | None \<Rightarrow> Inr ((), b\<lparr>bdTicks := bdTicks b + 1\<rparr>))"

definition resolved_table :: "planner \<Rightarrow> string \<Rightarrow> plan_error + exec_table" where
  "resolved_table p i = (case pnResolve p i of Inl e \<Rightarrow> Inl (ResolveError e)
     | Inr t \<Rightarrow> if table_id t \<noteq> i
                then Inl (graph_error ''computation.schema_invalid'' ''resolved schema table identity does not match'' NoDetails)
                else Inr (activeTable t))"

definition builder_table :: "planner \<Rightarrow> string \<Rightarrow> (builder, exec_table) action" where
  "builder_table p i = bind (check_context p) (\<lambda>_ b.
     case bdTables b i of Some t \<Rightarrow> Inr (t, b)
     | None \<Rightarrow> (case resolved_table p i of Inl e \<Rightarrow> Inl e
         | Inr t \<Rightarrow> Inr (t, b\<lparr>bdTables := (bdTables b)(i \<mapsto> t)\<rparr>)))"

definition builder_access :: "planner \<Rightarrow> builder access" where
  "builder_access p = \<lparr>acContext = check_context p, acTable = builder_table p\<rparr>"

definition builder_compile :: "planner \<Rightarrow> node \<Rightarrow> exec_table \<Rightarrow> field_definition \<Rightarrow> (builder, compiled) action" where
  "builder_compile p key t f b = (case bdCompiled b key of Some c \<Rightarrow> Inr (c, b)
     | None \<Rightarrow> bind (compile_formula (builder_access p) p key t f) (\<lambda>(c, entries) b.
         Inr (c, b\<lparr>bdCompiled := bdCompiled b ++ map_of entries\<rparr>)) b)"

text \<open>\<^const>\<open>None\<close>: out of fuel. The theorems below show how much is enough.\<close>

fun visit :: "nat \<Rightarrow> planner \<Rightarrow> node \<Rightarrow> builder \<Rightarrow> (plan_error + builder) option"
  and visit_all :: "nat \<Rightarrow> planner \<Rightarrow> node list \<Rightarrow> builder \<Rightarrow> (plan_error + builder) option" where
  "visit 0 p key b = None"
| "visit (Suc n) p key b =
     (case check_context p b of Inl e \<Rightarrow> Some (Inl e)
      | Inr (_, b) \<Rightarrow>
          if bdState b key = 2 then Some (Inr b)
          else if bdState b key = 1
          then Some (Inl (graph_error ''computation.cycle'' ''computed field dependency cycle detected''
                 (CycleDetails (dropWhile (\<lambda>k. k \<noteq> key) (bdStack b) @ [key]))))
          else (case builder_table p (fst key) b of Inl e \<Rightarrow> Some (Inl e)
            | Inr (t, b) \<Rightarrow>
                (case table_field t (snd key) of
                   None \<Rightarrow> Some (Inl (target_not_found (NodeDetails key) ''computed dependency field is unavailable''))
                 | Some f \<Rightarrow>
                     if \<not> computed_field f then Some (Inr b)
                     else
                       let b = b\<lparr>bdState := (bdState b)(key := 1), bdStack := bdStack b @ [key]\<rparr>
                       in (case field_dependencies (builder_access p) (builder_compile p key t) key t f b of
                             Inl e \<Rightarrow> Some (Inl e)
                           | Inr (dependencies, b) \<Rightarrow>
                               (case visit_all n p dependencies b of None \<Rightarrow> None
                                | Some (Inl e) \<Rightarrow> Some (Inl e)
                                | Some (Inr b) \<Rightarrow> Some (Inr (b\<lparr>bdStack := butlast (bdStack b), bdState := (bdState b)(key := 2),
                                                         bdOrder := bdOrder b @ [key]\<rparr>)))))))"
| "visit_all n p [] b = Some (Inr b)"
| "visit_all n p (d # ds) b =
     (case visit n p d b of None \<Rightarrow> None | Some (Inl e) \<Rightarrow> Some (Inl e) | Some (Inr b) \<Rightarrow> visit_all n p ds b)"

definition new_builder :: "exec_table \<Rightarrow> builder" where
  "new_builder t = \<lparr>bdTicks = 0, bdTables = [table_id t \<mapsto> t], bdCompiled = (\<lambda>_. None), bdState = (\<lambda>_. 0), bdStack = [], bdOrder = []\<rparr>"

definition OrderedDependencies :: "nat \<Rightarrow> planner \<Rightarrow> exec_table \<Rightarrow> string \<Rightarrow> (plan_error + node list) option" where
  "OrderedDependencies fuel p candidate fieldID =
     (case visit fuel (p\<lparr>pnReusePlans := True\<rparr>) (table_id candidate, fieldID) (new_builder (activeTable candidate)) of
        None \<Rightarrow> None | Some (Inl e) \<Rightarrow> Some (Inl e) | Some (Inr b) \<Rightarrow> Some (Inr (bdOrder b)))"

text \<open>Before the search \<open>Validate\<close> resolves the sources of the candidate and compiles its formulas.\<close>

definition prepare_candidate :: "planner \<Rightarrow> exec_table \<Rightarrow> (builder, exec_table) action" where
  "prepare_candidate p candidate =
     bind (ResolveCollectionSchemas (builder_access p) p candidate) (\<lambda>candidate.
     bind (lift_formula (compileExecutionTable (pnCompile p) candidate)) (\<lambda>formulas b.
       Inr (candidate, b\<lparr>bdTables := (bdTables b)(table_id candidate \<mapsto> candidate),
         bdCompiled := bdCompiled b ++ map_of (rev (map (\<lambda>c. ((table_id candidate, cfFieldID c), c)) (plFormulas formulas)))\<rparr>)))"

definition Validate :: "nat \<Rightarrow> planner \<Rightarrow> exec_table \<Rightarrow> (plan_error + unit) option" where
  "Validate fuel p candidate =
     (let p = p\<lparr>pnReusePlans := False\<rparr>; candidate = activeTable candidate
      in case bind (check_context p) (\<lambda>_. prepare_candidate p candidate) (new_builder candidate) of Inl e \<Rightarrow> Some (Inl e)
         | Inr (candidate, b) \<Rightarrow>
             (case visit_all fuel p (map (Pair (table_id candidate)) (sort (map fdFieldID (ssFields (etSnapshot candidate))))) b of
                None \<Rightarrow> None | Some (Inl e) \<Rightarrow> Some (Inl e) | Some (Inr _) \<Rightarrow> Some (Inr ())))"


section \<open>The caches change nothing\<close>

text \<open>The dependencies of a node, read off the snapshot: the candidate \<open>c\<close> over the resolved tables, with the
  formulas \<open>given\<close> compiled beforehand. \<^const>\<open>None\<close> for a field that is not computed.\<close>

definition spec_table :: "planner \<Rightarrow> exec_table \<Rightarrow> string \<Rightarrow> plan_error + exec_table" where
  "spec_table p c i = (if i = table_id c then Inr c else resolved_table p i)"

definition direct_access :: "planner \<Rightarrow> exec_table \<Rightarrow> unit access" where
  "direct_access p c = \<lparr>acContext = ret (), acTable = (\<lambda>i. case spec_table p c i of Inl e \<Rightarrow> fail e | Inr t \<Rightarrow> ret t)\<rparr>"

definition spec_compile :: "planner \<Rightarrow> exec_table \<Rightarrow> (node \<Rightarrow> compiled option) \<Rightarrow> node \<Rightarrow> exec_table \<Rightarrow> field_definition
  \<Rightarrow> (unit, compiled) action" where
  "spec_compile p c given key t f = (case given key of Some cf \<Rightarrow> ret cf
     | None \<Rightarrow> bind (compile_formula (direct_access p c) p key t f) (\<lambda>(cf, _). ret cf))"

definition node_dependencies :: "planner \<Rightarrow> exec_table \<Rightarrow> (node \<Rightarrow> compiled option) \<Rightarrow> node \<Rightarrow> plan_error + node list option" where
  "node_dependencies p c given key =
     (case spec_table p c (fst key) of Inl e \<Rightarrow> Inl e
      | Inr t \<Rightarrow>
          (case table_field t (snd key) of
             None \<Rightarrow> Inl (target_not_found (NodeDetails key) ''computed dependency field is unavailable'')
           | Some f \<Rightarrow>
               if \<not> computed_field f then Inr None
               else (case field_dependencies (direct_access p c) (spec_compile p c given key t) key t f () of
                       Inl e \<Rightarrow> Inl e | Inr (ds, _) \<Rightarrow> Inr (Some ds))))"

definition caches_ok :: "planner \<Rightarrow> exec_table \<Rightarrow> (node \<Rightarrow> compiled option) \<Rightarrow> builder \<Rightarrow> bool" where
  "caches_ok p c given b \<longleftrightarrow> (\<forall>i t. bdTables b i = Some t \<longrightarrow> spec_table p c i = Inr t) \<and> bdTables b (table_id c) = Some c
     \<and> (\<forall>k cf t f. bdCompiled b k = Some cf \<and> spec_table p c (fst k) = Inr t \<and> table_field t (snd k) = Some f
          \<longrightarrow> spec_compile p c given k t f () = Inr (cf, ()))
     \<and> (\<forall>k cf. given k = Some cf \<longrightarrow> bdCompiled b k = Some cf)"

definition same_search :: "builder \<Rightarrow> builder \<Rightarrow> bool" where
  "same_search b b' \<longleftrightarrow> bdState b' = bdState b \<and> bdStack b' = bdStack b \<and> bdOrder b' = bdOrder b"

definition refines :: "planner \<Rightarrow> exec_table \<Rightarrow> (node \<Rightarrow> compiled option) \<Rightarrow> (builder, 'a) action \<Rightarrow> (unit, 'a) action \<Rightarrow> bool" where
  "refines p c given m s \<longleftrightarrow> (\<forall>b. caches_ok p c given b \<longrightarrow>
     (case m b of Inl e \<Rightarrow> (\<exists>x. e = ContextError x) \<or> s () = Inl e
      | Inr (v, b') \<Rightarrow> s () = Inr (v, ()) \<and> caches_ok p c given b' \<and> same_search b b'))"

named_theorems refines_rules

lemma bind_ret [simp]: "bind (ret v) f = f v"
  by (rule ext) (simp add: bind_def ret_def)

lemma refines_ret [refines_rules]: "refines p c g (ret v) (ret v)"
  by (simp add: refines_def ret_def same_search_def)

lemma refines_fail [refines_rules]: "refines p c g (fail e) (fail e)"
  by (simp add: refines_def fail_def)

lemma refines_lift [refines_rules]: "refines p c g (lift_formula r) (lift_formula r)"
  by (cases r) (simp_all add: lift_formula_def refines_rules)

lemma refines_bind [refines_rules]:
  assumes m: "refines p c g m s" and f: "\<And>v. refines p c g (f v) (h v)"
  shows "refines p c g (bind m f) (bind s h)"
  unfolding refines_def
proof (intro allI impI)
  fix b assume b: "caches_ok p c g b"
  note run = m [unfolded refines_def, rule_format, OF b]
  show "case bind m f b of Inl e \<Rightarrow> (\<exists>x. e = ContextError x) \<or> bind s h () = Inl e
      | Inr (v, b') \<Rightarrow> bind s h () = Inr (v, ()) \<and> caches_ok p c g b' \<and> same_search b b'"
  proof (cases "m b")
    case (Inl e)
    then show ?thesis using run by (auto simp: bind_def)
  next
    case (Inr x)
    obtain v b1 where x: "x = (v, b1)" by (cases x)
    then have 1: "s () = Inr (v, ())" "caches_ok p c g b1" "same_search b b1" using run Inr by auto
    have "case f v b1 of Inl e \<Rightarrow> (\<exists>x. e = ContextError x) \<or> h v () = Inl e
        | Inr (w, b') \<Rightarrow> h v () = Inr (w, ()) \<and> caches_ok p c g b' \<and> same_search b1 b'"
      using f 1(2) unfolding refines_def by blast
    then show ?thesis using Inr x 1(1,3) by (auto simp: bind_def same_search_def split: sum.splits)
  qed
qed

lemma refines_context [refines_rules]: "refines p c g (check_context p) (acContext (direct_access p c))"
  by (auto simp: refines_def check_context_def direct_access_def ret_def caches_ok_def same_search_def split: option.splits)

lemma refines_table [refines_rules]: "refines p c g (builder_table p i) (acTable (direct_access p c) i)"
  unfolding builder_table_def
proof -
  have "refines p c g (\<lambda>b. case bdTables b i of Some t \<Rightarrow> Inr (t, b)
     | None \<Rightarrow> (case resolved_table p i of Inl e \<Rightarrow> Inl e | Inr t \<Rightarrow> Inr (t, b\<lparr>bdTables := (bdTables b)(i \<mapsto> t)\<rparr>))) (acTable (direct_access p c) i)"
    unfolding refines_def
  proof (intro allI impI)
    fix b assume b: "caches_ok p c g b"
    show "case (case bdTables b i of Some t \<Rightarrow> Inr (t, b)
         | None \<Rightarrow> (case resolved_table p i of Inl e \<Rightarrow> Inl e | Inr t \<Rightarrow> Inr (t, b\<lparr>bdTables := (bdTables b)(i \<mapsto> t)\<rparr>))) of
        Inl e \<Rightarrow> (\<exists>x. e = ContextError x) \<or> acTable (direct_access p c) i () = Inl e
      | Inr (v, b') \<Rightarrow> acTable (direct_access p c) i () = Inr (v, ()) \<and> caches_ok p c g b' \<and> same_search b b'"
    proof (cases "bdTables b i")
      case None
      then have i: "spec_table p c i = resolved_table p i" "i \<noteq> table_id c" using b by (auto simp: caches_ok_def spec_table_def)
      show ?thesis
      proof (cases "resolved_table p i")
        case (Inr t)
        then have "caches_ok p c g (b\<lparr>bdTables := (bdTables b)(i \<mapsto> t)\<rparr>)" using b i by (auto simp: caches_ok_def)
        then show ?thesis using None Inr i by (simp add: direct_access_def ret_def same_search_def)
      qed (use None i in \<open>simp add: direct_access_def fail_def\<close>)
    next
      case (Some t)
      then have "spec_table p c i = Inr t" using b unfolding caches_ok_def by blast
      then show ?thesis using Some b by (simp add: direct_access_def ret_def same_search_def)
    qed
  qed
  from refines_bind [OF refines_context this]
  show "refines p c g (bind (check_context p) (\<lambda>_ b. case bdTables b i of Some t \<Rightarrow> Inr (t, b)
     | None \<Rightarrow> (case resolved_table p i of Inl e \<Rightarrow> Inl e | Inr t \<Rightarrow> Inr (t, b\<lparr>bdTables := (bdTables b)(i \<mapsto> t)\<rparr>)))) (acTable (direct_access p c) i)"
    by (simp add: direct_access_def)
qed

lemma refines_access [refines_rules]:
  "refines p c g (acContext (builder_access p)) (acContext (direct_access p c))"
  "refines p c g (acTable (builder_access p) i) (acTable (direct_access p c) i)"
  by (simp_all add: builder_access_def refines_context refines_table)

lemma refines_load_source [refines_rules]: "refines p c g (load_source (builder_access p) t i s) (load_source (direct_access p c) t i s)"
  unfolding load_source_def by (auto intro!: refines_rules split: option.splits)

lemma refines_load_sources [refines_rules]: "refines p c g (load_sources (builder_access p) t is s) (load_sources (direct_access p c) t is s)"
  by (induction "is" arbitrary: s) (auto intro!: refines_rules)

lemma refines_load_path [refines_rules]: "refines p c g (load_path (builder_access p) t is x s) (load_path (direct_access p c) t is x s)"
  by (induction "is" arbitrary: x s) (auto intro!: refines_rules split: option.splits)

lemma refines_load_field [refines_rules]: "refines p c g (load_field (builder_access p) t f s) (load_field (direct_access p c) t f s)"
  unfolding load_field_def by (auto intro!: refines_rules split: option.splits)

lemma refines_load_fields [refines_rules]: "refines p c g (load_fields (builder_access p) t ns fs s) (load_fields (direct_access p c) t ns fs s)"
  by (induction fs arbitrary: s) (auto intro!: refines_rules)

lemma refines_load_expressions [refines_rules]: "refines p c g (load_expressions (builder_access p) p' t xs s) (load_expressions (direct_access p c) p' t xs s)"
  by (induction xs arbitrary: s) (auto intro!: refines_rules)

lemma refines_ResolveCollectionSchemas [refines_rules]:
  "refines p c g (ResolveCollectionSchemas (builder_access p) p' t) (ResolveCollectionSchemas (direct_access p c) p' t)"
  unfolding ResolveCollectionSchemas_def by (auto intro!: refines_rules)

lemma refines_compile_formula [refines_rules]:
  "refines p c g (compile_formula (builder_access p) p' k t f) (compile_formula (direct_access p c) p' k t f)"
  unfolding compile_formula_def Let_def by (auto intro!: refines_rules split: option.splits)

lemma refines_reference_dependency [refines_rules]:
  "refines p c g (reference_dependency (builder_access p) t r) (reference_dependency (direct_access p c) t r)"
  unfolding reference_dependency_def by (auto intro!: refines_rules split: option.splits list.splits)

lemma refines_reference_dependencies [refines_rules]:
  "refines p c g (reference_dependencies (builder_access p) t seen rs) (reference_dependencies (direct_access p c) t seen rs)"
  by (induction rs arbitrary: seen) (auto intro!: refines_rules)

lemma refines_check_owned [refines_rules]: "refines p c g (check_owned (builder_access p) ds) (check_owned (direct_access p c) ds)"
  by (induction ds) (auto intro!: refines_rules)

lemma refines_follow_path [refines_rules]: "refines p c g (follow_path (builder_access p) n ss t) (follow_path (direct_access p c) n ss t)"
  by (induction ss arbitrary: n t) (auto intro!: refines_rules split: option.splits)

lemma refines_lookupDependencies [refines_rules]:
  "refines p c g (lookupDependencies (builder_access p) t f) (lookupDependencies (direct_access p c) t f)"
  unfolding lookupDependencies_def Let_def by (auto intro!: refines_rules split: option.splits)

lemma refines_field_dependencies:
  assumes "refines p c g (cb f) (cs f)"
  shows "refines p c g (field_dependencies (builder_access p) cb k t f) (field_dependencies (direct_access p c) cs k t f)"
  unfolding field_dependencies_def formulaDependencies_def by (auto intro!: refines_rules assms)


lemma caches_okD:
  assumes "caches_ok p c g b"
  shows "bdTables b i = Some t \<Longrightarrow> spec_table p c i = Inr t" "bdTables b (table_id c) = Some c"
    and "bdCompiled b k = Some cf \<Longrightarrow> spec_table p c (fst k) = Inr t \<Longrightarrow> table_field t (snd k) = Some f \<Longrightarrow> spec_compile p c g k t f () = Inr (cf, ())"
    and "g k = Some cf \<Longrightarrow> bdCompiled b k = Some cf"
  using assms unfolding caches_ok_def by blast+

lemma bind_Inr: "bind m f () = Inr r \<longleftrightarrow> (\<exists>v. m () = Inr (v, ()) \<and> f v () = Inr r)"
  by (auto simp: bind_def split: sum.splits)

lemma lift_formula_Inr: "lift_formula r s = Inr x \<longleftrightarrow> (\<exists>v. r = Inr v \<and> x = (v, s))"
  by (cases r) (auto simp: lift_formula_def fail_def ret_def)

lemma compile_entries:
  assumes run: "compile_formula (direct_access p c) p key t f () = Inr ((cf, entries), ())" and k: "map_of entries k = Some cf'"
  shows "fst k = fst key \<and> (pnReusePlans p \<or> k = key)
    \<and> (pnReusePlans p \<or> f' = f \<longrightarrow> compile_formula (direct_access p c) p k t f' () = Inr ((cf', entries), ()))"
proof (cases "pnReusePlans p")
  case True
  then obtain r plan where r: "ResolveCollectionSchemas (direct_access p c) p t () = Inr (r, ())" "compileExecutionTable (pnCompile p) r = Inr plan"
    and entries: "entries = rev (map (\<lambda>c. ((fst key, cfFieldID c), c)) (plFormulas plan))"
    using run by (auto simp: compile_formula_def bind_Inr lift_formula_Inr Let_def fail_def ret_def split: option.splits)
  have "fst k = fst key" using map_of_SomeD [OF k] by (auto simp: entries)
  then show ?thesis using True r k by (simp add: compile_formula_def bind_Inr lift_formula_Inr Let_def entries ret_def)
next
  case False
  then have "entries = [(key, cf)]" using run by (auto simp: compile_formula_def bind_Inr lift_formula_Inr ret_def)
  then show ?thesis using False run k by (auto split: if_splits)
qed

lemma refines_builder_compile:
  assumes t: "spec_table p c (fst key) = Inr t" and f: "table_field t (snd key) = Some f"
    and reuse: "pnReusePlans p \<Longrightarrow> given = (\<lambda>_. None)"
  shows "refines p c given (builder_compile p key t f) (spec_compile p c given key t f)"
  unfolding refines_def
proof (intro allI impI)
  fix b assume b: "caches_ok p c given b"
  show "case builder_compile p key t f b of Inl e \<Rightarrow> (\<exists>x. e = ContextError x) \<or> spec_compile p c given key t f () = Inl e
      | Inr (v, b') \<Rightarrow> spec_compile p c given key t f () = Inr (v, ()) \<and> caches_ok p c given b' \<and> same_search b b'"
  proof (cases "bdCompiled b key")
    case (Some cf)
    then have "spec_compile p c given key t f () = Inr (cf, ())" using caches_okD(3) [OF b _ t f] by blast
    then show ?thesis using Some b by (simp add: builder_compile_def same_search_def)
  next
    case None
    then have given: "given key = None" using caches_okD(4) [OF b, of key] by (cases "given key") simp_all
    note run = refines_compile_formula [unfolded refines_def, rule_format, OF b, of p key t f]
    show ?thesis
    proof (cases "compile_formula (builder_access p) p key t f b")
      case (Inl e)
      then show ?thesis using run None given by (auto simp: builder_compile_def spec_compile_def bind_def)
    next
      case (Inr x)
      then obtain cf entries b1 where x: "x = ((cf, entries), b1)" by (metis prod.collapse)
      then have 1: "compile_formula (direct_access p c) p key t f () = Inr ((cf, entries), ())" "caches_ok p c given b1" "same_search b b1"
        using run Inr by auto
      let ?b = "b1\<lparr>bdCompiled := bdCompiled b1 ++ map_of entries\<rparr>"
      have spec: "spec_compile p c given key t f () = Inr (cf, ())" using 1(1) given by (simp add: spec_compile_def bind_def ret_def)
      have new: "spec_compile p c given k t' f' () = Inr (cf', ())"
        if "map_of entries k = Some cf'" "spec_table p c (fst k) = Inr t'" "table_field t' (snd k) = Some f'" for k cf' t' f'
      proof -
        have k: "fst k = fst key" "pnReusePlans p \<or> k = key" using compile_entries [OF 1(1) that(1)] by blast+
        then have "t' = t" "pnReusePlans p \<or> f' = f" using that(2,3) t f by auto
        moreover have "given k = None" using k(2) reuse given by auto
        ultimately show ?thesis using compile_entries [OF 1(1) that(1), of f'] by (simp add: spec_compile_def bind_def ret_def)
      qed
      have "map_of entries k = None" if "given k = Some cf'" for k cf'
      proof (cases "map_of entries k")
        case (Some e)
        then have "pnReusePlans p \<or> k = key" using compile_entries [OF 1(1) Some] by blast
        then show ?thesis using reuse given that by auto
      qed
      then have "given k = Some cf' \<Longrightarrow> bdCompiled ?b k = Some cf'" for k cf'
        using caches_okD(4) [OF 1(2)] by (auto simp: map_add_def)
      moreover have "spec_compile p c given k t' f' () = Inr (cf', ())"
        if "bdCompiled ?b k = Some cf'" "spec_table p c (fst k) = Inr t'" "table_field t' (snd k) = Some f'" for k cf' t' f'
        using that caches_okD(3) [OF 1(2) _ that(2,3)] new [OF _ that(2,3)] by (auto simp: map_add_def split: option.splits)
      moreover have "bdTables ?b = bdTables b1" by simp
      ultimately have "caches_ok p c given ?b" using caches_okD(1,2) [OF 1(2)] unfolding caches_ok_def by (intro conjI allI impI) (blast | simp)+
      then show ?thesis using None Inr x spec 1(3) by (simp add: builder_compile_def bind_def same_search_def)
    qed
  qed
qed

lemma refines_node:
  assumes "spec_table p c (fst key) = Inr t" "table_field t (snd key) = Some f" "computed_field f"
    and "pnReusePlans p \<Longrightarrow> given = (\<lambda>_. None)" and "caches_ok p c given b"
  shows "case field_dependencies (builder_access p) (builder_compile p key t) key t f b of
      Inl e \<Rightarrow> (\<exists>x. e = ContextError x) \<or> node_dependencies p c given key = Inl e
    | Inr (ds, b') \<Rightarrow> node_dependencies p c given key = Inr (Some ds) \<and> caches_ok p c given b' \<and> same_search b b'"
proof -
  have "refines p c given (field_dependencies (builder_access p) (builder_compile p key t) key t f)
      (field_dependencies (direct_access p c) (spec_compile p c given key t) key t f)"
    by (rule refines_field_dependencies) (rule refines_builder_compile [OF assms(1,2,4)])
  note this [unfolded refines_def, rule_format, OF assms(5)]
  then show ?thesis using assms(1-3) by (auto simp: node_dependencies_def split: sum.splits)
qed

end
