(* ===== verification/Computation_Search.thy ===== *)
theory Computation_Search
  imports Computation_Plan
begin

text \<open>
  The search for computed fields is sound, complete and ends: it lists exactly the computed fields below
  the requested one, each after what it depends on, and a schema is accepted only when no dependency
  below its fields is missing or cyclic.
\<close>

section \<open>The search is sound\<close>

definition node_needs :: "planner \<Rightarrow> exec_table \<Rightarrow> (node \<Rightarrow> compiled option) \<Rightarrow> node \<Rightarrow> node set" where
  "node_needs p c g k = (case node_dependencies p c g k of Inr (Some ds) \<Rightarrow> set ds | _ \<Rightarrow> {})"

definition computed_node :: "planner \<Rightarrow> exec_table \<Rightarrow> (node \<Rightarrow> compiled option) \<Rightarrow> node \<Rightarrow> bool" where
  "computed_node p c g k \<longleftrightarrow> (case node_dependencies p c g k of Inr (Some ds) \<Rightarrow> True | _ \<Rightarrow> False)"

definition resolved_node :: "planner \<Rightarrow> exec_table \<Rightarrow> (node \<Rightarrow> compiled option) \<Rightarrow> node \<Rightarrow> bool" where
  "resolved_node p c g k \<longleftrightarrow> \<not> isl (node_dependencies p c g k)"

definition computed_needs :: "planner \<Rightarrow> exec_table \<Rightarrow> (node \<Rightarrow> compiled option) \<Rightarrow> node \<Rightarrow> node set" where
  "computed_needs p c g k = {d \<in> node_needs p c g k. computed_node p c g d}"

text \<open>A dependency path from each node to the next.\<close>

fun dependency_path :: "('a \<Rightarrow> 'a set) \<Rightarrow> 'a list \<Rightarrow> bool" where
  "dependency_path needs (x # y # xs) \<longleftrightarrow> y \<in> needs x \<and> dependency_path needs (y # xs)"
| "dependency_path needs xs \<longleftrightarrow> True"

definition cycle_error :: "node list \<Rightarrow> plan_error" where
  "cycle_error ks = graph_error ''computation.cycle'' ''computed field dependency cycle detected'' (CycleDetails ks)"

definition dependency_cycle :: "('a \<Rightarrow> 'a set) \<Rightarrow> 'a list \<Rightarrow> bool" where
  "dependency_cycle needs xs \<longleftrightarrow> 2 \<le> length xs \<and> hd xs = last xs \<and> dependency_path needs xs"

definition search_error :: "planner \<Rightarrow> exec_table \<Rightarrow> (node \<Rightarrow> compiled option) \<Rightarrow> node \<Rightarrow> plan_error \<Rightarrow> bool" where
  "search_error p c g k e \<longleftrightarrow> (\<exists>x. e = ContextError x) \<or> (\<exists>ks. e = cycle_error ks \<and> dependency_cycle (node_needs p c g) ks)
     \<or> (\<exists>y. (y, k) \<in> (dependency_edges (node_needs p c g))\<^sup>* \<and> node_dependencies p c g y = Inl e)"

lemma path_snoc: "dependency_path needs (xs @ [x]) \<longleftrightarrow> dependency_path needs xs \<and> (xs \<noteq> [] \<longrightarrow> x \<in> needs (last xs))"
  by (induction needs xs rule: dependency_path.induct) auto

lemma path_dropWhile: "dependency_path needs xs \<Longrightarrow> dependency_path needs (dropWhile P xs)"
  by (induction needs xs rule: dependency_path.induct) auto

lemma last_dropWhile: "dropWhile P xs \<noteq> [] \<Longrightarrow> last (dropWhile P xs) = last xs"
  by (induction xs) auto

definition search_inv :: "planner \<Rightarrow> exec_table \<Rightarrow> (node \<Rightarrow> compiled option) \<Rightarrow> builder \<Rightarrow> bool" where
  "search_inv p c g b \<longleftrightarrow> caches_ok p c g b \<and> dependency_ordered (computed_needs p c g) (bdOrder b)
     \<and> (\<forall>k \<in> set (bdOrder b). computed_node p c g k \<and> (\<forall>d \<in> node_needs p c g k. resolved_node p c g d))
     \<and> distinct (bdStack b) \<and> set (bdStack b) \<inter> set (bdOrder b) = {}
     \<and> bdState b = (\<lambda>k. if k \<in> set (bdStack b) then 1 else if k \<in> set (bdOrder b) then 2 else 0)
     \<and> (\<forall>k \<in> set (bdStack b). computed_node p c g k) \<and> dependency_path (node_needs p c g) (bdStack b)"

lemma caches_ok_search [simp]:
  "caches_ok p c g (b\<lparr>bdState := s\<rparr>) = caches_ok p c g b" "caches_ok p c g (b\<lparr>bdStack := t\<rparr>) = caches_ok p c g b"
  "caches_ok p c g (b\<lparr>bdOrder := os\<rparr>) = caches_ok p c g b" "caches_ok p c g (b\<lparr>bdTicks := n\<rparr>) = caches_ok p c g b"
  by (simp_all add: caches_ok_def)

lemma search_inv_same: "search_inv p c g b \<Longrightarrow> caches_ok p c g b' \<Longrightarrow> same_search b b' \<Longrightarrow> search_inv p c g b'"
  unfolding search_inv_def same_search_def by metis

text \<open>What a visit returns: an error with its cause, or a search that has finished the node and all below it.\<close>

definition visited :: "planner \<Rightarrow> exec_table \<Rightarrow> (node \<Rightarrow> compiled option) \<Rightarrow> node list \<Rightarrow> builder \<Rightarrow> builder \<Rightarrow> bool" where
  "visited p c g ks b b' \<longleftrightarrow> search_inv p c g b' \<and> bdStack b' = bdStack b
     \<and> (\<exists>new. bdOrder b' = bdOrder b @ new \<and> (\<forall>x \<in> set new. \<exists>k \<in> set ks. (x, k) \<in> (dependency_edges (node_needs p c g))\<^sup>*))
     \<and> (\<forall>k \<in> set ks. resolved_node p c g k \<and> (computed_node p c g k \<longrightarrow> k \<in> set (bdOrder b')))"

lemma visited_trans:
  assumes "visited p c g [k] b b1" "visited p c g ks b1 b2"
  shows "visited p c g (k # ks) b b2"
  using assms unfolding visited_def by fastforce

lemma cycle_found:
  assumes inv: "search_inv p c g b" and k: "k \<in> set (bdStack b)" "k \<in> node_needs p c g (last (bdStack b))"
  shows "dependency_cycle (node_needs p c g) (dropWhile (\<lambda>x. x \<noteq> k) (bdStack b) @ [k])"
proof -
  let ?d = "dropWhile (\<lambda>x. x \<noteq> k) (bdStack b)"
  have ne: "?d \<noteq> []" using k(1) by (simp add: dropWhile_eq_Nil_conv)
  then have "hd ?d = k" using hd_dropWhile [OF ne] by simp
  moreover have "last ?d = last (bdStack b)" using ne by (rule last_dropWhile)
  moreover have "dependency_path (node_needs p c g) ?d" using inv by (simp add: search_inv_def path_dropWhile)
  ultimately have "dependency_path (node_needs p c g) (?d @ [k])" "hd (?d @ [k]) = k" using ne k(2) by (simp_all add: path_snoc)
  then show ?thesis using ne by (cases ?d) (simp_all add: dependency_cycle_def)
qed

lemma visit_prepare:
  assumes inv: "search_inv p c g b" and edge: "bdStack b \<noteq> [] \<Longrightarrow> k \<in> node_needs p c g (last (bdStack b))"
    and new: "bdState b k \<noteq> 1" "bdState b k \<noteq> 2" and k: "computed_node p c g k"
  shows "search_inv p c g (b\<lparr>bdState := (bdState b)(k := 1), bdStack := bdStack b @ [k]\<rparr>)"
proof -
  have "k \<notin> set (bdStack b)" "k \<notin> set (bdOrder b)" using inv new by (auto simp: search_inv_def split: if_splits)
  then show ?thesis using inv edge k by (auto simp: search_inv_def path_snoc)
qed

lemma visit_finish:
  assumes inv: "search_inv p c g b" and stack: "bdStack b = ks @ [k]"
    and needs: "\<And>d. d \<in> node_needs p c g k \<Longrightarrow> resolved_node p c g d \<and> (computed_node p c g d \<longrightarrow> d \<in> set (bdOrder b))"
  shows "search_inv p c g (b\<lparr>bdStack := butlast (bdStack b), bdState := (bdState b)(k := 2), bdOrder := bdOrder b @ [k]\<rparr>)"
proof -
  have "k \<notin> set (bdOrder b)" "k \<notin> set ks" "computed_node p c g k" using inv stack by (auto simp: search_inv_def)
  moreover have "computed_needs p c g k \<subseteq> set (bdOrder b)" using needs by (auto simp: computed_needs_def)
  ultimately show ?thesis using inv needs by (auto simp: search_inv_def stack path_snoc)
qed

definition visit_ok :: "nat \<Rightarrow> planner \<Rightarrow> exec_table \<Rightarrow> (node \<Rightarrow> compiled option) \<Rightarrow> bool" where
  "visit_ok n p c g \<longleftrightarrow> (\<forall>k b r. visit n p k b = Some r \<and> search_inv p c g b \<and> (bdStack b \<noteq> [] \<longrightarrow> k \<in> node_needs p c g (last (bdStack b)))
     \<longrightarrow> (case r of Inl e \<Rightarrow> search_error p c g k e | Inr b' \<Rightarrow> visited p c g [k] b b'))"

definition visit_all_ok :: "nat \<Rightarrow> planner \<Rightarrow> exec_table \<Rightarrow> (node \<Rightarrow> compiled option) \<Rightarrow> bool" where
  "visit_all_ok n p c g \<longleftrightarrow> (\<forall>ks b r. visit_all n p ks b = Some r \<and> search_inv p c g b \<and> (bdStack b \<noteq> [] \<longrightarrow> set ks \<subseteq> node_needs p c g (last (bdStack b)))
     \<longrightarrow> (case r of Inl e \<Rightarrow> \<exists>k \<in> set ks. search_error p c g k e | Inr b' \<Rightarrow> visited p c g ks b b'))"

lemma visit_all_step:
  assumes V: "visit_ok n p c g"
  shows "visit_all_ok n p c g"
proof -
  have "case r of Inl e \<Rightarrow> \<exists>k \<in> set ks. search_error p c g k e | Inr b' \<Rightarrow> visited p c g ks b b'"
    if "visit_all n p ks b = Some r" "search_inv p c g b" "bdStack b \<noteq> [] \<longrightarrow> set ks \<subseteq> node_needs p c g (last (bdStack b))" for ks b r
    using that
  proof (induction ks arbitrary: b)
    case Nil
    then show ?case by (auto simp: visited_def)
  next
    case (Cons k ks)
    obtain r1 where r1: "visit n p k b = Some r1" using Cons.prems(1) by (cases "visit n p k b") auto
    have one: "case r1 of Inl e \<Rightarrow> search_error p c g k e | Inr b' \<Rightarrow> visited p c g [k] b b'"
      using V [unfolded visit_ok_def, rule_format, of k b r1] r1 Cons.prems(2,3) by auto
    show ?case
    proof (cases r1)
      case (Inl e)
      then have "r = Inl e" using Cons.prems(1) r1 by simp
      then show ?thesis using one Inl by simp
    next
      case (Inr b1)
      then have b1: "visited p c g [k] b b1" using one by simp
      then have "search_inv p c g b1" "bdStack b1 = bdStack b" by (simp_all add: visited_def)
      then have "case r of Inl e \<Rightarrow> \<exists>k \<in> set ks. search_error p c g k e | Inr b' \<Rightarrow> visited p c g ks b1 b'"
        using Cons.IH [of b1] Cons.prems r1 Inr by simp
      then show ?thesis using visited_trans [OF b1] by (cases r) auto
    qed
  qed
  then show ?thesis unfolding visit_all_ok_def by blast
qed

lemma needs_of: "node_dependencies p c g k = Inr (Some ds) \<Longrightarrow> node_needs p c g k = set ds \<and> computed_node p c g k \<and> resolved_node p c g k"
  by (simp add: node_needs_def computed_node_def resolved_node_def)

lemma computed_resolved: "computed_node p c g k \<Longrightarrow> resolved_node p c g k"
  by (cases "node_dependencies p c g k") (simp_all add: computed_node_def resolved_node_def)

lemma search_error_below:
  assumes "search_error p c g d e" "d \<in> node_needs p c g k"
  shows "search_error p c g k e"
  using assms unfolding search_error_def by (meson edge_iff rtrancl.rtrancl_into_rtrancl)

lemma search_error_self: "node_dependencies p c g k = Inl e \<Longrightarrow> search_error p c g k e"
  and search_error_context: "search_error p c g k (ContextError x)"
  unfolding search_error_def by blast+

lemma node_resolves:
  assumes b: "caches_ok p c g b" and run: "builder_table p (fst k) b = Inr (t, b')"
  shows "spec_table p c (fst k) = Inr t" "caches_ok p c g b'" "same_search b b'"
  using refines_table [unfolded refines_def, rule_format, OF b, of "fst k"] run
  by (auto simp: direct_access_def fail_def ret_def split: sum.splits)

lemma node_unresolved:
  assumes b: "caches_ok p c g b" and run: "builder_table p (fst k) b = Inl e"
  shows "search_error p c g k e"
proof -
  have "(\<exists>x. e = ContextError x) \<or> spec_table p c (fst k) = Inl e"
    using refines_table [unfolded refines_def, rule_format, OF b, of "fst k"] run
    by (auto simp: direct_access_def fail_def ret_def split: sum.splits)
  moreover have "spec_table p c (fst k) = Inl e \<Longrightarrow> node_dependencies p c g k = Inl e" by (simp add: node_dependencies_def)
  ultimately show ?thesis using search_error_context [of p c g k] search_error_self [of p c g k e] by blast
qed

text \<open>The part of a visit that looks below a computed field.\<close>

lemma visit_below:
  assumes A: "visit_all_ok n p c g" and reuse: "pnReusePlans p \<Longrightarrow> g = (\<lambda>_. None)"
    and inv: "search_inv p c g b" and edge: "bdStack b \<noteq> [] \<longrightarrow> k \<in> node_needs p c g (last (bdStack b))"
    and new: "bdState b k \<noteq> 1" "bdState b k \<noteq> 2"
    and t: "spec_table p c (fst k) = Inr t" and f: "table_field t (snd k) = Some f" "computed_field f"
    and b1: "b1 = b\<lparr>bdState := (bdState b)(k := 1), bdStack := bdStack b @ [k]\<rparr>"
    and run: "(case field_dependencies (builder_access p) (builder_compile p k t) k t f b1 of
         Inl e \<Rightarrow> Some (Inl e)
       | Inr (dependencies, b) \<Rightarrow>
           (case visit_all n p dependencies b of None \<Rightarrow> None
            | Some (Inl e) \<Rightarrow> Some (Inl e)
            | Some (Inr b) \<Rightarrow> Some (Inr (b\<lparr>bdStack := butlast (bdStack b), bdState := (bdState b)(k := 2), bdOrder := bdOrder b @ [k]\<rparr>)))) = Some r"
  shows "case r of Inl e \<Rightarrow> search_error p c g k e | Inr b' \<Rightarrow> visited p c g [k] b b'"
proof -
  have "caches_ok p c g b1" using inv by (simp add: b1 search_inv_def)
  note ref = refines_node [OF t f reuse this]
  show ?thesis
  proof (cases "field_dependencies (builder_access p) (builder_compile p k t) k t f b1")
    case (Inl e)
    then have "r = Inl e" "(\<exists>x. e = ContextError x) \<or> node_dependencies p c g k = Inl e" using ref run by simp_all
    then have "search_error p c g k e" using search_error_context [of p c g k] search_error_self [of p c g k e] by blast
    then show ?thesis using \<open>r = Inl e\<close> by simp
  next
    case (Inr x)
    then obtain ds b2 where x: "x = (ds, b2)" by (cases x)
    then have ds: "node_dependencies p c g k = Inr (Some ds)" "caches_ok p c g b2" "same_search b1 b2" using ref Inr by auto
    note k = needs_of [OF ds(1)]
    have "search_inv p c g b1" using visit_prepare [OF inv _ new] edge k by (simp add: b1)
    then have inv2: "search_inv p c g b2" by (rule search_inv_same) (rule ds)+
    have stack2: "bdStack b2 = bdStack b @ [k]" "bdOrder b2 = bdOrder b" using ds(3) by (simp_all add: same_search_def b1)
    obtain r2 where r2: "visit_all n p ds b2 = Some r2" using run Inr x by (cases "visit_all n p ds b2") auto
    have below: "case r2 of Inl e \<Rightarrow> \<exists>d \<in> set ds. search_error p c g d e | Inr b' \<Rightarrow> visited p c g ds b2 b'"
      using A [unfolded visit_all_ok_def, rule_format, of ds b2 r2] r2 inv2 stack2 k by simp
    show ?thesis
    proof (cases r2)
      case Inl': (Inl e)
      then obtain d where d: "d \<in> set ds" "search_error p c g d e" using below by auto
      have "search_error p c g k e" by (rule search_error_below [OF d(2)]) (simp add: k d(1))
      moreover have "r = Inl e" using run Inr x r2 Inl' by simp
      ultimately show ?thesis by simp
    next
      case Inr': (Inr b3)
      let ?b = "b3\<lparr>bdStack := butlast (bdStack b3), bdState := (bdState b3)(k := 2), bdOrder := bdOrder b3 @ [k]\<rparr>"
      have v: "visited p c g ds b2 b3" using below Inr' by simp
      have inv3: "search_inv p c g ?b"
        by (rule visit_finish) (use v stack2 k in \<open>auto simp: visited_def\<close>)
      obtain new where new: "bdOrder b3 = bdOrder b2 @ new" "\<And>x. x \<in> set new \<Longrightarrow> \<exists>d \<in> set ds. (x, d) \<in> (dependency_edges (node_needs p c g))\<^sup>*"
        using v unfolding visited_def by blast
      have "\<exists>m. bdOrder ?b = bdOrder b @ m \<and> (\<forall>x \<in> set m. (x, k) \<in> (dependency_edges (node_needs p c g))\<^sup>*)"
      proof (intro exI [of _ "new @ [k]"] conjI ballI)
        show "bdOrder ?b = bdOrder b @ new @ [k]" using new(1) stack2 by simp
        fix x assume "x \<in> set (new @ [k])"
        then consider "x = k" | "x \<in> set new" by auto
        then show "(x, k) \<in> (dependency_edges (node_needs p c g))\<^sup>*"
        proof cases
          case 2
          then obtain d where "d \<in> node_needs p c g k" "(x, d) \<in> (dependency_edges (node_needs p c g))\<^sup>*" using new(2) k by blast
          then show ?thesis by (meson edge_iff rtrancl.rtrancl_into_rtrancl)
        qed simp
      qed
      moreover have "bdStack ?b = bdStack b" using v stack2 by (simp add: visited_def)
      ultimately have "visited p c g [k] b ?b" using inv3 k by (simp add: visited_def)
      moreover have "r = Inr ?b" using run Inr x r2 Inr' by simp
      ultimately show ?thesis by simp
    qed
  qed
qed

lemma visit_step:
  assumes A: "visit_all_ok n p c g" and reuse: "pnReusePlans p \<Longrightarrow> g = (\<lambda>_. None)"
  shows "visit_ok (Suc n) p c g"
  unfolding visit_ok_def
proof (intro allI impI, elim conjE)
  fix k b r
  assume run: "visit (Suc n) p k b = Some r" and inv: "search_inv p c g b" and edge: "bdStack b \<noteq> [] \<longrightarrow> k \<in> node_needs p c g (last (bdStack b))"
  show "case r of Inl e \<Rightarrow> search_error p c g k e | Inr b' \<Rightarrow> visited p c g [k] b b'"
  proof (cases "check_context p b")
    case (Inl e)
    then obtain x where "r = Inl (ContextError x)" using run by (auto simp: check_context_def split: option.splits)
    then show ?thesis by (simp add: search_error_context)
  next
    case (Inr x)
    then obtain b0 where x: "x = ((), b0)" by (cases x) auto
    then have b0: "caches_ok p c g b0" "same_search b b0"
      using Inr inv by (auto simp: check_context_def same_search_def search_inv_def split: option.splits)
    have inv0: "search_inv p c g b0" by (rule search_inv_same [OF inv b0])
    have same: "bdStack b0 = bdStack b" "bdOrder b0 = bdOrder b" "bdState b0 = bdState b" using b0(2) by (simp_all add: same_search_def)
    have state: "bdState b0 = (\<lambda>k. if k \<in> set (bdStack b0) then 1 else if k \<in> set (bdOrder b0) then 2 else 0)"
      using inv0 unfolding search_inv_def by blast
    consider (finished) "bdState b0 k = 2" | (active) "bdState b0 k = 1" | (fresh) "bdState b0 k \<noteq> 1" "bdState b0 k \<noteq> 2" by blast
    then show ?thesis
    proof cases
      case finished
      then have "k \<in> set (bdOrder b0)" using fun_cong [OF state, of k] by (simp split: if_splits)
      moreover from this have "resolved_node p c g k" using inv0 computed_resolved [of p c g k] unfolding search_inv_def by blast
      ultimately have "visited p c g [k] b b0" using inv0 same by (simp add: visited_def)
      moreover have "r = Inr b0" using run Inr x finished by simp
      ultimately show ?thesis by simp
    next
      case active
      have k: "k \<in> set (bdStack b0)"
      proof (rule ccontr)
        assume "k \<notin> set (bdStack b0)"
        then have "bdState b0 k = 2 \<or> bdState b0 k = 0" by (subst (1 2) state) simp
        with active show False by simp
      qed
      then have "bdStack b0 \<noteq> []" by (metis empty_iff list.set(1))
      then have "k \<in> node_needs p c g (last (bdStack b0))" using edge by (simp only: same simp_thms)
      from cycle_found [OF inv0 k this]
      have "search_error p c g k (cycle_error (dropWhile (\<lambda>x. x \<noteq> k) (bdStack b0) @ [k]))" unfolding search_error_def by blast
      then show ?thesis using run Inr x active by (auto simp: cycle_error_def)
    next
      case fresh
      show ?thesis
      proof (cases "builder_table p (fst k) b0")
        case table: (Inl e)
        then have "r = Inl e" using run Inr x fresh by simp
        then show ?thesis using node_unresolved [OF b0(1) table] by simp
      next
        case table: (Inr y)
        then obtain t b1 where y: "builder_table p (fst k) b0 = Inr (t, b1)" by (cases y) auto
        note b1 = node_resolves [OF b0(1) y]
        have inv1: "search_inv p c g b1" by (rule search_inv_same [OF inv0 b1(2,3)])
        have same1: "bdStack b1 = bdStack b" "bdOrder b1 = bdOrder b" "bdState b1 = bdState b0" using b1(3) same by (simp_all add: same_search_def)
        consider (absent) "table_field t (snd k) = None" | (plain) f where "table_field t (snd k) = Some f" "\<not> computed_field f"
          | (computed) f where "table_field t (snd k) = Some f" "computed_field f" by (cases "table_field t (snd k)") auto
        then show ?thesis
        proof cases
          case absent
          then have "node_dependencies p c g k = Inl (target_not_found (NodeDetails k) ''computed dependency field is unavailable'')"
            by (simp add: node_dependencies_def b1(1))
          from search_error_self [OF this] show ?thesis using run Inr x fresh y absent by auto
        next
          case plain
          then have "node_dependencies p c g k = Inr None" by (simp add: node_dependencies_def b1(1))
          then have "visited p c g [k] b b1" using inv1 same1 by (simp add: visited_def resolved_node_def computed_node_def)
          moreover have "r = Inr b1" using run Inr x fresh y plain by simp
          ultimately show ?thesis by simp
        next
          case computed
          have "visited p c g [k] b1 b' \<Longrightarrow> visited p c g [k] b b'" for b' using same1 by (simp add: visited_def)
          moreover have "case r of Inl e \<Rightarrow> search_error p c g k e | Inr b' \<Rightarrow> visited p c g [k] b1 b'"
            by (rule visit_below [OF A reuse inv1 _ _ _ b1(1) computed refl])
              (use edge same1 fresh run Inr x y computed in \<open>simp_all add: Let_def\<close>)
          ultimately show ?thesis by (cases r) simp_all
        qed
      qed
    qed
  qed
qed

lemma visit_correct:
  assumes "pnReusePlans p \<Longrightarrow> g = (\<lambda>_. None)"
  shows "visit_ok n p c g" and "visit_all_ok n p c g"
proof -
  show "visit_ok n p c g"
  proof (induction n)
    case 0
    show ?case by (simp add: visit_ok_def)
  next
    case (Suc n)
    then show ?case using visit_step [OF visit_all_step assms] by blast
  qed
  then show "visit_all_ok n p c g" by (rule visit_all_step)
qed


section \<open>The search ends\<close>

text \<open>Each computed field below another is on the stack at most once, so fuel above the number of nodes suffices.\<close>

lemma visit_all_returns:
  assumes V: "\<And>k b. k \<in> N \<Longrightarrow> search_inv p c g b \<Longrightarrow> bdStack b \<noteq> [] \<longrightarrow> k \<in> node_needs p c g (last (bdStack b))
      \<Longrightarrow> card (N - set (bdStack b)) < n \<Longrightarrow> visit n p k b \<noteq> None"
    and reuse: "pnReusePlans p \<Longrightarrow> g = (\<lambda>_. None)"
  shows "set ks \<subseteq> N \<Longrightarrow> search_inv p c g b \<Longrightarrow> bdStack b \<noteq> [] \<longrightarrow> set ks \<subseteq> node_needs p c g (last (bdStack b))
      \<Longrightarrow> card (N - set (bdStack b)) < n \<Longrightarrow> visit_all n p ks b \<noteq> None"
proof (induction ks arbitrary: b)
  case (Cons k ks)
  obtain r where r: "visit n p k b = Some r" using V [of k b] Cons.prems by auto
  show ?case
  proof (cases r)
    case (Inr b1)
    have "visit_ok n p c g" by (rule visit_correct(1)) (rule reuse)
    then have "case r of Inl e \<Rightarrow> search_error p c g k e | Inr b' \<Rightarrow> visited p c g [k] b b'"
      using visit_ok_def [THEN iffD1, rule_format, of n p c g k b r] r Cons.prems(2,3) by auto
    then have "search_inv p c g b1" "bdStack b1 = bdStack b" using Inr by (simp_all add: visited_def)
    then show ?thesis using Cons.IH [of b1] Cons.prems r Inr by simp
  qed (use r in simp)
qed simp

lemma visit_returns:
  assumes N: "finite N" "\<And>k. k \<in> N \<Longrightarrow> node_needs p c g k \<subseteq> N" and reuse: "pnReusePlans p \<Longrightarrow> g = (\<lambda>_. None)"
  shows "k \<in> N \<Longrightarrow> search_inv p c g b \<Longrightarrow> bdStack b \<noteq> [] \<longrightarrow> k \<in> node_needs p c g (last (bdStack b))
      \<Longrightarrow> card (N - set (bdStack b)) < n \<Longrightarrow> visit n p k b \<noteq> None"
proof (induction n arbitrary: k b)
  case (Suc n)
  have all: "set ks \<subseteq> N \<Longrightarrow> search_inv p c g b \<Longrightarrow> bdStack b \<noteq> [] \<longrightarrow> set ks \<subseteq> node_needs p c g (last (bdStack b))
      \<Longrightarrow> card (N - set (bdStack b)) < n \<Longrightarrow> visit_all n p ks b \<noteq> None" for ks b
    by (rule visit_all_returns) (rule Suc.IH reuse; assumption)+
  show ?case
  proof (cases "check_context p b")
    case (Inr x)
    then obtain b0 where x: "x = ((), b0)" by (cases x) auto
    then have b0: "caches_ok p c g b0" "same_search b b0"
      using Inr Suc.prems(2) by (auto simp: check_context_def same_search_def search_inv_def split: option.splits)
    have inv0: "search_inv p c g b0" by (rule search_inv_same [OF Suc.prems(2) b0])
    show ?thesis
    proof (cases "bdState b0 k = 1 \<or> bdState b0 k = 2 \<or> isl (builder_table p (fst k) b0)")
      case True
      then show ?thesis using Inr x by (auto split: sum.splits)
    next
      case False
      then obtain t b1 where y: "builder_table p (fst k) b0 = Inr (t, b1)" by (cases "builder_table p (fst k) b0") auto
      note b1 = node_resolves [OF b0(1) y]
      have inv1: "search_inv p c g b1" by (rule search_inv_same [OF inv0 b1(2,3)])
      have same1: "bdStack b1 = bdStack b" "bdState b1 = bdState b0" using b1(3) b0(2) by (simp_all add: same_search_def)
      show ?thesis
      proof (cases "\<exists>f. table_field t (snd k) = Some f \<and> computed_field f")
        case False': False
        then show ?thesis using False Inr x y by (auto split: option.splits)
      next
        case True
        then obtain f where f: "table_field t (snd k) = Some f" "computed_field f" by blast
        let ?b = "b1\<lparr>bdState := (bdState b1)(k := 1), bdStack := bdStack b1 @ [k]\<rparr>"
        have run: "visit (Suc n) p k b = (case field_dependencies (builder_access p) (builder_compile p k t) k t f ?b of
             Inl e \<Rightarrow> Some (Inl e)
           | Inr (dependencies, b) \<Rightarrow>
               (case visit_all n p dependencies b of None \<Rightarrow> None
                | Some (Inl e) \<Rightarrow> Some (Inl e)
                | Some (Inr b) \<Rightarrow> Some (Inr (b\<lparr>bdStack := butlast (bdStack b), bdState := (bdState b)(k := 2), bdOrder := bdOrder b @ [k]\<rparr>))))"
          using False Inr x y f by (simp add: Let_def)
        have "caches_ok p c g ?b" using inv1 by (simp add: search_inv_def)
        note ref = refines_node [OF b1(1) f reuse this]
        show ?thesis
        proof (cases "field_dependencies (builder_access p) (builder_compile p k t) k t f ?b")
          case (Inr z)
          then obtain ds b2 where z: "z = (ds, b2)" by (cases z)
          then have ds: "node_dependencies p c g k = Inr (Some ds)" "caches_ok p c g b2" "same_search ?b b2" using ref Inr by auto
          note needs = needs_of [OF ds(1)]
          have "search_inv p c g ?b" using visit_prepare [OF inv1, of k] Suc.prems(3) False needs same1 by auto
          then have inv2: "search_inv p c g b2" by (rule search_inv_same) (rule ds)+
          have stack2: "bdStack b2 = bdStack b @ [k]" using ds(3) same1 by (simp add: same_search_def)
          then have "k \<notin> set (bdStack b)" using inv2 by (simp add: search_inv_def)
          then have "N - set (bdStack b) = insert k (N - set (bdStack b2))" "k \<notin> N - set (bdStack b2)"
            using Suc.prems(1) stack2 by auto
          then have "card (N - set (bdStack b)) = Suc (card (N - set (bdStack b2)))" using N(1) by simp
          then have "visit_all n p ds b2 \<noteq> None"
            using all [of ds b2] inv2 stack2 needs N(2) [OF Suc.prems(1)] Suc.prems(4) by simp
          then show ?thesis using run Inr z by (auto split: option.splits sum.splits)
        qed (use run in simp)
      qed
    qed
  qed (use Suc.prems in simp)
qed simp


section \<open>Ordered dependencies\<close>

lemma search_closed:
  assumes ord: "dependency_ordered (computed_needs p c g) os" and comp: "\<And>k. k \<in> set os \<Longrightarrow> computed_node p c g k"
    and yx: "(y, x) \<in> (dependency_edges (node_needs p c g))\<^sup>*" and x: "computed_node p c g x \<longrightarrow> x \<in> set os"
  shows "computed_node p c g y \<longrightarrow> y \<in> set os"
  using yx
proof (induction rule: converse_rtrancl_induct)
  case (step y z)
  have "computed_node p c g z" using step(1) by (auto simp: node_needs_def computed_node_def split: sum.splits option.splits)
  then have "computed_needs p c g z \<subseteq> set os" using step.IH ordered_needs [OF ord] by blast
  then show ?case using step(1) by (auto simp: computed_needs_def)
qed (rule x)

lemma new_builder_inv: "search_inv p c (\<lambda>_. None) (new_builder c)"
  by (auto simp: search_inv_def new_builder_def caches_ok_def spec_table_def)

text \<open>The nodes below a root: what the search may visit.\<close>

definition bounded_below :: "planner \<Rightarrow> exec_table \<Rightarrow> (node \<Rightarrow> compiled option) \<Rightarrow> node set \<Rightarrow> nat \<Rightarrow> bool" where
  "bounded_below p c g roots fuel \<longleftrightarrow> (\<exists>N. finite N \<and> roots \<subseteq> N \<and> (\<forall>k \<in> N. node_needs p c g k \<subseteq> N) \<and> card N < fuel)"

text \<open>
  C27. The computed fields below a field are listed completely and in order. With fuel above the number
  of fields that can be reached, \<open>OrderedDependencies\<close> returns. When it returns a list, the list has
  no duplicates, each field in it comes after every computed field it depends on, and its members are
  exactly the computed fields among those the requested field reaches, itself included. When it returns
  an error, the error is that of a cancelled context, or names a real cycle of dependencies, or is what
  some field reached from the root really fails with. The caches of tables and compiled formulas do not
  show: dependencies are those read directly off the snapshot.
\<close>

theorem ordered_dependencies:
  fixes p candidate fieldID
  assumes "bounded_below (p\<lparr>pnReusePlans := True\<rparr>) (activeTable candidate) (\<lambda>_. None) {(table_id candidate, fieldID)} fuel"
  shows "\<exists>r. OrderedDependencies fuel p candidate fieldID = Some r \<and> (case r of
      Inl e \<Rightarrow> search_error (p\<lparr>pnReusePlans := True\<rparr>) (activeTable candidate) (\<lambda>_. None) (table_id candidate, fieldID) e
    | Inr order \<Rightarrow> dependency_ordered (computed_needs (p\<lparr>pnReusePlans := True\<rparr>) (activeTable candidate) (\<lambda>_. None)) order
        \<and> set order = {k. computed_node (p\<lparr>pnReusePlans := True\<rparr>) (activeTable candidate) (\<lambda>_. None) k
            \<and> (k, (table_id candidate, fieldID)) \<in> (dependency_edges (node_needs (p\<lparr>pnReusePlans := True\<rparr>) (activeTable candidate) (\<lambda>_. None)))\<^sup>*})"
proof -
  let ?p = "p\<lparr>pnReusePlans := True\<rparr>" and ?c = "activeTable candidate" and ?g = "\<lambda>_. None" and ?k = "(table_id candidate, fieldID)"
  let ?b = "new_builder ?c"
  obtain N where N: "finite N" "?k \<in> N" "\<And>k. k \<in> N \<Longrightarrow> node_needs ?p ?c ?g k \<subseteq> N" "card N < fuel"
    using assms unfolding bounded_below_def by blast
  have inv: "search_inv ?p ?c ?g ?b" and empty: "bdStack ?b = []" "bdOrder ?b = []" by (rule new_builder_inv) (simp_all add: new_builder_def)
  have "visit fuel ?p ?k ?b \<noteq> None"
    by (rule visit_returns [OF N(1,3) _ N(2) inv]) (use empty N(4) in simp_all)
  then obtain r where r: "visit fuel ?p ?k ?b = Some r" by blast
  have "visit_ok fuel ?p ?c ?g" by (rule visit_correct(1)) simp
  then have ok: "case r of Inl e \<Rightarrow> search_error ?p ?c ?g ?k e | Inr b' \<Rightarrow> visited ?p ?c ?g [?k] ?b b'"
    using r inv empty unfolding visit_ok_def by blast
  show ?thesis
  proof (cases r)
    case (Inl e)
    then show ?thesis using r ok by (simp add: OrderedDependencies_def)
  next
    case (Inr b')
    then have v: "visited ?p ?c ?g [?k] ?b b'" using ok by simp
    have ord: "dependency_ordered (computed_needs ?p ?c ?g) (bdOrder b')" and comp: "\<And>k. k \<in> set (bdOrder b') \<Longrightarrow> computed_node ?p ?c ?g k"
      using v unfolding visited_def search_inv_def by blast+
    have below: "\<And>x. x \<in> set (bdOrder b') \<Longrightarrow> (x, ?k) \<in> (dependency_edges (node_needs ?p ?c ?g))\<^sup>*"
      and root: "computed_node ?p ?c ?g ?k \<longrightarrow> ?k \<in> set (bdOrder b')"
      using v empty unfolding visited_def by auto
    have "set (bdOrder b') = {k. computed_node ?p ?c ?g k \<and> (k, ?k) \<in> (dependency_edges (node_needs ?p ?c ?g))\<^sup>*}"
      using below comp search_closed [OF ord comp _ root] by blast
    then show ?thesis using r Inr ord by (simp add: OrderedDependencies_def)
  qed
qed


section \<open>Validation\<close>

text \<open>Resolving sources leaves the compiled formulas alone.\<close>

definition keeps_compiled :: "(builder, 'a) action \<Rightarrow> bool" where
  "keeps_compiled m \<longleftrightarrow> (\<forall>b v b'. m b = Inr (v, b') \<longrightarrow> bdCompiled b' = bdCompiled b)"

named_theorems keeps_rules

lemma keeps_basic [keeps_rules]: "keeps_compiled (ret v)" "keeps_compiled (fail e)"
  by (simp_all add: keeps_compiled_def ret_def fail_def)

lemma keeps_lift [keeps_rules]: "keeps_compiled (lift_formula r)"
  by (cases r) (simp_all add: lift_formula_def keeps_rules)

lemma keeps_bind [keeps_rules]: "keeps_compiled m \<Longrightarrow> (\<And>v. keeps_compiled (f v)) \<Longrightarrow> keeps_compiled (bind m f)"
  unfolding keeps_compiled_def bind_def by (auto split: sum.splits)

lemma keeps_access [keeps_rules]: "keeps_compiled (acContext (builder_access p))" "keeps_compiled (acTable (builder_access p) i)"
  by (auto simp: builder_access_def keeps_compiled_def check_context_def builder_table_def bind_def split: option.splits sum.splits)

lemma keeps_load_source [keeps_rules]: "keeps_compiled (load_source (builder_access p) t i s)"
  unfolding load_source_def by (auto intro!: keeps_rules split: option.splits)

lemma keeps_load_sources [keeps_rules]: "keeps_compiled (load_sources (builder_access p) t is s)"
  by (induction "is" arbitrary: s) (auto intro!: keeps_rules)

lemma keeps_load_path [keeps_rules]: "keeps_compiled (load_path (builder_access p) t is x s)"
  by (induction "is" arbitrary: x s) (auto intro!: keeps_rules split: option.splits)

lemma keeps_load_field [keeps_rules]: "keeps_compiled (load_field (builder_access p) t f s)"
  unfolding load_field_def by (auto intro!: keeps_rules split: option.splits)

lemma keeps_load_fields [keeps_rules]: "keeps_compiled (load_fields (builder_access p) t ns fs s)"
  by (induction fs arbitrary: s) (auto intro!: keeps_rules)

lemma keeps_load_expressions [keeps_rules]: "keeps_compiled (load_expressions (builder_access p) p' t xs s)"
  by (induction xs arbitrary: s) (auto intro!: keeps_rules)

lemma keeps_ResolveCollectionSchemas: "keeps_compiled (ResolveCollectionSchemas (builder_access p) p' t)"
  unfolding ResolveCollectionSchemas_def by (auto intro!: keeps_rules)

lemma ResolveCollectionSchemas_snapshot:
  "ResolveCollectionSchemas ac p t s = Inr (t', s') \<Longrightarrow> etSnapshot t' = etSnapshot t"
  by (auto simp: ResolveCollectionSchemas_def bind_def ret_def split: sum.splits)

text \<open>The snapshot a candidate is validated against: itself with its sources, and its compiled formulas.\<close>

definition validated_snapshot :: "planner \<Rightarrow> exec_table \<Rightarrow> plan_error + exec_table \<times> (node \<Rightarrow> compiled option)" where
  "validated_snapshot p candidate =
     (case ResolveCollectionSchemas (direct_access p (activeTable candidate)) p (activeTable candidate) () of Inl e \<Rightarrow> Inl e
      | Inr (c, _) \<Rightarrow> (case compileExecutionTable (pnCompile p) c of Inl e \<Rightarrow> Inl (FormulaFailure e)
          | Inr plan \<Rightarrow> Inr (c, map_of (rev (map (\<lambda>cf. ((table_id c, cfFieldID cf), cf)) (plFormulas plan))))))"

lemma prepare_candidate_ok:
  assumes run: "prepare_candidate p (activeTable candidate) b = r" and b: "caches_ok p (activeTable candidate) (\<lambda>_. None) b"
    and fresh: "bdCompiled b = (\<lambda>_. None)"
  shows "case r of Inl e \<Rightarrow> (\<exists>x. e = ContextError x) \<or> validated_snapshot p candidate = Inl e
    | Inr (c, b') \<Rightarrow> \<exists>g. validated_snapshot p candidate = Inr (c, g) \<and> caches_ok p c g b' \<and> same_search b b'"
proof -
  let ?c = "activeTable candidate"
  note ref = refines_ResolveCollectionSchemas [unfolded refines_def, rule_format, OF b, of p ?c]
  show ?thesis
  proof (cases "ResolveCollectionSchemas (builder_access p) p ?c b")
    case (Inl e)
    then have "r = Inl e" using run by (simp add: prepare_candidate_def bind_def)
    moreover have "(\<exists>x. e = ContextError x) \<or> validated_snapshot p candidate = Inl e"
      using ref unfolding Inl by (auto simp: validated_snapshot_def)
    ultimately show ?thesis by simp
  next
    case (Inr x)
    then obtain c b1 where x: "x = (c, b1)" by (cases x)
    then have 1: "ResolveCollectionSchemas (direct_access p ?c) p ?c () = Inr (c, ())" "caches_ok p ?c (\<lambda>_. None) b1" "same_search b b1"
      using ref Inr by auto
    have none: "bdCompiled b1 = (\<lambda>_. None)"
      using keeps_ResolveCollectionSchemas [unfolded keeps_compiled_def, rule_format, of p p ?c b c b1] Inr x fresh by simp
    have same: "table_id c = table_id ?c" using ResolveCollectionSchemas_snapshot [OF 1(1)] by simp
    show ?thesis
    proof (cases "compileExecutionTable (pnCompile p) c")
      case Inl': (Inl e)
      then show ?thesis using run Inr x 1(1) by (auto simp: prepare_candidate_def bind_def lift_formula_def fail_def validated_snapshot_def)
    next
      case Inr': (Inr plan)
      let ?g = "map_of (rev (map (\<lambda>cf. ((table_id c, cfFieldID cf), cf)) (plFormulas plan)))"
      let ?b = "b1\<lparr>bdTables := (bdTables b1)(table_id c \<mapsto> c), bdCompiled := bdCompiled b1 ++ ?g\<rparr>"
      have g: "bdCompiled ?b = ?g" by (simp add: none)
      have "spec_table p c i = Inr t" if "bdTables ?b i = Some t" for i t
        using that caches_okD(1) [OF 1(2), of i t] same by (auto simp: spec_table_def split: if_splits)
      moreover have "spec_compile p c ?g k t f () = Inr (cf, ())" if "?g k = Some cf" for k cf t f
        using that by (simp add: spec_compile_def ret_def)
      moreover have "bdTables ?b (table_id c) = Some c" by simp
      ultimately have "caches_ok p c ?g ?b" unfolding caches_ok_def g by blast
      moreover have "same_search b ?b" using 1(3) by (simp add: same_search_def)
      moreover have "validated_snapshot p candidate = Inr (c, ?g)" by (simp add: validated_snapshot_def 1(1) Inr')
      moreover have "r = Inr (c, ?b)" using run Inr x Inr' by (simp add: prepare_candidate_def bind_def lift_formula_def ret_def)
      ultimately show ?thesis by auto
    qed
  qed
qed

lemma cycle_is_computed:
  assumes "(y, x) \<in> (dependency_edges (node_needs p c g))\<^sup>+" "computed_node p c g y"
  shows "(y, x) \<in> (dependency_edges (computed_needs p c g))\<^sup>+"
  using assms(1)
proof (induction rule: trancl_induct)
  case (base z)
  then show ?case using assms(2) by (auto simp: computed_needs_def)
next
  case (step z x)
  obtain w where "w \<in> node_needs p c g z" using step(1) by (meson edge_iff tranclD2)
  then have "computed_node p c g z" by (auto simp: node_needs_def computed_node_def split: sum.splits option.splits)
  then have "(z, x) \<in> dependency_edges (computed_needs p c g)" using step(2) by (simp add: computed_needs_def)
  then show ?case using step.IH by (rule trancl_into_trancl [rotated])
qed

lemma visited_sound:
  assumes v: "visited p c g ks b b'" and empty: "bdStack b = []" "bdOrder b = []"
    and k: "k \<in> set ks" "(y, k) \<in> (dependency_edges (node_needs p c g))\<^sup>*"
  shows "resolved_node p c g y \<and> (y, y) \<notin> (dependency_edges (node_needs p c g))\<^sup>+"
proof -
  have inv: "search_inv p c g b'" and root: "resolved_node p c g k" "computed_node p c g k \<longrightarrow> k \<in> set (bdOrder b')"
    using v k(1) unfolding visited_def by blast+
  have ord: "dependency_ordered (computed_needs p c g) (bdOrder b')"
    and node: "\<And>k. k \<in> set (bdOrder b') \<Longrightarrow> computed_node p c g k \<and> (\<forall>d \<in> node_needs p c g k. resolved_node p c g d)"
    using inv unfolding search_inv_def by blast+
  have closed: "(y, k) \<in> (dependency_edges (node_needs p c g))\<^sup>* \<Longrightarrow> computed_node p c g y \<longrightarrow> y \<in> set (bdOrder b')" for y
    by (rule search_closed [OF ord _ _ root(2)]) (use node in blast)+
  have needs: "d \<in> node_needs p c g z \<Longrightarrow> computed_node p c g z" for d z
    by (auto simp: node_needs_def computed_node_def split: sum.splits option.splits)
  have "resolved_node p c g y"
  proof (cases "y = k")
    case False
    then obtain z where z: "(y, z) \<in> dependency_edges (node_needs p c g)" "(z, k) \<in> (dependency_edges (node_needs p c g))\<^sup>*"
      using k(2) by (meson converse_rtranclE)
    then have "z \<in> set (bdOrder b')" using closed [OF z(2)] needs by auto
    then show ?thesis using node z(1) by auto
  qed (simp add: root)
  moreover have "(y, y) \<notin> (dependency_edges (node_needs p c g))\<^sup>+"
  proof
    assume cyc: "(y, y) \<in> (dependency_edges (node_needs p c g))\<^sup>+"
    then obtain w where "w \<in> node_needs p c g y" by (meson edge_iff tranclD2)
    then have c: "computed_node p c g y" by (rule needs)
    then have "y \<in> set (bdOrder b')" using closed [OF k(2)] by blast
    then show False using cycle_is_computed [OF cyc c] ordered_no_cycle [OF ord] by blast
  qed
  ultimately show ?thesis ..
qed

lemma bounded_belowD:
  assumes "bounded_below p c g S fuel" "set ks = S"
  shows "\<exists>N. finite N \<and> set ks \<subseteq> N \<and> (\<forall>k \<in> N. node_needs p c g k \<subseteq> N) \<and> card N < fuel"
  using assms unfolding bounded_below_def by simp

text \<open>
  C28. A schema is accepted exactly when its computed fields can be evaluated. With fuel above the number
  of fields reached, \<open>Validate\<close> returns. When it accepts a candidate, no field that its fields reach,
  through any tables, is missing or part of a dependency cycle. When it rejects it, the context was
  cancelled, or resolving the sources or compiling the formulas of the candidate really fails with that
  error, or some field of the candidate reaches a real cycle, which the error names, or a field whose
  own dependencies really fail with that error.
\<close>

theorem validate_sound:
  fixes p candidate
  assumes bound: "\<And>c g. validated_snapshot (p\<lparr>pnReusePlans := False\<rparr>) candidate = Inr (c, g) \<Longrightarrow>
    bounded_below (p\<lparr>pnReusePlans := False\<rparr>) c g (Pair (table_id c) ` fdFieldID ` set (ssFields (etSnapshot c))) fuel"
  shows "\<exists>r. Validate fuel p candidate = Some r \<and> (case r of
      Inr _ \<Rightarrow> \<exists>c g. validated_snapshot (p\<lparr>pnReusePlans := False\<rparr>) candidate = Inr (c, g)
        \<and> (\<forall>f \<in> set (ssFields (etSnapshot c)). \<forall>k. (k, (table_id c, fdFieldID f)) \<in> (dependency_edges (node_needs (p\<lparr>pnReusePlans := False\<rparr>) c g))\<^sup>* \<longrightarrow>
             resolved_node (p\<lparr>pnReusePlans := False\<rparr>) c g k \<and> (k, k) \<notin> (dependency_edges (node_needs (p\<lparr>pnReusePlans := False\<rparr>) c g))\<^sup>+)
    | Inl e \<Rightarrow> (\<exists>x. e = ContextError x) \<or> validated_snapshot (p\<lparr>pnReusePlans := False\<rparr>) candidate = Inl e
        \<or> (\<exists>c g. validated_snapshot (p\<lparr>pnReusePlans := False\<rparr>) candidate = Inr (c, g)
             \<and> (\<exists>f \<in> set (ssFields (etSnapshot c)). search_error (p\<lparr>pnReusePlans := False\<rparr>) c g (table_id c, fdFieldID f) e)))"
proof -
  let ?p = "p\<lparr>pnReusePlans := False\<rparr>" and ?c0 = "activeTable candidate"
  let ?start = "bind (check_context ?p) (\<lambda>_. prepare_candidate ?p ?c0) (new_builder ?c0)"
  have b0: "caches_ok ?p ?c0 (\<lambda>_. None) (new_builder ?c0)" using new_builder_inv [of ?p ?c0] unfolding search_inv_def by blast
  show ?thesis
  proof (cases "check_context ?p (new_builder ?c0)")
    case (Inl e)
    then have "\<exists>x. e = ContextError x" by (auto simp: check_context_def split: option.splits)
    then show ?thesis using Inl by (simp add: Validate_def Let_def bind_def)
  next
    case (Inr x)
    then have x: "x = ((), (new_builder ?c0)\<lparr>bdTicks := 1\<rparr>)" by (auto simp: check_context_def new_builder_def split: option.splits)
    let ?b1 = "(new_builder ?c0)\<lparr>bdTicks := 1\<rparr>"
    have start: "?start = prepare_candidate ?p ?c0 ?b1" using Inr x by (simp add: bind_def)
    have b1: "caches_ok ?p ?c0 (\<lambda>_. None) ?b1" "bdCompiled ?b1 = (\<lambda>_. None)" using b0 by simp (simp add: new_builder_def)
    note prep = prepare_candidate_ok [OF refl b1]
    show ?thesis
    proof (cases "prepare_candidate ?p ?c0 ?b1")
      case (Inl e)
      then show ?thesis using prep start by (auto simp: Validate_def Let_def)
    next
      case (Inr y)
      then obtain c b2 where y: "y = (c, b2)" by (cases y)
      then obtain g where g: "validated_snapshot ?p candidate = Inr (c, g)" "caches_ok ?p c g b2" "same_search ?b1 b2" using prep Inr by auto
      have empty: "bdStack b2 = []" "bdOrder b2 = []" "bdState b2 = (\<lambda>_. 0)" using g(3) by (simp_all add: same_search_def new_builder_def)
      then have inv: "search_inv ?p c g b2" using g(2) by (simp add: search_inv_def)
      let ?ks = "map (Pair (table_id c)) (sort (map fdFieldID (ssFields (etSnapshot c))))"
      have "\<exists>N. finite N \<and> set ?ks \<subseteq> N \<and> (\<forall>k \<in> N. node_needs ?p c g k \<subseteq> N) \<and> card N < fuel"
        by (rule bounded_belowD [OF bound [OF g(1)]]) simp
      then obtain N where N: "finite N" "set ?ks \<subseteq> N" "\<forall>k \<in> N. node_needs ?p c g k \<subseteq> N" "card N < fuel"
        by (elim exE conjE)
      note returns = visit_returns [OF N(1) N(3) [rule_format]]
      have "visit_all fuel ?p ?ks b2 \<noteq> None"
        by (rule visit_all_returns [OF _ _ N(2) inv]) (rule returns, use N(2,4) empty in simp_all)
      then obtain r where r: "visit_all fuel ?p ?ks b2 = Some r" by blast
      have "visit_all_ok fuel ?p c g" by (rule visit_correct(2)) simp
      then have ok: "case r of Inl e \<Rightarrow> \<exists>k \<in> set ?ks. search_error ?p c g k e | Inr b' \<Rightarrow> visited ?p c g ?ks b2 b'"
        using r inv empty unfolding visit_all_ok_def by blast
      have run: "Validate fuel p candidate = Some (case r of Inl e \<Rightarrow> Inl e | Inr _ \<Rightarrow> Inr ())"
        using start Inr y r by (simp add: Validate_def Let_def split: sum.splits)
      show ?thesis
      proof (cases r)
        case Inl': (Inl e)
        then show ?thesis using run ok g(1) by auto
      next
        case Inr': (Inr b')
        then have v: "visited ?p c g ?ks b2 b'" using ok by simp
        have "resolved_node ?p c g k \<and> (k, k) \<notin> (dependency_edges (node_needs ?p c g))\<^sup>+"
          if "f \<in> set (ssFields (etSnapshot c))" "(k, (table_id c, fdFieldID f)) \<in> (dependency_edges (node_needs ?p c g))\<^sup>*" for f k
          by (rule visited_sound [OF v empty(1,2) _ that(2)]) (use that(1) in simp)
        then show ?thesis using run Inr' g(1) by auto
      qed
    qed
  qed
qed


section \<open>A lookup through a relation\<close>

text \<open>In \<open>orders\<close>, \<open>label\<close> is a formula of \<open>city\<close> and \<open>qty\<close>, and \<open>city\<close> looks up, through the relation
  \<open>customer\<close>, the field \<open>grade\<close> of \<open>customers\<close>, a formula of \<open>name\<close>.\<close>

definition search_customers :: exec_table where
  "search_customers = \<lparr>etSnapshot = \<lparr>ssTableID = ''customers'', ssFields = [demo_field ''name'' ''text'', demo_field ''grade'' LogicalFormula]\<rparr>,
     etFormulaSources = []\<rparr>"

definition search_orders :: exec_table where
  "search_orders = \<lparr>etSnapshot = \<lparr>ssTableID = ''orders'', ssFields =
     [(demo_field ''customer'' LogicalRelation)\<lparr>fdRelation := Some ''customers''\<rparr>,
      (demo_field ''city'' LogicalLookup)\<lparr>fdLookup := Some \<lparr>lsPath = [''customer''], lsTargetFieldID = ''grade'', lsCondition = None\<rparr>\<rparr>,
      demo_field ''qty'' ''number'', demo_field ''label'' LogicalFormula]\<rparr>, etFormulaSources = []\<rparr>"

definition search_planner :: planner where
  "search_planner = \<lparr>pnContext = (\<lambda>_. None),
     pnResolve = (\<lambda>i. if i = ''customers'' then Inr search_customers else Inl (Err ''not found'')),
     pnParse = (\<lambda>_. Inr OtherExpr),
     pnCompile = (\<lambda>t f. Inr (demo_formula (fdFieldID f) (if fdFieldID f = ''label'' then [''city'', ''qty''] else [''name'']))),
     pnReusePlans = False\<rparr>"

definition search_nodes :: "node list" where
  "search_nodes = [(''orders'', ''customer''), (''orders'', ''city''), (''orders'', ''qty''), (''orders'', ''label''),
     (''customers'', ''name''), (''customers'', ''grade'')]"

lemma needs_within: "node_needs p c g k \<subseteq> N \<longleftrightarrow>
    (case node_dependencies p c g k of Inr (Some ds) \<Rightarrow> list_all (\<lambda>d. d \<in> N) ds | _ \<Rightarrow> True)"
  by (auto simp: node_needs_def list_all_iff split: sum.splits option.splits)

definition needs_closed :: "planner \<Rightarrow> exec_table \<Rightarrow> (node \<Rightarrow> compiled option) \<Rightarrow> node list \<Rightarrow> bool" where
  "needs_closed p c g ns \<longleftrightarrow> list_all (\<lambda>k. case node_dependencies p c g k of
     Inr (Some ds) \<Rightarrow> list_all (\<lambda>d. d \<in> set ns) ds | _ \<Rightarrow> True) ns"

lemma closed_bounded:
  assumes "needs_closed p c g ns" "roots \<subseteq> set ns" "length ns < fuel"
  shows "bounded_below p c g roots fuel"
  unfolding bounded_below_def
proof (intro exI [of _ "set ns"] conjI)
  show "\<forall>k \<in> set ns. node_needs p c g k \<subseteq> set ns"
    using assms(1) unfolding needs_closed_def needs_within by (simp only: list_all_iff)
  show "card (set ns) < fuel" using card_length [of ns] assms(3) by (rule le_less_trans)
qed (use assms(2) in simp_all)

theorem ordered_dependencies_witness:
  "OrderedDependencies 7 search_planner search_orders ''label''
     = Some (Inr [(''customers'', ''grade''), (''orders'', ''city''), (''orders'', ''label'')])
   \<and> (''customers'', ''grade'') \<in> {k. computed_node (search_planner\<lparr>pnReusePlans := True\<rparr>) (activeTable search_orders) (\<lambda>_. None) k
       \<and> (k, (''orders'', ''label'')) \<in> (dependency_edges (node_needs (search_planner\<lparr>pnReusePlans := True\<rparr>) (activeTable search_orders) (\<lambda>_. None)))\<^sup>*}"
proof -
  have run: "OrderedDependencies 7 search_planner search_orders ''label''
     = Some (Inr [(''customers'', ''grade''), (''orders'', ''city''), (''orders'', ''label'')])" by code_simp
  have "needs_closed (search_planner\<lparr>pnReusePlans := True\<rparr>) (activeTable search_orders) (\<lambda>_. None) search_nodes" by code_simp
  then have "bounded_below (search_planner\<lparr>pnReusePlans := True\<rparr>) (activeTable search_orders) (\<lambda>_. None) {(table_id search_orders, ''label'')} 7"
    by (rule closed_bounded) (simp_all add: search_nodes_def search_orders_def)
  from ordered_dependencies [OF this] have "{k. computed_node (search_planner\<lparr>pnReusePlans := True\<rparr>) (activeTable search_orders) (\<lambda>_. None) k
       \<and> (k, (table_id search_orders, ''label'')) \<in> (dependency_edges (node_needs (search_planner\<lparr>pnReusePlans := True\<rparr>) (activeTable search_orders) (\<lambda>_. None)))\<^sup>*}
     = set [(''customers'', ''grade''), (''orders'', ''city''), (''orders'', ''label'')]" unfolding run by auto
  moreover have "table_id search_orders = ''orders''" by (simp add: search_orders_def)
  ultimately show ?thesis using run by simp
qed

definition search_validated :: "exec_table \<times> (node \<Rightarrow> compiled option)" where
  "search_validated = (case validated_snapshot (search_planner\<lparr>pnReusePlans := False\<rparr>) search_orders of Inr r \<Rightarrow> r | Inl e \<Rightarrow> (search_orders, \<lambda>_. None))"

theorem validate_sound_witness:
  "Validate 7 search_planner search_orders = Some (Inr ())
   \<and> resolved_node (search_planner\<lparr>pnReusePlans := False\<rparr>) (fst search_validated) (snd search_validated) (''orders'', ''label'')
   \<and> ((''orders'', ''label''), (''orders'', ''label'')) \<notin> (dependency_edges (node_needs (search_planner\<lparr>pnReusePlans := False\<rparr>) (fst search_validated) (snd search_validated)))\<^sup>+"
proof -
  let ?p = "search_planner\<lparr>pnReusePlans := False\<rparr>"
  have run: "Validate 7 search_planner search_orders = Some (Inr ())" by code_simp
  have "isl (validated_snapshot ?p search_orders) = False" by code_simp
  then have v: "validated_snapshot ?p search_orders = Inr search_validated"
    unfolding search_validated_def by (cases "validated_snapshot ?p search_orders") simp_all
  have closed: "needs_closed ?p (fst search_validated) (snd search_validated) search_nodes" by code_simp
  have ids: "map (\<lambda>f. (table_id (fst search_validated), fdFieldID f)) (ssFields (etSnapshot (fst search_validated))) = take 4 search_nodes" by code_simp
  have "bounded_below ?p (fst search_validated) (snd search_validated)
      (Pair (table_id (fst search_validated)) ` fdFieldID ` set (ssFields (etSnapshot (fst search_validated)))) 7"
    by (rule closed_bounded [OF closed]) (use arg_cong [OF ids, of set] in \<open>auto simp: search_nodes_def image_image\<close>)
  then have "validated_snapshot ?p search_orders = Inr (c, g) \<Longrightarrow>
      bounded_below ?p c g (Pair (table_id c) ` fdFieldID ` set (ssFields (etSnapshot c))) 7" for c g
    using v by (metis fst_conv snd_conv sum.inject(2))
  note sound = validate_sound [of search_planner search_orders 7, OF this, unfolded run v]
  have "(''orders'', ''label'') \<in> set (map (\<lambda>f. (table_id (fst search_validated), fdFieldID f)) (ssFields (etSnapshot (fst search_validated))))"
    unfolding ids by (simp add: search_nodes_def)
  then obtain f where f: "f \<in> set (ssFields (etSnapshot (fst search_validated)))" "(table_id (fst search_validated), fdFieldID f) = (''orders'', ''label'')"
    by auto
  obtain c g where cg: "search_validated = (c, g)" by (cases search_validated)
  have "resolved_node ?p c g (''orders'', ''label'') \<and> ((''orders'', ''label''), (''orders'', ''label'')) \<notin> (dependency_edges (node_needs ?p c g))\<^sup>+"
    using sound f unfolding cg by auto
  then show ?thesis using run by (simp only: cg fst_conv snd_conv simp_thms)
qed

end
