(* ===== verification/Result_Monad.thy ===== *)
theory Result_Monad
  imports VT_Prelude "HOL-Library.Multiset"
begin

text \<open>
  Sequencing for code that is one long series of checks: \<open>and_then\<close> runs the next statement
  unless the previous one returned an error, \<open>check\<close> is \<open>if !b { return err }\<close>, \<open>need\<close> is
  \<open>if !ok { return err }\<close> after a lookup or a type assertion, \<open>check_all\<close> a loop whose body only
  checks, \<open>fold_result\<close> a loop that also updates a local variable. The lemmas in
  \<open>result_simps\<close> turn "returns no error" into a formula. \<open>add_total\<close> is the accumulation into a
  map of \<open>*big.Int\<close>; \<open>total_of\<close> reads such a map, with zero for a missing key.
\<close>

named_theorems result_simps \<open>when the pieces of a checker return\<close>

definition and_then :: "'a result \<Rightarrow> ('a \<Rightarrow> 'b result) \<Rightarrow> 'b result" where
  "and_then m f = (case m of Inl e \<Rightarrow> Inl e | Inr x \<Rightarrow> f x)"

definition check :: "bool \<Rightarrow> go_error \<Rightarrow> unit result" where
  "check b e = (if b then Inr () else Inl e)"

definition need :: "'a option \<Rightarrow> go_error \<Rightarrow> 'a result" where
  "need x e = (case x of None \<Rightarrow> Inl e | Some y \<Rightarrow> Inr y)"

primrec check_all :: "('a \<Rightarrow> unit result) \<Rightarrow> 'a list \<Rightarrow> unit result" where
  "check_all f [] = Inr ()"
| "check_all f (x # xs) = and_then (f x) (\<lambda>_. check_all f xs)"

primrec fold_result :: "('s \<Rightarrow> 'a \<Rightarrow> 's result) \<Rightarrow> 's \<Rightarrow> 'a list \<Rightarrow> 's result" where
  "fold_result f s [] = Inr s"
| "fold_result f s (x # xs) = and_then (f s x) (\<lambda>t. fold_result f t xs)"

primrec map_result :: "('a \<Rightarrow> 'b result) \<Rightarrow> 'a list \<Rightarrow> 'b list result" where
  "map_result f [] = Inr []"
| "map_result f (x # xs) = and_then (f x) (\<lambda>y. and_then (map_result f xs) (\<lambda>ys. Inr (y # ys)))"

lemma and_then_cong [fundef_cong]:
  "m = m' \<Longrightarrow> (\<And>x. m' = Inr x \<Longrightarrow> f x = g x) \<Longrightarrow> and_then m f = and_then m' g"
  by (cases m) (auto simp: and_then_def)

lemma check_all_cong [fundef_cong]:
  "xs = ys \<Longrightarrow> (\<And>x. x \<in> set ys \<Longrightarrow> f x = g x) \<Longrightarrow> check_all f xs = check_all g ys"
  by (induction xs arbitrary: ys) (auto intro!: and_then_cong)

lemma map_result_cong [fundef_cong]:
  "xs = ys \<Longrightarrow> (\<And>x. x \<in> set ys \<Longrightarrow> f x = g x) \<Longrightarrow> map_result f xs = map_result g ys"
  by (induction xs arbitrary: ys) (auto intro!: and_then_cong)

lemma fold_result_cong [fundef_cong]:
  "s = t \<Longrightarrow> xs = ys \<Longrightarrow> (\<And>x s. x \<in> set ys \<Longrightarrow> f s x = g s x) \<Longrightarrow>
     fold_result f s xs = fold_result g t ys"
  by (induction xs arbitrary: ys s t) (auto intro!: and_then_cong)

lemma and_then_simps [simp]:
  "and_then (Inr x) f = f x" "and_then (Inl e) f = Inl e"
  by (simp_all add: and_then_def)

lemma and_then_ok [result_simps]: "and_then m f = Inr y \<longleftrightarrow> (\<exists>x. m = Inr x \<and> f x = Inr y)"
  by (cases m) (auto simp: and_then_def)

lemma need_simps [simp]: "need (Some y) e = Inr y" "need None e = Inl e"
  by (simp_all add: need_def)

lemma need_ok [result_simps]: "need x e = Inr y \<longleftrightarrow> x = Some y"
  by (cases x) auto

lemma check_ok [result_simps]: "check b e = Inr u \<longleftrightarrow> b"
  by (simp add: check_def)

lemma check_all_ok [result_simps]: "check_all f xs = Inr u \<longleftrightarrow> (\<forall>x \<in> set xs. f x = Inr ())"
  by (induction xs) (auto simp: and_then_ok)

lemma map_result_ok [result_simps]:
  "map_result f xs = Inr ys \<longleftrightarrow> list_all2 (\<lambda>x y. f x = Inr y) xs ys"
proof (induction xs arbitrary: ys)
  case Nil
  then show ?case by auto
next
  case (Cons x xs)
  then show ?case by (cases ys) (auto simp: and_then_ok)
qed

lemma fold_result_append:
  "fold_result f s (xs @ ys) = and_then (fold_result f s xs) (\<lambda>t. fold_result f t ys)"
  by (induction xs arbitrary: s) (auto simp: and_then_def split: sum.splits)

section \<open>Totals\<close>

definition total_of :: "('k \<times> int) list \<Rightarrow> 'k \<Rightarrow> int" where
  "total_of m k = (case map_of m k of None \<Rightarrow> 0 | Some n \<Rightarrow> n)"

definition add_total :: "('k \<times> int) list \<Rightarrow> 'k \<Rightarrow> int \<Rightarrow> ('k \<times> int) list" where
  "add_total m k n = AList.update k (total_of m k + n) m"

lemma total_of_Nil [simp]: "total_of [] k = 0"
  by (simp add: total_of_def)

lemma total_of_add [simp]: "total_of (add_total m k n) j = total_of m j + (if j = k then n else 0)"
  by (simp add: total_of_def add_total_def update_conv')

lemma add_total_keys [simp]: "fst ` set (add_total m k n) = insert k (fst ` set m)"
  by (simp add: add_total_def dom_update)

lemma add_total_distinct: "distinct (map fst m) \<Longrightarrow> distinct (map fst (add_total m k n))"
  by (simp add: add_total_def distinct_update)

text \<open>A loop that adds up amounts per key computes the sum over the rows of the key.\<close>

definition sum_where :: "('a \<Rightarrow> bool) \<Rightarrow> ('a \<Rightarrow> int) \<Rightarrow> 'a list \<Rightarrow> int" where
  "sum_where P q xs = sum_list (map q (filter P xs))"

lemma sum_where_simps [simp]:
  "sum_where P q [] = 0"
  "sum_where P q (x # xs) = (if P x then q x else 0) + sum_where P q xs"
  "sum_where P q (xs @ ys) = sum_where P q xs + sum_where P q ys"
  by (simp_all add: sum_where_def)

lemma sum_where_nonneg: "(\<And>x. x \<in> set xs \<Longrightarrow> P x \<Longrightarrow> 0 \<le> q x) \<Longrightarrow> 0 \<le> sum_where P q xs"
  by (induction xs) (auto simp: add_nonneg_nonneg)

lemma sum_where_cong [fundef_cong]:
  "xs = ys \<Longrightarrow> (\<And>x. x \<in> set ys \<Longrightarrow> P x = Q x) \<Longrightarrow> (\<And>x. x \<in> set ys \<Longrightarrow> Q x \<Longrightarrow> q x = r x) \<Longrightarrow>
     sum_where P q xs = sum_where Q r ys"
  by (induction xs arbitrary: ys) auto

lemma sum_where_mset:
  assumes "mset xs = mset ys"
  shows "sum_where P q xs = sum_where P q ys"
proof -
  have "sum_where P q zs = sum_mset (image_mset q (filter_mset P (mset zs)))" for zs
    by (simp add: sum_where_def flip: sum_mset_sum_list)
  then show ?thesis using assms by simp
qed

definition collect_totals ::
  "('a \<Rightarrow> bool) \<Rightarrow> ('a \<Rightarrow> 'k) \<Rightarrow> ('a \<Rightarrow> int) \<Rightarrow> ('k \<times> int) list \<Rightarrow> 'a list \<Rightarrow> ('k \<times> int) list" where
  "collect_totals P key q m xs = foldl (\<lambda>m x. if P x then add_total m (key x) (q x) else m) m xs"

lemma total_of_collect:
  "total_of (collect_totals P key q m xs) k = total_of m k + sum_where (\<lambda>x. P x \<and> key x = k) q xs"
  by (induction xs arbitrary: m) (auto simp: collect_totals_def)

lemma collect_totals_keys:
  "fst ` set (collect_totals P key q m xs) = fst ` set m \<union> key ` set (filter P xs)"
  by (induction xs arbitrary: m) (auto simp: collect_totals_def)

lemma collect_totals_distinct:
  "distinct (map fst m) \<Longrightarrow> distinct (map fst (collect_totals P key q m xs))"
  by (induction xs arbitrary: m) (auto simp: collect_totals_def add_total_distinct)

section \<open>The mass of a map\<close>

text \<open>The sum of the totals whose keys have a property.\<close>

definition mass :: "('k \<Rightarrow> bool) \<Rightarrow> ('k \<times> int) list \<Rightarrow> int" where
  "mass P m = sum_where (\<lambda>(k, _). P k) snd m"

lemma mass_Nil [simp]: "mass P [] = 0"
  by (simp add: mass_def)

lemma mass_Cons [simp]: "mass P ((k, n) # m) = (if P k then n else 0) + mass P m"
  by (simp add: mass_def)

lemma mass_add:
  "distinct (map fst m) \<Longrightarrow> mass P (add_total m k n) = mass P m + (if P k then n else 0)"
proof (induction m)
  case Nil
  then show ?case by (simp add: add_total_def)
next
  case (Cons x m)
  obtain j v where x: "x = (j, v)" by force
  show ?case
  proof (cases "j = k")
    case True
    then show ?thesis by (simp add: x add_total_def total_of_def)
  next
    case False
    then have "add_total (x # m) k n = x # add_total m k n"
      by (simp add: x add_total_def total_of_def)
    then show ?thesis using Cons by (simp add: x)
  qed
qed

lemma total_of_entry: "distinct (map fst m) \<Longrightarrow> (k, n) \<in> set m \<Longrightarrow> total_of m k = n"
  by (simp add: total_of_def)

lemma total_of_missing: "k \<notin> fst ` set m \<Longrightarrow> total_of m k = 0"
  by (simp add: total_of_def map_of_eq_None_iff split: option.splits) (metis map_of_eq_None_iff option.simps(3))

lemma mass_sum:
  assumes "distinct (map fst m)" "finite K" "fst ` set m \<subseteq> K"
  shows "mass P m = (\<Sum>k | k \<in> K \<and> P k. total_of m k)"
  using assms
proof (induction m)
  case Nil
  then show ?case by simp
next
  case (Cons x m)
  obtain j v where x: "x = (j, v)" by force
  have j: "j \<in> K" "j \<notin> fst ` set m" using Cons.prems by (auto simp: x)
  have "total_of (x # m) k = total_of m k + (if k = j then v else 0)" for k
    using j(2) by (auto simp: x total_of_def split: option.splits dest: map_of_SomeD)
      (metis (no_types, lifting) map_of_SomeD image_eqI fst_conv option.distinct(1) option.exhaust)
  then have "(\<Sum>k | k \<in> K \<and> P k. total_of (x # m) k)
      = (\<Sum>k | k \<in> K \<and> P k. total_of m k) + (\<Sum>k | k \<in> K \<and> P k. if k = j then v else 0)"
    by (simp add: sum.distrib)
  also have "(\<Sum>k | k \<in> K \<and> P k. if k = j then v else 0) = (if P j then v else 0)"
    using Cons.prems(2) j(1) by simp
  finally show ?case using Cons by (simp add: x)
qed

section \<open>Facts that outlive a run\<close>

text \<open>
  Every state of a run can be viewed; when one step keeps something of the view, and keeping is
  transitive, the whole run keeps it.
\<close>

locale persistent =
  fixes step :: "'s \<Rightarrow> 's \<Rightarrow> bool"
    and view :: "'s \<Rightarrow> 'v \<Rightarrow> bool"
    and kept :: "'v \<Rightarrow> 'v \<Rightarrow> bool"
  assumes step_view: "step s t \<Longrightarrow> \<exists>v. view s v"
    and step_kept: "step s t \<Longrightarrow> view s v \<Longrightarrow> view t w \<Longrightarrow> kept v w"
    and kept_trans: "kept u v \<Longrightarrow> kept v w \<Longrightarrow> kept u w"
begin

lemma steps_kept: "step\<^sup>+\<^sup>+ s t \<Longrightarrow> view s v \<Longrightarrow> view t w \<Longrightarrow> kept v w"
proof (induction arbitrary: w rule: tranclp_induct)
  case (base t)
  then show ?case by (rule step_kept)
next
  case (step t u)
  obtain x where x: "view t x" using step.hyps(2) step_view by blast
  have "kept v x" using step.IH step.prems(1) x by blast
  moreover have "kept x w" using step_kept [OF step.hyps(2) x step.prems(2)] .
  ultimately show ?case by (rule kept_trans)
qed

end

end
