(* ===== verification/Transaction_Rules.thy ===== *)
theory Transaction_Rules
  imports Exact_Decimal Result_Monad
begin

text \<open>
  The rules a plugin declares for its tables (\<open>sidecar/internal/transactionrules\<close>: the types of
  \<open>rules.go\<close>, \<open>paths.go\<close>, \<open>reversal.go\<close> and \<open>guards.go\<close>) and the static checks of a declaration.

  A nil slice is \<^const>\<open>None\<close>; it matters to a few checks and to \<open>reflect.DeepEqual\<close>. A Go map
  that is ranged over is an association list, one entry per key: its order stands for the order of
  iteration, which Go leaves open. A nil pointer dereference or an index out of range is the error
  \<open>go_panic\<close>.
\<close>

section \<open>Declarations\<close>

definition Contract :: string where "Contract = ''vibetable.plugin-transactions.v1''"
definition MaxRows :: int where "MaxRows = 10000"
definition MaxBytes :: int where "MaxBytes = 2 ^ 20"
definition MaxRules :: nat where "MaxRules = 192"
definition MaxRegistrations :: nat where "MaxRegistrations = 64"
definition MaxDecimals :: nat where "MaxDecimals = 64"
definition MaxParentFreezeFields :: nat where "MaxParentFreezeFields = 64"
definition MaxFrozenStates :: nat where "MaxFrozenStates = 32"

definition failure :: "string \<Rightarrow> go_error" where
  "failure code = Err (''transaction.'' @ code)"

definition go_panic :: go_error where
  "go_panic = Err ''panic''"

type_synonym 'a slice = "'a list option"

definition elems :: "'a slice \<Rightarrow> 'a list" where
  "elems s = (case s of None \<Rightarrow> [] | Some xs \<Rightarrow> xs)"

lemma elems_simps [simp]: "elems None = []" "elems (Some xs) = xs"
  by (simp_all add: elems_def)

record relation_step =
  rsField :: string
  rsTarget :: string

record path_match =
  pmLeft :: "relation_step slice"
  pmRight :: "relation_step slice"

record decimal =
  dcEntity :: string
  dcField :: string
  dcNullable :: bool
  dcFormat :: format
  dcSign :: string

record reservation_phase =
  phPath :: "relation_step slice"
  phField :: string
  phInstructionDraft :: string
  phInstructionOpen :: string
  phInstructionClosed :: string
  phInstructionTransferred :: string
  phDeliveryDraft :: string
  phDeliveryConfirmed :: string

record field_ref =
  frPath :: "relation_step slice"
  frField :: string

record reservation_plans =
  plEntity :: string
  plQuantity :: string
  plScope :: string
  plLogicalItem :: relation_step
  plShare :: string
  plCurrentWhen :: path_match

record reservation_spec =
  rvObligationEntity :: string
  rvObligationQuantity :: string
  rvScope :: string
  rvQuantity :: string
  rvPurpose :: field_ref
  rvNormalPurpose :: string
  rvPhase :: reservation_phase
  rvPlanItem :: string
  rvInstructionSource :: string
  rvTransferredFrom :: string
  rvPlans :: "reservation_plans option"

record reversal_spec =
  rlOriginal :: string
  rlQuantity :: string
  rlPurpose :: string
  rlReversalPurpose :: string
  rlOriginalPurpose :: string
  rlOwnerPath :: "relation_step slice"
  rlOwnerStateField :: string
  rlRequiredStates :: "string slice"
  rlConfirmedState :: string
  rlSameFields :: "string slice"
  rlSameOwnerFields :: "string slice"

record rule =
  ruMatch :: path_match
  ruSkipEmptyLeftEnd :: bool
  ruWhenPresent :: string
  ruCurrentWhen :: "path_match option"
  ruID :: string
  ruKind :: string
  ruEntity :: string
  ruFields :: "string slice"
  ruField :: string
  ruTarget :: string
  ruRelation :: string
  ruAmount :: string
  ruLimit :: string
  ruTransitions :: "(string \<times> string slice) slice"
  ruFrozenStates :: "string slice"
  ruParentPath :: "relation_step slice"
  ruParentStateField :: string
  ruReservation :: "reservation_spec option"
  ruReversal :: "reversal_spec option"

record rule_declaration =
  dlContract :: string
  dlModelID :: string
  dlVersion :: int
  dlDecimals :: "decimal slice"
  dlRules :: "rule slice"

section \<open>Static checks\<close>

definition steps_named :: "relation_step list \<Rightarrow> bool" where
  "steps_named = list_all (\<lambda>s. rsField s \<noteq> [] \<and> rsTarget s \<noteq> [])"

text \<open>\<open>PathMatch.valid\<close>: both paths are given and short; they end at one entity, or the right one is
  empty and stands for the row itself.\<close>

definition path_match_valid :: "string \<Rightarrow> path_match \<Rightarrow> bool" where
  "path_match_valid self m = (case (pmLeft m, pmRight m) of
     (Some left, Some right) \<Rightarrow>
       length left \<le> 4 \<and> steps_named left \<and> length right \<le> 4 \<and> steps_named right
       \<and> left \<noteq> []
       \<and> (if right = [] then self \<noteq> [] \<and> rsTarget (last left) = self
          else rsTarget (last left) = rsTarget (last right))
   | _ \<Rightarrow> False)"

definition names_distinct :: "string list \<Rightarrow> bool" where
  "names_distinct xs \<longleftrightarrow> [] \<notin> set xs \<and> distinct xs"

definition reversal_valid :: "reversal_spec \<Rightarrow> bool" where
  "reversal_valid s \<longleftrightarrow>
     rlOriginal s \<noteq> [] \<and> rlQuantity s \<noteq> [] \<and> rlPurpose s \<noteq> [] \<and> rlReversalPurpose s \<noteq> []
     \<and> rlOriginalPurpose s \<noteq> [] \<and> rlReversalPurpose s \<noteq> rlOriginalPurpose s
     \<and> rlOwnerStateField s \<noteq> [] \<and> rlConfirmedState s \<noteq> []
     \<and> 1 \<le> length (elems (rlOwnerPath s)) \<and> length (elems (rlOwnerPath s)) \<le> 4
     \<and> rlConfirmedState s \<in> set (elems (rlRequiredStates s))
     \<and> 1 \<le> length (elems (rlRequiredStates s))
     \<and> length (elems (rlRequiredStates s)) \<le> MaxFrozenStates
     \<and> rlSameFields s \<noteq> None \<and> rlSameOwnerFields s \<noteq> None
     \<and> steps_named (elems (rlOwnerPath s))
     \<and> list_all (\<lambda>fields. length fields \<le> MaxParentFreezeFields \<and> names_distinct fields)
         [elems (rlRequiredStates s), elems (rlSameFields s), elems (rlSameOwnerFields s)]"

definition reservation_valid :: "reservation_spec \<Rightarrow> bool" where
  "reservation_valid s \<longleftrightarrow>
     rvObligationEntity s \<noteq> [] \<and> rvObligationQuantity s \<noteq> [] \<and> rvScope s \<noteq> []
     \<and> rvQuantity s \<noteq> [] \<and> rvNormalPurpose s \<noteq> []
     \<and> 1 \<le> length (elems (frPath (rvPurpose s))) \<and> length (elems (frPath (rvPurpose s))) \<le> 4
     \<and> frField (rvPurpose s) \<noteq> [] \<and> steps_named (elems (frPath (rvPurpose s)))
     \<and> 1 \<le> length (elems (phPath (rvPhase s))) \<and> length (elems (phPath (rvPhase s))) \<le> 4
     \<and> phField (rvPhase s) \<noteq> [] \<and> steps_named (elems (phPath (rvPhase s)))
     \<and> names_distinct
         [phInstructionDraft (rvPhase s), phInstructionOpen (rvPhase s),
          phInstructionClosed (rvPhase s), phInstructionTransferred (rvPhase s),
          phDeliveryDraft (rvPhase s), phDeliveryConfirmed (rvPhase s)]
     \<and> \<not> (rvInstructionSource s = [] \<and> rvTransferredFrom s \<noteq> [])
     \<and> (case rvPlans s of
          Some p \<Rightarrow>
            plEntity p \<noteq> [] \<and> plQuantity p \<noteq> [] \<and> plScope p \<noteq> []
            \<and> rsField (plLogicalItem p) \<noteq> [] \<and> rsTarget (plLogicalItem p) \<noteq> []
            \<and> plShare p \<noteq> [] \<and> rvPlanItem s \<noteq> []
            \<and> path_match_valid (plEntity p) (plCurrentWhen p)
        | None \<Rightarrow> rvPlanItem s = [])"

text \<open>The key of the maps of decimals: entity and field, with a NUL byte between them.\<close>

definition nul :: char where "nul = CHR 0x00"

definition field_key :: "string \<Rightarrow> string \<Rightarrow> string" where
  "field_key entity field = entity @ nul # field"

fun decimal_table :: "(string \<times> decimal) list \<Rightarrow> decimal list \<Rightarrow> (string \<times> decimal) list result" where
  "decimal_table seen [] = Inr seen"
| "decimal_table seen (f # fs) =
     (let key = field_key (dcEntity f) (dcField f) in
      if dcEntity f = [] \<or> dcField f = [] \<or> Validate (dcFormat f) \<noteq> Inr ()
         \<or> (dcSign f \<noteq> [] \<and> dcSign f \<noteq> ''nonnegative'' \<and> dcSign f \<noteq> ''positive'')
      then Inl (failure ''decimal_invalid'')
      else if map_of seen key \<noteq> None then Inl (failure ''decimal_invalid'')
      else decimal_table ((key, f) # seen) fs)"

text \<open>Fields that only one kind of rule may have, and the conditions of each kind.\<close>

definition foreign_fields :: "rule \<Rightarrow> bool" where
  "foreign_fields r \<longleftrightarrow>
     ((pmLeft (ruMatch r) \<noteq> None \<or> pmRight (ruMatch r) \<noteq> None \<or> ruWhenPresent r \<noteq> []
       \<or> ruSkipEmptyLeftEnd r) \<and> ruKind r \<noteq> ''sameTarget'')
     \<or> (case ruCurrentWhen r of None \<Rightarrow> False
        | Some m \<Rightarrow> ruKind r \<noteq> ''balance'' \<or> \<not> path_match_valid [] m)
     \<or> ((ruParentPath r \<noteq> None \<or> ruParentStateField r \<noteq> []) \<and> ruKind r \<noteq> ''parentFreeze'')
     \<or> (ruReservation r \<noteq> None \<and> ruKind r \<noteq> ''reservationBalance'')
     \<or> (ruReversal r \<noteq> None \<and> ruKind r \<noteq> ''reversalBalance'')"

definition no_transfer_fields :: "rule \<Rightarrow> bool" where
  "no_transfer_fields r \<longleftrightarrow> ruRelation r = [] \<and> ruAmount r = [] \<and> ruLimit r = []"

definition no_states :: "rule \<Rightarrow> bool" where
  "no_states r \<longleftrightarrow> elems (ruTransitions r) = [] \<and> elems (ruFrozenStates r) = []"

definition no_match :: "rule \<Rightarrow> bool" where
  "no_match r \<longleftrightarrow> pmLeft (ruMatch r) = None \<and> pmRight (ruMatch r) = None \<and> ruWhenPresent r = []
     \<and> \<not> ruSkipEmptyLeftEnd r \<and> ruCurrentWhen r = None"

definition kind_valid :: "(string \<times> decimal) list \<Rightarrow> rule \<Rightarrow> bool" where
  "kind_valid decimals r \<longleftrightarrow>
     (let kind = ruKind r; fields = elems (ruFields r) in
      if kind = ''sameTarget'' then
        path_match_valid (ruEntity r) (ruMatch r)
        \<and> (ruWhenPresent r = [] \<or> ruWhenPresent r = rsField (hd (elems (pmLeft (ruMatch r)))))
        \<and> fields = [] \<and> ruField r = [] \<and> ruTarget r = [] \<and> no_transfer_fields r \<and> no_states r
      else if kind = ''unique'' \<or> kind = ''atMostOne'' then
        (kind \<noteq> ''atMostOne'' \<or> length fields = 2) \<and> 0 < length fields \<and> length fields \<le> 8
        \<and> ruField r = [] \<and> ruTarget r = [] \<and> no_transfer_fields r \<and> no_states r
      else if kind = ''reference'' then
        ruField r \<noteq> [] \<and> ruTarget r \<noteq> [] \<and> fields = [] \<and> no_transfer_fields r \<and> no_states r
      else if kind = ''conservation'' \<or> kind = ''balance'' then
        ruTarget r \<noteq> [] \<and> ruRelation r \<noteq> [] \<and> ruAmount r \<noteq> [] \<and> ruLimit r \<noteq> []
        \<and> ruField r = [] \<and> fields = [] \<and> no_states r
        \<and> (case map_of decimals (field_key (ruEntity r) (ruAmount r)) of
             None \<Rightarrow> False | Some amount \<Rightarrow> \<not> dcNullable amount)
        \<and> (case map_of decimals (field_key (ruTarget r) (ruLimit r)) of
             None \<Rightarrow> False | Some limit \<Rightarrow> \<not> dcNullable limit)
      else if kind = ''state'' then
        ruField r \<noteq> [] \<and> ruTarget r = [] \<and> no_transfer_fields r
        \<and> 0 < length (elems (ruTransitions r)) \<and> length (elems (ruTransitions r)) \<le> 32
        \<and> length fields \<le> 64 \<and> length (elems (ruFrozenStates r)) \<le> 32
      else if kind = ''parentFreeze'' then
        0 < length (elems (ruParentPath r)) \<and> length (elems (ruParentPath r)) \<le> 4
        \<and> ruParentStateField r \<noteq> [] \<and> 0 < length (elems (ruFrozenStates r))
        \<and> length (elems (ruFrozenStates r)) \<le> MaxFrozenStates
        \<and> length fields \<le> MaxParentFreezeFields \<and> ruField r = [] \<and> ruTarget r = []
        \<and> no_transfer_fields r \<and> elems (ruTransitions r) = [] \<and> no_match r
        \<and> ruReservation r = None
      else if kind = ''reservationBalance'' then
        (case ruReservation r of None \<Rightarrow> False | Some res \<Rightarrow> reservation_valid res)
        \<and> ruField r = [] \<and> ruTarget r = [] \<and> no_transfer_fields r \<and> no_states r \<and> fields = []
        \<and> no_match r \<and> elems (ruParentPath r) = [] \<and> ruParentStateField r = []
      else if kind = ''reversalBalance'' then
        (case ruReversal r of None \<Rightarrow> False
         | Some spec \<Rightarrow>
             reversal_valid spec
             \<and> (case map_of decimals (field_key (ruEntity r) (rlQuantity spec)) of
                  None \<Rightarrow> False
                | Some quantity \<Rightarrow> \<not> dcNullable quantity
                    \<and> (dcSign quantity = ''positive'' \<or> dcSign quantity = ''nonnegative''))
             \<and> ruField r = [] \<and> ruTarget r = [] \<and> no_transfer_fields r \<and> no_states r
             \<and> fields = [] \<and> no_match r \<and> ruParentPath r = None \<and> ruParentStateField r = []
             \<and> ruReservation r = None)
      else False)"

definition transitions_valid :: "(string \<times> string slice) list \<Rightarrow> bool" where
  "transitions_valid = list_all (\<lambda>(state, following). state \<noteq> [] \<and> length (elems following) \<le> 32
     \<and> list_all (\<lambda>s. s \<noteq> []) (elems following))"

fun rules_valid :: "(string \<times> decimal) list \<Rightarrow> string list \<Rightarrow> rule list \<Rightarrow> bool" where
  "rules_valid decimals ids [] \<longleftrightarrow> True"
| "rules_valid decimals ids (r # rs) \<longleftrightarrow>
     \<not> (ruID r = [] \<or> length (ruID r) > 64 \<or> ruID r \<in> set ids \<or> ruEntity r = [])
     \<and> \<not> foreign_fields r \<and> kind_valid decimals r
     \<and> names_distinct (elems (ruFields r)) \<and> transitions_valid (elems (ruTransitions r))
     \<and> rules_valid decimals (ruID r # ids) rs"

text \<open>The quantities of a reservation rule are declared with one format and a sign.\<close>

definition quantity_keys :: "rule \<Rightarrow> reservation_spec \<Rightarrow> string list" where
  "quantity_keys r res =
     [field_key (ruEntity r) (rvQuantity res),
      field_key (rvObligationEntity res) (rvObligationQuantity res)]
     @ (case rvPlans res of None \<Rightarrow> [] | Some p \<Rightarrow> [field_key (plEntity p) (plQuantity p)])"

definition quantity_signed :: "(string \<times> decimal) list \<Rightarrow> string \<Rightarrow> bool" where
  "quantity_signed decimals key = (case map_of decimals key of None \<Rightarrow> False
     | Some d \<Rightarrow> \<not> dcNullable d \<and> (dcSign d = ''nonnegative'' \<or> dcSign d = ''positive''))"

definition zero_format :: format where
  "zero_format = \<lparr>fmtStorage = [], fmtScale = 0, fmtDigits = 0\<rparr>"

definition declared_format :: "(string \<times> decimal) list \<Rightarrow> string \<Rightarrow> format" where
  "declared_format decimals key =
     (case map_of decimals key of None \<Rightarrow> zero_format | Some d \<Rightarrow> dcFormat d)"

definition reservation_decimals :: "(string \<times> decimal) list \<Rightarrow> rule \<Rightarrow> bool" where
  "reservation_decimals decimals r = (case ruReservation r of
     Some res \<Rightarrow>
       if ruKind r \<noteq> ''reservationBalance'' then True
       else list_all (\<lambda>key. quantity_signed decimals key
              \<and> declared_format decimals key = declared_format decimals (hd (quantity_keys r res)))
              (quantity_keys r res)
   | None \<Rightarrow> True)"

definition Declaration_Validate :: "rule_declaration \<Rightarrow> unit result" where
  "Declaration_Validate d =
     and_then (check (dlContract d = Contract \<and> dlModelID d \<noteq> [] \<and> 1 \<le> dlVersion d
         \<and> elems (dlRules d) \<noteq> [] \<and> length (elems (dlRules d)) \<le> MaxRules
         \<and> length (elems (dlDecimals d)) \<le> MaxDecimals) (failure ''rules_invalid'')) (\<lambda>_.
     and_then (decimal_table [] (elems (dlDecimals d))) (\<lambda>decimals.
     and_then (check (rules_valid decimals [] (elems (dlRules d))) (failure ''rules_invalid'')) (\<lambda>_.
       check (list_all (reservation_decimals decimals) (elems (dlRules d)))
         (failure ''rules_invalid''))))"

end
