(* ===== verification/Rule_Checks.thy ===== *)
theory Rule_Checks
  imports Transaction_Rules
begin

text \<open>
  Checking a change against one rule (\<open>Registration.Validate\<close> in \<open>rules.go\<close>, \<open>paths.go\<close>,
  \<open>validateReversal\<close>, \<open>validateParentFreeze\<close>): the images of the protected tables before and after
  the change, relation paths through them, and every kind of rule except \<open>reservationBalance\<close>, which
  has the theory \<open>Reservation_Checks\<close>.
\<close>

section \<open>Images\<close>

type_synonym row = "(string \<times> go_any) list"
type_synonym rows = "(string \<times> row) list"
type_synonym images = "(string \<times> rows) list"

definition rows_of :: "images \<Rightarrow> string \<Rightarrow> rows" where
  "rows_of images entity = (case map_of images entity of None \<Rightarrow> [] | Some rows \<Rightarrow> rows)"

definition row_at :: "images \<Rightarrow> string \<Rightarrow> string \<Rightarrow> row option" where
  "row_at images entity i = map_of (rows_of images entity) i"

text \<open>A missing field reads as nil, and so does every field of a missing row.\<close>

definition cell :: "row \<Rightarrow> string \<Rightarrow> go_any" where
  "cell row field = (case map_of row field of None \<Rightarrow> AnyNil | Some v \<Rightarrow> v)"

definition go_string :: "go_any \<Rightarrow> string option" where
  "go_string v = (case v of AnyString s \<Rightarrow> Some s | _ \<Rightarrow> None)"

lemma go_string_simps [simp]:
  "go_string (AnyString s) = Some s" "go_string v = Some s \<longleftrightarrow> v = AnyString s"
  by (auto simp: go_string_def split: go_any.split_asm)

definition blank :: "go_any \<Rightarrow> bool" where
  "blank v \<longleftrightarrow> v = AnyNil \<or> v = AnyString []"

text \<open>\<open>reflect.DeepEqual\<close> on two dynamic values; two floats are equal when the numbers are.\<close>

definition float_eq :: "go_float \<Rightarrow> go_float \<Rightarrow> bool" where
  "float_eq x y = (case (x, y) of
     (Dyadic m e, Dyadic n f) \<Rightarrow> m * 2 ^ nat (e - min e f) = n * 2 ^ nat (f - min e f)
   | (Inf a, Inf b) \<Rightarrow> a = b
   | _ \<Rightarrow> False)"

definition deep_equal :: "go_any \<Rightarrow> go_any \<Rightarrow> bool" where
  "deep_equal v w = (case (v, w) of (AnyFloat x, AnyFloat y) \<Rightarrow> float_eq x y | _ \<Rightarrow> v = w)"

section \<open>Relation paths\<close>

definition reference_violation :: go_error where
  "reference_violation = failure ''reference_violation''"

fun resolvePath :: "images \<Rightarrow> row \<Rightarrow> relation_step list \<Rightarrow> bool \<Rightarrow> string result" where
  "resolvePath images row [] allowEmptyEnd = Inl (failure ''rules_invalid'')"
| "resolvePath images row (step # path) allowEmptyEnd =
     and_then (need (map_of row (rsField step)) reference_violation) (\<lambda>v.
       if allowEmptyEnd \<and> path = [] \<and> blank v then Inr []
       else
         and_then (need (go_string v) reference_violation) (\<lambda>i.
         and_then (check (i \<noteq> []) reference_violation) (\<lambda>_.
         and_then (need (row_at images (rsTarget step) i) reference_violation) (\<lambda>target.
           if path = [] then Inr i else resolvePath images target path allowEmptyEnd))))"

record path_end_policy =
  skipEmptyLeft :: bool
  allowEmptyRight :: bool

definition matches :: "path_match \<Rightarrow> images \<Rightarrow> row \<Rightarrow> string \<Rightarrow> path_end_policy \<Rightarrow> bool result" where
  "matches m images row rowID policy =
     and_then (resolvePath images row (elems (pmLeft m)) (skipEmptyLeft policy)) (\<lambda>left.
       if elems (pmRight m) = [] then Inr (left = [] \<or> left = rowID)
       else and_then (resolvePath images row (elems (pmRight m)) (allowEmptyRight policy)) (\<lambda>right.
         Inr (left = [] \<or> left = right)))"

definition relationRef :: "images \<Rightarrow> row \<Rightarrow> string \<Rightarrow> string \<Rightarrow> string result" where
  "relationRef images row field target =
     and_then (need (map_of row field) reference_violation) (\<lambda>v.
     and_then (need (go_string v) reference_violation) (\<lambda>i.
     and_then (check (i \<noteq> [] \<and> row_at images target i \<noteq> None) reference_violation) (\<lambda>_.
       Inr i)))"

definition optionalRef :: "images \<Rightarrow> row \<Rightarrow> string \<Rightarrow> string \<Rightarrow> string result" where
  "optionalRef images row field target = (case map_of row field of
     None \<Rightarrow> Inr []
   | Some v \<Rightarrow>
       if blank v then Inr []
       else
         and_then (need (go_string v) reference_violation) (\<lambda>i.
         and_then (check (i \<noteq> [] \<and> row_at images target i \<noteq> None) reference_violation) (\<lambda>_.
           Inr i)))"

fun path_end :: "string \<Rightarrow> relation_step list \<Rightarrow> string" where
  "path_end entity [] = entity"
| "path_end entity (step # path) = path_end (rsTarget step) path"

section \<open>Decimals\<close>

text \<open>The formats a declaration gives; a later decimal replaces an earlier one of the same key.\<close>

definition formats_of :: "rule_declaration \<Rightarrow> (string \<times> format) list" where
  "formats_of d =
     rev (map (\<lambda>f. (field_key (dcEntity f) (dcField f), dcFormat f)) (elems (dlDecimals d)))"

definition format_at :: "(string \<times> format) list \<Rightarrow> string \<Rightarrow> string \<Rightarrow> format" where
  "format_at formats entity field =
     (case map_of formats (field_key entity field) of None \<Rightarrow> zero_format | Some f \<Rightarrow> f)"

definition check_decimal :: "decimal \<Rightarrow> row \<Rightarrow> unit result" where
  "check_decimal d row =
     (if dcNullable d \<and> map_of row (dcField d) = Some AnyNil then Inr ()
      else and_then (Parse (dcFormat d) (cell row (dcField d))) (\<lambda>n.
        if dcSign d = ''nonnegative'' \<and> n < 0 \<or> dcSign d = ''positive'' \<and> n \<le> 0
        then Inl (failure ''decimal_sign_violation'')
        else if fmtStorage (dcFormat d) = ''decimalText'' then
          check (cell row (dcField d)
              = AnyString (case Text (dcFormat d) (Some n) of Inl _ \<Rightarrow> [] | Inr text \<Rightarrow> text))
            (failure ''decimal_noncanonical'')
        else Inr ()))"

definition check_decimals :: "rule_declaration \<Rightarrow> images \<Rightarrow> unit result" where
  "check_decimals d after =
     check_all (\<lambda>f. check_all (\<lambda>(_, row). check_decimal f row) (rows_of after (dcEntity f)))
       (elems (dlDecimals d))"

section \<open>The kinds of rule\<close>

definition validateSameTarget :: "rule \<Rightarrow> images \<Rightarrow> unit result" where
  "validateSameTarget r after =
     check_all (\<lambda>(i, row).
       if ruWhenPresent r \<noteq> []
          \<and> (case map_of row (ruWhenPresent r) of None \<Rightarrow> False | Some v \<Rightarrow> blank v)
       then Inr ()
       else and_then (matches (ruMatch r) after row i
              \<lparr>skipEmptyLeft = ruSkipEmptyLeftEnd r, allowEmptyRight = False\<rparr>) (\<lambda>ok.
            check ok (failure ''same_target_violation'')))
       (rows_of after (ruEntity r))"

fun at_most_one :: "row \<Rightarrow> bool \<Rightarrow> string list \<Rightarrow> unit result" where
  "at_most_one row occupied [] = Inr ()"
| "at_most_one row occupied (field # rest) =
     and_then (need (map_of row field) reference_violation) (\<lambda>v.
       if blank v then at_most_one row occupied rest
       else
         and_then (check (go_string v \<noteq> None) reference_violation) (\<lambda>_.
         and_then (check (\<not> occupied) (failure ''at_most_one_violation'')) (\<lambda>_.
           at_most_one row True rest)))"

definition validateAtMostOne :: "rule \<Rightarrow> images \<Rightarrow> unit result" where
  "validateAtMostOne r after =
     check_all (\<lambda>(_, row). at_most_one row False (elems (ruFields r))) (rows_of after (ruEntity r))"

text \<open>\<open>marshal\<close> is \<open>json.Marshal\<close> of a list of values.\<close>

fun unique_rows ::
  "(go_any list \<Rightarrow> string result) \<Rightarrow> string list \<Rightarrow> string list \<Rightarrow> rows \<Rightarrow> unit result" where
  "unique_rows marshal names seen [] = Inr ()"
| "unique_rows marshal names seen ((_, row) # rows) =
     and_then (check (\<not> list_ex (\<lambda>f. cell row f = AnyNil) names) (failure ''unique_null'')) (\<lambda>_.
     and_then (marshal (map (cell row) names)) (\<lambda>raw.
     and_then (check (raw \<notin> set seen) (failure ''unique_violation'')) (\<lambda>_.
       unique_rows marshal names (raw # seen) rows)))"

definition validateUnique ::
  "(go_any list \<Rightarrow> string result) \<Rightarrow> rule \<Rightarrow> images \<Rightarrow> unit result" where
  "validateUnique marshal r after =
     unique_rows marshal (elems (ruFields r)) [] (rows_of after (ruEntity r))"

definition validateReference :: "rule \<Rightarrow> images \<Rightarrow> unit result" where
  "validateReference r after =
     check_all (\<lambda>(_, row).
       and_then (need (go_string (cell row (ruField r))) reference_violation) (\<lambda>i.
         check (i \<noteq> [] \<and> row_at after (ruTarget r) i \<noteq> None) reference_violation))
       (rows_of after (ruEntity r))"

definition add_checked :: "format \<Rightarrow> int \<Rightarrow> int \<Rightarrow> int result" where
  "add_checked f tot amount = (case Add f (Some tot) (Some amount) of
     (Some n, Inr _) \<Rightarrow> Inr n | (_, Inl e) \<Rightarrow> Inl e | (None, Inr _) \<Rightarrow> Inl go_panic)"

text \<open>Rows are added up in the order of their identifiers.\<close>

definition total_step ::
  "rule \<Rightarrow> (string \<times> format) list \<Rightarrow> images \<Rightarrow> (string \<times> int) list \<Rightarrow> string \<times> row
    \<Rightarrow> (string \<times> int) list result" where
  "total_step r formats after totals = (\<lambda>(i, row).
     and_then (need (go_string (cell row (ruRelation r))) reference_violation) (\<lambda>target.
     and_then (check (row_at after (ruTarget r) target \<noteq> None) reference_violation) (\<lambda>_.
     and_then (case ruCurrentWhen r of None \<Rightarrow> Inr True
         | Some m \<Rightarrow> matches m after row i \<lparr>skipEmptyLeft = False, allowEmptyRight = True\<rparr>) (\<lambda>current.
       if \<not> current then Inr totals
       else
         and_then (Parse (format_at formats (ruEntity r) (ruAmount r)) (cell row (ruAmount r)))
           (\<lambda>amount.
         and_then (add_checked (format_at formats (ruTarget r) (ruLimit r)) (total_of totals target) amount)
           (\<lambda>t. Inr (AList.update target t totals)))))))"

definition validateTotals :: "rule \<Rightarrow> (string \<times> format) list \<Rightarrow> images \<Rightarrow> unit result" where
  "validateTotals r formats after =
     (let format = format_at formats (ruEntity r) (ruAmount r);
          targetFormat = format_at formats (ruTarget r) (ruLimit r) in
      and_then (check (fmtScale format = fmtScale targetFormat) (failure ''decimal_scale_mismatch''))
        (\<lambda>_.
      and_then (fold_result (total_step r formats after) [] (sort_key fst (rows_of after (ruEntity r))))
        (\<lambda>totals.
        check_all (\<lambda>(i, row).
          and_then (Parse targetFormat (cell row (ruLimit r))) (\<lambda>limit.
            check (\<not> (ruKind r = ''conservation'' \<and> total_of totals i \<noteq> limit
                      \<or> ruKind r = ''balance'' \<and> total_of totals i > limit))
              (failure (ruKind r @ ''_violation''))))
          (rows_of after (ruTarget r)))))"

text \<open>State machines: transitions, frozen states and the fields they freeze.\<close>

definition transitions_from :: "rule \<Rightarrow> string \<Rightarrow> string list" where
  "transitions_from r state =
     (case map_of (elems (ruTransitions r)) state of None \<Rightarrow> [] | Some following \<Rightarrow> elems following)"

definition state_step :: "rule \<Rightarrow> rows \<Rightarrow> string \<times> row \<Rightarrow> unit result" where
  "state_step r rows = (\<lambda>(i, old).
     and_then (need (go_string (cell old (ruField r))) (failure ''state_invalid'')) (\<lambda>state.
       case map_of rows i of
         None \<Rightarrow> check (state \<notin> set (elems (ruFrozenStates r))) (failure ''state_frozen'')
       | Some new \<Rightarrow>
           and_then (need (go_string (cell new (ruField r))) (failure ''state_invalid'')) (\<lambda>newState.
           and_then (check (newState = state \<or> newState \<in> set (transitions_from r state))
               (failure ''state_transition_denied'')) (\<lambda>_.
             if state \<in> set (elems (ruFrozenStates r))
             then check (list_all (\<lambda>f. deep_equal (cell old f) (cell new f)) (elems (ruFields r)))
                    (failure ''state_frozen'')
             else Inr ()))))"

definition validateState :: "rule \<Rightarrow> images \<Rightarrow> images \<Rightarrow> unit result" where
  "validateState r before after =
     (let rows = rows_of after (ruEntity r) in
      and_then (check_all (state_step r rows) (rows_of before (ruEntity r))) (\<lambda>_.
        check_all (\<lambda>(_, row).
          and_then (need (go_string (cell row (ruField r))) (failure ''state_invalid'')) (\<lambda>state.
            check (map_of (elems (ruTransitions r)) state \<noteq> None) (failure ''state_invalid''))) rows))"

section \<open>Frozen parents\<close>

fun identities :: "images \<Rightarrow> row \<Rightarrow> relation_step list \<Rightarrow> string list result" where
  "identities images row [] = Inr []"
| "identities images row (step # path) =
     and_then (relationRef images row (rsField step) (rsTarget step)) (\<lambda>i.
     and_then (identities images (case row_at images (rsTarget step) i of None \<Rightarrow> [] | Some t \<Rightarrow> t) path)
       (\<lambda>ids. Inr (i # ids)))"

definition go_last :: "'a list \<Rightarrow> 'a result" where
  "go_last xs = (if xs = [] then Inl go_panic else Inr (last xs))"

definition frozen_in :: "rule \<Rightarrow> images \<Rightarrow> string \<Rightarrow> bool" where
  "frozen_in r images parentID =
     (case row_at images (path_end (ruEntity r) (elems (ruParentPath r))) parentID of
        None \<Rightarrow> False
      | Some parent \<Rightarrow>
          (case go_string (cell parent (ruParentStateField r)) of
             None \<Rightarrow> False | Some state \<Rightarrow> state \<in> set (elems (ruFrozenStates r))))"

definition freeze_step :: "rule \<Rightarrow> images \<Rightarrow> images \<Rightarrow> string \<times> row \<Rightarrow> unit result" where
  "freeze_step r before after = (\<lambda>(i, old).
     and_then (identities before old (elems (ruParentPath r))) (\<lambda>oldPath.
     and_then (go_last oldPath) (\<lambda>oldParent.
       let oldFrozen = frozen_in r before oldParent in
       case row_at after (ruEntity r) i of
         None \<Rightarrow> check (\<not> oldFrozen) (failure ''parent_frozen'')
       | Some new \<Rightarrow>
           and_then (identities after new (elems (ruParentPath r))) (\<lambda>newPath.
           and_then (check (oldPath = newPath \<or> \<not> oldFrozen \<and> \<not> frozen_in r before (last newPath))
               (failure ''parent_frozen'')) (\<lambda>_.
             if oldFrozen
             then check (list_all (\<lambda>f. deep_equal (cell old f) (cell new f)) (elems (ruFields r)))
                    (failure ''parent_frozen'')
             else Inr ())))))"

definition validateParentFreeze :: "rule \<Rightarrow> images \<Rightarrow> images \<Rightarrow> unit result" where
  "validateParentFreeze r before after =
     and_then (check_all (freeze_step r before after) (rows_of before (ruEntity r))) (\<lambda>_.
       check_all (\<lambda>(i, row).
         if row_at before (ruEntity r) i \<noteq> None then Inr ()
         else and_then (resolvePath after row (elems (ruParentPath r)) False) (\<lambda>parent.
           check (\<not> frozen_in r before parent) (failure ''parent_frozen'')))
         (rows_of after (ruEntity r)))"

section \<open>Reversals\<close>

definition same_fields :: "row \<Rightarrow> row \<Rightarrow> string list \<Rightarrow> bool" where
  "same_fields left right = list_all (\<lambda>f. case (map_of left f, map_of right f) of
     (Some a, Some b) \<Rightarrow> deep_equal a b | _ \<Rightarrow> False)"

definition owner_of :: "reversal_spec \<Rightarrow> images \<Rightarrow> row \<Rightarrow> row result" where
  "owner_of spec after row = (case resolvePath after row (elems (rlOwnerPath spec)) False of
     Inl _ \<Rightarrow> Inl (failure ''reversal_invalid'')
   | Inr i \<Rightarrow>
       (case row_at after (rsTarget (last (elems (rlOwnerPath spec)))) i of
          None \<Rightarrow> Inr [] | Some owner \<Rightarrow> Inr owner))"

definition original_of ::
  "rule \<Rightarrow> reversal_spec \<Rightarrow> images \<Rightarrow> string \<Rightarrow> row \<Rightarrow> (string \<times> row) result" where
  "original_of r spec after i row =
     and_then (need (go_string (cell row (rlOriginal spec))) (failure ''reversal_invalid'')) (\<lambda>originalID.
     and_then (need (row_at after (ruEntity r) originalID) (failure ''reversal_invalid'')) (\<lambda>original.
     and_then (check (originalID \<noteq> [] \<and> originalID \<noteq> i
         \<and> cell original (rlPurpose spec) = AnyString (rlOriginalPurpose spec))
       (failure ''reversal_invalid'')) (\<lambda>_.
       Inr (originalID, original))))"

definition reversal_step ::
  "rule \<Rightarrow> reversal_spec \<Rightarrow> format \<Rightarrow> images \<Rightarrow> (string \<times> int) list \<Rightarrow> string \<times> row
    \<Rightarrow> (string \<times> int) list result" where
  "reversal_step r spec format after totals = (\<lambda>(i, row).
     if cell row (rlPurpose spec) \<noteq> AnyString (rlReversalPurpose spec) then Inr totals
     else
       and_then (owner_of spec after row) (\<lambda>owner.
       and_then (need (go_string (cell owner (rlOwnerStateField spec))) (failure ''reversal_invalid''))
         (\<lambda>state.
         if state \<notin> set (elems (rlRequiredStates spec)) then Inr totals
         else
           and_then (original_of r spec after i row) (\<lambda>(originalID, original).
           and_then (owner_of spec after original) (\<lambda>originalOwner.
           and_then (check (cell originalOwner (rlOwnerStateField spec) = AnyString (rlConfirmedState spec))
             (failure ''reversal_invalid'')) (\<lambda>_.
           and_then (check (same_fields row original (elems (rlSameFields spec))
               \<and> same_fields owner originalOwner (elems (rlSameOwnerFields spec)))
             (failure ''reversal_mismatch'')) (\<lambda>_.
           and_then (Parse format (cell row (rlQuantity spec))) (\<lambda>quantity.
           and_then (Parse format (cell original (rlQuantity spec))) (\<lambda>limit.
           and_then (check (quantity \<le> limit) (failure ''reversal_exceeded'')) (\<lambda>_.
             if state \<noteq> rlConfirmedState spec then Inr totals
             else
               let totals' = add_total totals originalID quantity in
               and_then (check (total_of totals' originalID \<le> limit) (failure ''reversal_exceeded''))
                 (\<lambda>_. Inr totals')))))))))))"

definition validateReversal :: "rule \<Rightarrow> (string \<times> format) list \<Rightarrow> images \<Rightarrow> unit result" where
  "validateReversal r formats after =
     (case ruReversal r of
        None \<Rightarrow> Inl go_panic
      | Some spec \<Rightarrow>
          if elems (rlOwnerPath spec) = [] then Inl go_panic
          else and_then (fold_result
              (reversal_step r spec (format_at formats (ruEntity r) (rlQuantity spec)) after) []
              (rows_of after (ruEntity r))) (\<lambda>_. Inr ()))"

end
