(* ===== verification/Reservation_Checks.thy ===== *)
theory Reservation_Checks
  imports Rule_Checks
begin

text \<open>
  The rule \<open>reservationBalance\<close> (\<open>sidecar/internal/transactionrules/guards.go\<close>,
  \<open>validateReservation\<close>, \<open>planBuckets\<close>): instructions reserve a quantity of an obligation, actual
  deliveries consume it. The checks are one definition per loop of the source, in its order; the
  maps of totals of the source are association lists, its maps of rows keep the order of the image.
\<close>

section \<open>Rows and plan buckets\<close>

datatype reservation_role = Instruction | Actual

datatype reservation_state = Draft | Open | Closed | Transferred | Confirmed

record reservation_row =
  rrID :: string
  rrRole :: reservation_role
  rrState :: reservation_state
  rrPhaseOwner :: string
  rrPurpose :: string
  rrNormal :: bool
  rrQuantity :: int
  rrScope :: string
  rrPlanItem :: string
  rrInstruction :: string
  rrTransferred :: string

type_synonym reservation_rows = "(string \<times> reservation_row) list"

record bucket =
  bkScope :: string
  bkLogical :: string
  bkShare :: string

record plan_index =
  pxItems :: "(string \<times> bucket) list"
  pxCurrent :: "(bucket \<times> int) list"

definition item_bucket :: "plan_index \<Rightarrow> string \<Rightarrow> bucket" where
  "item_bucket px item = (case map_of (pxItems px) item of
     None \<Rightarrow> \<lparr>bkScope = [], bkLogical = [], bkShare = []\<rparr> | Some b \<Rightarrow> b)"

text \<open>An integral float that fits \<open>int64\<close>; the conversion of any other one yields another number.\<close>

definition float_int64 :: "go_float \<Rightarrow> int option" where
  "float_int64 x = (case x of
     Dyadic m e \<Rightarrow>
       let v = (if 0 \<le> e then m * 2 ^ nat e else m div 2 ^ nat (- e)) in
       if (0 \<le> e \<or> 2 ^ nat (- e) dvd m) \<and> - (2 ^ 63) \<le> v \<and> v < 2 ^ 63 then Some v else None
   | _ \<Rightarrow> None)"

definition shareValue :: "go_any \<Rightarrow> string option" where
  "shareValue v = (case v of
     AnyInt n \<Rightarrow> if 0 \<le> n then Some (int_text n) else None
   | AnyInt64 n \<Rightarrow> if 0 \<le> n then Some (int_text n) else None
   | AnyFloat x \<Rightarrow> (case float_int64 x of None \<Rightarrow> None
       | Some n \<Rightarrow> if 0 \<le> n then Some (int_text n) else None)
   | _ \<Rightarrow> None)"

definition reservation_invalid :: go_error where
  "reservation_invalid = failure ''reservation_invalid''"

definition bucket_step ::
  "reservation_spec \<Rightarrow> reservation_plans \<Rightarrow> format \<Rightarrow> images \<Rightarrow> plan_index \<Rightarrow> string \<times> row
    \<Rightarrow> plan_index result" where
  "bucket_step res plans format images px = (\<lambda>(i, row).
     and_then (relationRef images row (plScope plans) (rvObligationEntity res)) (\<lambda>scope.
     and_then (relationRef images row (rsField (plLogicalItem plans)) (rsTarget (plLogicalItem plans)))
       (\<lambda>logical.
     and_then (need (shareValue (cell row (plShare plans))) reservation_invalid) (\<lambda>share.
       let key = \<lparr>bkScope = scope, bkLogical = logical, bkShare = share\<rparr>;
           px' = px\<lparr>pxItems := (i, key) # pxItems px\<rparr> in
       and_then (matches (plCurrentWhen plans) images row i
           \<lparr>skipEmptyLeft = False, allowEmptyRight = True\<rparr>) (\<lambda>current.
         if \<not> current then Inr px'
         else and_then (Parse format (cell row (plQuantity plans))) (\<lambda>quantity.
           Inr (px'\<lparr>pxCurrent := add_total (pxCurrent px') key quantity\<rparr>)))))))"

definition planBuckets ::
  "reservation_spec \<Rightarrow> (string \<times> format) list \<Rightarrow> images \<Rightarrow> plan_index result" where
  "planBuckets res formats images =
     (case rvPlans res of
        None \<Rightarrow> Inr \<lparr>pxItems = [], pxCurrent = []\<rparr>
      | Some plans \<Rightarrow>
          fold_result (bucket_step res plans (format_at formats (plEntity plans) (plQuantity plans)) images)
            \<lparr>pxItems = [], pxCurrent = []\<rparr> (rows_of images (plEntity plans)))"

section \<open>Classification\<close>

definition phase_of ::
  "reservation_phase \<Rightarrow> string \<Rightarrow> (reservation_role \<times> reservation_state) option" where
  "phase_of phase state =
     (if state = phInstructionDraft phase then Some (Instruction, Draft)
      else if state = phInstructionOpen phase then Some (Instruction, Open)
      else if state = phInstructionClosed phase then Some (Instruction, Closed)
      else if state = phInstructionTransferred phase then Some (Instruction, Transferred)
      else if state = phDeliveryDraft phase then Some (Actual, Draft)
      else if state = phDeliveryConfirmed phase then Some (Actual, Confirmed)
      else None)"

definition phase_entity :: "rule \<Rightarrow> reservation_spec \<Rightarrow> string" where
  "phase_entity r res = path_end (ruEntity r) (elems (phPath (rvPhase res)))"

definition field_at :: "images \<Rightarrow> string \<Rightarrow> string \<Rightarrow> string \<Rightarrow> go_any" where
  "field_at images entity i field =
     (case row_at images entity i of None \<Rightarrow> AnyNil | Some row \<Rightarrow> cell row field)"

text \<open>The optional references of a row: the plan item, which must share its scope, the instruction
  it consumes and the instruction it was transferred from.\<close>

definition plan_item_of ::
  "reservation_spec \<Rightarrow> images \<Rightarrow> plan_index \<Rightarrow> string \<Rightarrow> row \<Rightarrow> string result" where
  "plan_item_of res images plans scope row =
     (if rvPlanItem res = [] then Inr []
      else
        and_then (need (rvPlans res) go_panic) (\<lambda>p.
        and_then (optionalRef images row (rvPlanItem res) (plEntity p)) (\<lambda>item.
        and_then (check (item = [] \<or> bkScope (item_bucket plans item) = scope) reservation_invalid)
          (\<lambda>_. Inr item))))"

definition own_ref :: "rule \<Rightarrow> images \<Rightarrow> row \<Rightarrow> string \<Rightarrow> string result" where
  "own_ref r images row field =
     (if field = [] then Inr [] else optionalRef images row field (ruEntity r))"

definition classify_row ::
  "rule \<Rightarrow> reservation_spec \<Rightarrow> format \<Rightarrow> images \<Rightarrow> plan_index \<Rightarrow> string \<times> row
    \<Rightarrow> (string \<times> reservation_row) result" where
  "classify_row r res format images plans = (\<lambda>(i, row).
     and_then (resolvePath images row (elems (phPath (rvPhase res))) False) (\<lambda>document.
     and_then (need (go_string (field_at images (phase_entity r res) document (phField (rvPhase res))))
       reservation_invalid) (\<lambda>state.
     and_then (need (phase_of (rvPhase res) state) reservation_invalid) (\<lambda>(role, phase).
     and_then (resolvePath images row (elems (frPath (rvPurpose res))) False) (\<lambda>purposeID.
     and_then (need (go_string (field_at images (rsTarget (last (elems (frPath (rvPurpose res)))))
         purposeID (frField (rvPurpose res)))) reservation_invalid) (\<lambda>purpose.
     and_then (check (purpose \<noteq> []) reservation_invalid) (\<lambda>_.
     and_then (Parse format (cell row (rvQuantity res))) (\<lambda>quantity.
     and_then (relationRef images row (rvScope res) (rvObligationEntity res)) (\<lambda>scope.
     and_then (plan_item_of res images plans scope row) (\<lambda>item.
     and_then (own_ref r images row (rvInstructionSource res)) (\<lambda>instruction.
     and_then (own_ref r images row (rvTransferredFrom res)) (\<lambda>transferred.
       Inr (i, \<lparr>rrID = i, rrRole = role, rrState = phase, rrPhaseOwner = document,
                rrPurpose = purpose, rrNormal = (purpose = rvNormalPurpose res),
                rrQuantity = quantity, rrScope = scope, rrPlanItem = item,
                rrInstruction = instruction, rrTransferred = transferred\<rparr>)))))))))))))"

definition classify ::
  "rule \<Rightarrow> reservation_spec \<Rightarrow> format \<Rightarrow> images \<Rightarrow> plan_index \<Rightarrow> reservation_rows result" where
  "classify r res format images plans =
     map_result (classify_row r res format images plans) (rows_of images (ruEntity r))"

section \<open>History\<close>

definition live_instruction :: "reservation_row \<Rightarrow> bool" where
  "live_instruction r \<longleftrightarrow> rrRole r = Instruction \<and> rrState r \<noteq> Draft"

definition confirmed_actual :: "reservation_row \<Rightarrow> bool" where
  "confirmed_actual r \<longleftrightarrow> rrRole r = Actual \<and> rrState r = Confirmed"

definition consuming :: "reservation_row \<Rightarrow> bool" where
  "consuming r \<longleftrightarrow> confirmed_actual r \<and> rrInstruction r \<noteq> []"

definition reservation_frozen :: go_error where
  "reservation_frozen = failure ''reservation_frozen''"

definition instruction_kept :: "reservation_row \<Rightarrow> reservation_row \<Rightarrow> bool" where
  "instruction_kept old new \<longleftrightarrow>
     rrQuantity new = rrQuantity old \<and> rrScope new = rrScope old \<and> rrPlanItem new = rrPlanItem old
     \<and> rrTransferred new = rrTransferred old \<and> rrPurpose new = rrPurpose old
     \<and> (if rrState old = Closed \<or> rrState old = Transferred then rrState new = rrState old
        else rrState new \<noteq> Draft)"

definition consumption_kept :: "reservation_row \<Rightarrow> reservation_row \<Rightarrow> bool" where
  "consumption_kept old new \<longleftrightarrow>
     rrState new = Confirmed
     \<and> (if rrInstruction old \<noteq> [] then rrPurpose new = rrPurpose old else rrNormal new)
     \<and> rrScope new = rrScope old \<and> rrPlanItem new = rrPlanItem old
     \<and> rrInstruction new = rrInstruction old \<and> rrQuantity old \<le> rrQuantity new"

definition history_step ::
  "plan_index \<Rightarrow> plan_index \<Rightarrow> reservation_rows \<Rightarrow> string \<times> reservation_row \<Rightarrow> unit result" where
  "history_step beforeBuckets buckets afterRows = (\<lambda>(i, old).
     and_then (check (\<not> (rrPlanItem old \<noteq> [] \<and> (live_instruction old \<or> confirmed_actual old)
           \<and> item_bucket beforeBuckets (rrPlanItem old) \<noteq> item_bucket buckets (rrPlanItem old)))
         reservation_frozen) (\<lambda>_.
       case map_of afterRows i of
         None \<Rightarrow> check (\<not> live_instruction old
             \<and> \<not> (confirmed_actual old \<and> (rrNormal old \<or> rrInstruction old \<noteq> []))) reservation_frozen
       | Some new \<Rightarrow>
           and_then (check (rrRole new = rrRole old) reservation_frozen) (\<lambda>_.
           and_then (check (live_instruction old \<longrightarrow> instruction_kept old new) reservation_frozen) (\<lambda>_.
             check (confirmed_actual old \<and> (rrInstruction old \<noteq> [] \<or> rrNormal old)
                    \<longrightarrow> consumption_kept old new) reservation_frozen))))"

section \<open>Consumption\<close>

definition reference_step :: "reservation_rows \<Rightarrow> string \<times> reservation_row \<Rightarrow> unit result" where
  "reference_step afterRows = (\<lambda>(_, row).
     if rrRole row \<noteq> Actual \<or> rrInstruction row = [] then Inr ()
     else
       and_then (need (map_of afterRows (rrInstruction row)) reservation_invalid) (\<lambda>source.
         check (live_instruction source \<and> rrPurpose source = rrPurpose row
                \<and> rrScope source = rrScope row \<and> rrPlanItem source = rrPlanItem row)
           reservation_invalid))"

definition consumed :: "reservation_rows \<Rightarrow> (string \<times> int) list" where
  "consumed rows = collect_totals (\<lambda>(_, row). consuming row) (\<lambda>(_, row). rrInstruction row)
     (\<lambda>(_, row). rrQuantity row) [] rows"

definition exhausted_step :: "(string \<times> int) list \<Rightarrow> string \<times> reservation_row \<Rightarrow> unit result" where
  "exhausted_step consumedAfter = (\<lambda>(i, row).
     check (rrRole row = Instruction \<longrightarrow> total_of consumedAfter i \<le> rrQuantity row)
       (failure ''reservation_exhausted''))"

definition released_step ::
  "(string \<times> int) list \<Rightarrow> (string \<times> int) list \<Rightarrow> string \<times> reservation_row \<Rightarrow> unit result" where
  "released_step consumedBefore consumedAfter = (\<lambda>(i, row).
     check (rrRole row = Instruction \<longrightarrow> total_of consumedBefore i \<le> total_of consumedAfter i)
       (failure ''reservation_released''))"

text \<open>New or increased consumption needs an instruction that was open, or is opened now, in a
  document that was not in a terminal phase.\<close>

definition admission_step ::
  "rule \<Rightarrow> reservation_spec \<Rightarrow> images \<Rightarrow> reservation_rows \<Rightarrow> reservation_rows
    \<Rightarrow> string \<times> reservation_row \<Rightarrow> unit result" where
  "admission_step r res before beforeRows afterRows = (\<lambda>(_, row).
     if \<not> consuming row then Inr ()
     else if (case map_of beforeRows (rrID row) of None \<Rightarrow> False
              | Some prior \<Rightarrow> consuming prior \<and> rrQuantity row \<le> rrQuantity prior) then Inr ()
     else
       and_then (case map_of beforeRows (rrInstruction row) of
           None \<Rightarrow> Inr ()
         | Some source \<Rightarrow>
             check (rrState source = Open
                 \<or> rrState source = Draft \<and> (case map_of afterRows (rrInstruction row) of
                      None \<Rightarrow> False | Some opened \<Rightarrow> rrState opened = Open)) reservation_invalid) (\<lambda>_.
       and_then (need (map_of afterRows (rrInstruction row)) go_panic) (\<lambda>opened.
         case row_at before (phase_entity r res) (rrPhaseOwner opened) of
           None \<Rightarrow> Inr ()
         | Some owner \<Rightarrow>
             let phase = (case go_string (cell owner (phField (rvPhase res))) of
                            None \<Rightarrow> [] | Some s \<Rightarrow> s) in
             check (phase = phInstructionOpen (rvPhase res)
                 \<or> phase = phInstructionDraft (rvPhase res) \<and> rrState opened = Open)
               reservation_invalid)))"

section \<open>Transfers\<close>

definition transfer_invalid :: go_error where
  "transfer_invalid = failure ''reservation_transfer_invalid''"

definition carriers :: "reservation_rows \<Rightarrow> string \<Rightarrow> string list" where
  "carriers rows source = map fst (filter (\<lambda>(_, row). rrTransferred row \<noteq> [] \<and> rrTransferred row = source) rows)"

definition carrier_step :: "reservation_rows \<Rightarrow> string \<times> reservation_row \<Rightarrow> unit result" where
  "carrier_step afterRows = (\<lambda>(i, row).
     if rrTransferred row = [] then Inr ()
     else
       and_then (check (live_instruction row \<and> rrTransferred row \<noteq> rrID row) transfer_invalid) (\<lambda>_.
       and_then (need (map_of afterRows (rrTransferred row)) transfer_invalid) (\<lambda>source.
         check (rrRole source = Instruction \<and> rrState source = Transferred
                \<and> rrPurpose source = rrPurpose row \<and> rrScope source = rrScope row
                \<and> rrPlanItem source = rrPlanItem row) transfer_invalid)))"

text \<open>Following the chain of a row; \<open>current\<close> is the identifier of the row it has reached. Every
  step visits another row of the list, so it ends.\<close>

function chain_step :: "reservation_rows \<Rightarrow> string list \<Rightarrow> string \<Rightarrow> unit result" where
  "chain_step rows visited current =
     (case map_of rows current of
        None \<Rightarrow> Inr ()
      | Some row \<Rightarrow>
          if rrTransferred row = [] then Inr ()
          else if current \<in> set visited then Inl transfer_invalid
          else chain_step rows (current # visited) (rrTransferred row))"
  by pat_completeness auto

termination
proof (relation "measure (\<lambda>(rows, visited, _). card (fst ` set rows - set visited))", goal_cases)
  case (2 rows visited current row)
  then have "current \<in> fst ` set rows - set visited" by (force dest: map_of_SomeD)
  then have "fst ` set rows - set (current # visited) \<subset> fst ` set rows - set visited" by auto
  then show ?case by (simp add: psubset_card_mono)
qed simp

declare chain_step.simps [simp del]

definition settled_step ::
  "bool \<Rightarrow> reservation_rows \<Rightarrow> reservation_rows \<Rightarrow> (string \<times> int) list \<Rightarrow> string \<times> reservation_row
    \<Rightarrow> unit result" where
  "settled_step hasBefore beforeRows afterRows consumedAfter = (\<lambda>(i, row).
     if rrRole row \<noteq> Instruction \<or> rrState row \<noteq> Transferred then Inr ()
     else
       let prior = map_of beforeRows i;
           newly = hasBefore \<and> (case prior of None \<Rightarrow> True | Some p \<Rightarrow> rrState p \<noteq> Transferred);
           remainder = rrQuantity row - total_of consumedAfter i in
       if remainder \<le> 0 then check (carriers afterRows i = []) transfer_invalid
       else case carriers afterRows i of
         [j] \<Rightarrow>
           and_then (need (map_of afterRows j) go_panic) (\<lambda>target.
           and_then (check (rrQuantity target = remainder) transfer_invalid) (\<lambda>_.
             check (newly \<longrightarrow> map_of beforeRows (rrID target) = None \<and> rrState target = Open
                      \<and> (case prior of None \<Rightarrow> True | Some p \<Rightarrow> rrState p = Open))
               transfer_invalid))
       | _ \<Rightarrow> Inl transfer_invalid)"

definition check_transfers ::
  "reservation_spec \<Rightarrow> bool \<Rightarrow> reservation_rows \<Rightarrow> reservation_rows \<Rightarrow> (string \<times> int) list
    \<Rightarrow> unit result" where
  "check_transfers res hasBefore beforeRows afterRows consumedAfter =
     (if rvTransferredFrom res = [] then Inr ()
      else
        and_then (check_all (carrier_step afterRows) afterRows) (\<lambda>_.
        and_then (check_all (\<lambda>(_, row). check (rrTransferred row = []
            \<or> length (carriers afterRows (rrTransferred row)) \<le> 1) transfer_invalid) afterRows) (\<lambda>_.
        and_then (check_all (\<lambda>(i, _). chain_step afterRows [] i) afterRows) (\<lambda>_.
          check_all (settled_step hasBefore beforeRows afterRows consumedAfter) afterRows))))"

section \<open>Capacity\<close>

record usage =
  usExecuted :: "(bucket \<times> int) list"
  usOpen :: "(bucket \<times> int) list"
  usDirect :: "(string \<times> int) list"
  usDirectOpen :: "(string \<times> int) list"

definition bucket_of :: "plan_index \<Rightarrow> reservation_rows \<Rightarrow> reservation_row \<Rightarrow> bucket option" where
  "bucket_of buckets afterRows row =
     (let item = (if rrPlanItem row = [] \<and> rrInstruction row \<noteq> []
                  then case map_of afterRows (rrInstruction row) of
                    None \<Rightarrow> [] | Some source \<Rightarrow> rrPlanItem source
                  else rrPlanItem row)
      in if item = [] then None else map_of (pxItems buckets) item)"

definition usage_step ::
  "reservation_spec \<Rightarrow> plan_index \<Rightarrow> reservation_rows \<Rightarrow> (string \<times> int) list
    \<Rightarrow> usage \<Rightarrow> string \<times> reservation_row \<Rightarrow> usage result" where
  "usage_step res buckets afterRows consumedAfter u = (\<lambda>(_, row).
     if rrRole row = Actual then
       (if rrState row \<noteq> Confirmed \<or> \<not> rrNormal row \<or> rrQuantity row \<le> 0 then Inr u
        else case bucket_of buckets afterRows row of
          Some key \<Rightarrow> Inr (u\<lparr>usExecuted := add_total (usExecuted u) key (rrQuantity row)\<rparr>)
        | None \<Rightarrow> Inr (u\<lparr>usDirect := add_total (usDirect u) (rrScope row) (rrQuantity row)\<rparr>))
     else if rrState row \<noteq> Open then Inr u
     else if rrPurpose row \<noteq> rvNormalPurpose res then Inr u
     else
       let remainder = rrQuantity row - total_of consumedAfter (rrID row) in
       if remainder < 0 then Inl (failure ''reservation_exhausted'')
       else case bucket_of buckets afterRows row of
         Some key \<Rightarrow> Inr (u\<lparr>usOpen := add_total (usOpen u) key remainder\<rparr>)
       | None \<Rightarrow> Inr (u\<lparr>usDirectOpen := add_total (usDirectOpen u) (rrScope row) remainder\<rparr>))"

definition used_of :: "usage \<Rightarrow> bucket \<Rightarrow> int" where
  "used_of u key = total_of (usExecuted u) key + total_of (usOpen u) key"

definition plan_step :: "usage \<Rightarrow> (string \<times> int) list \<Rightarrow> bucket \<times> int \<Rightarrow> (string \<times> int) list result" where
  "plan_step u occupied = (\<lambda>(key, planned).
     and_then (check (used_of u key \<le> planned) (failure ''reservation_exceeded'')) (\<lambda>_.
       Inr (add_total occupied (bkScope key) planned)))"

definition unplanned_step ::
  "plan_index \<Rightarrow> usage \<Rightarrow> (string \<times> int) list \<Rightarrow> bucket \<Rightarrow> (string \<times> int) list result" where
  "unplanned_step buckets u occupied key =
     (if map_of (pxCurrent buckets) key \<noteq> None then Inr occupied
      else
        and_then (check (total_of (usExecuted u) key \<le> 0) (failure ''reservation_plan_required'')) (\<lambda>_.
          Inr (add_total occupied (bkScope key) (used_of u key))))"

definition occupy_all :: "(string \<times> int) list \<Rightarrow> (string \<times> int) list \<Rightarrow> (string \<times> int) list" where
  "occupy_all occupied amounts = foldl (\<lambda>m (scope, n). add_total m scope n) occupied amounts"

definition check_capacity ::
  "reservation_spec \<Rightarrow> format \<Rightarrow> images \<Rightarrow> plan_index \<Rightarrow> reservation_rows \<Rightarrow> (string \<times> int) list
    \<Rightarrow> unit result" where
  "check_capacity res format after buckets afterRows consumedAfter =
     and_then (fold_result (usage_step res buckets afterRows consumedAfter)
         \<lparr>usExecuted = [], usOpen = [], usDirect = [], usDirectOpen = []\<rparr> afterRows) (\<lambda>u.
     and_then (fold_result (plan_step u) [] (pxCurrent buckets)) (\<lambda>occupied.
     and_then (fold_result (unplanned_step buckets u) occupied
         (remdups (map fst (usExecuted u) @ map fst (usOpen u)))) (\<lambda>occupied.
       let occupied = occupy_all (occupy_all occupied (usDirect u)) (usDirectOpen u) in
       check_all (\<lambda>(i, row).
         and_then (Parse format (cell row (rvObligationQuantity res))) (\<lambda>limit.
           check (total_of occupied i \<le> limit) (failure ''reservation_exceeded'')))
         (rows_of after (rvObligationEntity res)))))"

section \<open>The rule\<close>

definition image_of :: "images option \<Rightarrow> images" where
  "image_of before = (case before of None \<Rightarrow> [] | Some images \<Rightarrow> images)"

definition validateReservation ::
  "rule \<Rightarrow> (string \<times> format) list \<Rightarrow> images option \<Rightarrow> images \<Rightarrow> unit result" where
  "validateReservation r formats before after =
     (case ruReservation r of
        None \<Rightarrow> Inl go_panic
      | Some res \<Rightarrow>
          let format = format_at formats (ruEntity r) (rvQuantity res); earlier = image_of before in
          and_then (planBuckets res formats earlier) (\<lambda>beforeBuckets.
          and_then (planBuckets res formats after) (\<lambda>buckets.
          and_then (classify r res format earlier beforeBuckets) (\<lambda>beforeRows.
          and_then (classify r res format after buckets) (\<lambda>afterRows.
          and_then (check_all (\<lambda>(_, row). check (\<not> (rrRole row = Instruction \<and> rrInstruction row \<noteq> []))
              reservation_invalid) afterRows) (\<lambda>_.
          and_then (check_all (history_step beforeBuckets buckets afterRows) beforeRows) (\<lambda>_.
          and_then (check_all (reference_step afterRows) afterRows) (\<lambda>_.
          and_then (check_all (exhausted_step (consumed afterRows)) afterRows) (\<lambda>_.
          and_then (check_all (released_step (consumed beforeRows) (consumed afterRows)) beforeRows)
            (\<lambda>_.
          and_then (check_all (admission_step r res earlier beforeRows afterRows) afterRows) (\<lambda>_.
          and_then (check_transfers res (before \<noteq> None) beforeRows afterRows (consumed afterRows)) (\<lambda>_.
            check_capacity res format after buckets afterRows (consumed afterRows)))))))))))))"

end
