(* ===== verification/Transaction_Guards.thy ===== *)
theory Transaction_Guards
  imports Reservation_Checks
begin

text \<open>
  Registrations and their enforcement (\<open>sidecar/internal/transactionrules\<close>: the rest of
  \<open>rules.go\<close> and \<open>paths.go\<close>): what a registration depends on, how it is read from the tables, the
  check of a change, upgrades (\<open>Retains\<close>, \<open>activeGuards\<close>), the selection of guards by the fields a
  change writes, the budget of the images, \<open>Capture\<close>, \<open>ValidateGuards\<close>, \<open>ValidateAdmission\<close>.

  A table (\<open>schemaexecution.Table\<close> and its rows in the order of their identifiers) is the record
  \<open>table\<close>; a row holds the size of each stored column and the product value of each field, the
  results of SQLite's \<open>octet_length\<close> and of \<open>productrow.Project\<close>. \<open>Describe\<close>, \<open>json.Marshal\<close> and the
  stored registrations are parameters. Cancellation of the context is not modelled.
\<close>

section \<open>Registrations\<close>

record binding =
  bdTableID :: string
  bdFields :: "(string \<times> string) list"

record registration =
  rgWorkspaceID :: string
  rgPluginID :: string
  rgInstallationID :: string
  rgDeclaration :: rule_declaration
  rgBindings :: "(string \<times> binding) list"

definition binding_at :: "(string \<times> binding) list \<Rightarrow> string \<Rightarrow> binding" where
  "binding_at bindings entity = (case map_of bindings entity of
     None \<Rightarrow> \<lparr>bdTableID = [], bdFields = []\<rparr> | Some b \<Rightarrow> b)"

definition bound_field :: "binding \<Rightarrow> string \<Rightarrow> string" where
  "bound_field b field = (case map_of (bdFields b) field of None \<Rightarrow> [] | Some f \<Rightarrow> f)"

section \<open>Checking a change\<close>

definition validate_rule ::
  "(go_any list \<Rightarrow> string result) \<Rightarrow> (string \<times> format) list \<Rightarrow> images option \<Rightarrow> images \<Rightarrow> rule
    \<Rightarrow> unit result" where
  "validate_rule marshal formats before after r =
     (let kind = ruKind r in
      if kind = ''sameTarget'' then validateSameTarget r after
      else if kind = ''atMostOne'' then validateAtMostOne r after
      else if kind = ''unique'' then validateUnique marshal r after
      else if kind = ''reference'' then validateReference r after
      else if kind = ''conservation'' \<or> kind = ''balance'' then validateTotals r formats after
      else if kind = ''state'' then validateState r (image_of before) after
      else if kind = ''parentFreeze'' then validateParentFreeze r (image_of before) after
      else if kind = ''reservationBalance'' then validateReservation r formats before after
      else if kind = ''reversalBalance'' then validateReversal r formats after
      else Inr ())"

definition Registration_Validate ::
  "(go_any list \<Rightarrow> string result) \<Rightarrow> registration \<Rightarrow> images option \<Rightarrow> images \<Rightarrow> unit result" where
  "Registration_Validate marshal r before after =
     and_then (check_decimals (rgDeclaration r) after) (\<lambda>_.
       check_all (validate_rule marshal (formats_of (rgDeclaration r)) before after)
         (elems (dlRules (rgDeclaration r))))"

section \<open>Dependencies\<close>

text \<open>The relation steps of a rule, each with the entity it starts from. The owner path of a
  reversal and the plans of a plan item exist in every declaration that passed its checks.\<close>

fun path_steps :: "string \<Rightarrow> relation_step list \<Rightarrow> (string \<times> relation_step) list" where
  "path_steps entity [] = []"
| "path_steps entity (step # path) = (entity, step) # path_steps (rsTarget step) path"

definition match_steps :: "string \<Rightarrow> path_match \<Rightarrow> (string \<times> relation_step) list" where
  "match_steps entity m = path_steps entity (elems (pmLeft m)) @ path_steps entity (elems (pmRight m))"

definition reservation_steps :: "string \<Rightarrow> reservation_spec \<Rightarrow> (string \<times> relation_step) list" where
  "reservation_steps entity res =
     [(entity, \<lparr>rsField = rvScope res, rsTarget = rvObligationEntity res\<rparr>)]
     @ (if rvPlanItem res = [] then []
        else [(entity, \<lparr>rsField = rvPlanItem res, rsTarget = plEntity (the (rvPlans res))\<rparr>)])
     @ (if rvInstructionSource res = [] then []
        else [(entity, \<lparr>rsField = rvInstructionSource res, rsTarget = entity\<rparr>)])
     @ (if rvTransferredFrom res = [] then []
        else [(entity, \<lparr>rsField = rvTransferredFrom res, rsTarget = entity\<rparr>)])
     @ path_steps entity (elems (phPath (rvPhase res)))
     @ path_steps entity (elems (frPath (rvPurpose res)))
     @ (case rvPlans res of None \<Rightarrow> []
        | Some p \<Rightarrow>
            [(plEntity p, \<lparr>rsField = plScope p, rsTarget = rvObligationEntity res\<rparr>),
             (plEntity p, plLogicalItem p)]
            @ match_steps (plEntity p) (plCurrentWhen p))"

definition relationSteps :: "rule \<Rightarrow> (string \<times> relation_step) list" where
  "relationSteps r =
     (if ruRelation r = [] then []
      else [(ruEntity r, \<lparr>rsField = ruRelation r, rsTarget = ruTarget r\<rparr>)])
     @ (if ruKind r = ''reference''
        then [(ruEntity r, \<lparr>rsField = ruField r, rsTarget = ruTarget r\<rparr>)] else [])
     @ match_steps (ruEntity r) (case ruCurrentWhen r of None \<Rightarrow> ruMatch r | Some m \<Rightarrow> m)
     @ (if ruKind r = ''parentFreeze''
        then path_steps (ruEntity r) (elems (ruParentPath r)) else [])
     @ (case ruReversal r of None \<Rightarrow> []
        | Some spec \<Rightarrow>
            (ruEntity r, \<lparr>rsField = rlOriginal spec, rsTarget = ruEntity r\<rparr>)
            # path_steps (ruEntity r) (elems (rlOwnerPath spec)))
     @ (case ruReservation r of None \<Rightarrow> [] | Some res \<Rightarrow> reservation_steps (ruEntity r) res)"

text \<open>The pairs that \<open>dependencies\<close> adds; an empty field adds the entity alone.\<close>

definition reversal_dependencies :: "string \<Rightarrow> reversal_spec \<Rightarrow> (string \<times> string) list" where
  "reversal_dependencies entity spec =
     (let owner = rsTarget (last (elems (rlOwnerPath spec))) in
      [(entity, rlQuantity spec), (entity, rlPurpose spec)]
      @ map (Pair entity) (elems (rlSameFields spec))
      @ (owner, rlOwnerStateField spec) # map (Pair owner) (elems (rlSameOwnerFields spec)))"

definition reservation_dependencies :: "string \<Rightarrow> reservation_spec \<Rightarrow> (string \<times> string) list" where
  "reservation_dependencies entity res =
     [(rvObligationEntity res, rvObligationQuantity res), (entity, rvQuantity res),
      (path_end entity (elems (frPath (rvPurpose res))), frField (rvPurpose res)),
      (entity, rvScope res), (entity, rvPlanItem res), (entity, rvInstructionSource res),
      (entity, rvTransferredFrom res)]
     @ (case rvPlans res of None \<Rightarrow> []
        | Some p \<Rightarrow>
            [(plEntity p, plQuantity p), (plEntity p, plScope p),
             (plEntity p, rsField (plLogicalItem p)), (plEntity p, plShare p),
             (rsTarget (plLogicalItem p), [])])
     @ [(path_end entity (elems (phPath (rvPhase res))), phField (rvPhase res))]"

definition rule_dependencies :: "rule \<Rightarrow> (string \<times> string) list" where
  "rule_dependencies r =
     (ruEntity r, ruField r) # map (Pair (ruEntity r)) (elems (ruFields r))
     @ (if ruTarget r = [] then [] else [(ruTarget r, ruLimit r)])
     @ concat (map (\<lambda>(entity, step). [(entity, rsField step), (rsTarget step, [])]) (relationSteps r))
     @ [(ruEntity r, ruAmount r)]
     @ (if ruKind r = ''parentFreeze''
        then [(path_end (ruEntity r) (elems (ruParentPath r)), ruParentStateField r)] else [])
     @ (case ruReversal r of None \<Rightarrow> [] | Some spec \<Rightarrow> reversal_dependencies (ruEntity r) spec)
     @ (case ruReservation r of None \<Rightarrow> [] | Some res \<Rightarrow> reservation_dependencies (ruEntity r) res)"

definition dependency_pairs :: "rule_declaration \<Rightarrow> (string \<times> string) list" where
  "dependency_pairs d =
     map (\<lambda>f. (dcEntity f, dcField f)) (elems (dlDecimals d))
     @ concat (map rule_dependencies (elems (dlRules d)))"

definition dependencies :: "registration \<Rightarrow> (string \<times> string list) list" where
  "dependencies r =
     (let pairs = dependency_pairs (rgDeclaration r) in
      map (\<lambda>entity. (entity, remdups (map snd (filter (\<lambda>(e, f). e = entity \<and> f \<noteq> []) pairs))))
        (remdups (map fst pairs)))"

definition ProtectsBinding :: "registration \<Rightarrow> string \<Rightarrow> string \<Rightarrow> bool" where
  "ProtectsBinding r tableID field =
     list_ex (\<lambda>(entity, fields).
       let b = binding_at (rgBindings r) entity in
       bdTableID b = tableID \<and> (field = [] \<or> list_ex (\<lambda>key. bound_field b key = field) fields))
       (dependencies r)"

definition MatchesBindings :: "registration \<Rightarrow> (string \<times> binding) list \<Rightarrow> bool" where
  "MatchesBindings r bindings =
     list_all (\<lambda>(entity, fields).
       let old = binding_at (rgBindings r) entity; current = binding_at bindings entity in
       bdTableID old \<noteq> [] \<and> bdTableID old = bdTableID current
       \<and> list_all (\<lambda>field. bound_field old field \<noteq> []
            \<and> bound_field old field = bound_field current field) fields)
       (dependencies r)"

section \<open>Upgrades\<close>

text \<open>\<open>reflect.DeepEqual\<close> on rules and declarations: the map of transitions is compared as a map.\<close>

definition map_equal :: "('k \<times> 'v) list \<Rightarrow> ('k \<times> 'v) list \<Rightarrow> bool" where
  "map_equal xs ys =
     (list_all (\<lambda>k. map_of xs k = map_of ys k) (map fst xs)
      \<and> list_all (\<lambda>k. map_of xs k = map_of ys k) (map fst ys))"

definition transitions_equal ::
  "(string \<times> string slice) slice \<Rightarrow> (string \<times> string slice) slice \<Rightarrow> bool" where
  "transitions_equal s t = (case (s, t) of
     (None, None) \<Rightarrow> True | (Some xs, Some ys) \<Rightarrow> map_equal xs ys | _ \<Rightarrow> False)"

definition rule_equal :: "rule \<Rightarrow> rule \<Rightarrow> bool" where
  "rule_equal a b =
     (a\<lparr>ruTransitions := None\<rparr> = b\<lparr>ruTransitions := None\<rparr>
      \<and> transitions_equal (ruTransitions a) (ruTransitions b))"

definition declaration_equal :: "rule_declaration \<Rightarrow> rule_declaration \<Rightarrow> bool" where
  "declaration_equal a b =
     (a\<lparr>dlRules := None\<rparr> = b\<lparr>dlRules := None\<rparr>
      \<and> (case (dlRules a, dlRules b) of
           (None, None) \<Rightarrow> True
         | (Some xs, Some ys) \<Rightarrow> list_all2 rule_equal xs ys
         | _ \<Rightarrow> False))"

definition zero_rule :: rule where
  "zero_rule =
     \<lparr>ruMatch = \<lparr>pmLeft = None, pmRight = None\<rparr>, ruSkipEmptyLeftEnd = False, ruWhenPresent = [],
      ruCurrentWhen = None, ruID = [], ruKind = [], ruEntity = [], ruFields = None, ruField = [],
      ruTarget = [], ruRelation = [], ruAmount = [], ruLimit = [], ruTransitions = None,
      ruFrozenStates = None, ruParentPath = None, ruParentStateField = [], ruReservation = None,
      ruReversal = None\<rparr>"

definition rule_by_id :: "rule list \<Rightarrow> string \<Rightarrow> rule" where
  "rule_by_id rules i = (case map_of (rev (map (\<lambda>r. (ruID r, r)) rules)) i of
     None \<Rightarrow> zero_rule | Some r \<Rightarrow> r)"

definition Retains :: "rule_declaration \<Rightarrow> rule_declaration \<Rightarrow> bool" where
  "Retains d old =
     (if dlModelID old \<noteq> dlModelID d \<or> dlContract old \<noteq> dlContract d \<or> dlVersion d < dlVersion old
      then False
      else if dlVersion d = dlVersion old then declaration_equal d old
      else
        list_all (\<lambda>r. rule_equal r (rule_by_id (elems (dlRules d)) (ruID r))) (elems (dlRules old))
        \<and> list_all (\<lambda>f. f \<in> set (elems (dlDecimals d))) (elems (dlDecimals old)))"

definition covers :: "registration \<Rightarrow> registration \<Rightarrow> bool" where
  "covers new old \<longleftrightarrow>
     rgWorkspaceID old = rgWorkspaceID new \<and> rgPluginID old = rgPluginID new
     \<and> rgInstallationID old = rgInstallationID new
     \<and> dlVersion (rgDeclaration old) < dlVersion (rgDeclaration new)
     \<and> Retains (rgDeclaration new) (rgDeclaration old) \<and> MatchesBindings old (rgBindings new)"

fun collect_active :: "registration list \<Rightarrow> registration list \<Rightarrow> registration list" where
  "collect_active active [] = active"
| "collect_active active (old # older) =
     collect_active (if list_ex (\<lambda>new. covers new old) active then active else active @ [old]) older"

definition activeGuards :: "registration list \<Rightarrow> registration list" where
  "activeGuards history = collect_active [] (rev history)"


section \<open>Tables\<close>

record relation_definition =
  rdTargetTableID :: string
  rdReciprocalFieldID :: string
  rdCardinality :: string

record field_definition =
  fdFieldID :: string
  fdPhysicalName :: string
  fdLifecycle :: string
  fdLogicalType :: string
  fdOnlyInt :: bool
  fdPresence :: string
  fdRelation :: "relation_definition option"

record stored_row =
  srID :: string
  srSizes :: "(string \<times> int) list"
  srProduct :: "(string \<times> go_any) list"

record table =
  tbTableID :: string
  tbFields :: "field_definition list"
  tbRows :: "stored_row list"

definition table_field :: "table \<Rightarrow> string \<Rightarrow> field_definition option" where
  "table_field t i = find (\<lambda>f. fdFieldID f = i \<or> fdPhysicalName f = i) (tbFields t)"

definition binding_stale :: go_error where
  "binding_stale = failure ''binding_stale''"

definition select_field :: "table \<Rightarrow> binding \<Rightarrow> string \<Rightarrow> field_definition result" where
  "select_field t b field = (case table_field t (bound_field b field) of
     None \<Rightarrow> Inl binding_stale
   | Some f \<Rightarrow>
       if fdLifecycle f \<noteq> ''active'' \<or> fdLogicalType f = ''formula'' \<or> fdLogicalType f = ''lookup''
       then Inl binding_stale else Inr f)"

definition decimal_mapping_ok :: "table \<Rightarrow> binding \<Rightarrow> decimal \<Rightarrow> bool" where
  "decimal_mapping_ok t b d = (case table_field t (bound_field b (dcField d)) of
     None \<Rightarrow> False
   | Some f \<Rightarrow>
       \<not> (fmtStorage (dcFormat d) = ''decimalText'' \<and> fdLogicalType f \<noteq> ''text''
          \<or> fmtStorage (dcFormat d) = ''integerUnits''
            \<and> (fdLogicalType f \<noteq> ''number'' \<or> \<not> fdOnlyInt f)))"

definition single_relation :: "table \<Rightarrow> binding \<Rightarrow> string \<Rightarrow> relation_definition option" where
  "single_relation t b field = (case table_field t (bound_field b field) of
     None \<Rightarrow> None
   | Some f \<Rightarrow> (case fdRelation f of None \<Rightarrow> None
       | Some rel \<Rightarrow> if rdCardinality rel = ''one'' then Some rel else None))"

definition rule_mapping_ok :: "registration \<Rightarrow> string \<Rightarrow> table \<Rightarrow> rule \<Rightarrow> bool" where
  "rule_mapping_ok r entity t u =
     (let b = binding_at (rgBindings r) entity in
      (ruKind u = ''atMostOne'' \<and> ruEntity u = entity
         \<longrightarrow> list_all (\<lambda>key. single_relation t b key \<noteq> None) (elems (ruFields u)))
      \<and> list_all (\<lambda>(source, step). source \<noteq> entity
          \<or> (case single_relation t b (rsField step) of
               None \<Rightarrow> False
             | Some rel \<Rightarrow>
                 rdTargetTableID rel = bdTableID (binding_at (rgBindings r) (rsTarget step))))
          (relationSteps u))"

text \<open>The columns of the query, and the size SQLite reports for a row.\<close>

definition selected_columns :: "field_definition list \<Rightarrow> string list" where
  "selected_columns selected =
     remdups (''id'' # concat (map (\<lambda>f. fdPhysicalName f # (if fdPresence f = [] then [] else [fdPresence f]))
       selected))"

definition row_size :: "string list \<Rightarrow> stored_row \<Rightarrow> int" where
  "row_size names row =
     sum_list (map (\<lambda>n. case map_of (srSizes row) n of None \<Rightarrow> 0 | Some k \<Rightarrow> k) names)"

definition product_row :: "table \<Rightarrow> binding \<Rightarrow> string list \<Rightarrow> stored_row \<Rightarrow> row" where
  "product_row t b keys row =
     map (\<lambda>field. (field, case table_field t (bound_field b field) of
         None \<Rightarrow> AnyNil | Some f \<Rightarrow> cell (srProduct row) (fdPhysicalName f))) keys"

record budget =
  buRows :: int
  buBytes :: int

definition read_budget_exceeded :: go_error where
  "read_budget_exceeded = failure ''read_budget_exceeded''"

text \<open>A row that is over the limit is refused before its cells are looked at, so the NULLs that
  the query puts in their place are not modelled.\<close>

fun read_rows ::
  "(row \<Rightarrow> string result) \<Rightarrow> table \<Rightarrow> binding \<Rightarrow> string list \<Rightarrow> string list \<Rightarrow> budget
    \<Rightarrow> stored_row list \<Rightarrow> (rows \<times> budget) result" where
  "read_rows marshal t b selected names bu [] = Inr ([], bu)"
| "read_rows marshal t b selected names bu (row # rest) =
     (let count = buRows bu + 1 in
      if count > MaxRows \<or> row_size names row > MaxBytes - buBytes bu then Inl read_budget_exceeded
      else
        let values = product_row t b selected row in
        and_then (marshal values) (\<lambda>raw.
          let bytes = buBytes bu + int (length raw) + int (length (srID row)) in
          if bytes > MaxBytes then Inl read_budget_exceeded
          else and_then
              (read_rows marshal t b selected names \<lparr>buRows = count, buBytes = bytes\<rparr> rest)
              (\<lambda>(rows, bu'). Inr ((srID row, values) # rows, bu'))))"

definition read_entity ::
  "(row \<Rightarrow> string result) \<Rightarrow> (string \<Rightarrow> table result) \<Rightarrow> registration \<Rightarrow> images \<times> budget
    \<Rightarrow> string \<times> string list \<Rightarrow> (images \<times> budget) result" where
  "read_entity marshal Describe r = (\<lambda>(images, bu) (entity, fields).
     case map_of (rgBindings r) entity of
       None \<Rightarrow> Inl binding_stale
     | Some b \<Rightarrow>
         if bdTableID b = [] then Inl binding_stale
         else
         and_then (Describe (bdTableID b)) (\<lambda>t.
         and_then (map_result (select_field t b) fields) (\<lambda>selected.
         and_then (check (list_all (\<lambda>d. dcEntity d \<noteq> entity \<or> decimal_mapping_ok t b d)
             (elems (dlDecimals (rgDeclaration r)))) (failure ''decimal_mapping_invalid'')) (\<lambda>_.
         and_then (check (list_all (rule_mapping_ok r entity t) (elems (dlRules (rgDeclaration r))))
             (failure ''reference_mapping_invalid'')) (\<lambda>_.
         and_then (read_rows marshal t b fields (selected_columns selected) bu
             (take (nat (MaxRows - buRows bu + 1)) (tbRows t))) (\<lambda>(rows, bu').
           Inr ((entity, rows) # images, bu')))))))"

definition Read ::
  "(row \<Rightarrow> string result) \<Rightarrow> (string \<Rightarrow> table result) \<Rightarrow> registration \<Rightarrow> images result" where
  "Read marshal Describe r =
     (if rgWorkspaceID r = [] \<or> rgPluginID r = [] \<or> rgInstallationID r = []
         \<or> Declaration_Validate (rgDeclaration r) \<noteq> Inr ()
      then Inl (failure ''rules_corrupt'')
      else and_then (fold_result (read_entity marshal Describe r) ([], \<lparr>buRows = 0, buBytes = 0\<rparr>)
             (dependencies r)) (\<lambda>(images, _). Inr images))"

section \<open>Selecting and running the guards\<close>

type_synonym write_set = "(string \<times> string) list"

definition AddNative ::
  "table \<Rightarrow> bool \<Rightarrow> string list \<Rightarrow> string \<Rightarrow> write_set \<Rightarrow> write_set" where
  "AddNative t whole values attachment w =
     w @ (if whole then [(tbTableID t, ''*'')] else [])
       @ (if attachment \<noteq> [] then [(tbTableID t, attachment)] else [])
       @ concat (map (\<lambda>f.
           (if fdPhysicalName f \<in> set values then [(tbTableID t, fdFieldID f)] else [])
           @ (case fdRelation f of None \<Rightarrow> []
              | Some rel \<Rightarrow>
                  if rdReciprocalFieldID rel \<noteq> [] \<and> (whole \<or> fdPhysicalName f \<in> set values)
                  then [(rdTargetTableID rel, rdReciprocalFieldID rel)] else [])) (tbFields t))"

definition selectedBy :: "registration \<Rightarrow> write_set \<Rightarrow> bool" where
  "selectedBy r writes =
     list_ex (\<lambda>(entity, fields).
       let b = binding_at (rgBindings r) entity in
       (bdTableID b, ''*'') \<in> set writes
       \<or> list_ex (\<lambda>field. (bdTableID b, bound_field b field) \<in> set writes) fields)
       (dependencies r)"

definition add_budget :: "budget \<Rightarrow> int \<Rightarrow> int \<Rightarrow> budget result" where
  "add_budget bu rows bytes =
     (let bu' = \<lparr>buRows = buRows bu + rows, buBytes = buBytes bu + bytes\<rparr> in
      if buRows bu' > MaxRows \<or> buBytes bu' > MaxBytes then Inl read_budget_exceeded else Inr bu')"

definition count_images :: "(images \<Rightarrow> string result) \<Rightarrow> budget \<Rightarrow> images \<Rightarrow> budget result" where
  "count_images marshal bu images =
     and_then (marshal images) (\<lambda>raw.
       add_budget bu (int (sum_list (map (\<lambda>(_, rows). length rows) images))) (int (length raw)))"

text \<open>The stored registrations, each decoded or with the error of its decoder.\<close>

fun load_rows :: "registration result list \<Rightarrow> registration list result" where
  "load_rows [] = Inr []"
| "load_rows (row # rows) =
     and_then row (\<lambda>r.
       if Declaration_Validate (rgDeclaration r) \<noteq> Inr () then Inl (failure ''rules_corrupt'')
       else and_then (load_rows rows) (\<lambda>rs. Inr (r # rs)))"

definition Load :: "registration result list \<Rightarrow> registration list result" where
  "Load stored =
     (let rows = take (Suc MaxRegistrations) stored in
      if length rows > MaxRegistrations then Inl (failure ''rule_budget_exceeded'') else load_rows rows)"

record json_encoders =
  jsValues :: "go_any list \<Rightarrow> string result"
  jsRow :: "row \<Rightarrow> string result"
  jsImages :: "images \<Rightarrow> string result"

record guard =
  gdRegistration :: registration
  gdBefore :: images

fun capture_guards ::
  "json_encoders \<Rightarrow> (string \<Rightarrow> table result) \<Rightarrow> write_set \<Rightarrow> budget \<Rightarrow> registration list
    \<Rightarrow> guard list result" where
  "capture_guards js Describe touched bu [] = Inr []"
| "capture_guards js Describe touched bu (r # rs) =
     (if \<not> selectedBy r touched then capture_guards js Describe touched bu rs
      else
        and_then (Read (jsRow js) Describe r) (\<lambda>before.
        and_then (count_images (jsImages js) bu before) (\<lambda>bu'.
        and_then (capture_guards js Describe touched bu' rs) (\<lambda>guards.
          Inr (\<lparr>gdRegistration = r, gdBefore = before\<rparr> # guards)))))"

definition Capture ::
  "json_encoders \<Rightarrow> registration result list \<Rightarrow> (string \<Rightarrow> table result) \<Rightarrow> write_set
    \<Rightarrow> guard list result" where
  "Capture js stored Describe touched =
     and_then (Load stored) (\<lambda>registrations.
       capture_guards js Describe touched \<lparr>buRows = 0, buBytes = 0\<rparr> (activeGuards registrations))"

definition guard_step ::
  "json_encoders \<Rightarrow> (string \<Rightarrow> table result) \<Rightarrow> budget \<Rightarrow> guard \<Rightarrow> budget result" where
  "guard_step js Describe bu g =
     and_then (Read (jsRow js) Describe (gdRegistration g)) (\<lambda>after.
     and_then (count_images (jsImages js) bu after) (\<lambda>bu'.
     and_then (Registration_Validate (jsValues js) (gdRegistration g) (Some (gdBefore g)) after) (\<lambda>_.
       Inr bu')))"

definition ValidateGuards ::
  "json_encoders \<Rightarrow> (string \<Rightarrow> table result) \<Rightarrow> guard list \<Rightarrow> unit result" where
  "ValidateGuards js Describe guards =
     and_then (fold_result (\<lambda>bu g. count_images (jsImages js) bu (gdBefore g))
         \<lparr>buRows = 0, buBytes = 0\<rparr> guards) (\<lambda>bu.
     and_then (fold_result (guard_step js Describe) bu guards) (\<lambda>_. Inr ()))"

section \<open>Admission\<close>

text \<open>The tables whose writes can select the candidate: its own and the targets of reciprocal
  relations.\<close>

definition source_step ::
  "(string \<Rightarrow> table result) \<Rightarrow> registration \<Rightarrow> string list \<Rightarrow> string \<times> string list \<Rightarrow> string list result" where
  "source_step Describe r sources = (\<lambda>(entity, fields).
     let b = binding_at (rgBindings r) entity in
     and_then (Describe (bdTableID b)) (\<lambda>t.
     and_then (map_result (\<lambda>key. case table_field t (bound_field b key) of
         None \<Rightarrow> Inl binding_stale
       | Some f \<Rightarrow> Inr (case fdRelation f of None \<Rightarrow> []
           | Some rel \<Rightarrow> if rdReciprocalFieldID rel = [] then [] else [rdTargetTableID rel])) fields)
       (\<lambda>targets. Inr (sources @ bdTableID b # concat targets))))"

record trigger =
  tgWrites :: write_set
  tgBudget :: budget

definition trigger_step ::
  "(string \<Rightarrow> table result) \<Rightarrow> registration \<Rightarrow> trigger list \<Rightarrow> string \<Rightarrow> trigger list result" where
  "trigger_step Describe candidate triggers source =
     and_then (Describe source) (\<lambda>t.
       let writes = AddNative t True [] [] [] in
       Inr (if selectedBy candidate writes
            then triggers @ [\<lparr>tgWrites = writes, tgBudget = \<lparr>buRows = 0, buBytes = 0\<rparr>\<rparr>]
            else triggers))"

definition admit_step ::
  "json_encoders \<Rightarrow> (string \<Rightarrow> table result) \<Rightarrow> registration \<Rightarrow> trigger list \<Rightarrow> nat \<times> registration
    \<Rightarrow> trigger list result" where
  "admit_step js Describe candidate triggers = (\<lambda>(i, guard).
     if \<not> list_ex (\<lambda>t. selectedBy guard (tgWrites t)) triggers then Inr triggers
     else
       and_then (Read (jsRow js) Describe guard) (\<lambda>images.
       and_then (if i = 0 then Registration_Validate (jsValues js) candidate None images else Inr ()) (\<lambda>_.
       and_then (count_images (jsImages js) \<lparr>buRows = 0, buBytes = 0\<rparr> images) (\<lambda>image.
         map_result (\<lambda>t.
           if selectedBy guard (tgWrites t)
           then and_then (add_budget (tgBudget t) (2 * buRows image) (2 * buBytes image)) (\<lambda>bu.
                  Inr (t\<lparr>tgBudget := bu\<rparr>))
           else Inr t) triggers))))"

definition ValidateAdmission ::
  "json_encoders \<Rightarrow> (string \<Rightarrow> table result) \<Rightarrow> registration \<Rightarrow> registration list \<Rightarrow> unit result" where
  "ValidateAdmission js Describe candidate history =
     and_then (fold_result (source_step Describe candidate) [] (dependencies candidate)) (\<lambda>sources.
     and_then (fold_result (trigger_step Describe candidate) [] (remdups sources)) (\<lambda>triggers.
     and_then (fold_result (admit_step js Describe candidate) triggers
         (List.enumerate 0 (activeGuards (history @ [candidate])))) (\<lambda>_. Inr ())))"

section \<open>Inputs and replacement\<close>

definition DecimalInputs ::
  "registration result list \<Rightarrow> string \<Rightarrow> (string \<times> decimal list) list result" where
  "DecimalInputs stored tableID =
     and_then (Load stored) (\<lambda>registrations.
       fold_result (\<lambda>formats (b, d).
         if bdTableID b \<noteq> tableID then Inr formats
         else let field = bound_field b (dcField d) in
           if field = [] then Inl binding_stale
           else Inr (AList.update field
             ((case map_of formats field of None \<Rightarrow> [] | Some ds \<Rightarrow> ds) @ [d]) formats)) []
         (concat (map (\<lambda>r. map (\<lambda>d. (binding_at (rgBindings r) (dcEntity d), d))
           (elems (dlDecimals (rgDeclaration r)))) registrations)))"

definition ProtectReplacement :: "registration result list \<Rightarrow> string list \<Rightarrow> unit result" where
  "ProtectReplacement stored tables =
     and_then (Load stored) (\<lambda>registrations.
       check_all (\<lambda>r. check_all (\<lambda>(entity, _).
         check (bdTableID (binding_at (rgBindings r) entity) \<notin> set tables)
           (failure ''protected_replacement_unsupported'')) (dependencies r)) registrations)"

end
