(* ===== verification/Rule_Samples.thy ===== *)
theory Rule_Samples
  imports Transaction_Guards
begin

text \<open>
  Concrete registrations and images for the witnesses: an instruction for ten units of an
  obligation of ten, a delivery of eight against it, and the transfer of the remaining two.
\<close>

definition sample_format :: format where
  "sample_format = \<lparr>fmtStorage = ''decimalText'', fmtScale = 0, fmtDigits = 12\<rparr>"

definition sample_reservation :: reservation_spec where
  "sample_reservation =
     \<lparr>rvObligationEntity = ''obligations'', rvObligationQuantity = ''quantity'', rvScope = ''scope'',
      rvQuantity = ''quantity'',
      rvPurpose = \<lparr>frPath = Some [\<lparr>rsField = ''owner_line'', rsTarget = ''lines''\<rparr>], frField = ''purpose''\<rparr>,
      rvNormalPurpose = ''normal'',
      rvPhase = \<lparr>phPath = Some [\<lparr>rsField = ''owner_line'', rsTarget = ''lines''\<rparr>,
                                \<lparr>rsField = ''document'', rsTarget = ''documents''\<rparr>],
                 phField = ''phase'', phInstructionDraft = ''instruction_draft'',
                 phInstructionOpen = ''instruction_open'', phInstructionClosed = ''instruction_closed'',
                 phInstructionTransferred = ''instruction_transferred'',
                 phDeliveryDraft = ''delivery_draft'', phDeliveryConfirmed = ''delivery_confirmed''\<rparr>,
      rvPlanItem = [], rvInstructionSource = ''instruction_source'',
      rvTransferredFrom = ''transferred_from'', rvPlans = None\<rparr>"

definition sample_rule :: rule where
  "sample_rule = zero_rule\<lparr>ruID := ''capacity'', ruKind := ''reservationBalance'',
     ruEntity := ''sources'', ruReservation := Some sample_reservation\<rparr>"

definition sample_decimal :: "string \<Rightarrow> decimal" where
  "sample_decimal entity = \<lparr>dcEntity = entity, dcField = ''quantity'', dcNullable = False,
     dcFormat = sample_format, dcSign = ''nonnegative''\<rparr>"

definition sample_declaration :: rule_declaration where
  "sample_declaration = \<lparr>dlContract = Contract, dlModelID = ''m'', dlVersion = 1,
     dlDecimals = Some [sample_decimal ''sources'', sample_decimal ''obligations''],
     dlRules = Some [sample_rule]\<rparr>"

definition sample_registration :: registration where
  "sample_registration = \<lparr>rgWorkspaceID = ''w'', rgPluginID = ''p'', rgInstallationID = ''i'',
     rgDeclaration = sample_declaration, rgBindings = []\<rparr>"

definition text_row :: "(string \<times> string) list \<Rightarrow> row" where
  "text_row = map (\<lambda>(f, v). (f, AnyString v))"

definition sample_images :: "string \<Rightarrow> rows \<Rightarrow> images" where
  "sample_images phase rows =
     [(''obligations'', [(''o1'', text_row [(''quantity'', ''10'')])]),
      (''documents'', [(''di'', text_row [(''phase'', phase)]),
                       (''dt'', text_row [(''phase'', ''instruction_open'')]),
                       (''dd'', text_row [(''phase'', ''delivery_confirmed'')])]),
      (''lines'', [(''li'', text_row [(''purpose'', ''normal''), (''document'', ''di'')]),
                   (''lt'', text_row [(''purpose'', ''normal''), (''document'', ''dt'')]),
                   (''ld'', text_row [(''purpose'', ''normal''), (''document'', ''dd'')])]),
      (''sources'', rows)]"

definition reserved_rows :: rows where
  "reserved_rows =
     [(''h'', text_row [(''owner_line'', ''li''), (''quantity'', ''10''), (''scope'', ''o1'')])]"

definition delivered_rows :: rows where
  "delivered_rows = reserved_rows @
     [(''a'', text_row [(''owner_line'', ''ld''), (''quantity'', ''8''), (''scope'', ''o1''),
                        (''instruction_source'', ''h'')])]"

definition transferred_rows :: rows where
  "transferred_rows = delivered_rows @
     [(''t'', text_row [(''owner_line'', ''lt''), (''quantity'', ''2''), (''scope'', ''o1''),
                        (''transferred_from'', ''h'')])]"

definition sample_marshal :: "go_any list \<Rightarrow> string result" where
  "sample_marshal values = Inr (concat (map (\<lambda>v. case v of AnyString s \<Rightarrow> s @ '','' | _ \<Rightarrow> ''null,'') values))"

abbreviation reserved :: images where
  "reserved \<equiv> sample_images ''instruction_open'' reserved_rows"

abbreviation partly_delivered :: images where
  "partly_delivered \<equiv> sample_images ''instruction_open'' delivered_rows"

abbreviation rest_transferred :: images where
  "rest_transferred \<equiv> sample_images ''instruction_transferred'' transferred_rows"

lemma sample_valid: "Declaration_Validate sample_declaration = Inr ()"
  by code_simp

lemma sample_delivery:
  "Registration_Validate sample_marshal sample_registration (Some reserved) partly_delivered = Inr ()"
  by code_simp

lemma sample_transfer:
  "Registration_Validate sample_marshal sample_registration (Some partly_delivered) rest_transferred = Inr ()"
  by code_simp

lemma sample_undo_refused:
  "Registration_Validate sample_marshal sample_registration (Some partly_delivered) reserved
     = Inl (failure ''reservation_frozen'')"
  by code_simp

lemma sample_rule_listed [simp]:
  "sample_rule \<in> set (elems (dlRules (rgDeclaration sample_registration)))"
  "ruKind sample_rule = ''reservationBalance''" "ruReservation sample_rule = Some sample_reservation"
  by (simp_all add: sample_registration_def sample_declaration_def sample_rule_def)

section \<open>Documents with lines, payments and returns\<close>

definition document_path :: "relation_step slice" where
  "document_path = Some [\<lparr>rsField = ''document'', rsTarget = ''documents''\<rparr>]"

definition phase_rule :: rule where
  "phase_rule = zero_rule\<lparr>ruID := ''phase'', ruKind := ''state'', ruEntity := ''documents'',
     ruField := ''phase'', ruFields := Some [''amount''],
     ruTransitions := Some [(''open'', Some [''closed'']), (''closed'', None)],
     ruFrozenStates := Some [''closed'']\<rparr>"

definition lines_rule :: rule where
  "lines_rule = zero_rule\<lparr>ruID := ''lines'', ruKind := ''parentFreeze'', ruEntity := ''lines'',
     ruFields := Some [''quantity''], ruParentPath := document_path, ruParentStateField := ''phase'',
     ruFrozenStates := Some [''closed'']\<rparr>"

definition paid_rule :: rule where
  "paid_rule = zero_rule\<lparr>ruID := ''paid'', ruKind := ''conservation'', ruEntity := ''payments'',
     ruTarget := ''documents'', ruRelation := ''document'', ruAmount := ''paid'', ruLimit := ''amount''\<rparr>"

definition returns_spec :: reversal_spec where
  "returns_spec = \<lparr>rlOriginal = ''original'', rlQuantity = ''quantity'', rlPurpose = ''purpose'',
     rlReversalPurpose = ''return'', rlOriginalPurpose = ''sale'', rlOwnerPath = document_path,
     rlOwnerStateField = ''phase'', rlRequiredStates = Some [''closed''], rlConfirmedState = ''closed'',
     rlSameFields = Some [], rlSameOwnerFields = Some []\<rparr>"

definition returns_rule :: rule where
  "returns_rule = zero_rule\<lparr>ruID := ''returns'', ruKind := ''reversalBalance'', ruEntity := ''lines'',
     ruReversal := Some returns_spec\<rparr>"

definition shop_declaration :: rule_declaration where
  "shop_declaration = \<lparr>dlContract = Contract, dlModelID = ''m'', dlVersion = 1,
     dlDecimals = Some
       [sample_decimal ''lines'', (sample_decimal ''payments'')\<lparr>dcField := ''paid''\<rparr>,
        (sample_decimal ''documents'')\<lparr>dcField := ''amount''\<rparr>],
     dlRules = Some [phase_rule, lines_rule, paid_rule, returns_rule]\<rparr>"

definition shop_registration :: registration where
  "shop_registration = \<lparr>rgWorkspaceID = ''w'', rgPluginID = ''p'', rgInstallationID = ''i'',
     rgDeclaration = shop_declaration, rgBindings = []\<rparr>"

definition shop_images :: "string \<Rightarrow> images" where
  "shop_images phase =
     [(''documents'', [(''d1'', text_row [(''phase'', ''closed''), (''amount'', ''30'')]),
                       (''d2'', text_row [(''phase'', phase), (''amount'', ''0'')])]),
      (''lines'', [(''l1'', text_row [(''document'', ''d1''), (''quantity'', ''3''), (''purpose'', ''sale'')]),
                   (''r1'', text_row [(''document'', ''d2''), (''quantity'', ''2''), (''purpose'', ''return''),
                                      (''original'', ''l1'')])]),
      (''payments'', [(''p1'', text_row [(''document'', ''d1''), (''paid'', ''20'')]),
                      (''p2'', text_row [(''document'', ''d1''), (''paid'', ''10'')])])]"

lemma shop_valid: "Declaration_Validate shop_declaration = Inr ()"
  by code_simp

lemma shop_return_confirmed:
  "Registration_Validate sample_marshal shop_registration (Some (shop_images ''open'')) (shop_images ''closed'') = Inr ()"
  by code_simp

lemma shop_rules [simp]:
  "phase_rule \<in> set (elems (dlRules (rgDeclaration shop_registration)))"
  "lines_rule \<in> set (elems (dlRules (rgDeclaration shop_registration)))"
  "paid_rule \<in> set (elems (dlRules (rgDeclaration shop_registration)))"
  "returns_rule \<in> set (elems (dlRules (rgDeclaration shop_registration)))"
  by (simp_all add: shop_registration_def shop_declaration_def)

end
