(* ===== verification/Rule_Properties.thy ===== *)
theory Rule_Properties
  imports Rule_Samples
begin

text \<open>
  What an accepted change guarantees for the simpler kinds of rule: exact totals, bounded reversals,
  and rows that stay as they are once their state is sealed.
\<close>

section \<open>Rules of a valid declaration\<close>

lemma validated_rule:
  "Registration_Validate marshal reg before after = Inr () \<Longrightarrow>
     r \<in> set (elems (dlRules (rgDeclaration reg))) \<Longrightarrow>
     validate_rule marshal (formats_of (rgDeclaration reg)) before after r = Inr ()"
  by (auto simp: Registration_Validate_def result_simps)

lemma rules_valid_kind: "rules_valid decimals ids rs \<Longrightarrow> r \<in> set rs \<Longrightarrow> kind_valid decimals r"
  by (induction rs arbitrary: ids) auto

lemma declared_rule_valid:
  assumes "Declaration_Validate d = Inr ()" "r \<in> set (elems (dlRules d))"
  shows "\<exists>decimals. decimal_table [] (elems (dlDecimals d)) = Inr decimals \<and> kind_valid decimals r"
  using assms by (auto simp: Declaration_Validate_def result_simps dest: rules_valid_kind)

section \<open>Exact totals\<close>

text \<open>Whether a row counts for a target, and the amount it declares.\<close>

definition counts_for :: "rule \<Rightarrow> images \<Rightarrow> string \<Rightarrow> string \<times> row \<Rightarrow> bool" where
  "counts_for r after target = (\<lambda>(i, row). cell row (ruRelation r) = AnyString target
     \<and> (case ruCurrentWhen r of None \<Rightarrow> True
        | Some m \<Rightarrow> matches m after row i \<lparr>skipEmptyLeft = False, allowEmptyRight = True\<rparr> = Inr True))"

definition amount_of :: "rule \<Rightarrow> (string \<times> format) list \<Rightarrow> string \<times> row \<Rightarrow> int" where
  "amount_of r formats = (\<lambda>(_, row). projr (Parse (format_at formats (ruEntity r) (ruAmount r)) (cell row (ruAmount r))))"

lemma add_checked_ok: "add_checked f t v = Inr n \<Longrightarrow> n = t + v"
  by (auto simp: add_checked_def Add_def split: option.split_asm sum.split_asm prod.split_asm)

lemma add_checked_update:
  "add_checked f (total_of m k) v = Inr n \<Longrightarrow> AList.update k n m = add_total m k v"
  by (auto simp: add_total_def dest: add_checked_ok)

lemma total_step_ok:
  assumes "total_step r formats after totals x = Inr totals'"
  shows "total_of totals' t = total_of totals t + (if counts_for r after t x then amount_of r formats x else 0)"
proof -
  obtain i row where x: "x = (i, row)" by force
  let ?current = "case ruCurrentWhen r of None \<Rightarrow> Inr True
    | Some m \<Rightarrow> matches m after row i \<lparr>skipEmptyLeft = False, allowEmptyRight = True\<rparr>"
  obtain target current where target: "cell row (ruRelation r) = AnyString target" "?current = Inr current"
    and "if \<not> current then totals' = totals
      else \<exists>v n. Parse (format_at formats (ruEntity r) (ruAmount r)) (cell row (ruAmount r)) = Inr v
        \<and> add_checked (format_at formats (ruTarget r) (ruLimit r)) (total_of totals target) v = Inr n
        \<and> totals' = AList.update target n totals"
    using assms by (auto simp: x total_step_def result_simps split: if_split_asm)
  moreover have "counts_for r after t x \<longleftrightarrow> target = t \<and> current"
    using target by (auto simp: counts_for_def x split: option.split_asm)
  ultimately show ?thesis
    by (auto simp: amount_of_def x add_checked_update split: if_split_asm)
qed

lemma total_fold_ok:
  "fold_result (total_step r formats after) totals xs = Inr totals' \<Longrightarrow>
     total_of totals' t = total_of totals t + sum_where (counts_for r after t) (amount_of r formats) xs"
  by (induction xs arbitrary: totals) (auto simp: result_simps total_step_ok [where t = t])

lemma totals_ok:
  assumes "validateTotals r formats after = Inr ()" "(t, row) \<in> set (rows_of after (ruTarget r))"
  shows "\<exists>limit. Parse (format_at formats (ruTarget r) (ruLimit r)) (cell row (ruLimit r)) = Inr limit
    \<and> (let counted = sum_where (counts_for r after t) (amount_of r formats) (rows_of after (ruEntity r)) in
       (ruKind r = ''conservation'' \<longrightarrow> counted = limit) \<and> (ruKind r = ''balance'' \<longrightarrow> counted \<le> limit))"
proof -
  obtain totals where fold: "fold_result (total_step r formats after) []
      (sort_key fst (rows_of after (ruEntity r))) = Inr totals"
    and limit: "\<exists>limit. Parse (format_at formats (ruTarget r) (ruLimit r)) (cell row (ruLimit r)) = Inr limit
      \<and> \<not> (ruKind r = ''conservation'' \<and> total_of totals t \<noteq> limit
           \<or> ruKind r = ''balance'' \<and> total_of totals t > limit)"
    using assms by (fastforce simp: validateTotals_def result_simps Let_def)
  have "total_of totals t = sum_where (counts_for r after t) (amount_of r formats) (rows_of after (ruEntity r))"
    using total_fold_ok [OF fold, of t]
      sum_where_mset [of "sort_key fst (rows_of after (ruEntity r))" "rows_of after (ruEntity r)"]
    by simp
  with limit show ?thesis by (auto simp: Let_def)
qed


section \<open>Reversals\<close>

text \<open>A confirmed reversal of a row, and the quantity a row states.\<close>

definition reverses :: "rule \<Rightarrow> reversal_spec \<Rightarrow> images \<Rightarrow> string \<Rightarrow> string \<times> row \<Rightarrow> bool" where
  "reverses r spec after original = (\<lambda>(i, row).
     cell row (rlPurpose spec) = AnyString (rlReversalPurpose spec)
     \<and> cell row (rlOriginal spec) = AnyString original
     \<and> (case owner_of spec after row of Inl _ \<Rightarrow> False
        | Inr owner \<Rightarrow> cell owner (rlOwnerStateField spec) = AnyString (rlConfirmedState spec)))"

definition quantity_of :: "format \<Rightarrow> reversal_spec \<Rightarrow> row \<Rightarrow> int" where
  "quantity_of format spec row = projr (Parse format (cell row (rlQuantity spec)))"

definition reversible :: "rule \<Rightarrow> reversal_spec \<Rightarrow> format \<Rightarrow> images \<Rightarrow> string \<Rightarrow> int \<Rightarrow> bool" where
  "reversible r spec format after i limit \<longleftrightarrow> (\<exists>original owner. row_at after (ruEntity r) i = Some original
     \<and> cell original (rlPurpose spec) = AnyString (rlOriginalPurpose spec)
     \<and> owner_of spec after original = Inr owner
     \<and> cell owner (rlOwnerStateField spec) = AnyString (rlConfirmedState spec)
     \<and> Parse format (cell original (rlQuantity spec)) = Inr limit)"

lemma reversal_step_ok:
  assumes "reversal_step r spec format after totals x = Inr totals'"
    and "rlConfirmedState spec \<in> set (elems (rlRequiredStates spec))"
  shows "total_of totals' t = total_of totals t
      + (if reverses r spec after t x then quantity_of format spec (snd x) else 0)"
    and "reverses r spec after t x \<Longrightarrow> \<exists>limit. reversible r spec format after t limit \<and> total_of totals' t \<le> limit"
proof -
  obtain i row where x: "x = (i, row)" by force
  have unchanged: "totals' = totals" if "\<nexists>u. reverses r spec after u x"
    using assms that unfolding x reversal_step_def
    by (auto simp: result_simps original_of_def reverses_def Let_def split: if_split_asm)
  have changed: "totals' = add_total totals u (quantity_of format spec row)
      \<and> (\<exists>limit. reversible r spec format after u limit \<and> total_of totals' u \<le> limit)"
    if "reverses r spec after u x" for u
  proof -
    from that obtain owner where owner: "owner_of spec after row = Inr owner"
      and state: "cell owner (rlOwnerStateField spec) = AnyString (rlConfirmedState spec)"
      and row: "cell row (rlPurpose spec) = AnyString (rlReversalPurpose spec)"
        "cell row (rlOriginal spec) = AnyString u"
      by (auto simp: reverses_def x split: sum.split_asm)
    from assms(1) obtain original originalOwner quantity limit
      where "original_of r spec after i row = Inr (u, original)"
        "owner_of spec after original = Inr originalOwner"
        "cell originalOwner (rlOwnerStateField spec) = AnyString (rlConfirmedState spec)"
        "Parse format (cell row (rlQuantity spec)) = Inr quantity"
        "Parse format (cell original (rlQuantity spec)) = Inr limit"
        "totals' = add_total totals u quantity" "total_of totals' u \<le> limit"
      unfolding x reversal_step_def by (auto simp: owner state row assms(2) result_simps original_of_def Let_def)
    then show ?thesis
      by (auto simp: quantity_of_def reversible_def original_of_def result_simps)
  qed
  have other: "u = t" if "reverses r spec after u x" "reverses r spec after t x" for u
    using that by (auto simp: reverses_def x)
  show "total_of totals' t = total_of totals t
      + (if reverses r spec after t x then quantity_of format spec (snd x) else 0)"
  proof (cases "\<exists>u. reverses r spec after u x")
    case True
    then obtain u where u: "reverses r spec after u x" by blast
    have eq: "totals' = add_total totals u (quantity_of format spec (snd x))"
      using conjunct1 [OF changed [OF u]] by (simp add: x)
    show ?thesis
    proof (cases "u = t")
      case True
      then show ?thesis using u by (simp add: eq)
    next
      case False
      then have "\<not> reverses r spec after t x" using other [OF u] by blast
      with False show ?thesis by (simp add: eq)
    qed
  next
    case False
    then show ?thesis using unchanged by auto
  qed
  show "\<exists>limit. reversible r spec format after t limit \<and> total_of totals' t \<le> limit" if "reverses r spec after t x"
    using changed [OF that] by blast
qed

lemma reversal_fold_ok:
  assumes "fold_result (reversal_step r spec format after) totals xs = Inr totals'"
    and "rlConfirmedState spec \<in> set (elems (rlRequiredStates spec))"
  shows "total_of totals' t = total_of totals t
      + sum_where (reverses r spec after t) (\<lambda>(_, row). quantity_of format spec row) xs"
    and "list_ex (reverses r spec after t) xs \<Longrightarrow>
      \<exists>limit. reversible r spec format after t limit \<and> total_of totals' t \<le> limit"
  using assms
proof (induction xs arbitrary: totals)
  case (Cons x xs)
  {
    case 1
    then show ?case
      using Cons.IH(1) reversal_step_ok(1) [where t = t] by (fastforce simp: result_simps split: prod.split)
  next
    case 2
    then obtain m where m: "reversal_step r spec format after totals x = Inr m"
        "fold_result (reversal_step r spec format after) m xs = Inr totals'"
      by (auto simp: result_simps)
    show ?case
    proof (cases "list_ex (reverses r spec after t) xs")
      case True
      then show ?thesis using Cons.IH(2) m(2) 2(3) by blast
    next
      case False
      then have "sum_where (reverses r spec after t) (\<lambda>(_, row). quantity_of format spec row) xs = 0"
        by (induction xs) auto
      then have "total_of totals' t = total_of m t" using Cons.IH(1) m(2) 2(3) by simp
      then show ?thesis using reversal_step_ok(2) [OF m(1) 2(3)] 2(1) False by auto
    qed
  }
qed simp_all

text \<open>
  C34. What is confirmed to be reversed of a row is never more than the row: in every accepted
  state the confirmed reversals of one original together state at most its quantity, and the
  original has the original purpose and a confirmed owner.
\<close>

theorem reversals_bounded:
  assumes "Registration_Validate marshal reg before after = Inr ()"
    and "Declaration_Validate (rgDeclaration reg) = Inr ()"
    and "r \<in> set (elems (dlRules (rgDeclaration reg)))" "ruKind r = ''reversalBalance''"
    and "ruReversal r = Some spec" "x \<in> set (rows_of after (ruEntity r))" "reverses r spec after original x"
  shows "\<exists>limit. reversible r spec (format_at (formats_of (rgDeclaration reg)) (ruEntity r) (rlQuantity spec))
      after original limit
    \<and> sum_where (reverses r spec after original)
        (\<lambda>(_, row). quantity_of (format_at (formats_of (rgDeclaration reg)) (ruEntity r) (rlQuantity spec)) spec row)
        (rows_of after (ruEntity r)) \<le> limit"
proof -
  have confirmed: "rlConfirmedState spec \<in> set (elems (rlRequiredStates spec))"
    using declared_rule_valid [OF assms(2,3)] assms(4,5) by (auto simp: kind_valid_def reversal_valid_def)
  have "validateReversal r (formats_of (rgDeclaration reg)) after = Inr ()"
    using validated_rule [OF assms(1,3)] assms(4) by (simp add: validate_rule_def)
  then obtain totals where fold: "fold_result (reversal_step r spec
      (format_at (formats_of (rgDeclaration reg)) (ruEntity r) (rlQuantity spec)) after) []
      (rows_of after (ruEntity r)) = Inr totals"
    using assms(5) by (auto simp: validateReversal_def result_simps split: if_split_asm)
  have "list_ex (reverses r spec after original) (rows_of after (ruEntity r))"
    using assms(6,7) by (auto simp: list_ex_iff)
  then show ?thesis
    using reversal_fold_ok [OF fold confirmed, where t = original] by simp
qed


section \<open>Totals of an accepted change\<close>

text \<open>
  C35. Accepted totals are exact: for every row of the target table the amounts of the rows that
  count for it, added without rounding, equal its limit under \<open>conservation\<close> and do not exceed it under
  \<open>balance\<close>.
\<close>

theorem totals_exact:
  assumes "Registration_Validate marshal reg before after = Inr ()"
    and "r \<in> set (elems (dlRules (rgDeclaration reg)))" "ruKind r \<in> {''conservation'', ''balance''}"
    and "(t, row) \<in> set (rows_of after (ruTarget r))"
  shows "\<exists>limit. Parse (format_at (formats_of (rgDeclaration reg)) (ruTarget r) (ruLimit r)) (cell row (ruLimit r)) = Inr limit
    \<and> (let counted = sum_where (counts_for r after t) (amount_of r (formats_of (rgDeclaration reg)))
             (rows_of after (ruEntity r)) in
       (ruKind r = ''conservation'' \<longrightarrow> counted = limit) \<and> (ruKind r = ''balance'' \<longrightarrow> counted \<le> limit))"
  by (rule totals_ok [OF _ assms(4)])
    (use validated_rule [OF assms(1,2)] assms(3) in \<open>auto simp: validate_rule_def\<close>)

section \<open>Sealed states\<close>

text \<open>Deep equality of floats is equality of their values at any common exponent.\<close>

lemma float_eq_scaled:
  assumes "k \<le> e" "k \<le> f"
  shows "float_eq (Dyadic m e) (Dyadic n f) \<longleftrightarrow> m * 2 ^ nat (e - k) = n * 2 ^ nat (f - k)"
proof -
  let ?l = "min e f"
  have "nat (e - k) = nat (e - ?l) + nat (?l - k)" "nat (f - k) = nat (f - ?l) + nat (?l - k)"
    using assms by linarith+
  then show ?thesis by (simp add: float_eq_def power_add mult.assoc [symmetric])
qed

lemma float_eq_trans: "float_eq x y \<Longrightarrow> float_eq y z \<Longrightarrow> float_eq x z"
proof (cases x; cases y; cases z)
  fix m e n f l g
  assume *: "x = Dyadic m e" "y = Dyadic n f" "z = Dyadic l g" "float_eq x y" "float_eq y z"
  let ?k = "min e (min f g)"
  have "?k \<le> e" "?k \<le> f" "?k \<le> g" by linarith+
  with * show "float_eq x z" by (simp add: float_eq_scaled [where k = ?k])
qed (auto simp: float_eq_def)

lemma deep_equal_trans: "deep_equal u v \<Longrightarrow> deep_equal v w \<Longrightarrow> deep_equal u w"
  by (auto simp: deep_equal_def float_eq_trans split: go_any.splits)

text \<open>A sealed state is frozen and has no transition to another one.\<close>

definition sealed :: "rule \<Rightarrow> string \<Rightarrow> bool" where
  "sealed r state \<longleftrightarrow> state \<in> set (elems (ruFrozenStates r)) \<and> set (transitions_from r state) \<subseteq> {state}"

definition fields_kept :: "rule \<Rightarrow> row \<Rightarrow> row \<Rightarrow> bool" where
  "fields_kept r old new \<longleftrightarrow> list_all (\<lambda>f. deep_equal (cell old f) (cell new f)) (elems (ruFields r))"

lemma fields_kept_trans: "fields_kept r u v \<Longrightarrow> fields_kept r v w \<Longrightarrow> fields_kept r u w"
  by (auto simp: fields_kept_def list_all_iff intro: deep_equal_trans)

definition sealed_kept :: "rule \<Rightarrow> images \<Rightarrow> images \<Rightarrow> bool" where
  "sealed_kept r before after \<longleftrightarrow> (\<forall>i old state. row_at before (ruEntity r) i = Some old \<longrightarrow>
     cell old (ruField r) = AnyString state \<longrightarrow> sealed r state \<longrightarrow>
     (\<exists>new. row_at after (ruEntity r) i = Some new \<and> cell new (ruField r) = AnyString state
        \<and> fields_kept r old new))"

lemma sealed_kept_trans: "sealed_kept r u v \<Longrightarrow> sealed_kept r v w \<Longrightarrow> sealed_kept r u w"
  unfolding sealed_kept_def by (meson fields_kept_trans)

lemma state_keeps_sealed: "validateState r before after = Inr () \<Longrightarrow> sealed_kept r before after"
  unfolding sealed_kept_def
proof (intro allI impI)
  fix i old state
  assume ok: "validateState r before after = Inr ()" and old: "row_at before (ruEntity r) i = Some old"
    and state: "cell old (ruField r) = AnyString state" and sealed: "sealed r state"
  have "state_step r (rows_of after (ruEntity r)) (i, old) = Inr ()"
    using ok map_of_SomeD [OF old [unfolded row_at_def]]
    by (auto simp: validateState_def result_simps Let_def)
  with state sealed show "\<exists>new. row_at after (ruEntity r) i = Some new
      \<and> cell new (ruField r) = AnyString state \<and> fields_kept r old new"
    by (auto simp: state_step_def result_simps sealed_def fields_kept_def row_at_def
        split: option.split_asm)
qed

definition accepted :: "(go_any list \<Rightarrow> string result) \<Rightarrow> registration \<Rightarrow> images \<Rightarrow> images \<Rightarrow> bool" where
  "accepted marshal reg before after \<longleftrightarrow> Registration_Validate marshal reg (Some before) after = Inr ()"

definition has_rule :: "registration \<Rightarrow> string \<Rightarrow> rule \<Rightarrow> bool" where
  "has_rule reg kind r \<longleftrightarrow> r \<in> set (elems (dlRules (rgDeclaration reg))) \<and> ruKind r = kind"

lemma accepted_state: "accepted marshal reg s t \<Longrightarrow> has_rule reg ''state'' r \<Longrightarrow> sealed_kept r s t"
  using validated_rule [of marshal reg "Some s" t r]
  by (auto simp: accepted_def has_rule_def validate_rule_def image_of_def intro: state_keeps_sealed)

interpretation states: persistent
  "\<lambda>s t. accepted marshal reg s t \<and> has_rule reg ''state'' r" "(=)" "sealed_kept r" for marshal reg r
  by unfold_locales (auto intro: accepted_state sealed_kept_trans)

section \<open>Sealed documents\<close>

text \<open>The rows under a parent whose state both rules freeze.\<close>

definition lines_kept :: "rule \<Rightarrow> rule \<Rightarrow> images \<Rightarrow> images \<Rightarrow> bool" where
  "lines_kept s f before after \<longleftrightarrow> sealed_kept s before after
     \<and> (\<forall>i old ids state parent. row_at before (ruEntity f) i = Some old \<longrightarrow>
          identities before old (elems (ruParentPath f)) = Inr ids \<longrightarrow> ids \<noteq> [] \<longrightarrow>
          row_at before (ruEntity s) (last ids) = Some parent \<longrightarrow>
          cell parent (ruField s) = AnyString state \<longrightarrow> sealed s state \<longrightarrow>
          state \<in> set (elems (ruFrozenStates f)) \<longrightarrow>
          (\<exists>new. row_at after (ruEntity f) i = Some new
             \<and> identities after new (elems (ruParentPath f)) = Inr ids \<and> fields_kept f old new))"

lemma lines_keptD:
  assumes "lines_kept s f before after" "row_at before (ruEntity f) i = Some old"
    and "identities before old (elems (ruParentPath f)) = Inr ids" "ids \<noteq> []"
    and "row_at before (ruEntity s) (last ids) = Some parent" "cell parent (ruField s) = AnyString state"
    and "sealed s state" "state \<in> set (elems (ruFrozenStates f))"
  obtains new newParent where "row_at after (ruEntity f) i = Some new"
    "identities after new (elems (ruParentPath f)) = Inr ids" "fields_kept f old new"
    "row_at after (ruEntity s) (last ids) = Some newParent" "cell newParent (ruField s) = AnyString state"
  using assms unfolding lines_kept_def sealed_kept_def by meson

lemma lines_kept_trans:
  assumes "lines_kept s f u v" "lines_kept s f v w"
  shows "lines_kept s f u w"
  unfolding lines_kept_def
proof (intro conjI allI impI)
  show "sealed_kept s u w" using assms sealed_kept_trans by (auto simp: lines_kept_def)
  fix i old ids state parent
  assume *: "row_at u (ruEntity f) i = Some old" "identities u old (elems (ruParentPath f)) = Inr ids"
    "ids \<noteq> []" "row_at u (ruEntity s) (last ids) = Some parent" "cell parent (ruField s) = AnyString state"
    "sealed s state" "state \<in> set (elems (ruFrozenStates f))"
  obtain mid midParent where mid: "row_at v (ruEntity f) i = Some mid"
    "identities v mid (elems (ruParentPath f)) = Inr ids" "fields_kept f old mid"
    "row_at v (ruEntity s) (last ids) = Some midParent" "cell midParent (ruField s) = AnyString state"
    by (rule lines_keptD [OF assms(1) *])
  obtain new where "row_at w (ruEntity f) i = Some new"
    "identities w new (elems (ruParentPath f)) = Inr ids" "fields_kept f mid new"
    by (rule lines_keptD [OF assms(2) mid(1,2) *(3) mid(4,5) *(6,7)])
  with mid(3) show "\<exists>new. row_at w (ruEntity f) i = Some new
      \<and> identities w new (elems (ruParentPath f)) = Inr ids \<and> fields_kept f old new"
    by (blast intro: fields_kept_trans)
qed

text \<open>The parents of the freeze rule are the rows of the state rule.\<close>

definition document_rules :: "registration \<Rightarrow> rule \<Rightarrow> rule \<Rightarrow> bool" where
  "document_rules reg s f \<longleftrightarrow> has_rule reg ''state'' s \<and> has_rule reg ''parentFreeze'' f
     \<and> path_end (ruEntity f) (elems (ruParentPath f)) = ruEntity s \<and> ruParentStateField f = ruField s"

lemma accepted_lines:
  assumes "accepted marshal reg before after" "document_rules reg s f"
  shows "lines_kept s f before after"
  unfolding lines_kept_def
proof (intro conjI allI impI)
  show "sealed_kept s before after"
    using accepted_state assms by (simp add: document_rules_def)
  fix i old ids state parent
  assume old: "row_at before (ruEntity f) i = Some old"
    and ids: "identities before old (elems (ruParentPath f)) = Inr ids" "ids \<noteq> []"
    and parent: "row_at before (ruEntity s) (last ids) = Some parent" "cell parent (ruField s) = AnyString state"
    and frozen: "state \<in> set (elems (ruFrozenStates f))"
  have "validateParentFreeze f before after = Inr ()"
    using validated_rule [of marshal reg "Some before" after f] assms
    by (simp add: accepted_def document_rules_def has_rule_def validate_rule_def image_of_def)
  then have "freeze_step f before after (i, old) = Inr ()"
    using map_of_SomeD [OF old [unfolded row_at_def]] by (auto simp: validateParentFreeze_def result_simps)
  moreover have "frozen_in f before (last ids)"
    using parent frozen assms(2) by (simp add: frozen_in_def document_rules_def)
  ultimately show "\<exists>new. row_at after (ruEntity f) i = Some new
      \<and> identities after new (elems (ruParentPath f)) = Inr ids \<and> fields_kept f old new"
    using ids by (auto simp: freeze_step_def result_simps go_last_def fields_kept_def Let_def
        split: option.split_asm)
qed

interpretation documents: persistent
  "\<lambda>a b. accepted marshal reg a b \<and> document_rules reg s f" "(=)" "lines_kept s f" for marshal reg s f
  by unfold_locales (auto intro: accepted_lines lines_kept_trans)

lemma tranclp_with: "R\<^sup>+\<^sup>+ x y \<Longrightarrow> P \<Longrightarrow> (\<lambda>a b. R a b \<and> P)\<^sup>+\<^sup>+ x y"
  by (induction rule: tranclp_induct) (auto intro: tranclp.trancl_into_trancl)

text \<open>
  C36. Sealed documents keep their lines: once the state of a document is sealed, no sequence
  of accepted changes changes its state or its frozen fields or deletes it, and every line that
  belongs to it stays, with the same path to it and the same frozen fields.
\<close>

theorem sealed_documents:
  assumes "(accepted marshal reg)\<^sup>+\<^sup>+ before after" "document_rules reg s f"
    and "row_at before (ruEntity s) d = Some document" "cell document (ruField s) = AnyString state"
    and "sealed s state" "state \<in> set (elems (ruFrozenStates f))"
    and "row_at before (ruEntity f) i = Some line"
    and "identities before line (elems (ruParentPath f)) = Inr (ids @ [d])"
  shows "(\<exists>new. row_at after (ruEntity s) d = Some new \<and> cell new (ruField s) = AnyString state
      \<and> fields_kept s document new)
    \<and> (\<exists>new. row_at after (ruEntity f) i = Some new
      \<and> identities after new (elems (ruParentPath f)) = Inr (ids @ [d]) \<and> fields_kept f line new)"
proof -
  have kept: "lines_kept s f before after"
    using documents.steps_kept [OF tranclp_with [OF assms(1,2)]] by simp
  show ?thesis
  proof
    show "\<exists>new. row_at after (ruEntity s) d = Some new \<and> cell new (ruField s) = AnyString state
        \<and> fields_kept s document new"
      using kept assms(3-5) by (simp add: lines_kept_def sealed_kept_def)
    show "\<exists>new. row_at after (ruEntity f) i = Some new
        \<and> identities after new (elems (ruParentPath f)) = Inr (ids @ [d]) \<and> fields_kept f line new"
      by (rule lines_keptD [OF kept assms(7,8) _ _ assms(4-6)]) (use assms(3) in auto)
  qed
qed


section \<open>Witnesses\<close>

theorem totals_exact_witness:
  "sum_where (counts_for paid_rule (shop_images ''closed'') ''d1'')
     (amount_of paid_rule (formats_of shop_declaration)) (rows_of (shop_images ''closed'') ''payments'') = 30"
proof -
  let ?row = "text_row [(''phase'', ''closed''), (''amount'', ''30'')]"
  have d1: "(''d1'', ?row) \<in> set (rows_of (shop_images ''closed'') (ruTarget paid_rule))" by code_simp
  have thirty: "Parse (format_at (formats_of (rgDeclaration shop_registration)) (ruTarget paid_rule)
      (ruLimit paid_rule)) (cell ?row (ruLimit paid_rule)) = Inr 30" by code_simp
  have "ruKind paid_rule \<in> {''conservation'', ''balance''}" by (simp add: paid_rule_def)
  from totals_exact [OF shop_return_confirmed shop_rules(3) this d1] thirty show ?thesis
    by (auto simp: paid_rule_def shop_registration_def Let_def)
qed

theorem reversals_bounded_witness:
  "\<exists>limit. reversible returns_rule returns_spec sample_format (shop_images ''closed'') ''l1'' limit
     \<and> sum_where (reverses returns_rule returns_spec (shop_images ''closed'') ''l1'')
         (\<lambda>(_, row). quantity_of sample_format returns_spec row)
         (rows_of (shop_images ''closed'') ''lines'') \<le> limit"
proof -
  let ?row = "text_row [(''document'', ''d2''), (''quantity'', ''2''), (''purpose'', ''return''),
    (''original'', ''l1'')]"
  have r1: "(''r1'', ?row) \<in> set (rows_of (shop_images ''closed'') (ruEntity returns_rule))"
    and rev: "reverses returns_rule returns_spec (shop_images ''closed'') ''l1'' (''r1'', ?row)"
    and kind: "ruKind returns_rule = ''reversalBalance''" "ruReversal returns_rule = Some returns_spec"
    and format: "format_at (formats_of (rgDeclaration shop_registration)) (ruEntity returns_rule)
      (rlQuantity returns_spec) = sample_format" by code_simp+
  have valid: "Declaration_Validate (rgDeclaration shop_registration) = Inr ()"
    using shop_valid by (simp add: shop_registration_def)
  show ?thesis
    using reversals_bounded [OF shop_return_confirmed valid shop_rules(4) kind r1 rev] format
    by (simp add: returns_rule_def)
qed

theorem sealed_documents_witness:
  "\<exists>new. row_at (shop_images ''closed'') ''lines'' ''l1'' = Some new
     \<and> identities (shop_images ''closed'') new (elems document_path) = Inr [''d1'']"
proof -
  have run: "(accepted sample_marshal shop_registration)\<^sup>+\<^sup>+ (shop_images ''open'') (shop_images ''closed'')"
    using shop_return_confirmed by (auto simp: accepted_def)
  have rules: "document_rules shop_registration phase_rule lines_rule"
    by (simp add: document_rules_def has_rule_def) (code_simp)
  have *: "row_at (shop_images ''open'') (ruEntity phase_rule) ''d1''
      = Some (text_row [(''phase'', ''closed''), (''amount'', ''30'')])"
    "cell (text_row [(''phase'', ''closed''), (''amount'', ''30'')]) (ruField phase_rule) = AnyString ''closed''"
    "sealed phase_rule ''closed''" "''closed'' \<in> set (elems (ruFrozenStates lines_rule))"
    "row_at (shop_images ''open'') (ruEntity lines_rule) ''l1''
      = Some (text_row [(''document'', ''d1''), (''quantity'', ''3''), (''purpose'', ''sale'')])"
    "identities (shop_images ''open'') (text_row [(''document'', ''d1''), (''quantity'', ''3''), (''purpose'', ''sale'')])
      (elems (ruParentPath lines_rule)) = Inr ([] @ [''d1''])"
    by code_simp+
  show ?thesis
    using sealed_documents [OF run rules *] by (auto simp: lines_rule_def)
qed

end
