(* ===== verification/Reservation_Properties.thy ===== *)
theory Reservation_Properties
  imports Rule_Properties
begin

text \<open>
  What an accepted change guarantees about reservations: the ledger of an image, its soundness,
  the capacity of obligations, the persistence of recorded execution over any number of accepted
  changes, and the conservation of quantities along transfers.
\<close>

section \<open>The ledger\<close>

definition reservation_ledger ::
  "rule \<Rightarrow> (string \<times> format) list \<Rightarrow> images \<Rightarrow> (plan_index \<times> reservation_rows) result" where
  "reservation_ledger r formats images = (case ruReservation r of
     None \<Rightarrow> Inl go_panic
   | Some res \<Rightarrow>
       and_then (planBuckets res formats images) (\<lambda>px.
       and_then (classify r res (format_at formats (ruEntity r) (rvQuantity res)) images px) (\<lambda>rows.
         Inr (px, rows))))"

text \<open>A ledger row carries the identifier of its image row, and its plan item is of its scope.\<close>

definition row_sound :: "plan_index \<Rightarrow> string \<times> reservation_row \<Rightarrow> bool" where
  "row_sound px = (\<lambda>(i, row). rrID row = i
     \<and> (rrPlanItem row \<noteq> [] \<longrightarrow> bkScope (item_bucket px (rrPlanItem row)) = rrScope row))"

lemma classify_row_sound:
  "classify_row r res format images px irow = Inr x \<Longrightarrow> row_sound px x \<and> fst x = fst irow"
  unfolding classify_row_def row_sound_def plan_item_of_def
  by (cases irow) (auto simp: result_simps split: option.split_asm if_split_asm prod.split_asm)

lemma classify_sound:
  assumes "classify r res format images px = Inr rows"
  shows "list_all (row_sound px) rows" "map fst rows = map fst (rows_of images (ruEntity r))"
proof -
  have *: "list_all2 (\<lambda>x y. classify_row r res format images px x = Inr y)
      (rows_of images (ruEntity r)) rows"
    using assms by (simp add: classify_def result_simps)
  then show "list_all (row_sound px) rows"
    by (induction rule: list_all2_induct) (auto dest: classify_row_sound)
  from * show "map fst rows = map fst (rows_of images (ruEntity r))"
    by (induction rule: list_all2_induct) (auto dest: classify_row_sound)
qed

lemma ledger_sound:
  assumes "reservation_ledger r formats images = Inr (px, rows)"
  shows "list_all (row_sound px) rows" "map fst rows = map fst (rows_of images (ruEntity r))"
  using assms classify_sound by (fastforce simp: reservation_ledger_def result_simps split: option.splits)+

section \<open>What acceptance means\<close>

text \<open>The checks of \<open>validateReservation\<close> as one formula over the two ledgers.\<close>

lemma validateReservation_ok:
  assumes "ruReservation r = Some res"
  shows "validateReservation r formats before after = Inr () \<longleftrightarrow>
    (\<exists>px0 rows0 px rows.
       reservation_ledger r formats (image_of before) = Inr (px0, rows0) \<and> reservation_ledger r formats after = Inr (px, rows)
       \<and> list_all (\<lambda>(_, row). rrRole row = Instruction \<longrightarrow> rrInstruction row = []) rows
       \<and> list_all (\<lambda>x. history_step px0 px rows x = Inr ()) rows0
       \<and> list_all (\<lambda>x. reference_step rows x = Inr ()) rows
       \<and> list_all (\<lambda>x. exhausted_step (consumed rows) x = Inr ()) rows
       \<and> list_all (\<lambda>x. released_step (consumed rows0) (consumed rows) x = Inr ()) rows0
       \<and> list_all (\<lambda>x. admission_step r res (image_of before) rows0 rows x = Inr ()) rows
       \<and> check_transfers res (before \<noteq> None) rows0 rows (consumed rows) = Inr ()
       \<and> check_capacity res (format_at formats (ruEntity r) (rvQuantity res)) after px rows
           (consumed rows) = Inr ())"
  using assms
  unfolding validateReservation_def reservation_ledger_def list_all_iff Let_def
  by (auto simp: result_simps split: prod.splits)


section \<open>Capacity\<close>

text \<open>The quantity delivered against an obligation, and the quantity open instructions still
  promise.\<close>

definition delivering :: "reservation_row \<Rightarrow> bool" where
  "delivering row \<longleftrightarrow> confirmed_actual row \<and> rrNormal row \<and> 0 < rrQuantity row"

definition promising :: "reservation_spec \<Rightarrow> reservation_row \<Rightarrow> bool" where
  "promising res row \<longleftrightarrow>
     rrRole row = Instruction \<and> rrState row = Open \<and> rrPurpose row = rvNormalPurpose res"

definition remainder_of :: "reservation_rows \<Rightarrow> reservation_row \<Rightarrow> int" where
  "remainder_of rows row = rrQuantity row - total_of (consumed rows) (rrID row)"

definition delivered :: "reservation_rows \<Rightarrow> string \<Rightarrow> int" where
  "delivered rows ob = sum_where (\<lambda>(_, row). delivering row \<and> rrScope row = ob) (\<lambda>(_, row). rrQuantity row) rows"

definition promised :: "reservation_spec \<Rightarrow> reservation_rows \<Rightarrow> string \<Rightarrow> int" where
  "promised res rows ob =
     sum_where (\<lambda>(_, row). promising res row \<and> rrScope row = ob) (\<lambda>(_, row). remainder_of rows row) rows"

definition usage_ok :: "usage \<Rightarrow> bool" where
  "usage_ok u \<longleftrightarrow> distinct (map fst (usExecuted u)) \<and> distinct (map fst (usOpen u))
     \<and> distinct (map fst (usDirect u)) \<and> distinct (map fst (usDirectOpen u))
     \<and> (\<forall>k. 0 \<le> total_of (usExecuted u) k) \<and> (\<forall>k. 0 \<le> total_of (usOpen u) k)"

definition usage_total :: "usage \<Rightarrow> string \<Rightarrow> int" where
  "usage_total u ob = mass (\<lambda>k. bkScope k = ob) (usExecuted u) + mass (\<lambda>k. bkScope k = ob) (usOpen u)
     + mass (\<lambda>s. s = ob) (usDirect u) + mass (\<lambda>s. s = ob) (usDirectOpen u)"

lemma role_cases [simp]:
  "role \<noteq> Actual \<longleftrightarrow> role = Instruction" "role \<noteq> Instruction \<longleftrightarrow> role = Actual"
  by (cases role; simp)+

lemma usage_step_ok:
  assumes "usage_step res px rows0 (consumed rows) u (i, row) = Inr u'" "usage_ok u"
    and "\<And>k. bucket_of px rows0 row = Some k \<Longrightarrow> bkScope k = rrScope row"
  shows "usage_ok u'"
    and "usage_total u' ob = usage_total u ob
      + (if delivering row \<and> rrScope row = ob then rrQuantity row else 0)
      + (if promising res row \<and> rrScope row = ob then remainder_of rows row else 0)"
  using assms unfolding usage_step_def
  by (auto simp: usage_ok_def usage_total_def delivering_def promising_def confirmed_actual_def
      remainder_of_def Let_def mass_add add_total_distinct split: if_split_asm option.split_asm)


lemma usage_fold_ok:
  assumes "fold_result (usage_step res px rows0 (consumed rows)) u xs = Inr u'" "usage_ok u"
    and "\<And>i row k. (i, row) \<in> set xs \<Longrightarrow> bucket_of px rows0 row = Some k \<Longrightarrow> bkScope k = rrScope row"
  shows "usage_ok u' \<and> usage_total u' ob = usage_total u ob
      + sum_where (\<lambda>(_, row). delivering row \<and> rrScope row = ob) (\<lambda>(_, row). rrQuantity row) xs
      + sum_where (\<lambda>(_, row). promising res row \<and> rrScope row = ob) (\<lambda>(_, row). remainder_of rows row) xs"
  using assms
proof (induction xs arbitrary: u)
  case (Cons x xs)
  obtain i row where x: "x = (i, row)" by force
  obtain u1 where u1: "usage_step res px rows0 (consumed rows) u (i, row) = Inr u1"
      "fold_result (usage_step res px rows0 (consumed rows)) u1 xs = Inr u'"
    using Cons.prems(1) by (auto simp: x result_simps)
  have scope: "\<And>k. bucket_of px rows0 row = Some k \<Longrightarrow> bkScope k = rrScope row"
    using Cons.prems(3) x by auto
  note step = usage_step_ok [OF u1(1) Cons.prems(2) scope]
  have "\<And>i row k. (i, row) \<in> set xs \<Longrightarrow> bucket_of px rows0 row = Some k \<Longrightarrow> bkScope k = rrScope row"
    using Cons.prems(3) by (meson list.set_intros(2))
  from Cons.IH [OF u1(2) step(1) this] step(2) [of ob] show ?case by (simp add: x)
qed simp

text \<open>Occupying the planned buckets and then the others covers everything that is used.\<close>

lemma total_occupy_all: "total_of (occupy_all m amounts) ob = total_of m ob + mass (\<lambda>s. s = ob) amounts"
  by (induction amounts arbitrary: m) (auto simp: occupy_all_def)

lemma plan_fold_ok:
  assumes "fold_result (plan_step u) m xs = Inr m'"
  shows "list_all (\<lambda>(k, planned). used_of u k \<le> planned) xs
    \<and> total_of m' ob = total_of m ob + mass (\<lambda>k. bkScope k = ob) xs"
  using assms
  by (induction xs arbitrary: m) (auto simp: plan_step_def result_simps)

lemma unplanned_fold_ok:
  assumes "fold_result (unplanned_step px u) m ks = Inr m'" "distinct ks"
  shows "total_of m' ob = total_of m ob
    + (\<Sum>k | k \<in> set ks \<and> map_of (pxCurrent px) k = None \<and> bkScope k = ob. used_of u k)"
  using assms
proof (induction ks arbitrary: m)
  case (Cons k ks)
  let ?S = "\<lambda>ks. {j. j \<in> set ks \<and> map_of (pxCurrent px) j = None \<and> bkScope j = ob}"
  obtain m1 where m1: "unplanned_step px u m k = Inr m1"
      "fold_result (unplanned_step px u) m1 ks = Inr m'"
    using Cons.prems(1) by (auto simp: result_simps)
  have "total_of m1 ob = total_of m ob
      + (if map_of (pxCurrent px) k = None \<and> bkScope k = ob then used_of u k else 0)"
    using m1(1) by (auto simp: unplanned_step_def result_simps split: if_split_asm)
  moreover have "?S (k # ks) = (if map_of (pxCurrent px) k = None \<and> bkScope k = ob
      then insert k (?S ks) else ?S ks)" by auto
  moreover have "k \<notin> ?S ks" using Cons.prems(2) by simp
  ultimately show ?case using Cons.IH [OF m1(2)] Cons.prems(2) by simp
qed simp

lemma occupied_covers:
  assumes "usage_ok u" "distinct (map fst (pxCurrent px))"
    and plan: "fold_result (plan_step u) [] (pxCurrent px) = Inr m"
    and rest: "fold_result (unplanned_step px u) m
      (remdups (map fst (usExecuted u) @ map fst (usOpen u))) = Inr m'"
  shows "usage_total u ob \<le> total_of (occupy_all (occupy_all m' (usDirect u)) (usDirectOpen u)) ob"
proof -
  let ?P = "\<lambda>k. bkScope k = ob" and ?cur = "fst ` set (pxCurrent px)"
  let ?K = "set (map fst (usExecuted u) @ map fst (usOpen u))"
  let ?A = "{k. k \<in> ?K \<and> ?P k \<and> k \<in> ?cur}" and ?B = "{k. k \<in> ?K \<and> k \<notin> ?cur \<and> ?P k}"
  have used: "0 \<le> used_of u k" for k using assms(1) by (simp add: usage_ok_def used_of_def)
  have planned: "used_of u k \<le> total_of (pxCurrent px) k" if k: "k \<in> ?cur" for k
    using plan_fold_ok [OF plan] k total_of_entry [OF assms(2)] by (fastforce simp: list_all_iff)
  have split: "{k. k \<in> ?K \<and> ?P k} = ?A \<union> ?B" "?A \<inter> ?B = {}" by auto
  have "mass ?P (usExecuted u) + mass ?P (usOpen u) = (\<Sum>k | k \<in> ?K \<and> ?P k. used_of u k)"
    using assms(1) unfolding usage_ok_def used_of_def sum.distrib
    by (simp add: mass_sum [where K = ?K])
  also have "\<dots> = sum (used_of u) ?A + sum (used_of u) ?B"
    unfolding split(1) by (rule sum.union_disjoint) (use split(2) in auto)
  also have "sum (used_of u) ?A \<le> (\<Sum>k | k \<in> ?cur \<and> ?P k. total_of (pxCurrent px) k)"
    by (rule order_trans [OF sum_mono sum_mono2]) (use planned used in \<open>auto intro: order_trans\<close>)
  also have "\<dots> = mass ?P (pxCurrent px)"
    using assms(2) by (simp add: mass_sum [where K = ?cur])
  finally have "mass ?P (usExecuted u) + mass ?P (usOpen u) \<le> total_of m' ob"
    using plan_fold_ok [OF plan, of ob] unplanned_fold_ok [OF rest, of ob] by (simp add: map_of_eq_None_iff conj_left_commute)
  then show ?thesis by (simp add: usage_total_def total_occupy_all)
qed


lemma bucket_step_distinct:
  "bucket_step res plans format images px x = Inr px' \<Longrightarrow> distinct (map fst (pxCurrent px)) \<Longrightarrow>
     distinct (map fst (pxCurrent px'))"
  by (cases x) (auto simp: bucket_step_def result_simps Let_def add_total_distinct split: if_split_asm)

lemma planBuckets_distinct: "planBuckets res formats images = Inr px \<Longrightarrow> distinct (map fst (pxCurrent px))"
proof -
  have fold: "fold_result (bucket_step res plans format images) px xs = Inr px' \<Longrightarrow>
      distinct (map fst (pxCurrent px)) \<Longrightarrow> distinct (map fst (pxCurrent px'))" for plans format px px' xs
    by (induction xs arbitrary: px) (auto simp: result_simps dest: bucket_step_distinct)
  show "planBuckets res formats images = Inr px \<Longrightarrow> ?thesis"
    by (auto simp: planBuckets_def dest: fold split: option.split_asm)
qed

text \<open>A row occupies a bucket of its own scope.\<close>

lemma bucket_scope:
  assumes "list_all (row_sound px) rows" "list_all (\<lambda>x. reference_step rows x = Inr ()) rows"
    and "list_all (\<lambda>(_, row). rrRole row = Instruction \<longrightarrow> rrInstruction row = []) rows"
    and "(i, row) \<in> set rows" "bucket_of px rows row = Some k"
  shows "bkScope k = rrScope row"
proof -
  have sound: "row_sound px (i, row)" and ref: "reference_step rows (i, row) = Inr ()"
    and inst: "rrRole row = Instruction \<longrightarrow> rrInstruction row = []"
    using assms(1-4) by (auto simp: list_all_iff)
  have item: "(if rrPlanItem row = [] \<and> rrInstruction row \<noteq> []
      then case map_of rows (rrInstruction row) of None \<Rightarrow> [] | Some source \<Rightarrow> rrPlanItem source
      else rrPlanItem row) = rrPlanItem row"
    using ref inst by (auto simp: reference_step_def result_simps split: if_split_asm)
  with assms(5) have "rrPlanItem row \<noteq> []" "map_of (pxItems px) (rrPlanItem row) = Some k"
    by (auto simp: bucket_of_def Let_def split: if_split_asm)
  with sound show ?thesis by (simp add: row_sound_def item_bucket_def)
qed

lemma capacity_ok:
  assumes "validateReservation r formats before after = Inr ()" "ruReservation r = Some res"
  shows "\<exists>px rows. reservation_ledger r formats after = Inr (px, rows)
    \<and> (\<forall>(ob, row) \<in> set (rows_of after (rvObligationEntity res)). \<exists>limit.
         Parse (format_at formats (ruEntity r) (rvQuantity res)) (cell row (rvObligationQuantity res)) = Inr limit
         \<and> delivered rows ob + promised res rows ob \<le> limit)"
proof -
  obtain px rows where led: "reservation_ledger r formats after = Inr (px, rows)"
    and inst: "list_all (\<lambda>(_, row). rrRole row = Instruction \<longrightarrow> rrInstruction row = []) rows"
    and ref: "list_all (\<lambda>x. reference_step rows x = Inr ()) rows"
    and cap: "check_capacity res (format_at formats (ruEntity r) (rvQuantity res)) after px rows
      (consumed rows) = Inr ()"
    using assms(1) unfolding validateReservation_ok [OF assms(2)] by blast
  let ?u0 = "\<lparr>usExecuted = [], usOpen = [], usDirect = [], usDirectOpen = []\<rparr>"
  obtain u m m' where u: "fold_result (usage_step res px rows (consumed rows)) ?u0 rows = Inr u"
    and plan: "fold_result (plan_step u) [] (pxCurrent px) = Inr m"
    and rest: "fold_result (unplanned_step px u) m
      (remdups (map fst (usExecuted u) @ map fst (usOpen u))) = Inr m'"
    and limits: "\<forall>(ob, row) \<in> set (rows_of after (rvObligationEntity res)). \<exists>limit.
         Parse (format_at formats (ruEntity r) (rvQuantity res)) (cell row (rvObligationQuantity res)) = Inr limit
         \<and> total_of (occupy_all (occupy_all m' (usDirect u)) (usDirectOpen u)) ob \<le> limit"
    using cap by (fastforce simp: check_capacity_def result_simps Let_def)
  have "planBuckets res formats after = Inr px"
    using led assms(2) by (auto simp: reservation_ledger_def result_simps)
  then have distinct: "distinct (map fst (pxCurrent px))" by (rule planBuckets_distinct)
  note scope = bucket_scope [OF ledger_sound(1) [OF led] ref inst]
  have usage: "usage_ok u \<and> usage_total u ob = delivered rows ob + promised res rows ob" for ob
    using usage_fold_ok [OF u _ scope, where ob = ob]
    by (simp add: usage_ok_def usage_total_def delivered_def promised_def)
  have "delivered rows ob + promised res rows ob
      \<le> total_of (occupy_all (occupy_all m' (usDirect u)) (usDirectOpen u)) ob" for ob
    using occupied_covers [OF _ distinct plan rest, of ob] usage [of ob] by simp
  with limits led show ?thesis by (fastforce intro: order_trans)
qed

text \<open>The checks of a registration, rule by rule.\<close>

lemma Registration_Validate_ok:
  "Registration_Validate marshal reg before after = Inr () \<longleftrightarrow>
     check_decimals (rgDeclaration reg) after = Inr ()
     \<and> list_all (\<lambda>r. validate_rule marshal (formats_of (rgDeclaration reg)) before after r = Inr ())
         (elems (dlRules (rgDeclaration reg)))"
  by (auto simp: Registration_Validate_def result_simps list_all_iff)

text \<open>
  C31. After every accepted change, what has been delivered against an obligation and what open
  instructions still promise of it is at most the quantity of the obligation.
\<close>

theorem reservation_capacity:
  assumes "Registration_Validate marshal reg before after = Inr ()"
    and "r \<in> set (elems (dlRules (rgDeclaration reg)))"
    and "ruKind r = ''reservationBalance''" "ruReservation r = Some res"
  shows "\<exists>px rows. reservation_ledger r (formats_of (rgDeclaration reg)) after = Inr (px, rows)
    \<and> (\<forall>(ob, row) \<in> set (rows_of after (rvObligationEntity res)). \<exists>limit.
         Parse (format_at (formats_of (rgDeclaration reg)) (ruEntity r) (rvQuantity res))
           (cell row (rvObligationQuantity res)) = Inr limit
         \<and> delivered rows ob + promised res rows ob \<le> limit)"
  by (rule capacity_ok) (use validated_rule [OF assms(1,2)] assms(3,4) in \<open>simp_all add: validate_rule_def\<close>)


section \<open>History\<close>

definition reservation_rule :: "registration \<Rightarrow> rule \<Rightarrow> bool" where
  "reservation_rule reg r \<longleftrightarrow> r \<in> set (elems (dlRules (rgDeclaration reg)))
     \<and> ruKind r = ''reservationBalance'' \<and> ruReservation r \<noteq> None"

text \<open>What a later ledger keeps of an instruction that is no draft, and of a confirmed delivery
  against an instruction.\<close>

definition instruction_persists ::
  "reservation_rows \<Rightarrow> reservation_rows \<Rightarrow> string \<Rightarrow> reservation_row \<Rightarrow> bool" where
  "instruction_persists rows0 rows i old \<longleftrightarrow> (\<exists>new. map_of rows i = Some new \<and> live_instruction new
     \<and> rrQuantity new = rrQuantity old \<and> rrScope new = rrScope old \<and> rrPlanItem new = rrPlanItem old
     \<and> rrPurpose new = rrPurpose old \<and> rrTransferred new = rrTransferred old
     \<and> (rrState old \<in> {Closed, Transferred} \<longrightarrow> rrState new = rrState old)
     \<and> total_of (consumed rows0) i \<le> total_of (consumed rows) i)"

definition delivery_persists :: "reservation_rows \<Rightarrow> string \<Rightarrow> reservation_row \<Rightarrow> bool" where
  "delivery_persists rows i old \<longleftrightarrow> (\<exists>new. map_of rows i = Some new \<and> consuming new
     \<and> rrPurpose new = rrPurpose old \<and> rrScope new = rrScope old \<and> rrPlanItem new = rrPlanItem old
     \<and> rrInstruction new = rrInstruction old \<and> rrQuantity old \<le> rrQuantity new)"

definition execution_kept :: "reservation_rows \<Rightarrow> reservation_rows \<Rightarrow> bool" where
  "execution_kept rows0 rows \<longleftrightarrow> (\<forall>i old. map_of rows0 i = Some old \<longrightarrow>
     (live_instruction old \<longrightarrow> instruction_persists rows0 rows i old)
     \<and> (consuming old \<longrightarrow> delivery_persists rows i old))"

lemma execution_kept_trans: "execution_kept u v \<Longrightarrow> execution_kept v w \<Longrightarrow> execution_kept u w"
  unfolding execution_kept_def instruction_persists_def delivery_persists_def
  by (smt (verit) order_trans)

lemma history_keeps:
  assumes "list_all (\<lambda>x. history_step px0 px rows x = Inr ()) rows0"
    and "list_all (\<lambda>x. released_step (consumed rows0) (consumed rows) x = Inr ()) rows0"
  shows "execution_kept rows0 rows"
proof -
  have "(live_instruction old \<longrightarrow> instruction_persists rows0 rows i old)
      \<and> (consuming old \<longrightarrow> delivery_persists rows i old)" if "map_of rows0 i = Some old" for i old
  proof -
    have h: "history_step px0 px rows (i, old) = Inr ()"
      and r: "released_step (consumed rows0) (consumed rows) (i, old) = Inr ()"
      using assms map_of_SomeD [OF that] by (auto simp: list_all_iff)
    show ?thesis
    proof (cases "map_of rows i")
      case None
      then show ?thesis
        using h by (auto simp: history_step_def result_simps consuming_def)
    next
      case (Some new)
      then show ?thesis
        using h r
        by (auto simp: history_step_def released_step_def result_simps instruction_persists_def
            delivery_persists_def live_instruction_def consuming_def confirmed_actual_def
            instruction_kept_def consumption_kept_def split: if_split_asm)
    qed
  qed
  then show ?thesis by (simp add: execution_kept_def)
qed

lemma accepted_ledgers:
  assumes "accepted marshal reg before after" "reservation_rule reg r"
  shows "\<exists>px0 rows0 px rows. reservation_ledger r (formats_of (rgDeclaration reg)) before = Inr (px0, rows0)
    \<and> reservation_ledger r (formats_of (rgDeclaration reg)) after = Inr (px, rows) \<and> execution_kept rows0 rows"
proof -
  obtain res where res: "ruReservation r = Some res"
    using assms(2) by (auto simp: reservation_rule_def)
  have "validateReservation r (formats_of (rgDeclaration reg)) (Some before) after = Inr ()"
    using validated_rule [of marshal reg "Some before" after r] assms
    by (simp add: accepted_def reservation_rule_def validate_rule_def)
  then show ?thesis
    unfolding validateReservation_ok [OF res] by (fastforce simp: image_of_def intro: history_keeps)
qed

definition ledger_rows :: "registration \<Rightarrow> rule \<Rightarrow> images \<Rightarrow> reservation_rows \<Rightarrow> bool" where
  "ledger_rows reg r images rows \<longleftrightarrow> (\<exists>px. reservation_ledger r (formats_of (rgDeclaration reg)) images = Inr (px, rows))"

interpretation execution: persistent
  "\<lambda>before after. accepted marshal reg before after \<and> reservation_rule reg r"
  "ledger_rows reg r" execution_kept for marshal reg r
proof unfold_locales
  show "\<exists>v. ledger_rows reg r s v" if "accepted marshal reg s t \<and> reservation_rule reg r" for s t
    using accepted_ledgers [of marshal reg s t r] that by (auto simp: ledger_rows_def)
  show "execution_kept v w"
    if "accepted marshal reg s t \<and> reservation_rule reg r" "ledger_rows reg r s v" "ledger_rows reg r t w"
    for s t v w
    using accepted_ledgers [of marshal reg s t r] that by (auto simp: ledger_rows_def)
  show "execution_kept u w" if "execution_kept u v" "execution_kept v w" for u v w
    using that by (rule execution_kept_trans)
qed

text \<open>
  C32. Recorded execution is never undone: over any number of accepted changes, an instruction
  that was issued keeps its row, quantity, scope, plan item, purpose and origin, a closed or
  transferred one stays so, and what is consumed of it does not decrease; a confirmed delivery
  against an instruction stays confirmed, with the same references and at least the same quantity.
\<close>

theorem execution_never_undone:
  assumes "(accepted marshal reg)\<^sup>+\<^sup>+ before after" "reservation_rule reg r"
    and "ledger_rows reg r before rows0" "ledger_rows reg r after rows" "map_of rows0 i = Some old"
  shows "(live_instruction old \<longrightarrow> instruction_persists rows0 rows i old)
    \<and> (consuming old \<longrightarrow> delivery_persists rows i old)"
  using execution.steps_kept [OF tranclp_with [OF assms(1,2)] assms(3,4)] assms(5)
  by (simp add: execution_kept_def)


section \<open>Transfers\<close>

text \<open>The row a carrier was transferred from; a chain of transfers from \<open>i\<close> to \<open>j\<close>, with what its
  rows before \<open>j\<close> have consumed.\<close>

definition origin :: "reservation_rows \<Rightarrow> string \<Rightarrow> string \<Rightarrow> bool" where
  "origin rows k j \<longleftrightarrow> (\<exists>row. map_of rows k = Some row \<and> rrTransferred row = j \<and> j \<noteq> [])"

inductive carried :: "reservation_rows \<Rightarrow> string \<Rightarrow> string \<Rightarrow> int \<Rightarrow> bool" for rows where
  carried_refl: "carried rows i i 0"
| carried_step: "carried rows i j n \<Longrightarrow> origin rows k j \<Longrightarrow> carried rows i k (n + total_of (consumed rows) j)"

lemma origin_unique: "origin rows k i \<Longrightarrow> origin rows k j \<Longrightarrow> i = j"
  by (auto simp: origin_def)

text \<open>A cycle through a row never leaves it.\<close>

lemma cycle_continues:
  assumes "(origin rows)\<^sup>*\<^sup>* c e" "(origin rows)\<^sup>+\<^sup>+ c c"
  shows "(origin rows)\<^sup>+\<^sup>+ e e"
  using assms
proof (induction rule: rtranclp_induct)
  case (step e f)
  from step.IH [OF step.prems] obtain g where g: "origin rows e g" "(origin rows)\<^sup>*\<^sup>* g e"
    by (blast dest: tranclpD)
  then have "(origin rows)\<^sup>*\<^sup>* f e" using origin_unique step.hyps(2) by blast
  then show ?case using step.hyps(2) by (rule rtranclp_into_tranclp1)
qed simp

lemma chain_ends:
  "chain_step rows visited c = Inr () \<Longrightarrow> \<exists>e. (origin rows)\<^sup>*\<^sup>* c e \<and> (\<nexists>y. origin rows e y)"
proof (induction rows visited c rule: chain_step.induct)
  case (1 rows visited c)
  show ?case
  proof (cases "\<exists>row. map_of rows c = Some row \<and> rrTransferred row \<noteq> []")
    case False
    then have "\<nexists>y. origin rows c y" by (auto simp: origin_def)
    then show ?thesis by blast
  next
    case True
    then obtain row where row: "map_of rows c = Some row" "rrTransferred row \<noteq> []" by blast
    then have next_step: "c \<notin> set visited" "chain_step rows (c # visited) (rrTransferred row) = Inr ()"
      using "1.prems" by (auto simp: chain_step.simps [of rows visited c] split: if_split_asm)
    from "1.IH" [OF row next_step] obtain e
      where e: "(origin rows)\<^sup>*\<^sup>* (rrTransferred row) e" "\<nexists>y. origin rows e y" by blast
    have "origin rows c (rrTransferred row)" using row by (simp add: origin_def)
    with e show ?thesis by (meson converse_rtranclp_into_rtranclp)
  qed
qed

lemma chain_acyclic: "chain_step rows [] c = Inr () \<Longrightarrow> \<not> (origin rows)\<^sup>+\<^sup>+ c c"
  using chain_ends [of rows "[]" c] cycle_continues [of rows c] by (meson tranclpD)

lemma transfers_ok:
  assumes "check_transfers res hasBefore rows0 rows (consumed rows) = Inr ()" "rvTransferredFrom res \<noteq> []"
    and "origin rows k j"
  shows "\<not> (origin rows)\<^sup>+\<^sup>+ k k"
    and "origin rows l j \<Longrightarrow> l = k"
    and "\<exists>row source. map_of rows k = Some row \<and> map_of rows j = Some source
      \<and> live_instruction row \<and> rrRole source = Instruction \<and> rrState source = Transferred
      \<and> rrPurpose row = rrPurpose source \<and> rrScope row = rrScope source \<and> rrPlanItem row = rrPlanItem source
      \<and> rrQuantity source = total_of (consumed rows) j + rrQuantity row \<and> 0 < rrQuantity row"
proof -
  obtain row where row: "map_of rows k = Some row" "rrTransferred row = j" "j \<noteq> []"
    using assms(3) by (auto simp: origin_def)
  have mem: "(k, row) \<in> set rows" by (rule map_of_SomeD [OF row(1)])
  have checks: "carrier_step rows (k, row) = Inr ()" "chain_step rows [] k = Inr ()"
    using assms(1,2) mem by (fastforce simp: check_transfers_def result_simps)+
  show "\<not> (origin rows)\<^sup>+\<^sup>+ k k" by (rule chain_acyclic [OF checks(2)])
  obtain source where source: "map_of rows j = Some source" "rrRole source = Instruction"
      "rrState source = Transferred" "live_instruction row" "rrPurpose row = rrPurpose source"
      "rrScope row = rrScope source" "rrPlanItem row = rrPlanItem source"
    using checks(1) row by (auto simp: carrier_step_def result_simps)
  have settled: "settled_step hasBefore rows0 rows (consumed rows) (j, source) = Inr ()"
    using assms(1,2) map_of_SomeD [OF source(1)] by (fastforce simp: check_transfers_def result_simps)
  have carriers: "l \<in> set (carriers rows j)" if "origin rows l j" for l
    using that by (force simp: origin_def carriers_def dest: map_of_SomeD)
  obtain k' target where one: "carriers rows j = [k']" "map_of rows k' = Some target"
      "rrQuantity target = rrQuantity source - total_of (consumed rows) j"
      "0 < rrQuantity source - total_of (consumed rows) j"
    using settled carriers [OF assms(3)] source(2,3)
    by (auto simp: settled_step_def Let_def result_simps split: if_split_asm list.split_asm)
  then have "k' = k" using carriers [OF assms(3)] by simp
  then show "origin rows l j \<Longrightarrow> l = k" using one(1) carriers [of l] by simp
  show "\<exists>row source. map_of rows k = Some row \<and> map_of rows j = Some source
      \<and> live_instruction row \<and> rrRole source = Instruction \<and> rrState source = Transferred
      \<and> rrPurpose row = rrPurpose source \<and> rrScope row = rrScope source \<and> rrPlanItem row = rrPlanItem source
      \<and> rrQuantity source = total_of (consumed rows) j + rrQuantity row \<and> 0 < rrQuantity row"
    using row source one \<open>k' = k\<close> by auto
qed

lemma carried_conserves:
  assumes "check_transfers res hasBefore rows0 rows (consumed rows) = Inr ()" "rvTransferredFrom res \<noteq> []"
    and "carried rows i j n" "map_of rows i = Some a" "map_of rows j = Some b"
  shows "rrQuantity a = n + rrQuantity b \<and> rrPurpose a = rrPurpose b \<and> rrScope a = rrScope b
    \<and> rrPlanItem a = rrPlanItem b"
  using assms(3-)
proof (induction arbitrary: b rule: carried.induct)
  case (carried_step i j n k)
  from transfers_ok(3) [OF assms(1,2) carried_step.hyps(2)] carried_step.IH carried_step.prems
  show ?case by fastforce
qed simp

lemma accepted_transfers:
  assumes "Registration_Validate marshal reg before after = Inr ()" "reservation_rule reg r"
    and "ruReservation r = Some res" "ledger_rows reg r after rows"
  shows "\<exists>rows0. check_transfers res (before \<noteq> None) rows0 rows (consumed rows) = Inr ()"
  using validated_rule [OF assms(1), of r] assms(2-)
  by (fastforce simp: reservation_rule_def validate_rule_def validateReservation_ok ledger_rows_def)

text \<open>
  C33. Transfers conserve quantities: a transferred instruction has at most one successor, a
  chain of transfers never returns to a row, and along a chain the quantity first instructed is
  what its rows have consumed plus the quantity its last row carries, for the same purpose, scope and
  plan item.
\<close>

theorem transfers_conserve:
  assumes "Registration_Validate marshal reg before after = Inr ()" "reservation_rule reg r"
    and "ruReservation r = Some res" "rvTransferredFrom res \<noteq> []" "ledger_rows reg r after rows"
  shows "(carried rows i j n \<longrightarrow> map_of rows i = Some a \<longrightarrow> map_of rows j = Some b \<longrightarrow>
      rrQuantity a = n + rrQuantity b \<and> rrPurpose a = rrPurpose b \<and> rrScope a = rrScope b
      \<and> rrPlanItem a = rrPlanItem b)
    \<and> (origin rows k j \<longrightarrow> origin rows l j \<longrightarrow> k = l) \<and> \<not> (origin rows)\<^sup>+\<^sup>+ k k"
proof -
  obtain rows0 where t: "check_transfers res (before \<noteq> None) rows0 rows (consumed rows) = Inr ()"
    using accepted_transfers [OF assms(1-3,5)] by blast
  have "\<not> (origin rows)\<^sup>+\<^sup>+ k k"
    using transfers_ok(1) [OF t assms(4)] by (meson tranclpD)
  then show ?thesis
    using carried_conserves [OF t assms(4)] transfers_ok(2) [OF t assms(4)] by blast
qed


section \<open>Witnesses\<close>

definition sample_ledger :: "images \<Rightarrow> reservation_rows" where
  "sample_ledger images = snd (projr (reservation_ledger sample_rule (formats_of sample_declaration) images))"

lemma sample_rule_reservation [simp]: "reservation_rule sample_registration sample_rule"
  by (simp add: reservation_rule_def)

lemma sample_rows:
  "ledger_rows sample_registration sample_rule partly_delivered (sample_ledger partly_delivered)"
  "ledger_rows sample_registration sample_rule rest_transferred (sample_ledger rest_transferred)"
  unfolding ledger_rows_def sample_registration_def by (rule exI, code_simp)+

theorem reservation_capacity_witness:
  "\<exists>px rows. reservation_ledger sample_rule (formats_of sample_declaration) rest_transferred = Inr (px, rows)
     \<and> delivered rows ''o1'' + promised sample_reservation rows ''o1'' \<le> 10"
proof -
  have o1: "(''o1'', text_row [(''quantity'', ''10'')])
      \<in> set (rows_of rest_transferred (rvObligationEntity sample_reservation))" by code_simp
  have ten: "Parse (format_at (formats_of (rgDeclaration sample_registration)) (ruEntity sample_rule)
      (rvQuantity sample_reservation))
      (cell (text_row [(''quantity'', ''10'')]) (rvObligationQuantity sample_reservation)) = Inr 10"
    by code_simp
  show ?thesis
    using reservation_capacity [OF sample_transfer sample_rule_listed] o1 ten
    by (fastforce simp: sample_registration_def)
qed

theorem execution_never_undone_witness:
  "\<exists>old. map_of (sample_ledger partly_delivered) ''h'' = Some old
     \<and> instruction_persists (sample_ledger partly_delivered) (sample_ledger rest_transferred) ''h'' old"
proof -
  have run: "(accepted sample_marshal sample_registration)\<^sup>+\<^sup>+ partly_delivered rest_transferred"
    using sample_transfer by (auto simp: accepted_def)
  let ?old = "the (map_of (sample_ledger partly_delivered) ''h'')"
  have "map_of (sample_ledger partly_delivered) ''h'' = Some ?old" "live_instruction ?old" by code_simp+
  then show ?thesis
    using execution_never_undone [OF run sample_rule_reservation sample_rows] by blast
qed

theorem transfers_conserve_witness:
  "\<exists>a b. map_of (sample_ledger rest_transferred) ''h'' = Some a \<and> map_of (sample_ledger rest_transferred) ''t'' = Some b
     \<and> rrQuantity a = 8 + rrQuantity b"
proof -
  let ?rows = "sample_ledger rest_transferred"
  let ?a = "the (map_of ?rows ''h'')" and ?b = "the (map_of ?rows ''t'')"
  have a: "map_of ?rows ''h'' = Some ?a" and b: "map_of ?rows ''t'' = Some ?b"
    and h: "rrTransferred ?b = ''h''" and eight: "total_of (consumed ?rows) ''h'' = 8" by code_simp+
  have "origin ?rows ''t'' ''h''" unfolding origin_def using b h by blast
  then have "carried ?rows ''h'' ''t'' (0 + total_of (consumed ?rows) ''h'')"
    by (intro carried.intros)
  moreover have "rvTransferredFrom sample_reservation \<noteq> []" by (simp add: sample_reservation_def)
  ultimately show ?thesis
    using transfers_conserve [OF sample_transfer sample_rule_reservation sample_rule_listed(3) _ sample_rows(2)]
      a b eight by fastforce
qed

end
