(* ===== verification/Rule_Frames.thy ===== *)
theory Rule_Frames
  imports Reservation_Properties
begin

text \<open>
  Acceptance depends only on the contents of the images that a rule reads: neither on the order in
  which Go ranges over its maps nor on other entities and fields. \<open>same_on P\<close> relates two images that hold
  the same rows, as maps, on the entities and fields of the dependencies \<open>P\<close>; every check accepts
  one exactly when it accepts the other.
\<close>

section \<open>The same map\<close>

definition same_map :: "('k \<times> 'v) list \<Rightarrow> ('k \<times> 'v) list \<Rightarrow> bool" where
  "same_map xs ys \<longleftrightarrow> distinct (map fst xs) \<and> distinct (map fst ys) \<and> map_of xs = map_of ys"

lemma same_map_sym: "same_map xs ys \<Longrightarrow> same_map ys xs"
  by (simp add: same_map_def)

lemma same_map_of: "same_map xs ys \<Longrightarrow> map_of xs = map_of ys"
  by (simp add: same_map_def)

lemma same_map_set: "same_map xs ys \<Longrightarrow> set xs = set ys"
  unfolding same_map_def by (metis map_of_eq_Some_iff prod.exhaust subsetI subset_antisym)

lemma same_map_mset: "same_map xs ys \<Longrightarrow> mset xs = mset ys"
  using same_map_set [of xs ys]
  by (simp add: same_map_def set_eq_iff_mset_eq_distinct [symmetric] distinct_map)

lemma same_map_keys: "same_map xs ys \<Longrightarrow> fst ` set xs = fst ` set ys"
  by (simp add: same_map_set)

lemma same_map_sum: "same_map xs ys \<Longrightarrow> sum_where P q xs = sum_where P q ys"
  by (rule sum_where_mset [OF same_map_mset])

lemma same_map_all: "same_map xs ys \<Longrightarrow> list_all P xs \<longleftrightarrow> list_all P ys"
  by (simp add: list_all_iff same_map_set)

lemma same_map_check: "same_map xs ys \<Longrightarrow> check_all f xs = Inr () \<longleftrightarrow> check_all f ys = Inr ()"
  by (simp add: check_all_ok same_map_set)

lemma same_totals: "same_map xs ys \<Longrightarrow> total_of xs k = total_of ys k"
  by (simp add: total_of_def same_map_of)

section \<open>The same rows\<close>

definition same_row :: "(string \<times> string) set \<Rightarrow> string \<Rightarrow> row \<Rightarrow> row \<Rightarrow> bool" where
  "same_row P e row row' \<longleftrightarrow> (\<forall>f. (e, f) \<in> P \<longrightarrow> map_of row f = map_of row' f)"

definition same_rows :: "(string \<times> string) set \<Rightarrow> string \<Rightarrow> rows \<Rightarrow> rows \<Rightarrow> bool" where
  "same_rows P e rows rows' \<longleftrightarrow> distinct (map fst rows) \<and> distinct (map fst rows')
     \<and> (\<forall>i. rel_option (same_row P e) (map_of rows i) (map_of rows' i))"

definition same_on :: "(string \<times> string) set \<Rightarrow> images \<Rightarrow> images \<Rightarrow> bool" where
  "same_on P im im' \<longleftrightarrow> (\<forall>e \<in> fst ` P. same_rows P e (rows_of im e) (rows_of im' e))"

lemma same_row_sym: "same_row P e row row' \<Longrightarrow> same_row P e row' row"
  by (simp add: same_row_def)

lemma same_rows_sym: "same_rows P e rows rows' \<Longrightarrow> same_rows P e rows' rows"
  unfolding same_rows_def by (metis option.rel_sel same_row_sym)

lemma same_on_sym: "same_on P im im' \<Longrightarrow> same_on P im' im"
  unfolding same_on_def by (blast intro: same_rows_sym)

lemma same_cell: "same_row P e row row' \<Longrightarrow> (e, f) \<in> P \<Longrightarrow> cell row f = cell row' f"
  by (simp add: same_row_def cell_def)

lemma same_lookup: "same_row P e row row' \<Longrightarrow> (e, f) \<in> P \<Longrightarrow> map_of row f = map_of row' f"
  by (simp add: same_row_def)

lemma same_row_at:
  "same_on P im im' \<Longrightarrow> e \<in> fst ` P \<Longrightarrow> rel_option (same_row P e) (row_at im e i) (row_at im' e i)"
  unfolding same_on_def same_rows_def row_at_def by blast

lemma same_row_at_None:
  "same_on P im im' \<Longrightarrow> e \<in> fst ` P \<Longrightarrow> row_at im e i = None \<longleftrightarrow> row_at im' e i = None"
  using same_row_at [of P im im' e i] by (metis option.rel_distinct option.rel_cases option.distinct(1))

text \<open>A check of every row accepts both or neither.\<close>

lemma same_rows_entry:
  assumes "same_rows P e rows rows'" "(i, row) \<in> set rows"
  obtains row' where "(i, row') \<in> set rows'" "same_row P e row row'"
proof -
  have "map_of rows i = Some row" using assms by (simp add: same_rows_def)
  with assms(1) have "rel_option (same_row P e) (Some row) (map_of rows' i)"
    unfolding same_rows_def by metis
  then show thesis using that by (auto simp: option_rel_Some1 dest: map_of_SomeD)
qed

lemma check_all_same:
  assumes "same_rows P e rows rows'"
    and "\<And>i row row'. (i, row) \<in> set rows \<Longrightarrow> (i, row') \<in> set rows' \<Longrightarrow> same_row P e row row' \<Longrightarrow>
      f (i, row) = Inr () \<longleftrightarrow> g (i, row') = Inr ()"
  shows "check_all f rows = Inr () \<longleftrightarrow> check_all g rows' = Inr ()"
proof -
  have "g (i, row') = Inr ()" if all: "\<forall>x \<in> set rows. f x = Inr ()" and mem: "(i, row') \<in> set rows'" for i row'
    using same_rows_entry [OF same_rows_sym [OF assms(1)] mem] assms(2) [of i _ row'] all mem same_row_sym by metis
  moreover have "f (i, row) = Inr ()" if all: "\<forall>x \<in> set rows'. g x = Inr ()" and mem: "(i, row) \<in> set rows" for i row
    using same_rows_entry [OF assms(1) mem] assms(2) [of i row] all mem by metis
  ultimately show ?thesis by (auto simp: check_all_ok)
qed

section \<open>Paths\<close>

definition steps_in :: "(string \<times> string) set \<Rightarrow> string \<Rightarrow> relation_step list \<Rightarrow> bool" where
  "steps_in P e path \<longleftrightarrow> (\<forall>(s, step) \<in> set (path_steps e path). (s, rsField step) \<in> P \<and> rsTarget step \<in> fst ` P)"

lemma steps_in_Cons [simp]:
  "steps_in P e (step # path) \<longleftrightarrow>
     (e, rsField step) \<in> P \<and> rsTarget step \<in> fst ` P \<and> steps_in P (rsTarget step) path"
  by (auto simp: steps_in_def)

lemma same_resolvePath:
  "same_on P im im' \<Longrightarrow> same_row P e row row' \<Longrightarrow> steps_in P e path \<Longrightarrow>
     resolvePath im row path b = resolvePath im' row' path b"
proof (induction path arbitrary: e row row')
  case (Cons step path)
  have v: "map_of row (rsField step) = map_of row' (rsField step)"
    using Cons.prems by (auto intro: same_lookup)
  have "and_then (need (row_at im (rsTarget step) i) reference_violation)
        (\<lambda>target. if path = [] then Inr i else resolvePath im target path b)
      = and_then (need (row_at im' (rsTarget step) i) reference_violation)
        (\<lambda>target. if path = [] then Inr i else resolvePath im' target path b)" for i
    using same_row_at [OF Cons.prems(1), of "rsTarget step" i] Cons.prems
    by (auto simp: option.rel_sel need_def intro: Cons.IH split: option.split)
  then show ?case by (simp add: v cong: and_then_cong if_cong)
qed simp

lemma same_matches:
  assumes "same_on P im im'" "same_row P e row row'"
    and "steps_in P e (elems (pmLeft m))" "steps_in P e (elems (pmRight m))"
  shows "matches m im row i policy = matches m im' row' i policy"
  by (simp add: matches_def same_resolvePath [OF assms(1,2)] assms(3,4) cong: if_cong)

lemma same_relationRef:
  assumes "same_on P im im'" "same_row P e row row'" "(e, f) \<in> P" "t \<in> fst ` P"
  shows "relationRef im row f t = relationRef im' row' f t"
  using same_lookup [OF assms(2,3)] same_row_at_None [OF assms(1,4)] by (simp add: relationRef_def cong: if_cong)

lemma same_optionalRef:
  assumes "same_on P im im'" "same_row P e row row'" "(e, f) \<in> P" "t \<in> fst ` P"
  shows "optionalRef im row f t = optionalRef im' row' f t"
  using same_lookup [OF assms(2,3)] same_row_at_None [OF assms(1,4)] by (simp add: optionalRef_def cong: if_cong option.case_cong)


lemma same_identities:
  "same_on P im im' \<Longrightarrow> same_row P e row row' \<Longrightarrow> steps_in P e path \<Longrightarrow>
     identities im row path = identities im' row' path"
proof (induction path arbitrary: e row row')
  case (Cons step path)
  have ref: "relationRef im row (rsField step) (rsTarget step) = relationRef im' row' (rsField step) (rsTarget step)"
    using Cons.prems by (intro same_relationRef) auto
  have "identities im (case row_at im (rsTarget step) i of None \<Rightarrow> [] | Some t \<Rightarrow> t) path
      = identities im' (case row_at im' (rsTarget step) i of None \<Rightarrow> [] | Some t \<Rightarrow> t) path" for i
    using same_row_at [OF Cons.prems(1), of "rsTarget step" i] Cons.prems
    by (intro Cons.IH [of "rsTarget step"]) (auto simp: option.rel_sel same_row_def split: option.split)
  with ref show ?case by simp
qed simp

section \<open>Dependencies\<close>

lemma dep_field: "set (rule_dependencies r) \<subseteq> P \<Longrightarrow> (ruEntity r, ruField r) \<in> P"
  by (rule subsetD, assumption, unfold rule_dependencies_def, rule list.set_intros(1))

lemma dep_entity: "set (rule_dependencies r) \<subseteq> P \<Longrightarrow> ruEntity r \<in> fst ` P"
  by (rule image_eqI [where x = "(ruEntity r, ruField r)"]) (simp_all add: dep_field)

lemma dep_fields: "set (rule_dependencies r) \<subseteq> P \<Longrightarrow> f \<in> set (elems (ruFields r)) \<Longrightarrow> (ruEntity r, f) \<in> P"
  by (auto simp: rule_dependencies_def)

lemma dep_target: "set (rule_dependencies r) \<subseteq> P \<Longrightarrow> ruTarget r \<noteq> [] \<Longrightarrow> (ruTarget r, ruLimit r) \<in> P"
  by (auto simp: rule_dependencies_def)

lemma dep_amount: "set (rule_dependencies r) \<subseteq> P \<Longrightarrow> (ruEntity r, ruAmount r) \<in> P"
  by (auto simp: rule_dependencies_def)

lemma dep_step:
  assumes "set (rule_dependencies r) \<subseteq> P" "(s, step) \<in> set (relationSteps r)"
  shows "(s, rsField step) \<in> P" "rsTarget step \<in> fst ` P"
proof -
  let ?deps = "concat (map (\<lambda>(entity, step). [(entity, rsField step), (rsTarget step, [])]) (relationSteps r))"
  have "{(s, rsField step), (rsTarget step, [])} \<subseteq> set ?deps" using assms(2) by force
  moreover have "set ?deps \<subseteq> set (rule_dependencies r)"
    unfolding rule_dependencies_def set_append list.set(2) by blast
  ultimately have P: "(s, rsField step) \<in> P" "(rsTarget step, []) \<in> P" using assms(1) by blast+
  show "(s, rsField step) \<in> P" by (rule P(1))
  show "rsTarget step \<in> fst ` P" by (rule image_eqI [OF _ P(2)]) simp
qed

lemma dep_path:
  assumes "set (rule_dependencies r) \<subseteq> P" "set (path_steps e path) \<subseteq> set (relationSteps r)"
  shows "steps_in P e path"
  unfolding steps_in_def
proof (intro ballI, clarify)
  fix s step
  assume "(s, step) \<in> set (path_steps e path)"
  with assms(2) have "(s, step) \<in> set (relationSteps r)" by blast
  then show "(s, rsField step) \<in> P \<and> rsTarget step \<in> fst ` P" by (intro conjI dep_step [OF assms(1)])
qed

lemma dep_match:
  assumes "set (rule_dependencies r) \<subseteq> P" "ruCurrentWhen r = None"
  shows "steps_in P (ruEntity r) (elems (pmLeft (ruMatch r)))" "steps_in P (ruEntity r) (elems (pmRight (ruMatch r)))"
  by (rule dep_path [OF assms(1)]; unfold relationSteps_def match_steps_def assms(2) set_append option.case; blast)+

lemma dep_current:
  assumes "set (rule_dependencies r) \<subseteq> P" "ruCurrentWhen r = Some m"
  shows "steps_in P (ruEntity r) (elems (pmLeft m))" "steps_in P (ruEntity r) (elems (pmRight m))"
  by (rule dep_path [OF assms(1)]; unfold relationSteps_def match_steps_def assms(2) set_append option.case; blast)+

section \<open>The simple kinds\<close>

lemma same_entity:
  "same_on P im im' \<Longrightarrow> set (rule_dependencies r) \<subseteq> P \<Longrightarrow>
     same_rows P (ruEntity r) (rows_of im (ruEntity r)) (rows_of im' (ruEntity r))"
  using dep_entity [of r P] unfolding same_on_def by blast

lemma same_decimals:
  assumes "same_on P im im'" "\<And>d. d \<in> set (elems (dlDecimals decl)) \<Longrightarrow> (dcEntity d, dcField d) \<in> P"
  shows "check_decimals decl im = Inr () \<longleftrightarrow> check_decimals decl im' = Inr ()"
proof -
  have "check_all (\<lambda>(_, row). check_decimal d row) (rows_of im (dcEntity d)) = Inr ()
      \<longleftrightarrow> check_all (\<lambda>(_, row). check_decimal d row) (rows_of im' (dcEntity d)) = Inr ()"
    if d: "d \<in> set (elems (dlDecimals decl))" for d
  proof (rule check_all_same)
    show "same_rows P (dcEntity d) (rows_of im (dcEntity d)) (rows_of im' (dcEntity d))"
      using assms(1) assms(2) [OF d] unfolding same_on_def by force
    show "(case (i, row) of (_, row) \<Rightarrow> check_decimal d row) = Inr ()
        \<longleftrightarrow> (case (i, row') of (_, row) \<Rightarrow> check_decimal d row) = Inr ()"
      if "same_row P (dcEntity d) row row'" for i row row'
      using same_lookup [OF that assms(2) [OF d]] same_cell [OF that assms(2) [OF d]]
      by (simp add: check_decimal_def cong: if_cong)
  qed
  then show ?thesis by (simp add: check_decimals_def check_all_ok)
qed

lemma same_SameTarget:
  assumes "same_on P im im'" "set (rule_dependencies r) \<subseteq> P"
    and "kind_valid decimals r" "ruKind r = ''sameTarget''" "\<not> foreign_fields r"
  shows "validateSameTarget r im = Inr () \<longleftrightarrow> validateSameTarget r im' = Inr ()"
proof -
  have none: "ruCurrentWhen r = None"
    using assms(4,5) by (auto simp: foreign_fields_def split: option.split_asm)
  note steps = dep_match [OF assms(2) none]
  have left: "elems (pmLeft (ruMatch r)) \<noteq> []"
    and whenp: "ruWhenPresent r = [] \<or> ruWhenPresent r = rsField (hd (elems (pmLeft (ruMatch r))))"
    using assms(3,4) by (auto simp: kind_valid_def path_match_valid_def split: option.split_asm)
  have P: "ruWhenPresent r \<noteq> [] \<Longrightarrow> (ruEntity r, ruWhenPresent r) \<in> P"
    using steps(1) left whenp by (cases "elems (pmLeft (ruMatch r))") auto
  show ?thesis
    unfolding validateSameTarget_def
  proof (rule check_all_same [OF same_entity [OF assms(1,2)]], goal_cases)
    case (1 i row row')
    then show ?case
      using same_matches [OF assms(1) 1(3) steps] same_lookup [OF 1(3) P] by (simp cong: if_cong conj_cong)
  qed
qed

lemma same_at_most_one:
  "same_row P e row row' \<Longrightarrow> (\<And>f. f \<in> set fs \<Longrightarrow> (e, f) \<in> P) \<Longrightarrow> at_most_one row b fs = at_most_one row' b fs"
proof (induction fs arbitrary: b)
  case (Cons f fs)
  then show ?case using same_lookup [OF Cons.prems(1), of f] by (simp cong: if_cong)
qed simp

lemma same_AtMostOne:
  assumes "same_on P im im'" "set (rule_dependencies r) \<subseteq> P"
  shows "validateAtMostOne r im = Inr () \<longleftrightarrow> validateAtMostOne r im' = Inr ()"
  unfolding validateAtMostOne_def
proof (rule check_all_same [OF same_entity [OF assms]], goal_cases)
  case (1 i row row')
  have "at_most_one row False (elems (ruFields r)) = at_most_one row' False (elems (ruFields r))"
    using 1(3) dep_fields [OF assms(2)] by (rule same_at_most_one)
  then show ?case by simp
qed

lemma same_Reference:
  assumes "same_on P im im'" "set (rule_dependencies r) \<subseteq> P"
    and "kind_valid decimals r" "ruKind r = ''reference''"
  shows "validateReference r im = Inr () \<longleftrightarrow> validateReference r im' = Inr ()"
  unfolding validateReference_def
proof (rule check_all_same [OF same_entity [OF assms(1,2)]], goal_cases)
  case (1 i row row')
  have "ruTarget r \<in> fst ` P"
    using dep_target [OF assms(2)] assms(3,4) by (force simp: kind_valid_def)
  then show ?case
    using same_row_at_None [OF assms(1)] same_cell [OF 1(3) dep_field [OF assms(2)]] by simp
qed


definition row_text :: "(go_any list \<Rightarrow> string result) \<Rightarrow> string list \<Rightarrow> string \<times> row \<Rightarrow> string result" where
  "row_text marshal fs = (\<lambda>(_, row). marshal (map (cell row) fs))"

definition row_unique_ok :: "(go_any list \<Rightarrow> string result) \<Rightarrow> string list \<Rightarrow> string list \<Rightarrow> string \<times> row \<Rightarrow> bool" where
  "row_unique_ok marshal fs seen x \<longleftrightarrow> (\<forall>f \<in> set fs. cell (snd x) f \<noteq> AnyNil)
     \<and> (\<exists>raw. row_text marshal fs x = Inr raw \<and> raw \<notin> set seen)"

lemma unique_rows_ok:
  "distinct (map fst rows) \<Longrightarrow> unique_rows marshal fs seen rows = Inr () \<longleftrightarrow>
     (\<forall>x \<in> set rows. row_unique_ok marshal fs seen x)
     \<and> (\<forall>x \<in> set rows. \<forall>y \<in> set rows. fst x \<noteq> fst y \<longrightarrow> row_text marshal fs x \<noteq> row_text marshal fs y)"
proof (induction rows arbitrary: seen)
  case (Cons x rows)
  have other: "fst y \<noteq> fst x" if "y \<in> set rows" for y using Cons.prems that by simp (metis image_eqI)
  have step: "unique_rows marshal fs seen (x # rows) = Inr () \<longleftrightarrow> row_unique_ok marshal fs seen x
      \<and> (\<exists>raw. row_text marshal fs x = Inr raw \<and> unique_rows marshal fs (raw # seen) rows = Inr ())"
    by (cases x) (auto simp: result_simps list_ex_iff row_text_def row_unique_ok_def)
  have fresh: "(\<forall>y \<in> set rows. row_unique_ok marshal fs (raw # seen) y)
      \<longleftrightarrow> (\<forall>y \<in> set rows. row_unique_ok marshal fs seen y) \<and> (\<forall>y \<in> set rows. row_text marshal fs y \<noteq> Inr raw)" for raw
    unfolding row_unique_ok_def by auto metis
  have shown: "\<exists>raw. row_text marshal fs x = Inr raw" if "row_unique_ok marshal fs seen x"
    using that by (auto simp: row_unique_ok_def)
  have IH: "unique_rows marshal fs (raw # seen) rows = Inr () \<longleftrightarrow>
     (\<forall>x \<in> set rows. row_unique_ok marshal fs (raw # seen) x)
     \<and> (\<forall>x \<in> set rows. \<forall>y \<in> set rows. fst x \<noteq> fst y \<longrightarrow> row_text marshal fs x \<noteq> row_text marshal fs y)" for raw
    using Cons by simp
  show ?case unfolding step IH fresh list.set(2) ball_simps(7) using other shown by auto
qed simp

lemma same_Unique:
  assumes "same_on P im im'" "set (rule_dependencies r) \<subseteq> P"
  shows "validateUnique marshal r im = Inr () \<longleftrightarrow> validateUnique marshal r im' = Inr ()"
proof -
  have imp: "validateUnique marshal r b = Inr ()"
    if same: "same_on P a b" and a: "validateUnique marshal r a = Inr ()" for a b
  proof -
    let ?fs = "elems (ruFields r)" and ?A = "rows_of a (ruEntity r)" and ?B = "rows_of b (ruEntity r)"
    have rows: "same_rows P (ruEntity r) ?B ?A" by (rule same_entity [OF same_on_sym [OF same] assms(2)])
    have dist: "distinct (map fst ?A)" "distinct (map fst ?B)" using rows by (simp_all add: same_rows_def)
    have entry: "\<exists>y \<in> set ?A. fst y = fst x \<and> row_text marshal ?fs x = row_text marshal ?fs y
        \<and> (row_unique_ok marshal ?fs [] y \<longrightarrow> row_unique_ok marshal ?fs [] x)" if "x \<in> set ?B" for x
    proof -
      obtain i row where x: "x = (i, row)" by force
      have "(i, row) \<in> set ?B" using that x by simp
      then obtain row' where row': "(i, row') \<in> set ?A" "same_row P (ruEntity r) row row'"
        by (rule same_rows_entry [OF rows])
      have "\<forall>f \<in> set ?fs. cell row f = cell row' f"
        using same_cell [OF row'(2) dep_fields [OF assms(2)]] by blast
      then show ?thesis
        using row'(1) by (intro bexI [of _ "(i, row')"]) (auto simp: x row_text_def row_unique_ok_def cong: map_cong)
    qed
    have ok: "\<forall>x \<in> set ?A. row_unique_ok marshal ?fs [] x"
      and diff: "\<forall>x \<in> set ?A. \<forall>y \<in> set ?A. fst x \<noteq> fst y \<longrightarrow> row_text marshal ?fs x \<noteq> row_text marshal ?fs y"
      using a unfolding validateUnique_def unique_rows_ok [OF dist(1)] by blast+
    have "\<forall>x \<in> set ?B. row_unique_ok marshal ?fs [] x" using entry ok by blast
    moreover have "\<forall>x \<in> set ?B. \<forall>y \<in> set ?B. fst x \<noteq> fst y \<longrightarrow> row_text marshal ?fs x \<noteq> row_text marshal ?fs y"
      using entry diff by metis
    ultimately show ?thesis unfolding validateUnique_def unique_rows_ok [OF dist(2)] by blast
  qed
  show ?thesis using imp [OF assms(1)] imp [OF same_on_sym [OF assms(1)]] by blast
qed

text \<open>Sorted by their identifiers, the rows correspond one by one.\<close>

definition row_pair :: "(string \<times> string) set \<Rightarrow> string \<Rightarrow> string \<times> row \<Rightarrow> string \<times> row \<Rightarrow> bool" where
  "row_pair P e x y \<longleftrightarrow> fst x = fst y \<and> same_row P e (snd x) (snd y)"

lemma same_sorted:
  assumes "same_rows P e rows rows'"
  shows "list_all2 (row_pair P e) (sort_key fst rows) (sort_key fst rows')"
proof -
  let ?xs = "sort_key fst rows" and ?ys = "sort_key fst rows'"
  have d: "distinct (map fst ?xs)" "distinct (map fst ?ys)"
    using assms by (simp_all add: same_rows_def distinct_map distinct_sort)
  have "map_of rows i = None \<longleftrightarrow> map_of rows' i = None" for i
    using assms unfolding same_rows_def by (metis option.rel_sel)
  then have "fst ` set rows = fst ` set rows'"
    unfolding dom_map_of_conv_image_fst [symmetric] by (simp add: dom_def)
  then have keys: "map fst ?xs = map fst ?ys"
    using d by (intro sorted_distinct_set_unique) simp_all
  show ?thesis
  proof (rule list_all2_all_nthI)
    show len: "length ?xs = length ?ys" using keys by (metis length_map)
    fix n assume n: "n < length ?xs"
    then have x: "?xs ! n \<in> set rows" and y: "?ys ! n \<in> set rows'"
      using len nth_mem [of n ?xs] nth_mem [of n ?ys] by simp_all
    have eq: "fst (?xs ! n) = fst (?ys ! n)" using keys n len by (metis nth_map)
    obtain row' where "(fst (?xs ! n), row') \<in> set rows'" "same_row P e (snd (?xs ! n)) row'"
      by (rule same_rows_entry [OF assms, of "fst (?xs ! n)" "snd (?xs ! n)"]) (use x in simp)
    moreover have "(fst (?xs ! n), snd (?ys ! n)) \<in> set rows'" using y eq by simp
    moreover have "distinct (map fst rows')" using assms by (simp add: same_rows_def)
    ultimately have "row' = snd (?ys ! n)" "same_row P e (snd (?xs ! n)) row'"
      using eq_key_imp_eq_value by fast+
    then show "row_pair P e (?xs ! n) (?ys ! n)" by (simp add: row_pair_def eq)
  qed
qed

lemma fold_result_rel:
  "list_all2 R xs ys \<Longrightarrow> (\<And>s x y. R x y \<Longrightarrow> f s x = g s y) \<Longrightarrow> fold_result f s xs = fold_result g s ys"
  by (induction arbitrary: s rule: list_all2_induct) (auto intro!: and_then_cong)

lemma same_Totals:
  assumes "same_on P im im'" "set (rule_dependencies r) \<subseteq> P"
    and "kind_valid decimals r" "ruKind r = ''conservation'' \<or> ruKind r = ''balance''"
    and "format_at formats (ruEntity r) (ruAmount r) = format_at formats' (ruEntity r) (ruAmount r)"
    and "format_at formats (ruTarget r) (ruLimit r) = format_at formats' (ruTarget r) (ruLimit r)"
  shows "validateTotals r formats im = Inr () \<longleftrightarrow> validateTotals r formats' im' = Inr ()"
proof -
  have named: "ruTarget r \<noteq> []" "ruRelation r \<noteq> []" using assms(3,4) by (auto simp: kind_valid_def)
  have limitP: "(ruTarget r, ruLimit r) \<in> P" by (rule dep_target [OF assms(2) named(1)])
  have target: "ruTarget r \<in> fst ` P" by (rule image_eqI [OF _ limitP]) simp
  have relation: "(ruEntity r, ruRelation r) \<in> P"
    using dep_step(1) [OF assms(2), of "ruEntity r" "\<lparr>rsField = ruRelation r, rsTarget = ruTarget r\<rparr>"] named(2)
    by (simp add: relationSteps_def)
  have step: "total_step r formats im totals x = total_step r formats' im' totals y"
    if "row_pair P (ruEntity r) x y" for totals x y
  proof -
    have row: "same_row P (ruEntity r) (snd x) (snd y)" and i: "fst x = fst y"
      using that by (simp_all add: row_pair_def)
    have "(case ruCurrentWhen r of None \<Rightarrow> Inr True
        | Some m \<Rightarrow> matches m im (snd x) (fst x) \<lparr>skipEmptyLeft = False, allowEmptyRight = True\<rparr>)
      = (case ruCurrentWhen r of None \<Rightarrow> Inr True
        | Some m \<Rightarrow> matches m im' (snd y) (fst y) \<lparr>skipEmptyLeft = False, allowEmptyRight = True\<rparr>)"
      using same_matches [OF assms(1) row] dep_current [OF assms(2)] i by (simp split: option.split)
    then show ?thesis
      using same_cell [OF row relation] same_cell [OF row dep_amount [OF assms(2)]]
        same_row_at_None [OF assms(1) target] assms(5,6)
      by (simp add: total_step_def split_beta i cong: if_cong)
  qed
  have fold: "fold_result (total_step r formats im) [] (sort_key fst (rows_of im (ruEntity r)))
      = fold_result (total_step r formats' im') [] (sort_key fst (rows_of im' (ruEntity r)))"
    by (rule fold_result_rel [OF same_sorted [OF same_entity [OF assms(1,2)]] step])
  have rows: "same_rows P (ruTarget r) (rows_of im (ruTarget r)) (rows_of im' (ruTarget r))"
    using assms(1) target unfolding same_on_def by blast
  have limits: "check_all (\<lambda>(i, row). f i (cell row (ruLimit r))) (rows_of im (ruTarget r)) = Inr ()
      \<longleftrightarrow> check_all (\<lambda>(i, row). f i (cell row (ruLimit r))) (rows_of im' (ruTarget r)) = Inr ()" for f
    by (rule check_all_same [OF rows]) (simp add: same_cell [OF _ limitP])
  show ?thesis
    unfolding validateTotals_def Let_def assms(5,6) fold and_then_ok
    using limits [of "\<lambda>i v. and_then (Parse (format_at formats' (ruTarget r) (ruLimit r)) v) (\<lambda>limit.
            check (\<not> (ruKind r = ''conservation'' \<and> total_of totals i \<noteq> limit
                      \<or> ruKind r = ''balance'' \<and> total_of totals i > limit))
              (failure (ruKind r @ ''_violation'')))" for totals]
    by blast
qed


lemma and_then_unit: "and_then m f = Inr y \<longleftrightarrow> m = Inr () \<and> f () = Inr y"
  by (simp add: and_then_ok)

lemma same_State:
  assumes "same_on P a a'" "same_on P b b'" "set (rule_dependencies r) \<subseteq> P"
  shows "validateState r a b = Inr () \<longleftrightarrow> validateState r a' b' = Inr ()"
proof -
  have state: "cell row (ruField r) = cell row' (ruField r)" if "same_row P (ruEntity r) row row'" for row row'
    by (rule same_cell [OF that dep_field [OF assms(3)]])
  have frozen: "list_all (\<lambda>f. deep_equal (cell old f) (cell new f)) (elems (ruFields r))
      \<longleftrightarrow> list_all (\<lambda>f. deep_equal (cell old' f) (cell new' f)) (elems (ruFields r))"
    if "same_row P (ruEntity r) old old'" "same_row P (ruEntity r) new new'" for old old' new new'
    using same_cell [OF that(1) dep_fields [OF assms(3)]] same_cell [OF that(2) dep_fields [OF assms(3)]]
    by (simp add: list_all_iff)
  have step: "state_step r (rows_of b (ruEntity r)) (i, old) = state_step r (rows_of b' (ruEntity r)) (i, old')"
    if old: "same_row P (ruEntity r) old old'" for i old old'
  proof -
    have "rel_option (same_row P (ruEntity r)) (map_of (rows_of b (ruEntity r)) i) (map_of (rows_of b' (ruEntity r)) i)"
      using same_entity [OF assms(2,3)] by (simp add: same_rows_def)
    then show ?thesis
    proof (cases rule: option.rel_cases)
      case None
      then show ?thesis by (simp add: state_step_def state [OF old])
    next
      case (Some new new')
      then show ?thesis
        by (simp add: state_step_def state [OF old] state [OF Some(3)] frozen [OF old Some(3)] cong: if_cong)
    qed
  qed
  have "check_all (state_step r (rows_of b (ruEntity r))) (rows_of a (ruEntity r)) = Inr ()
      \<longleftrightarrow> check_all (state_step r (rows_of b' (ruEntity r))) (rows_of a' (ruEntity r)) = Inr ()"
    by (rule check_all_same [OF same_entity [OF assms(1,3)]]) (simp add: step)
  moreover have states: "check_all (\<lambda>(_, row). f (cell row (ruField r))) (rows_of b (ruEntity r)) = Inr ()
      \<longleftrightarrow> check_all (\<lambda>(_, row). f (cell row (ruField r))) (rows_of b' (ruEntity r)) = Inr ()" for f
    by (rule check_all_same [OF same_entity [OF assms(2,3)]]) (simp add: state)
  moreover note states [of "\<lambda>v. and_then (need (go_string v) (failure ''state_invalid'')) (\<lambda>state.
      check (map_of (elems (ruTransitions r)) state \<noteq> None) (failure ''state_invalid''))"]
  ultimately show ?thesis
    unfolding validateState_def Let_def and_then_unit by blast
qed

lemma dep_parent:
  assumes "set (rule_dependencies r) \<subseteq> P" "ruKind r = ''parentFreeze''"
  shows "steps_in P (ruEntity r) (elems (ruParentPath r))"
    and "(path_end (ruEntity r) (elems (ruParentPath r)), ruParentStateField r) \<in> P"
proof -
  show "steps_in P (ruEntity r) (elems (ruParentPath r))"
    by (rule dep_path [OF assms(1)]) (unfold relationSteps_def set_append assms(2), simp, blast)
  have "(path_end (ruEntity r) (elems (ruParentPath r)), ruParentStateField r) \<in> set (rule_dependencies r)"
    unfolding rule_dependencies_def assms(2) by simp
  then show "(path_end (ruEntity r) (elems (ruParentPath r)), ruParentStateField r) \<in> P"
    using assms(1) by (rule subsetD [rotated])
qed

lemma same_ParentFreeze:
  assumes "same_on P a a'" "same_on P b b'" "set (rule_dependencies r) \<subseteq> P" "ruKind r = ''parentFreeze''"
  shows "validateParentFreeze r a b = Inr () \<longleftrightarrow> validateParentFreeze r a' b' = Inr ()"
proof -
  note deps = dep_parent [OF assms(3,4)]
  let ?path = "elems (ruParentPath r)"
  have parent: "path_end (ruEntity r) ?path \<in> fst ` P" by (rule image_eqI [OF _ deps(2)]) simp
  have frozen_in: "frozen_in r a p = frozen_in r a' p" for p
    using same_row_at [OF assms(1) parent, of p]
    by (cases rule: option.rel_cases) (simp_all add: frozen_in_def same_cell [OF _ deps(2)])
  have ids: "identities im row ?path = identities im' row' ?path"
    if "same_on P im im'" "same_row P (ruEntity r) row row'" for im im' row row'
    by (rule same_identities [OF that deps(1)])
  have frozen: "list_all (\<lambda>f. deep_equal (cell old f) (cell new f)) (elems (ruFields r))
      \<longleftrightarrow> list_all (\<lambda>f. deep_equal (cell old' f) (cell new' f)) (elems (ruFields r))"
    if "same_row P (ruEntity r) old old'" "same_row P (ruEntity r) new new'" for old old' new new'
    using same_cell [OF that(1) dep_fields [OF assms(3)]] same_cell [OF that(2) dep_fields [OF assms(3)]]
    by (simp add: list_all_iff)
  have step: "freeze_step r a b (i, old) = freeze_step r a' b' (i, old')"
    if old: "same_row P (ruEntity r) old old'" for i old old'
    using same_row_at [OF assms(2) dep_entity [OF assms(3)], of i]
  proof (cases rule: option.rel_cases)
    case None
    then show ?thesis by (simp add: freeze_step_def ids [OF assms(1) old] frozen_in Let_def)
  next
    case (Some new new')
    then show ?thesis
      by (simp add: freeze_step_def ids [OF assms(1) old] ids [OF assms(2) Some(3)] frozen_in
          frozen [OF old Some(3)] Let_def cong: if_cong)
  qed
  have "check_all (freeze_step r a b) (rows_of a (ruEntity r)) = Inr ()
      \<longleftrightarrow> check_all (freeze_step r a' b') (rows_of a' (ruEntity r)) = Inr ()"
    by (rule check_all_same [OF same_entity [OF assms(1,3)]]) (simp add: step)
  moreover have "check_all (\<lambda>(i, row). if row_at a (ruEntity r) i \<noteq> None then Inr ()
        else and_then (resolvePath b row ?path False) (\<lambda>p. check (\<not> frozen_in r a p) e)) (rows_of b (ruEntity r)) = Inr ()
      \<longleftrightarrow> check_all (\<lambda>(i, row). if row_at a' (ruEntity r) i \<noteq> None then Inr ()
        else and_then (resolvePath b' row ?path False) (\<lambda>p. check (\<not> frozen_in r a' p) e)) (rows_of b' (ruEntity r)) = Inr ()"
    for e
  proof (rule check_all_same [OF same_entity [OF assms(2,3)]], goal_cases)
    case (1 i row row')
    show ?case
      by (simp only: prod.case same_resolvePath [OF assms(2) 1(3) deps(1)] frozen_in
          same_row_at_None [OF assms(1) dep_entity [OF assms(3)]])
  qed
  ultimately show ?thesis
    by (simp add: validateParentFreeze_def and_then_ok)
qed

end
