(* ===== verification/Reservation_Frames.thy ===== *)
theory Reservation_Frames
  imports Rule_Frames
begin

text \<open>
  The frames of the kinds of rule whose loops accumulate: reversals and reservations. A loop that
  first computes an amount from its row and then adds it splits into the two; the amounts of
  the rows of corresponding images are the same up to their order, and sums do not see the order.
\<close>

section \<open>Loops in two passes\<close>

lemma fold_result_map:
  "fold_result (\<lambda>s x. and_then (g x) (h s)) s xs = Inr t \<longleftrightarrow>
     (\<exists>ys. map_result g xs = Inr ys \<and> fold_result h s ys = Inr t)"
proof (induction xs arbitrary: s)
  case (Cons x xs)
  show ?case
  proof (cases "g x")
    case (Inr y)
    then have "map_result g (x # xs) = Inr zs \<longleftrightarrow> (\<exists>ys. map_result g xs = Inr ys \<and> zs = y # ys)" for zs
      by (cases "map_result g xs") auto
    with Inr show ?thesis by (cases "h s y") (auto simp: Cons.IH)
  qed simp
qed simp

lemma map_result_projr:
  "map_result g xs = Inr ys \<longleftrightarrow> (\<forall>x \<in> set xs. \<not> isl (g x)) \<and> ys = map (projr \<circ> g) xs"
proof (induction xs arbitrary: ys)
  case (Cons x xs)
  then show ?case by (cases "g x") (auto simp: result_simps simp del: map_result_ok)
qed auto

lemma map_result_same:
  assumes "same_rows P e rows rows'"
    and "\<And>i row row'. same_row P e row row' \<Longrightarrow> g (i, row) = g' (i, row')"
    and "map_result g rows = Inr ys"
  obtains ys' where "map_result g' rows' = Inr ys'" "mset ys' = mset ys"
proof -
  have step: "g x = g' y" if "row_pair P e x y" for x y
    using assms(2) [of "snd x" "snd y" "fst x"] that by (cases x; cases y) (simp add: row_pair_def)
  have pairs: "map g (sort_key fst rows) = map g' (sort_key fst rows')"
    using same_sorted [OF assms(1)] by (induction rule: list_all2_induct) (simp_all add: step)
  then have m: "image_mset g (mset rows) = image_mset g' (mset rows')"
    by (metis mset_map mset_sort)
  then have s: "g ` set rows = g' ` set rows'" by (metis set_image_mset set_mset_mset)
  have ok: "\<forall>x \<in> set rows. \<not> isl (g x)" and ys: "ys = map (projr \<circ> g) rows"
    using assms(3) by (simp_all add: map_result_projr)
  have "\<forall>x \<in> set rows'. \<not> isl (g' x)" using ok s by (metis image_iff)
  then have "map_result g' rows' = Inr (map (projr \<circ> g') rows')" by (simp add: map_result_projr)
  moreover have "mset (map (projr \<circ> g') rows') = mset ys"
    using arg_cong [OF m, of "image_mset projr"] by (simp add: ys image_mset.compositionality)
  ultimately show thesis by (rule that)
qed


section \<open>Reversals\<close>

text \<open>What the loop does with one row before it touches the totals: nothing, or an amount to add for
  an original with a limit.\<close>

definition reversal_row ::
  "rule \<Rightarrow> reversal_spec \<Rightarrow> format \<Rightarrow> images \<Rightarrow> string \<times> row \<Rightarrow> (string \<times> int \<times> int) option result" where
  "reversal_row r spec format after = (\<lambda>(i, row).
     if cell row (rlPurpose spec) \<noteq> AnyString (rlReversalPurpose spec) then Inr None
     else
       and_then (owner_of spec after row) (\<lambda>owner.
       and_then (need (go_string (cell owner (rlOwnerStateField spec))) (failure ''reversal_invalid''))
         (\<lambda>state.
         if state \<notin> set (elems (rlRequiredStates spec)) then Inr None
         else
           and_then (original_of r spec after i row) (\<lambda>(originalID, original).
           and_then (owner_of spec after original) (\<lambda>originalOwner.
           and_then (check (cell originalOwner (rlOwnerStateField spec) = AnyString (rlConfirmedState spec))
             (failure ''reversal_invalid'')) (\<lambda>_.
           and_then (check (same_fields row original (elems (rlSameFields spec))
               \<and> same_fields owner originalOwner (elems (rlSameOwnerFields spec)))
             (failure ''reversal_mismatch'')) (\<lambda>_.
           and_then (Parse format (cell row (rlQuantity spec))) (\<lambda>quantity.
           and_then (Parse format (cell original (rlQuantity spec))) (\<lambda>limit.
           and_then (check (quantity \<le> limit) (failure ''reversal_exceeded'')) (\<lambda>_.
             if state \<noteq> rlConfirmedState spec then Inr None
             else Inr (Some (originalID, quantity, limit)))))))))))) "

definition reversal_add :: "(string \<times> int) list \<Rightarrow> (string \<times> int \<times> int) option \<Rightarrow> (string \<times> int) list result" where
  "reversal_add totals c = (case c of None \<Rightarrow> Inr totals
     | Some (original, quantity, limit) \<Rightarrow>
         let totals' = add_total totals original quantity in
         and_then (check (total_of totals' original \<le> limit) (failure ''reversal_exceeded'')) (\<lambda>_. Inr totals'))"

lemma and_then_assoc: "and_then (and_then m f) g = and_then m (\<lambda>x. and_then (f x) g)"
  by (cases m) simp_all

lemma and_then_if: "and_then (if b then m else n) g = (if b then and_then m g else and_then n g)"
  by simp

lemma and_then_split: "and_then (case p of (a, b) \<Rightarrow> f a b) g = (case p of (a, b) \<Rightarrow> and_then (f a b) g)"
  by (simp split: prod.split)

lemma reversal_step_row:
  "reversal_step r spec format after totals x = and_then (reversal_row r spec format after x) (reversal_add totals)"
proof (cases x)
  case (Pair i row)
  show ?thesis
    unfolding Pair reversal_step_def reversal_row_def and_then_assoc and_then_if prod.case
    apply (intro and_then_cong if_cong refl)
    apply (simp_all only: prod.case split_beta and_then_assoc and_then_if)
      apply (simp_all only: and_then_simps reversal_add_def option.case)
    apply (intro and_then_cong if_cong refl)
    apply (simp_all only: and_then_simps reversal_add_def option.case prod.case)
    done
qed

text \<open>With quantities that are not negative, no prefix exceeds a limit exactly when the whole does not.\<close>

definition reversed_total :: "(string \<times> int \<times> int) option list \<Rightarrow> string \<Rightarrow> int" where
  "reversed_total cs t = sum_where (\<lambda>c. case c of None \<Rightarrow> False | Some (i, _, _) \<Rightarrow> i = t)
     (\<lambda>c. case c of None \<Rightarrow> 0 | Some (_, q, _) \<Rightarrow> q) cs"

lemma reversed_total_simps [simp]:
  "reversed_total [] t = 0"
  "reversed_total (None # cs) t = reversed_total cs t"
  "reversed_total (Some (i, q, l) # cs) t = (if i = t then q else 0) + reversed_total cs t"
  by (simp_all add: reversed_total_def)

lemma reversed_total_nonneg:
  "(\<And>i q l. Some (i, q, l) \<in> set cs \<Longrightarrow> 0 \<le> q) \<Longrightarrow> 0 \<le> reversed_total cs t"
  unfolding reversed_total_def by (rule sum_where_nonneg) (auto split: option.split prod.split)



lemma reversal_adds_ok:
  assumes "\<And>i q l. Some (i, q, l) \<in> set cs \<Longrightarrow> 0 \<le> q \<and> l = limit i"
  shows "(\<exists>m. fold_result reversal_add totals cs = Inr m)
    \<longleftrightarrow> (\<forall>i q l. Some (i, q, l) \<in> set cs \<longrightarrow> total_of totals i + reversed_total cs i \<le> limit i)"
  using assms
proof (induction cs arbitrary: totals)
  case (Cons c cs)
  have prems: "\<And>i q l. Some (i, q, l) \<in> set cs \<Longrightarrow> 0 \<le> q \<and> l = limit i" using Cons.prems list.set_intros(2) by metis
  show ?case
  proof (cases c)
    case None
    then show ?thesis unfolding None using Cons.IH [OF prems, of totals] by (simp add: reversal_add_def)
  next
    case (Some p)
    obtain i q l where p: "p = (i, q, l)" by (cases p)
    have "0 \<le> q \<and> l = limit i" by (rule Cons.prems) (simp add: Some p)
    then have c: "c = Some (i, q, limit i)" "0 \<le> q" by (simp_all add: Some p)
    have rest: "0 \<le> reversed_total cs i" by (rule reversed_total_nonneg) (use prems in blast)
    have step: "(\<exists>m. fold_result reversal_add totals (c # cs) = Inr m)
        \<longleftrightarrow> total_of totals i + q \<le> limit i \<and> (\<exists>m. fold_result reversal_add (add_total totals i q) cs = Inr m)"
      by (simp add: c reversal_add_def Let_def result_simps)
    have none: "reversed_total cs i = 0" if "\<forall>q l. Some (i, q, l) \<notin> set cs"
      using that by (induction cs) (auto simp: reversed_total_def split: option.split)
    have "total_of totals i + q \<le> limit i \<and> (\<forall>j q' l. Some (j, q', l) \<in> set cs \<longrightarrow>
          total_of (add_total totals i q) j + reversed_total cs j \<le> limit j)
      \<longleftrightarrow> (\<forall>j q' l. Some (j, q', l) \<in> set (c # cs) \<longrightarrow>
          total_of totals j + reversed_total (c # cs) j \<le> limit j)"
    proof
      assume *: "total_of totals i + q \<le> limit i \<and> (\<forall>j q' l. Some (j, q', l) \<in> set cs \<longrightarrow>
        total_of (add_total totals i q) j + reversed_total cs j \<le> limit j)"
      have "total_of totals i + q + reversed_total cs i \<le> limit i"
      proof (cases "\<exists>q' l. Some (i, q', l) \<in> set cs")
        case True
        then show ?thesis using * by force
      next
        case False
        then show ?thesis using * none by simp
      qed
      then have "total_of totals j + reversed_total (c # cs) j \<le> limit j"
        if "Some (j, q', l) \<in> set (c # cs)" for j q' l
        using that * [THEN conjunct2, rule_format, of j q' l] by (cases "j = i") (auto simp: c)
      then show "\<forall>j q' l. Some (j, q', l) \<in> set (c # cs) \<longrightarrow>
          total_of totals j + reversed_total (c # cs) j \<le> limit j" by blast
    next
      assume *: "\<forall>j q' l. Some (j, q', l) \<in> set (c # cs) \<longrightarrow>
          total_of totals j + reversed_total (c # cs) j \<le> limit j"
      have "total_of totals i + (q + reversed_total cs i) \<le> limit i" using * [rule_format, of i q "limit i"] by (simp add: c)
      moreover have "total_of (add_total totals i q) j + reversed_total cs j \<le> limit j"
        if "Some (j, q', l) \<in> set cs" for j q' l
        using * [rule_format, of j q' l] that by (cases "j = i") (auto simp: c)
      ultimately show "total_of totals i + q \<le> limit i \<and> (\<forall>j q' l. Some (j, q', l) \<in> set cs \<longrightarrow>
          total_of (add_total totals i q) j + reversed_total cs j \<le> limit j)" using rest by auto
    qed
    moreover have "(\<exists>m. fold_result reversal_add (add_total totals i q) cs = Inr m)
        \<longleftrightarrow> (\<forall>j q' l. Some (j, q', l) \<in> set cs \<longrightarrow>
          total_of (add_total totals i q) j + reversed_total cs j \<le> limit j)"
      by (rule Cons.IH [OF prems])
    ultimately show ?thesis unfolding step by simp
  qed
qed simp



lemma and_then_rel:
  "rel_sum (=) R m m' \<Longrightarrow> (\<And>x y. R x y \<Longrightarrow> f x = g y) \<Longrightarrow> and_then m f = and_then m' g"
  by (cases m; cases m') simp_all

lemma dep_reversal:
  assumes "set (rule_dependencies r) \<subseteq> P" "ruReversal r = Some spec"
  shows "(ruEntity r, rlOriginal spec) \<in> P" "steps_in P (ruEntity r) (elems (rlOwnerPath spec))"
    and "(ruEntity r, rlQuantity spec) \<in> P" "(ruEntity r, rlPurpose spec) \<in> P"
    and "\<And>f. f \<in> set (elems (rlSameFields spec)) \<Longrightarrow> (ruEntity r, f) \<in> P"
    and "(rsTarget (last (elems (rlOwnerPath spec))), rlOwnerStateField spec) \<in> P"
    and "\<And>f. f \<in> set (elems (rlSameOwnerFields spec)) \<Longrightarrow> (rsTarget (last (elems (rlOwnerPath spec))), f) \<in> P"
proof -
  show "(ruEntity r, rlOriginal spec) \<in> P"
    using dep_step(1) [OF assms(1), of "ruEntity r" "\<lparr>rsField = rlOriginal spec, rsTarget = ruEntity r\<rparr>"]
    by (simp add: relationSteps_def assms(2))
  show "steps_in P (ruEntity r) (elems (rlOwnerPath spec))"
    by (rule dep_path [OF assms(1)]) (unfold relationSteps_def set_append assms(2), simp, blast)
  have "set (reversal_dependencies (ruEntity r) spec) \<subseteq> set (rule_dependencies r)"
    unfolding rule_dependencies_def assms(2) by simp blast
  with assms(1) have *: "set (reversal_dependencies (ruEntity r) spec) \<subseteq> P" by (rule subset_trans [rotated])
  note * = * [unfolded reversal_dependencies_def Let_def set_append list.set set_map]
  show "(ruEntity r, rlQuantity spec) \<in> P" "(ruEntity r, rlPurpose spec) \<in> P"
    "(rsTarget (last (elems (rlOwnerPath spec))), rlOwnerStateField spec) \<in> P" using * by blast+
  show "\<And>f. f \<in> set (elems (rlSameFields spec)) \<Longrightarrow> (ruEntity r, f) \<in> P"
    "\<And>f. f \<in> set (elems (rlSameOwnerFields spec)) \<Longrightarrow> (rsTarget (last (elems (rlOwnerPath spec))), f) \<in> P"
    using * by blast+
qed

lemma same_owner:
  assumes "same_on P im im'" "same_row P e row row'" "steps_in P e (elems (rlOwnerPath spec))"
    and "rsTarget (last (elems (rlOwnerPath spec))) \<in> fst ` P"
  shows "rel_sum (=) (same_row P (rsTarget (last (elems (rlOwnerPath spec))))) (owner_of spec im row) (owner_of spec im' row')"
proof (cases "resolvePath im' row' (elems (rlOwnerPath spec)) False")
  case (Inr i)
  have none: "same_row P e' [] []" for e' by (simp add: same_row_def)
  show ?thesis
    using same_row_at [OF assms(1,4), of i]
    by (cases rule: option.rel_cases) (simp_all add: none owner_of_def same_resolvePath [OF assms(1-3)] Inr)
qed (simp add: owner_of_def same_resolvePath [OF assms(1-3)])

lemma same_original:
  assumes "same_on P im im'" "same_row P (ruEntity r) row row'" "(ruEntity r, rlOriginal spec) \<in> P"
    and "(ruEntity r, rlPurpose spec) \<in> P"
  shows "rel_sum (=) (\<lambda>x y. fst x = fst y \<and> same_row P (ruEntity r) (snd x) (snd y))
    (original_of r spec im i row) (original_of r spec im' i row')"
proof -
  have e: "ruEntity r \<in> fst ` P" by (rule image_eqI [OF _ assms(3)]) simp
  show ?thesis
  proof (cases "go_string (cell row' (rlOriginal spec))")
    case (Some originalID)
    note c = same_cell [OF assms(2,3)]
    show ?thesis
      using same_row_at [OF assms(1) e, of originalID]
    proof (cases rule: option.rel_cases)
      case (Some a b)
      then show ?thesis
        using same_cell [OF Some(3) assms(4)] \<open>go_string _ = Some _\<close>
        by (simp add: original_of_def c check_def)
    qed (use \<open>go_string _ = Some _\<close> in \<open>simp add: original_of_def c\<close>)
  qed (simp add: original_of_def same_cell [OF assms(2,3)])
qed

lemma same_fields_cong:
  "same_row P e a a' \<Longrightarrow> same_row P e b b' \<Longrightarrow> (\<And>f. f \<in> set fs \<Longrightarrow> (e, f) \<in> P) \<Longrightarrow>
     same_fields a b fs = same_fields a' b' fs"
  unfolding same_fields_def by (rule list.pred_cong) (simp_all add: same_lookup [of P e])

lemma same_reversal_row:
  assumes "same_on P im im'" "set (rule_dependencies r) \<subseteq> P" "ruReversal r = Some spec"
    and row: "same_row P (ruEntity r) row row'"
  shows "reversal_row r spec format im (i, row) = reversal_row r spec format im' (i, row')"
proof -
  note dep = dep_reversal [OF assms(2,3)]
  let ?owner = "rsTarget (last (elems (rlOwnerPath spec)))"
  have owner: "?owner \<in> fst ` P" by (rule image_eqI [OF _ dep(6)]) simp
  note owners = same_owner [OF assms(1) _ dep(2) owner]
  note same = same_fields_cong [OF _ _ dep(5)] same_fields_cong [OF _ _ dep(7)]
  show ?thesis
    unfolding reversal_row_def prod.case same_cell [OF row dep(4)]
  proof (intro if_cong refl and_then_rel [OF owners [OF row]], goal_cases)
    case (1 o1 o2)
    show ?case unfolding same_cell [OF 1(2) dep(6)]
    proof (rule and_then_cong [OF refl], rule if_cong [OF refl refl],
        rule and_then_rel [OF same_original [OF assms(1) row dep(1,4)]], goal_cases)
      case prems: (1 state x y)
      from prems have xy: "fst x = fst y" "same_row P (ruEntity r) (snd x) (snd y)" by simp_all
      show ?case unfolding split_beta xy(1)
      proof (intro and_then_rel [OF owners [OF xy(2)]], goal_cases)
        case (1 p1 p2)
        show ?case
          by (simp only: same_cell [OF 1 dep(6)] same(1) [OF row xy(2)] same(2) [OF \<open>same_row P ?owner o1 o2\<close> 1]
              same_cell [OF row dep(3)] same_cell [OF xy(2) dep(3)])
      qed
    qed
  qed
qed


lemma reversal_row_amount:
  assumes "reversal_row r spec format im (i, row) = Inr (Some (j, q, l))"
  shows "Parse format (cell row (rlQuantity spec)) = Inr q
    \<and> (\<exists>orig. row_at im (ruEntity r) j = Some orig \<and> Parse format (cell orig (rlQuantity spec)) = Inr l)"
proof -
  have "original_of r spec im i row = Inr (j', orig) \<Longrightarrow> row_at im (ruEntity r) j' = Some orig" for j' orig
    by (auto simp: original_of_def result_simps)
  then show ?thesis
    using assms by (auto simp: reversal_row_def result_simps split: if_split_asm)
qed

lemma validateReversal_ok:
  assumes "ruReversal r = Some spec" "elems (rlOwnerPath spec) \<noteq> []"
    and "format = format_at formats (ruEntity r) (rlQuantity spec)"
    and nonneg: "\<And>i row q. (i, row) \<in> set (rows_of im (ruEntity r)) \<Longrightarrow>
      Parse format (cell row (rlQuantity spec)) = Inr q \<Longrightarrow> 0 \<le> q"
  shows "validateReversal r formats im = Inr () \<longleftrightarrow>
    (\<exists>cs. map_result (reversal_row r spec format im) (rows_of im (ruEntity r)) = Inr cs
       \<and> (\<forall>i q l. Some (i, q, l) \<in> set cs \<longrightarrow> reversed_total cs i \<le> l))"
proof -
  let ?rows = "rows_of im (ruEntity r)" and ?g = "reversal_row r spec format im"
  define limit where "limit i = projr (Parse format (cell (the (row_at im (ruEntity r) i)) (rlQuantity spec)))" for i
  have amounts: "0 \<le> q \<and> l = limit i" if cs: "map_result ?g ?rows = Inr cs" and mem: "Some (i, q, l) \<in> set cs" for cs i q l
  proof -
    obtain x where x: "x \<in> set ?rows" "?g x = Inr (Some (i, q, l))"
      using cs mem unfolding map_result_projr by (auto simp: isl_def)
    then show ?thesis
      using reversal_row_amount [of r spec format im "fst x" "snd x" i q l] nonneg [of "fst x" "snd x" q]
      by (auto simp: limit_def)
  qed
  have "validateReversal r formats im = Inr () \<longleftrightarrow> (\<exists>m. fold_result (\<lambda>m x. and_then (?g x) (reversal_add m)) [] ?rows = Inr m)"
    by (simp add: validateReversal_def assms(1-3) result_simps reversal_step_row [abs_def])
  also have "\<dots> \<longleftrightarrow> (\<exists>cs. map_result ?g ?rows = Inr cs \<and> (\<exists>m. fold_result reversal_add [] cs = Inr m))"
    unfolding fold_result_map by blast
  also have "\<dots> \<longleftrightarrow> (\<exists>cs. map_result ?g ?rows = Inr cs
       \<and> (\<forall>i q l. Some (i, q, l) \<in> set cs \<longrightarrow> reversed_total cs i \<le> limit i))"
    using reversal_adds_ok [of _ limit "[]"] amounts by (intro ex_cong1 conj_cong refl) simp
  also have "\<dots> \<longleftrightarrow> (\<exists>cs. map_result ?g ?rows = Inr cs
       \<and> (\<forall>i q l. Some (i, q, l) \<in> set cs \<longrightarrow> reversed_total cs i \<le> l))"
    using amounts by (intro ex_cong1 conj_cong refl) metis
  finally show ?thesis .
qed

lemma same_Reversal:
  assumes "same_on P im im'" "set (rule_dependencies r) \<subseteq> P"
    and spec: "ruReversal r = Some spec" "elems (rlOwnerPath spec) \<noteq> []"
    and format: "format_at formats (ruEntity r) (rlQuantity spec) = format_at formats' (ruEntity r) (rlQuantity spec)"
    and nonneg: "\<And>i row q. (i, row) \<in> set (rows_of im (ruEntity r)) \<Longrightarrow>
      Parse (format_at formats (ruEntity r) (rlQuantity spec)) (cell row (rlQuantity spec)) = Inr q \<Longrightarrow> 0 \<le> q"
  shows "validateReversal r formats im = Inr () \<longleftrightarrow> validateReversal r formats' im' = Inr ()"
proof -
  let ?f = "format_at formats (ruEntity r) (rlQuantity spec)" and ?e = "ruEntity r"
  have rows: "same_rows P ?e (rows_of im ?e) (rows_of im' ?e)" by (rule same_entity [OF assms(1,2)])
  have nonneg': "0 \<le> q" if entry: "(i, row) \<in> set (rows_of im' ?e)" and parse: "Parse ?f (cell row (rlQuantity spec)) = Inr q" for i row q
  proof -
    obtain row' where row': "(i, row') \<in> set (rows_of im ?e)" "same_row P ?e row row'"
      by (rule same_rows_entry [OF same_rows_sym [OF rows] entry])
    show ?thesis
      using nonneg [OF row'(1)] parse same_cell [OF row'(2) dep_reversal(3) [OF assms(2) spec(1)]] by simp
  qed
  define ok where "ok cs \<longleftrightarrow> (\<forall>i q l. Some (i, q, l) \<in> set cs \<longrightarrow> reversed_total cs i \<le> l)"
    for cs :: "(string \<times> int \<times> int) option list"
  have ok: "ok cs \<longleftrightarrow> ok ds" if "mset cs = mset ds" for cs ds
    using mset_eq_setD [OF that] sum_where_mset [OF that] by (simp add: ok_def reversed_total_def)
  have one: "\<exists>ds. map_result (reversal_row r spec ?f b) (rows_of b ?e) = Inr ds \<and> ok ds"
    if same: "same_on P a b" and cs: "map_result (reversal_row r spec ?f a) (rows_of a ?e) = Inr cs" "ok cs" for a b cs
  proof -
    obtain ds where "map_result (reversal_row r spec ?f b) (rows_of b ?e) = Inr ds" "mset ds = mset cs"
      by (rule map_result_same [OF same_entity [OF same assms(2)] same_reversal_row [OF same assms(2) spec(1)] cs(1)])
    with ok cs(2) show ?thesis by metis
  qed
  have "(\<exists>cs. map_result (reversal_row r spec ?f im) (rows_of im ?e) = Inr cs \<and> ok cs)
      \<longleftrightarrow> (\<exists>cs. map_result (reversal_row r spec ?f im') (rows_of im' ?e) = Inr cs \<and> ok cs)"
    using one [OF assms(1)] one [OF same_on_sym [OF assms(1)]] by blast
  moreover have "validateReversal r formats im = Inr () \<longleftrightarrow>
      (\<exists>cs. map_result (reversal_row r spec ?f im) (rows_of im ?e) = Inr cs \<and> ok cs)"
    unfolding ok_def by (rule validateReversal_ok [OF spec refl]) (rule nonneg)
  moreover have "validateReversal r formats' im' = Inr () \<longleftrightarrow>
      (\<exists>cs. map_result (reversal_row r spec ?f im') (rows_of im' ?e) = Inr cs \<and> ok cs)"
    unfolding ok_def by (rule validateReversal_ok [OF spec format]) (rule nonneg')
  ultimately show ?thesis by blast
qed


section \<open>Plan buckets\<close>

lemma collect_totals_same:
  assumes "mset xs = mset ys"
  shows "same_map (collect_totals P key q [] xs) (collect_totals P key q [] ys)"
proof -
  let ?m = "collect_totals P key q [] xs" and ?n = "collect_totals P key q [] ys"
  have total: "total_of ?m k = total_of ?n k" for k
    by (simp add: total_of_collect sum_where_mset [OF assms])
  have keys: "fst ` set ?m = fst ` set ?n"
    using mset_eq_setD [OF assms] by (simp add: collect_totals_keys)
  have "map_of ?m k = map_of ?n k" for k
  proof (cases "k \<in> fst ` set ?m")
    case True
    then have "map_of ?m k \<noteq> None" "map_of ?n k \<noteq> None" using keys by (simp_all add: map_of_eq_None_iff)
    then show ?thesis using total [of k] by (auto simp: total_of_def)
  next
    case False
    then have "map_of ?m k = None" "map_of ?n k = None" using keys by (simp_all add: map_of_eq_None_iff)
    then show ?thesis by simp
  qed
  then show ?thesis by (auto simp: same_map_def collect_totals_distinct)
qed

text \<open>The bucket of a plan row, with its quantity when the row is current.\<close>

definition bucket_row ::
  "reservation_spec \<Rightarrow> reservation_plans \<Rightarrow> format \<Rightarrow> images \<Rightarrow> string \<times> row
    \<Rightarrow> (string \<times> bucket \<times> int option) result" where
  "bucket_row res plans format images = (\<lambda>(i, row).
     and_then (relationRef images row (plScope plans) (rvObligationEntity res)) (\<lambda>scope.
     and_then (relationRef images row (rsField (plLogicalItem plans)) (rsTarget (plLogicalItem plans)))
       (\<lambda>logical.
     and_then (need (shareValue (cell row (plShare plans))) reservation_invalid) (\<lambda>share.
       let key = \<lparr>bkScope = scope, bkLogical = logical, bkShare = share\<rparr> in
       and_then (matches (plCurrentWhen plans) images row i
           \<lparr>skipEmptyLeft = False, allowEmptyRight = True\<rparr>) (\<lambda>current.
         if \<not> current then Inr (i, key, None)
         else and_then (Parse format (cell row (plQuantity plans))) (\<lambda>quantity.
           Inr (i, key, Some quantity)))))))"

definition bucket_add :: "plan_index \<Rightarrow> string \<times> bucket \<times> int option \<Rightarrow> plan_index" where
  "bucket_add px = (\<lambda>(i, key, q).
     \<lparr>pxItems = (i, key) # pxItems px,
      pxCurrent = (case q of None \<Rightarrow> pxCurrent px | Some n \<Rightarrow> add_total (pxCurrent px) key n)\<rparr>)"

lemma bucket_step_row:
  "bucket_step res plans format images px x =
     and_then (bucket_row res plans format images x) (\<lambda>c. Inr (bucket_add px c))"
proof (cases x)
  case (Pair i row)
  show ?thesis
    unfolding Pair bucket_step_def bucket_row_def Let_def and_then_assoc and_then_if prod.case
    by (intro and_then_cong if_cong refl) (simp_all add: bucket_add_def)
qed

lemma fold_result_pure: "fold_result (\<lambda>s x. Inr (h s x)) s xs = Inr (foldl h s xs)"
  by (induction xs arbitrary: s) simp_all

lemma bucket_adds:
  "foldl bucket_add px cs =
     \<lparr>pxItems = rev (map (\<lambda>(i, key, _). (i, key)) cs) @ pxItems px,
      pxCurrent = collect_totals (\<lambda>(_, _, q). q \<noteq> None) (\<lambda>(_, key, _). key) (\<lambda>(_, _, q). the q) (pxCurrent px) cs\<rparr>"
proof (induction cs arbitrary: px)
  case Nil
  then show ?case by (simp add: collect_totals_def)
next
  case (Cons c cs)
  then show ?case by (cases c) (auto simp: bucket_add_def collect_totals_def split: option.split)
qed

lemma bucket_fold:
  "fold_result (bucket_step res plans format images) px rows = Inr px' \<longleftrightarrow>
     (\<exists>cs. map_result (bucket_row res plans format images) rows = Inr cs \<and> px' = foldl bucket_add px cs)"
  unfolding bucket_step_row [abs_def] fold_result_map fold_result_pure by auto

definition same_index :: "plan_index \<Rightarrow> plan_index \<Rightarrow> bool" where
  "same_index px px' \<longleftrightarrow> map_of (pxItems px) = map_of (pxItems px') \<and> same_map (pxCurrent px) (pxCurrent px')"

lemma same_buckets:
  assumes "mset cs = mset ds" "distinct (map fst cs)"
  shows "same_index (foldl bucket_add \<lparr>pxItems = [], pxCurrent = []\<rparr> cs) (foldl bucket_add \<lparr>pxItems = [], pxCurrent = []\<rparr> ds)"
proof -
  let ?f = "\<lambda>(i, key, _). (i, key)"
  have fst: "fst \<circ> ?f = fst" for f by auto
  have dist: "distinct (map fst ds)" using assms by (metis mset_eq_imp_distinct_iff mset_map)
  have m: "mset (rev (map ?f cs)) = mset (rev (map ?f ds))" by (simp add: assms(1))
  have "map_of (rev (map ?f cs)) = map_of (rev (map ?f ds))"
    using assms(2) dist mset_eq_setD [OF m] by (intro map_of_inject_set [THEN iffD2]) (simp_all add: rev_map [symmetric] fst)
  then show ?thesis
    unfolding same_index_def bucket_adds by (simp add: collect_totals_same [OF assms(1)])
qed


lemma dep_reservation:
  assumes "set (rule_dependencies r) \<subseteq> P" "ruReservation r = Some res"
  shows "set (reservation_dependencies (ruEntity r) res) \<subseteq> P"
    and "\<And>s step. (s, step) \<in> set (reservation_steps (ruEntity r) res) \<Longrightarrow> (s, rsField step) \<in> P \<and> rsTarget step \<in> fst ` P"
proof -
  have "set (reservation_dependencies (ruEntity r) res) \<subseteq> set (rule_dependencies r)"
    unfolding rule_dependencies_def assms(2) by simp blast
  with assms(1) show "set (reservation_dependencies (ruEntity r) res) \<subseteq> P" by (rule subset_trans [rotated])
  show "(s, rsField step) \<in> P \<and> rsTarget step \<in> fst ` P"
    if "(s, step) \<in> set (reservation_steps (ruEntity r) res)" for s step
  proof -
    have "(s, step) \<in> set (relationSteps r)"
      using that unfolding relationSteps_def set_append assms(2) option.case by blast
    then show ?thesis by (intro conjI dep_step [OF assms(1)])
  qed
qed

text \<open>What the frames of a reservation need of the pairs \<open>P\<close>.\<close>

lemma dep_plans:
  assumes "set (rule_dependencies r) \<subseteq> P" "ruReservation r = Some res" "rvPlans res = Some p"
  shows "(plEntity p, plScope p) \<in> P" "rvObligationEntity res \<in> fst ` P"
    and "(plEntity p, rsField (plLogicalItem p)) \<in> P" "rsTarget (plLogicalItem p) \<in> fst ` P"
    and "(plEntity p, plShare p) \<in> P" "(plEntity p, plQuantity p) \<in> P" "plEntity p \<in> fst ` P"
    and "steps_in P (plEntity p) (elems (pmLeft (plCurrentWhen p)))"
    and "steps_in P (plEntity p) (elems (pmRight (plCurrentWhen p)))"
proof -
  note deps = dep_reservation [OF assms(1,2)]
  note pairs = deps(1) [unfolded reservation_dependencies_def assms(3) option.case]
  show "(plEntity p, plScope p) \<in> P" "(plEntity p, rsField (plLogicalItem p)) \<in> P"
    "(plEntity p, plShare p) \<in> P" and q: "(plEntity p, plQuantity p) \<in> P" using pairs by simp_all
  show "plEntity p \<in> fst ` P" by (rule image_eqI [OF _ q]) simp
  show "rvObligationEntity res \<in> fst ` P" by (rule image_eqI [where x = "(rvObligationEntity res, rvObligationQuantity res)"]) (use pairs in simp_all)
  show "rsTarget (plLogicalItem p) \<in> fst ` P" by (rule image_eqI [where x = "(rsTarget (plLogicalItem p), [])"]) (use pairs in simp_all)
  have steps: "(s, rsField step) \<in> P \<and> rsTarget step \<in> fst ` P"
    if "(s, step) \<in> set (match_steps (plEntity p) (plCurrentWhen p))" for s step
    by (rule deps(2), unfold reservation_steps_def assms(3) option.case set_append) (use that in simp)
  show "steps_in P (plEntity p) (elems (pmLeft (plCurrentWhen p)))" "steps_in P (plEntity p) (elems (pmRight (plCurrentWhen p)))"
    unfolding steps_in_def by (auto dest: steps [unfolded match_steps_def set_append Un_iff, OF disjI1] steps [unfolded match_steps_def set_append Un_iff, OF disjI2])
qed

lemma same_bucket_row:
  assumes "same_on P im im'" "set (rule_dependencies r) \<subseteq> P" "ruReservation r = Some res" "rvPlans res = Some p"
    and row: "same_row P (plEntity p) row row'"
  shows "bucket_row res p format im (i, row) = bucket_row res p format im' (i, row')"
proof -
  note dep = dep_plans [OF assms(2-4)]
  show ?thesis
    unfolding bucket_row_def prod.case
    by (simp only: same_relationRef [OF assms(1) row dep(1,2)] same_relationRef [OF assms(1) row dep(3,4)]
        same_cell [OF row dep(5)] same_cell [OF row dep(6)] same_matches [OF assms(1) row dep(8,9)])
qed

lemma same_planBuckets:
  assumes "same_on P im im'" "set (rule_dependencies r) \<subseteq> P" "ruReservation r = Some res"
    and formats: "\<And>p. rvPlans res = Some p \<Longrightarrow> format_at formats (plEntity p) (plQuantity p) = format_at formats' (plEntity p) (plQuantity p)"
    and px: "planBuckets res formats im = Inr px"
  obtains px' where "planBuckets res formats' im' = Inr px'" "same_index px px'"
proof (cases "rvPlans res")
  case None
  then have "px = \<lparr>pxItems = [], pxCurrent = []\<rparr>" using px by (simp add: planBuckets_def)
  with None show thesis by (intro that [of px]) (simp_all add: planBuckets_def same_index_def same_map_def)
next
  case (Some p)
  let ?f = "format_at formats (plEntity p) (plQuantity p)" and ?e = "plEntity p"
  have rows: "same_rows P ?e (rows_of im ?e) (rows_of im' ?e)"
    using assms(1) dep_plans(7) [OF assms(2,3) Some] unfolding same_on_def by blast
  obtain cs where cs: "map_result (bucket_row res p ?f im) (rows_of im ?e) = Inr cs"
    and px: "px = foldl bucket_add \<lparr>pxItems = [], pxCurrent = []\<rparr> cs"
    using px by (auto simp: planBuckets_def Some bucket_fold)
  obtain ds where ds: "map_result (bucket_row res p ?f im') (rows_of im' ?e) = Inr ds" "mset ds = mset cs"
    by (rule map_result_same [OF rows same_bucket_row [OF assms(1-3) Some] cs])
  have keys: "fst y = fst x" if "bucket_row res p ?f im x = Inr y" for x y
    using that by (cases x) (auto simp: bucket_row_def Let_def result_simps split: if_split_asm)
  have "map fst cs = map fst (rows_of im ?e)"
    using cs unfolding map_result_ok by (induction rule: list_all2_induct) (simp_all add: keys)
  then have "distinct (map fst cs)" using rows by (simp add: same_rows_def)
  with ds(2) have "same_index px (foldl bucket_add \<lparr>pxItems = [], pxCurrent = []\<rparr> ds)"
    unfolding px by (intro same_buckets) simp_all
  moreover have "planBuckets res formats' im' = Inr (foldl bucket_add \<lparr>pxItems = [], pxCurrent = []\<rparr> ds)"
    using ds(1) formats [OF Some] by (auto simp: planBuckets_def Some bucket_fold)
  ultimately show thesis using that by blast
qed


section \<open>The ledger\<close>

lemma same_field_at:
  assumes "same_on P im im'" "(e, f) \<in> P"
  shows "field_at im e i f = field_at im' e i f"
proof -
  have "e \<in> fst ` P" by (rule image_eqI [OF _ assms(2)]) simp
  from same_row_at [OF assms(1) this, of i] show ?thesis
    by (cases rule: option.rel_cases) (simp_all add: field_at_def same_cell [OF _ assms(2)])
qed

lemma path_end_last: "path \<noteq> [] \<Longrightarrow> path_end e path = rsTarget (last path)"
  by (induction path arbitrary: e) simp_all

lemma same_item_bucket: "same_index px px' \<Longrightarrow> item_bucket px item = item_bucket px' item"
  by (simp add: same_index_def item_bucket_def)

lemma mset_same_map:
  assumes "mset ys = mset xs" "distinct (map fst xs)"
  shows "same_map xs ys"
proof -
  have dist: "distinct (map fst ys)" using assms by (metis mset_eq_imp_distinct_iff mset_map)
  then have "map_of xs = map_of ys"
    using assms mset_eq_setD [OF assms(1)] by (intro map_of_inject_set [THEN iffD2]) simp_all
  with dist assms(2) show ?thesis by (simp add: same_map_def)
qed

lemma same_classify_row:
  assumes "same_on P im im'" "set (rule_dependencies r) \<subseteq> P" "ruReservation r = Some res"
    and "elems (frPath (rvPurpose res)) \<noteq> []" "same_index px px'"
    and row: "same_row P (ruEntity r) row row'"
  shows "classify_row r res format im px (i, row) = classify_row r res format im' px' (i, row')"
proof -
  let ?e = "ruEntity r"
  note deps = dep_reservation [OF assms(2,3)]
  note pairs = deps(1) [unfolded reservation_dependencies_def]
  have e: "?e \<in> fst ` P" by (rule image_eqI [where x = "(?e, rvScope res)"]) (use pairs in simp_all)
  have phase: "steps_in P ?e (elems (phPath (rvPhase res)))" and purpose: "steps_in P ?e (elems (frPath (rvPurpose res)))"
    unfolding steps_in_def by (auto intro!: deps(2) [THEN conjunct1] deps(2) [THEN conjunct2] simp: reservation_steps_def)
  have f1: "field_at im (phase_entity r res) j (phField (rvPhase res)) = field_at im' (phase_entity r res) j (phField (rvPhase res))" for j
    by (rule same_field_at [OF assms(1)]) (use pairs in \<open>simp add: phase_entity_def\<close>)
  have f2: "field_at im (rsTarget (last (elems (frPath (rvPurpose res))))) j (frField (rvPurpose res))
      = field_at im' (rsTarget (last (elems (frPath (rvPurpose res))))) j (frField (rvPurpose res))" for j
    by (rule same_field_at [OF assms(1)]) (use pairs in \<open>simp add: path_end_last [OF assms(4)]\<close>)
  have qty: "cell row (rvQuantity res) = cell row' (rvQuantity res)" by (rule same_cell [OF row]) (use pairs in simp)
  have ob: "rvObligationEntity res \<in> fst ` P"
    by (rule image_eqI [where x = "(rvObligationEntity res, rvObligationQuantity res)"]) (use pairs in simp_all)
  have scope: "relationRef im row (rvScope res) (rvObligationEntity res) = relationRef im' row' (rvScope res) (rvObligationEntity res)"
    by (rule same_relationRef [OF assms(1) row _ ob]) (use pairs in simp)
  have item: "plan_item_of res im px s row = plan_item_of res im' px' s row'" for s
  proof (cases "rvPlans res")
    case None
    then show ?thesis by (simp add: plan_item_of_def)
  next
    case (Some p)
    have "optionalRef im row (rvPlanItem res) (plEntity p) = optionalRef im' row' (rvPlanItem res) (plEntity p)"
      by (rule same_optionalRef [OF assms(1) row _ dep_plans(7) [OF assms(2,3) Some]]) (use pairs in simp)
    then show ?thesis by (simp add: plan_item_of_def Some same_item_bucket [OF assms(5)])
  qed
  have own: "own_ref r im row f = own_ref r im' row' f" if "f \<in> {rvInstructionSource res, rvTransferredFrom res}" for f
  proof -
    have "(?e, f) \<in> P" using that pairs by auto
    from same_optionalRef [OF assms(1) row this e] show ?thesis by (simp add: own_ref_def)
  qed
  show ?thesis
    unfolding classify_row_def prod.case
    by (simp only: same_resolvePath [OF assms(1) row phase] same_resolvePath [OF assms(1) row purpose]
        f1 f2 qty scope item own [OF insertI1] own [OF insertI2 [OF singletonI]])
qed

lemma same_ledger:
  assumes "same_on P im im'" "set (rule_dependencies r) \<subseteq> P" "ruReservation r = Some res"
    and path: "elems (frPath (rvPurpose res)) \<noteq> []"
    and format: "format_at formats (ruEntity r) (rvQuantity res) = format_at formats' (ruEntity r) (rvQuantity res)"
    and formats: "\<And>p. rvPlans res = Some p \<Longrightarrow> format_at formats (plEntity p) (plQuantity p) = format_at formats' (plEntity p) (plQuantity p)"
    and ledger: "reservation_ledger r formats im = Inr (px, rows)"
  obtains px' rows' where "reservation_ledger r formats' im' = Inr (px', rows')" "same_index px px'" "same_map rows rows'"
proof -
  let ?f = "format_at formats (ruEntity r) (rvQuantity res)"
  have px: "planBuckets res formats im = Inr px" and rows: "classify r res ?f im px = Inr rows"
    using ledger assms(3) by (auto simp: reservation_ledger_def result_simps simp del: map_result_ok)
  obtain px' where px': "planBuckets res formats' im' = Inr px'" "same_index px px'"
    by (rule same_planBuckets [OF assms(1-3) formats px])
  note same = same_entity [OF assms(1,2)]
  obtain rows' where rows': "classify r res ?f im' px' = Inr rows'" "mset rows' = mset rows"
    by (rule map_result_same [OF same same_classify_row [OF assms(1-3) path px'(2)] rows [unfolded classify_def], folded classify_def])
  have "distinct (map fst rows)"
    using classify_sound(2) [OF rows] same by (simp add: same_rows_def)
  with rows'(2) have "same_map rows rows'" by (rule mset_same_map)
  moreover have "reservation_ledger r formats' im' = Inr (px', rows')"
    using px'(1) rows'(1) format by (simp add: reservation_ledger_def assms(3))
  ultimately show thesis using px'(2) that by blast
qed


section \<open>The checks\<close>

lemma same_consumed: "same_map rows rows' \<Longrightarrow> same_map (consumed rows) (consumed rows')"
  unfolding consumed_def by (intro collect_totals_same same_map_mset)

lemma same_history:
  assumes "same_index px0 px0'" "same_index px px'" "same_map rows rows'"
  shows "history_step px0 px rows = history_step px0' px' rows'"
  unfolding history_step_def same_map_of [OF assms(3)] same_item_bucket [OF assms(1)] same_item_bucket [OF assms(2)] ..

lemma same_reference: "same_map rows rows' \<Longrightarrow> reference_step rows = reference_step rows'"
  unfolding reference_step_def by (drule same_map_of) (simp only:)

lemma same_exhausted: "same_map c c' \<Longrightarrow> exhausted_step c = exhausted_step c'"
  by (simp add: exhausted_step_def same_totals [of c c'])

lemma same_released: "same_map b b' \<Longrightarrow> same_map c c' \<Longrightarrow> released_step b c = released_step b' c'"
  by (simp add: released_step_def same_totals [of b b'] same_totals [of c c'])

lemma same_admission:
  assumes "same_on P im im'" "(phase_entity r res, phField (rvPhase res)) \<in> P"
    and "same_map rows0 rows0'" "same_map rows rows'"
  shows "admission_step r res im rows0 rows x = admission_step r res im' rows0' rows' x"
proof -
  have e: "phase_entity r res \<in> fst ` P" by (rule image_eqI [OF _ assms(2)]) simp
  have owner: "(case row_at im (phase_entity r res) own of None \<Rightarrow> Inr ()
      | Some owner \<Rightarrow> look (cell owner (phField (rvPhase res))))
    = (case row_at im' (phase_entity r res) own of None \<Rightarrow> Inr ()
      | Some owner \<Rightarrow> look (cell owner (phField (rvPhase res))))" for own and look :: "go_any \<Rightarrow> unit result"
    using same_row_at [OF assms(1) e, of own] by (cases rule: option.rel_cases) (simp_all add: same_cell [OF _ assms(2)])
  show ?thesis
    unfolding admission_step_def same_map_of [OF assms(3)] same_map_of [OF assms(4)]
    unfolding owner [where look = "\<lambda>v. let phase = (case go_string v of None \<Rightarrow> [] | Some s \<Rightarrow> s) in
             check (phase = phInstructionOpen (rvPhase res)
                 \<or> phase = phInstructionDraft (rvPhase res) \<and> s) reservation_invalid" for s] ..
qed

lemma same_chain: "same_map rows rows' \<Longrightarrow> chain_step rows visited i = chain_step rows' visited i"
proof (induction rows visited i rule: chain_step.induct)
  case (1 rows visited i)
  show ?case
    using "1.IH" "1.prems"
    by (subst (1 2) chain_step.simps) (simp add: same_map_of [OF "1.prems"] split: option.split)
qed

lemma same_carriers: "same_map rows rows' \<Longrightarrow> mset (carriers rows i) = mset (carriers rows' i)"
  by (simp add: carriers_def same_map_mset)

lemma same_settled:
  assumes "same_map rows0 rows0'" "same_map rows rows'" "same_map c c'"
  shows "settled_step b rows0 rows c x = settled_step b rows0' rows' c' x"
proof -
  have m: "mset (carriers rows i) = mset (carriers rows' i)" for i by (rule same_carriers [OF assms(2)])
  have nil: "carriers rows i = [] \<longleftrightarrow> carriers rows' i = []" for i
    using m [of i] by (metis mset_zero_iff)
  have single: "(case carriers rows i of [j] \<Rightarrow> f j | _ \<Rightarrow> Inl transfer_invalid)
      = (case carriers rows' i of [j] \<Rightarrow> f j | _ \<Rightarrow> Inl transfer_invalid)" for i and f :: "string \<Rightarrow> unit result"
  proof (cases "\<exists>j. carriers rows i = [j]")
    case True
    then obtain j where "carriers rows i = [j]" ..
    moreover from this m [of i] have "carriers rows' i = [j]" by simp
    ultimately show ?thesis by simp
  next
    case False
    then have "\<nexists>j. carriers rows' i = [j]" using m [of i] by (metis mset_single_iff_right)
    with False show ?thesis by (auto split: list.split)
  qed
  show ?thesis
    unfolding settled_step_def same_map_of [OF assms(1)] same_map_of [OF assms(2)] same_totals [OF assms(3)] nil single ..
qed

lemma same_transfers:
  assumes "same_map rows0 rows0'" "same_map rows rows'" "same_map c c'"
  shows "check_transfers res b rows0 rows c = Inr () \<longleftrightarrow> check_transfers res b rows0' rows' c' = Inr ()"
proof -
  have len: "length (carriers rows i) = length (carriers rows' i)" for i
    using same_carriers [OF assms(2)] by (metis size_mset)
  have carrier: "carrier_step rows = carrier_step rows'"
    unfolding carrier_step_def same_map_of [OF assms(2)] ..
  note steps = same_map_check [OF assms(2)]
  show ?thesis
    unfolding check_transfers_def
    by (simp add: and_then_unit carrier len same_chain [OF assms(2)] ext [OF same_settled [OF assms]] steps split_beta)
qed


section \<open>Capacity\<close>

text \<open>The totals that the loop over the ledger collects, and when it returns.\<close>

definition usage_of :: "reservation_spec \<Rightarrow> plan_index \<Rightarrow> reservation_rows \<Rightarrow> (string \<times> int) list \<Rightarrow> usage" where
  "usage_of res px rows c =
     (let b = (\<lambda>(_, row). bucket_of px rows row); rest = (\<lambda>(_, row). rrQuantity row - total_of c (rrID row)) in
      \<lparr>usExecuted = collect_totals (\<lambda>x. delivering (snd x) \<and> b x \<noteq> None) (\<lambda>x. the (b x)) (\<lambda>x. rrQuantity (snd x)) [] rows,
       usOpen = collect_totals (\<lambda>x. promising res (snd x) \<and> b x \<noteq> None) (\<lambda>x. the (b x)) rest [] rows,
       usDirect = collect_totals (\<lambda>x. delivering (snd x) \<and> b x = None) (\<lambda>x. rrScope (snd x)) (\<lambda>x. rrQuantity (snd x)) [] rows,
       usDirectOpen = collect_totals (\<lambda>x. promising res (snd x) \<and> b x = None) (\<lambda>x. rrScope (snd x)) rest [] rows\<rparr>)"

definition covered_rows :: "reservation_spec \<Rightarrow> reservation_rows \<Rightarrow> (string \<times> int) list \<Rightarrow> bool" where
  "covered_rows res rows c \<longleftrightarrow>
     list_all (\<lambda>(_, row). promising res row \<longrightarrow> total_of c (rrID row) \<le> rrQuantity row) rows"

lemma collect_totals_Cons:
  "collect_totals P key q m (x # xs) = collect_totals P key q (if P x then add_total m (key x) (q x) else m) xs"
  by (simp add: collect_totals_def)

lemma collect_totals_nil [simp]: "collect_totals P key q m [] = m"
  by (simp add: collect_totals_def)

lemma usage_step_result:
  "usage_step res px rows c u (i, row) =
     (if promising res row \<and> rrQuantity row < total_of c (rrID row) then Inl (failure ''reservation_exhausted'')
      else Inr (case bucket_of px rows row of
        Some key \<Rightarrow> u\<lparr>usExecuted := (if delivering row then add_total (usExecuted u) key (rrQuantity row) else usExecuted u),
          usOpen := (if promising res row then add_total (usOpen u) key (rrQuantity row - total_of c (rrID row)) else usOpen u)\<rparr>
      | None \<Rightarrow> u\<lparr>usDirect := (if delivering row then add_total (usDirect u) (rrScope row) (rrQuantity row) else usDirect u),
          usDirectOpen := (if promising res row then add_total (usDirectOpen u) (rrScope row) (rrQuantity row - total_of c (rrID row))
            else usDirectOpen u)\<rparr>))"
  by (cases "rrRole row") (auto simp: usage_step_def delivering_def promising_def confirmed_actual_def Let_def split: option.split)

lemma usage_fold:
  "fold_result (usage_step res px rows c) u xs = Inr u' \<longleftrightarrow>
     list_all (\<lambda>(_, row). promising res row \<longrightarrow> total_of c (rrID row) \<le> rrQuantity row) xs
     \<and> (let b = (\<lambda>(_, row). bucket_of px rows row); rest = (\<lambda>(_, row). rrQuantity row - total_of c (rrID row)) in
      u' = \<lparr>usExecuted = collect_totals (\<lambda>x. delivering (snd x) \<and> b x \<noteq> None) (\<lambda>x. the (b x)) (\<lambda>x. rrQuantity (snd x)) (usExecuted u) xs,
       usOpen = collect_totals (\<lambda>x. promising res (snd x) \<and> b x \<noteq> None) (\<lambda>x. the (b x)) rest (usOpen u) xs,
       usDirect = collect_totals (\<lambda>x. delivering (snd x) \<and> b x = None) (\<lambda>x. rrScope (snd x)) (\<lambda>x. rrQuantity (snd x)) (usDirect u) xs,
       usDirectOpen = collect_totals (\<lambda>x. promising res (snd x) \<and> b x = None) (\<lambda>x. rrScope (snd x)) rest (usDirectOpen u) xs\<rparr>)"
proof (induction xs arbitrary: u)
  case Nil
  then show ?case by (auto simp: Let_def)
next
  case (Cons x xs)
  obtain i row where x: "x = (i, row)" by force
  show ?case
  proof (cases "promising res row \<and> rrQuantity row < total_of c (rrID row)")
    case True
    then show ?thesis by (simp add: x usage_step_result)
  next
    case False
    then show ?thesis
      by (cases "bucket_of px rows row") (auto simp: x usage_step_result Cons.IH Let_def collect_totals_Cons)
  qed
qed

lemma usage_fold_of:
  "fold_result (usage_step res px rows c) \<lparr>usExecuted = [], usOpen = [], usDirect = [], usDirectOpen = []\<rparr> rows = Inr u
     \<longleftrightarrow> covered_rows res rows c \<and> u = usage_of res px rows c"
  by (simp add: usage_fold covered_rows_def usage_of_def Let_def)

lemma plan_fold_returns:
  "(\<exists>m'. fold_result (plan_step u) m xs = Inr m') \<longleftrightarrow> list_all (\<lambda>(k, planned). used_of u k \<le> planned) xs"
  by (induction xs arbitrary: m) (simp_all add: plan_step_def check_def split_beta)

lemma unplanned_fold_returns:
  "(\<exists>m'. fold_result (unplanned_step px u) m ks = Inr m') \<longleftrightarrow>
     list_all (\<lambda>k. map_of (pxCurrent px) k = None \<longrightarrow> total_of (usExecuted u) k \<le> 0) ks"
  by (induction ks arbitrary: m) (simp_all add: unplanned_step_def check_def)

text \<open>What the obligations are charged with.\<close>

definition occupied_total :: "plan_index \<Rightarrow> usage \<Rightarrow> string \<Rightarrow> int" where
  "occupied_total px u ob = mass (\<lambda>k. bkScope k = ob) (pxCurrent px)
     + (\<Sum>k | k \<in> fst ` set (usExecuted u) \<union> fst ` set (usOpen u) \<and> map_of (pxCurrent px) k = None \<and> bkScope k = ob.
          used_of u k)
     + mass (\<lambda>s. s = ob) (usDirect u) + mass (\<lambda>s. s = ob) (usDirectOpen u)"

definition within_plans :: "plan_index \<Rightarrow> usage \<Rightarrow> bool" where
  "within_plans px u \<longleftrightarrow> list_all (\<lambda>(k, planned). used_of u k \<le> planned) (pxCurrent px)
     \<and> (\<forall>k \<in> fst ` set (usExecuted u) \<union> fst ` set (usOpen u).
          map_of (pxCurrent px) k = None \<longrightarrow> total_of (usExecuted u) k \<le> 0)"

lemma check_capacity_ok:
  "check_capacity res format im px rows c = Inr () \<longleftrightarrow>
     covered_rows res rows c \<and> within_plans px (usage_of res px rows c)
     \<and> check_all (\<lambda>(i, row). and_then (Parse format (cell row (rvObligationQuantity res))) (\<lambda>limit.
          check (occupied_total px (usage_of res px rows c) i \<le> limit) (failure ''reservation_exceeded'')))
        (rows_of im (rvObligationEntity res)) = Inr ()"
proof -
  let ?u = "usage_of res px rows c"
  let ?ks = "remdups (map fst (usExecuted ?u) @ map fst (usOpen ?u))"
  have total: "total_of (occupy_all (occupy_all m' (usDirect ?u)) (usDirectOpen ?u)) ob = occupied_total px ?u ob"
    if "fold_result (plan_step ?u) [] (pxCurrent px) = Inr m" "fold_result (unplanned_step px ?u) m ?ks = Inr m'" for m m' ob
    using plan_fold_ok [OF that(1), of ob] unplanned_fold_ok [OF that(2) distinct_remdups, of ob]
    by (simp add: total_occupy_all occupied_total_def)
  have plans: "within_plans px ?u \<longleftrightarrow> (\<exists>m m'. fold_result (plan_step ?u) [] (pxCurrent px) = Inr m
      \<and> fold_result (unplanned_step px ?u) m ?ks = Inr m')"
    using plan_fold_returns [of ?u "[]" "pxCurrent px"] unplanned_fold_returns [of px ?u _ ?ks]
    by (auto simp: within_plans_def list_all_iff)
  show ?thesis
    unfolding check_capacity_def and_then_ok usage_fold_of Let_def plans
    using total by (auto simp del: fold_result.simps)
qed


lemma same_mass: "same_map m n \<Longrightarrow> mass P m = mass P n"
  unfolding mass_def by (rule same_map_sum)

lemma same_usage:
  assumes "same_index px px'" "same_map rows rows'" "same_map c c'"
  shows "same_map (usExecuted (usage_of res px rows c)) (usExecuted (usage_of res px' rows' c'))"
    and "same_map (usOpen (usage_of res px rows c)) (usOpen (usage_of res px' rows' c'))"
    and "same_map (usDirect (usage_of res px rows c)) (usDirect (usage_of res px' rows' c'))"
    and "same_map (usDirectOpen (usage_of res px rows c)) (usDirectOpen (usage_of res px' rows' c'))"
proof -
  have "bucket_of px rows = bucket_of px' rows'"
    using assms(1,2) by (simp add: fun_eq_iff bucket_of_def same_index_def same_map_of Let_def)
  moreover have "total_of c = total_of c'" by (rule ext) (rule same_totals [OF assms(3)])
  ultimately show "same_map (usExecuted (usage_of res px rows c)) (usExecuted (usage_of res px' rows' c'))"
    "same_map (usOpen (usage_of res px rows c)) (usOpen (usage_of res px' rows' c'))"
    "same_map (usDirect (usage_of res px rows c)) (usDirect (usage_of res px' rows' c'))"
    "same_map (usDirectOpen (usage_of res px rows c)) (usDirectOpen (usage_of res px' rows' c'))"
    by (simp_all add: usage_of_def Let_def collect_totals_same [OF same_map_mset [OF assms(2)]])
qed

lemma same_capacity:
  assumes "same_on P im im'" "set (rule_dependencies r) \<subseteq> P" "ruReservation r = Some res"
    and same: "same_index px px'" "same_map rows rows'" "same_map c c'"
  shows "check_capacity res format im px rows c = Inr () \<longleftrightarrow> check_capacity res format im' px' rows' c' = Inr ()"
proof -
  let ?u = "usage_of res px rows c" and ?v = "usage_of res px' rows' c'"
  note usage = same_usage [OF same, of res]
  have cur: "same_map (pxCurrent px) (pxCurrent px')" using same(1) by (simp add: same_index_def)
  have used: "used_of ?u = used_of ?v"
    by (rule ext) (simp add: used_of_def same_totals [OF usage(1)] same_totals [OF usage(2)])
  have plans: "within_plans px ?u \<longleftrightarrow> within_plans px' ?v"
    unfolding within_plans_def used same_map_all [OF cur] same_map_keys [OF usage(1)] same_map_keys [OF usage(2)]
      same_map_of [OF cur] same_totals [OF usage(1)] ..
  have occupied: "occupied_total px ?u = occupied_total px' ?v"
    unfolding occupied_total_def used same_mass [OF cur] same_mass [OF usage(3)] same_mass [OF usage(4)]
      same_map_keys [OF usage(1)] same_map_keys [OF usage(2)] same_map_of [OF cur] ..
  have covered: "covered_rows res rows c \<longleftrightarrow> covered_rows res rows' c'"
    unfolding covered_rows_def same_totals [OF same(3)] same_map_all [OF same(2)] ..
  have ob: "(rvObligationEntity res, rvObligationQuantity res) \<in> P"
    using dep_reservation(1) [OF assms(2,3)] by (simp add: reservation_dependencies_def)
  have rows: "same_rows P (rvObligationEntity res) (rows_of im (rvObligationEntity res)) (rows_of im' (rvObligationEntity res))"
    using assms(1) ob unfolding same_on_def by force
  have "check_all (\<lambda>(i, row). and_then (Parse format (cell row (rvObligationQuantity res))) (\<lambda>limit.
          check (occupied_total px' ?v i \<le> limit) (failure ''reservation_exceeded''))) (rows_of im (rvObligationEntity res)) = Inr ()
      \<longleftrightarrow> check_all (\<lambda>(i, row). and_then (Parse format (cell row (rvObligationQuantity res))) (\<lambda>limit.
          check (occupied_total px' ?v i \<le> limit) (failure ''reservation_exceeded''))) (rows_of im' (rvObligationEntity res)) = Inr ()"
    by (rule check_all_same [OF rows]) (simp add: same_cell [OF _ ob])
  then show ?thesis
    unfolding check_capacity_ok plans covered occupied by blast
qed

lemma same_Reservation:
  assumes before: "same_on P (image_of before) (image_of before')" "before = None \<longleftrightarrow> before' = None"
    and after: "same_on P im im'" and deps: "set (rule_dependencies r) \<subseteq> P" "ruReservation r = Some res"
    and path: "elems (frPath (rvPurpose res)) \<noteq> []"
    and format: "format_at formats (ruEntity r) (rvQuantity res) = format_at formats' (ruEntity r) (rvQuantity res)"
    and formats: "\<And>p. rvPlans res = Some p \<Longrightarrow> format_at formats (plEntity p) (plQuantity p) = format_at formats' (plEntity p) (plQuantity p)"
    and ok: "validateReservation r formats before im = Inr ()"
  shows "validateReservation r formats' before' im' = Inr ()"
proof -
  obtain px0 rows0 px rows where led0: "reservation_ledger r formats (image_of before) = Inr (px0, rows0)"
    and led: "reservation_ledger r formats im = Inr (px, rows)"
    and checks: "list_all (\<lambda>(_, row). rrRole row = Instruction \<longrightarrow> rrInstruction row = []) rows"
      "list_all (\<lambda>x. history_step px0 px rows x = Inr ()) rows0"
      "list_all (\<lambda>x. reference_step rows x = Inr ()) rows"
      "list_all (\<lambda>x. exhausted_step (consumed rows) x = Inr ()) rows"
      "list_all (\<lambda>x. released_step (consumed rows0) (consumed rows) x = Inr ()) rows0"
      "list_all (\<lambda>x. admission_step r res (image_of before) rows0 rows x = Inr ()) rows"
      "check_transfers res (before \<noteq> None) rows0 rows (consumed rows) = Inr ()"
      "check_capacity res (format_at formats (ruEntity r) (rvQuantity res)) im px rows (consumed rows) = Inr ()"
    using ok unfolding validateReservation_ok [OF deps(2)] by blast
  obtain px0' rows0' where led0': "reservation_ledger r formats' (image_of before') = Inr (px0', rows0')"
    and px0: "same_index px0 px0'" and rows0: "same_map rows0 rows0'"
    by (rule same_ledger [OF before(1) deps path format formats led0])
  obtain px' rows' where led': "reservation_ledger r formats' im' = Inr (px', rows')"
    and px: "same_index px px'" and rows: "same_map rows rows'"
    by (rule same_ledger [OF after deps path format formats led])
  note c0 = same_consumed [OF rows0] and c = same_consumed [OF rows]
  have phase: "(phase_entity r res, phField (rvPhase res)) \<in> P"
    using dep_reservation(1) [OF deps] by (simp add: reservation_dependencies_def phase_entity_def)
  have b: "(before \<noteq> None) = (before' \<noteq> None)" using before(2) by simp
  show ?thesis
    unfolding validateReservation_ok [OF deps(2)]
  proof (intro exI conjI)
    show "reservation_ledger r formats' (image_of before') = Inr (px0', rows0')" by (rule led0')
    show "reservation_ledger r formats' im' = Inr (px', rows')" by (rule led')
    show "check_capacity res (format_at formats' (ruEntity r) (rvQuantity res)) im' px' rows' (consumed rows') = Inr ()"
      using checks(8) same_capacity [OF after deps px rows c] by (simp add: format)
    show "check_transfers res (before' \<noteq> None) rows0' rows' (consumed rows') = Inr ()"
      using checks(7) unfolding b same_transfers [OF rows0 rows c] .
  qed (use checks in \<open>simp_all add: same_map_all [OF rows] same_map_all [OF rows0] same_history [OF px0 px rows]
      same_reference [OF rows] same_exhausted [OF c] same_released [OF c0 c] same_admission [OF before(1) phase rows0 rows]\<close>)
qed

end
