(* ===== verification/Rule_Enforcement.thy ===== *)
theory Rule_Enforcement
  imports Reservation_Frames
begin

text \<open>
  What the enforcement of rules promises. \<open>Registration.Validate\<close> is a function of the protected
  fields of the two images and of nothing else (\<open>acceptance_framed\<close>): it does not see the order in which Go
  ranges over its maps, nor entities and fields that the declaration does not name. From this follows that
  checking the active guards alone enforces every registration of the history
  (\<open>active_guards_enforce_history\<close>).
\<close>

section \<open>Declared decimals\<close>

lemma field_key_inj:
  assumes "nul \<notin> set e" "nul \<notin> set e'"
  shows "field_key e f = field_key e' f' \<longleftrightarrow> e = e' \<and> f = f'"
  using assms
proof (induction e arbitrary: e')
  case Nil
  then show ?case by (cases e') (auto simp: field_key_def)
next
  case (Cons c e)
  then show ?case by (cases e') (auto simp: field_key_def)
qed

text \<open>A declaration that passed its checks gives every key one decimal.\<close>

definition decimal_pair :: "decimal \<Rightarrow> string \<times> decimal" where
  "decimal_pair d = (field_key (dcEntity d) (dcField d), d)"

lemma decimal_table_ok:
  "decimal_table seen ds = Inr table \<Longrightarrow> distinct (map fst seen) \<Longrightarrow>
     table = rev (map decimal_pair ds) @ seen \<and> distinct (map fst table)"
proof (induction ds arbitrary: seen)
  case (Cons d ds)
  let ?key = "field_key (dcEntity d) (dcField d)"
  have new: "map_of seen ?key = None" and rest: "decimal_table ((?key, d) # seen) ds = Inr table"
    using Cons.prems(1) by (auto simp: Let_def split: if_split_asm)
  have "distinct (map fst ((?key, d) # seen))"
    using new Cons.prems(2) by (simp add: map_of_eq_None_iff)
  note table = Cons.IH [OF rest this]
  have "table = rev (map decimal_pair (d # ds)) @ seen"
    unfolding table [THEN conjunct1] by (simp add: decimal_pair_def)
  with table show ?case by blast
qed simp

lemma declared_decimals:
  assumes "Declaration_Validate d = Inr ()"
  obtains decimals where "decimals = rev (map decimal_pair (elems (dlDecimals d)))" "distinct (map fst decimals)"
    "rules_valid decimals [] (elems (dlRules d))" "list_all (reservation_decimals decimals) (elems (dlRules d))"
  using assms decimal_table_ok [of "[]" "elems (dlDecimals d)"]
  by (auto simp: Declaration_Validate_def and_then_ok check_ok)

lemma declared_decimal_in:
  "map_of (rev (map decimal_pair ds)) key = Some d \<Longrightarrow> d \<in> set ds \<and> key = field_key (dcEntity d) (dcField d)"
  by (drule map_of_SomeD) (auto simp: decimal_pair_def)

lemma formats_of_decimals:
  assumes "map_of (rev (map decimal_pair (elems (dlDecimals decl)))) (field_key e f) = Some d"
    and "distinct (map fst (rev (map decimal_pair (elems (dlDecimals decl)))))"
  shows "format_at (formats_of decl) e f = dcFormat d"
proof -
  have "formats_of decl = map (\<lambda>(k, d). (k, dcFormat d)) (rev (map decimal_pair (elems (dlDecimals decl))))"
    by (simp add: formats_of_def decimal_pair_def rev_map comp_def)
  then have "map_of (formats_of decl) (field_key e f) = Some (dcFormat d)"
    using assms(1) by (simp add: map_of_map)
  then show ?thesis by (simp add: format_at_def)
qed

section \<open>One rule\<close>

text \<open>Two tables of formats agree on the decimals that a declaration has.\<close>

definition same_formats :: "(string \<times> decimal) list \<Rightarrow> (string \<times> format) list \<Rightarrow> (string \<times> format) list \<Rightarrow> bool" where
  "same_formats decimals formats formats' \<longleftrightarrow>
     (\<forall>e f. map_of decimals (field_key e f) \<noteq> None \<longrightarrow> format_at formats e f = format_at formats' e f)"

definition unsigned_quantities :: "rule \<Rightarrow> (string \<times> format) list \<Rightarrow> images \<Rightarrow> bool" where
  "unsigned_quantities r formats im \<longleftrightarrow> (\<forall>spec i row q. ruReversal r = Some spec \<longrightarrow>
     (i, row) \<in> set (rows_of im (ruEntity r)) \<longrightarrow>
     Parse (format_at formats (ruEntity r) (rlQuantity spec)) (cell row (rlQuantity spec)) = Inr q \<longrightarrow> 0 \<le> q)"

lemma same_formatsD:
  "same_formats decimals formats formats' \<Longrightarrow> map_of decimals (field_key e f) \<noteq> None \<Longrightarrow>
     format_at formats e f = format_at formats' e f"
  by (simp add: same_formats_def)

lemma totals_declared:
  assumes "kind_valid decimals r" "ruKind r = ''conservation'' \<or> ruKind r = ''balance''"
  shows "map_of decimals (field_key (ruEntity r) (ruAmount r)) \<noteq> None"
    and "map_of decimals (field_key (ruTarget r) (ruLimit r)) \<noteq> None"
proof -
  have "(case map_of decimals (field_key (ruEntity r) (ruAmount r)) of None \<Rightarrow> False | Some amount \<Rightarrow> \<not> dcNullable amount)
      \<and> (case map_of decimals (field_key (ruTarget r) (ruLimit r)) of None \<Rightarrow> False | Some limit \<Rightarrow> \<not> dcNullable limit)"
    using assms(2) assms(1) by (elim disjE) (simp_all add: kind_valid_def)
  then show "map_of decimals (field_key (ruEntity r) (ruAmount r)) \<noteq> None"
    "map_of decimals (field_key (ruTarget r) (ruLimit r)) \<noteq> None" by (metis option.simps(4))+
qed

lemma framed_totals:
  assumes "same_on P after after'" "set (rule_dependencies r) \<subseteq> P" "kind_valid decimals r"
    and "same_formats decimals formats formats'" "ruKind r = ''conservation'' \<or> ruKind r = ''balance''"
  shows "validateTotals r formats after = Inr () \<longleftrightarrow> validateTotals r formats' after' = Inr ()"
  by (rule same_Totals [OF assms(1-3,5) same_formatsD [OF assms(4) totals_declared(1) [OF assms(3,5)]]
      same_formatsD [OF assms(4) totals_declared(2) [OF assms(3,5)]]])

lemma framed_reversal:
  assumes "same_on P after after'" "set (rule_dependencies r) \<subseteq> P" "kind_valid decimals r"
    and "same_formats decimals formats formats'" "ruKind r = ''reversalBalance''" "unsigned_quantities r formats after"
  shows "validateReversal r formats after = Inr () \<longleftrightarrow> validateReversal r formats' after' = Inr ()"
proof -
  obtain spec where spec: "ruReversal r = Some spec" "reversal_valid spec"
    and qty: "map_of decimals (field_key (ruEntity r) (rlQuantity spec)) \<noteq> None"
    using assms(3) unfolding kind_valid_def Let_def assms(5) by (simp split: option.split_asm)
  then have "elems (rlOwnerPath spec) \<noteq> []" by (auto simp: reversal_valid_def)
  then show ?thesis
    by (rule same_Reversal [OF assms(1,2) spec(1) _ same_formatsD [OF assms(4) qty]])
      (use assms(6) spec(1) in \<open>auto simp: unsigned_quantities_def\<close>)
qed

lemma framed_reservation:
  assumes "same_on P (image_of before) (image_of before')" "before = None \<longleftrightarrow> before' = None"
    and "same_on P after after'" "set (rule_dependencies r) \<subseteq> P" "kind_valid decimals r"
    and "same_formats decimals formats formats'" "ruKind r = ''reservationBalance''" "reservation_decimals decimals r"
    and "validateReservation r formats before after = Inr ()"
  shows "validateReservation r formats' before' after' = Inr ()"
proof -
  obtain res where res: "ruReservation r = Some res" "reservation_valid res"
    using assms(5) unfolding kind_valid_def Let_def assms(7) by (simp split: option.split_asm)
  then have path: "elems (frPath (rvPurpose res)) \<noteq> []" by (auto simp: reservation_valid_def)
  have keys: "list_all (quantity_signed decimals) (quantity_keys r res)"
    using assms(7,8) res(1) by (auto simp: reservation_decimals_def list_all_iff)
  then have plans: "map_of decimals (field_key (plEntity p) (plQuantity p)) \<noteq> None" if "rvPlans res = Some p" for p
    by (auto simp: quantity_keys_def quantity_signed_def that split: option.split_asm)
  from keys have qty: "map_of decimals (field_key (ruEntity r) (rvQuantity res)) \<noteq> None"
    by (auto simp: quantity_keys_def quantity_signed_def split: option.split_asm)
  show ?thesis
    by (rule same_Reservation [OF assms(1-4) res(1) path same_formatsD [OF assms(6) qty] same_formatsD [OF assms(6) plans] assms(9)])
qed

lemma framed_rule:
  assumes before: "same_on P (image_of before) (image_of before')" "before = None \<longleftrightarrow> before' = None"
    and after: "same_on P after after'" and deps: "set (rule_dependencies r) \<subseteq> P"
    and valid: "kind_valid decimals r" "\<not> foreign_fields r" "reservation_decimals decimals r"
    and formats: "same_formats decimals formats formats'" "unsigned_quantities r formats after"
    and ok: "validate_rule marshal formats before after r = Inr ()"
  shows "validate_rule marshal formats' before' after' r = Inr ()"
proof -
  have cases: "ruKind r \<in> {''sameTarget'', ''atMostOne'', ''unique'', ''reference'', ''conservation'', ''balance'', ''state'',
      ''parentFreeze'', ''reservationBalance'', ''reversalBalance''}"
    using valid(1) unfolding kind_valid_def Let_def by (auto split: if_split_asm)
  from cases show ?thesis
  proof (elim insertE emptyE)
    assume k: "ruKind r = ''sameTarget''"
    with ok show ?thesis using same_SameTarget [OF after deps valid(1) k valid(2)] by (simp add: validate_rule_def)
  next
    assume k: "ruKind r = ''atMostOne''"
    with ok show ?thesis using same_AtMostOne [OF after deps] by (simp add: validate_rule_def)
  next
    assume k: "ruKind r = ''unique''"
    with ok show ?thesis using same_Unique [OF after deps, of marshal] by (simp add: validate_rule_def)
  next
    assume k: "ruKind r = ''reference''"
    with ok show ?thesis using same_Reference [OF after deps valid(1) k] by (simp add: validate_rule_def)
  next
    assume k: "ruKind r = ''conservation''"
    with ok show ?thesis using framed_totals [OF after deps valid(1) formats(1)] by (simp add: validate_rule_def)
  next
    assume k: "ruKind r = ''balance''"
    with ok show ?thesis using framed_totals [OF after deps valid(1) formats(1)] by (simp add: validate_rule_def)
  next
    assume k: "ruKind r = ''state''"
    with ok show ?thesis using same_State [OF before(1) after deps] by (simp add: validate_rule_def)
  next
    assume k: "ruKind r = ''parentFreeze''"
    with ok show ?thesis using same_ParentFreeze [OF before(1) after deps k] by (simp add: validate_rule_def)
  next
    assume k: "ruKind r = ''reservationBalance''"
    with ok have "validateReservation r formats before after = Inr ()" by (simp add: validate_rule_def)
    from framed_reservation [OF before after deps valid(1) formats(1) k valid(3) this]
    show ?thesis by (simp add: validate_rule_def k)
  next
    assume k: "ruKind r = ''reversalBalance''"
    with ok show ?thesis using framed_reversal [OF after deps valid(1) formats(1) k formats(2)] by (simp add: validate_rule_def)
  qed
qed


section \<open>A whole declaration\<close>

definition decimals_of :: "rule_declaration \<Rightarrow> (string \<times> decimal) list" where
  "decimals_of d = rev (map decimal_pair (elems (dlDecimals d)))"

lemma declared_rule:
  assumes "Declaration_Validate d = Inr ()" "r \<in> set (elems (dlRules d))"
  shows "kind_valid (decimals_of d) r" "\<not> foreign_fields r" "reservation_decimals (decimals_of d) r"
    and "ruID r \<noteq> []"
proof -
  obtain decimals where d: "decimals = decimals_of d" "rules_valid decimals [] (elems (dlRules d))"
    "list_all (reservation_decimals decimals) (elems (dlRules d))"
    using declared_decimals [OF assms(1)] unfolding decimals_of_def by metis
  have rules: "kind_valid decimals r \<and> \<not> foreign_fields r \<and> ruID r \<noteq> []" if "rules_valid decimals ids rs" "r \<in> set rs" for ids rs
    using that by (induction rs arbitrary: ids) auto
  show "kind_valid (decimals_of d) r" "\<not> foreign_fields r" "ruID r \<noteq> []"
    using rules [OF d(2) assms(2)] by (simp_all add: d(1))
  show "reservation_decimals (decimals_of d) r" using d(3) assms(2) by (simp add: list_all_iff d(1))
qed

text \<open>The names of the entities have no NUL byte, so the keys of two decimals are equal only when the
  entities and the fields are.\<close>

definition plain_entities :: "rule_declaration \<Rightarrow> bool" where
  "plain_entities d = list_all (\<lambda>(entity, _). nul \<notin> set entity) (dependency_pairs d)"

lemma dependency_pairs_rule:
  "r \<in> set (elems (dlRules d)) \<Longrightarrow> set (rule_dependencies r) \<subseteq> set (dependency_pairs d)"
  by (auto simp: dependency_pairs_def)

lemma dependency_pairs_decimal:
  "q \<in> set (elems (dlDecimals d)) \<Longrightarrow> (dcEntity q, dcField q) \<in> set (dependency_pairs d)"
  by (auto simp: dependency_pairs_def)

lemma quantities_unsigned:
  assumes valid: "Declaration_Validate d = Inr ()" and plain: "plain_entities d"
    and r: "r \<in> set (elems (dlRules d))" and ok: "check_decimals d after = Inr ()"
  shows "unsigned_quantities r (formats_of d) after"
  unfolding unsigned_quantities_def
proof (intro allI impI)
  fix spec i row n
  assume spec: "ruReversal r = Some spec" and row: "(i, row) \<in> set (rows_of after (ruEntity r))"
    and n: "Parse (format_at (formats_of d) (ruEntity r) (rlQuantity spec)) (cell row (rlQuantity spec)) = Inr n"
  note rule = declared_rule [OF valid r]
  have kind: "ruKind r = ''reversalBalance''"
    using rule(2) spec unfolding foreign_fields_def by blast
  obtain q where q: "map_of (decimals_of d) (field_key (ruEntity r) (rlQuantity spec)) = Some q"
    and sign: "dcSign q = ''positive'' \<or> dcSign q = ''nonnegative''" "\<not> dcNullable q"
    using rule(1) unfolding kind_valid_def Let_def kind spec by (simp split: option.split_asm)
  have mem: "q \<in> set (elems (dlDecimals d))"
    and key: "field_key (ruEntity r) (rlQuantity spec) = field_key (dcEntity q) (dcField q)"
    using declared_decimal_in [OF q [unfolded decimals_of_def]] by simp_all
  have "(ruEntity r, ruField r) \<in> set (dependency_pairs d)" by (rule dep_field [OF dependency_pairs_rule [OF r]])
  then have "nul \<notin> set (ruEntity r)" "nul \<notin> set (dcEntity q)"
    using plain dependency_pairs_decimal [OF mem] by (auto simp: plain_entities_def list_all_iff)
  with key have names: "dcEntity q = ruEntity r" "dcField q = rlQuantity spec" by (simp_all add: field_key_inj)
  have "distinct (map fst (decimals_of d))" using declared_decimals [OF valid] unfolding decimals_of_def by metis
  then have "format_at (formats_of d) (ruEntity r) (rlQuantity spec) = dcFormat q"
    using q unfolding decimals_of_def by (intro formats_of_decimals)
  moreover have "check_decimal q row = Inr ()"
    using ok mem row unfolding check_decimals_def check_all_ok by (force simp: names)
  ultimately show "0 \<le> n"
    using n sign by (auto simp: check_decimal_def names split: if_split_asm)
qed

lemma framed_declaration:
  assumes valid: "Declaration_Validate (rgDeclaration reg) = Inr ()" "plain_entities (rgDeclaration reg)"
    and before: "same_on (set (dependency_pairs (rgDeclaration reg))) (image_of before) (image_of before')"
    and none: "before = None \<longleftrightarrow> before' = None"
    and after: "same_on (set (dependency_pairs (rgDeclaration reg))) after after'"
    and ok: "Registration_Validate marshal reg before after = Inr ()"
  shows "Registration_Validate marshal reg before' after' = Inr ()"
proof -
  let ?d = "rgDeclaration reg"
  have decimals: "check_decimals ?d after = Inr ()"
    and rules: "\<forall>r \<in> set (elems (dlRules ?d)). validate_rule marshal (formats_of ?d) before after r = Inr ()"
    using ok unfolding Registration_Validate_ok by (simp_all add: list_all_iff)
  have "validate_rule marshal (formats_of ?d) before' after' r = Inr ()" if r: "r \<in> set (elems (dlRules ?d))" for r
  proof (rule framed_rule [OF before none after dependency_pairs_rule [OF r] declared_rule(1-3) [OF valid(1) r]])
    show "same_formats (decimals_of ?d) (formats_of ?d) (formats_of ?d)" by (simp add: same_formats_def)
    show "unsigned_quantities r (formats_of ?d) after" by (rule quantities_unsigned [OF valid r decimals])
    show "validate_rule marshal (formats_of ?d) before after r = Inr ()" using rules r by blast
  qed
  moreover have "check_decimals ?d after' = Inr ()"
    using decimals same_decimals [OF after dependency_pairs_decimal] by blast
  ultimately show ?thesis unfolding Registration_Validate_ok by (simp add: list_all_iff)
qed


section \<open>Covered registrations\<close>

lemma map_equal_map_of: "map_equal xs ys \<Longrightarrow> map_of xs = map_of ys"
proof (rule ext)
  fix k
  assume *: "map_equal xs ys"
  show "map_of xs k = map_of ys k"
  proof (cases "k \<in> fst ` set xs \<union> fst ` set ys")
    case True
    with * show ?thesis by (auto simp: map_equal_def list_all_iff)
  next
    case False
    then have "map_of xs k = None" "map_of ys k = None" by (simp_all add: map_of_eq_None_iff)
    then show ?thesis by simp
  qed
qed

lemma rule_equal_fields:
  assumes "rule_equal a b"
  shows "ruMatch a = ruMatch b" "ruSkipEmptyLeftEnd a = ruSkipEmptyLeftEnd b" "ruWhenPresent a = ruWhenPresent b"
    "ruCurrentWhen a = ruCurrentWhen b" "ruID a = ruID b" "ruKind a = ruKind b" "ruEntity a = ruEntity b"
    "ruFields a = ruFields b" "ruField a = ruField b" "ruTarget a = ruTarget b" "ruRelation a = ruRelation b"
    "ruAmount a = ruAmount b" "ruLimit a = ruLimit b" "ruFrozenStates a = ruFrozenStates b"
    "ruParentPath a = ruParentPath b" "ruParentStateField a = ruParentStateField b"
    "ruReservation a = ruReservation b" "ruReversal a = ruReversal b"
  using assms by (cases a; cases b; simp add: rule_equal_def)+

lemma rule_equal_transitions: "rule_equal a b \<Longrightarrow> map_of (elems (ruTransitions a)) = map_of (elems (ruTransitions b))"
  by (auto simp: rule_equal_def transitions_equal_def intro: map_equal_map_of split: option.split_asm)

lemma rule_equal_dependencies: "rule_equal a b \<Longrightarrow> rule_dependencies a = rule_dependencies b"
  by (simp only: rule_dependencies_def relationSteps_def rule_equal_fields [of a b])

lemma rule_equal_validate:
  assumes "rule_equal a b"
  shows "validate_rule marshal formats before after a = validate_rule marshal formats before after b"
proof -
  note eq = rule_equal_fields [OF assms]
  have "validateSameTarget a = validateSameTarget b" unfolding validateSameTarget_def [abs_def] eq ..
  moreover have "validateAtMostOne a = validateAtMostOne b" unfolding validateAtMostOne_def [abs_def] eq ..
  moreover have "validateUnique marshal a = validateUnique marshal b" unfolding validateUnique_def [abs_def] eq ..
  moreover have "validateReference a = validateReference b" unfolding validateReference_def [abs_def] eq ..
  moreover have "validateTotals a = validateTotals b" unfolding validateTotals_def [abs_def] total_step_def [abs_def] eq ..
  moreover have "validateState a = validateState b"
    unfolding validateState_def [abs_def] state_step_def [abs_def] transitions_from_def eq rule_equal_transitions [OF assms] ..
  moreover have "validateParentFreeze a = validateParentFreeze b"
    unfolding validateParentFreeze_def [abs_def] freeze_step_def [abs_def] frozen_in_def eq ..
  moreover have "validateReservation a = validateReservation b"
    unfolding validateReservation_def [abs_def] classify_def [abs_def] classify_row_def [abs_def] own_ref_def [abs_def]
      phase_entity_def admission_step_def [abs_def] eq ..
  moreover have "validateReversal a = validateReversal b"
    unfolding validateReversal_def [abs_def] reversal_step_def [abs_def] original_of_def [abs_def] eq ..
  ultimately show ?thesis unfolding validate_rule_def eq by (simp only:)
qed

lemma covers_retains:
  assumes "covers new old"
  shows "list_all (\<lambda>r. rule_equal r (rule_by_id (elems (dlRules (rgDeclaration new))) (ruID r))) (elems (dlRules (rgDeclaration old)))"
    and "set (elems (dlDecimals (rgDeclaration old))) \<subseteq> set (elems (dlDecimals (rgDeclaration new)))"
  using assms unfolding covers_def Retains_def by (auto simp: list_all_iff split: if_split_asm)

lemma covers_rules:
  assumes "covers new old" "Declaration_Validate (rgDeclaration old) = Inr ()" "r \<in> set (elems (dlRules (rgDeclaration old)))"
  obtains r' where "r' \<in> set (elems (dlRules (rgDeclaration new)))" "rule_equal r r'"
proof -
  let ?rules = "elems (dlRules (rgDeclaration new))"
  have same: "rule_equal r (rule_by_id ?rules (ruID r))"
    using covers_retains(1) [OF assms(1)] assms(3) by (simp add: list_all_iff)
  show thesis
  proof (cases "map_of (rev (map (\<lambda>r. (ruID r, r)) ?rules)) (ruID r)")
    case None
    then have "ruID r = []"
      using rule_equal_fields(5) [OF same] by (simp add: rule_by_id_def zero_rule_def)
    then show thesis using declared_rule(4) [OF assms(2,3)] by simp
  next
    case (Some r')
    then have "r' \<in> set ?rules" by (auto dest: map_of_SomeD)
    with same Some show thesis by (intro that [of r']) (simp_all add: rule_by_id_def)
  qed
qed

lemma covers_pairs:
  assumes "covers new old" "Declaration_Validate (rgDeclaration old) = Inr ()"
  shows "set (dependency_pairs (rgDeclaration old)) \<subseteq> set (dependency_pairs (rgDeclaration new))"
proof -
  have "set (rule_dependencies r) \<subseteq> set (dependency_pairs (rgDeclaration new))"
    if r: "r \<in> set (elems (dlRules (rgDeclaration old)))" for r
  proof -
    obtain r' where "r' \<in> set (elems (dlRules (rgDeclaration new)))" "rule_equal r r'"
      by (rule covers_rules [OF assms r])
    then show ?thesis using dependency_pairs_rule by (metis rule_equal_dependencies)
  qed
  moreover have "(dcEntity q, dcField q) \<in> set (dependency_pairs (rgDeclaration new))"
    if "q \<in> set (elems (dlDecimals (rgDeclaration old)))" for q
    using covers_retains(2) [OF assms(1)] that by (intro dependency_pairs_decimal) blast
  ultimately show ?thesis by (auto simp: dependency_pairs_def [of "rgDeclaration old"])
qed

lemma covers_formats:
  assumes "covers new old" "Declaration_Validate (rgDeclaration old) = Inr ()" "Declaration_Validate (rgDeclaration new) = Inr ()"
  shows "same_formats (decimals_of (rgDeclaration old)) (formats_of (rgDeclaration new)) (formats_of (rgDeclaration old))"
  unfolding same_formats_def
proof (intro allI impI)
  fix e f
  assume "map_of (decimals_of (rgDeclaration old)) (field_key e f) \<noteq> None"
  then obtain q where q: "map_of (decimals_of (rgDeclaration old)) (field_key e f) = Some q" by blast
  have distinct: "distinct (map fst (decimals_of d))" if "Declaration_Validate d = Inr ()" for d
    using declared_decimals [OF that] unfolding decimals_of_def by metis
  have "q \<in> set (elems (dlDecimals (rgDeclaration new)))" "field_key e f = field_key (dcEntity q) (dcField q)"
    using declared_decimal_in [OF q [unfolded decimals_of_def]] covers_retains(2) [OF assms(1)] by blast+
  then have "(field_key e f, q) \<in> set (decimals_of (rgDeclaration new))" by (simp add: decimals_of_def decimal_pair_def)
  then have "map_of (decimals_of (rgDeclaration new)) (field_key e f) = Some q" using distinct [OF assms(3)] by simp
  then show "format_at (formats_of (rgDeclaration new)) e f = format_at (formats_of (rgDeclaration old)) e f"
    using formats_of_decimals q distinct [OF assms(2)] distinct [OF assms(3)] unfolding decimals_of_def by metis
qed


section \<open>Reading\<close>

text \<open>SQLite's primary key: the rows of a table have different identifiers.\<close>

definition keyed :: "(string \<Rightarrow> table result) \<Rightarrow> bool" where
  "keyed Describe \<longleftrightarrow> (\<forall>i t. Describe i = Inr t \<longrightarrow> distinct (map srID (tbRows t)))"

definition table_image :: "table \<Rightarrow> binding \<Rightarrow> string list \<Rightarrow> rows" where
  "table_image t b keys = map (\<lambda>row. (srID row, product_row t b keys row)) (tbRows t)"

lemma read_rows_ok:
  "read_rows marshal t b keys names bu rows = Inr (out, bu') \<Longrightarrow> buRows bu \<le> MaxRows \<Longrightarrow>
     out = map (\<lambda>row. (srID row, product_row t b keys row)) rows
     \<and> buRows bu' = buRows bu + int (length rows) \<and> buRows bu' \<le> MaxRows"
proof (induction rows arbitrary: bu out)
  case (Cons row rows)
  from Cons.prems(1) obtain raw rest bytes where small: "buRows bu + 1 \<le> MaxRows"
    and rest: "read_rows marshal t b keys names \<lparr>buRows = buRows bu + 1, buBytes = bytes\<rparr> rows = Inr (rest, bu')"
    and out: "out = (srID row, product_row t b keys row) # rest"
    by (auto simp: Let_def result_simps split: if_split_asm)
  from Cons.IH [OF rest] small out show ?case by simp
qed simp

lemma read_entity_ok:
  assumes "read_entity marshal Describe r (images, bu) (e, keys) = Inr (images', bu')" "buRows bu \<le> MaxRows"
  obtains b t where "map_of (rgBindings r) e = Some b" "Describe (bdTableID b) = Inr t"
    "images' = (e, table_image t b keys) # images" "buRows bu' \<le> MaxRows"
proof -
  from assms(1) obtain b t names rows where bt: "map_of (rgBindings r) e = Some b" "Describe (bdTableID b) = Inr t"
    and read: "read_rows marshal t b keys names bu (take (nat (MaxRows - buRows bu + 1)) (tbRows t)) = Inr (rows, bu')"
    and images: "images' = (e, rows) # images"
    by (auto simp: read_entity_def result_simps split: option.split_asm if_split_asm simp del: map_result_ok)
  note ok = read_rows_ok [OF read assms(2)]
  have all: "take (nat (MaxRows - buRows bu + 1)) (tbRows t) = tbRows t"
  proof (rule take_all, rule ccontr)
    assume "\<not> length (tbRows t) \<le> nat (MaxRows - buRows bu + 1)"
    then have "int (length (take (nat (MaxRows - buRows bu + 1)) (tbRows t))) = MaxRows - buRows bu + 1"
      using assms(2) by simp
    with ok show False by linarith
  qed
  show thesis
    using that [OF bt] ok images unfolding all table_image_def by simp
qed

lemma read_entities_ok:
  assumes "fold_result (read_entity marshal Describe r) (images, bu) deps = Inr (images', bu')"
    and "buRows bu \<le> MaxRows" "distinct (map fst deps)"
  shows "(\<forall>e. e \<notin> fst ` set deps \<longrightarrow> map_of images' e = map_of images e)
    \<and> (\<forall>(e, keys) \<in> set deps. \<exists>b t. map_of (rgBindings r) e = Some b \<and> Describe (bdTableID b) = Inr t
         \<and> map_of images' e = Some (table_image t b keys))"
  using assms
proof (induction deps arbitrary: images bu)
  case (Cons d deps)
  obtain e keys where d: "d = (e, keys)" by force
  obtain images1 bu1 where step: "read_entity marshal Describe r (images, bu) (e, keys) = Inr (images1, bu1)"
    and rest: "fold_result (read_entity marshal Describe r) (images1, bu1) deps = Inr (images', bu')"
    using Cons.prems(1) by (auto simp: d and_then_ok)
  obtain b t where bt: "map_of (rgBindings r) e = Some b" "Describe (bdTableID b) = Inr t"
    "images1 = (e, table_image t b keys) # images" "buRows bu1 \<le> MaxRows"
    by (rule read_entity_ok [OF step Cons.prems(2)])
  have IH: "(\<forall>e. e \<notin> fst ` set deps \<longrightarrow> map_of images' e = map_of images1 e)
    \<and> (\<forall>(e, keys) \<in> set deps. \<exists>b t. map_of (rgBindings r) e = Some b \<and> Describe (bdTableID b) = Inr t
         \<and> map_of images' e = Some (table_image t b keys))"
    using Cons.IH [OF rest bt(4)] Cons.prems(3) by simp
  have "e \<notin> fst ` set deps" using Cons.prems(3) by (simp add: d)
  with IH bt(3) have "map_of images' e = Some (table_image t b keys)" by simp
  with IH bt show ?case by (auto simp: d)
qed simp

lemma dependencies_entities: "fst ` set (dependencies r) = fst ` set (dependency_pairs (rgDeclaration r))"
  by (simp add: dependencies_def Let_def image_image)

lemma dependencies_distinct: "distinct (map fst (dependencies r))"
  by (simp add: dependencies_def Let_def comp_def)

lemma dependencies_fields:
  "(e, keys) \<in> set (dependencies r) \<Longrightarrow> f \<in> set keys \<longleftrightarrow> (e, f) \<in> set (dependency_pairs (rgDeclaration r)) \<and> f \<noteq> []"
  by (force simp: dependencies_def Let_def)

lemma Read_ok:
  assumes "Read marshal Describe r = Inr images"
  shows "Declaration_Validate (rgDeclaration r) = Inr ()"
    and "(e, keys) \<in> set (dependencies r) \<Longrightarrow> \<exists>b t. map_of (rgBindings r) e = Some b \<and> Describe (bdTableID b) = Inr t
      \<and> rows_of images e = table_image t b keys"
proof -
  show "Declaration_Validate (rgDeclaration r) = Inr ()"
    using assms by (auto simp: Read_def split: if_split_asm)
  assume mem: "(e, keys) \<in> set (dependencies r)"
  obtain bu where "fold_result (read_entity marshal Describe r) ([], \<lparr>buRows = 0, buBytes = 0\<rparr>) (dependencies r) = Inr (images, bu)"
    using assms by (auto simp: Read_def and_then_ok split: if_split_asm prod.split_asm)
  from read_entities_ok [OF this _ dependencies_distinct] mem
  show "\<exists>b t. map_of (rgBindings r) e = Some b \<and> Describe (bdTableID b) = Inr t \<and> rows_of images e = table_image t b keys"
    by (fastforce simp: MaxRows_def rows_of_def)
qed

lemma lookup_product_row:
  "map_of (product_row t b keys row) f =
     (if f \<in> set keys then Some (case table_field t (bound_field b f) of None \<Rightarrow> AnyNil
        | Some d \<Rightarrow> cell (srProduct row) (fdPhysicalName d)) else None)"
  by (simp add: product_row_def map_of_map_restrict restrict_map_def)

lemma same_table_image:
  assumes "distinct (map srID (tbRows t))"
    and "\<And>row. same_row P e (product_row t b keys row) (product_row t b' keys' row)"
  shows "same_rows P e (table_image t b keys) (table_image t b' keys')"
proof -
  have "rel_option (same_row P e) (map_of (map (\<lambda>row. (srID row, g row)) rows) i) (map_of (map (\<lambda>row. (srID row, h row)) rows) i)"
    if "\<And>row. same_row P e (g row) (h row)" for rows i and g h :: "stored_row \<Rightarrow> row"
    using that by (induction rows) simp_all
  with assms show ?thesis by (simp add: same_rows_def table_image_def comp_def)
qed

text \<open>Read through a newer registration that covers an older one, the fields of the older one are the same.\<close>

lemma covered_images:
  assumes "covers new old" "keyed Describe" "Read marshal Describe new = Inr im" "Read marshal Describe old = Inr im'"
  shows "same_on (set (dependency_pairs (rgDeclaration old))) im im'"
  unfolding same_on_def
proof
  let ?P = "set (dependency_pairs (rgDeclaration old))"
  fix e
  assume "e \<in> fst ` ?P"
  then obtain keys' where old: "(e, keys') \<in> set (dependencies old)" using dependencies_entities [of old] by force
  note pairs = covers_pairs [OF assms(1) Read_ok(1) [OF assms(4)]]
  have "e \<in> fst ` set (dependencies new)"
    unfolding dependencies_entities using pairs \<open>e \<in> fst ` ?P\<close> by blast
  then obtain keys where new: "(e, keys) \<in> set (dependencies new)" by force
  obtain b t where b: "map_of (rgBindings new) e = Some b" "Describe (bdTableID b) = Inr t" "rows_of im e = table_image t b keys"
    using Read_ok(2) [OF assms(3) new] by blast
  obtain b' t' where b': "map_of (rgBindings old) e = Some b'" "Describe (bdTableID b') = Inr t'" "rows_of im' e = table_image t' b' keys'"
    using Read_ok(2) [OF assms(4) old] by blast
  have bind: "bdTableID b' = bdTableID b" "\<And>f. f \<in> set keys' \<Longrightarrow> bound_field b' f = bound_field b f"
    using assms(1) old b(1) b'(1) by (auto simp: covers_def MatchesBindings_def list_all_iff binding_at_def Let_def)
  then have t: "t' = t" using b(2) b'(2) by simp
  have "same_row ?P e (product_row t b keys row) (product_row t b' keys' row)" for row
    unfolding same_row_def
  proof (intro allI impI)
    fix f
    assume "(e, f) \<in> ?P"
    then have "f \<in> set keys \<longleftrightarrow> f \<in> set keys'"
      using dependencies_fields [OF old, of f] dependencies_fields [OF new, of f] pairs by blast
    then show "map_of (product_row t b keys row) f = map_of (product_row t b' keys' row) f"
      unfolding lookup_product_row using bind(2) by simp
  qed
  then show "same_rows ?P e (rows_of im e) (rows_of im' e)"
    unfolding b(3) b'(3) t using assms(2) b(2) by (intro same_table_image) (simp_all add: keyed_def)
qed


section \<open>Guards\<close>

lemma check_decimals_subset:
  "check_decimals d after = Inr () \<Longrightarrow> set (elems (dlDecimals d')) \<subseteq> set (elems (dlDecimals d)) \<Longrightarrow>
     check_decimals d' after = Inr ()"
  unfolding check_decimals_def check_all_ok by blast

lemma covered_accepts:
  assumes covers: "covers new old" and plain: "plain_entities (rgDeclaration old)"
    and valid: "Declaration_Validate (rgDeclaration new) = Inr ()" "Declaration_Validate (rgDeclaration old) = Inr ()"
    and before: "same_on (set (dependency_pairs (rgDeclaration old))) b b'"
    and after: "same_on (set (dependency_pairs (rgDeclaration old))) a a'"
    and ok: "Registration_Validate marshal new (Some b) a = Inr ()"
  shows "Registration_Validate marshal old (Some b') a' = Inr ()"
proof -
  let ?d = "rgDeclaration old" and ?new = "rgDeclaration new"
  have rules: "\<forall>r \<in> set (elems (dlRules ?new)). validate_rule marshal (formats_of ?new) (Some b) a r = Inr ()"
    and new: "check_decimals ?new a = Inr ()"
    using ok unfolding Registration_Validate_ok list_all_iff by blast+
  have decimals: "check_decimals ?d a = Inr ()" by (rule check_decimals_subset [OF new covers_retains(2) [OF covers]])
  note formats = covers_formats [OF covers valid(2,1)]
  have "validate_rule marshal (formats_of ?d) (Some b') a' r = Inr ()" if r: "r \<in> set (elems (dlRules ?d))" for r
  proof (rule framed_rule [OF _ _ after dependency_pairs_rule [OF r] declared_rule(1-3) [OF valid(2) r] formats])
    obtain r' where "r' \<in> set (elems (dlRules ?new))" "rule_equal r r'" by (rule covers_rules [OF covers valid(2) r])
    with rules show "validate_rule marshal (formats_of ?new) (Some b) a r = Inr ()" by (simp add: rule_equal_validate)
    have "map_of (decimals_of ?d) (field_key (ruEntity r) (rlQuantity spec)) \<noteq> None" if "ruReversal r = Some spec" for spec
    proof -
      have kind: "ruKind r = ''reversalBalance''"
        using declared_rule(2) [OF valid(2) r] that unfolding foreign_fields_def by blast
      show ?thesis
        using declared_rule(1) [OF valid(2) r] unfolding kind_valid_def Let_def kind that by (simp split: option.split_asm)
    qed
    then have "format_at (formats_of ?new) (ruEntity r) (rlQuantity spec) = format_at (formats_of ?d) (ruEntity r) (rlQuantity spec)"
      if "ruReversal r = Some spec" for spec
      using that by (intro same_formatsD [OF formats]) blast
    then show "unsigned_quantities r (formats_of ?new) a"
      using quantities_unsigned [OF valid(2) plain r decimals] unfolding unsigned_quantities_def by simp
  qed (use before in \<open>simp_all add: image_of_def\<close>)
  moreover have "check_decimals ?d a' = Inr ()"
    using decimals same_decimals [OF after dependency_pairs_decimal] by blast
  ultimately show ?thesis unfolding Registration_Validate_ok by (simp add: list_all_iff)
qed

lemma covered_selected:
  assumes "covers new old" "Declaration_Validate (rgDeclaration old) = Inr ()" "selectedBy old writes"
  shows "selectedBy new writes"
proof -
  note pairs = covers_pairs [OF assms(1,2)]
  obtain e keys' where old: "(e, keys') \<in> set (dependencies old)"
    and hit: "(bdTableID (binding_at (rgBindings old) e), ''*'') \<in> set writes
      \<or> (\<exists>f \<in> set keys'. (bdTableID (binding_at (rgBindings old) e), bound_field (binding_at (rgBindings old) e) f) \<in> set writes)"
    using assms(3) by (auto simp: selectedBy_def list_ex_iff Let_def)
  have bind: "bdTableID (binding_at (rgBindings old) e) = bdTableID (binding_at (rgBindings new) e)"
    "\<And>f. f \<in> set keys' \<Longrightarrow> bound_field (binding_at (rgBindings old) e) f = bound_field (binding_at (rgBindings new) e) f"
    using assms(1) old by (auto simp: covers_def MatchesBindings_def list_all_iff Let_def)
  have "e \<in> fst ` set (dependencies old)" by (rule image_eqI [OF _ old]) simp
  then have "e \<in> fst ` set (dependencies new)"
    unfolding dependencies_entities using pairs by blast
  then obtain keys where new: "(e, keys) \<in> set (dependencies new)" by force
  have "f \<in> set keys" if "f \<in> set keys'" for f
    using that dependencies_fields [OF old, of f] dependencies_fields [OF new, of f] pairs by blast
  with hit have "(bdTableID (binding_at (rgBindings new) e), ''*'') \<in> set writes
      \<or> (\<exists>f \<in> set keys. (bdTableID (binding_at (rgBindings new) e), bound_field (binding_at (rgBindings new) e) f) \<in> set writes)"
    using bind by auto
  with new show ?thesis unfolding selectedBy_def list_ex_iff Let_def by (intro bexI [OF _ new]) simp
qed

lemma collect_active_grows: "set active \<subseteq> set (collect_active active xs)"
proof (induction xs arbitrary: active)
  case (Cons old xs)
  then show ?case unfolding collect_active.simps by (rule subset_trans [rotated]) auto
qed simp

lemma collect_active_covers: "r \<in> set xs \<Longrightarrow> \<exists>new \<in> set (collect_active active xs). new = r \<or> covers new r"
proof (induction xs arbitrary: active)
  case (Cons old xs)
  let ?active = "if list_ex (\<lambda>new. covers new old) active then active else active @ [old]"
  have "\<exists>new \<in> set ?active. new = old \<or> covers new old" by (auto simp: list_ex_iff)
  then have "\<exists>new \<in> set (collect_active ?active xs). new = old \<or> covers new old"
    using collect_active_grows [of ?active xs] by blast
  then show ?case using Cons.prems Cons.IH [of ?active] unfolding collect_active.simps set_simps by blast
qed simp

lemma collect_active_subset: "set (collect_active active xs) \<subseteq> set active \<union> set xs"
proof (induction xs arbitrary: active)
  case (Cons old xs)
  show ?case unfolding collect_active.simps by (rule subset_trans [OF Cons.IH]) auto
qed simp

lemma capture_guards_ok:
  "capture_guards js Describe touched bu rs = Inr guards \<Longrightarrow> r \<in> set rs \<Longrightarrow> selectedBy r touched \<Longrightarrow>
     \<exists>before. Read (jsRow js) Describe r = Inr before \<and> \<lparr>gdRegistration = r, gdBefore = before\<rparr> \<in> set guards"
proof (induction rs arbitrary: bu guards)
  case (Cons r' rs)
  show ?case
  proof (cases "selectedBy r' touched")
    case True
    then obtain before bu' gs where step: "Read (jsRow js) Describe r' = Inr before"
      "capture_guards js Describe touched bu' rs = Inr gs" "guards = \<lparr>gdRegistration = r', gdBefore = before\<rparr> # gs"
      using Cons.prems(1) by (auto simp: and_then_ok)
    then show ?thesis using Cons.IH [OF step(2)] Cons.prems(2,3) by auto
  next
    case False
    then show ?thesis using Cons.IH [of bu guards] Cons.prems by auto
  qed
qed simp

lemma guard_steps_ok:
  "fold_result (guard_step js Describe) bu guards = Inr bu' \<Longrightarrow> g \<in> set guards \<Longrightarrow>
     \<exists>after. Read (jsRow js) Describe (gdRegistration g) = Inr after
       \<and> Registration_Validate (jsValues js) (gdRegistration g) (Some (gdBefore g)) after = Inr ()"
  by (induction guards arbitrary: bu) (auto simp: and_then_ok guard_step_def)

text \<open>
  C30. Which changes a registration accepts depends only on the protected fields of the images: two pairs of images with
  the same rows, as Go maps, on the entities and fields that the declaration names are accepted or refused alike. The
  order in which the loops range over their maps, other entities and other fields do not matter.
\<close>

theorem acceptance_framed:
  assumes "Declaration_Validate (rgDeclaration reg) = Inr ()" "plain_entities (rgDeclaration reg)"
    and "same_on (set (dependency_pairs (rgDeclaration reg))) (image_of before) (image_of before')"
    and "before = None \<longleftrightarrow> before' = None"
    and "same_on (set (dependency_pairs (rgDeclaration reg))) after after'"
  shows "Registration_Validate marshal reg before after = Inr () \<longleftrightarrow> Registration_Validate marshal reg before' after' = Inr ()"
  using framed_declaration [OF assms]
    framed_declaration [OF assms(1,2) same_on_sym [OF assms(3)] assms(4) [symmetric] same_on_sym [OF assms(5)]] by metis

lemma load_rows_valid:
  "load_rows stored = Inr rs \<Longrightarrow> r \<in> set rs \<Longrightarrow> Declaration_Validate (rgDeclaration r) = Inr ()"
  by (induction stored arbitrary: rs) (auto simp: and_then_ok split: if_split_asm)

lemma Load_valid: "Load stored = Inr rs \<Longrightarrow> r \<in> set rs \<Longrightarrow> Declaration_Validate (rgDeclaration r) = Inr ()"
  by (auto simp: Load_def Let_def intro: load_rows_valid split: if_split_asm)

text \<open>
  C29. Upgrades lose nothing: a change whose active guards were captured before and validated after it satisfies every
  registration of the history whose fields it touches, also those that a newer registration has replaced as a guard.
\<close>

theorem active_guards_enforce_history:
  assumes "Load stored = Inr history" "r \<in> set history" "selectedBy r touched"
    and "Capture js stored Describe touched = Inr guards" "ValidateGuards js Describe' guards = Inr ()"
    and "Read (jsRow js) Describe r = Inr before" "Read (jsRow js) Describe' r = Inr after"
    and "keyed Describe" "keyed Describe'" "plain_entities (rgDeclaration r)"
  shows "Registration_Validate (jsValues js) r (Some before) after = Inr ()"
proof -
  obtain new where new: "new \<in> set (activeGuards history)" "new = r \<or> covers new r"
    using collect_active_covers [of r "rev history" "[]"] assms(2) by (auto simp: activeGuards_def)
  have valid: "Declaration_Validate (rgDeclaration s) = Inr ()" if "s \<in> set history" for s
    using Load_valid [OF assms(1) that] .
  have "new \<in> set history" using new(1) collect_active_subset [of "[]" "rev history"] by (auto simp: activeGuards_def)
  note valid = valid [OF this] valid [OF assms(2)]
  have "selectedBy new touched" using new(2) covered_selected [OF _ valid(2) assms(3)] assms(3) by blast
  moreover obtain bu where "capture_guards js Describe touched bu (activeGuards history) = Inr guards"
    using assms(1,4) by (auto simp: Capture_def)
  ultimately obtain b where b: "Read (jsRow js) Describe new = Inr b" "\<lparr>gdRegistration = new, gdBefore = b\<rparr> \<in> set guards"
    using capture_guards_ok new(1) by blast
  obtain bu bu' where "fold_result (guard_step js Describe') bu guards = Inr bu'"
    using assms(5) by (auto simp: ValidateGuards_def and_then_ok)
  from guard_steps_ok [OF this b(2)] obtain a where a: "Read (jsRow js) Describe' new = Inr a"
    and ok: "Registration_Validate (jsValues js) new (Some b) a = Inr ()" by auto
  show ?thesis
  proof (cases "new = r")
    case True
    with a b(1) ok assms(6,7) show ?thesis by simp
  next
    case False
    with new(2) have covers: "covers new r" by blast
    show ?thesis
      by (rule covered_accepts [OF covers assms(10) valid covered_images [OF covers assms(8) b(1) assms(6)]
            covered_images [OF covers assms(9) a assms(7)] ok])
  qed
qed


section \<open>Instances\<close>

text \<open>A sufficient condition for \<open>same_on\<close> that computes.\<close>

definition same_listed :: "(string \<times> string) list \<Rightarrow> images \<Rightarrow> images \<Rightarrow> bool" where
  "same_listed ps im im' = list_all (\<lambda>(e, _).
     distinct (map fst (rows_of im e)) \<and> distinct (map fst (rows_of im' e))
     \<and> list_all (\<lambda>i. case row_at im e i of None \<Rightarrow> False
        | Some a \<Rightarrow> (case row_at im' e i of None \<Rightarrow> False
          | Some b \<Rightarrow> \<forall>(e', f) \<in> set ps. e' = e \<longrightarrow> map_of a f = map_of b f)) (map fst (rows_of im e) @ map fst (rows_of im' e))) ps"

lemma same_listed:
  assumes "same_listed ps im im'"
  shows "same_on (set ps) im im'"
  unfolding same_on_def
proof
  fix e assume "e \<in> fst ` set ps"
  then obtain f where mem: "(e, f) \<in> set ps" by force
  note rows = bspec [OF assms [unfolded same_listed_def list_all_iff [of _ ps]] mem, unfolded prod.case]
  have dist: "distinct (map fst (rows_of im e))" "distinct (map fst (rows_of im' e))"
    and rows: "list_all (\<lambda>i. case row_at im e i of None \<Rightarrow> False
        | Some a \<Rightarrow> (case row_at im' e i of None \<Rightarrow> False
          | Some b \<Rightarrow> \<forall>(e', f) \<in> set ps. e' = e \<longrightarrow> map_of a f = map_of b f)) (map fst (rows_of im e) @ map fst (rows_of im' e))"
    using rows by blast+
  have "rel_option (same_row (set ps) e) (map_of (rows_of im e) i) (map_of (rows_of im' e) i)" for i
  proof (cases "i \<in> set (map fst (rows_of im e) @ map fst (rows_of im' e))")
    case True
    with rows have "case row_at im e i of None \<Rightarrow> False
        | Some a \<Rightarrow> (case row_at im' e i of None \<Rightarrow> False
          | Some b \<Rightarrow> \<forall>(e', f) \<in> set ps. e' = e \<longrightarrow> map_of a f = map_of b f)" unfolding list_all_iff by blast
    then show ?thesis by (auto simp: row_at_def same_row_def split: option.split_asm)
  next
    case False
    then have "map_of (rows_of im e) i = None" "map_of (rows_of im' e) i = None" by (simp_all add: map_of_eq_None_iff)
    then show ?thesis by simp
  qed
  with dist show "same_rows (set ps) e (rows_of im e) (rows_of im' e)" by (simp add: same_rows_def)
qed

definition shuffled :: "images \<Rightarrow> images" where
  "shuffled im = (''notes'', [(''n'', [])])
     # rev (map (\<lambda>(e, rows). (e, rev (map (\<lambda>(i, row). (i, (''note'', AnyNil) # rev row)) rows))) im)"

lemma shuffled_same:
  "same_listed (remdups (dependency_pairs shop_declaration)) (shop_images ''open'') (shuffled (shop_images ''open''))"
  "same_listed (remdups (dependency_pairs shop_declaration)) (shop_images ''closed'') (shuffled (shop_images ''closed''))"
  by code_simp+

lemma shop_plain: "plain_entities shop_declaration"
  by code_simp

theorem acceptance_framed_witness:
  "Registration_Validate sample_marshal shop_registration (Some (shuffled (shop_images ''open''))) (shuffled (shop_images ''closed''))
     = Inr ()"
proof -
  have d: "rgDeclaration shop_registration = shop_declaration" by (simp add: shop_registration_def)
  show ?thesis
    using acceptance_framed [of shop_registration "Some (shop_images ''open'')" "Some (shuffled (shop_images ''open''))"
        "shop_images ''closed''" "shuffled (shop_images ''closed'')" sample_marshal, unfolded d image_of_def option.case]
      shop_valid shop_plain same_listed [OF shuffled_same(1), unfolded set_remdups] same_listed [OF shuffled_same(2), unfolded set_remdups] shop_return_confirmed
    by blast
qed


text \<open>An installation that was upgraded: the second version keeps the rule of the first and adds another.\<close>

definition code_rule :: rule where
  "code_rule = zero_rule\<lparr>ruID := ''code'', ruKind := ''unique'', ruEntity := ''documents'', ruFields := Some [''code'']\<rparr>"

definition document_registration :: "int \<Rightarrow> rule list \<Rightarrow> registration" where
  "document_registration version rules = \<lparr>rgWorkspaceID = ''w'', rgPluginID = ''p'', rgInstallationID = ''i'',
     rgDeclaration = \<lparr>dlContract = Contract, dlModelID = ''m'', dlVersion = version, dlDecimals = None, dlRules = Some rules\<rparr>,
     rgBindings = [(''documents'', \<lparr>bdTableID = ''t'', bdFields = [(''phase'', ''f1''), (''amount'', ''f2''), (''code'', ''f3'')]\<rparr>)]\<rparr>"

definition document_table :: "string \<Rightarrow> table" where
  "document_table phase = \<lparr>tbTableID = ''t'',
     tbFields = map (\<lambda>(i, column). \<lparr>fdFieldID = i, fdPhysicalName = column, fdLifecycle = ''active'', fdLogicalType = ''text'',
       fdOnlyInt = False, fdPresence = [], fdRelation = None\<rparr>) [(''f1'', ''phase''), (''f2'', ''amount''), (''f3'', ''code'')],
     tbRows = map (\<lambda>(i, ph). \<lparr>srID = i, srSizes = [], srProduct = text_row [(''phase'', ph), (''amount'', ''5''), (''code'', i)]\<rparr>)
       [(''d1'', phase), (''d2'', ''open'')]\<rparr>"

definition sample_describe :: "string \<Rightarrow> string \<Rightarrow> table result" where
  "sample_describe phase i = (if i = ''t'' then Inr (document_table phase) else Inl binding_stale)"

definition sample_encoders :: json_encoders where
  "sample_encoders = \<lparr>jsValues = sample_marshal, jsRow = (\<lambda>_. Inr ''{}''), jsImages = (\<lambda>_. Inr ''{}'')\<rparr>"

abbreviation first_version :: registration where
  "first_version \<equiv> document_registration 1 [phase_rule]"

abbreviation second_version :: registration where
  "second_version \<equiv> document_registration 2 [code_rule, phase_rule]"

abbreviation document_images :: "string \<Rightarrow> images" where
  "document_images phase \<equiv> [(''documents'', [(''d1'', text_row [(''phase'', phase), (''amount'', ''5'')]),
     (''d2'', text_row [(''phase'', ''open''), (''amount'', ''5'')])])]"

lemma upgrade_history:
  "Load [Inr first_version, Inr second_version] = Inr [first_version, second_version]"
  "activeGuards [first_version, second_version] = [second_version]"
  "selectedBy first_version [(''t'', ''f1'')]"
  "plain_entities (rgDeclaration first_version)"
  by code_simp+

lemma upgrade_reads:
  "Read (jsRow sample_encoders) (sample_describe ''open'') first_version = Inr (document_images ''open'')"
  "Read (jsRow sample_encoders) (sample_describe ''closed'') first_version = Inr (document_images ''closed'')"
  by code_simp+

definition upgrade_guards :: "guard list" where
  "upgrade_guards = [\<lparr>gdRegistration = second_version, gdBefore = [(''documents'',
     [(''d1'', text_row [(''code'', ''d1''), (''phase'', ''open''), (''amount'', ''5'')]),
      (''d2'', text_row [(''code'', ''d2''), (''phase'', ''open''), (''amount'', ''5'')])])]\<rparr>]"

lemma upgrade_captured:
  "Capture sample_encoders [Inr first_version, Inr second_version] (sample_describe ''open'') [(''t'', ''f1'')] = Inr upgrade_guards"
  by code_simp

lemma upgrade_validated: "ValidateGuards sample_encoders (sample_describe ''closed'') upgrade_guards = Inr ()"
  by code_simp

lemma sample_keyed: "keyed (sample_describe phase)"
  by (simp add: keyed_def sample_describe_def document_table_def)

theorem active_guards_enforce_history_witness:
  "activeGuards [first_version, second_version] = [second_version]
   \<and> Registration_Validate sample_marshal first_version (Some (document_images ''open'')) (document_images ''closed'') = Inr ()"
proof -
  have "Registration_Validate (jsValues sample_encoders) first_version (Some (document_images ''open'')) (document_images ''closed'') = Inr ()"
    by (rule active_guards_enforce_history [OF upgrade_history(1) _ upgrade_history(3) upgrade_captured upgrade_validated upgrade_reads sample_keyed sample_keyed
        upgrade_history(4)]) simp
  then show ?thesis by (simp add: upgrade_history(2) sample_encoders_def)
qed

end
