(* ===== verification/Realtime_Hub.thy ===== *)
theory Realtime_Hub
  imports Complex_Main VT_Prelude
begin

text \<open>
  The realtime hub (\<open>sidecar/internal/realtime/hub.go\<close>, \<open>recovery.go\<close>) over the durable outbox: rows
  committed with the data are handed to live subscribers in order, and a subscriber that comes back
  catches up from the rows the outbox retains or starts from a snapshot of the current state.

  Go channels are a heap of buffers; sending on a closed channel and closing one twice are panics, which
  the operations return as \<^const>\<open>None\<close>. JSON, SHA-256, RFC 3339 and the database's reading of active jobs
  are arguments. The identifier of a subscription is a \<open>uint64\<close> as in the code; row identifiers are
  SQLite's, which never reach the bound of \<open>int64\<close>.
\<close>

section \<open>Events and rows\<close>

record hub_event =
  evID :: string
  evTopic :: string
  evPayload :: string
  evCursor :: string

record outboxRow =
  orRowID :: int
  orEventID :: string
  orTopic :: string
  orPayload :: string

record product_error =
  peContractVersion :: string
  peCode :: string
  peMessage :: string
  peRetryable :: bool

record task_event =
  tcContractVersion :: string
  tcTopic :: string
  tcEventID :: string
  tcSequence :: int
  tcOccurredAt :: string
  tcTaskID :: string
  tcTaskType :: string
  tcState :: string
  tcProgress :: rat
  tcCursor :: "string option"
  tcError :: "product_error option"

record data_event =
  dcEventID :: string
  dcTopic :: string

record catalog_event =
  ccEventID :: string
  ccOccurredAt :: string

text \<open>The strict decoders of the payloads, \<open>ValidateCatalogEvent\<close> and \<open>time.Parse(time.RFC3339, _)\<close>.\<close>

record decoders =
  deCatalog :: "string \<Rightarrow> catalog_event option"
  deCatalogValid :: "catalog_event \<Rightarrow> bool"
  deData :: "string \<Rightarrow> data_event option"
  deTask :: "string \<Rightarrow> task_event option"
  deTime :: "string \<Rightarrow> bool"

datatype hub_error = HubError string string bool | Cancelled go_error | Failure go_error

definition hub_error :: "string \<Rightarrow> string \<Rightarrow> hub_error" where
  "hub_error code message = HubError (''realtime.'' @ code) message False"

definition hub_retry :: "string \<Rightarrow> string \<Rightarrow> hub_error" where
  "hub_retry code message = HubError (''realtime.'' @ code) message True"

definition maxSubscribers :: int where "maxSubscribers = 32"
definition subscriberQueue :: int where "subscriberQueue = 256"
definition maxCatchupEvents :: int where "maxCatchupEvents = 10000"
definition ContractVersion :: string where "ContractVersion = ''2.0''"
definition MaxRecoveryBytes :: int where "MaxRecoveryBytes = 4 * 1024 * 1024"

definition cursor_text :: "int \<Rightarrow> string" where
  "cursor_text n = ''rt:'' @ int_text n"

definition corruptOutbox :: hub_error where
  "corruptOutbox = hub_error ''storage_corrupt'' ''realtime outbox contains an invalid event''"

definition task_states :: "string list" where
  "task_states = [''pending'', ''running'', ''succeeded'', ''failed'', ''cancelled'']"

definition valid_task :: "decoders \<Rightarrow> outboxRow \<Rightarrow> task_event \<Rightarrow> bool" where
  "valid_task de row e \<longleftrightarrow> tcContractVersion e = ContractVersion \<and> tcTopic e = ''task.changed'' \<and> tcEventID e = orEventID row
     \<and> tcTaskID e \<noteq> [] \<and> tcTaskType e = ''formulaBackfill'' \<and> 1 \<le> tcSequence e \<and> 0 \<le> tcProgress e \<and> tcProgress e \<le> 1
     \<and> deTime de (tcOccurredAt e) \<and> tcState e \<in> set task_states"

definition decodeOutboxRow :: "decoders \<Rightarrow> outboxRow \<Rightarrow> hub_error + hub_event" where
  "decodeOutboxRow de row =
     (let raw = orPayload row;
          valid = (if orTopic row = ''plugin.catalog.changed''
                   then (case deCatalog de raw of None \<Rightarrow> False
                         | Some e \<Rightarrow> ccEventID e = orEventID row \<and> deCatalogValid de e \<and> deTime de (ccOccurredAt e))
                   else if orTopic row = ''data.changed''
                   then (case deData de raw of None \<Rightarrow> False | Some e \<Rightarrow> dcEventID e = orEventID row \<and> dcTopic e = orTopic row)
                   else if orTopic row = ''task.changed''
                   then (case deTask de raw of None \<Rightarrow> False | Some e \<Rightarrow> valid_task de row e)
                   else False)
      in if \<not> valid then Inl corruptOutbox
         else Inr \<lparr>evID = orEventID row, evTopic = orTopic row, evPayload = raw, evCursor = cursor_text (orRowID row)\<rparr>)"

fun decode_rows :: "decoders \<Rightarrow> outboxRow list \<Rightarrow> hub_error + hub_event list" where
  "decode_rows de [] = Inr []"
| "decode_rows de (row # rows) =
     (case decodeOutboxRow de row of Inl e \<Rightarrow> Inl e
      | Inr event \<Rightarrow> (case decode_rows de rows of Inl e \<Rightarrow> Inl e | Inr events \<Rightarrow> Inr (event # events)))"

text \<open>\<open>ORDER BY rowid DESC LIMIT 10000\<close>, in ascending order.\<close>

definition latest_rows :: "outboxRow list \<Rightarrow> outboxRow list" where
  "latest_rows rows = (let sorted = sort_key orRowID rows in drop (nat (int (length sorted) - maxCatchupEvents)) sorted)"

section \<open>The hub\<close>

record channel =
  chBuffer :: "hub_event list"
  chClosed :: bool

record subscriber =
  sbEvents :: nat
  sbReplayedThrough :: int

record hub =
  hbApp :: bool
  hbNextID :: u64
  hbHighWater :: int
  hbSubscribers :: "(u64 \<times> subscriber) list"
  hbChannels :: "channel list"

definition NewHub :: "bool \<Rightarrow> hub" where
  "NewHub app = \<lparr>hbApp = app, hbNextID = 0, hbHighWater = 0, hbSubscribers = [], hbChannels = []\<rparr>"

text \<open>The select with a default: whether the event was sent.\<close>

definition try_send :: "hub_event \<Rightarrow> nat \<Rightarrow> channel list \<Rightarrow> (bool \<times> channel list) option" where
  "try_send e c chans =
     (let ch = chans ! c
      in if chClosed ch then None
         else if int (length (chBuffer ch)) < subscriberQueue then Some (True, chans[c := ch\<lparr>chBuffer := chBuffer ch @ [e]\<rparr>])
         else Some (False, chans))"

definition close_channel :: "nat \<Rightarrow> channel list \<Rightarrow> channel list option" where
  "close_channel c chans = (if chClosed (chans ! c) then None else Some (chans[c := (chans ! c)\<lparr>chClosed := True\<rparr>]))"

fun publish_each :: "hub_event \<Rightarrow> int \<Rightarrow> (u64 \<times> subscriber) list \<Rightarrow> channel list
  \<Rightarrow> ((u64 \<times> subscriber) list \<times> channel list) option" where
  "publish_each e rowID [] chans = Some ([], chans)"
| "publish_each e rowID ((i, s) # ss) chans =
     (if 0 < rowID \<and> rowID \<le> sbReplayedThrough s
      then map_option (apfst (Cons (i, s))) (publish_each e rowID ss chans)
      else case try_send e (sbEvents s) chans of None \<Rightarrow> None
      | Some (True, chans) \<Rightarrow> map_option (apfst (Cons (i, s))) (publish_each e rowID ss chans)
      | Some (False, chans) \<Rightarrow>
          (case close_channel (sbEvents s) chans of None \<Rightarrow> None | Some chans \<Rightarrow> publish_each e rowID ss chans))"

definition publishLocked :: "hub_event \<Rightarrow> int \<Rightarrow> hub \<Rightarrow> hub option" where
  "publishLocked e rowID h = map_option (\<lambda>(subs, chans). h\<lparr>hbSubscribers := subs, hbChannels := chans\<rparr>)
     (publish_each e rowID (hbSubscribers h) (hbChannels h))"

fun drain_rows :: "decoders \<Rightarrow> outboxRow list \<Rightarrow> hub \<Rightarrow> (hub_error option \<times> hub) option" where
  "drain_rows de [] h = Some (None, h)"
| "drain_rows de (row # rows) h =
     (case decodeOutboxRow de row of Inl e \<Rightarrow> Some (Some e, h)
      | Inr event \<Rightarrow>
          (case publishLocked event (orRowID row) h of None \<Rightarrow> None
           | Some h \<Rightarrow> drain_rows de rows (h\<lparr>hbHighWater := orRowID row\<rparr>)))"

text \<open>\<open>fails\<close>: the query for the rows returns an error. Without an app the call of \<open>DB\<close> panics.\<close>

definition drainDurable :: "decoders \<Rightarrow> bool \<Rightarrow> outboxRow list \<Rightarrow> hub \<Rightarrow> (hub_error option \<times> hub) option" where
  "drainDurable de fails rows h =
     (if \<not> hbApp h then None
      else if fails then Some (Some (hub_retry ''storage_failed'' ''realtime outbox could not be read''), h)
      else drain_rows de (sort_key orRowID (filter (\<lambda>row. hbHighWater h < orRowID row) rows)) h)"

definition Publish :: "go_error option \<Rightarrow> decoders \<Rightarrow> bool \<Rightarrow> outboxRow list \<Rightarrow> hub \<Rightarrow> (hub_error option \<times> hub) option" where
  "Publish cancelled de fails rows h =
     (case cancelled of Some e \<Rightarrow> Some (Some (Cancelled e), h) | None \<Rightarrow> drainDurable de fails rows h)"

text \<open>An event that is not in the outbox: no cursor, no row.\<close>

definition PublishEvent :: "(string \<Rightarrow> bool) \<Rightarrow> hub_event \<Rightarrow> hub \<Rightarrow> (hub_error option \<times> hub) option" where
  "PublishEvent json_valid e h =
     (if evID e = [] \<or> evTopic e = [] \<or> evPayload e = [] then Some (Some (Failure (Err ''realtime event is incomplete'')), h)
      else if \<not> json_valid (evPayload e) then Some (Some (Failure (Err ''realtime event payload is invalid JSON'')), h)
      else map_option (Pair None) (publishLocked (e\<lparr>evCursor := []\<rparr>) 0 h))"

record subscription =
  suID :: u64
  suBacklog :: "hub_event list"
  suEvents :: nat

text \<open>\<open>readBacklog\<close> runs under the lock: its result is a value here.\<close>

definition subscribe :: "hub_error + hub_event list \<times> int \<Rightarrow> hub \<Rightarrow> ((hub_error + subscription) \<times> hub) option" where
  "subscribe readBacklog h =
     (if maxSubscribers \<le> int (length (hbSubscribers h))
      then Some (Inl (hub_retry ''capacity'' ''realtime subscriber capacity is exhausted''), h)
      else
        let i = hbNextID h + 1; c = length (hbChannels h);
            h = h\<lparr>hbNextID := i, hbChannels := hbChannels h @ [\<lparr>chBuffer = [], chClosed = False\<rparr>],
                  hbSubscribers := AList.update i \<lparr>sbEvents = c, sbReplayedThrough = 0\<rparr> (hbSubscribers h)\<rparr>
        in case readBacklog of
             Inl e \<Rightarrow> map_option (\<lambda>chans. (Inl e, h\<lparr>hbSubscribers := AList.delete i (hbSubscribers h), hbChannels := chans\<rparr>))
                        (close_channel c (hbChannels h))
           | Inr (backlog, retainedHighWater) \<Rightarrow>
               Some (Inr \<lparr>suID = i, suBacklog = backlog, suEvents = c\<rparr>,
                 h\<lparr>hbSubscribers := AList.update i \<lparr>sbEvents = c, sbReplayedThrough = retainedHighWater\<rparr> (hbSubscribers h)\<rparr>))"

text \<open>The subscription's \<open>cancel\<close>; \<open>sync.Once\<close> keeps it from running again.\<close>

definition cancel :: "u64 \<Rightarrow> hub \<Rightarrow> hub option" where
  "cancel i h = (case map_of (hbSubscribers h) i of None \<Rightarrow> Some h
     | Some current \<Rightarrow> map_option (\<lambda>chans. h\<lparr>hbSubscribers := AList.delete i (hbSubscribers h), hbChannels := chans\<rparr>)
         (close_channel (sbEvents current) (hbChannels h)))"

section \<open>Catching up\<close>

definition trim_prefix :: "string \<Rightarrow> string \<Rightarrow> string" where
  "trim_prefix p s = (if take (length p) s = p then drop (length p) s else s)"

definition parseCursor :: "string \<Rightarrow> int option" where
  "parseCursor s = (if take 3 s \<noteq> ''rt:'' then None
     else case parse_int64 (trim_prefix ''rt:'' s) of None \<Rightarrow> None | Some c \<Rightarrow> if c < 1 then None else Some c)"

fun events_after :: "string \<Rightarrow> hub_event list \<Rightarrow> hub_event list option" where
  "events_after cursor [] = None"
| "events_after cursor (e # es) = (if evID e = cursor \<or> evCursor e = cursor then Some es else events_after cursor es)"

definition last_row :: "outboxRow list \<Rightarrow> int" where
  "last_row rows = (if rows = [] then 0 else orRowID (last rows))"

definition catchup :: "decoders \<Rightarrow> bool \<Rightarrow> bool \<Rightarrow> outboxRow list \<Rightarrow> string \<Rightarrow> hub_error + hub_event list \<times> int" where
  "catchup de app fails stored afterEventID =
     (if \<not> app then Inl (hub_retry ''unavailable'' ''realtime storage is unavailable'')
      else if fails then Inl (hub_retry ''storage_failed'' ''realtime catch-up could not be read'')
      else let rows = latest_rows stored in
        case decode_rows de rows of Inl e \<Rightarrow> Inl e
        | Inr events \<Rightarrow>
            if afterEventID = [] then Inr (events, last_row rows)
            else (case events_after afterEventID events of
                Some rest \<Rightarrow> Inr (rest, last_row rows)
              | None \<Rightarrow> Inl
                  (if take 3 afterEventID = ''rt:''
                   then (case parseCursor afterEventID of
                           None \<Rightarrow> hub_error ''cursor_unknown'' ''realtime cursor is invalid''
                         | Some cursor \<Rightarrow>
                             if rows \<noteq> [] \<and> cursor < orRowID (hd rows)
                             then hub_error ''cursor_expired'' ''realtime cursor is outside the retained window''
                             else hub_error ''cursor_unknown'' ''realtime cursor is unknown'')
                   else if int (length rows) = maxCatchupEvents
                   then hub_error ''catchup_limit'' ''legacy realtime cursor is outside the retained window''
                   else hub_error ''cursor_unknown'' ''realtime cursor is unknown'')))"

section \<open>Recovery\<close>

record job_error =
  jeCode :: string
  jeMessage :: string
  jeRetryable :: bool

record job_snapshot =
  jsJobID :: string
  jsState :: string
  jsCompleted :: int
  jsTotal :: int
  jsLastRecordID :: string
  jsError :: "job_error option"

record task_state =
  fsTaskID :: string
  fsState :: string
  fsProgress :: rat
  fsCursor :: "string option"
  fsError :: "product_error option"

record recovery_snapshot =
  rsContractVersion :: string
  rsTopic :: string
  rsActiveFormulaTasks :: "task_state list"
  rsTerminalNotifications :: "task_event list"

datatype active_failure = JobFailure job_error | OtherFailure go_error

text \<open>The surroundings of one recovery: what \<open>ctx.Err()\<close> returns at each call (numbered along a
  run to the end), whether the app has a
  committed database, the faults of its transaction, the active jobs it reads, division of doubles and
  the JSON encoder.\<close>

record recovery_env =
  reContext :: "nat \<Rightarrow> go_error option"
  reCommitted :: bool
  reBegin :: "go_error option"
  reReadFails :: bool
  reActive :: "active_failure + job_snapshot list"
  reCommit :: "go_error option"
  reDivide :: "int \<Rightarrow> int \<Rightarrow> rat"
  reMarshal :: "recovery_snapshot \<Rightarrow> go_error + string"

definition job_product_error :: "job_error \<Rightarrow> product_error" where
  "job_product_error e = \<lparr>peContractVersion = ContractVersion, peCode = jeCode e, peMessage = jeMessage e, peRetryable = jeRetryable e\<rparr>"

definition active_state :: "(int \<Rightarrow> int \<Rightarrow> rat) \<Rightarrow> job_snapshot \<Rightarrow> task_state" where
  "active_state quot task =
     \<lparr>fsTaskID = jsJobID task, fsState = (if jsState task = ''queued'' then ''pending'' else ''running''),
      fsProgress = (if 0 < jsTotal task then quot (jsCompleted task) (jsTotal task) else 0),
      fsCursor = (if jsLastRecordID task \<noteq> [] then Some (''row:'' @ jsLastRecordID task) else None),
      fsError = map_option job_product_error (jsError task)\<rparr>"

fun terminal_notices :: "decoders \<Rightarrow> hub_event list \<Rightarrow> hub_error + task_event list" where
  "terminal_notices de [] = Inr []"
| "terminal_notices de (e # es) =
     (if evTopic e \<noteq> ''task.changed'' then terminal_notices de es
      else case deTask de (evPayload e) of None \<Rightarrow> Inl corruptOutbox
      | Some task \<Rightarrow> (case terminal_notices de es of Inl err \<Rightarrow> Inl err
          | Inr ts \<Rightarrow> Inr (if tcState task \<in> {''succeeded'', ''failed'', ''cancelled''} then task # ts else ts)))"

definition active_error :: "active_failure \<Rightarrow> hub_error" where
  "active_error f = (case f of OtherFailure e \<Rightarrow> Failure e
   | JobFailure e \<Rightarrow> HubError (if jeCode e = ''job.resume_limit'' then ''realtime.recovery_limit''
       else if jeCode e = ''job.storage_corrupt'' then ''realtime.storage_corrupt'' else ''realtime.storage_failed'')
       (jeMessage e) (jeRetryable e))"

text \<open>The cursor of a request: \<^const>\<open>None\<close> when it is not the text of a row identifier.\<close>

definition request_cursor :: "string \<Rightarrow> int option" where
  "request_cursor after = (if after = [] then Some 0
     else case parse_int64 (trim_prefix ''rt:'' after) of None \<Rightarrow> None
     | Some cursor \<Rightarrow> if cursor < 0 \<or> after \<noteq> cursor_text cursor then None else Some cursor)"

text \<open>The loop over the rows: the events and where the rest of the feed starts.\<close>

fun recovery_rows :: "recovery_env \<Rightarrow> decoders \<Rightarrow> string \<Rightarrow> int \<Rightarrow> nat \<Rightarrow> outboxRow list \<Rightarrow> nat option
  \<Rightarrow> hub_error + hub_event list \<times> nat option" where
  "recovery_rows re de after cursor index [] start = Inr ([], start)"
| "recovery_rows re de after cursor index (row # rows) start =
     (case reContext re (1 + index) of Some e \<Rightarrow> Inl (Cancelled e)
      | None \<Rightarrow>
          (case decodeOutboxRow de row of Inl e \<Rightarrow> Inl e
           | Inr event \<Rightarrow>
               map_sum id (apfst (Cons event))
                 (recovery_rows re de after cursor (index + 1) rows
                    (if after \<noteq> [] \<and> cursor = orRowID row then Some (index + 1) else start))))"

definition snapshot_event :: "recovery_env \<Rightarrow> decoders \<Rightarrow> int \<Rightarrow> hub_event list \<Rightarrow> hub_error + hub_event" where
  "snapshot_event re de highWater events =
     (case reActive re of Inl f \<Rightarrow> Inl (active_error f)
      | Inr active \<Rightarrow>
          (case terminal_notices de events of Inl e \<Rightarrow> Inl e
           | Inr notices \<Rightarrow>
               (case reMarshal re \<lparr>rsContractVersion = ContractVersion, rsTopic = ''realtime.recovered'',
                     rsActiveFormulaTasks = map (active_state (reDivide re)) active, rsTerminalNotifications = notices\<rparr> of
                  Inl e \<Rightarrow> Inl (Failure e)
                | Inr raw \<Rightarrow>
                    if MaxRecoveryBytes < int (length raw)
                    then Inl (hub_error ''recovery_limit'' ''complete realtime recovery exceeds the wire budget'')
                    else Inr \<lparr>evID = [], evTopic = ''realtime.recovered'', evPayload = raw, evCursor = cursor_text highWater\<rparr>)))"

definition read_snapshot :: "recovery_env \<Rightarrow> decoders \<Rightarrow> outboxRow list \<Rightarrow> string \<Rightarrow> int \<Rightarrow> hub_error + hub_event list" where
  "read_snapshot re de stored after cursor =
     (if reReadFails re then Inl (hub_retry ''storage_failed'' ''realtime outbox could not be read'')
      else let rows = latest_rows stored in
        if after \<noteq> [] \<and> last_row rows < cursor
        then Inl (hub_error ''cursor_future'' ''realtime cursor is ahead of durable storage'')
        else case recovery_rows re de after cursor 0 rows
               (if after = ''rt:0'' \<and> (rows = [] \<or> orRowID (hd rows) = 1) then Some 0 else None) of
          Inl e \<Rightarrow> Inl e
        | Inr (events, start) \<Rightarrow>
            (case (if after = [] then None else start) of
               Some n \<Rightarrow> Inr (drop n events)
             | None \<Rightarrow>
                 if after \<noteq> [] \<and> (rows = [] \<or> orRowID (hd rows) \<le> cursor)
                 then Inl (hub_error ''cursor_unknown'' ''realtime cursor is unknown'')
                 else (case snapshot_event re de (last_row rows) events of Inl e \<Rightarrow> Inl e
                   | Inr event \<Rightarrow>
                       (case reContext re (1 + length rows) of Some e \<Rightarrow> Inl (Cancelled e) | None \<Rightarrow> Inr [event]))))"

text \<open>The last call of \<open>ctx.Err()\<close> comes after all others.\<close>

definition recoveryBacklog :: "recovery_env \<Rightarrow> decoders \<Rightarrow> bool \<Rightarrow> outboxRow list \<Rightarrow> string \<Rightarrow> hub_error + hub_event list \<times> int" where
  "recoveryBacklog re de app stored after =
     (case reContext re 0 of Some e \<Rightarrow> Inl (Cancelled e)
      | None \<Rightarrow>
          if \<not> app then Inl (hub_retry ''unavailable'' ''realtime storage is unavailable'')
          else (case request_cursor after of
              None \<Rightarrow> Inl (hub_error ''cursor_invalid'' ''realtime cursor is invalid'')
            | Some cursor \<Rightarrow>
                if \<not> reCommitted re then Inl (hub_retry ''unavailable'' ''realtime recovery requires a committed app'')
                else
                  let outcome = (case reBegin re of Some e \<Rightarrow> Inl (Failure e)
                        | None \<Rightarrow> (case read_snapshot re de stored after cursor of Inl e \<Rightarrow> Inl e
                            | Inr backlog \<Rightarrow> (case reCommit re of Some e \<Rightarrow> Inl (Failure e) | None \<Rightarrow> Inr backlog)))
                  in (case reContext re (2 + length (latest_rows stored)) of Some e \<Rightarrow> Inl (Cancelled e)
                    | None \<Rightarrow> map_sum id (\<lambda>backlog. (backlog, last_row (latest_rows stored))) outcome)))"

section \<open>Task events\<close>

text \<open>SHA-256 with the first twelve bytes in hexadecimal, the time now, the JSON encoder and the faults of
  storing the row.\<close>

record task_env =
  teHash :: "string \<Rightarrow> string"
  teNow :: string
  teMarshal :: "task_event \<Rightarrow> go_error + string"
  teDivide :: "int \<Rightarrow> int \<Rightarrow> rat"
  teFind :: "go_error option"
  teCollection :: "go_error option"
  teSave :: "go_error option"

definition nul :: string where "nul = [CHR 0x00]"

definition event_state :: "job_snapshot \<Rightarrow> string" where
  "event_state s = (if jsState s = ''queued'' then ''pending'' else if jsState s = ''complete'' then ''succeeded''
     else if jsState s = ''failed'' then ''failed'' else if jsState s = ''cancelled'' then ''cancelled'' else ''running'')"

definition terminal :: "string \<Rightarrow> bool" where
  "terminal state \<longleftrightarrow> state \<in> {''succeeded'', ''failed'', ''cancelled''}"

definition task_event_of :: "task_env \<Rightarrow> job_snapshot \<Rightarrow> task_event" where
  "task_event_of te s =
     (let state = event_state s;
          sequence = (if state = ''pending'' then 1 else 2 + jsCompleted s);
          identity = jsJobID s @ nul @ state @ nul @ int_text (jsCompleted s) @ nul @ jsLastRecordID s
      in \<lparr>tcContractVersion = ContractVersion, tcTopic = ''task.changed'', tcEventID = ''evt_task_'' @ teHash te identity,
          tcSequence = (if terminal state then sequence + 1 else sequence), tcOccurredAt = teNow te, tcTaskID = jsJobID s,
          tcTaskType = ''formulaBackfill'', tcState = state,
          tcProgress = (if state = ''succeeded'' then 1 else if 0 < jsTotal s then teDivide te (jsCompleted s) (jsTotal s) else 0),
          tcCursor = (if jsLastRecordID s \<noteq> [] then Some (''row:'' @ jsLastRecordID s) else None),
          tcError = map_option job_product_error (jsError s)\<rparr>)"

text \<open>SQLite gives a new row the identifier after the greatest; the trigger of
  \<open>migrations/2026072404_realtime_outbox_retention.go\<close> then keeps the latest rows.\<close>

definition insert_outbox :: "string \<Rightarrow> string \<Rightarrow> string \<Rightarrow> outboxRow list \<Rightarrow> outboxRow list" where
  "insert_outbox eventID topic payload rows =
     rows @ [\<lparr>orRowID = fold (\<lambda>row m. max m (orRowID row)) rows 0 + 1, orEventID = eventID, orTopic = topic, orPayload = payload\<rparr>]"

definition retain_latest :: "outboxRow list \<Rightarrow> outboxRow list" where
  "retain_latest rows =
     (let ids = rev (sort (map orRowID rows))
      in if int (length ids) \<le> maxCatchupEvents then rows
         else filter (\<lambda>row. ids ! nat maxCatchupEvents < orRowID row) rows)"

definition append_outbox :: "string \<Rightarrow> string \<Rightarrow> string \<Rightarrow> outboxRow list \<Rightarrow> outboxRow list" where
  "append_outbox eventID topic payload rows = retain_latest (insert_outbox eventID topic payload rows)"

definition PersistTaskChanged :: "task_env \<Rightarrow> go_error option \<Rightarrow> bool \<Rightarrow> job_snapshot \<Rightarrow> outboxRow list
  \<Rightarrow> hub_error option \<times> outboxRow list" where
  "PersistTaskChanged te cancelled app s rows =
     (case cancelled of Some e \<Rightarrow> (Some (Cancelled e), rows)
      | None \<Rightarrow>
          let event = task_event_of te s in
          (case teMarshal te event of Inl e \<Rightarrow> (Some (Failure e), rows)
           | Inr raw \<Rightarrow>
               if \<not> app then (Some (Failure (Err ''realtime storage is unavailable'')), rows)
               else (case teFind te of Some e \<Rightarrow> (Some (Failure e), rows)
                 | None \<Rightarrow>
                     if list_ex (\<lambda>row. orEventID row = tcEventID event) rows then (None, rows)
                     else (case teCollection te of Some e \<Rightarrow> (Some (Failure e), rows)
                       | None \<Rightarrow>
                           (case teSave te of Some e \<Rightarrow> (Some (Failure e), rows)
                            | None \<Rightarrow> (None, append_outbox (tcEventID event) (tcTopic event) raw rows))))))"

definition PublishTaskChanged :: "task_env \<Rightarrow> go_error option \<Rightarrow> go_error option \<Rightarrow> decoders \<Rightarrow> bool \<Rightarrow> job_snapshot
  \<Rightarrow> outboxRow list \<Rightarrow> hub \<Rightarrow> ((hub_error option \<times> hub) \<times> outboxRow list) option" where
  "PublishTaskChanged te cancelled cancelled' de fails s rows h =
     (case cancelled of Some e \<Rightarrow> Some ((Some (Cancelled e), h), rows)
      | None \<Rightarrow>
          (case PersistTaskChanged te cancelled' (hbApp h) s rows of
             (Some e, rows) \<Rightarrow> Some ((Some e, h), rows)
           | (None, rows) \<Rightarrow> map_option (\<lambda>r. (r, rows)) (drainDurable de fails rows h)))"

end
