(* ===== verification/Realtime_Delivery.thy ===== *)
theory Realtime_Delivery
  imports Realtime_Hub
begin

text \<open>
  What subscribers get. The outbox, the hub and its clients are a transition system: rows are committed,
  the hub drains them, clients subscribe, read their channels and leave. The events of each connection
  are exactly the rows of one stretch of the outbox, in order, each once.
\<close>

section \<open>Rows in order\<close>

text \<open>Rows numbered one after the other from \<open>k + 1\<close>.\<close>

fun numbered :: "int \<Rightarrow> outboxRow list \<Rightarrow> bool" where
  "numbered k [] \<longleftrightarrow> True"
| "numbered k (row # rows) \<longleftrightarrow> orRowID row = k + 1 \<and> numbered (k + 1) rows"

definition outbox_log :: "int \<Rightarrow> outboxRow list \<Rightarrow> bool" where
  "outbox_log k rows \<longleftrightarrow> 0 \<le> k \<and> numbered k rows \<and> (rows = [] \<longrightarrow> k = 0)"

definition rows_between :: "outboxRow list \<Rightarrow> int \<Rightarrow> int \<Rightarrow> outboxRow list" where
  "rows_between rows a b = filter (\<lambda>row. a < orRowID row \<and> orRowID row \<le> b) rows"

text \<open>The rows the table keeps of all rows there ever were.\<close>

definition retained :: "outboxRow list \<Rightarrow> outboxRow list" where
  "retained hist = drop (nat (int (length hist) - maxCatchupEvents)) hist"

lemma numbered_append: "numbered k (xs @ ys) \<longleftrightarrow> numbered k xs \<and> numbered (k + int (length xs)) ys"
  by (induction xs arbitrary: k) (auto simp: algebra_simps)

lemma numbered_drop: "numbered k rows \<Longrightarrow> numbered (k + int (min n (length rows))) (drop n rows)"
  using numbered_append [of k "take n rows" "drop n rows"] by (simp add: min.commute)

lemma numbered_ids: "numbered k rows \<Longrightarrow> row \<in> set rows \<Longrightarrow> k < orRowID row \<and> orRowID row \<le> k + int (length rows)"
  by (induction rows arbitrary: k) fastforce+

lemma numbered_sorted: "numbered k rows \<Longrightarrow> sorted (map orRowID rows)"
proof (induction rows arbitrary: k)
  case (Cons row rows)
  then show ?case using numbered_ids [of "k + 1" rows] by fastforce
qed simp

lemma numbered_last: "numbered k rows \<Longrightarrow> rows \<noteq> [] \<Longrightarrow> orRowID (last rows) = k + int (length rows)"
  by (induction rows arbitrary: k) (auto simp: algebra_simps)

lemma log_last: "outbox_log k rows \<Longrightarrow> last_row rows = k + int (length rows)"
  by (auto simp: outbox_log_def last_row_def numbered_last)

lemma numbered_above: "numbered k rows \<Longrightarrow> filter (\<lambda>row. a < orRowID row) rows = drop (nat (a - k)) rows"
proof (induction rows arbitrary: k)
  case (Cons row rows)
  show ?case
  proof (cases "a \<le> k")
    case True
    then show ?thesis using Cons numbered_ids [of "k + 1" rows] by (fastforce simp: filter_True)
  next
    case False
    then have "nat (a - k) = Suc (nat (a - (k + 1)))" by simp
    then show ?thesis using Cons False by simp
  qed
qed simp

lemma numbered_upto: "numbered k rows \<Longrightarrow> filter (\<lambda>row. orRowID row \<le> b) rows = take (nat (b - k)) rows"
proof (induction rows arbitrary: k)
  case (Cons row rows)
  show ?case
  proof (cases "b \<le> k")
    case True
    then show ?thesis using Cons.prems numbered_ids [of k "row # rows"] by (fastforce simp: filter_empty_conv)
  next
    case False
    then have "nat (b - k) = Suc (nat (b - (k + 1)))" by simp
    then show ?thesis using Cons False by simp
  qed
qed simp

lemma rows_between_eq: "numbered k rows \<Longrightarrow> rows_between rows a b = drop (nat (a - k)) (take (nat (b - k)) rows)"
proof -
  assume rows: "numbered k rows"
  have "rows_between rows a b = filter (\<lambda>row. orRowID row \<le> b) (filter (\<lambda>row. a < orRowID row) rows)"
    by (simp add: rows_between_def conj_commute)
  also have "\<dots> = filter (\<lambda>row. orRowID row \<le> b) (drop (nat (a - k)) rows)" by (simp only: numbered_above [OF rows])
  also have "\<dots> = filter (\<lambda>row. a < orRowID row) (filter (\<lambda>row. orRowID row \<le> b) rows)"
    by (simp only: numbered_above [OF rows, symmetric] filter_filter conj_commute)
  also have "\<dots> = drop (nat (a - k)) (take (nat (b - k)) rows)"
  proof -
    have "numbered k (take (nat (b - k)) rows)" using numbered_append [of k "take (nat (b - k)) rows" "drop (nat (b - k)) rows"] rows by simp
    then show ?thesis by (simp only: numbered_upto [OF rows] numbered_above)
  qed
  finally show ?thesis .
qed

lemma rows_between_empty [simp]: "rows_between rows a a = []"
  by (auto simp: rows_between_def filter_empty_conv)

lemma rows_between_snoc: "rows_between (hist @ [row]) a b = rows_between hist a b @ (if a < orRowID row \<and> orRowID row \<le> b then [row] else [])"
  by (simp add: rows_between_def)

lemma log_retained:
  assumes "outbox_log k hist"
  shows "\<exists>k'. outbox_log k' (retained hist) \<and> last_row (retained hist) = last_row hist \<and> int (length (retained hist)) \<le> maxCatchupEvents"
proof (cases "hist = []")
  case False
  let ?n = "nat (int (length hist) - maxCatchupEvents)"
  have n: "?n < length hist" using False by (cases hist) (simp_all add: maxCatchupEvents_def)
  then have ne: "retained hist \<noteq> []" by (simp add: retained_def)
  have "numbered (k + int (min ?n (length hist))) (retained hist)" using assms by (simp add: retained_def outbox_log_def numbered_drop)
  then have k: "outbox_log (k + int ?n) (retained hist)" using assms n ne by (auto simp: outbox_log_def)
  moreover have "last (retained hist) = last hist" using n by (simp add: retained_def)
  then have "last_row (retained hist) = last_row hist" using ne False by (simp add: last_row_def)
  moreover have "int (length (retained hist)) \<le> maxCatchupEvents" by (simp add: retained_def maxCatchupEvents_def)
  ultimately show ?thesis by blast
qed (use assms in \<open>auto simp: retained_def outbox_log_def last_row_def maxCatchupEvents_def\<close>)

lemma log_latest:
  assumes "outbox_log k rows" "int (length rows) \<le> maxCatchupEvents"
  shows "latest_rows rows = rows"
proof -
  have "sorted (map orRowID rows)" using assms(1) by (auto simp: outbox_log_def intro: numbered_sorted)
  then have "sort_key orRowID rows = rows" by (rule sort_key_id_if_sorted)
  then show ?thesis using assms(2) by (simp add: latest_rows_def)
qed

text \<open>Committing a row appends it to the log and leaves the latest rows in the table.\<close>

lemma max_rowid: "numbered k rows \<Longrightarrow> m \<le> k + int (length rows) \<Longrightarrow> rows \<noteq> [] \<Longrightarrow> fold (\<lambda>row m. max m (orRowID row)) rows m = k + int (length rows)"
proof (induction rows arbitrary: k m)
  case (Cons row rows)
  then show ?case by (cases "rows = []") (auto simp: algebra_simps)
qed simp

lemma append_retained:
  assumes "outbox_log k hist"
  shows "append_outbox i t p (retained hist) = retained (hist @ [\<lparr>orRowID = last_row hist + 1, orEventID = i, orTopic = t, orPayload = p\<rparr>])"
    and "outbox_log k (hist @ [\<lparr>orRowID = last_row hist + 1, orEventID = i, orTopic = t, orPayload = p\<rparr>])"
proof -
  let ?row = "\<lparr>orRowID = last_row hist + 1, orEventID = i, orTopic = t, orPayload = p\<rparr>"
  show hist: "outbox_log k (hist @ [?row])"
    using assms log_last [OF assms] by (simp add: outbox_log_def numbered_append)
  obtain k' where k': "outbox_log k' (retained hist)" "last_row (retained hist) = last_row hist" "int (length (retained hist)) \<le> maxCatchupEvents"
    using log_retained [OF assms] by blast
  have "fold (\<lambda>row m. max m (orRowID row)) (retained hist) 0 = last_row hist"
  proof (cases "retained hist = []")
    case False
    then show ?thesis using max_rowid [of k' "retained hist" 0] k' log_last [OF k'(1)] by (simp add: outbox_log_def)
  qed (use k' in \<open>simp add: last_row_def\<close>)
  then have ins: "insert_outbox i t p (retained hist) = retained hist @ [?row]" by (simp add: insert_outbox_def)
  have n: "numbered k' (retained hist @ [?row])" using k' log_last [OF k'(1)] by (simp add: outbox_log_def numbered_append)
  let ?rows = "retained hist @ [?row]"
  have sorted: "rev (sort (map orRowID ?rows)) = rev (map orRowID ?rows)" using numbered_sorted [OF n] by (simp add: sorted_sort_id)
  have "retain_latest ?rows = drop (nat (int (length ?rows) - maxCatchupEvents)) ?rows"
  proof (cases "int (length ?rows) \<le> maxCatchupEvents")
    case True
    then show ?thesis by (simp add: retain_latest_def Let_def)
  next
    case False
    then have len: "length ?rows = 10001" using k'(3) by (simp add: maxCatchupEvents_def)
    have first: "orRowID (hd ?rows) = k' + 1" using n by (cases ?rows) simp_all
    have "rev (map orRowID ?rows) ! 10000 = orRowID (hd ?rows)" using len
      by (subst rev_nth) (simp_all add: hd_conv_nth nth_append)
    then have "retain_latest ?rows = filter (\<lambda>row. k' + 1 < orRowID row) ?rows"
      using False sorted first by (simp add: retain_latest_def Let_def maxCatchupEvents_def)
    then show ?thesis using numbered_above [OF n, of "k' + 1"] len by (simp add: maxCatchupEvents_def)
  qed
  moreover have "drop (nat (int (length ?rows) - maxCatchupEvents)) ?rows = retained (hist @ [?row])"
  proof (cases "10000 \<le> length hist")
    case True
    then have "nat (int (length hist) - 9999) = Suc (nat (int (length hist) - 10000))" by simp
    then show ?thesis using True by (simp add: retained_def maxCatchupEvents_def)
  qed (simp add: retained_def maxCatchupEvents_def)
  ultimately show "append_outbox i t p (retained hist) = retained (hist @ [?row])" by (simp add: append_outbox_def ins)
qed


section \<open>Publishing\<close>

definition hub_ok :: "int \<Rightarrow> hub \<Rightarrow> bool" where
  "hub_ok newest h \<longleftrightarrow> distinct (map fst (hbSubscribers h)) \<and> distinct (map (sbEvents \<circ> snd) (hbSubscribers h))
     \<and> (\<forall>x \<in> set (hbSubscribers h). fst x \<le> hbNextID h \<and> sbEvents (snd x) < length (hbChannels h)
          \<and> \<not> chClosed (hbChannels h ! sbEvents (snd x)) \<and> 0 \<le> sbReplayedThrough (snd x) \<and> sbReplayedThrough (snd x) \<le> newest)
     \<and> 0 \<le> hbHighWater h \<and> hbHighWater h \<le> newest \<and> hbApp h"

definition skipped :: "int \<Rightarrow> subscriber \<Rightarrow> bool" where
  "skipped r s \<longleftrightarrow> 0 < r \<and> r \<le> sbReplayedThrough s"

definition full_channel :: "channel \<Rightarrow> bool" where
  "full_channel ch \<longleftrightarrow> subscriberQueue \<le> int (length (chBuffer ch))"

definition published :: "hub_event \<Rightarrow> int \<Rightarrow> subscriber \<Rightarrow> channel \<Rightarrow> channel" where
  "published e r s ch = (if skipped r s then ch else if full_channel ch then ch\<lparr>chClosed := True\<rparr> else ch\<lparr>chBuffer := chBuffer ch @ [e]\<rparr>)"

definition kept :: "int \<Rightarrow> channel list \<Rightarrow> u64 \<times> subscriber \<Rightarrow> bool" where
  "kept r chans x \<longleftrightarrow> skipped r (snd x) \<or> \<not> full_channel (chans ! sbEvents (snd x))"

lemma publish_each_spec:
  assumes "distinct (map (sbEvents \<circ> snd) ss)"
    and "\<And>x. x \<in> set ss \<Longrightarrow> sbEvents (snd x) < length chans \<and> \<not> chClosed (chans ! sbEvents (snd x))"
  shows "\<exists>chans'. publish_each e r ss chans = Some (filter (kept r chans) ss, chans') \<and> length chans' = length chans
    \<and> (\<forall>x \<in> set ss. chans' ! sbEvents (snd x) = published e r (snd x) (chans ! sbEvents (snd x)))
    \<and> (\<forall>c. c \<notin> (sbEvents \<circ> snd) ` set ss \<longrightarrow> chans' ! c = chans ! c)"
  using assms
proof (induction ss arbitrary: chans)
  case (Cons x ss)
  obtain i s where x: "x = (i, s)" by (cases x)
  let ?c = "sbEvents s"
  let ?ch = "published e r s (chans ! ?c)"
  let ?chans = "chans[?c := ?ch]"
  have c: "?c < length chans" "\<not> chClosed (chans ! ?c)" "?c \<notin> (sbEvents \<circ> snd) ` set ss"
    using Cons.prems(2) [of x] Cons.prems(1) by (simp_all add: x)
  have same: "?chans ! sbEvents (snd y) = chans ! sbEvents (snd y)" if "y \<in> set ss" for y
    using c(3) that by (intro nth_list_update_neq) auto
  have "\<exists>chans'. publish_each e r ss ?chans = Some (filter (kept r ?chans) ss, chans') \<and> length chans' = length ?chans
    \<and> (\<forall>x \<in> set ss. chans' ! sbEvents (snd x) = published e r (snd x) (?chans ! sbEvents (snd x)))
    \<and> (\<forall>c. c \<notin> (sbEvents \<circ> snd) ` set ss \<longrightarrow> chans' ! c = ?chans ! c)"
    by (rule Cons.IH) (use Cons.prems same in \<open>auto\<close>)
  then obtain chans' where run: "publish_each e r ss ?chans = Some (filter (kept r ?chans) ss, chans')" and len: "length chans' = length chans"
    and upd: "\<And>y. y \<in> set ss \<Longrightarrow> chans' ! sbEvents (snd y) = published e r (snd y) (?chans ! sbEvents (snd y))"
    and rest: "\<And>c. c \<notin> (sbEvents \<circ> snd) ` set ss \<Longrightarrow> chans' ! c = ?chans ! c" by auto
  have "kept r ?chans y = kept r chans y" if "y \<in> set ss" for y using same [OF that] by (simp add: kept_def)
  then have keep: "filter (kept r ?chans) ss = filter (kept r chans) ss" by (rule filter_cong [OF refl])
  have "publish_each e r (x # ss) chans = Some (filter (kept r chans) (x # ss), chans')"
    using run c(1,2) unfolding keep x
    by (auto simp: published_def skipped_def full_channel_def kept_def try_send_def close_channel_def Let_def list_update_id)
  moreover have "chans' ! sbEvents (snd y) = published e r (snd y) (chans ! sbEvents (snd y))" if "y \<in> set (x # ss)" for y
    using that upd [of y] same [of y] rest [OF c(3)] c(1) x by auto
  moreover have "chans' ! d = chans ! d" if "d \<notin> (sbEvents \<circ> snd) ` set (x # ss)" for d
    using that rest [of d] x by auto
  ultimately show ?case using len by blast
qed simp

lemma publish_spec:
  assumes "hub_ok newest h"
  shows "\<exists>chans. publishLocked e r h = Some (h\<lparr>hbSubscribers := filter (kept r (hbChannels h)) (hbSubscribers h), hbChannels := chans\<rparr>)
    \<and> length chans = length (hbChannels h)
    \<and> (\<forall>x \<in> set (hbSubscribers h). chans ! sbEvents (snd x) = published e r (snd x) (hbChannels h ! sbEvents (snd x)))
    \<and> (\<forall>c. c \<notin> (sbEvents \<circ> snd) ` set (hbSubscribers h) \<longrightarrow> chans ! c = hbChannels h ! c)"
proof -
  have "distinct (map (sbEvents \<circ> snd) (hbSubscribers h))"
    and "\<And>x. x \<in> set (hbSubscribers h) \<Longrightarrow> sbEvents (snd x) < length (hbChannels h) \<and> \<not> chClosed (hbChannels h ! sbEvents (snd x))"
    using assms by (auto simp: hub_ok_def)
  from publish_each_spec [OF this, of e r] show ?thesis by (auto simp: publishLocked_def)
qed

lemma publish_hub_ok:
  assumes ok: "hub_ok newest h" and run: "publishLocked e r h = Some h'"
  shows "hub_ok newest h'" "hbHighWater h' = hbHighWater h" "hbNextID h' = hbNextID h"
proof -
  obtain chans where c: "h' = h\<lparr>hbSubscribers := filter (kept r (hbChannels h)) (hbSubscribers h), hbChannels := chans\<rparr>"
    "length chans = length (hbChannels h)"
    "\<And>x. x \<in> set (hbSubscribers h) \<Longrightarrow> chans ! sbEvents (snd x) = published e r (snd x) (hbChannels h ! sbEvents (snd x))"
    using publish_spec [OF ok, of e r] run by auto
  have "\<not> chClosed (chans ! sbEvents (snd x))" if "x \<in> set (hbSubscribers h)" "kept r (hbChannels h) x" for x
    using that c(3) [OF that(1)] ok by (auto simp: published_def kept_def hub_ok_def)
  then show "hub_ok newest h'" using ok c(1,2) by (auto simp: hub_ok_def distinct_map_filter)
  show "hbHighWater h' = hbHighWater h" "hbNextID h' = hbNextID h" by (simp_all add: c(1))
qed

section \<open>Connections\<close>

text \<open>A client's connection: the cursor it asked with, the row before the oldest one retained then, what
  \<open>Subscribe\<close> returned and what the client has read off the channel.\<close>

record connection =
  cnAfter :: string
  cnFrom :: int
  cnSub :: subscription
  cnReceived :: "hub_event list"

definition durable :: "hub_event list \<Rightarrow> hub_event list" where
  "durable es = filter (\<lambda>e. evCursor e \<noteq> [] \<and> evTopic e \<noteq> ''realtime.recovered'') es"

definition stream :: "channel list \<Rightarrow> connection \<Rightarrow> hub_event list" where
  "stream chans c = durable (suBacklog (cnSub c) @ cnReceived c @ chBuffer (chans ! suEvents (cnSub c)))"

text \<open>Where a connection starts: after the row its snapshot was taken at, after the row of its cursor, or
  without a cursor at the oldest retained row.\<close>

definition resumes :: "outboxRow list \<Rightarrow> string \<Rightarrow> int \<Rightarrow> hub_event list \<Rightarrow> int \<Rightarrow> bool" where
  "resumes rows after oldest backlog start \<longleftrightarrow>
     (\<exists>e. backlog = [e] \<and> evTopic e = ''realtime.recovered'' \<and> evCursor e = cursor_text start)
     \<or> after = cursor_text start \<or> after = [] \<and> start = oldest
     \<or> (\<exists>row \<in> set rows. orRowID row = start \<and> orEventID row = after)"

definition live :: "hub \<Rightarrow> connection \<Rightarrow> bool" where
  "live h c \<longleftrightarrow> (\<exists>x \<in> set (hbSubscribers h). sbEvents (snd x) = suEvents (cnSub c))"

text \<open>The connection carries exactly the rows from its start up to some row, for a live one up to the last
  row drained or replayed.\<close>

definition carries :: "decoders \<Rightarrow> outboxRow list \<Rightarrow> hub \<Rightarrow> connection \<Rightarrow> int \<Rightarrow> int \<Rightarrow> bool" where
  "carries de hist h c start until \<longleftrightarrow> resumes hist (cnAfter c) (cnFrom c) (suBacklog (cnSub c)) start \<and> start \<le> until \<and> until \<le> last_row hist
     \<and> map (decodeOutboxRow de) (rows_between hist start until) = map Inr (stream (hbChannels h) c)
     \<and> (\<forall>x \<in> set (hbSubscribers h). sbEvents (snd x) = suEvents (cnSub c) \<longrightarrow> until = max (sbReplayedThrough (snd x)) (hbHighWater h))"

definition conn_ok :: "decoders \<Rightarrow> outboxRow list \<Rightarrow> hub \<Rightarrow> connection \<Rightarrow> bool" where
  "conn_ok de hist h c \<longleftrightarrow> suEvents (cnSub c) < length (hbChannels h) \<and> (\<exists>start until. carries de hist h c start until)"

lemma durable_append [simp]: "durable (xs @ ys) = durable xs @ durable ys"
  by (simp add: durable_def)

lemma decoded_durable: "decodeOutboxRow de row = Inr e \<Longrightarrow> durable [e] = [e] \<and> evCursor e = cursor_text (orRowID row) \<and> evID e = orEventID row"
  by (auto simp: decodeOutboxRow_def durable_def cursor_text_def Let_def split: if_splits)

text \<open>What publishing does to a connection.\<close>

lemma publish_stream:
  assumes ok: "hub_ok newest h" and run: "publishLocked e r h = Some h'"
  shows "(\<exists>x \<in> set (hbSubscribers h). sbEvents (snd x) = suEvents (cnSub c) \<and> kept r (hbChannels h) x
        \<and> x \<in> set (hbSubscribers h') \<and> stream (hbChannels h') c = stream (hbChannels h) c @ (if skipped r (snd x) then [] else durable [e]))
    \<or> \<not> live h' c \<and> stream (hbChannels h') c = stream (hbChannels h) c"
proof -
  obtain chans where h': "h' = h\<lparr>hbSubscribers := filter (kept r (hbChannels h)) (hbSubscribers h), hbChannels := chans\<rparr>"
    and upd: "\<And>x. x \<in> set (hbSubscribers h) \<Longrightarrow> chans ! sbEvents (snd x) = published e r (snd x) (hbChannels h ! sbEvents (snd x))"
    and rest: "\<And>c. c \<notin> (sbEvents \<circ> snd) ` set (hbSubscribers h) \<Longrightarrow> chans ! c = hbChannels h ! c"
    using publish_spec [OF ok, of e r] run by auto
  show ?thesis
  proof (cases "\<exists>x \<in> set (hbSubscribers h). sbEvents (snd x) = suEvents (cnSub c)")
    case True
    then obtain x where x: "x \<in> set (hbSubscribers h)" "sbEvents (snd x) = suEvents (cnSub c)" by blast
    have only: "y = x" if "y \<in> set (hbSubscribers h)" "sbEvents (snd y) = suEvents (cnSub c)" for y
    proof -
      have "inj_on (sbEvents \<circ> snd) (set (hbSubscribers h))" using ok by (simp add: hub_ok_def distinct_map)
      then show ?thesis by (rule inj_onD) (use that x in auto)
    qed
    show ?thesis
    proof (cases "kept r (hbChannels h) x")
      case True
      then have "stream (hbChannels h') c = stream (hbChannels h) c @ (if skipped r (snd x) then [] else durable [e])"
        using upd [OF x(1)] x(2) by (auto simp: h' stream_def published_def kept_def)
      then show ?thesis using x True by (intro disjI1 bexI [of _ x]) (simp_all add: h')
    next
      case False
      then have "\<not> live h' c" using only by (auto simp: live_def h')
      moreover have "stream (hbChannels h') c = stream (hbChannels h) c"
        using upd [OF x(1)] x(2) False by (auto simp: h' stream_def published_def kept_def)
      ultimately show ?thesis by blast
    qed
  next
    case False
    then have "suEvents (cnSub c) \<notin> (sbEvents \<circ> snd) ` set (hbSubscribers h)" by fastforce
    then have "stream (hbChannels h') c = stream (hbChannels h) c" using rest by (simp add: h' stream_def)
    moreover have "\<not> live h' c" using False by (auto simp: live_def h')
    ultimately show ?thesis by blast
  qed
qed


section \<open>Draining\<close>

text \<open>No live subscriber is further behind than the table reaches back.\<close>

definition lag_ok :: "outboxRow list \<Rightarrow> hub \<Rightarrow> bool" where
  "lag_ok hist h \<longleftrightarrow> (\<forall>x \<in> set (hbSubscribers h). last_row hist - max (sbReplayedThrough (snd x)) (hbHighWater h) \<le> maxCatchupEvents)"

lemma retained_above: "outbox_log k hist \<Longrightarrow> retained hist = filter (\<lambda>row. last_row hist - maxCatchupEvents < orRowID row) hist"
  using numbered_above [of k hist "last_row hist - maxCatchupEvents"] log_last [of k hist]
  by (simp add: retained_def outbox_log_def algebra_simps)

lemma between_next:
  assumes hist: "numbered k hist" and row: "row \<in> set hist" and ord: "start \<le> until" "until < orRowID row"
    and next_row: "\<And>y. y \<in> set hist \<Longrightarrow> until < orRowID y \<Longrightarrow> orRowID row \<le> orRowID y"
  shows "rows_between hist start (orRowID row) = rows_between hist start until @ [row]"
proof -
  obtain xs ys where h: "hist = xs @ row # ys" using row by (meson split_list)
  have n: "numbered k xs" "orRowID row = k + int (length xs) + 1" "numbered (k + int (length xs) + 1) ys"
    using hist by (simp_all add: h numbered_append)
  have below: "orRowID y \<le> until" if "y \<in> set xs" for y
    using next_row [of y] numbered_ids [OF n(1) that] n(2) that by (fastforce simp: h)
  have above: "orRowID row < orRowID y" if "y \<in> set ys" for y using numbered_ids [OF n(3) that] n(2) by simp
  have "rows_between xs start (orRowID row) = rows_between xs start until"
    unfolding rows_between_def by (rule filter_cong [OF refl]) (use below ord(2) in fastforce)
  moreover have "rows_between ys start (orRowID row) = []" "rows_between ys start until = []"
    unfolding rows_between_def filter_empty_conv using above ord(2) by fastforce+
  ultimately show ?thesis using ord by (simp add: h rows_between_def)
qed

lemma publish_row_keeps:
  assumes hist: "outbox_log k hist" and ok: "hub_ok (last_row hist) h" and run: "publishLocked e (orRowID row) h = Some h'"
    and row: "row \<in> set hist" "decodeOutboxRow de row = Inr e" "hbHighWater h < orRowID row"
    and next_row: "\<And>x y. x \<in> set (hbSubscribers h) \<Longrightarrow> y \<in> set hist \<Longrightarrow> max (sbReplayedThrough (snd x)) (hbHighWater h) < orRowID y
      \<Longrightarrow> orRowID row \<le> orRowID y"
    and conn: "conn_ok de hist h c"
  shows "conn_ok de hist (h'\<lparr>hbHighWater := orRowID row\<rparr>) c"
proof -
  obtain start until where carries: "resumes hist (cnAfter c) (cnFrom c) (suBacklog (cnSub c)) start" "start \<le> until" "until \<le> last_row hist"
      "map (decodeOutboxRow de) (rows_between hist start until) = map Inr (stream (hbChannels h) c)"
    and upd: "\<And>x. x \<in> set (hbSubscribers h) \<Longrightarrow> sbEvents (snd x) = suEvents (cnSub c) \<Longrightarrow> until = max (sbReplayedThrough (snd x)) (hbHighWater h)"
    using conn by (auto simp: conn_ok_def carries_def)
  obtain chans where h': "h' = h\<lparr>hbSubscribers := filter (kept (orRowID row) (hbChannels h)) (hbSubscribers h), hbChannels := chans\<rparr>" "length chans = length (hbChannels h)"
    using publish_spec [OF ok, of e "orRowID row"] run by auto
  have range: "suEvents (cnSub c) < length (hbChannels h')" using conn h' by (simp add: conn_ok_def)
  have pos: "0 < orRowID row" "orRowID row \<le> last_row hist"
    using numbered_ids [of k hist row] row(1) hist log_last [OF hist] by (auto simp: outbox_log_def)
  from publish_stream [OF ok run, of c] show ?thesis
  proof
    assume "\<exists>x \<in> set (hbSubscribers h). sbEvents (snd x) = suEvents (cnSub c) \<and> kept (orRowID row) (hbChannels h) x
        \<and> x \<in> set (hbSubscribers h') \<and> stream (hbChannels h') c = stream (hbChannels h) c @ (if skipped (orRowID row) (snd x) then [] else durable [e])"
    then obtain x where x: "x \<in> set (hbSubscribers h)" "sbEvents (snd x) = suEvents (cnSub c)"
      and str: "stream (hbChannels h') c = stream (hbChannels h) c @ (if skipped (orRowID row) (snd x) then [] else durable [e])" by blast
    have only: "y = x" if "y \<in> set (hbSubscribers h')" "sbEvents (snd y) = suEvents (cnSub c)" for y
    proof -
      have "inj_on (sbEvents \<circ> snd) (set (hbSubscribers h))" using ok by (simp add: hub_ok_def distinct_map)
      then show ?thesis by (rule inj_onD) (use that x h' in auto)
    qed
    let ?until = "max (sbReplayedThrough (snd x)) (orRowID row)"
    have "carries de hist (h'\<lparr>hbHighWater := orRowID row\<rparr>) c start ?until"
    proof (cases "skipped (orRowID row) (snd x)")
      case True
      then have "?until = until" using upd [OF x] row(3) by (simp add: skipped_def)
      then show ?thesis using carries str True only by (auto simp: carries_def)
    next
      case False
      then have u: "?until = orRowID row" "until < orRowID row" using upd [OF x] row(3) pos(1) by (auto simp: skipped_def)
      have "rows_between hist start (orRowID row) = rows_between hist start until @ [row]"
        by (rule between_next [of k]) (use hist row(1) carries(2) u(2) next_row [OF x(1)] upd [OF x] in \<open>auto simp: outbox_log_def\<close>)
      then have "map (decodeOutboxRow de) (rows_between hist start ?until) = map Inr (stream (hbChannels h') c)"
        using carries(4) str False row(2) decoded_durable [OF row(2)] u(1) by simp
      moreover have "sbReplayedThrough (snd x) \<le> last_row hist" using ok x(1) by (simp add: hub_ok_def)
      ultimately show ?thesis using carries(1,2) only u pos(2) by (auto simp: carries_def)
    qed
    then show ?thesis using range unfolding conn_ok_def by auto
  next
    assume dead: "\<not> live h' c \<and> stream (hbChannels h') c = stream (hbChannels h) c"
    then have "carries de hist (h'\<lparr>hbHighWater := orRowID row\<rparr>) c start until"
      using carries by (auto simp: carries_def live_def)
    then show ?thesis using range unfolding conn_ok_def by auto
  qed
qed

text \<open>Everything the transitions keep of the hub and its connections.\<close>

definition hub_inv :: "decoders \<Rightarrow> outboxRow list \<Rightarrow> connection list \<Rightarrow> hub \<Rightarrow> bool" where
  "hub_inv de hist conns h \<longleftrightarrow> hub_ok (last_row hist) h \<and> lag_ok hist h \<and> (\<forall>c \<in> set conns. conn_ok de hist h c)"

lemma publish_row_inv:
  assumes hist: "outbox_log k hist" and inv: "hub_inv de hist conns h" and row: "decodeOutboxRow de row = Inr e"
    and rows: "row # rows = filter (\<lambda>row. hbHighWater h < orRowID row) (retained hist)"
  shows "\<exists>h'. publishLocked e (orRowID row) h = Some h' \<and> hub_inv de hist conns (h'\<lparr>hbHighWater := orRowID row\<rparr>)
    \<and> rows = filter (\<lambda>r. orRowID row < orRowID r) (retained hist)"
proof -
  have ok: "hub_ok (last_row hist) h" and lag: "lag_ok hist h" using inv by (simp_all add: hub_inv_def)
  obtain chans where run: "publishLocked e (orRowID row) h = Some (h\<lparr>hbSubscribers := filter (kept (orRowID row) (hbChannels h)) (hbSubscribers h), hbChannels := chans\<rparr>)"
    using publish_spec [OF ok, of e "orRowID row"] by blast
  let ?h = "h\<lparr>hbSubscribers := filter (kept (orRowID row) (hbChannels h)) (hbSubscribers h), hbChannels := chans\<rparr>"
  obtain k' where k': "outbox_log k' (retained hist)" using log_retained [OF hist] by blast
  have mem: "row \<in> set (row # rows)" by simp
  then have in_row: "row \<in> set (retained hist)" "hbHighWater h < orRowID row" unfolding rows by simp_all
  then have in_hist: "row \<in> set hist" unfolding retained_above [OF hist] by simp
  have num: "numbered (orRowID row - 1) (row # rows)"
  proof -
    have "\<exists>a. numbered a (row # rows)"
      unfolding rows using k' numbered_above [of k' "retained hist"] numbered_drop [of k' "retained hist"] by (metis outbox_log_def)
    then show ?thesis by auto
  qed
  have first: "orRowID row \<le> orRowID y" if "y \<in> set (row # rows)" for y using numbered_ids [OF num that] by simp
  have next_row: "orRowID row \<le> orRowID y"
    if "x \<in> set (hbSubscribers h)" "y \<in> set hist" "max (sbReplayedThrough (snd x)) (hbHighWater h) < orRowID y" for x y
  proof -
    have "y \<in> set (retained hist)" using that lag by (fastforce simp: retained_above [OF hist] lag_ok_def)
    then show ?thesis using that(3) first unfolding rows by simp
  qed
  have "last_row hist \<ge> orRowID row" using numbered_ids [of k hist row] hist in_hist log_last [OF hist] by (simp add: outbox_log_def)
  then have "hub_ok (last_row hist) (?h\<lparr>hbHighWater := orRowID row\<rparr>)"
    using publish_hub_ok [OF ok run] in_row(2) by (simp add: hub_ok_def)
  moreover have "lag_ok hist (?h\<lparr>hbHighWater := orRowID row\<rparr>)" using lag in_row(2) by (fastforce simp: lag_ok_def)
  moreover have "conn_ok de hist (?h\<lparr>hbHighWater := orRowID row\<rparr>) c" if "c \<in> set conns" for c
    by (rule publish_row_keeps [OF hist ok run in_hist row in_row(2) next_row]) (use that inv in \<open>auto simp: hub_inv_def\<close>)
  moreover have "rows = filter (\<lambda>r. orRowID row < orRowID r) (retained hist)"
  proof -
    have "filter (\<lambda>r. orRowID row < orRowID r) (row # rows) = rows"
      using numbered_above [OF num, of "orRowID row"] by simp
    moreover have "filter (\<lambda>r. orRowID row < orRowID r) (row # rows) = filter (\<lambda>r. orRowID row < orRowID r) (retained hist)"
      unfolding rows filter_filter by (rule filter_cong [OF refl]) (use in_row(2) in auto)
    ultimately show ?thesis by simp
  qed
  ultimately show ?thesis using run by (auto simp: hub_inv_def)
qed

lemma drain_rows_inv:
  assumes hist: "outbox_log k hist"
  shows "hub_inv de hist conns h \<Longrightarrow> rows @ rest = filter (\<lambda>row. hbHighWater h < orRowID row) (retained hist) \<Longrightarrow>
    \<exists>r h'. drain_rows de rows h = Some (r, h') \<and> hub_inv de hist conns h' \<and> (r = None \<longrightarrow> filter (\<lambda>row. hbHighWater h' < orRowID row) (retained hist) = rest)
      \<and> ((\<forall>row \<in> set rows. \<not> isl (decodeOutboxRow de row)) \<longrightarrow> r = None)"
proof (induction rows arbitrary: h)
  case (Cons row rows)
  show ?case
  proof (cases "decodeOutboxRow de row")
    case (Inl e)
    then show ?thesis using Cons.prems(1) by simp
  next
    case (Inr e)
    from publish_row_inv [OF hist Cons.prems(1) Inr, of "rows @ rest"] Cons.prems(2) obtain h1 where
      1: "publishLocked e (orRowID row) h = Some h1" "hub_inv de hist conns (h1\<lparr>hbHighWater := orRowID row\<rparr>)"
        "rows @ rest = filter (\<lambda>r. orRowID row < orRowID r) (retained hist)" by auto
    from Cons.IH [OF 1(2)] 1(3) show ?thesis using 1(1) Inr by auto
  qed
qed simp

lemma pending_sorted:
  assumes "outbox_log k hist"
  shows "sort_key orRowID (filter P (retained hist)) = filter P (retained hist)"
proof -
  obtain k' where "outbox_log k' (retained hist)" using log_retained [OF assms] by blast
  then have "sorted (map orRowID (retained hist))" by (auto simp: outbox_log_def intro: numbered_sorted)
  then show ?thesis by (intro sort_key_id_if_sorted sorted_filter)
qed

lemma drain_inv:
  assumes hist: "outbox_log k hist" and inv: "hub_inv de hist conns h"
  shows "\<exists>r h'. drainDurable de fails (retained hist) h = Some (r, h') \<and> hub_inv de hist conns h' \<and> (r = None \<longrightarrow> hbHighWater h' = last_row hist)
    \<and> (\<not> fails \<and> (\<forall>row \<in> set (retained hist). \<not> isl (decodeOutboxRow de row)) \<longrightarrow> r = None)"
proof (cases fails)
  case False
  obtain k' where k': "outbox_log k' (retained hist)" "last_row (retained hist) = last_row hist" using log_retained [OF hist] by blast
  let ?rows = "filter (\<lambda>row. hbHighWater h < orRowID row) (retained hist)"
  have rows: "sort_key orRowID ?rows = ?rows" by (rule pending_sorted [OF hist])
  obtain r h' where r: "drain_rows de ?rows h = Some (r, h')" "hub_inv de hist conns h'"
    "r = None \<longrightarrow> filter (\<lambda>row. hbHighWater h' < orRowID row) (retained hist) = []"
    "(\<forall>row \<in> set ?rows. \<not> isl (decodeOutboxRow de row)) \<longrightarrow> r = None"
    using drain_rows_inv [OF hist inv, of ?rows "[]"] by auto
  have "hbHighWater h' = last_row hist" if "r = None"
  proof (cases "retained hist = []")
    case True
    then show ?thesis using k' r(2) by (simp add: last_row_def hub_inv_def hub_ok_def)
  next
    case ne: False
    then have "last (retained hist) \<in> set (retained hist)" by simp
    then have "\<not> hbHighWater h' < orRowID (last (retained hist))" using r(3) that by (auto simp: filter_empty_conv)
    then have "last_row hist \<le> hbHighWater h'" using k'(2) ne by (simp add: last_row_def)
    then show ?thesis using r(2) by (simp add: hub_inv_def hub_ok_def)
  qed
  moreover have "hbApp h" using inv by (simp add: hub_inv_def hub_ok_def)
  ultimately show ?thesis using r False rows by (auto simp: drainDurable_def)
qed (use inv in \<open>simp add: drainDurable_def hub_inv_def hub_ok_def\<close>)


section \<open>Backlogs\<close>

text \<open>What \<open>subscribe\<close> relies on: a backlog is complete from a legitimate start up to the last row.\<close>

definition oldest_before :: "outboxRow list \<Rightarrow> int" where
  "oldest_before rows = (if rows = [] then 0 else orRowID (hd rows) - 1)"

locale backlog_source =
  fixes de :: decoders and after :: string
    and read_backlog :: "outboxRow list \<Rightarrow> hub_error + hub_event list \<times> int"
  assumes backlog_law: "outbox_log k rows \<Longrightarrow> int (length rows) \<le> maxCatchupEvents \<Longrightarrow> read_backlog rows = Inr (es, hw) \<Longrightarrow>
    hw = last_row rows \<and> (\<exists>start. k \<le> start \<and> start \<le> hw \<and> resumes rows after k es start
      \<and> map (decodeOutboxRow de) (rows_between rows start hw) = map Inr (durable es))"

lemma log_oldest: "outbox_log k rows \<Longrightarrow> oldest_before rows = k"
  by (cases rows) (auto simp: outbox_log_def oldest_before_def)

lemma decode_rows_map: "decode_rows de rows = Inr es \<Longrightarrow> map (decodeOutboxRow de) rows = map Inr es"
  by (induction rows arbitrary: es) (auto split: sum.splits)

lemma decoded_rows_durable: "map (decodeOutboxRow de) rows = map Inr es \<Longrightarrow> durable es = es"
proof (induction rows arbitrary: es)
  case (Cons row rows)
  then obtain e es' where "es = e # es'" "decodeOutboxRow de row = Inr e" "map (decodeOutboxRow de) rows = map Inr es'" by auto
  then show ?case using Cons.IH [of es'] decoded_durable [of de row e] by (simp add: durable_def split: if_splits)
qed (simp add: durable_def)

lemma last_rows: "numbered k rows \<Longrightarrow> n \<le> length rows \<Longrightarrow> rows_between rows (k + int n) (k + int (length rows)) = drop n rows"
  by (simp add: rows_between_eq)

lemma events_after_drop: "events_after cursor es = Some rest \<Longrightarrow> \<exists>i < length es. rest = drop (Suc i) es \<and> (evID (es ! i) = cursor \<or> evCursor (es ! i) = cursor)"
proof (induction es)
  case (Cons e es)
  show ?case
  proof (cases "evID e = cursor \<or> evCursor e = cursor")
    case True
    then show ?thesis using Cons.prems by (intro exI [of _ 0]) auto
  next
    case False
    then obtain i where "i < length es" "rest = drop (Suc i) es" "evID (es ! i) = cursor \<or> evCursor (es ! i) = cursor"
      using Cons by auto
    then show ?thesis by (intro exI [of _ "Suc i"]) auto
  qed
qed simp

lemma catchup_law:
  assumes rows: "outbox_log k rows" "int (length rows) \<le> maxCatchupEvents" and run: "catchup de app fails rows after = Inr (es, hw)"
  shows "hw = last_row rows \<and> (\<exists>start. k \<le> start \<and> start \<le> hw \<and> resumes rows after k es start
      \<and> map (decodeOutboxRow de) (rows_between rows start hw) = map Inr (durable es))"
proof -
  have latest: "latest_rows rows = rows" by (rule log_latest [OF rows])
  have num: "numbered k rows" and last: "last_row rows = k + int (length rows)" using rows(1) log_last by (auto simp: outbox_log_def)
  obtain all where all: "decode_rows de rows = Inr all" using run latest by (cases "decode_rows de rows") (auto simp: catchup_def Let_def split: if_splits)
  note dec = decode_rows_map [OF all]
  then have len: "length all = length rows" by (metis length_map)
  show ?thesis
  proof (cases "after = []")
    case True
    then have "es = all" "hw = last_row rows" using run latest all by (auto simp: catchup_def Let_def split: if_splits)
    moreover have "rows_between rows k (last_row rows) = rows" using last_rows [OF num, of 0] last by simp
    ultimately show ?thesis using True dec decoded_rows_durable [OF dec] last by (intro conjI exI [of _ k]) (simp_all add: resumes_def)
  next
    case False
    then have hw: "events_after after all = Some es" "hw = last_row rows"
      using run latest all by (auto simp: catchup_def Let_def split: if_splits option.splits)
    obtain i where i: "i < length all" "es = drop (Suc i) all" "evID (all ! i) = after \<or> evCursor (all ! i) = after"
      using events_after_drop [OF hw(1)] by blast
    let ?row = "rows ! i" and ?start = "k + int (Suc i)"
    have "decodeOutboxRow de ?row = Inr (all ! i)" using dec i(1) len by (metis nth_map)
    from decoded_durable [OF this] have ev: "evCursor (all ! i) = cursor_text (orRowID ?row)" "evID (all ! i) = orEventID ?row" by simp_all
    have "numbered k (take i rows @ ?row # drop (Suc i) rows)" using num i(1) len by (simp add: id_take_nth_drop [symmetric])
    then have id: "orRowID ?row = ?start" using i(1) len by (simp add: numbered_append)
    have "resumes rows after k es ?start"
    proof (cases "evCursor (all ! i) = after")
      case True
      then show ?thesis using ev(1) id by (simp add: resumes_def)
    next
      case False
      then have "orEventID ?row = after" "?row \<in> set rows" using ev(2) i(1,3) len by simp_all
      then show ?thesis using id unfolding resumes_def by blast
    qed
    moreover have "rows_between rows ?start (last_row rows) = drop (Suc i) rows" using last_rows [OF num, of "Suc i"] last i(1) len by simp
    moreover have d: "map (decodeOutboxRow de) (drop (Suc i) rows) = map Inr es" using dec i(2) by (simp add: drop_map [symmetric])
    moreover have "durable es = es" by (rule decoded_rows_durable [OF d])
    ultimately show ?thesis using hw(2) last i(1) len by (intro conjI exI [of _ ?start]) simp_all
  qed
qed

interpretation catchup: backlog_source de after "\<lambda>rows. catchup de app fails rows after" for de after app fails
  by unfold_locales (rule catchup_law)

lemma recovery_rows_events:
  "recovery_rows re de after cursor index rows start = Inr (es, start') \<Longrightarrow> map (decodeOutboxRow de) rows = map Inr es"
  by (induction rows arbitrary: index start es) (fastforce split: option.splits sum.splits simp: map_sum_def)+

lemma recovery_rows_start:
  assumes "recovery_rows re de after cursor index rows start = Inr (es, start')" "numbered (k + int index) rows"
  shows "start' = (if after \<noteq> [] \<and> k + int index < cursor \<and> cursor \<le> k + int (index + length rows) then Some (nat (cursor - k)) else start)"
  using assms
proof (induction rows arbitrary: index start es)
  case (Cons row rows)
  let ?start = "if after \<noteq> [] \<and> cursor = orRowID row then Some (index + 1) else start"
  obtain es' where rest: "recovery_rows re de after cursor (index + 1) rows ?start = Inr (es', start')"
    using Cons.prems(1) by (cases "recovery_rows re de after cursor (index + 1) rows ?start") (auto split: option.splits sum.splits)
  have "numbered (k + int (index + 1)) rows" "orRowID row = k + int index + 1" using Cons.prems(2) by (simp_all add: algebra_simps)
  from Cons.IH [OF rest this(1)] this(2) show ?case by (auto split: if_splits)
qed auto

lemma recovery_law:
  assumes rows: "outbox_log k rows" "int (length rows) \<le> maxCatchupEvents" and run: "recoveryBacklog re de app rows after = Inr (es, hw)"
  shows "hw = last_row rows \<and> (\<exists>start. k \<le> start \<and> start \<le> hw \<and> resumes rows after k es start
      \<and> map (decodeOutboxRow de) (rows_between rows start hw) = map Inr (durable es))"
proof -
  have latest: "latest_rows rows = rows" by (rule log_latest [OF rows])
  have num: "numbered (k + int 0) rows" and last: "last_row rows = k + int (length rows)" using rows(1) log_last by (auto simp: outbox_log_def)
  have k: "oldest_before rows = k" by (rule log_oldest [OF rows(1)])
  obtain cursor where cursor: "request_cursor after = Some cursor" and snap: "read_snapshot re de rows after cursor = Inr es" and hw: "hw = last_row rows"
    using run latest by (auto simp: recoveryBacklog_def Let_def map_sum_def split: option.splits sum.splits if_splits)
  let ?start = "if after = ''rt:0'' \<and> (rows = [] \<or> orRowID (hd rows) = 1) then Some 0 else None"
  obtain all start where all: "recovery_rows re de after cursor 0 rows ?start = Inr (all, start)" and ahead: "after \<noteq> [] \<longrightarrow> cursor \<le> last_row rows"
    using snap latest by (auto simp: read_snapshot_def Let_def split: sum.splits if_splits)
  note dec = recovery_rows_events [OF all]
  have canon: "after \<noteq> [] \<Longrightarrow> after = cursor_text cursor" using cursor by (auto simp: request_cursor_def split: option.splits if_splits)
  note st = recovery_rows_start [OF all num]
  show ?thesis
  proof (cases "after \<noteq> [] \<and> start \<noteq> None")
    case True
    then obtain n where n: "start = Some n" "es = drop n all" using snap latest all by (auto simp: read_snapshot_def Let_def split: if_splits)
    have "int n = cursor - k \<and> 0 \<le> cursor - k \<and> cursor \<le> k + int (length rows)"
    proof (cases "k < cursor \<and> cursor \<le> k + int (length rows)")
      case True
      then show ?thesis using st n \<open>after \<noteq> [] \<and> start \<noteq> None\<close> by simp
    next
      case False
      then have a: "after = ''rt:0''" "rows = [] \<or> orRowID (hd rows) = 1" "n = 0" using st n by (auto split: if_splits)
      have "k = 0" using k a(2) by (auto simp: oldest_before_def)
      moreover have "cursor_text 0 = ''rt:0''" by (simp add: cursor_text_def int_text_def dec_text_0)
      then have "cursor = 0" using cursor a(1) by (simp add: request_cursor_def trim_prefix_def parse_int64_def parse_digits_def dec_value_def is_digit_def split: option.splits if_splits)
      ultimately show ?thesis using a(3) by simp
    qed
    then have c: "cursor = k + int n" "n \<le> length rows" by simp_all
    have between: "rows_between rows cursor (last_row rows) = drop n rows" using last_rows [of k rows n] num last c by simp
    have d: "map (decodeOutboxRow de) (drop n rows) = map Inr es" using dec n(2) by (simp add: drop_map [symmetric])
    have "durable es = es" by (rule decoded_rows_durable [OF d])
    moreover have "resumes rows after k es cursor" using canon True by (simp add: resumes_def)
    ultimately show ?thesis using hw between d c last by (intro conjI exI [of _ cursor]) simp_all
  next
    case False
    then obtain e where e: "snapshot_event re de (last_row rows) all = Inr e" "es = [e]"
      using snap latest all by (auto simp: read_snapshot_def Let_def split: if_splits sum.splits option.splits)
    then have ev: "evTopic e = ''realtime.recovered''" "evCursor e = cursor_text (last_row rows)"
      by (auto simp: snapshot_event_def split: sum.splits if_splits)
    then have "resumes rows after k es (last_row rows)" "durable es = []" using e(2) by (simp_all add: resumes_def durable_def)
    then show ?thesis using hw last by (intro conjI exI [of _ "last_row rows"]) simp_all
  qed
qed

interpretation recovery: backlog_source de after "\<lambda>rows. recoveryBacklog re de app rows after" for de after app re
  by unfold_locales (rule recovery_law)


section \<open>Subscribing\<close>

lemma rows_between_retained:
  assumes hist: "outbox_log k hist" and start: "oldest_before (retained hist) \<le> start"
  shows "rows_between (retained hist) start until = rows_between hist start until"
proof (cases "retained hist = []")
  case True
  then have "length hist - nat (int (length hist) - 10000) = 0" by (simp only: retained_def maxCatchupEvents_def length_drop [symmetric] list.size)
  then have "hist = []" by (cases hist) simp_all
  then show ?thesis using True by simp
next
  case False
  obtain k' where k': "outbox_log k' (retained hist)" "last_row (retained hist) = last_row hist" "int (length (retained hist)) \<le> maxCatchupEvents"
    using log_retained [OF hist] by blast
  have "k' = oldest_before (retained hist)" using log_oldest [OF k'(1)] by simp
  have "k' \<ge> last_row hist - maxCatchupEvents" using log_last [OF k'(1)] k'(2,3) by simp
  then show ?thesis using start \<open>k' = oldest_before (retained hist)\<close>
    by (auto simp: rows_between_def retained_above [OF hist] filter_filter intro!: filter_cong)
qed

lemma resumes_more: "resumes rows after k es start \<Longrightarrow> set rows \<subseteq> set rows' \<Longrightarrow> resumes rows' after k es start"
  unfolding resumes_def by blast

text \<open>Entering and leaving the list of subscribers.\<close>

lemma update_new: "i \<notin> fst ` set xs \<Longrightarrow> AList.update i v xs = xs @ [(i, v)]"
  by (induction xs) auto

lemma update_last: "i \<notin> fst ` set xs \<Longrightarrow> AList.update i v (xs @ [(i, w)]) = xs @ [(i, v)]"
  by (induction xs) auto

lemma delete_last: "i \<notin> fst ` set xs \<Longrightarrow> AList.delete i (xs @ [(i, w)]) = xs"
  by (induction xs) (auto simp: AList.delete_eq)

lemma new_id:
  assumes "hub_ok newest h" "hbNextID h \<noteq> MaxUint64"
  shows "hbNextID h + 1 \<notin> fst ` set (hbSubscribers h)" "hbNextID h \<le> hbNextID h + 1"
proof -
  show le: "hbNextID h \<le> hbNextID h + 1" using unat_Suc_max [OF assms(2)] by (simp add: word_le_nat_alt)
  show "hbNextID h + 1 \<notin> fst ` set (hbSubscribers h)"
  proof
    assume "hbNextID h + 1 \<in> fst ` set (hbSubscribers h)"
    then have "hbNextID h + 1 \<le> hbNextID h" using assms(1) by (auto simp: hub_ok_def)
    then have "hbNextID h + 1 = hbNextID h" using le by (rule antisym)
    then show False by simp
  qed
qed

text \<open>Other connections do not notice a new channel.\<close>

lemma stream_new: "suEvents (cnSub c) < length chans \<Longrightarrow> stream (chans @ xs) c = stream chans c"
  by (simp add: stream_def nth_append)

lemma conn_new_channel:
  assumes conn: "conn_ok de hist h c" and subs: "hbSubscribers h' = hbSubscribers h \<or> (\<exists>i r. hbSubscribers h' = hbSubscribers h @ [(i, \<lparr>sbEvents = length (hbChannels h), sbReplayedThrough = r\<rparr>)])"
    and rest: "hbChannels h' = hbChannels h @ [ch]" "hbHighWater h' = hbHighWater h"
  shows "conn_ok de hist h' c"
proof -
  have c: "suEvents (cnSub c) < length (hbChannels h)" using conn by (simp add: conn_ok_def)
  have "x \<in> set (hbSubscribers h)" if "x \<in> set (hbSubscribers h')" "sbEvents (snd x) = suEvents (cnSub c)" for x
    using subs that c by auto
  then have "carries de hist h c start until \<Longrightarrow> carries de hist h' c start until" for start until
    using c by (auto simp: carries_def rest stream_new)
  then show ?thesis using conn c by (auto simp: conn_ok_def rest)
qed

context backlog_source
begin

lemma subscribe_keeps:
  assumes hist: "outbox_log k hist" and inv: "hub_inv de hist conns h" and room: "hbNextID h \<noteq> MaxUint64"
  shows "\<exists>r h'. subscribe (read_backlog (retained hist)) h = Some (r, h') \<and> hub_inv de hist conns h'
    \<and> length (hbChannels h) \<le> length (hbChannels h')
    \<and> (\<forall>su. r = Inr su \<longrightarrow> suEvents su = length (hbChannels h) \<and>
        conn_ok de hist h' \<lparr>cnAfter = after, cnFrom = oldest_before (retained hist), cnSub = su, cnReceived = []\<rparr>)"
proof (cases "maxSubscribers \<le> int (length (hbSubscribers h))")
  case True
  then show ?thesis using inv by (simp add: subscribe_def)
next
  case False
  let ?i = "hbNextID h + 1" and ?n = "length (hbChannels h)" and ?chans = "hbChannels h @ [\<lparr>chBuffer = [], chClosed = False\<rparr>]"
  have ok: "hub_ok (last_row hist) h" and lag: "lag_ok hist h" and conns: "\<And>c. c \<in> set conns \<Longrightarrow> conn_ok de hist h c"
    using inv by (simp_all add: hub_inv_def)
  note id = new_id [OF ok room]
  show ?thesis
  proof (cases "read_backlog (retained hist)")
    case (Inl e)
    let ?h = "h\<lparr>hbNextID := ?i, hbChannels := hbChannels h @ [\<lparr>chBuffer = [], chClosed = True\<rparr>]\<rparr>"
    have run: "subscribe (read_backlog (retained hist)) h = Some (Inl e, ?h)"
      using False Inl id(1) by (simp add: subscribe_def Let_def close_channel_def update_new delete_last)
    have "hub_ok (last_row hist) ?h" using ok id(2) by (fastforce simp: hub_ok_def nth_append)
    moreover have "lag_ok hist ?h" using lag by (simp add: lag_ok_def)
    moreover have "conn_ok de hist ?h c" if "c \<in> set conns" for c
      by (rule conn_new_channel [OF conns [OF that]]) simp_all
    ultimately show ?thesis using run by (simp add: hub_inv_def)
  next
    case (Inr y)
    obtain es hw where y: "y = (es, hw)" by (cases y)
    obtain k' where k': "outbox_log k' (retained hist)" "last_row (retained hist) = last_row hist" "int (length (retained hist)) \<le> maxCatchupEvents"
      using log_retained [OF hist] by blast
    obtain start where hw: "hw = last_row hist" and start: "k' \<le> start" "start \<le> hw" "resumes (retained hist) after k' es start"
      "map (decodeOutboxRow de) (rows_between (retained hist) start hw) = map Inr (durable es)"
      using backlog_law [OF k'(1,3)] Inr y k'(2) by auto
    let ?s = "\<lparr>sbEvents = ?n, sbReplayedThrough = hw\<rparr>" and ?su = "\<lparr>suID = ?i, suBacklog = es, suEvents = ?n\<rparr>"
    let ?h = "h\<lparr>hbNextID := ?i, hbChannels := ?chans, hbSubscribers := hbSubscribers h @ [(?i, ?s)]\<rparr>"
    have run: "subscribe (read_backlog (retained hist)) h = Some (Inr ?su, ?h)"
      using False Inr y id(1) by (simp add: subscribe_def Let_def update_new update_last)
    have top: "0 \<le> hw" using log_last [OF hist] hist hw by (simp add: outbox_log_def)
    have "sbEvents (snd x) \<noteq> ?n" if "x \<in> set (hbSubscribers h)" for x using ok that by (auto simp: hub_ok_def)
    then have "hub_ok (last_row hist) ?h" using ok id hw top by (fastforce simp: hub_ok_def nth_append)
    moreover have "lag_ok hist ?h" using lag hw by (simp add: lag_ok_def maxCatchupEvents_def)
    moreover have "conn_ok de hist ?h c" if "c \<in> set conns" for c
      by (rule conn_new_channel [OF conns [OF that]]) simp_all
    moreover have "conn_ok de hist ?h \<lparr>cnAfter = after, cnFrom = oldest_before (retained hist), cnSub = ?su, cnReceived = []\<rparr>"
    proof -
      let ?c = "\<lparr>cnAfter = after, cnFrom = oldest_before (retained hist), cnSub = ?su, cnReceived = []\<rparr>"
      have old: "oldest_before (retained hist) = k'" by (rule log_oldest [OF k'(1)])
      have "rows_between hist start hw = rows_between (retained hist) start hw"
        by (rule rows_between_retained [OF hist, symmetric]) (simp add: old start(1))
      moreover have "set (retained hist) \<subseteq> set hist" by (simp add: retained_def set_drop_subset)
      then have "resumes hist after k' es start" by (rule resumes_more [OF start(3)])
      moreover have "stream (hbChannels ?h) ?c = durable es" by (simp add: stream_def durable_def)
      moreover have "sbEvents (snd x) \<noteq> ?n" if "x \<in> set (hbSubscribers h)" for x using ok that by (auto simp: hub_ok_def)
      moreover have "max hw (hbHighWater h) = hw" using ok hw by (simp add: hub_ok_def)
      ultimately have "carries de hist ?h ?c start hw" using start(2,4) hw old by (auto simp: carries_def)
      then show ?thesis unfolding conn_ok_def by auto
    qed
    ultimately show ?thesis using run by (auto simp: hub_inv_def)
  qed
qed

end


section \<open>The other transitions\<close>

lemma conn_ok_keeps:
  assumes "conn_ok de hist h c" "length (hbChannels h') = length (hbChannels h)"
    and "\<And>start until. carries de hist h c start until \<Longrightarrow> carries de hist' h' c start until"
  shows "conn_ok de hist' h' c"
  using assms unfolding conn_ok_def by auto

lemma publish_event_keeps:
  assumes inv: "hub_inv de hist conns h" and run: "PublishEvent json_valid e h = Some (r, h')"
  shows "hub_inv de hist conns h'"
proof (cases "publishLocked (e\<lparr>evCursor := []\<rparr>) 0 h = Some h' \<and> r = None")
  case True
  then have run: "publishLocked (e\<lparr>evCursor := []\<rparr>) 0 h = Some h'" by simp
  have ok: "hub_ok (last_row hist) h" using inv by (simp add: hub_inv_def)
  obtain chans where h': "h' = h\<lparr>hbSubscribers := filter (kept 0 (hbChannels h)) (hbSubscribers h), hbChannels := chans\<rparr>" "length chans = length (hbChannels h)"
    using publish_spec [OF ok, of "e\<lparr>evCursor := []\<rparr>" 0] run by auto
  have "lag_ok hist h'" using inv by (auto simp: hub_inv_def lag_ok_def h')
  moreover have "conn_ok de hist h' c" if "c \<in> set conns" for c
  proof -
    have "stream (hbChannels h') c = stream (hbChannels h) c"
      using publish_stream [OF ok run, of c] by (auto simp: durable_def)
    then have "carries de hist h c start until \<Longrightarrow> carries de hist h' c start until" for start until by (auto simp: carries_def h')
    moreover have "conn_ok de hist h c" using inv that unfolding hub_inv_def by blast
    ultimately show ?thesis using h' by (intro conn_ok_keeps [of de hist h c h' hist]) simp_all
  qed
  ultimately show ?thesis using publish_hub_ok(1) [OF ok run] by (simp add: hub_inv_def)
next
  case False
  then show ?thesis using run inv by (auto simp: PublishEvent_def split: if_splits)
qed

lemma cancel_keeps:
  assumes inv: "hub_inv de hist conns h"
  shows "\<exists>h'. cancel i h = Some h' \<and> hub_inv de hist conns h' \<and> length (hbChannels h') = length (hbChannels h)"
proof (cases "map_of (hbSubscribers h) i")
  case (Some s)
  have ok: "hub_ok (last_row hist) h" using inv by (simp add: hub_inv_def)
  have s: "(i, s) \<in> set (hbSubscribers h)" using Some by (rule map_of_SomeD)
  let ?chans = "(hbChannels h)[sbEvents s := (hbChannels h ! sbEvents s)\<lparr>chClosed := True\<rparr>]"
  let ?h = "h\<lparr>hbSubscribers := AList.delete i (hbSubscribers h), hbChannels := ?chans\<rparr>"
  have run: "cancel i h = Some ?h" using ok s by (fastforce simp: cancel_def Some close_channel_def hub_ok_def)
  have sub: "AList.delete i (hbSubscribers h) = filter (\<lambda>x. i \<noteq> fst x) (hbSubscribers h)" by (simp add: AList.delete_eq case_prod_beta')
  have other: "?chans ! sbEvents (snd x) = hbChannels h ! sbEvents (snd x)" if "x \<in> set (hbSubscribers h)" "fst x \<noteq> i" for x
  proof -
    have "inj_on (sbEvents \<circ> snd) (set (hbSubscribers h))" using ok by (simp add: hub_ok_def distinct_map)
    then have "sbEvents (snd x) \<noteq> sbEvents s" using inj_onD [of "sbEvents \<circ> snd" "set (hbSubscribers h)" x "(i, s)"] that s by auto
    then show ?thesis by simp
  qed
  have "hub_ok (last_row hist) ?h" using ok other by (auto simp: hub_ok_def sub distinct_map_filter)
  moreover have "lag_ok hist ?h" using inv by (auto simp: hub_inv_def lag_ok_def sub)
  moreover have "conn_ok de hist ?h c" if "c \<in> set conns" for c
  proof -
    have "stream ?chans c = stream (hbChannels h) c"
      using ok s by (cases "suEvents (cnSub c) = sbEvents s") (auto simp: stream_def hub_ok_def)
    then have "carries de hist h c start until \<Longrightarrow> carries de hist ?h c start until" for start until by (auto simp: carries_def sub)
    moreover have "conn_ok de hist h c" using inv that unfolding hub_inv_def by blast
    ultimately show ?thesis by (intro conn_ok_keeps [of de hist h c ?h hist]) simp_all
  qed
  ultimately show ?thesis using run by (simp add: hub_inv_def)
qed (use inv in \<open>simp add: cancel_def\<close>)

lemma append_keeps:
  assumes hist: "outbox_log k hist" and inv: "hub_inv de hist conns h" and row: "orRowID row = last_row hist + 1"
    and lag: "lag_ok (hist @ [row]) h"
  shows "hub_inv de (hist @ [row]) conns h"
proof -
  have last: "last_row (hist @ [row]) = last_row hist + 1" using row by (simp add: last_row_def)
  have "hub_ok (last_row (hist @ [row])) h" using inv by (fastforce simp: hub_inv_def hub_ok_def last)
  moreover have "conn_ok de (hist @ [row]) h c" if "c \<in> set conns" for c
  proof -
    have "carries de (hist @ [row]) h c start until" if "carries de hist h c start until" for start until
      using that row resumes_more [of hist _ _ _ _ "hist @ [row]"] by (auto simp: carries_def rows_between_snoc last)
    moreover have "conn_ok de hist h c" using inv that unfolding hub_inv_def by blast
    ultimately show ?thesis by (intro conn_ok_keeps [of de hist h c h "hist @ [row]"]) simp_all
  qed
  ultimately show ?thesis using lag by (simp add: hub_inv_def)
qed

section \<open>The system\<close>

text \<open>All rows ever committed, the table that keeps the latest of them, the hub and the connections of clients.
  Nothing in the code keeps the trigger from deleting a row that a live subscriber has not got: a drain that
  stops at a row it cannot decode, or whose query fails, leaves the subscribers behind while rows go on being
  committed. Whether that has happened is a fact about the past that no part of the program stores;
  \<open>syLagged\<close> keeps it for the properties.\<close>

record feed =
  syLog :: "outboxRow list"
  syRows :: "outboxRow list"
  syHub :: hub
  syConns :: "connection list"
  syLagged :: bool

definition attach :: "string \<Rightarrow> subscription \<Rightarrow> hub \<Rightarrow> feed \<Rightarrow> feed" where
  "attach after su h s = s\<lparr>syHub := h, syConns := syConns s @
     [\<lparr>cnAfter = after, cnFrom = oldest_before (syRows s), cnSub = su, cnReceived = []\<rparr>]\<rparr>"

text \<open>A client takes the next event of its channel.\<close>

definition receive :: "nat \<Rightarrow> feed \<Rightarrow> feed option" where
  "receive n s =
     (if length (syConns s) \<le> n then None
      else let c = syConns s ! n; ch = hbChannels (syHub s) ! suEvents (cnSub c) in
        case chBuffer ch of [] \<Rightarrow> None
        | e # es \<Rightarrow> Some (s\<lparr>syHub := (syHub s)\<lparr>hbChannels := (hbChannels (syHub s))[suEvents (cnSub c) := ch\<lparr>chBuffer := es\<rparr>]\<rparr>,
                           syConns := (syConns s)[n := c\<lparr>cnReceived := cnReceived c @ [e]\<rparr>]\<rparr>))"

text \<open>The transitions: everything may happen at any time, except that identifiers of subscriptions do not run
  out. Clients read their channels without the lock of the hub, so also between two rows of a running drain:
  \<open>draining\<close> is the first part of one, which reads and another part can follow. (The lock keeps commands of
  the hub out of a running drain; the transitions allow more.)\<close>

inductive feed_step :: "decoders \<Rightarrow> feed \<Rightarrow> feed \<Rightarrow> bool" for de where
  commit: "row = \<lparr>orRowID = last_row (syLog s) + 1, orEventID = i, orTopic = t, orPayload = p\<rparr>
    \<Longrightarrow> feed_step de s (s\<lparr>syLog := syLog s @ [row], syRows := append_outbox i t p (syRows s),
          syLagged := syLagged s \<or> \<not> lag_ok (syLog s @ [row]) (syHub s)\<rparr>)"
| drain: "drainDurable de fails (syRows s) (syHub s) = Some (r, h) \<Longrightarrow> feed_step de s (s\<lparr>syHub := h\<rparr>)"
| draining: "drain_rows de (take n (sort_key orRowID (filter (\<lambda>row. hbHighWater (syHub s) < orRowID row) (syRows s)))) (syHub s) = Some (r, h)
    \<Longrightarrow> feed_step de s (s\<lparr>syHub := h\<rparr>)"
| event: "PublishEvent json_valid e (syHub s) = Some (r, h) \<Longrightarrow> feed_step de s (s\<lparr>syHub := h\<rparr>)"
| Subscribe: "subscribe (catchup de (hbApp (syHub s)) fails (syRows s) after) (syHub s) = Some (r, h) \<Longrightarrow> hbNextID (syHub s) \<noteq> MaxUint64
    \<Longrightarrow> feed_step de s (case r of Inl e \<Rightarrow> s\<lparr>syHub := h\<rparr> | Inr su \<Rightarrow> attach after su h s)"
| SubscribeRecoverable: "subscribe (recoveryBacklog re de (hbApp (syHub s)) (syRows s) after) (syHub s) = Some (r, h) \<Longrightarrow> hbNextID (syHub s) \<noteq> MaxUint64
    \<Longrightarrow> feed_step de s (case r of Inl e \<Rightarrow> s\<lparr>syHub := h\<rparr> | Inr su \<Rightarrow> attach after su h s)"
| receive: "receive n s = Some s' \<Longrightarrow> feed_step de s s'"
| close: "cancel i (syHub s) = Some h \<Longrightarrow> feed_step de s (s\<lparr>syHub := h\<rparr>)"

definition feed_init :: "feed \<Rightarrow> bool" where
  "feed_init s \<longleftrightarrow> (\<exists>k. outbox_log k (syLog s)) \<and> syRows s = retained (syLog s) \<and> syHub s = NewHub True \<and> syConns s = []
     \<and> \<not> syLagged s"

definition feed_inv :: "decoders \<Rightarrow> feed \<Rightarrow> bool" where
  "feed_inv de s \<longleftrightarrow> syLagged s \<or> (\<exists>k. outbox_log k (syLog s)) \<and> syRows s = retained (syLog s)
     \<and> hub_inv de (syLog s) (syConns s) (syHub s) \<and> distinct (map (suEvents \<circ> cnSub) (syConns s))"

lemma feed_invD:
  assumes "feed_inv de s" "\<not> syLagged s"
  obtains k where "outbox_log k (syLog s)" "syRows s = retained (syLog s)" "hub_inv de (syLog s) (syConns s) (syHub s)"
    "distinct (map (suEvents \<circ> cnSub) (syConns s))"
  using assms unfolding feed_inv_def by blast

context backlog_source
begin

lemma subscribe_feed:
  assumes inv: "feed_inv de s" and run: "subscribe (read_backlog (syRows s)) (syHub s) = Some (r, h)" and room: "hbNextID (syHub s) \<noteq> MaxUint64"
  shows "feed_inv de (case r of Inl e \<Rightarrow> s\<lparr>syHub := h\<rparr> | Inr su \<Rightarrow> attach after su h s)"
proof (cases "syLagged s")
  case True
  then show ?thesis by (auto simp: feed_inv_def attach_def split: sum.split)
next
  case False
  obtain k where k: "outbox_log k (syLog s)" "syRows s = retained (syLog s)" "hub_inv de (syLog s) (syConns s) (syHub s)"
    "distinct (map (suEvents \<circ> cnSub) (syConns s))" using inv False by (rule feed_invD)
  from subscribe_keeps [OF k(1,3) room] have sub: "hub_inv de (syLog s) (syConns s) h"
    "\<And>su. r = Inr su \<Longrightarrow> suEvents su = length (hbChannels (syHub s)) \<and>
        conn_ok de (syLog s) h \<lparr>cnAfter = after, cnFrom = oldest_before (retained (syLog s)), cnSub = su, cnReceived = []\<rparr>"
    using run k(2) by auto
  show ?thesis
  proof (cases r)
    case (Inl e)
    then show ?thesis using k sub by (auto simp: feed_inv_def)
  next
    case (Inr su)
    have "suEvents (cnSub c) < length (hbChannels (syHub s))" if "c \<in> set (syConns s)" for c
      using k(3) that by (simp add: hub_inv_def conn_ok_def)
    then have "suEvents su \<notin> (suEvents \<circ> cnSub) ` set (syConns s)" using sub(2) [OF Inr] by fastforce
    then show ?thesis using k sub(1) sub(2) [OF Inr] Inr by (auto simp: feed_inv_def attach_def hub_inv_def)
  qed
qed

end

lemma receive_keeps:
  assumes inv: "feed_inv de s" and run: "receive n s = Some s'"
  shows "feed_inv de s'"
proof (cases "syLagged s")
  case True
  then show ?thesis using run by (auto simp: feed_inv_def receive_def Let_def split: if_splits list.splits)
next
  case False
  obtain k where k: "outbox_log k (syLog s)" "syRows s = retained (syLog s)" "hub_inv de (syLog s) (syConns s) (syHub s)"
    "distinct (map (suEvents \<circ> cnSub) (syConns s))" using inv False by (rule feed_invD)
  let ?h = "syHub s"
  let ?c = "syConns s ! n"
  let ?ch = "hbChannels ?h ! suEvents (cnSub ?c)"
  obtain e es where n: "n < length (syConns s)" and ch: "chBuffer ?ch = e # es"
    and s': "s' = s\<lparr>syHub := ?h\<lparr>hbChannels := (hbChannels ?h)[suEvents (cnSub ?c) := ?ch\<lparr>chBuffer := es\<rparr>]\<rparr>,
                           syConns := (syConns s)[n := ?c\<lparr>cnReceived := cnReceived ?c @ [e]\<rparr>]\<rparr>"
    using run by (auto simp: receive_def Let_def split: if_splits list.splits)
  let ?chans = "(hbChannels ?h)[suEvents (cnSub ?c) := ?ch\<lparr>chBuffer := es\<rparr>]"
  have conn: "conn_ok de (syLog s) ?h c" if "c \<in> set (syConns s)" for c using k(3) that by (simp add: hub_inv_def)
  then have range: "suEvents (cnSub ?c) < length (hbChannels ?h)" using n by (simp add: conn_ok_def)
  have closed: "chClosed (?chans ! d) = chClosed (hbChannels ?h ! d)" for d
    by (cases "d = suEvents (cnSub ?c)") (simp_all add: range)
  have "hub_ok (last_row (syLog s)) (?h\<lparr>hbChannels := ?chans\<rparr>)"
    using k(3) closed by (simp add: hub_inv_def hub_ok_def)
  moreover have "lag_ok (syLog s) (?h\<lparr>hbChannels := ?chans\<rparr>)" using k(3) by (simp add: hub_inv_def lag_ok_def)
  moreover have "conn_ok de (syLog s) (?h\<lparr>hbChannels := ?chans\<rparr>) c" if "c \<in> set ((syConns s)[n := ?c\<lparr>cnReceived := cnReceived ?c @ [e]\<rparr>])" for c
  proof -
    obtain m where m: "m < length (syConns s)" "c = (syConns s)[n := ?c\<lparr>cnReceived := cnReceived ?c @ [e]\<rparr>] ! m"
      using \<open>c \<in> _\<close> by (metis in_set_conv_nth length_list_update)
    have old: "conn_ok de (syLog s) ?h (syConns s ! m)" using conn m(1) by simp
    have "stream ?chans c = stream (hbChannels ?h) (syConns s ! m) \<and> cnSub c = cnSub (syConns s ! m)
      \<and> cnAfter c = cnAfter (syConns s ! m) \<and> cnFrom c = cnFrom (syConns s ! m)"
    proof (cases "m = n")
      case True
      then show ?thesis using m n range ch by (simp add: stream_def durable_def)
    next
      case False
      then have "suEvents (cnSub (syConns s ! m)) \<noteq> suEvents (cnSub ?c)"
        using k(4) m(1) n nth_eq_iff_index_eq [OF k(4), of m n] by simp
      then show ?thesis using m False by (simp add: stream_def)
    qed
    then show ?thesis using old by (simp add: conn_ok_def carries_def)
  qed
  moreover have "map (suEvents \<circ> cnSub) ((syConns s)[n := ?c\<lparr>cnReceived := cnReceived ?c @ [e]\<rparr>]) = map (suEvents \<circ> cnSub) (syConns s)"
    using n by (simp add: map_update list_update_same_conv)
  ultimately show ?thesis using k(1,2,4) by (auto simp: feed_inv_def hub_inv_def s')
qed

lemma feed_inv_init: "feed_init s \<Longrightarrow> feed_inv de s"
  using log_last by (fastforce simp: feed_init_def feed_inv_def hub_inv_def hub_ok_def lag_ok_def NewHub_def outbox_log_def)

lemma feed_inv_step: "feed_step de s t \<Longrightarrow> feed_inv de s \<Longrightarrow> feed_inv de t"
proof (induction rule: feed_step.cases)
  case (commit row s i t p)
  show ?case
  proof (cases "syLagged s \<or> \<not> lag_ok (syLog s @ [row]) (syHub s)")
    case False
    then obtain k where k: "outbox_log k (syLog s)" "syRows s = retained (syLog s)" "hub_inv de (syLog s) (syConns s) (syHub s)"
      "distinct (map (suEvents \<circ> cnSub) (syConns s))" using commit feed_invD by blast
    have "hub_inv de (syLog s @ [row]) (syConns s) (syHub s)"
      by (rule append_keeps [OF k(1,3)]) (use False commit(3) in simp_all)
    then show ?thesis using append_retained [OF k(1), of i t p] k commit(2,3) by (auto simp: feed_inv_def)
  qed (use commit(2) in \<open>simp add: feed_inv_def\<close>)
next
  case (drain fails s r h)
  show ?case
  proof (cases "syLagged s")
    case False
    then obtain k where k: "outbox_log k (syLog s)" "syRows s = retained (syLog s)" "hub_inv de (syLog s) (syConns s) (syHub s)"
      "distinct (map (suEvents \<circ> cnSub) (syConns s))" using drain feed_invD by blast
    then show ?thesis using drain_inv [OF k(1,3), of fails] drain by (auto simp: feed_inv_def)
  qed (use drain in \<open>simp add: feed_inv_def\<close>)
next
  case (draining n s r h)
  show ?case
  proof (cases "syLagged s")
    case False
    then obtain k where k: "outbox_log k (syLog s)" "syRows s = retained (syLog s)" "hub_inv de (syLog s) (syConns s) (syHub s)"
      "distinct (map (suEvents \<circ> cnSub) (syConns s))" using draining feed_invD by blast
    let ?pending = "filter (\<lambda>row. hbHighWater (syHub s) < orRowID row) (retained (syLog s))"
    have "drain_rows de (take n ?pending) (syHub s) = Some (r, h)"
      using draining(3) unfolding k(2) by (simp add: pending_sorted [OF k(1)])
    moreover have "take n ?pending @ drop n ?pending = ?pending" by simp
    note drain_rows_inv [OF k(1,3) this]
    ultimately have "hub_inv de (syLog s) (syConns s) h" by auto
    then show ?thesis using k draining(2) by (auto simp: feed_inv_def)
  qed (use draining in \<open>simp add: feed_inv_def\<close>)
next
  case (event json_valid e s r h)
  then show ?case using publish_event_keeps by (fastforce simp: feed_inv_def)
next
  case (Subscribe s fails after r h)
  then show ?case using catchup.subscribe_feed by simp
next
  case (SubscribeRecoverable re s after r h)
  then show ?case using recovery.subscribe_feed by simp
next
  case (receive n s s')
  then show ?case using receive_keeps by blast
next
  case (close i s h)
  then show ?case using cancel_keeps [of de "syLog s" "syConns s" "syHub s" i] by (fastforce simp: feed_inv_def)
qed

interpretation feed: transition_system feed_init "feed_step de" "feed_inv de" for de
  by unfold_locales (auto intro: feed_inv_init feed_inv_step)


section \<open>Properties\<close>

lemma subscribe_no_panic: "subscribe r h \<noteq> None"
  by (simp add: subscribe_def Let_def close_channel_def split: sum.splits)

text \<open>
  C37. Live events are delivered exactly once and in order, as long as retention has not deleted a row that
  a live subscriber had still to get. In every reachable state of which that holds (\<open>\<not> syLagged s\<close>; the code
  does not enforce it), whatever the interleaving of commits, drains and reads during them, transient events,
  subscriptions with either kind of cursor and closings, the durable events of each connection, read and
  still buffered, are exactly the decoded rows of one stretch of the outbox: from where its cursor or its
  snapshot says, without gap, duplicate or reordering, for a live connection up to the last row replayed or
  drained. A subscriber that was too slow is cut off, and what it got is still such a stretch. No operation
  of the hub panics.
\<close>

theorem delivery_exactly_once:
  assumes "feed_init s0" "(feed_step de)\<^sup>*\<^sup>* s0 s" "\<not> syLagged s"
  shows "(\<forall>c \<in> set (syConns s). \<exists>start until. carries de (syLog s) (syHub s) c start until)
    \<and> drainDurable de fails (syRows s) (syHub s) \<noteq> None \<and> publishLocked e 0 (syHub s) \<noteq> None
    \<and> cancel i (syHub s) \<noteq> None \<and> subscribe r (syHub s) \<noteq> None"
proof -
  have "feed_inv de s" using feed.inv_reachable assms by blast
  then obtain k where k: "outbox_log k (syLog s)" "syRows s = retained (syLog s)" "hub_inv de (syLog s) (syConns s) (syHub s)"
    using assms(3) by (rule feed_invD)
  have "drainDurable de fails (syRows s) (syHub s) \<noteq> None" using drain_inv [OF k(1,3), of fails] k(2) by auto
  moreover have "publishLocked e 0 (syHub s) \<noteq> None" using publish_spec [of "last_row (syLog s)" "syHub s" e 0] k(3) by (auto simp: hub_inv_def)
  moreover have "cancel i (syHub s) \<noteq> None" using cancel_keeps [OF k(3), of i] by auto
  ultimately show ?thesis using k(3) subscribe_no_panic by (auto simp: hub_inv_def conn_ok_def)
qed

text \<open>
  C38. A drain brings every live connection up to date. In every reachable state in which retention has not
  deleted a row that a live subscriber had still to get (\<open>\<not> syLagged s\<close>; the code does not enforce it) and the
  retained rows are well formed, a drain whose query succeeds returns no error, and every connection that
  is live afterwards has all rows from its start to the newest one.
\<close>

theorem drain_delivers_all:
  assumes "feed_init s0" "(feed_step de)\<^sup>*\<^sup>* s0 s" "\<not> syLagged s" and valid: "\<And>row. row \<in> set (syRows s) \<Longrightarrow> \<not> isl (decodeOutboxRow de row)"
  shows "\<exists>h. drainDurable de False (syRows s) (syHub s) = Some (None, h) \<and> (\<forall>c \<in> set (syConns s). live h c \<longrightarrow>
    (\<exists>start. resumes (syLog s) (cnAfter c) (cnFrom c) (suBacklog (cnSub c)) start
       \<and> map (decodeOutboxRow de) (rows_between (syLog s) start (last_row (syLog s))) = map Inr (stream (hbChannels h) c)))"
proof -
  have "feed_inv de s" using feed.inv_reachable assms(1,2) by blast
  then obtain k where k: "outbox_log k (syLog s)" "syRows s = retained (syLog s)" "hub_inv de (syLog s) (syConns s) (syHub s)"
    using assms(3) by (rule feed_invD)
  obtain h where h: "drainDurable de False (syRows s) (syHub s) = Some (None, h)" "hub_inv de (syLog s) (syConns s) h" "hbHighWater h = last_row (syLog s)"
    using drain_inv [OF k(1,3), of False] valid unfolding k(2) by auto
  have "\<exists>start. resumes (syLog s) (cnAfter c) (cnFrom c) (suBacklog (cnSub c)) start
       \<and> map (decodeOutboxRow de) (rows_between (syLog s) start (last_row (syLog s))) = map Inr (stream (hbChannels h) c)"
    if c: "c \<in> set (syConns s)" "live h c" for c
  proof -
    obtain start until where sc: "carries de (syLog s) h c start until" using h(2) c(1) by (auto simp: hub_inv_def conn_ok_def)
    obtain x where x: "x \<in> set (hbSubscribers h)" "sbEvents (snd x) = suEvents (cnSub c)" using c(2) by (auto simp: live_def)
    then have "until = last_row (syLog s)" using sc h(2,3) by (auto simp: carries_def hub_inv_def hub_ok_def)
    then show ?thesis using sc by (auto simp: carries_def)
  qed
  then show ?thesis using h(1) by blast
qed

lemma rows_between_append:
  "numbered k rows \<Longrightarrow> a \<le> b \<Longrightarrow> b \<le> c \<Longrightarrow> rows_between rows a c = rows_between rows a b @ rows_between rows b c"
proof (induction rows arbitrary: k)
  case (Cons row rows)
  show ?case
  proof (cases "orRowID row \<le> b")
    case True
    then show ?thesis using Cons by (auto simp: rows_between_def)
  next
    case False
    have "orRowID row < orRowID y" if "y \<in> set rows" for y using numbered_ids [of "k + 1" rows y] Cons.prems(1) that by simp
    then have "b < orRowID y" if "y \<in> set (row # rows)" for y using that False by fastforce
    then have "rows_between (row # rows) a b = []" "rows_between (row # rows) a c = rows_between (row # rows) b c"
      using Cons.prems(2) unfolding rows_between_def by (intro filter_False filter_cong; fastforce)+
    then show ?thesis by simp
  qed
qed (simp add: rows_between_def)

lemma between_prefix:
  assumes rows: "numbered k rows" and split: "rows_between rows a m = r0 @ row # r2"
  shows "rows_between rows a (orRowID row) = r0 @ [row]"
proof -
  have "numbered k (take (nat (m - k)) rows)"
    using numbered_append [of k "take (nat (m - k)) rows" "drop (nat (m - k)) rows"] rows by simp
  from numbered_drop [OF this, of "nat (a - k)"] obtain j where "numbered j (rows_between rows a m)"
    unfolding rows_between_eq [OF rows] by blast
  then have n: "numbered j r0" "orRowID row = j + int (length r0) + 1" "numbered (j + int (length r0) + 1) r2"
    unfolding split by (simp_all add: numbered_append)
  have "row \<in> set (rows_between rows a m)" unfolding split by simp
  then have "orRowID row \<le> m" by (simp add: rows_between_def)
  then have "rows_between rows a (orRowID row) = filter (\<lambda>y. orRowID y \<le> orRowID row) (rows_between rows a m)"
    by (auto simp: rows_between_def intro!: filter_cong)
  also have "\<dots> = r0 @ [row]"
  proof -
    have "filter (\<lambda>y. orRowID y \<le> orRowID row) r0 = r0" by (rule filter_True) (use numbered_ids [OF n(1)] n(2) in fastforce)
    moreover have "filter (\<lambda>y. orRowID y \<le> orRowID row) r2 = []" by (rule filter_False) (use numbered_ids [OF n(3)] n(2) in fastforce)
    ultimately show ?thesis unfolding split by simp
  qed
  finally show ?thesis .
qed

lemma cursor_text_inject: "cursor_text m = cursor_text n \<longleftrightarrow> m = n"
proof
  have "hd (dec_text j) \<noteq> CHR ''-''" for j
    using dec_text_digits [of j] dec_text_nonempty [of j] by (cases "dec_text j") (auto simp: is_digit_def simp del: dec_text_nonempty dec_text_digits)
  then have ne: "dec_text j \<noteq> CHR ''-'' # xs" for j xs by (metis list.sel(1))
  assume "cursor_text m = cursor_text n"
  then have "int_text m = int_text n" by (simp add: cursor_text_def)
  then show "m = n" using ne ne [symmetric] by (auto simp: int_text_def split: if_splits)
qed simp

text \<open>
  C39. A client that comes back in time loses nothing and sees nothing twice. Take two connections of a
  reachable state in which retention has not deleted a row that a live subscriber had still to get
  (\<open>\<not> syLagged s\<close>; the code does not enforce it), where the second was opened with the cursor of the last
  durable event the client had read from the first, a cursor that is not also the identifier of a row, and
  the row of that event had not left the table, so that the client did not get a snapshot (with a snapshot
  the rows between are replaced by it). What the client read from the first, followed by what the second
  carries, is again exactly the rows of one stretch of the outbox.
\<close>

theorem reconnect_gapless:
  assumes "feed_init s0" "(feed_step de)\<^sup>*\<^sup>* s0 s" "\<not> syLagged s" and conns: "c \<in> set (syConns s)" "c' \<in> set (syConns s)"
    and seen: "durable (suBacklog (cnSub c) @ cnReceived c) = es @ [e]" and cursor: "cnAfter c' = evCursor e"
    and resumed: "\<And>x. x \<in> set (suBacklog (cnSub c')) \<Longrightarrow> evTopic x \<noteq> ''realtime.recovered''"
    and ids: "\<And>row. row \<in> set (syLog s) \<Longrightarrow> orEventID row \<noteq> evCursor e"
  shows "\<exists>start n until. resumes (syLog s) (cnAfter c) (cnFrom c) (suBacklog (cnSub c)) start \<and> evCursor e = cursor_text n
    \<and> map (decodeOutboxRow de) (rows_between (syLog s) start until) = map Inr (es @ [e] @ stream (hbChannels (syHub s)) c')
    \<and> carries de (syLog s) (syHub s) c' n until"
proof -
  have "feed_inv de s" using feed.inv_reachable assms(1,2) by blast
  then obtain k where k: "outbox_log k (syLog s)" "syRows s = retained (syLog s)" "hub_inv de (syLog s) (syConns s) (syHub s)"
    using assms(3) by (rule feed_invD)
  have num: "numbered k (syLog s)" using k(1) by (simp add: outbox_log_def)
  obtain start m where 1: "carries de (syLog s) (syHub s) c start m" using k(3) conns(1) by (auto simp: hub_inv_def conn_ok_def)
  obtain start' until where 2: "carries de (syLog s) (syHub s) c' start' until" using k(3) conns(2) by (auto simp: hub_inv_def conn_ok_def)
  let ?buffered = "durable (chBuffer (hbChannels (syHub s) ! suEvents (cnSub c)))"
  have "map (decodeOutboxRow de) (rows_between (syLog s) start m) = map Inr (es @ [e]) @ map Inr ?buffered"
  proof -
    have "stream (hbChannels (syHub s)) c = (es @ [e]) @ ?buffered" using seen by (simp add: stream_def)
    then show ?thesis using 1 by (simp add: carries_def)
  qed
  then obtain r0 row r2 where r: "rows_between (syLog s) start m = r0 @ row # r2" "map Inr es = map (decodeOutboxRow de) r0" "Inr e = decodeOutboxRow de row"
    by (auto simp: map_eq_append_conv map_eq_Cons_conv)
  note row = r(3) [symmetric]
  have cur: "evCursor e = cursor_text (orRowID row)" "evCursor e \<noteq> []" using decoded_durable [OF row] by (simp_all add: cursor_text_def)
  have "row \<in> set (rows_between (syLog s) start m)" unfolding r(1) by simp
  then have in_log: "row \<in> set (syLog s)" "start < orRowID row" "orRowID row \<le> m" by (simp_all add: rows_between_def)
  have "start' = orRowID row"
    using 2 cursor cur resumed ids by (auto simp: carries_def resumes_def cursor_text_inject)
  then have start': "start' = orRowID row" "orRowID row \<le> until" using 2 by (simp_all add: carries_def)
  have "rows_between (syLog s) start (orRowID row) = r0 @ [row]" by (rule between_prefix [OF num r(1)])
  then have "map (decodeOutboxRow de) (rows_between (syLog s) start until) = map Inr (es @ [e] @ stream (hbChannels (syHub s)) c')"
    using rows_between_append [OF num, of start "orRowID row" until] in_log start' r(2) row 2 by (simp add: carries_def)
  then show ?thesis using 1 2 start' cur(1) by (intro exI [of _ start] exI [of _ "orRowID row"] exI [of _ until]) (simp add: carries_def)
qed

section \<open>A run\<close>

text \<open>A row is committed, a client subscribes and gets a snapshot, the next row is drained and read, and the
  client comes back after a third.\<close>

definition feed_decoders :: decoders where
  "feed_decoders = \<lparr>deCatalog = (\<lambda>_. None), deCatalogValid = (\<lambda>_. False), deData = (\<lambda>raw. Some \<lparr>dcEventID = raw, dcTopic = ''data.changed''\<rparr>),
     deTask = (\<lambda>_. None), deTime = (\<lambda>_. True)\<rparr>"

definition feed_env :: recovery_env where
  "feed_env = \<lparr>reContext = (\<lambda>_. None), reCommitted = True, reBegin = None, reReadFails = False, reActive = Inr [], reCommit = None,
     reDivide = (\<lambda>_ _. 0), reMarshal = (\<lambda>_. Inr ''{}'')\<rparr>"

definition feed_start :: feed where
  "feed_start = \<lparr>syLog = [], syRows = [], syHub = NewHub True, syConns = [], syLagged = False\<rparr>"

definition feed_commit :: "string \<Rightarrow> feed \<Rightarrow> feed" where
  "feed_commit i s = s\<lparr>syLog := syLog s @ [\<lparr>orRowID = last_row (syLog s) + 1, orEventID = i, orTopic = ''data.changed'', orPayload = i\<rparr>],
     syRows := append_outbox i ''data.changed'' i (syRows s),
     syLagged := syLagged s \<or> \<not> lag_ok (syLog s @ [\<lparr>orRowID = last_row (syLog s) + 1, orEventID = i, orTopic = ''data.changed'', orPayload = i\<rparr>]) (syHub s)\<rparr>"

definition feed_drain :: "feed \<Rightarrow> feed" where
  "feed_drain s = (case drainDurable feed_decoders False (syRows s) (syHub s) of Some (r, h) \<Rightarrow> s\<lparr>syHub := h\<rparr> | None \<Rightarrow> s)"

definition feed_join :: "string \<Rightarrow> feed \<Rightarrow> feed" where
  "feed_join after s = (case subscribe (recoveryBacklog feed_env feed_decoders (hbApp (syHub s)) (syRows s) after) (syHub s) of
     Some (Inr su, h) \<Rightarrow> attach after su h s | Some (Inl e, h) \<Rightarrow> s\<lparr>syHub := h\<rparr> | None \<Rightarrow> s)"

definition feed_read :: "nat \<Rightarrow> feed \<Rightarrow> feed" where
  "feed_read n s = (case receive n s of None \<Rightarrow> s | Some s' \<Rightarrow> s')"

lemma feed_run_steps:
  "(feed_step feed_decoders)\<^sup>*\<^sup>* s (feed_commit i s)"
  "(feed_step feed_decoders)\<^sup>*\<^sup>* s (feed_drain s)" "(feed_step feed_decoders)\<^sup>*\<^sup>* s (feed_read n s)"
  "hbNextID (syHub s) \<noteq> MaxUint64 \<Longrightarrow> (feed_step feed_decoders)\<^sup>*\<^sup>* s (feed_join after s)"
proof -
  show "(feed_step feed_decoders)\<^sup>*\<^sup>* s (feed_commit i s)"
    unfolding feed_commit_def by (intro r_into_rtranclp feed_step.commit [OF refl])
  show "(feed_step feed_decoders)\<^sup>*\<^sup>* s (feed_drain s)"
    by (auto simp: feed_drain_def intro: feed_step.drain split: option.splits)
  show "(feed_step feed_decoders)\<^sup>*\<^sup>* s (feed_read n s)"
    by (auto simp: feed_read_def intro: feed_step.receive split: option.splits)
  assume "hbNextID (syHub s) \<noteq> MaxUint64"
  from feed_step.SubscribeRecoverable [OF _ this, of feed_env feed_decoders after]
  show "(feed_step feed_decoders)\<^sup>*\<^sup>* s (feed_join after s)"
    by (auto simp: feed_join_def split: option.splits sum.splits)
qed

definition feed_joined :: feed where
  "feed_joined = feed_commit ''e2'' (feed_join [] (feed_commit ''e1'' feed_start))"

definition feed_back :: feed where
  "feed_back = feed_join ''rt:2'' (feed_commit ''e3'' (feed_read 0 (feed_drain feed_joined)))"

lemma feed_start_ok: "feed_init feed_start"
  by (auto simp: feed_init_def feed_start_def outbox_log_def retained_def intro: exI [of _ 0])

lemma feed_joined_reachable: "(feed_step feed_decoders)\<^sup>*\<^sup>* feed_start feed_joined"
proof -
  have "hbNextID (syHub (feed_commit ''e1'' feed_start)) \<noteq> MaxUint64" by code_simp
  from rtranclp_trans [OF feed_run_steps(1) feed_run_steps(4) [OF this, of "[]"]] feed_run_steps(1)
  show ?thesis unfolding feed_joined_def by (rule rtranclp_trans)
qed

lemma feed_back_reachable: "(feed_step feed_decoders)\<^sup>*\<^sup>* feed_start feed_back"
proof -
  let ?s = "feed_commit ''e3'' (feed_read 0 (feed_drain feed_joined))"
  have "(feed_step feed_decoders)\<^sup>*\<^sup>* feed_joined ?s"
    by (rule rtranclp_trans [OF rtranclp_trans [OF feed_run_steps(2) feed_run_steps(3)] feed_run_steps(1)])
  note 1 = rtranclp_trans [OF feed_joined_reachable this]
  have "hbNextID (syHub ?s) \<noteq> MaxUint64" by code_simp
  from rtranclp_trans [OF 1 feed_run_steps(4) [OF this, of "''rt:2''"]] show ?thesis by (simp add: feed_back_def)
qed

lemma feed_run_keeps_up: "\<not> syLagged feed_joined" "\<not> syLagged feed_back"
  by code_simp+

theorem delivery_exactly_once_witness:
  "map (\<lambda>c. map evID (stream (hbChannels (syHub feed_back)) c)) (syConns feed_back) = [[''e2''], [''e3'']]
   \<and> (\<exists>start until. carries feed_decoders (syLog feed_back) (syHub feed_back) (hd (syConns feed_back)) start until)"
proof -
  have run: "map (\<lambda>c. map evID (stream (hbChannels (syHub feed_back)) c)) (syConns feed_back) = [[''e2''], [''e3'']]" by code_simp
  then have "hd (syConns feed_back) \<in> set (syConns feed_back)" by (cases "syConns feed_back") simp_all
  then show ?thesis using delivery_exactly_once [OF feed_start_ok feed_back_reachable feed_run_keeps_up(2), THEN conjunct1] run by blast
qed

theorem drain_delivers_all_witness:
  "\<exists>h start. drainDurable feed_decoders False (syRows feed_joined) (syHub feed_joined) = Some (None, h)
    \<and> map (decodeOutboxRow feed_decoders) (rows_between (syLog feed_joined) start (last_row (syLog feed_joined)))
        = map Inr (stream (hbChannels h) (hd (syConns feed_joined)))
    \<and> map evID (stream (hbChannels h) (hd (syConns feed_joined))) = [''e2'']"
proof -
  have "list_all (\<lambda>row. \<not> isl (decodeOutboxRow feed_decoders row)) (syRows feed_joined)" by code_simp
  then have "row \<in> set (syRows feed_joined) \<Longrightarrow> \<not> isl (decodeOutboxRow feed_decoders row)" for row by (simp add: list_all_iff)
  note drain = drain_delivers_all [OF feed_start_ok feed_joined_reachable feed_run_keeps_up(1) this]
  then obtain h where h: "drainDurable feed_decoders False (syRows feed_joined) (syHub feed_joined) = Some (None, h)" by blast
  have ids: "map_option (\<lambda>(r, h). (map evID (stream (hbChannels h) (hd (syConns feed_joined))), length (syConns feed_joined),
      list_ex (\<lambda>x. sbEvents (snd x) = suEvents (cnSub (hd (syConns feed_joined)))) (hbSubscribers h)))
      (drainDurable feed_decoders False (syRows feed_joined) (syHub feed_joined)) = Some ([''e2''], 1, True)" by code_simp
  then have "live h (hd (syConns feed_joined))" "hd (syConns feed_joined) \<in> set (syConns feed_joined)"
    using h by (auto simp: live_def list_ex_iff intro: hd_in_set)
  then show ?thesis using drain h ids by fastforce
qed

theorem reconnect_gapless_witness:
  "\<exists>e start until. durable (suBacklog (cnSub (hd (syConns feed_back))) @ cnReceived (hd (syConns feed_back))) = [e] \<and> evID e = ''e2''
    \<and> map (decodeOutboxRow feed_decoders) (rows_between (syLog feed_back) start until)
        = map Inr ([e] @ stream (hbChannels (syHub feed_back)) (syConns feed_back ! 1))"
proof -
  let ?c = "hd (syConns feed_back)" and ?c' = "syConns feed_back ! 1"
  define e where "e = \<lparr>evID = ''e2'', evTopic = ''data.changed'', evPayload = ''e2'', evCursor = ''rt:2''\<rparr>"
  have seen: "durable (suBacklog (cnSub ?c) @ cnReceived ?c) = [] @ [e]" unfolding e_def by code_simp
  have "length (syConns feed_back) = 2" by code_simp
  then have conns: "?c \<in> set (syConns feed_back)" "?c' \<in> set (syConns feed_back)" by (auto intro: hd_in_set)
  have cursor: "cnAfter ?c' = evCursor e" unfolding e_def by code_simp
  have "list_all (\<lambda>x. evTopic x \<noteq> ''realtime.recovered'') (suBacklog (cnSub ?c'))" by code_simp
  then have resumed: "x \<in> set (suBacklog (cnSub ?c')) \<Longrightarrow> evTopic x \<noteq> ''realtime.recovered''" for x by (simp add: list_all_iff)
  have "list_all (\<lambda>row. orEventID row \<noteq> evCursor e) (syLog feed_back)" unfolding e_def by code_simp
  then have ids: "row \<in> set (syLog feed_back) \<Longrightarrow> orEventID row \<noteq> evCursor e" for row by (simp add: list_all_iff)
  from reconnect_gapless [OF feed_start_ok feed_back_reachable feed_run_keeps_up(2) conns seen cursor resumed ids] obtain start until where
    "map (decodeOutboxRow feed_decoders) (rows_between (syLog feed_back) start until) = map Inr ([] @ [e] @ stream (hbChannels (syHub feed_back)) ?c')"
    by blast
  then show ?thesis using seen by (intro exI [of _ e] exI [of _ start] exI [of _ until]) (simp add: e_def)
qed

end
