(* ===== verification/Realtime_Events.thy ===== *)
theory Realtime_Events
  imports Realtime_Delivery
begin

text \<open>
  The rows the hub writes itself are well formed, so they never stop a drain, and writing the same state
  of a job again changes nothing. The revisions clients compare with the server
  (\<open>sidecar/internal/realtime/reconcile.go\<close>, \<open>schema/v2/revision.go\<close>) read back as written, and a
  reconciliation asks for nothing exactly when both are current.
\<close>

section \<open>Task events\<close>

text \<open>The encoder's output decodes to what was encoded, quotients of doubles stay in range, the clock prints
  RFC 3339.\<close>

definition event_law :: "task_env \<Rightarrow> decoders \<Rightarrow> bool" where
  "event_law te de \<longleftrightarrow> (\<forall>e raw. teMarshal te e = Inr raw \<longrightarrow> deTask de raw = Some e)
     \<and> (\<forall>a b. 0 \<le> a \<and> a \<le> b \<and> 0 < b \<longrightarrow> 0 \<le> teDivide te a b \<and> teDivide te a b \<le> 1) \<and> deTime de (teNow te)"

definition job_ok :: "job_snapshot \<Rightarrow> bool" where
  "job_ok s \<longleftrightarrow> jsJobID s \<noteq> [] \<and> 0 \<le> jsCompleted s \<and> jsCompleted s \<le> jsTotal s"

lemma event_state_known: "event_state s \<in> set task_states"
  by (simp add: event_state_def task_states_def)

lemma task_event_fields [simp]:
  "tcContractVersion (task_event_of te s) = ContractVersion" "tcTopic (task_event_of te s) = ''task.changed''"
  "tcTaskID (task_event_of te s) = jsJobID s" "tcTaskType (task_event_of te s) = ''formulaBackfill''"
  "tcOccurredAt (task_event_of te s) = teNow te" "tcState (task_event_of te s) = event_state s"
  by (simp_all add: task_event_of_def Let_def)

lemma task_event_valid:
  assumes "event_law te de" "job_ok s" "orEventID row = tcEventID (task_event_of te s)"
  shows "valid_task de row (task_event_of te s)"
proof -
  have "1 \<le> tcSequence (task_event_of te s)" using assms(2) by (simp add: task_event_of_def Let_def job_ok_def)
  moreover have "0 \<le> tcProgress (task_event_of te s) \<and> tcProgress (task_event_of te s) \<le> 1"
    using assms(1,2) by (simp add: task_event_of_def Let_def job_ok_def event_law_def)
  ultimately show ?thesis using assms event_state_known [of s] by (simp add: valid_task_def event_law_def job_ok_def)
qed

text \<open>
  C40. What the hub stores has the type its readers expect. For a job with an identifier and a sensible
  progress, whatever its state, and a table whose rows are well formed, \<open>PersistTaskChanged\<close> leaves a
  table whose rows are all well formed, with or without an error, so no task event ever stops a drain or
  a catch-up. When it succeeds the event is in the table, and persisting the same state again changes
  nothing. That decoding inverts encoding is a hypothesis on \<open>encoding/json\<close>.
\<close>

theorem persisted_event_decodes:
  assumes hist: "outbox_log k hist" and rows: "\<And>row. row \<in> set (retained hist) \<Longrightarrow> \<not> isl (decodeOutboxRow de row)"
    and law: "event_law te de" and job: "job_ok s"
    and run: "PersistTaskChanged te cancelled app s (retained hist) = (r, rows')"
  shows "(\<forall>row \<in> set rows'. \<not> isl (decodeOutboxRow de row))
    \<and> (r = None \<longrightarrow> (\<exists>row \<in> set rows'. orEventID row = tcEventID (task_event_of te s)) \<and> PersistTaskChanged te None app s rows' = (None, rows'))"
proof -
  let ?e = "task_event_of te s"
  have again: "PersistTaskChanged te None app s rows' = (None, rows')"
    if "row \<in> set rows'" "orEventID row = tcEventID ?e" "teMarshal te ?e = Inr raw" "app" "teFind te = None" for row raw
  proof -
    have "list_ex (\<lambda>row. orEventID row = tcEventID ?e) rows'" using that by (auto simp: list_ex_iff)
    then show ?thesis using that by (simp add: PersistTaskChanged_def Let_def)
  qed
  consider (same) "rows' = retained hist" "r \<noteq> None"
    | (known) raw where "rows' = retained hist" "list_ex (\<lambda>row. orEventID row = tcEventID ?e) (retained hist)" "teMarshal te ?e = Inr raw" "app" "teFind te = None"
    | (new) raw where "rows' = append_outbox (tcEventID ?e) ''task.changed'' raw (retained hist)" "teMarshal te ?e = Inr raw" "app" "teFind te = None"
    using run by (auto simp: PersistTaskChanged_def Let_def split: option.splits sum.splits if_splits)
  then show ?thesis
  proof cases
    case same
    then show ?thesis using rows by blast
  next
    case known
    then show ?thesis using rows again by (auto simp: list_ex_iff)
  next
    case new
    let ?row = "\<lparr>orRowID = last_row hist + 1, orEventID = tcEventID ?e, orTopic = ''task.changed'', orPayload = raw\<rparr>"
    have rows': "rows' = retained (hist @ [?row])" using new(1) append_retained(1) [OF hist] by simp
    have "deTask de raw = Some ?e" using law new(2) by (simp add: event_law_def)
    then have dec: "\<not> isl (decodeOutboxRow de ?row)"
      using task_event_valid [OF law job, of ?row] by (simp add: decodeOutboxRow_def Let_def)
    have sub: "set rows' \<subseteq> insert ?row (set (retained hist))"
    proof -
      have "retained (hist @ [?row]) = drop (nat (int (length hist) + 1 - maxCatchupEvents)) (hist @ [?row])"
        by (simp add: retained_def add.commute)
      moreover have "set (drop (nat (int (length hist) + 1 - maxCatchupEvents)) hist) \<subseteq> set (retained hist)"
        unfolding retained_def by (rule set_drop_subset_set_drop) simp
      ultimately show ?thesis unfolding rows' using set_drop_subset [of _ "[?row]"] by (fastforce simp: drop_append)
    qed
    have mem: "?row \<in> set rows'"
    proof -
      have "nat (int (length (hist @ [?row])) - maxCatchupEvents) \<le> length hist" by (simp add: maxCatchupEvents_def)
      then show ?thesis by (simp add: rows' retained_def)
    qed
    have "\<forall>row \<in> set rows'. \<not> isl (decodeOutboxRow de row)" using sub dec rows by blast
    then show ?thesis using mem again [OF mem _ new(2-4)] by force
  qed
qed


definition task_demo_job :: job_snapshot where
  "task_demo_job = \<lparr>jsJobID = ''j1'', jsState = ''complete'', jsCompleted = 3, jsTotal = 3, jsLastRecordID = ''r3'', jsError = None\<rparr>"

definition task_demo_event :: task_event where
  "task_demo_event = \<lparr>tcContractVersion = ''2.0'', tcTopic = ''task.changed'', tcEventID = ''evt_task_00'', tcSequence = 6, tcOccurredAt = ''now'',
     tcTaskID = ''j1'', tcTaskType = ''formulaBackfill'', tcState = ''succeeded'', tcProgress = 1, tcCursor = Some ''row:r3'', tcError = None\<rparr>"

definition task_demo_env :: task_env where
  "task_demo_env = \<lparr>teHash = (\<lambda>_. ''00''), teNow = ''now'', teMarshal = (\<lambda>e. if e = task_demo_event then Inr ''{}'' else Inl (Err ''json'')),
     teDivide = (\<lambda>_ _. 1), teFind = None, teCollection = None, teSave = None\<rparr>"

definition task_demo_decoders :: decoders where
  "task_demo_decoders = \<lparr>deCatalog = (\<lambda>_. None), deCatalogValid = (\<lambda>_. False), deData = (\<lambda>_. None), deTask = (\<lambda>_. Some task_demo_event), deTime = (\<lambda>_. True)\<rparr>"

theorem persisted_event_decodes_witness:
  "\<exists>row. PersistTaskChanged task_demo_env None True task_demo_job [] = (None, [row]) \<and> \<not> isl (decodeOutboxRow task_demo_decoders row)
     \<and> PersistTaskChanged task_demo_env None True task_demo_job [row] = (None, [row])"
proof -
  have ev: "task_event_of task_demo_env task_demo_job = task_demo_event"
    by (simp add: task_event_of_def task_demo_env_def task_demo_job_def task_demo_event_def event_state_def terminal_def ContractVersion_def)
  let ?row = "\<lparr>orRowID = 1, orEventID = ''evt_task_00'', orTopic = ''task.changed'', orPayload = ''{}''\<rparr>"
  have marshal: "teMarshal task_demo_env task_demo_event = Inr ''{}''" by (simp add: task_demo_env_def)
  have faults: "teFind task_demo_env = None" "teCollection task_demo_env = None" "teSave task_demo_env = None"
    "tcEventID task_demo_event = ''evt_task_00''" "tcTopic task_demo_event = ''task.changed''"
    by (simp_all add: task_demo_env_def task_demo_event_def)
  have "append_outbox ''evt_task_00'' ''task.changed'' ''{}'' [] = [?row]"
    by (simp add: append_outbox_def insert_outbox_def retain_latest_def maxCatchupEvents_def)
  then have run: "PersistTaskChanged task_demo_env None True task_demo_job (retained []) = (None, [?row])"
    using marshal faults by (simp add: PersistTaskChanged_def Let_def ev retained_def)
  have log: "outbox_log 0 []" by (simp add: outbox_log_def)
  have "event_law task_demo_env task_demo_decoders" by (simp add: event_law_def task_demo_env_def task_demo_decoders_def)
  moreover have "job_ok task_demo_job" by (simp add: job_ok_def task_demo_job_def)
  moreover have "row \<in> set (retained []) \<Longrightarrow> \<not> isl (decodeOutboxRow task_demo_decoders row)" for row by (simp add: retained_def)
  ultimately have "\<not> isl (decodeOutboxRow task_demo_decoders ?row) \<and> PersistTaskChanged task_demo_env None True task_demo_job [?row] = (None, [?row])"
    using persisted_event_decodes [OF log _ _ _ run, of task_demo_decoders] by auto
  then show ?thesis using run by (simp add: retained_def)
qed

section \<open>Reconciliation\<close>

text \<open>\<open>schema_%04d\<close> and \<open>data_%04d\<close>, and the patterns they are parsed with.\<close>

definition FormatSchemaRevision :: "int \<Rightarrow> string" where
  "FormatSchemaRevision revision = ''schema_'' @ sprintf_0d 4 revision"

definition ParseSchemaRevision :: "string \<Rightarrow> int result" where
  "ParseSchemaRevision s =
     (let digits = drop 7 s
      in if take 7 s \<noteq> ''schema_'' \<or> digits = [] \<or> \<not> list_all is_digit digits
         then Inl (Err ''schema revision must use schema_<number> format'')
         else case parse_int64 digits of None \<Rightarrow> Inl (Err ''invalid schema revision'')
         | Some revision \<Rightarrow> if revision < 0 then Inl (Err ''invalid schema revision'') else Inr revision)"

definition formatDataRevision :: "int \<Rightarrow> string" where
  "formatDataRevision revision = ''data_'' @ sprintf_0d 4 revision"

definition parseDataRevision :: "string \<Rightarrow> int result" where
  "parseDataRevision s =
     (let digits = drop 5 s
      in if take 5 s \<noteq> ''data_'' \<or> length digits < 4 \<or> \<not> list_all is_digit digits then Inl (Err ''invalid data revision'')
         else case parse_int64 digits of None \<Rightarrow> Inl (Err ''integer overflow'') | Some revision \<Rightarrow> Inr revision)"

record reconcile_request =
  rqTableID :: string
  rqSchemaRevision :: string
  rqDataRevision :: string

record reconcile_result =
  rrTableID :: string
  rrClientSchemaRevision :: string
  rrClientDataRevision :: string
  rrCurrentSchemaRevision :: string
  rrCurrentDataRevision :: string
  rrAction :: string

text \<open>The source of the current revisions may be absent.\<close>

record revision_source =
  rvRevision :: "string \<Rightarrow> int result"
  rvDataRevision :: "string \<Rightarrow> int result"

definition Reconcile :: "revision_source option \<Rightarrow> reconcile_request \<Rightarrow> hub_error + reconcile_result" where
  "Reconcile source request =
     (case (if rqTableID request = [] then None else source) of
        None \<Rightarrow> Inl (hub_error ''request.invalid'' ''tableId and revision source are required'')
      | Some source \<Rightarrow>
          (case ParseSchemaRevision (rqSchemaRevision request) of Inl _ \<Rightarrow> Inl (hub_error ''request.invalid'' ''schemaRevision is invalid'')
           | Inr clientSchema \<Rightarrow>
          (case parseDataRevision (rqDataRevision request) of Inl _ \<Rightarrow> Inl (hub_error ''request.invalid'' ''dataRevision is invalid'')
           | Inr clientData \<Rightarrow>
          (case rvRevision source (rqTableID request) of Inl _ \<Rightarrow> Inl (hub_retry ''storage_failed'' ''current schema revision is unavailable'')
           | Inr currentSchema \<Rightarrow>
          (case rvDataRevision source (rqTableID request) of Inl _ \<Rightarrow> Inl (hub_retry ''storage_failed'' ''current data revision is unavailable'')
           | Inr currentData \<Rightarrow> Inr \<lparr>rrTableID = rqTableID request, rrClientSchemaRevision = rqSchemaRevision request,
               rrClientDataRevision = rqDataRevision request, rrCurrentSchemaRevision = FormatSchemaRevision currentSchema,
               rrCurrentDataRevision = formatDataRevision currentData,
               rrAction = (if clientSchema \<noteq> currentSchema then ''reload-schema'' else if clientData \<noteq> currentData then ''refresh-data'' else ''none'')\<rparr>)))))"

lemma revision_roundtrip:
  assumes "0 \<le> n" "n < 2 ^ 63"
  shows "ParseSchemaRevision (FormatSchemaRevision n) = Inr n" "parseDataRevision (formatDataRevision n) = Inr n"
proof -
  have s: "sprintf_0d 4 n = pad_zeros 4 (dec_text (nat n))" using assms(1) by (simp add: sprintf_0d_def)
  show "ParseSchemaRevision (FormatSchemaRevision n) = Inr n" "parseDataRevision (formatDataRevision n) = Inr n"
    using assms by (simp_all add: ParseSchemaRevision_def FormatSchemaRevision_def parseDataRevision_def formatDataRevision_def s pad_zeros_digits Let_def)
qed

text \<open>A client that sends the revisions it was given is told to do nothing exactly when both are current,
  and a changed schema takes precedence.\<close>

lemma reconcile_round_trip:
  assumes "rqTableID request \<noteq> []" "rqSchemaRevision request = FormatSchemaRevision m" "rqDataRevision request = formatDataRevision n"
    and "0 \<le> m" "m < 2 ^ 63" "0 \<le> n" "n < 2 ^ 63"
    and "rvRevision source (rqTableID request) = Inr m'" "rvDataRevision source (rqTableID request) = Inr n'"
  shows "\<exists>r. Reconcile (Some source) request = Inr r \<and> rrCurrentSchemaRevision r = FormatSchemaRevision m' \<and> rrCurrentDataRevision r = formatDataRevision n'
    \<and> (rrAction r = ''none'' \<longleftrightarrow> m = m' \<and> n = n') \<and> (rrAction r = ''reload-schema'' \<longleftrightarrow> m \<noteq> m')"
  using assms by (simp add: Reconcile_def revision_roundtrip)

end
