(* ===== verification/Spec2Isabelle.thy ===== *)
theory Spec2Isabelle
  imports VT_Prelude Write_Properties Exact_Decimal Auto_Number Retention Conflict Replica_Queue Restore Object_Repo
    Audit_Properties Computation_Search Rule_Enforcement Realtime_Events
begin

text \<open>
  VibeTable is a local-first workspace: tables in SQLite (through PocketBase), documents and tables
  mirrored into an object repository, replicas, an audit trail and live clients. The Go process that
  owns a workspace is under \<open>src/sidecar/\<close>; paths below are relative to \<open>src/sidecar/internal/\<close>. This
  library models the parts that carry its guarantees and proves them.

  \<^bold>\<open>How the parts interact.\<close> Every change passes the write coordinator, which numbers mutations and
  captures and survives crashes (\<open>writecoordinator/coordinator.go\<close>, \<open>persistent.go\<close>).
  Before a change commits, the transaction rules that plugins declare are checked: what the rules protect is
  read when the change begins, and the change is accepted only if the images before and after satisfy
  every active registration (\<open>transactionrules/\<close>).
  Committed changes leave rows in the outbox, which the realtime hub hands to clients, and envelopes for
  the audit ledger, which a drainer appends to a hash chain. Captures feed snapshots into the object
  repository; the replica queue publishes them; retention decides which objects may go; conflicts between
  two replicas are merged three ways; a restore swaps a snapshot in atomically. Formulas and lookups are
  planned from the schema: \<open>Validate\<close> accepts a schema, the plan orders and re-evaluates its formulas.

  \<^bold>\<open>Theories.\<close>
  \<^item> \<open>VT_Prelude\<close>: Go errors, byte strings, integers as text, SQL tables with a key, time; the locales of
    invariants and monotone quantities of a transition system and of exponential back-off.
  \<^item> \<open>Write_Store\<close>, \<open>Write_Coordinator\<close>, \<open>Write_Recovery\<close>, \<open>Write_Properties\<close>: the coordination database
    (counters, tokens, prepared mutations and captures as rows, one fault point per statement), the
    coordinator's operations over it (\<open>Write\<close>, \<open>Capture\<close>, \<open>Drain\<close>, rotation, recovery), the system of
    coordinator, database, external domain and crashes, and its properties: external commits numbered
    exactly once, every crash recoverable, superseded tokens refused, \<open>Write\<close> a run of the protocol.
  \<^item> \<open>Exact_Decimal\<close>: decimal amounts as bounded integers (\<open>exactdecimal/value.go\<close>).
  \<^item> \<open>Auto_Number\<close>: formats of automatic numbers and their allocator (\<open>schema/v2/auto_number.go\<close>,
    \<open>autonumber/state.go\<close>).
  \<^item> \<open>Retention\<close>: policy, reachability, plan and clean-up (\<open>retention/engine.go\<close>).
  \<^item> \<open>Conflict\<close>: plan and resolution of a conflict (\<open>conflict/resolver.go\<close>).
  \<^item> \<open>Replica_Queue\<close>: the durable and the in-memory queue, leases, back-off and the drain loop
    (\<open>replica/queue.go\<close>).
  \<^item> \<open>Restore\<close>: the journalled restore with rollback and recovery (\<open>restore/coordinator.go\<close>).
  \<^item> \<open>Object_Repo\<close>: the in-memory repository with commits, pins, authority and usage (\<open>objectrepo/memory.go\<close>).
  \<^item> \<open>Audit_Ledger\<close>, \<open>Audit_Properties\<close>: the hash-chained ledger, its prefixes and the drain of the audit
    outbox (\<open>auditledger/\<close>).
  \<^item> \<open>Dependency_Order\<close>: acyclicity of a relation that has a dependency order, and what is stuck has a cycle.
  \<^item> \<open>Formula_Plan\<close>: order, impact and evaluation of formulas (\<open>formula/plan.go\<close>).
  \<^item> \<open>Computation_Plan\<close>, \<open>Computation_Search\<close>: dependencies of formulas and lookups across tables and the
    search over them (\<open>computationplan/plan.go\<close>, \<open>formula/collection_sources.go\<close>).
  \<^item> \<open>Result_Monad\<close>: the library of checks that stop at the first error (sequencing, loops, maps of Go as
    association lists) and the locale \<open>persistent\<close> of facts that accepted changes keep.
  \<^item> \<open>Transaction_Rules\<close>: declarations, rules, registrations and their own validity
    (\<open>transactionrules/rules.go\<close>).
  \<^item> \<open>Rule_Checks\<close>, \<open>Reservation_Checks\<close>: the checks of every kind of rule on the images before and after a
    change (\<open>Registration.Validate\<close> in \<open>transactionrules/rules.go\<close>, \<open>paths.go\<close>, \<open>reversal.go\<close>, \<open>guards.go\<close>).
  \<^item> \<open>Transaction_Guards\<close>: what a rule depends on, reading the images, versions that retain older ones, the
    selection of guards, budgets, capture, validation and admission (\<open>transactionrules/rules.go\<close>).
  \<^item> \<open>Rule_Samples\<close>, \<open>Rule_Properties\<close>, \<open>Reservation_Properties\<close>: a workspace with a sample declaration and what
    acceptance guarantees: exact totals, bounded reversals, sealed documents, capacities, recorded execution,
    conserved transfers. \<open>Rule_Frames\<close>, \<open>Reservation_Frames\<close>, \<open>Rule_Enforcement\<close>: acceptance depends on the
    protected fields alone, and the active guards enforce the history of registrations.
  \<^item> \<open>Realtime_Hub\<close>, \<open>Realtime_Delivery\<close>, \<open>Realtime_Events\<close>: the outbox, the hub with its channels and both
    kinds of catching up, the system of hub and clients, task events and revisions (\<open>realtime/\<close>).

  \<^bold>\<open>How code is modelled.\<close> Structs are records, enumerations datatypes or the strings the code compares,
  errors values of \<open>go_error\<close> or of the package's own error type. Operations are functions from state to
  result and state, one branch per return of the code. Counters that the code keeps in \<open>uint64\<close> are
  64-bit words; sequences that the code bounds are \<^typ>\<open>int\<close>. Faults (of SQL statements, of a context, of
  a publisher) are arguments, so a theorem quantified over them speaks of every failure. Third-party code
  and unmodelled packages (SQLite, JSON, SHA-256, CEL, PocketBase) are arguments too, and what is assumed
  of them is a named hypothesis: encoders are inverted by decoders, digests do not collide, compiled
  formulas list what they read.

  \<^bold>\<open>Groups of lemmas.\<close> Each component has an invariant with a preservation lemma per operation, and a
  transition system (\<open>inductive\<close> steps) where operations interleave: \<open>Write_Recovery\<close>, \<open>Replica_Queue\<close>,
  \<open>Restore\<close>, \<open>Object_Repo\<close> and \<open>Realtime_Delivery\<close> interpret the locale of invariants of the prelude.
  \<open>backlog_source\<close> in \<open>Realtime_Delivery\<close> is the contract between \<open>subscribe\<close> and what reads a backlog; both
  \<open>catchup\<close> and \<open>recoveryBacklog\<close> satisfy it. In \<open>Computation_Plan\<close> the search with caches refines the
  dependencies read directly off the snapshot. \<open>persistent\<close> in \<open>Result_Monad\<close> turns what one accepted change keeps
  into what any number of them keeps; it is interpreted on states, sealed documents and recorded execution.
  \<open>three_way\<close> in \<open>Conflict\<close> is the contract of the comparison a merge uses, \<open>lease_queue\<close> in \<open>Replica_Queue\<close> that
  of a queue with leases, \<open>backoff\<close> that of its delays. Properties are numbered C1 to C40 where they are
  proved; other results (back-off bounds, idempotent enqueueing, a restore's success, refused stale plans,
  captures read back, rotation of audit epochs, superseded authorities, revisions) are theorems of the same
  theories.

  \<^bold>\<open>Bounds and fuel.\<close> Loops are structural, have a measure, or take fuel: the drains of the replica queue and
  of the audit outbox and the search for computed fields. Their theorems say how much is enough: one turn
  more than there are due tasks or pending rows, and one more than the fields that can be reached, each
  of which is on the search's stack at most once. The outbox keeps 10000 rows, a subscriber 256 events and
  the hub 32 subscribers as in the code. Delivery is exact as long as the retention trigger has not deleted a
  row that a live subscriber had still to get. The code does not enforce that (a row that cannot be decoded
  stops every drain while rows go on being committed); the transitions of \<open>Realtime_Delivery\<close> keep in
  \<open>syLagged\<close> whether it has happened, and it is a hypothesis of the properties of delivery.

  \<^bold>\<open>Not modelled.\<close> The schema document beyond what the planners read, its migrations, values of fields and their
  normalisation, queries, mutations, relations, the values of lookups and formulas, jobs, plugins, metadata,
  imports, file history, attachments, search, packages, the file-system and Kopia repositories and
  remotes, RPC and start-up: code around PocketBase, SQLite, CEL, encryption or the file system whose
  behaviour is theirs. Within the modelled parts: decoding of the JSON of declarations and \<open>ValidatePaths\<close> of the
  transaction rules; errors of a cancelled context and of PocketBase while their images are read; errors of
  the queries with which automatic numbers are backfilled; the unreachable wrap of the sequence of a task event.
\<close>

end
